(* ===== verification/Prelude.thy ===== *)
theory Prelude
  imports Main "HOL-Library.Word" "HOL-Library.Monad_Syntax" "HOL-Library.Signed_Division"
begin

text \<open>
  Shared vocabulary of the development: Rust results and panics as values, a state-passing
  monad for \<^verbatim>\<open>&mut self\<close> methods that keep their partial updates when they fail, the
  arithmetic of the fixed-width signed integers \<^verbatim>\<open>I192\<close>, \<^verbatim>\<open>I256\<close> and \<^verbatim>\<open>I384\<close>, and association
  lists for \<^verbatim>\<open>IndexMap\<close> (whose iteration order is its insertion order).
\<close>

named_theorems range_simps \<open>unfolding rules for the ranges of the fixed-width integers\<close>
named_theorems keeps_intros \<open>introduction rules for predicates kept by a state-passing function\<close>


section \<open>Results, errors and panics\<close>

text \<open>
  A Rust function returning \<^verbatim>\<open>Result<A, E>\<close> either returns, returns an error, or panics
  (\<^verbatim>\<open>unwrap\<close>, \<^verbatim>\<open>expect\<close>, \<^verbatim>\<open>assert!\<close>, an overflowing operator). The three outcomes are kept
  apart. A function returning \<^verbatim>\<open>Option<A>\<close> that may also panic uses \<open>unit\<close> as its error.
\<close>

datatype 'e fail = Err 'e | Panic

type_synonym ('e, 'a) res = "'e fail + 'a"

abbreviation Ok :: "'a \<Rightarrow> ('e, 'a) res" where
  "Ok \<equiv> Inr"

abbreviation Error :: "'e \<Rightarrow> ('e, 'a) res" where
  "Error e \<equiv> Inl (Err e)"

abbreviation Panics :: "('e, 'a) res" where
  "Panics \<equiv> Inl Panic"

definition rbind :: "('e, 'a) res \<Rightarrow> ('a \<Rightarrow> ('e, 'b) res) \<Rightarrow> ('e, 'b) res" where
  "rbind r k = (case r of Inl e \<Rightarrow> Inl e | Inr x \<Rightarrow> k x)"

definition expect :: "'a option \<Rightarrow> ('e, 'a) res" where
  "expect x = (case x of None \<Rightarrow> Panics | Some y \<Rightarrow> Ok y)"

definition ok_or :: "'a option \<Rightarrow> 'e \<Rightarrow> ('e, 'a) res" where
  "ok_or x e = (case x of None \<Rightarrow> Error e | Some y \<Rightarrow> Ok y)"

definition map_err :: "('e \<Rightarrow> 'f) \<Rightarrow> ('e, 'a) res \<Rightarrow> ('f, 'a) res" where
  "map_err f r = (case r of Inl (Err e) \<Rightarrow> Error (f e) | Inl Panic \<Rightarrow> Panics | Inr x \<Rightarrow> Ok x)"

definition assert_that :: "bool \<Rightarrow> ('e, unit) res" where
  "assert_that b = (if b then Ok () else Panics)"

definition ensure :: "bool \<Rightarrow> 'e \<Rightarrow> ('e, unit) res" where
  "ensure b e = (if b then Ok () else Error e)"

lemma rbind_simps [simp]:
  "rbind (Inr x) k = k x"
  "rbind (Inl e) k = Inl e"
  by (simp_all add: rbind_def)

lemma rbind_eq_Inr_iff: "rbind r k = Inr y \<longleftrightarrow> (\<exists>x. r = Inr x \<and> k x = Inr y)"
  by (cases r) auto

lemma rbind_eq_Inl_iff: "rbind r k = Inl e \<longleftrightarrow> r = Inl e \<or> (\<exists>x. r = Inr x \<and> k x = Inl e)"
  by (cases r) auto

lemma rbind_assoc: "rbind (rbind r f) g = rbind r (\<lambda>x. rbind (f x) g)"
  by (cases r) auto

lemma expect_simps [simp]:
  "expect None = Panics"
  "expect (Some x) = Ok x"
  by (simp_all add: expect_def)

lemma expect_eq_Inr_iff: "expect m = Inr y \<longleftrightarrow> m = Some y"
  by (cases m) auto

lemma ok_or_simps [simp]:
  "ok_or None e = Error e"
  "ok_or (Some x) e = Ok x"
  by (simp_all add: ok_or_def)

lemma ok_or_eq_Inr_iff: "ok_or m e = Inr y \<longleftrightarrow> m = Some y"
  by (cases m) auto

lemma map_err_simps [simp]:
  "map_err f (Inr x) = Inr x"
  "map_err f (Error e) = Error (f e)"
  "map_err f Panics = Panics"
  by (simp_all add: map_err_def)

lemma map_err_eq_Inr_iff: "map_err f r = Inr y \<longleftrightarrow> r = Inr y"
  by (cases r) (auto simp: map_err_def split: fail.splits)

lemma ensure_simps [simp]:
  "b \<Longrightarrow> ensure b e = Ok ()"
  "\<not> b \<Longrightarrow> ensure b e = Error e"
  by (simp_all add: ensure_def)

lemma ensure_eq_Inr_iff: "ensure b e = Inr u \<longleftrightarrow> b"
  by (simp add: ensure_def)

lemma assert_that_simps [simp]:
  "b \<Longrightarrow> assert_that b = Ok ()"
  "\<not> b \<Longrightarrow> assert_that b = Panics"
  by (simp_all add: assert_that_def)

lemma assert_that_eq_Inr_iff: "assert_that b = Inr u \<longleftrightarrow> b"
  by (simp add: assert_that_def)

lemmas res_iffs = rbind_eq_Inr_iff expect_eq_Inr_iff ok_or_eq_Inr_iff map_err_eq_Inr_iff
  ensure_eq_Inr_iff assert_that_eq_Inr_iff


section \<open>Methods on \<open>&mut self\<close>\<close>

text \<open>
  A method that mutates its receiver and may fail returns the receiver's state next to the
  outcome: when it fails half way the updates made so far are not undone.
\<close>

type_synonym ('s, 'e, 'a) mut_fn = "'s \<Rightarrow> 's \<times> ('e, 'a) res"

definition mreturn :: "'a \<Rightarrow> ('s, 'e, 'a) mut_fn" where
  "mreturn x s = (s, Ok x)"

definition mbind :: "('s, 'e, 'a) mut_fn \<Rightarrow> ('a \<Rightarrow> ('s, 'e, 'b) mut_fn) \<Rightarrow> ('s, 'e, 'b) mut_fn" where
  "mbind m k s = (case m s of (s', r) \<Rightarrow> (case r of Inl e \<Rightarrow> (s', Inl e) | Inr x \<Rightarrow> k x s'))"

definition mseq :: "('s, 'e, unit) mut_fn \<Rightarrow> ('s, 'e, 'b) mut_fn \<Rightarrow> ('s, 'e, 'b) mut_fn" where
  "mseq m n = mbind m (\<lambda>_. n)"

definition mlift :: "('s \<Rightarrow> ('e, 'a) res) \<Rightarrow> ('s, 'e, 'a) mut_fn" where
  "mlift f s = (s, f s)"

definition mmodify :: "('s \<Rightarrow> 's) \<Rightarrow> ('s, 'e, unit) mut_fn" where
  "mmodify f s = (f s, Ok ())"

primrec mforeach :: "('a \<Rightarrow> ('s, 'e, unit) mut_fn) \<Rightarrow> 'a list \<Rightarrow> ('s, 'e, unit) mut_fn" where
  "mforeach f [] = mreturn ()"
| "mforeach f (x # xs) = mseq (f x) (mforeach f xs)"

lemma mreturn_apply [simp]: "mreturn x s = (s, Ok x)"
  by (simp add: mreturn_def)

lemma mlift_apply [simp]: "mlift f s = (s, f s)"
  by (simp add: mlift_def)

lemma mmodify_apply [simp]: "mmodify f s = (f s, Ok ())"
  by (simp add: mmodify_def)

lemma mbind_apply_Inr [simp]: "m s = (s', Inr x) \<Longrightarrow> mbind m k s = k x s'"
  by (simp add: mbind_def)

lemma mbind_apply_Inl [simp]: "m s = (s', Inl e) \<Longrightarrow> mbind m k s = (s', Inl e)"
  by (simp add: mbind_def)

lemma mbind_eq_Inr_iff:
  "mbind m k s = (t, Inr y) \<longleftrightarrow> (\<exists>s' x. m s = (s', Inr x) \<and> k x s' = (t, Inr y))"
  by (auto simp: mbind_def split: prod.splits sum.splits)

lemma mseq_eq_Inr_iff:
  "mseq m n s = (t, Inr y) \<longleftrightarrow> (\<exists>s'. m s = (s', Inr ()) \<and> n s' = (t, Inr y))"
  by (simp add: mseq_def mbind_eq_Inr_iff)

lemma mseq_apply_Inr [simp]: "m s = (s', Inr x) \<Longrightarrow> mseq m n s = n s'"
  by (simp add: mseq_def)

lemma mseq_apply_Inl [simp]: "m s = (s', Inl e) \<Longrightarrow> mseq m n s = (s', Inl e)"
  by (simp add: mseq_def)

text \<open>
  \<open>keeps P m\<close>: unless \<open>m\<close> panics, a receiver satisfying \<open>P\<close> satisfies it afterwards,
  whether \<open>m\<close> succeeds or returns an error. (A panic ends the execution.)
\<close>

definition keeps :: "('s \<Rightarrow> bool) \<Rightarrow> ('s, 'e, 'a) mut_fn \<Rightarrow> bool" where
  "keeps P m \<longleftrightarrow> (\<forall>s. P s \<longrightarrow> snd (m s) \<noteq> Panics \<longrightarrow> P (fst (m s)))"

lemma keepsI: "(\<And>s s' r. P s \<Longrightarrow> m s = (s', r) \<Longrightarrow> r \<noteq> Panics \<Longrightarrow> P s') \<Longrightarrow> keeps P m"
  unfolding keeps_def by (metis prod.collapse)

lemma keepsD: "keeps P m \<Longrightarrow> P s \<Longrightarrow> m s = (s', r) \<Longrightarrow> r \<noteq> Panics \<Longrightarrow> P s'"
  unfolding keeps_def by (metis fst_conv snd_conv)

lemma keeps_mreturn [keeps_intros]: "keeps P (mreturn x)"
  by (simp add: keeps_def)

lemma keeps_mlift [keeps_intros]: "keeps P (mlift f)"
  by (simp add: keeps_def)

lemma keeps_mmodify: "(\<And>s. P s \<Longrightarrow> P (f s)) \<Longrightarrow> keeps P (mmodify f)"
  by (simp add: keeps_def)

lemma keeps_mbind [keeps_intros]:
  assumes "keeps P m" and "\<And>x. keeps P (k x)"
  shows "keeps P (mbind m k)"
proof (rule keepsI)
  fix s t r assume P: "P s" and run: "mbind m k s = (t, r)" and np: "r \<noteq> Panics"
  obtain s' r' where ms: "m s = (s', r')" by (cases "m s")
  show "P t"
  proof (cases r')
    case (Inl e)
    then have "r = Inl e" "t = s'" using run ms by simp_all
    then show ?thesis using keepsD [OF assms(1) P ms] np Inl by auto
  next
    case (Inr x)
    then have "P s'" using keepsD [OF assms(1) P ms] by simp
    moreover have "k x s' = (t, r)" using run ms Inr by simp
    ultimately show ?thesis using keepsD [OF assms(2)] np by blast
  qed
qed

text \<open>A method that reads a value from its receiver first: the value may be assumed.\<close>

lemma keeps_read:
  assumes "\<And>s x s' r. P s \<Longrightarrow> f s = Ok x \<Longrightarrow> k x s = (s', r) \<Longrightarrow> r \<noteq> Panics \<Longrightarrow> P s'"
  shows "keeps P (mbind (mlift f) k)"
proof (rule keepsI)
  fix s t r assume "P s" and "mbind (mlift f) k s = (t, r)" and "r \<noteq> Panics"
  then show "P t" using assms by (cases "f s") (auto simp: mbind_def)
qed

lemma mlift_runE:
  assumes "mbind (mlift f) k s = (s', r)"
  obtains (stop) e where "f s = Inl e" "s' = s" "r = Inl e"
    | (go) x where "f s = Ok x" "k x s = (s', r)"
  using assms by (cases "f s") (auto simp: mbind_def)

lemma keeps_mseq [keeps_intros]: "keeps P m \<Longrightarrow> keeps P n \<Longrightarrow> keeps P (mseq m n)"
  unfolding mseq_def by (rule keeps_mbind)

lemma keeps_if [keeps_intros]:
  "keeps P m \<Longrightarrow> keeps P n \<Longrightarrow> keeps P (\<lambda>s. if b s then m s else n s)"
  by (simp add: keeps_def)

lemma keeps_arg: "(\<And>x. keeps P (m x)) \<Longrightarrow> keeps P (\<lambda>s. m (f s) s)"
  by (simp add: keeps_def)

lemma keeps_conj: "keeps P m \<Longrightarrow> keeps Q m \<Longrightarrow> keeps (\<lambda>s. P s \<and> Q s) m"
  by (auto simp: keeps_def)

lemma keeps_mforeach [keeps_intros]: "(\<And>x. keeps P (f x)) \<Longrightarrow> keeps P (mforeach f xs)"
  by (induction xs) (auto intro: keeps_mseq keeps_mreturn)


text \<open>\<open>never_panics P m\<close>: \<open>m\<close> does not panic on a receiver satisfying \<open>P\<close>.\<close>

definition never_panics :: "('s \<Rightarrow> bool) \<Rightarrow> ('s, 'e, 'a) mut_fn \<Rightarrow> bool" where
  "never_panics P m \<longleftrightarrow> (\<forall>s. P s \<longrightarrow> snd (m s) \<noteq> Panics)"

lemma never_panicsI: "(\<And>s s' r. P s \<Longrightarrow> m s = (s', r) \<Longrightarrow> r \<noteq> Panics) \<Longrightarrow> never_panics P m"
  unfolding never_panics_def by (metis prod.collapse)

lemma never_panicsD: "never_panics P m \<Longrightarrow> P s \<Longrightarrow> m s = (s', r) \<Longrightarrow> r \<noteq> Panics"
  unfolding never_panics_def by (metis snd_conv)

lemma never_panics_mbind:
  assumes "never_panics P m" and "keeps P m" and "\<And>x. never_panics P (k x)"
  shows "never_panics P (mbind m k)"
proof (rule never_panicsI)
  fix s t r assume P: "P s" and run: "mbind m k s = (t, r)"
  obtain s' r' where ms: "m s = (s', r')" by (cases "m s")
  then have "r' \<noteq> Panics" and "P s'" using assms(1,2) P never_panicsD keepsD by metis+
  then show "r \<noteq> Panics" using run ms never_panicsD [OF assms(3) \<open>P s'\<close>]
    by (cases r') (auto simp: mbind_def)
qed

lemma never_panics_mseq:
  "never_panics P m \<Longrightarrow> keeps P m \<Longrightarrow> never_panics P n \<Longrightarrow> never_panics P (mseq m n)"
  unfolding mseq_def by (rule never_panics_mbind)

lemma never_panics_simps [simp]:
  "never_panics P (mreturn x)"
  "never_panics P (mmodify f)"
  by (simp_all add: never_panics_def)

lemma never_panics_mlift: "(\<And>s. P s \<Longrightarrow> f s \<noteq> Panics) \<Longrightarrow> never_panics P (mlift f)"
  by (simp add: never_panics_def)

lemma never_panics_arg: "(\<And>x. never_panics P (m x)) \<Longrightarrow> never_panics P (\<lambda>s. m (f s) s)"
  by (simp add: never_panics_def)

lemma never_panics_if:
  "never_panics P m \<Longrightarrow> never_panics P n \<Longrightarrow> never_panics P (\<lambda>s. if b s then m s else n s)"
  by (simp add: never_panics_def)


section \<open>Actions of a transaction\<close>

text \<open>
  Code that runs inside a transaction: a failure aborts the transaction, so that a failed action
  has no state after it. \<open>azoom\<close> runs an action of a component on its part of the state.
\<close>

type_synonym ('s, 'e, 'a) action = "'s \<Rightarrow> ('e, 'a \<times> 's) res"

definition abind :: "('s, 'e, 'a) action \<Rightarrow> ('a \<Rightarrow> ('s, 'e, 'b) action) \<Rightarrow> ('s, 'e, 'b) action" where
  "abind m k w = rbind (m w) (\<lambda>(x, w'). k x w')"

definition areturn :: "'a \<Rightarrow> ('s, 'e, 'a) action" where
  "areturn x w = Ok (x, w)"

definition aread :: "('s \<Rightarrow> ('e, 'a) res) \<Rightarrow> ('s, 'e, 'a) action" where
  "aread f w = rbind (f w) (\<lambda>x. Ok (x, w))"

definition amodify :: "('s \<Rightarrow> 's) \<Rightarrow> ('s, 'e, unit) action" where
  "amodify f w = Ok ((), f w)"

definition azoom :: "('s \<Rightarrow> 't) \<Rightarrow> ('t \<Rightarrow> 's \<Rightarrow> 's) \<Rightarrow> ('f \<Rightarrow> 'e) \<Rightarrow> ('t, 'f, 'a) action \<Rightarrow> ('s, 'e, 'a) action" where
  "azoom get put err m w = rbind (map_err err (m (get w))) (\<lambda>(x, t). Ok (x, put t w))"

primrec aforeach :: "('a \<Rightarrow> ('s, 'e, unit) action) \<Rightarrow> 'a list \<Rightarrow> ('s, 'e, unit) action" where
  "aforeach f [] = areturn ()"
| "aforeach f (x # xs) = abind (f x) (\<lambda>_. aforeach f xs)"

lemma abind_areturn: "abind m areturn = m"
  by (auto simp: abind_def areturn_def fun_eq_iff rbind_def split: sum.splits)

lemma abind_assoc: "abind (abind m f) g = abind m (\<lambda>x. abind (f x) g)"
  by (auto simp: abind_def fun_eq_iff rbind_def split: sum.splits)

lemma abind_return [simp]: "abind (areturn x) k = k x"
  by (simp add: abind_def areturn_def fun_eq_iff)

lemma abind_Ok_iff: "abind m k w = Ok (y, w') \<longleftrightarrow> (\<exists>x v. m w = Ok (x, v) \<and> k x v = Ok (y, w'))"
  by (auto simp: abind_def rbind_eq_Inr_iff)

lemma areturn_Ok_iff: "areturn x w = Ok (y, w') \<longleftrightarrow> y = x \<and> w' = w"
  by (auto simp: areturn_def)

lemma aread_Ok_iff: "aread f w = Ok (y, w') \<longleftrightarrow> f w = Ok y \<and> w' = w"
  by (auto simp: aread_def rbind_eq_Inr_iff)

lemma amodify_Ok_iff: "amodify f w = Ok (y, w') \<longleftrightarrow> w' = f w"
  by (auto simp: amodify_def)

lemma azoom_Ok_iff:
  "azoom get put err m w = Ok (y, w') \<longleftrightarrow> (\<exists>t. m (get w) = Ok (y, t) \<and> w' = put t w)"
  by (auto simp: azoom_def rbind_eq_Inr_iff map_err_eq_Inr_iff)

lemmas action_iffs = abind_Ok_iff areturn_Ok_iff aread_Ok_iff amodify_Ok_iff azoom_Ok_iff

lemmas action_defs = abind_def areturn_def aread_def amodify_def azoom_def


section \<open>Reachable states\<close>

text \<open>
  The states a component can get into: an initial state, or a step from such a state. The
  locale \<open>invariant_of\<close> is what a component shows of its invariant; in return it holds in
  every reachable state.
\<close>

inductive reach :: "('s \<Rightarrow> bool) \<Rightarrow> ('s \<Rightarrow> 's \<Rightarrow> bool) \<Rightarrow> 's \<Rightarrow> bool" for init step where
  reach_init: "init s \<Longrightarrow> reach init step s"
| reach_step: "reach init step s \<Longrightarrow> step s t \<Longrightarrow> reach init step t"

locale invariant_of =
  fixes init :: "'s \<Rightarrow> bool"
    and step :: "'s \<Rightarrow> 's \<Rightarrow> bool"
    and inv :: "'s \<Rightarrow> bool"
  assumes inv_init: "init s \<Longrightarrow> inv s"
    and inv_step: "inv s \<Longrightarrow> step s t \<Longrightarrow> inv t"
begin

lemma reach_inv: "reach init step s \<Longrightarrow> inv s"
  by (induction rule: reach.induct) (auto intro: inv_init inv_step)

end


section \<open>Fixed-width signed integers\<close>

text \<open>
  The wrappers \<^verbatim>\<open>I192\<close>, \<^verbatim>\<open>I256\<close>, \<^verbatim>\<open>I320\<close>, \<^verbatim>\<open>I384\<close> of \<^verbatim>\<open>bnum_integer.rs\<close> behave as two's
  complement integers of their width: a value is an \<open>int\<close> in range, a checked operation
  returns \<open>None\<close> when its exact result is out of range, and an operator panics there.
\<close>

definition i_min :: "nat \<Rightarrow> int" where
  "i_min bits = - (2 ^ (bits - 1))"

definition i_max :: "nat \<Rightarrow> int" where
  "i_max bits = 2 ^ (bits - 1) - 1"

definition in_range :: "nat \<Rightarrow> int \<Rightarrow> bool" where
  "in_range bits x \<longleftrightarrow> i_min bits \<le> x \<and> x \<le> i_max bits"

declare i_min_def [range_simps] i_max_def [range_simps] in_range_def [range_simps]

definition i_checked :: "nat \<Rightarrow> int \<Rightarrow> int option" where
  "i_checked bits x = (if in_range bits x then Some x else None)"

definition i_checked_add :: "nat \<Rightarrow> int \<Rightarrow> int \<Rightarrow> int option" where
  "i_checked_add bits x y = i_checked bits (x + y)"

definition i_checked_sub :: "nat \<Rightarrow> int \<Rightarrow> int \<Rightarrow> int option" where
  "i_checked_sub bits x y = i_checked bits (x - y)"

definition i_checked_mul :: "nat \<Rightarrow> int \<Rightarrow> int \<Rightarrow> int option" where
  "i_checked_mul bits x y = i_checked bits (x * y)"

definition i_checked_neg :: "nat \<Rightarrow> int \<Rightarrow> int option" where
  "i_checked_neg bits x = i_checked bits (- x)"

definition i_checked_div :: "nat \<Rightarrow> int \<Rightarrow> int \<Rightarrow> int option" where
  "i_checked_div bits x y = (if y = 0 then None else i_checked bits (x sdiv y))"

definition i_add :: "nat \<Rightarrow> int \<Rightarrow> int \<Rightarrow> ('e, int) res" where
  "i_add bits x y = expect (i_checked_add bits x y)"

definition i_pow :: "nat \<Rightarrow> int \<Rightarrow> nat \<Rightarrow> ('e, int) res" where
  "i_pow bits x n = expect (i_checked bits (x ^ n))"

lemma i_checked_simps [simp]:
  "in_range bits x \<Longrightarrow> i_checked bits x = Some x"
  "\<not> in_range bits x \<Longrightarrow> i_checked bits x = None"
  by (simp_all add: i_checked_def)

lemma i_checked_eq_Some_iff: "i_checked bits x = Some y \<longleftrightarrow> y = x \<and> in_range bits x"
  by (auto simp: i_checked_def)

lemma i_checked_eq_None_iff: "i_checked bits x = None \<longleftrightarrow> \<not> in_range bits x"
  by (simp add: i_checked_def)

lemmas i_checked_ops = i_checked_add_def i_checked_sub_def i_checked_mul_def i_checked_neg_def
  i_checked_div_def

text \<open>The number of bits of a non-negative integer, and the conversions of \<^verbatim>\<open>convert.rs\<close>.\<close>

function bit_len :: "int \<Rightarrow> nat" where
  "bit_len x = (if x \<le> 0 then 0 else Suc (bit_len (x div 2)))"
  by pat_completeness auto
termination
  by (relation "measure nat") auto

declare bit_len.simps [simp del]

definition leading_zeros :: "nat \<Rightarrow> int \<Rightarrow> int" where
  "leading_zeros bits x = (if x < 0 then 0 else int bits - int (bit_len x))"

definition try_from_bnum :: "nat \<Rightarrow> nat \<Rightarrow> int \<Rightarrow> int option" where
  "try_from_bnum from_bits to_bits val =
     (let (other, sign) = (if val < 0 \<and> val \<noteq> i_min from_bits then (- val, - 1) else (val, 1))
      in if leading_zeros from_bits other \<le> int from_bits - int to_bits then None
         else Some (other * sign))"

lemma bit_len_le_iff: "0 \<le> x \<Longrightarrow> bit_len x \<le> n \<longleftrightarrow> x < 2 ^ n"
proof (induction n arbitrary: x)
  case 0
  then show ?case by (subst bit_len.simps) auto
next
  case (Suc n)
  show ?case
  proof (cases "x = 0")
    case True
    then show ?thesis by (simp add: bit_len.simps)
  next
    case False
    with Suc.prems have "bit_len x \<le> Suc n \<longleftrightarrow> bit_len (x div 2) \<le> n"
      by (subst bit_len.simps) simp
    also have "\<dots> \<longleftrightarrow> x div 2 < 2 ^ n"
      using Suc.prems by (intro Suc.IH) simp
    also have "\<dots> \<longleftrightarrow> x < 2 ^ Suc n" by auto
    finally show ?thesis .
  qed
qed

text \<open>
  Narrowing keeps exactly the values whose magnitude is below the target's sign bit: the
  target's own minimum is rejected.
\<close>

lemma try_from_bnum_narrow:
  assumes "in_range from_bits x" and "0 < to_bits" and "to_bits < from_bits"
  shows "try_from_bnum from_bits to_bits x = (if \<bar>x\<bar> < 2 ^ (to_bits - 1) then Some x else None)"
proof -
  have lz: "leading_zeros from_bits y \<le> int from_bits - int to_bits \<longleftrightarrow> \<not> y < 2 ^ (to_bits - 1)"
    if "0 \<le> y" for y
    using bit_len_le_iff [OF that, of "to_bits - 1"] that assms(2)
    by (auto simp: leading_zeros_def)
  have big: "(2::int) ^ (to_bits - 1) \<le> 2 ^ (from_bits - 1)"
    using assms(3) by (intro power_increasing) auto
  show ?thesis
  proof (cases "x = i_min from_bits")
    case True
    then have "x < 0" and "\<not> \<bar>x\<bar> < 2 ^ (to_bits - 1)"
      using big by (simp_all add: i_min_def)
    then show ?thesis using True assms(3)
      by (simp add: try_from_bnum_def leading_zeros_def)
  next
    case False
    then show ?thesis
      using lz [of x] lz [of "- x"] by (auto simp: try_from_bnum_def abs_if)
  qed
qed


section \<open>Association lists for \<open>IndexMap\<close>\<close>

text \<open>
  \<^verbatim>\<open>IndexMap::insert\<close> overwrites in place or appends; \<^verbatim>\<open>swap_remove\<close> moves the last entry into
  the hole.
\<close>

fun im_insert :: "'k \<Rightarrow> 'v \<Rightarrow> ('k \<times> 'v) list \<Rightarrow> ('k \<times> 'v) list" where
  "im_insert k v [] = [(k, v)]"
| "im_insert k v ((k', v') # m) = (if k = k' then (k, v) # m else (k', v') # im_insert k v m)"

definition im_replace_last :: "('k \<times> 'v) list \<Rightarrow> ('k \<times> 'v) list" where
  "im_replace_last m = (if m = [] then [] else last m # butlast m)"

fun im_swap_remove :: "'k \<Rightarrow> ('k \<times> 'v) list \<Rightarrow> ('k \<times> 'v) list" where
  "im_swap_remove k [] = []"
| "im_swap_remove k ((k', v') # m) =
     (if k = k' then im_replace_last m else (k', v') # im_swap_remove k m)"

abbreviation im_get :: "('k \<times> 'v) list \<Rightarrow> 'k \<Rightarrow> 'v option" where
  "im_get \<equiv> map_of"

abbreviation im_wf :: "('k \<times> 'v) list \<Rightarrow> bool" where
  "im_wf m \<equiv> distinct (map fst m)"

definition im_get_or :: "'v \<Rightarrow> ('k \<times> 'v) list \<Rightarrow> 'k \<Rightarrow> 'v" where
  "im_get_or d m k = (case im_get m k of None \<Rightarrow> d | Some v \<Rightarrow> v)"

lemma im_get_insert [simp]: "im_get (im_insert k v m) = (im_get m)(k \<mapsto> v)"
  by (induction k v m rule: im_insert.induct) (auto simp: fun_eq_iff)

lemma keys_im_insert [simp]: "fst ` set (im_insert k v m) = insert k (fst ` set m)"
  by (induction k v m rule: im_insert.induct) auto

lemma im_wf_insert [simp, intro]: "im_wf m \<Longrightarrow> im_wf (im_insert k v m)"
proof (induction k v m rule: im_insert.induct)
  case (2 k v k' v' m)
  moreover have "k' \<notin> set (map fst (im_insert k v m))" if "k \<noteq> k'" "k' \<notin> fst ` set m"
    using that by simp
  ultimately show ?case by auto
qed simp

lemma set_im_replace_last [simp]: "set (im_replace_last m) = set m"
proof (cases "m = []")
  case False
  then obtain ms x where "m = ms @ [x]" by (metis append_butlast_last_id)
  then show ?thesis by (auto simp: im_replace_last_def)
qed (simp add: im_replace_last_def)

lemma im_wf_replace_last [simp]: "im_wf (im_replace_last m) = im_wf m"
proof (cases "m = []")
  case False
  then obtain ms x where "m = ms @ [x]" by (metis append_butlast_last_id)
  then show ?thesis by (auto simp: im_replace_last_def)
qed (simp add: im_replace_last_def)

lemma set_im_swap_remove: "im_wf m \<Longrightarrow> set (im_swap_remove k m) = {p \<in> set m. fst p \<noteq> k}"
  by (induction k m rule: im_swap_remove.induct) (auto simp: rev_image_eqI)

lemma im_wf_swap_remove [simp, intro]: "im_wf m \<Longrightarrow> im_wf (im_swap_remove k m)"
  by (induction k m rule: im_swap_remove.induct) (auto simp: set_im_swap_remove)

lemma im_get_swap_remove:
  assumes "im_wf m"
  shows "im_get (im_swap_remove k m) = (im_get m)(k := None)"
proof
  fix x
  have wf: "im_wf (im_swap_remove k m)" using assms by simp
  show "im_get (im_swap_remove k m) x = ((im_get m)(k := None)) x"
  proof (cases "im_get (im_swap_remove k m) x")
    case None
    then have "x \<notin> fst ` {p \<in> set m. fst p \<noteq> k}"
      by (simp add: map_of_eq_None_iff set_im_swap_remove [OF assms])
    then have "x = k \<or> im_get m x = None"
      by (auto simp: map_of_eq_None_iff)
    with None show ?thesis by auto
  next
    case (Some v)
    then have "(x, v) \<in> {p \<in> set m. fst p \<noteq> k}"
      using wf by (simp add: map_of_eq_Some_iff set_im_swap_remove [OF assms])
    then show ?thesis using Some assms by auto
  qed
qed

lemma sum_im_insert_gen:
  fixes f :: "'k \<times> 'v \<Rightarrow> int"
  assumes "im_wf m"
  shows "sum_list (map f (im_insert k v m)) =
    sum_list (map f m) - (case im_get m k of None \<Rightarrow> 0 | Some w \<Rightarrow> f (k, w)) + f (k, v)"
  using assms
proof (induction k v m rule: im_insert.induct)
  case (2 k v k' v' m)
  then show ?case by (auto split: option.splits)
qed simp

text \<open>Adding to one entry of an \<^verbatim>\<open>IndexMap\<close> of amounts adds to its sum.\<close>

lemma sum_im_insert:
  fixes m :: "('k \<times> int) list"
  assumes "im_wf m"
  shows "sum_list (map snd (im_insert k v m)) = sum_list (map snd m) - im_get_or 0 m k + v"
  using assms
proof (induction k v m rule: im_insert.induct)
  case (2 k v k' v' m)
  then show ?case by (auto simp: im_get_or_def)
qed (simp add: im_get_or_def)

lemma ball_im_insert: "\<forall>p \<in> set m. P p \<Longrightarrow> P (k, v) \<Longrightarrow> \<forall>p \<in> set (im_insert k v m). P p"
  by (induction k v m rule: im_insert.induct) auto

lemma im_get_or_nonneg:
  fixes m :: "('k \<times> int) list"
  assumes "\<forall>p \<in> set m. 0 \<le> snd p"
  shows "0 \<le> im_get_or 0 m k"
  using assms by (force simp: im_get_or_def split: option.splits dest: map_of_SomeD)

lemma sum_im_replace_last [simp]:
  fixes f :: "_ \<Rightarrow> int"
  shows "sum_list (map f (im_replace_last m)) = sum_list (map f m)"
proof (cases "m = []")
  case False
  then obtain ms x where "m = ms @ [x]" by (metis append_butlast_last_id)
  then show ?thesis by (simp add: im_replace_last_def)
qed (simp add: im_replace_last_def)

lemma sum_im_swap_remove:
  fixes f :: "'k \<times> 'v \<Rightarrow> int"
  assumes "im_wf m" and "im_get m k = Some v"
  shows "sum_list (map f (im_swap_remove k m)) = sum_list (map f m) - f (k, v)"
  using assms
  by (induction k m rule: im_swap_remove.induct) auto

end
