(* ===== verification/Fixed_Point.thy ===== *)
theory Fixed_Point
  imports Prelude
begin

text \<open>
  The fixed-point numbers of \<^verbatim>\<open>radix-common/src/math\<close>: \<^verbatim>\<open>Decimal\<close> (an \<^verbatim>\<open>I192\<close> of \<open>10 ^ -18\<close>
  subunits) and \<^verbatim>\<open>PreciseDecimal\<close> (an \<^verbatim>\<open>I256\<close> of \<open>10 ^ -36\<close> subunits). A value is its
  number of subunits. The two Rust types share their code up to the width and the scale, so
  each operation is written once over \<open>bits\<close>, \<open>scale\<close> and the width \<open>wide\<close> of the
  intermediate integers, and instantiated for both types. The locale \<open>fixed_point\<close> collects
  the facts on the three numbers that make rounding, multiplication and division exact; it is
  interpreted for both types.
\<close>

named_theorems decimal_defs \<open>the Decimal operations as instances of the generic ones\<close>


section \<open>Rounding modes\<close>

datatype rounding_mode =
    ToPositiveInfinity
  | ToNegativeInfinity
  | ToZero
  | AwayFromZero
  | ToNearestMidpointTowardZero
  | ToNearestMidpointAwayFromZero
  | ToNearestMidpointToEven

datatype resolved_rounding_strategy = RoundUp | RoundDown | RoundToEven

datatype ordering = Less | Equal | Greater

definition cmp :: "int \<Rightarrow> int \<Rightarrow> ordering" where
  "cmp x y = (if x < y then Less else if x = y then Equal else Greater)"

definition towards_zero :: "bool \<Rightarrow> resolved_rounding_strategy" where
  "towards_zero is_positive = (if is_positive then RoundDown else RoundUp)"

definition away_from_zero :: "bool \<Rightarrow> resolved_rounding_strategy" where
  "away_from_zero is_positive = (if is_positive then RoundUp else RoundDown)"

fun from_midpoint_ordering ::
    "ordering \<Rightarrow> resolved_rounding_strategy \<Rightarrow> resolved_rounding_strategy" where
  "from_midpoint_ordering Less equal_strategy = RoundDown"
| "from_midpoint_ordering Equal equal_strategy = equal_strategy"
| "from_midpoint_ordering Greater equal_strategy = RoundUp"

fun from_mode :: "rounding_mode \<Rightarrow> bool \<Rightarrow> ordering \<Rightarrow> resolved_rounding_strategy" where
  "from_mode ToPositiveInfinity is_positive compare_to_midpoint = RoundUp"
| "from_mode ToNegativeInfinity is_positive compare_to_midpoint = RoundDown"
| "from_mode ToZero is_positive compare_to_midpoint = towards_zero is_positive"
| "from_mode AwayFromZero is_positive compare_to_midpoint = away_from_zero is_positive"
| "from_mode ToNearestMidpointTowardZero is_positive compare_to_midpoint =
     from_midpoint_ordering compare_to_midpoint (towards_zero is_positive)"
| "from_mode ToNearestMidpointAwayFromZero is_positive compare_to_midpoint =
     from_midpoint_ordering compare_to_midpoint (away_from_zero is_positive)"
| "from_mode ToNearestMidpointToEven is_positive compare_to_midpoint =
     from_midpoint_ordering compare_to_midpoint RoundToEven"


section \<open>The operations, for any width and scale\<close>

text \<open>The last \<^verbatim>\<open>match\<close> of \<^verbatim>\<open>checked_round\<close>: the subunits the resolved strategy gives.\<close>

definition fp_apply_strategy ::
    "nat \<Rightarrow> int \<Rightarrow> int \<Rightarrow> int \<Rightarrow> resolved_rounding_strategy \<Rightarrow> (unit, int) res" where
  "fp_apply_strategy bits self divisor positive_remainder resolved_strategy =
     (case resolved_strategy of
        RoundUp \<Rightarrow>
          rbind (expect (i_checked_sub bits divisor positive_remainder)) (\<lambda>to_add.
          ok_or (i_checked_add bits self to_add) ())
      | RoundDown \<Rightarrow> ok_or (i_checked_sub bits self positive_remainder) ()
      | RoundToEven \<Rightarrow>
          (let double_divisor = divisor * 2 in
           if 0 < self then
             rbind (ok_or (i_checked_sub bits self positive_remainder) ()) (\<lambda>rounded_down.
             if rounded_down smod double_divisor = 0 then Ok rounded_down
             else ok_or (i_checked_add bits rounded_down divisor) ())
           else
             rbind (expect (i_checked_sub bits divisor positive_remainder)) (\<lambda>to_add.
             rbind (ok_or (i_checked_add bits self to_add) ()) (\<lambda>rounded_up.
             if rounded_up smod double_divisor = 0 then Ok rounded_up
             else ok_or (i_checked_sub bits rounded_up divisor) ()))))"

definition fp_checked_round ::
    "nat \<Rightarrow> nat \<Rightarrow> int \<Rightarrow> int \<Rightarrow> rounding_mode \<Rightarrow> (unit, int) res" where
  "fp_checked_round bits scale self decimal_places mode =
     rbind (assert_that (decimal_places \<le> int scale)) (\<lambda>_.
     rbind (assert_that (0 \<le> decimal_places)) (\<lambda>_.
     rbind (i_pow bits 10 (scale - nat decimal_places)) (\<lambda>divisor.
     let remainder = self smod divisor in
     if remainder = 0 then Ok self
     else
       rbind (if remainder < 0 then i_add bits divisor remainder else Ok remainder)
         (\<lambda>positive_remainder.
       fp_apply_strategy bits self divisor positive_remainder
         (from_mode mode (0 < self) (cmp positive_remainder (divisor div 2)))))))"

definition fp_checked_mul :: "nat \<Rightarrow> nat \<Rightarrow> nat \<Rightarrow> int \<Rightarrow> int \<Rightarrow> int option" where
  "fp_checked_mul bits scale wide self other =
     do {
       c \<leftarrow> i_checked_mul wide self other;
       c \<leftarrow> i_checked_div wide c (10 ^ scale);
       try_from_bnum wide bits c
     }"

definition fp_checked_div :: "nat \<Rightarrow> nat \<Rightarrow> nat \<Rightarrow> int \<Rightarrow> int \<Rightarrow> int option" where
  "fp_checked_div bits scale wide self other =
     do {
       c \<leftarrow> i_checked_mul wide self (10 ^ scale);
       c \<leftarrow> i_checked_div wide c other;
       try_from_bnum wide bits c
     }"

text \<open>
  \<^verbatim>\<open>checked_powi\<close> squares in the wide integers and recurses on the halved exponent; the
  exponent is an \<^verbatim>\<open>i64\<close>, so negating its minimum fails. The argument \<open>exp\<close> is an \<open>int\<close>.
\<close>

function fp_checked_powi :: "nat \<Rightarrow> nat \<Rightarrow> nat \<Rightarrow> int \<Rightarrow> int \<Rightarrow> int option" where
  "fp_checked_powi bits scale wide self exp =
     (if exp < 0 then
        do {
          c \<leftarrow> i_checked_div wide (10 ^ scale * 10 ^ scale) self;
          base \<leftarrow> try_from_bnum wide bits c;
          exp' \<leftarrow> i_checked_mul 64 exp (- 1);
          fp_checked_powi bits scale wide base exp'
        }
      else if exp = 0 then Some (10 ^ scale)
      else if exp = 1 then Some self
      else if exp mod 2 = 0 then
        do {
          c \<leftarrow> i_checked_mul wide self self;
          base \<leftarrow> try_from_bnum wide bits (c sdiv 10 ^ scale);
          fp_checked_powi bits scale wide base (exp div 2)
        }
      else
        do {
          c \<leftarrow> i_checked_mul wide self self;
          base \<leftarrow> try_from_bnum wide bits (c sdiv 10 ^ scale);
          b \<leftarrow> fp_checked_powi bits scale wide base ((exp - 1) div 2);
          fp_checked_mul bits scale wide self b
        })"
  by pat_completeness auto
termination
  by (relation "measures [\<lambda>(bits, scale, wide, self, exp). if exp < 0 then 1 else 0,
                          \<lambda>(bits, scale, wide, self, exp). nat \<bar>exp\<bar>]")
    (auto simp: i_checked_ops i_checked_eq_Some_iff)

declare fp_checked_powi.simps [simp del]

text \<open>
  \<^verbatim>\<open>ParseDecimalError\<close> and \<^verbatim>\<open>ParsePreciseDecimalError\<close> differ in one constructor, the limit on
  decimal places; one datatype has both. Conversion to a primitive integer type holding the values
  from \<open>lo\<close> to \<open>hi\<close> rejects fractions.
\<close>

datatype parse_decimal_error =
    InvalidDigit
  | Overflow
  | EmptyIntegralPart
  | EmptyFractionalPart
  | MoreThanEighteenDecimalPlaces
  | MoreThanThirtySixDecimalPlaces
  | MoreThanOneDecimalPoint
  | InvalidLength nat

definition fp_to_primitive ::
    "nat \<Rightarrow> nat \<Rightarrow> int \<Rightarrow> int \<Rightarrow> int \<Rightarrow> (parse_decimal_error, int) res" where
  "fp_to_primitive bits scale lo hi val =
     rbind (map_err (\<lambda>_. Overflow) (fp_checked_round bits scale val 0 ToZero)) (\<lambda>rounded.
     rbind (ok_or (i_checked_sub bits val rounded) Overflow) (\<lambda>fraction.
     if fraction \<noteq> 0 then Error InvalidDigit
     else let i = rounded sdiv 10 ^ scale in
       if lo \<le> i \<and> i \<le> hi then Ok i else Error Overflow))"


section \<open>Decimal\<close>

type_synonym decimal = int

abbreviation is_decimal :: "decimal \<Rightarrow> bool" where
  "is_decimal \<equiv> in_range 192"

definition dec_min :: decimal where
  "dec_min = i_min 192"

definition dec_max :: decimal where
  "dec_max = i_max 192"

definition dec_one :: decimal where
  "dec_one = 10 ^ 18"

definition dec_checked_abs :: "decimal \<Rightarrow> decimal option" where
  "dec_checked_abs self = (if self \<noteq> dec_min then Some \<bar>self\<bar> else None)"

definition dec_checked_round ::
    "decimal \<Rightarrow> int \<Rightarrow> rounding_mode \<Rightarrow> (unit, decimal) res" where
  "dec_checked_round self decimal_places mode =
     fp_checked_round 192 18 self decimal_places mode"

definition dec_checked_floor :: "decimal \<Rightarrow> (unit, decimal) res" where
  "dec_checked_floor self = dec_checked_round self 0 ToNegativeInfinity"

definition dec_checked_ceiling :: "decimal \<Rightarrow> (unit, decimal) res" where
  "dec_checked_ceiling self = dec_checked_round self 0 ToPositiveInfinity"

definition dec_checked_powi :: "decimal \<Rightarrow> int \<Rightarrow> decimal option" where
  "dec_checked_powi self exp = fp_checked_powi 192 18 256 self exp"

definition dec_checked_neg :: "decimal \<Rightarrow> decimal option" where
  "dec_checked_neg self = i_checked_neg 192 self"

definition dec_checked_add :: "decimal \<Rightarrow> decimal \<Rightarrow> decimal option" where
  "dec_checked_add self other = i_checked_add 192 self other"

definition dec_saturating_add :: "decimal \<Rightarrow> decimal \<Rightarrow> decimal" where
  "dec_saturating_add self other = max dec_min (min dec_max (self + other))"

definition dec_checked_sub :: "decimal \<Rightarrow> decimal \<Rightarrow> decimal option" where
  "dec_checked_sub self other = i_checked_sub 192 self other"

definition dec_checked_mul :: "decimal \<Rightarrow> decimal \<Rightarrow> decimal option" where
  "dec_checked_mul self other = fp_checked_mul 192 18 256 self other"

definition dec_checked_div :: "decimal \<Rightarrow> decimal \<Rightarrow> decimal option" where
  "dec_checked_div self other = fp_checked_div 192 18 256 self other"

text \<open>The operators \<open>+\<close>, \<open>-\<close> and the compound assignments panic where the checked operation fails.\<close>

definition dec_add :: "decimal \<Rightarrow> decimal \<Rightarrow> ('e, decimal) res" where
  "dec_add self other = expect (dec_checked_add self other)"

definition dec_sub :: "decimal \<Rightarrow> decimal \<Rightarrow> ('e, decimal) res" where
  "dec_sub self other = expect (dec_checked_sub self other)"

text \<open>\<^verbatim>\<open>Decimal::from\<close> on a primitive integer: at most 128 bits, so it cannot overflow.\<close>

definition dec_from_int :: "int \<Rightarrow> decimal" where
  "dec_from_int val = val * dec_one"

definition dec_to_u32 :: "decimal \<Rightarrow> (parse_decimal_error, int) res" where
  "dec_to_u32 val = fp_to_primitive 192 18 0 (2 ^ 32 - 1) val"

declare dec_checked_round_def [decimal_defs] dec_checked_powi_def [decimal_defs]
  dec_checked_neg_def [decimal_defs] dec_checked_add_def [decimal_defs]
  dec_checked_sub_def [decimal_defs] dec_checked_mul_def [decimal_defs]
  dec_checked_div_def [decimal_defs]


section \<open>PreciseDecimal\<close>

type_synonym precise_decimal = int

abbreviation is_precise_decimal :: "precise_decimal \<Rightarrow> bool" where
  "is_precise_decimal \<equiv> in_range 256"

definition pdec_one :: precise_decimal where
  "pdec_one = 10 ^ 36"

definition pdec_checked_round ::
    "precise_decimal \<Rightarrow> int \<Rightarrow> rounding_mode \<Rightarrow> (unit, precise_decimal) res" where
  "pdec_checked_round self decimal_places mode =
     fp_checked_round 256 36 self decimal_places mode"

definition pdec_checked_powi :: "precise_decimal \<Rightarrow> int \<Rightarrow> precise_decimal option" where
  "pdec_checked_powi self exp = fp_checked_powi 256 36 384 self exp"

definition pdec_checked_neg :: "precise_decimal \<Rightarrow> precise_decimal option" where
  "pdec_checked_neg self = i_checked_neg 256 self"

definition pdec_checked_add :: "precise_decimal \<Rightarrow> precise_decimal \<Rightarrow> precise_decimal option" where
  "pdec_checked_add self other = i_checked_add 256 self other"

definition pdec_checked_sub :: "precise_decimal \<Rightarrow> precise_decimal \<Rightarrow> precise_decimal option" where
  "pdec_checked_sub self other = i_checked_sub 256 self other"

definition pdec_checked_mul :: "precise_decimal \<Rightarrow> precise_decimal \<Rightarrow> precise_decimal option" where
  "pdec_checked_mul self other = fp_checked_mul 256 36 384 self other"

definition pdec_checked_div :: "precise_decimal \<Rightarrow> precise_decimal \<Rightarrow> precise_decimal option" where
  "pdec_checked_div self other = fp_checked_div 256 36 384 self other"

definition pdec_from_dec :: "decimal \<Rightarrow> precise_decimal" where
  "pdec_from_dec val = val * 10 ^ (36 - 18)"

definition pdec_checked_truncate ::
    "precise_decimal \<Rightarrow> rounding_mode \<Rightarrow> (unit, decimal) res" where
  "pdec_checked_truncate self mode =
     rbind (pdec_checked_round self 18 mode) (\<lambda>rounded.
     rbind (ok_or (i_checked_div 256 rounded (10 ^ (36 - 18))) ()) (\<lambda>a_256.
     ok_or (try_from_bnum 256 192 a_256) ()))"


section \<open>What rounding means\<close>

text \<open>
  \<open>is_rounding mode d x r\<close>: \<open>r\<close> is the multiple of \<open>d\<close> the documentation of the mode
  names for \<open>x\<close>. It says nothing of how the code finds it.
\<close>

fun is_rounding :: "rounding_mode \<Rightarrow> int \<Rightarrow> int \<Rightarrow> int \<Rightarrow> bool" where
  "is_rounding ToPositiveInfinity d x r \<longleftrightarrow> d dvd r \<and> x \<le> r \<and> r - x < d"
| "is_rounding ToNegativeInfinity d x r \<longleftrightarrow> d dvd r \<and> r \<le> x \<and> x - r < d"
| "is_rounding ToZero d x r \<longleftrightarrow> d dvd r \<and> 0 \<le> x * r \<and> \<bar>r\<bar> \<le> \<bar>x\<bar> \<and> \<bar>x\<bar> - \<bar>r\<bar> < d"
| "is_rounding AwayFromZero d x r \<longleftrightarrow> d dvd r \<and> 0 \<le> x * r \<and> \<bar>x\<bar> \<le> \<bar>r\<bar> \<and> \<bar>r\<bar> - \<bar>x\<bar> < d"
| "is_rounding ToNearestMidpointTowardZero d x r \<longleftrightarrow>
     d dvd r \<and> 2 * \<bar>x - r\<bar> \<le> d \<and> (2 * \<bar>x - r\<bar> = d \<longrightarrow> \<bar>r\<bar> \<le> \<bar>x\<bar>)"
| "is_rounding ToNearestMidpointAwayFromZero d x r \<longleftrightarrow>
     d dvd r \<and> 2 * \<bar>x - r\<bar> \<le> d \<and> (2 * \<bar>x - r\<bar> = d \<longrightarrow> \<bar>x\<bar> \<le> \<bar>r\<bar>)"
| "is_rounding ToNearestMidpointToEven d x r \<longleftrightarrow>
     d dvd r \<and> 2 * \<bar>x - r\<bar> \<le> d \<and> (2 * \<bar>x - r\<bar> = d \<longrightarrow> even (r div d))"

text \<open>The multiple the strategies select: below or above \<open>x\<close>.\<close>

definition round_down :: "int \<Rightarrow> int \<Rightarrow> int" where
  "round_down d x = x - x mod d"

definition round_strategy :: "resolved_rounding_strategy \<Rightarrow> int \<Rightarrow> int \<Rightarrow> int" where
  "round_strategy st d x =
     (case st of
        RoundUp \<Rightarrow> round_down d x + d
      | RoundDown \<Rightarrow> round_down d x
      | RoundToEven \<Rightarrow> if even (x div d) then round_down d x else round_down d x + d)"

definition round_ref :: "rounding_mode \<Rightarrow> int \<Rightarrow> int \<Rightarrow> int" where
  "round_ref mode d x =
     (if d dvd x then x
      else round_strategy (from_mode mode (0 < x) (cmp (2 * (x mod d)) d)) d x)"


lemma smod_eq_0_iff: "(x :: int) smod d = 0 \<longleftrightarrow> d dvd x"
  by (auto simp: smod_int_alt_def sgn_eq_0_iff mod_eq_0_iff_dvd)

lemma smod_neg_iff_mod:
  fixes x :: int
  assumes "0 < d" and "x smod d < 0"
  shows "d + x smod d = x mod d" and "x < 0"
proof -
  show neg: "x < 0"
  proof (rule ccontr)
    assume "\<not> x < 0"
    then have "x smod d = x mod d"
      using assms(1) by (cases "x = 0") (simp_all add: smod_int_alt_def)
    then show False using assms pos_mod_sign [OF assms(1), of x] by linarith
  qed
  then have "x smod d = - ((- x) mod d)"
    using assms(1) by (simp add: smod_int_alt_def)
  moreover have "\<not> d dvd x"
    using assms(2) smod_eq_0_iff [of x d] by auto
  ultimately show "d + x smod d = x mod d"
    by (simp add: zmod_zminus1_eq_if mod_eq_0_iff_dvd)
qed

lemma smod_pos_eq_mod:
  fixes x :: int
  assumes "0 < d" and "0 < x smod d"
  shows "x smod d = x mod d" and "0 < x"
proof -
  show pos: "0 < x"
  proof (rule ccontr)
    assume "\<not> 0 < x"
    then have "x smod d = - ((- x) mod d)"
      using assms(1) by (cases "x = 0") (simp_all add: smod_int_alt_def)
    then show False using assms pos_mod_sign [OF assms(1), of "- x"] by linarith
  qed
  then show "x smod d = x mod d"
    using assms(1) by (simp add: smod_int_alt_def)
qed

lemma round_down_mult: "round_down d x = d * (x div d)"
  by (simp add: round_down_def minus_mod_eq_mult_div)

lemma dvd_round_strategy: "d dvd round_strategy st d x"
  by (cases st) (simp_all add: round_strategy_def round_down_mult)

lemma round_down_dvd_double:
  assumes "(0::int) < d"
  shows "(d * 2) dvd round_down d x \<longleftrightarrow> even (x div d)"
    and "(d * 2) dvd (round_down d x + d) \<longleftrightarrow> odd (x div d)"
proof -
  show "(d * 2) dvd round_down d x \<longleftrightarrow> even (x div d)"
    using assms by (simp add: round_down_mult)
  have "round_down d x + d = d * (x div d + 1)"
    by (simp add: round_down_mult algebra_simps)
  then show "(d * 2) dvd (round_down d x + d) \<longleftrightarrow> odd (x div d)"
    using assms by simp
qed

lemma mod_bounds_nz:
  fixes x :: int
  assumes "0 < d" and "\<not> d dvd x"
  shows "0 < x mod d" and "x mod d < d"
  using assms by (simp_all add: dvd_eq_mod_eq_0 order.not_eq_order_implies_strict)

lemma cmp_simps [simp]:
  "cmp x y = Less \<longleftrightarrow> x < y"
  "cmp x y = Equal \<longleftrightarrow> x = y"
  "cmp x y = Greater \<longleftrightarrow> y < x"
  by (auto simp: cmp_def)

lemma round_ref_bracket:
  assumes "0 < d"
  shows "round_ref mode d x = x \<and> d dvd x \<or>
    \<not> d dvd x \<and> (round_ref mode d x = round_down d x \<or> round_ref mode d x = round_down d x + d)"
  by (auto simp: round_ref_def round_strategy_def split: resolved_rounding_strategy.splits)

text \<open>Two roundings of the same number by the same mode agree.\<close>

lemma multiples_in_gap_eq:
  fixes r s :: int
  assumes "d dvd r" "d dvd s" "\<bar>r - s\<bar> < d"
  shows "r = s"
proof -
  from assms(1,2) have "d dvd r - s" by simp
  then show ?thesis
    using assms(3) dvd_imp_le_int [of "r - s" d] by (cases "r - s = 0") auto
qed

lemma sandwiched_halves:
  fixes a b c d :: int
  assumes "2 * a \<le> d" "2 * b \<le> d" "d \<le> c" "c \<le> a + b"
  shows "2 * a = d" and "2 * b = d" and "c = d"
  using assms by presburger+

lemma nearest_multiples:
  fixes r s x :: int
  assumes "d dvd r" "d dvd s" "2 * \<bar>x - r\<bar> \<le> d" "2 * \<bar>x - s\<bar> \<le> d" "r \<noteq> s"
  shows "2 * \<bar>x - r\<bar> = d" and "2 * \<bar>x - s\<bar> = d" and "\<bar>r - s\<bar> = d" and "r + s = 2 * x"
proof -
  have ge: "d \<le> \<bar>r - s\<bar>"
    using multiples_in_gap_eq [OF assms(1,2)] assms(5) by linarith
  have le: "\<bar>r - s\<bar> \<le> \<bar>x - r\<bar> + \<bar>x - s\<bar>" by arith
  note sandwich = sandwiched_halves [OF assms(3,4) ge le]
  show xr: "2 * \<bar>x - r\<bar> = d" by (rule sandwich(1))
  show xs: "2 * \<bar>x - s\<bar> = d" by (rule sandwich(2))
  show "\<bar>r - s\<bar> = d" by (rule sandwich(3))
  from xr xs have "\<bar>x - r\<bar> = \<bar>x - s\<bar>" by simp
  then have "x - r = x - s \<or> x - r = s - x" by (simp add: abs_eq_iff)
  then show "r + s = 2 * x" using assms(5) by linarith
qed

lemma nearest_tie_sides:
  fixes r s x :: int
  assumes "d dvd r" "d dvd s" "\<bar>r - s\<bar> = d" "r + s = 2 * x" "0 < d"
  shows "\<bar>r\<bar> < \<bar>x\<bar> \<and> \<bar>x\<bar> < \<bar>s\<bar> \<or> \<bar>s\<bar> < \<bar>x\<bar> \<and> \<bar>x\<bar> < \<bar>r\<bar>"
proof -
  obtain a b where ab: "r = d * a" "s = d * b" using assms(1,2) by blast
  have "\<bar>a - b\<bar> = 1"
    using assms(3,5) ab by (simp add: abs_mult flip: right_diff_distrib)
  then consider "b = a + 1" | "a = b + 1" by linarith
  then show ?thesis
  proof cases
    case 1
    then have "s = r + d" using ab by (simp add: algebra_simps)
    moreover have "r \<ge> 0 \<or> s \<le> 0"
      using 1 ab assms(5) by (cases "a \<ge> 0") (auto simp: mult_le_0_iff zero_le_mult_iff)
    ultimately show ?thesis using assms(4,5) by linarith
  next
    case 2
    then have "r = s + d" using ab by (simp add: algebra_simps)
    moreover have "s \<ge> 0 \<or> r \<le> 0"
      using 2 ab assms(5) by (cases "b \<ge> 0") (auto simp: mult_le_0_iff zero_le_mult_iff)
    ultimately show ?thesis using assms(4,5) by linarith
  qed
qed

lemma nearest_tie_parity:
  fixes r s x :: int
  assumes "d dvd r" "d dvd s" "\<bar>r - s\<bar> = d" "0 < d"
  shows "even (r div d) \<longleftrightarrow> odd (s div d)"
proof -
  obtain a b where ab: "r = d * a" "s = d * b" using assms(1,2) by blast
  have "\<bar>a - b\<bar> = 1"
    using assms(3,4) ab by (simp add: abs_mult flip: right_diff_distrib)
  then have "a = b + 1 \<or> b = a + 1" by linarith
  then show ?thesis using ab assms(4) by auto
qed

lemma is_rounding_unique:
  assumes d: "0 < d" and r: "is_rounding mode d x r" and s: "is_rounding mode d x s"
  shows "r = s"
proof (rule ccontr)
  assume ne: "r \<noteq> s"
  have dvd: "d dvd r" "d dvd s" using r s by (cases mode; simp)+
  have gap: "\<not> \<bar>r - s\<bar> < d" using multiples_in_gap_eq [OF dvd] ne by blast
  have near: False
    if n: "2 * \<bar>x - r\<bar> \<le> d" "2 * \<bar>x - s\<bar> \<le> d"
      and t: "\<lbrakk>2 * \<bar>x - r\<bar> = d; 2 * \<bar>x - s\<bar> = d; \<bar>r - s\<bar> = d; r + s = 2 * x\<rbrakk> \<Longrightarrow> False"
    using t nearest_multiples [OF dvd n ne] by blast
  note tie = nearest_tie_sides [OF dvd _ _ d] nearest_tie_parity [OF dvd _ d]
  show False
  proof (cases mode)
    case ToZero
    then have "0 \<le> x * r" "0 \<le> x * s" "\<bar>r\<bar> \<le> \<bar>x\<bar>" "\<bar>x\<bar> - \<bar>r\<bar> < d" "\<bar>s\<bar> \<le> \<bar>x\<bar>" "\<bar>x\<bar> - \<bar>s\<bar> < d"
      using r s by auto
    then show False using gap by (auto simp: zero_le_mult_iff)
  next
    case AwayFromZero
    then have "0 \<le> x * r" "0 \<le> x * s" "\<bar>x\<bar> \<le> \<bar>r\<bar>" "\<bar>r\<bar> - \<bar>x\<bar> < d" "\<bar>x\<bar> \<le> \<bar>s\<bar>" "\<bar>s\<bar> - \<bar>x\<bar> < d"
      using r s by auto
    moreover have "r = 0" "s = 0" if "x = 0"
      using calculation that multiples_in_gap_eq [OF dvd(1) dvd_0_right]
        multiples_in_gap_eq [OF dvd(2) dvd_0_right] by auto
    ultimately show False using gap d by (auto simp: zero_le_mult_iff)
  next
    case ToNearestMidpointTowardZero
    show False
    proof (rule near)
      assume t: "2 * \<bar>x - r\<bar> = d" "2 * \<bar>x - s\<bar> = d" "\<bar>r - s\<bar> = d" "r + s = 2 * x"
      with r s ToNearestMidpointTowardZero have "\<bar>r\<bar> \<le> \<bar>x\<bar>" "\<bar>s\<bar> \<le> \<bar>x\<bar>" by simp_all
      then show False using tie(1) [OF t(3,4)] by linarith
    qed (use r s ToNearestMidpointTowardZero in simp_all)
  next
    case ToNearestMidpointAwayFromZero
    show False
    proof (rule near)
      assume t: "2 * \<bar>x - r\<bar> = d" "2 * \<bar>x - s\<bar> = d" "\<bar>r - s\<bar> = d" "r + s = 2 * x"
      with r s ToNearestMidpointAwayFromZero have "\<bar>x\<bar> \<le> \<bar>r\<bar>" "\<bar>x\<bar> \<le> \<bar>s\<bar>" by simp_all
      then show False using tie(1) [OF t(3,4)] by linarith
    qed (use r s ToNearestMidpointAwayFromZero in simp_all)
  next
    case ToNearestMidpointToEven
    show False
    proof (rule near)
      assume t: "2 * \<bar>x - r\<bar> = d" "2 * \<bar>x - s\<bar> = d" "\<bar>r - s\<bar> = d" "r + s = 2 * x"
      with r s ToNearestMidpointToEven have "even (r div d)" "even (s div d)" by simp_all
      then show False using tie(2) [OF t(3)] by simp
    qed (use r s ToNearestMidpointToEven in simp_all)
  qed (use r s gap in auto)
qed


lemma round_ref_is_rounding:
  assumes d: "0 < d"
  shows "is_rounding mode d x (round_ref mode d x)"
proof (cases "d dvd x")
  case True
  then show ?thesis using d by (cases mode) (auto simp: round_ref_def)
next
  case False
  define q p where "q = x div d" and "p = x mod d"
  have x: "x = d * q + p" by (simp add: q_def p_def)
  have p: "0 < p" "p < d" using mod_bounds_nz [OF d False] by (simp_all add: p_def)
  have side: "0 < x \<Longrightarrow> 0 \<le> d * q" "x < 0 \<Longrightarrow> d * q + d \<le> 0"
  proof -
    show "0 \<le> d * q" if "0 < x"
      using that d by (simp add: q_def pos_imp_zdiv_nonneg_iff)
    have "d * (q + 1) \<le> 0" if "x < 0"
      using that d pos_imp_zdiv_neg_iff [OF d, of x] by (simp add: q_def mult_le_0_iff)
    then show "d * q + d \<le> 0" if "x < 0" using that by (simp add: algebra_simps)
  qed
  have nz: "x \<noteq> 0" using False by auto
  have q: "x < 0 \<Longrightarrow> q \<le> 0" using pos_imp_zdiv_neg_iff [OF d, of x] by (simp add: q_def)
  have even_up: "even ((d * q + d) div d) \<longleftrightarrow> odd q"
    using d by (simp add: div_add_self2)
  show ?thesis
    using False p nz side q d even_up
    by (cases mode)
      (auto simp: round_ref_def round_strategy_def round_down_mult towards_zero_def
        away_from_zero_def cmp_def zero_le_mult_iff mult_le_0_iff x simp flip: q_def p_def
        split: if_splits)
qed


section \<open>Exactness, for widths and scales that fit\<close>

text \<open>
  The code relies on three facts on the numbers of each type: a doubled unit fits the type,
  the intermediate type is wider, and it holds any value of the type times a unit.
\<close>

locale fixed_point =
  fixes bits scale wide :: nat
  assumes bits_pos: "0 < bits"
    and unit_fits: "2 * 10 ^ scale \<le> i_max bits"
    and wider: "bits < wide"
    and wide_fits: "2 ^ (bits - 1) * 10 ^ scale < (2 ^ (wide - 1) :: int)"
begin

lemma pow10_fits:
  assumes "n \<le> scale"
  shows "in_range bits (10 ^ n)" and "2 * 10 ^ n \<le> i_max bits"
proof -
  have "(10::int) ^ n \<le> 10 ^ scale" using assms by (intro power_increasing) auto
  moreover have "(0::int) < 10 ^ n" by simp
  moreover have "i_min bits \<le> 0" by (simp add: i_min_def)
  ultimately show "2 * 10 ^ n \<le> i_max bits" and "in_range bits (10 ^ n)"
    unfolding in_range_def using unit_fits by linarith+
qed

lemma in_range_between:
  "in_range bits x \<Longrightarrow> 0 \<le> x \<Longrightarrow> 0 \<le> y \<Longrightarrow> y \<le> x \<Longrightarrow> in_range bits y"
  "in_range bits x \<Longrightarrow> y \<le> 0 \<Longrightarrow> x \<le> y \<Longrightarrow> in_range bits y"
  by (auto simp: range_simps intro: order_trans [of _ 0])

lemma even_pow10: "n \<noteq> 0 \<Longrightarrow> even (10 ^ n :: int)"
  by simp

lemma round_down_in_range:
  assumes "in_range bits x" "0 < d" "0 < x"
  shows "in_range bits (round_down d x)"
  using assms in_range_between(1) [of x "round_down d x"] zmod_le_nonneg_dividend [of x d]
  by (simp add: round_down_def)

lemma round_up_in_range:
  assumes "in_range bits x" "0 < d" "\<not> d dvd x" "\<not> 0 < x"
  shows "in_range bits (round_down d x + d)"
proof -
  have "x < 0" using assms(3,4) by (cases "x = 0") auto
  then have "x div d + 1 \<le> 0" using pos_imp_zdiv_neg_iff [OF assms(2), of x] by simp
  then have "d * (x div d + 1) \<le> 0" using assms(2) by (simp add: mult_le_0_iff)
  then have "round_down d x + d \<le> 0" by (simp add: round_down_mult algebra_simps)
  moreover have "x \<le> round_down d x + d"
    using mod_bounds_nz [OF assms(2,3)] by (simp add: round_down_def)
  ultimately show ?thesis using assms(1) in_range_between(2) by blast
qed

text \<open>Each strategy gives the multiple it names, and fails exactly when that is out of range.\<close>

lemma apply_strategy_eq:
  assumes x: "in_range bits x" and d: "0 < d" "in_range bits d" and nd: "\<not> d dvd x"
  shows "fp_apply_strategy bits x d (x mod d) st = ok_or (i_checked bits (round_strategy st d x)) ()"
proof -
  define p y where "p = x mod d" and "y = x + (d - p)"
  have p: "0 < p" "p < d" using mod_bounds_nz [OF d(1) nd] by (simp_all add: p_def)
  have dp: "in_range bits (d - p)" using p d(2) in_range_between(1) [of d "d - p"] by simp
  have down: "x - p = round_down d x" by (simp add: round_down_def p_def)
  have up: "x + (d - p) = y" "round_down d x + d = y" "y - d = round_down d x"
    by (simp_all add: y_def flip: down)
  have parity: "round_down d x smod (d * 2) = 0 \<longleftrightarrow> even (x div d)"
    "y smod (d * 2) = 0 \<longleftrightarrow> odd (x div d)"
    using round_down_dvd_double [OF d(1), of x] by (simp_all add: smod_eq_0_iff up(2))
  have side: "0 < x \<Longrightarrow> in_range bits (round_down d x)" "\<not> 0 < x \<Longrightarrow> in_range bits y"
    using round_down_in_range [OF x d(1)] round_up_in_range [OF x d(1) nd] by (simp_all add: up)
  show ?thesis
    using side dp
    by (cases st) (simp_all add: fp_apply_strategy_def round_strategy_def i_checked_ops parity up down
        Let_def flip: p_def)
qed

text \<open>The code finds the reference rounding, and fails exactly when it is out of range.\<close>

lemma checked_round_eq:
  assumes x: "in_range bits x" and dp: "0 \<le> dp" "dp \<le> int scale"
  defines "d \<equiv> 10 ^ (scale - nat dp)"
  shows "fp_checked_round bits scale x dp mode = ok_or (i_checked bits (round_ref mode d x)) ()"
proof -
  have d: "0 < d" "in_range bits d" using pow10_fits(1) [of "scale - nat dp"] by (simp_all add: d_def)
  then have pow: "i_pow bits 10 (scale - nat dp) = (Ok d :: (unit, int) res)"
    by (simp add: i_pow_def d_def)
  show ?thesis
  proof (cases "d dvd x")
    case True
    then show ?thesis using x dp smod_eq_0_iff [of x d]
      by (simp add: fp_checked_round_def pow round_ref_def)
  next
    case False
    have "scale - nat dp \<noteq> 0" using False by (auto simp: d_def)
    then have mid: "cmp p (d div 2) = cmp (2 * p) d" for p by (auto simp: cmp_def d_def)
    have rem: "x smod d \<noteq> 0" using False by (simp add: smod_eq_0_iff)
    have "in_range bits (x mod d)"
      using d mod_bounds_nz [OF d(1) False] in_range_between(1) [of d "x mod d"] by simp
    then have "(if x smod d < 0 then i_add bits d (x smod d) else Ok (x smod d)) =
        (Ok (x mod d) :: (unit, int) res)"
      using smod_neg_iff_mod [OF d(1), of x] smod_pos_eq_mod [OF d(1), of x] rem
      by (auto simp: i_add_def i_checked_ops)
    then show ?thesis using dp rem False
      by (simp add: fp_checked_round_def pow mid apply_strategy_eq [OF x d False] round_ref_def)
  qed
qed

lemma checked_round_Ok_iff:
  assumes "in_range bits x" "0 \<le> dp" "dp \<le> int scale"
  shows "fp_checked_round bits scale x dp mode = Ok r \<longleftrightarrow>
    is_rounding mode (10 ^ (scale - nat dp)) x r \<and> in_range bits r"
proof -
  have "is_rounding mode (10 ^ (scale - nat dp)) x r \<longleftrightarrow> r = round_ref mode (10 ^ (scale - nat dp)) x"
    using round_ref_is_rounding is_rounding_unique by (metis zero_less_numeral zero_less_power)
  then show ?thesis
    by (auto simp: checked_round_eq [OF assms] ok_or_eq_Inr_iff i_checked_eq_Some_iff)
qed

lemma checked_round_no_panic:
  assumes "in_range bits x" "0 \<le> dp" "dp \<le> int scale"
  shows "fp_checked_round bits scale x dp mode \<noteq> Panics"
  by (simp add: checked_round_eq [OF assms] ok_or_def split: option.splits)

text \<open>
  Multiplication and division truncate the exact result towards zero; the intermediate
  integers never overflow where the result fits.
\<close>

lemma in_range_wide: "\<bar>x\<bar> < 2 ^ (wide - 1) \<Longrightarrow> in_range wide x"
  by (auto simp: range_simps)

lemma abs_in_range: "in_range bits x \<Longrightarrow> \<bar>x\<bar> \<le> 2 ^ (bits - 1)"
  by (auto simp: range_simps)

lemma narrow: "in_range wide x \<Longrightarrow>
    try_from_bnum wide bits x = (if \<bar>x\<bar> < 2 ^ (bits - 1) then Some x else None)"
  using try_from_bnum_narrow bits_pos wider by blast

lemma abs_sdiv_le: "\<bar>x sdiv y\<bar> \<le> \<bar>x\<bar>" for x y :: int
  using sdiv_int_range [of x y] by auto

lemma div_less_iff_int:
  fixes a u b :: int
  assumes "0 < u"
  shows "a div u < b \<longleftrightarrow> a < b * u"
proof
  assume "a div u < b"
  then have "u * (a div u + 1) \<le> u * b" using assms by (intro mult_left_mono) auto
  then have "u * (a div u) + u \<le> b * u" by (simp add: algebra_simps)
  then show "a < b * u"
    using mult_div_mod_eq [of u a] pos_mod_bound [OF assms, of a] by linarith
next
  assume "a < b * u"
  show "a div u < b"
  proof (rule ccontr)
    assume "\<not> a div u < b"
    then have "b * u \<le> u * (a div u)" using assms by (simp add: mult.commute)
    then show False
      using \<open>a < b * u\<close> mult_div_mod_eq [of u a] pos_mod_sign [OF assms, of a] by linarith
  qed
qed

lemma abs_sdiv_less_iff:
  fixes x :: int
  assumes "0 < u"
  shows "\<bar>x sdiv u\<bar> < b \<longleftrightarrow> \<bar>x\<bar> < b * u"
proof -
  have "\<bar>x sdiv u\<bar> = \<bar>x\<bar> div u"
    using assms by (cases "x = 0")
      (simp_all add: signed_divide_int_def abs_mult pos_imp_zdiv_nonneg_iff)
  then show ?thesis
    using div_less_iff_int [OF assms] by simp
qed

lemma checked_mul_Some_iff:
  "fp_checked_mul bits scale wide x y = Some z \<longleftrightarrow>
     z = (x * y) sdiv 10 ^ scale \<and> \<bar>z\<bar> < 2 ^ (bits - 1)"
proof -
  have "\<bar>(x * y) sdiv 10 ^ scale\<bar> < 2 ^ (bits - 1) \<longleftrightarrow> \<bar>x * y\<bar> < 2 ^ (bits - 1) * 10 ^ scale"
    by (rule abs_sdiv_less_iff) simp
  then have "\<bar>x * y\<bar> < 2 ^ (wide - 1)" if "\<bar>(x * y) sdiv 10 ^ scale\<bar> < 2 ^ (bits - 1)"
    using that wide_fits by linarith
  then have w: "in_range wide (x * y) \<and> in_range wide ((x * y) sdiv 10 ^ scale)"
    if "\<bar>(x * y) sdiv 10 ^ scale\<bar> < 2 ^ (bits - 1)"
    using that in_range_wide order_le_less_trans [OF abs_sdiv_le] by blast
  then show ?thesis
    by (auto simp: fp_checked_mul_def i_checked_ops i_checked_eq_Some_iff narrow bind_eq_Some_conv
        split: if_splits)
qed

lemma checked_div_Some_iff:
  assumes "in_range bits x"
  shows "fp_checked_div bits scale wide x y = Some z \<longleftrightarrow>
     y \<noteq> 0 \<and> z = (x * 10 ^ scale) sdiv y \<and> \<bar>z\<bar> < 2 ^ (bits - 1)"
proof -
  have "\<bar>x * 10 ^ scale\<bar> \<le> 2 ^ (bits - 1) * 10 ^ scale"
    using abs_in_range [OF assms] by (simp add: abs_mult)
  then have "\<bar>x * 10 ^ scale\<bar> < 2 ^ (wide - 1)" using wide_fits by linarith
  moreover then have "\<bar>(x * 10 ^ scale) sdiv y\<bar> < 2 ^ (wide - 1)"
    using order_le_less_trans [OF abs_sdiv_le] by blast
  ultimately have "in_range wide (x * 10 ^ scale)" "in_range wide ((x * 10 ^ scale) sdiv y)"
    by (auto intro: in_range_wide)
  then show ?thesis
    by (auto simp: fp_checked_div_def i_checked_ops narrow split: if_splits)
qed

text \<open>Powers of whole numbers are computed exactly wherever the power fits.\<close>

lemma mult_sdiv_cancel: "0 < u \<Longrightarrow> (a * u) sdiv u = a" for a u :: int
  by (simp add: signed_divide_int_def abs_mult sgn_mult mult_sgn_abs)

lemma smaller_fits:
  fixes a b :: int
  assumes "\<bar>a\<bar> \<le> \<bar>b\<bar>" "\<bar>b * 10 ^ scale\<bar> < c"
  shows "\<bar>a * 10 ^ scale\<bar> < c"
proof -
  have "\<bar>a * 10 ^ scale\<bar> \<le> \<bar>b * 10 ^ scale\<bar>"
    using mult_right_mono [OF assms(1), of "10 ^ scale"] by (simp add: abs_mult)
  then show ?thesis using assms(2) by simp
qed

lemma square_fits:
  assumes fits: "\<bar>n ^ e * 10 ^ scale\<bar> < 2 ^ (bits - 1)" and e: "2 \<le> e"
  shows "n ^ 2 * 10 ^ scale < 2 ^ (bits - 1)"
    and "in_range wide ((n ^ 2 * 10 ^ scale) * 10 ^ scale)"
    and "in_range wide (n ^ 2 * 10 ^ scale)"
proof -
  define u :: int where "u = 10 ^ scale"
  have u: "1 \<le> u" by (simp add: u_def)
  have "\<bar>n ^ 2\<bar> \<le> \<bar>n ^ e\<bar>"
  proof (cases "n = 0")
    case False
    then show ?thesis using e power_increasing [of 2 e "\<bar>n\<bar>"] by (simp add: power_abs)
  qed simp
  then have sq: "n ^ 2 * u < 2 ^ (bits - 1)"
    using smaller_fits [OF _ fits, of "n ^ 2"] u by (simp add: abs_mult flip: u_def)
  moreover then have "(n ^ 2 * u) * u < 2 ^ (bits - 1) * u" using u by (intro mult_strict_right_mono) auto
  moreover have nn: "0 \<le> n ^ 2 * u" using u by simp
  moreover have "n ^ 2 * u \<le> (n ^ 2 * u) * u" using mult_left_mono [OF u nn] by simp
  ultimately show "n ^ 2 * 10 ^ scale < 2 ^ (bits - 1)"
    and "in_range wide ((n ^ 2 * 10 ^ scale) * 10 ^ scale)"
    and "in_range wide (n ^ 2 * 10 ^ scale)"
    using wide_fits by (auto simp flip: u_def intro!: in_range_wide)
qed

lemma square_subunits: "(n * 10 ^ scale) * (n * 10 ^ scale) = (n ^ 2 * 10 ^ scale) * (10 ^ scale :: int)"
  by (simp add: power2_eq_square ac_simps)

lemma squaring_step:
  assumes "\<bar>n ^ e * 10 ^ scale\<bar> < 2 ^ (bits - 1)" and "2 \<le> e"
  shows "try_from_bnum wide bits ((n ^ 2 * 10 ^ scale * 10 ^ scale) sdiv 10 ^ scale)
    = Some (n ^ 2 * 10 ^ scale)"
  using narrow [OF square_fits(3) [OF assms]] square_fits(1) [OF assms]
  by (simp add: mult_sdiv_cancel)

lemma checked_powi_whole:
  assumes "\<bar>n ^ e * 10 ^ scale\<bar> < 2 ^ (bits - 1)"
  shows "fp_checked_powi bits scale wide (n * 10 ^ scale) (int e) = Some (n ^ e * 10 ^ scale)"
  using assms
proof (induction e arbitrary: n rule: less_induct)
  case (less e)
  show ?case
  proof (cases "e < 2")
    case True
    then consider "e = 0" | "e = 1" by linarith
    then show ?thesis by cases (simp_all add: fp_checked_powi.simps)
  next
    case False
    then have e: "2 \<le> e" by simp
    note sq = square_fits(2) [OF less.prems e] squaring_step [OF less.prems e]
    show ?thesis
    proof (cases "even e")
      case True
      then obtain k where k: "e = 2 * k" by blast
      have "fp_checked_powi bits scale wide (n ^ 2 * 10 ^ scale) (int k) = Some ((n ^ 2) ^ k * 10 ^ scale)"
        using less k e by (intro less.IH) (auto simp flip: power_mult)
      then show ?thesis using e k sq
        by (subst fp_checked_powi.simps) (simp add: square_subunits i_checked_ops flip: power_mult)
    next
      case False
      then obtain k where k: "e = 2 * k + 1" by (elim oddE)
      have pe: "n ^ e = n * (n ^ 2) ^ k" using k by (simp flip: power_mult)
      have "\<bar>(n ^ 2) ^ k\<bar> \<le> \<bar>n ^ e\<bar>"
        using k e pe by (cases "n = 0") (auto simp: abs_mult mult_le_cancel_right1 power_0_left)
      then have "fp_checked_powi bits scale wide (n ^ 2 * 10 ^ scale) (int k) = Some ((n ^ 2) ^ k * 10 ^ scale)"
        using k e by (intro less.IH smaller_fits [OF _ less.prems]) auto
      moreover have "fp_checked_mul bits scale wide (n * 10 ^ scale) ((n ^ 2) ^ k * 10 ^ scale)
          = Some (n ^ e * 10 ^ scale)"
        using less.prems mult_sdiv_cancel [of "10 ^ scale" "n ^ e * 10 ^ scale"]
        by (simp add: checked_mul_Some_iff pe ac_simps)
      ultimately show ?thesis using e k sq
        by (subst fp_checked_powi.simps) (simp add: square_subunits i_checked_ops)
    qed
  qed
qed

end

interpretation dec: fixed_point 192 18 256
  by unfold_locales (simp_all add: range_simps)

interpretation pdec: fixed_point 256 36 384
  by unfold_locales (simp_all add: range_simps)


section \<open>Facts on the Decimal operations for the other components\<close>

lemma dec_checked_mul_iff:
  "dec_checked_mul x y = Some z \<longleftrightarrow> z = (x * y) sdiv 10 ^ 18 \<and> \<bar>z\<bar> < 2 ^ 191"
  using dec.checked_mul_Some_iff [of x y z] by (simp add: dec_checked_mul_def)

lemma dec_checked_mul_whole:
  "dec_checked_mul x (dec_from_int n) = Some z \<longleftrightarrow> z = x * n \<and> \<bar>z\<bar> < 2 ^ 191"
proof -
  have "(x * (n * 10 ^ 18)) sdiv 10 ^ 18 = x * n"
    using dec.mult_sdiv_cancel [of "10 ^ 18" "x * n"] by (simp add: mult.assoc)
  then show ?thesis by (auto simp: dec_checked_mul_iff dec_from_int_def dec_one_def)
qed

lemma dec_checked_mul_nonneg:
  assumes "dec_checked_mul x y = Some z" and "0 \<le> x" and "0 \<le> y"
  shows "0 \<le> z"
  using assms by (auto simp: dec_checked_mul_iff signed_divide_int_def zero_le_mult_iff
      pos_imp_zdiv_nonneg_iff sgn_if)

lemma dec_checked_add_iff: "dec_checked_add x y = Some z \<longleftrightarrow> z = x + y \<and> is_decimal (x + y)"
  by (auto simp: dec_checked_add_def i_checked_ops i_checked_eq_Some_iff)

lemma dec_checked_sub_iff: "dec_checked_sub x y = Some z \<longleftrightarrow> z = x - y \<and> is_decimal (x - y)"
  by (auto simp: dec_checked_sub_def i_checked_ops i_checked_eq_Some_iff)

lemma dec_add_iff: "dec_add x y = Inr z \<longleftrightarrow> z = x + y \<and> is_decimal (x + y)"
  by (simp add: dec_add_def expect_eq_Inr_iff dec_checked_add_iff)

lemma dec_sub_iff: "dec_sub x y = Inr z \<longleftrightarrow> z = x - y \<and> is_decimal (x - y)"
  by (simp add: dec_sub_def expect_eq_Inr_iff dec_checked_sub_iff)

lemma dec_ops_fail:
  "dec_add x y = Inl e \<longleftrightarrow> e = Panic \<and> \<not> is_decimal (x + y)"
  "dec_sub x y = Inl e \<longleftrightarrow> e = Panic \<and> \<not> is_decimal (x - y)"
  by (auto simp: dec_add_def dec_sub_def dec_checked_add_def dec_checked_sub_def i_checked_ops
      i_checked_def expect_def)

lemma is_decimal_diff: "is_decimal x \<Longrightarrow> 0 \<le> y \<Longrightarrow> y \<le> x \<Longrightarrow> is_decimal (x - y)"
  by (auto simp: range_simps)

lemma is_decimal_0 [simp]: "is_decimal 0"
  by (simp add: range_simps)

lemmas dec_iffs = dec_checked_add_iff dec_checked_sub_iff dec_add_iff dec_sub_iff


section \<open>Properties\<close>

text \<open>
  C15. \<^verbatim>\<open>Decimal::checked_round\<close> returns exactly the multiple of \<open>10 ^ (18 - dp)\<close> that the
  documentation of the rounding mode names, whenever that multiple is a representable
  Decimal; it returns \<^verbatim>\<open>None\<close> otherwise, and for 0 to 18 decimal places none of its
  \<^verbatim>\<open>expect\<close>s can panic.
\<close>

theorem dec_checked_round_exact:
  assumes "is_decimal x" and "0 \<le> dp" and "dp \<le> 18"
  shows "(\<forall>r. dec_checked_round x dp mode = Ok r \<longleftrightarrow>
           is_rounding mode (10 ^ (18 - nat dp)) x r \<and> is_decimal r) \<and>
         dec_checked_round x dp mode \<noteq> Panics"
  using assms dec.checked_round_Ok_iff [of x dp] dec.checked_round_no_panic [of x dp]
  by (simp add: dec_checked_round_def)

theorem dec_checked_round_exact_witness:
  "dec_checked_round 2500000000000000000 0 ToNearestMidpointToEven = Ok 2000000000000000000"
  using dec_checked_round_exact [of 2500000000000000000 0 ToNearestMidpointToEven]
  by (simp add: range_simps)

text \<open>
  C16. \<^verbatim>\<open>Decimal::checked_mul\<close> is exact multiplication truncated towards zero: it succeeds
  exactly when the magnitude of the truncated product is below \<open>2 ^ 191\<close>. So it fails when the
  product does not fit and also when it is \<^verbatim>\<open>Decimal::MIN\<close> (\<open>- (2 ^ 191)\<close>), which does fit but is
  refused by the narrowing conversion. The 256-bit intermediate product never overflows on its
  own account.
\<close>

theorem dec_checked_mul_exact:
  "dec_checked_mul x y = Some z \<longleftrightarrow> z = (x * y) sdiv dec_one \<and> \<bar>z\<bar> < 2 ^ 191"
  using dec.checked_mul_Some_iff [of x y z] by (simp add: dec_checked_mul_def dec_one_def)

text \<open>
  C17. \<^verbatim>\<open>Decimal::checked_div\<close> is exact division truncated towards zero, fails on a zero divisor,
  and otherwise succeeds exactly when the magnitude of the truncated quotient is below
  \<open>2 ^ 191\<close>: a quotient of \<^verbatim>\<open>Decimal::MIN\<close> is refused although it fits.
\<close>

theorem dec_checked_div_exact:
  assumes "is_decimal x"
  shows "dec_checked_div x y = Some z \<longleftrightarrow>
    y \<noteq> 0 \<and> z = (x * dec_one) sdiv y \<and> \<bar>z\<bar> < 2 ^ 191"
  using dec.checked_div_Some_iff [OF assms, of y z] by (simp add: dec_checked_div_def dec_one_def)

theorem dec_checked_div_exact_witness:
  "dec_checked_div (10 * dec_one) (3 * dec_one) = Some 3333333333333333333"
  using dec_checked_div_exact [of "10 * dec_one" "3 * dec_one" 3333333333333333333]
  by (simp add: range_simps dec_one_def signed_divide_int_def)

text \<open>
  \<^verbatim>\<open>Decimal::checked_powi\<close> computes the powers of whole numbers exactly: if \<open>n ^ e\<close> is
  representable, the result is \<open>n ^ e\<close>, with no spurious overflow in the repeated squaring.
\<close>

theorem dec_checked_powi_whole:
  assumes "\<bar>n ^ e * dec_one\<bar> < 2 ^ 191"
  shows "dec_checked_powi (n * dec_one) (int e) = Some (n ^ e * dec_one)"
  using dec.checked_powi_whole [of n e] assms by (simp add: dec_checked_powi_def dec_one_def)

theorem dec_checked_powi_whole_witness:
  "dec_checked_powi (- 3 * dec_one) 5 = Some (- 243 * dec_one)"
  using dec_checked_powi_whole [of "- 3" 5] by (simp add: dec_one_def)

text \<open>
  Widening a Decimal to a PreciseDecimal loses nothing: truncating it back with any
  rounding mode gives the same Decimal, except that \<^verbatim>\<open>Decimal::MIN\<close> itself is rejected by the
  narrowing conversion. Widening never leaves the range of PreciseDecimal.
\<close>

theorem pdec_truncate_from_dec:
  assumes "is_decimal x"
  shows "is_precise_decimal (pdec_from_dec x) \<and>
    pdec_checked_truncate (pdec_from_dec x) mode = (if x = dec_min then Error () else Ok x)"
proof -
  define u :: int where "u = 10 ^ 18"
  have in256: "is_precise_decimal (x * u)" "in_range 256 x"
    using assms by (auto simp: range_simps u_def)
  have "is_rounding mode u (x * u) (x * u)" by (cases mode) (simp_all add: u_def)
  then have "pdec_checked_round (x * u) 18 mode = Ok (x * u)"
    using pdec.checked_round_Ok_iff [OF in256(1), of 18 mode "x * u"] in256(1)
    by (simp add: pdec_checked_round_def u_def)
  moreover have "(x * u) sdiv u = x" by (rule dec.mult_sdiv_cancel) (simp add: u_def)
  ultimately have "pdec_checked_truncate (pdec_from_dec x) mode = ok_or (try_from_bnum 256 192 x) ()"
    using in256 by (simp add: pdec_from_dec_def pdec_checked_truncate_def i_checked_ops u_def)
  moreover have "try_from_bnum 256 192 x = (if x = dec_min then None else Some x)"
    using try_from_bnum_narrow [OF in256(2), of 192] assms
    by (auto simp: range_simps dec_min_def)
  moreover have "pdec_from_dec x = x * u" by (simp add: pdec_from_dec_def u_def)
  ultimately show ?thesis using in256(1) by auto
qed

theorem pdec_truncate_from_dec_witness:
  "is_decimal dec_min \<and> pdec_checked_truncate (pdec_from_dec dec_min) ToZero = Error ()"
  using pdec_truncate_from_dec [of dec_min ToZero] by (simp add: range_simps dec_min_def)

end
