(* ===== verification/Authorization.thy ===== *)
theory Authorization
  imports Fixed_Point
begin

text \<open>
  Authorization: access rules (\<^verbatim>\<open>proof_rule.rs\<close>), auth zones and their creation at calls
  (\<^verbatim>\<open>auth_module.rs\<close>, \<^verbatim>\<open>auth_zone_substates.rs\<close>), the evaluation of rules against a zone
  (\<^verbatim>\<open>authorization.rs\<close>) and the role assignment module (\<^verbatim>\<open>role_assignment/package.rs\<close>).
  The zones of the call frames are kept newest first; a zone refers to the zone of its parent
  frame and of its global caller by node id. The walk over the parents is a loop on references,
  bounded here by the number of zones: that the bound is never reached is a theorem. The local
  ids of the caller badges are hashes; the hash is the parameter \<open>H\<close>.
\<close>

named_theorems auth_simps \<open>the loops of the authorization code as list predicates\<close>


section \<open>Rules\<close>

text \<open>An address is the number that its 30 bytes make (most significant first).\<close>

type_synonym address = nat
type_synonym local_id = nat
type_synonym nf_global_id = "address \<times> local_id"

datatype resource_or_non_fungible = NonFungible nf_global_id | Resource address

datatype basic_requirement =
    Require resource_or_non_fungible
  | AmountOf decimal address
  | CountOf nat "resource_or_non_fungible list"
  | BasicAllOf "resource_or_non_fungible list"
  | BasicAnyOf "resource_or_non_fungible list"

datatype composite_requirement =
    BasicRequirement basic_requirement
  | AnyOf "composite_requirement list"
  | AllOf "composite_requirement list"

datatype access_rule = AllowAll | DenyAll | Protected composite_requirement

definition composite_or :: "composite_requirement \<Rightarrow> composite_requirement \<Rightarrow> composite_requirement" where
  "composite_or self other = (case self of AnyOf rules \<Rightarrow> AnyOf (rules @ [other]) | _ \<Rightarrow> AnyOf [self, other])"

definition composite_and :: "composite_requirement \<Rightarrow> composite_requirement \<Rightarrow> composite_requirement" where
  "composite_and self other = (case self of AllOf rules \<Rightarrow> AllOf (rules @ [other]) | _ \<Rightarrow> AllOf [self, other])"


section \<open>Auth zones\<close>

datatype global_caller = GlobalObject address | PackageBlueprint address string

datatype auth_proof = FungibleProof address decimal | NonFungibleProof address "local_id list"

record auth_zone =
  az_proofs :: "auth_proof list"
  az_simulate :: "address list"
  az_implicit :: "nf_global_id list"
  az_direct_caller_package :: "address option"
  az_global_caller :: "(global_caller \<times> nat) option"
  az_parent :: "nat option"

type_synonym zones = "(nat \<times> auth_zone) list"

record badge_hashes =
  package_badge :: "address \<Rightarrow> local_id"
  caller_badge :: "global_caller \<Rightarrow> local_id"

definition PACKAGE_OF_DIRECT_CALLER_RESOURCE :: address where
  "PACKAGE_OF_DIRECT_CALLER_RESOURCE = 0x9a4c6318c6318c60db1ff8cc6318c6318cf7c75456aba2fbc6318c6318c6"

definition GLOBAL_CALLER_RESOURCE :: address where
  "GLOBAL_CALLER_RESOURCE = 0x9a4c6318c6318c647f1ff8cc6318c6318cf7aa347bdfaa51e6318c6318c6"

definition SECP256K1_SIGNATURE_RESOURCE :: address where
  "SECP256K1_SIGNATURE_RESOURCE = 0x9a4c6318c6318c686701820c6318c6318cf7d75139d5aad5e6318c6318c6"

definition ED25519_SIGNATURE_RESOURCE :: address where
  "ED25519_SIGNATURE_RESOURCE = 0x9a4c6318c6318c6cb554820c6318c6318cf7a951d7a9e547c6318c6318c6"

definition FRAME_OWNED_GLOBAL_MARKER :: address where
  "FRAME_OWNED_GLOBAL_MARKER = 0x82cc6318c6318c659963ed8c6318c6318cf7e8f5ae8f4a96a6318c6318c6"

definition package_of_direct_caller_badge :: "badge_hashes \<Rightarrow> address \<Rightarrow> nf_global_id" where
  "package_of_direct_caller_badge H p = (PACKAGE_OF_DIRECT_CALLER_RESOURCE, package_badge H p)"

definition global_caller_badge :: "badge_hashes \<Rightarrow> global_caller \<Rightarrow> nf_global_id" where
  "global_caller_badge H c = (GLOBAL_CALLER_RESOURCE, caller_badge H c)"

fun is_actually_frame_owned :: "global_caller \<Rightarrow> bool" where
  "is_actually_frame_owned (GlobalObject x) = (x = FRAME_OWNED_GLOBAL_MARKER)"
| "is_actually_frame_owned (PackageBlueprint _ _) = False"

definition local_implicit_non_fungible_proofs :: "badge_hashes \<Rightarrow> auth_zone \<Rightarrow> nf_global_id list" where
  "local_implicit_non_fungible_proofs H zone =
     (case az_direct_caller_package zone of
        None \<Rightarrow> []
      | Some p \<Rightarrow> [package_of_direct_caller_badge H p]) @
     (case az_global_caller zone of
        None \<Rightarrow> []
      | Some (c, _) \<Rightarrow> if is_actually_frame_owned c then [] else [global_caller_badge H c])"

definition auth_zone_push :: "auth_proof \<Rightarrow> auth_zone \<Rightarrow> auth_zone" where
  "auth_zone_push p zone = zone\<lparr>az_proofs := az_proofs zone @ [p]\<rparr>"

definition auth_zone_pop :: "auth_zone \<Rightarrow> auth_proof option \<times> auth_zone" where
  "auth_zone_pop zone =
     (if az_proofs zone = [] then (None, zone)
      else (Some (last (az_proofs zone)), zone\<lparr>az_proofs := butlast (az_proofs zone)\<rparr>))"

definition remove_signature_proofs :: "auth_zone \<Rightarrow> auth_zone" where
  "remove_signature_proofs zone =
     zone\<lparr>az_simulate := filter (\<lambda>x. x \<noteq> SECP256K1_SIGNATURE_RESOURCE \<and> x \<noteq> ED25519_SIGNATURE_RESOURCE)
            (az_simulate zone),
          az_implicit := filter (\<lambda>(r, _). r \<noteq> SECP256K1_SIGNATURE_RESOURCE \<and> r \<noteq> ED25519_SIGNATURE_RESOURCE)
            (az_implicit zone)\<rparr>"

definition remove_regular_proofs :: "auth_zone \<Rightarrow> auth_proof list \<times> auth_zone" where
  "remove_regular_proofs zone = (az_proofs zone, zone\<lparr>az_proofs := []\<rparr>)"


section \<open>Evaluation of rules\<close>

datatype auth_error =
    ZoneNotFound nat
  | NotANonFungibleProof
  | NoMethodMapping string
  | NoFunction string
  | InvalidOuterObjectMapping
  | UnauthorizedRule "access_rule list"
  | UnauthorizedRoleList "(string \<times> access_rule list) list"

datatype authorization_check_result = Authorized | Failed "access_rule list"

datatype role_list_result = RoleListAuthorized | RoleListFailed "(string \<times> access_rule list) list"

text \<open>The two loops with an early return.\<close>

primrec any_loop :: "('a \<Rightarrow> (auth_error, bool) res) \<Rightarrow> 'a list \<Rightarrow> (auth_error, bool) res" where
  "any_loop f [] = Ok False"
| "any_loop f (x # xs) = rbind (f x) (\<lambda>b. if b then Ok True else any_loop f xs)"

primrec all_loop :: "('a \<Rightarrow> (auth_error, bool) res) \<Rightarrow> 'a list \<Rightarrow> (auth_error, bool) res" where
  "all_loop f [] = Ok True"
| "all_loop f (x # xs) = rbind (f x) (\<lambda>b. if \<not> b then Ok False else all_loop f xs)"

text \<open>The loop of \<^verbatim>\<open>CountOf\<close>: entered with a positive number of requirements left.\<close>

primrec count_loop ::
    "('a \<Rightarrow> (auth_error, bool) res) \<Rightarrow> nat \<Rightarrow> 'a list \<Rightarrow> (auth_error, bool) res" where
  "count_loop f left [] = Ok False"
| "count_loop f left (x # xs) =
     rbind (f x) (\<lambda>b.
       if b then (if left - 1 = 0 then Ok True else count_loop f (left - 1) xs)
       else count_loop f left xs)"

fun proof_resource :: "auth_proof \<Rightarrow> address" where
  "proof_resource (FungibleProof r _) = r"
| "proof_resource (NonFungibleProof r _) = r"

fun proof_amount :: "auth_proof \<Rightarrow> decimal" where
  "proof_amount (FungibleProof _ a) = a"
| "proof_amount (NonFungibleProof _ ids) = dec_from_int (int (length ids))"

fun proof_local_ids :: "auth_proof \<Rightarrow> (auth_error, local_id list) res" where
  "proof_local_ids (FungibleProof _ _) = Error NotANonFungibleProof"
| "proof_local_ids (NonFungibleProof _ ids) = Ok ids"

fun proof_matches :: "resource_or_non_fungible \<Rightarrow> auth_proof \<Rightarrow> (auth_error, bool) res" where
  "proof_matches (NonFungible (r, i)) p =
     (if proof_resource p = r then rbind (proof_local_ids p) (\<lambda>ids. Ok (i \<in> set ids)) else Ok False)"
| "proof_matches (Resource r) p = Ok (proof_resource p = r)"

type_synonym zone_check =
  "auth_proof list \<Rightarrow> address list \<Rightarrow> nf_global_id list \<Rightarrow> (auth_error, bool) res"

primrec global_auth_zone_matches ::
    "nat \<Rightarrow> zones \<Rightarrow> nat \<Rightarrow> zone_check \<Rightarrow> (auth_error, bool) res" where
  "global_auth_zone_matches 0 zones z check = Panics"
| "global_auth_zone_matches (Suc n) zones z check =
     rbind (ok_or (map_of zones z) (ZoneNotFound z)) (\<lambda>zone.
     rbind (check (az_proofs zone) (az_simulate zone) (az_implicit zone)) (\<lambda>b.
       if b then Ok True
       else case az_parent zone of
              Some p \<Rightarrow> global_auth_zone_matches n zones p check
            | None \<Rightarrow> Ok False))"

definition auth_zone_stack_matches ::
    "badge_hashes \<Rightarrow> zones \<Rightarrow> nat \<Rightarrow> zone_check \<Rightarrow> (auth_error, bool) res" where
  "auth_zone_stack_matches H zones z check =
     rbind (ok_or (map_of zones z) (ZoneNotFound z)) (\<lambda>zone.
     let local = local_implicit_non_fungible_proofs H zone in
     rbind (if local \<noteq> [] then check [] [] local else Ok False) (\<lambda>b.
     if b then Ok True else
     rbind (case az_global_caller zone of
              Some (_, leaf) \<Rightarrow> global_auth_zone_matches (length zones) zones leaf check
            | None \<Rightarrow> Ok False) (\<lambda>b.
     if b then Ok True else
     case az_parent zone of
       Some p \<Rightarrow> global_auth_zone_matches (length zones) zones p check
     | None \<Rightarrow> Ok False)))"

definition check_amount :: "address \<Rightarrow> decimal \<Rightarrow> zone_check" where
  "check_amount resource amount proofs _ _ =
     any_loop (\<lambda>p. rbind (proof_matches (Resource resource) p) (\<lambda>b. Ok (b \<and> proof_amount p \<ge> amount))) proofs"

definition check_rule :: "resource_or_non_fungible \<Rightarrow> zone_check" where
  "check_rule rule proofs simulate implicit =
     (if (case rule of NonFungible (r, i) \<Rightarrow> (r, i) \<in> set implicit \<or> r \<in> set simulate | Resource _ \<Rightarrow> False)
      then Ok True
      else any_loop (proof_matches rule) proofs)"

definition auth_zone_stack_has_amount ::
    "badge_hashes \<Rightarrow> zones \<Rightarrow> nat \<Rightarrow> address \<Rightarrow> decimal \<Rightarrow> (auth_error, bool) res" where
  "auth_zone_stack_has_amount H zones z resource amount =
     auth_zone_stack_matches H zones z (check_amount resource amount)"

definition auth_zone_stack_matches_rule ::
    "badge_hashes \<Rightarrow> zones \<Rightarrow> nat \<Rightarrow> resource_or_non_fungible \<Rightarrow> (auth_error, bool) res" where
  "auth_zone_stack_matches_rule H zones z rule = auth_zone_stack_matches H zones z (check_rule rule)"

fun verify_proof_rule ::
    "badge_hashes \<Rightarrow> zones \<Rightarrow> nat \<Rightarrow> basic_requirement \<Rightarrow> (auth_error, bool) res" where
  "verify_proof_rule H zones z (Require resource) = auth_zone_stack_matches_rule H zones z resource"
| "verify_proof_rule H zones z (AmountOf amount resource) =
     auth_zone_stack_has_amount H zones z resource amount"
| "verify_proof_rule H zones z (BasicAllOf resources) =
     all_loop (auth_zone_stack_matches_rule H zones z) resources"
| "verify_proof_rule H zones z (BasicAnyOf resources) =
     any_loop (auth_zone_stack_matches_rule H zones z) resources"
| "verify_proof_rule H zones z (CountOf count resources) =
     (if count = 0 then Ok True
      else count_loop (auth_zone_stack_matches_rule H zones z) count resources)"

fun verify_auth_rule ::
      "badge_hashes \<Rightarrow> zones \<Rightarrow> nat \<Rightarrow> composite_requirement \<Rightarrow>
       (auth_error, authorization_check_result) res"
  and verify_any_of ::
      "badge_hashes \<Rightarrow> zones \<Rightarrow> nat \<Rightarrow> composite_requirement list \<Rightarrow>
       (auth_error, authorization_check_result) res"
  and verify_all_of ::
      "badge_hashes \<Rightarrow> zones \<Rightarrow> nat \<Rightarrow> composite_requirement list \<Rightarrow>
       (auth_error, authorization_check_result) res" where
  "verify_auth_rule H zones z (BasicRequirement rule) =
     rbind (verify_proof_rule H zones z rule) (\<lambda>b. Ok (if b then Authorized else Failed []))"
| "verify_auth_rule H zones z (AnyOf rules) = verify_any_of H zones z rules"
| "verify_auth_rule H zones z (AllOf rules) = verify_all_of H zones z rules"
| "verify_any_of H zones z [] = Ok (Failed [])"
| "verify_any_of H zones z (r # rules) =
     rbind (verify_auth_rule H zones z r) (\<lambda>rtn.
       if rtn = Authorized then Ok rtn else verify_any_of H zones z rules)"
| "verify_all_of H zones z [] = Ok Authorized"
| "verify_all_of H zones z (r # rules) =
     rbind (verify_auth_rule H zones z r) (\<lambda>rtn.
       if rtn \<noteq> Authorized then Ok rtn else verify_all_of H zones z rules)"

fun check_authorization_against_access_rule ::
    "badge_hashes \<Rightarrow> zones \<Rightarrow> nat \<Rightarrow> access_rule \<Rightarrow> (auth_error, authorization_check_result) res" where
  "check_authorization_against_access_rule H zones z (Protected node) =
     rbind (verify_auth_rule H zones z node) (\<lambda>rtn.
       Ok (case rtn of Authorized \<Rightarrow> Authorized | Failed stack \<Rightarrow> Failed (stack @ [Protected node])))"
| "check_authorization_against_access_rule H zones z AllowAll = Ok Authorized"
| "check_authorization_against_access_rule H zones z DenyAll = Ok (Failed [DenyAll])"

section \<open>Creation of auth zones\<close>

datatype reference_origin =
    OriginFrameOwned
  | OriginGlobal address
  | OriginDirectlyAccessed
  | OriginSubstateNonGlobalReference

datatype actor =
    Root
  | BlueprintHook address
  | MethodActor address nat reference_origin
  | FunctionActor address string nat

fun actor_package_address :: "actor \<Rightarrow> address option" where
  "actor_package_address Root = None"
| "actor_package_address (BlueprintHook p) = Some p"
| "actor_package_address (MethodActor p _ _) = Some p"
| "actor_package_address (FunctionActor p _ _) = Some p"

fun self_auth_zone :: "actor \<Rightarrow> nat option" where
  "self_auth_zone Root = None"
| "self_auth_zone (BlueprintHook _) = None"
| "self_auth_zone (MethodActor _ z _) = Some z"
| "self_auth_zone (FunctionActor _ _ z) = Some z"

definition copy_global_caller :: "zones \<Rightarrow> nat \<Rightarrow> (auth_error, (global_caller \<times> nat) option) res" where
  "copy_global_caller zones z =
     rbind (ok_or (map_of zones z) (ZoneNotFound z)) (\<lambda>zone. Ok (az_global_caller zone))"

fun next_global_caller ::
    "zones \<Rightarrow> actor \<Rightarrow> bool \<Rightarrow> (auth_error, (global_caller \<times> nat) option) res" where
  "next_global_caller zones Root change = Ok None"
| "next_global_caller zones (BlueprintHook _) change = Ok None"
| "next_global_caller zones (MethodActor _ z (OriginGlobal a)) change =
     (if change then Ok (Some (GlobalObject a, z)) else copy_global_caller zones z)"
| "next_global_caller zones (MethodActor _ z OriginDirectlyAccessed) change = Ok None"
| "next_global_caller zones (MethodActor _ z OriginSubstateNonGlobalReference) change = Ok None"
| "next_global_caller zones (MethodActor _ z OriginFrameOwned) change =
     rbind (copy_global_caller zones z) (\<lambda>caller.
       Ok (map_option (\<lambda>_. (GlobalObject FRAME_OWNED_GLOBAL_MARKER, z)) caller))"
| "next_global_caller zones (FunctionActor p b z) change =
     (if change then Ok (Some (PackageBlueprint p b, z)) else copy_global_caller zones z)"

text \<open>
  The receiver of a method call is given by whether it is a global object and whether it is
  accessed directly; a function call has none. The node id of the new zone is fresh.
\<close>

definition create_auth_zone ::
    "nat \<Rightarrow> zones \<Rightarrow> actor \<Rightarrow> (bool \<times> bool) option \<Rightarrow> address list \<Rightarrow> nf_global_id list \<Rightarrow>
     (auth_error, zones) res" where
  "create_auth_zone fresh zones direct_caller receiver simulate implicit =
     (let change = (case receiver of Some (is_global, direct_access) \<Rightarrow> is_global \<or> direct_access | None \<Rightarrow> True) in
      rbind (next_global_caller zones direct_caller change) (\<lambda>global_caller.
      Ok ((fresh, \<lparr>az_proofs = [], az_simulate = simulate, az_implicit = implicit,
             az_direct_caller_package = actor_package_address direct_caller,
             az_global_caller = global_caller,
             az_parent = (if change then None else self_auth_zone direct_caller)\<rparr>) # zones)))"

definition teardown_auth_zone :: "zones \<Rightarrow> nat \<Rightarrow> (auth_error, auth_proof list \<times> zones) res" where
  "teardown_auth_zone zones z =
     rbind (ok_or (map_of zones z) (ZoneNotFound z)) (\<lambda>zone.
       Ok (az_proofs zone, filter (\<lambda>(k, _). k \<noteq> z) zones))"


section \<open>Role assignment\<close>

datatype module_id = MainModule | MetadataModule | RoyaltyModule | RoleAssignmentModule

datatype owner_role_updater = UpdaterNone | UpdaterOwner | UpdaterObject

record role_assignment =
  ra_owner_rule :: access_rule
  ra_owner_updater :: owner_role_updater
  ra_owner_locked :: bool
  ra_roles :: "(module_id \<times> string) \<rightharpoonup> access_rule"

datatype invalid_name_error = EmptyString | InvalidChar string char nat

datatype role_assignment_error =
    UsedReservedRole string
  | UsedReservedSpace
  | ExceededMaxRoleNameLen nat nat
  | ExceededMaxAccessRuleDepth
  | ExceededMaxAccessRuleNodes
  | InvalidName invalid_name_error
  | ExceededMaxRoles
  | CannotSetRoleIfNotAttached
  | FieldLocked

definition SELF_ROLE :: string where "SELF_ROLE = ''_self_''"

definition OWNER_ROLE :: string where "OWNER_ROLE = ''_owner_''"

definition MAX_ACCESS_RULE_DEPTH :: nat where "MAX_ACCESS_RULE_DEPTH = 8"

definition MAX_COMPOSITE_REQUIREMENTS :: nat where "MAX_COMPOSITE_REQUIREMENTS = 64"

definition MAX_ROLES :: nat where "MAX_ROLES = 50"

definition MAX_ROLE_NAME_LEN :: nat where "MAX_ROLE_NAME_LEN = 100"

definition is_role_key_reserved :: "string \<Rightarrow> bool" where
  "is_role_key_reserved key = (case key of [] \<Rightarrow> False | c # _ \<Rightarrow> c = CHR ''_'')"

definition is_role_key_reserved_and_defined :: "string \<Rightarrow> bool" where
  "is_role_key_reserved_and_defined key \<longleftrightarrow> is_role_key_reserved key \<and> (key = OWNER_ROLE \<or> key = SELF_ROLE)"

definition name_start_char :: "char \<Rightarrow> bool" where
  "name_start_char c \<longleftrightarrow> (let n = (of_char c :: nat) in 65 \<le> n \<and> n \<le> 90 \<or> 97 \<le> n \<and> n \<le> 122 \<or> n = 95)"

definition name_char :: "char \<Rightarrow> bool" where
  "name_char c \<longleftrightarrow> name_start_char c \<or> (let n = (of_char c :: nat) in 48 \<le> n \<and> n \<le> 57)"

primrec check_name_tail :: "string \<Rightarrow> nat \<Rightarrow> string \<Rightarrow> (invalid_name_error, unit) res" where
  "check_name_tail name index [] = Ok ()"
| "check_name_tail name index (c # cs) =
     (if \<not> name_char c then Error (InvalidChar name c index) else check_name_tail name (index + 1) cs)"

definition check_name :: "string \<Rightarrow> (invalid_name_error, unit) res" where
  "check_name name =
     (case name of
        [] \<Rightarrow> Error EmptyString
      | c # cs \<Rightarrow> if name_start_char c then check_name_tail name 1 cs else Error (InvalidChar name c 0))"

text \<open>The visitor of \<^verbatim>\<open>verify_access_rule\<close>, with its counter, on a traversal in depth-first order.\<close>

definition visit :: "nat \<Rightarrow> nat \<Rightarrow> (role_assignment_error, nat) res" where
  "visit depth count =
     (if depth > MAX_ACCESS_RULE_DEPTH then Error ExceededMaxAccessRuleDepth
      else if count + 1 > MAX_COMPOSITE_REQUIREMENTS then Error ExceededMaxAccessRuleNodes
      else Ok (count + 1))"

fun dfs_traverse :: "composite_requirement \<Rightarrow> nat \<Rightarrow> nat \<Rightarrow> (role_assignment_error, nat) res"
  and dfs_traverse_list :: "composite_requirement list \<Rightarrow> nat \<Rightarrow> nat \<Rightarrow> (role_assignment_error, nat) res" where
  "dfs_traverse (BasicRequirement _) depth count = visit depth count"
| "dfs_traverse (AnyOf nodes) depth count =
     rbind (visit depth count) (\<lambda>count. dfs_traverse_list nodes (depth + 1) count)"
| "dfs_traverse (AllOf nodes) depth count =
     rbind (visit depth count) (\<lambda>count. dfs_traverse_list nodes (depth + 1) count)"
| "dfs_traverse_list [] depth count = Ok count"
| "dfs_traverse_list (n # ns) depth count =
     rbind (dfs_traverse n depth count) (\<lambda>count. dfs_traverse_list ns depth count)"

definition verify_access_rule :: "access_rule \<Rightarrow> (role_assignment_error, unit) res" where
  "verify_access_rule rule =
     (case rule of Protected node \<Rightarrow> rbind (dfs_traverse node 0 0) (\<lambda>_. Ok ()) | _ \<Rightarrow> Ok ())"

definition init_role ::
    "module_id \<Rightarrow> string \<times> access_rule option \<Rightarrow> (role_assignment, role_assignment_error, unit) mut_fn" where
  "init_role module = (\<lambda>(key, role_def).
     mseq (mlift (\<lambda>_. ensure (\<not> is_role_key_reserved key) (UsedReservedRole key)))
     (mseq (mlift (\<lambda>_. map_err InvalidName (check_name key)))
     (mseq (mlift (\<lambda>_. ensure (length key \<le> MAX_ROLE_NAME_LEN) (ExceededMaxRoleNameLen MAX_ROLE_NAME_LEN (length key))))
     (mseq (mlift (\<lambda>_. case role_def of Some rule \<Rightarrow> verify_access_rule rule | None \<Rightarrow> Ok ()))
     (mmodify (\<lambda>ra. ra\<lparr>ra_roles := (ra_roles ra)((module, key) := role_def)\<rparr>))))))"

definition init_module_roles ::
    "module_id \<times> (string \<times> access_rule option) list \<Rightarrow> (role_assignment, role_assignment_error, unit) mut_fn" where
  "init_module_roles = (\<lambda>(module, roles).
     mseq (mlift (\<lambda>_. ensure (length roles \<le> MAX_ROLES) ExceededMaxRoles))
       (mforeach (init_role module) roles))"

definition init_system_struct ::
    "access_rule \<Rightarrow> owner_role_updater \<Rightarrow> (module_id \<times> (string \<times> access_rule option) list) list \<Rightarrow>
     (role_assignment_error, role_assignment) res" where
  "init_system_struct owner_rule updater roles =
     rbind (ensure (RoleAssignmentModule \<notin> fst ` set roles) UsedReservedSpace) (\<lambda>_.
     rbind (verify_access_rule owner_rule) (\<lambda>_.
     case mforeach init_module_roles roles
            \<lparr>ra_owner_rule = owner_rule, ra_owner_updater = updater,
             ra_owner_locked = (updater = UpdaterNone), ra_roles = Map.empty\<rparr> of
       (ra, r) \<Rightarrow> rbind r (\<lambda>_. Ok ra)))"

definition set_owner_role :: "access_rule \<Rightarrow> role_assignment \<Rightarrow> (role_assignment_error, role_assignment) res" where
  "set_owner_role rule ra =
     rbind (verify_access_rule rule) (\<lambda>_.
     rbind (ensure (\<not> ra_owner_locked ra) FieldLocked) (\<lambda>_.
     Ok (ra\<lparr>ra_owner_rule := rule\<rparr>)))"

definition lock_owner_role :: "role_assignment \<Rightarrow> (role_assignment_error, role_assignment) res" where
  "lock_owner_role ra =
     rbind (ensure (\<not> ra_owner_locked ra) FieldLocked) (\<lambda>_.
     Ok (ra\<lparr>ra_owner_updater := UpdaterNone, ra_owner_locked := True\<rparr>))"

definition set_role ::
    "bool \<Rightarrow> module_id \<Rightarrow> string \<Rightarrow> access_rule \<Rightarrow> role_assignment \<Rightarrow> (role_assignment_error, role_assignment) res" where
  "set_role attached module key rule ra =
     rbind (ensure (module \<noteq> RoleAssignmentModule) UsedReservedSpace) (\<lambda>_.
     rbind (ensure (\<not> is_role_key_reserved key) (UsedReservedRole key)) (\<lambda>_.
     rbind (ensure (length key \<le> MAX_ROLE_NAME_LEN) (ExceededMaxRoleNameLen MAX_ROLE_NAME_LEN (length key))) (\<lambda>_.
     rbind (map_err InvalidName (check_name key)) (\<lambda>_.
     rbind (verify_access_rule rule) (\<lambda>_.
     rbind (ensure attached CannotSetRoleIfNotAttached) (\<lambda>_.
     Ok (ra\<lparr>ra_roles := (ra_roles ra)((module, key) \<mapsto> rule)\<rparr>)))))))"

definition get_role :: "module_id \<Rightarrow> string \<Rightarrow> role_assignment \<Rightarrow> access_rule option" where
  "get_role module key ra = ra_roles ra (module, key)"

definition get_owner_role :: "role_assignment \<Rightarrow> access_rule \<times> owner_role_updater" where
  "get_owner_role ra = (ra_owner_rule ra, ra_owner_updater ra)"


section \<open>Permissions\<close>

definition require_global_caller :: "badge_hashes \<Rightarrow> global_caller \<Rightarrow> access_rule" where
  "require_global_caller H c = Protected (BasicRequirement (Require (NonFungible (global_caller_badge H c))))"

definition check_authorization_against_role_key_internal ::
    "badge_hashes \<Rightarrow> zones \<Rightarrow> nat \<Rightarrow> address \<Rightarrow> role_assignment \<Rightarrow> module_id \<Rightarrow> string \<Rightarrow>
     (auth_error, authorization_check_result) res" where
  "check_authorization_against_role_key_internal H zones z role_assignment_of ra module key =
     check_authorization_against_access_rule H zones z
       (if key = SELF_ROLE then require_global_caller H (GlobalObject role_assignment_of)
        else case ra_roles ra (module, key) of Some rule \<Rightarrow> rule | None \<Rightarrow> ra_owner_rule ra)"

primrec check_authorization_against_role_list ::
    "badge_hashes \<Rightarrow> zones \<Rightarrow> nat \<Rightarrow> address \<Rightarrow> role_assignment \<Rightarrow> module_id \<Rightarrow> string list \<Rightarrow>
     (string \<times> access_rule list) list \<Rightarrow> (auth_error, role_list_result) res" where
  "check_authorization_against_role_list H zones z addr ra module [] failed = Ok (RoleListFailed failed)"
| "check_authorization_against_role_list H zones z addr ra module (key # keys) failed =
     rbind (check_authorization_against_role_key_internal H zones z addr ra module key) (\<lambda>result.
       case result of
         Authorized \<Rightarrow> Ok RoleListAuthorized
       | Failed stack \<Rightarrow>
           check_authorization_against_role_list H zones z addr ra module keys (failed @ [(key, stack)]))"

datatype resolved_permission =
    PermRoleList address module_id "string list"
  | PermAccessRule access_rule
  | PermAllowAll

definition check_permission ::
    "badge_hashes \<Rightarrow> zones \<Rightarrow> nat \<Rightarrow> (address \<Rightarrow> role_assignment) \<Rightarrow> resolved_permission \<Rightarrow> (auth_error, unit) res" where
  "check_permission H zones z assignments perm =
     (case perm of
        PermAllowAll \<Rightarrow> Ok ()
      | PermAccessRule rule \<Rightarrow>
          rbind (check_authorization_against_access_rule H zones z rule) (\<lambda>result.
            case result of Authorized \<Rightarrow> Ok () | Failed stack \<Rightarrow> Error (UnauthorizedRule stack))
      | PermRoleList addr module roles \<Rightarrow>
          rbind (check_authorization_against_role_list H zones z addr (assignments addr) module roles []) (\<lambda>result.
            case result of
              RoleListAuthorized \<Rightarrow> Ok ()
            | RoleListFailed failed \<Rightarrow> Error (UnauthorizedRoleList failed)))"

datatype method_accessibility = Public | OuterObjectOnly | RoleProtected "string list" | OwnPackageOnly

datatype role_specification = NormalRoles "(string \<times> string list) list" | UseOuter

datatype method_auth_template =
    AuthAllowAll
  | StaticRoleDefinition role_specification "(string \<times> method_accessibility) list"

record object_info =
  oi_is_global :: bool
  oi_package :: address
  oi_outer_object :: "address option"

definition resolve_update_owner_role_method_permission ::
    "badge_hashes \<Rightarrow> address \<Rightarrow> role_assignment \<Rightarrow> resolved_permission" where
  "resolve_update_owner_role_method_permission H receiver ra =
     PermAccessRule
       (case ra_owner_updater ra of
          UpdaterNone \<Rightarrow> DenyAll
        | UpdaterOwner \<Rightarrow> ra_owner_rule ra
        | UpdaterObject \<Rightarrow> require_global_caller H (GlobalObject receiver))"

definition resolve_update_role_method_permission :: "method_auth_template \<Rightarrow> module_id \<Rightarrow> string \<Rightarrow> string list" where
  "resolve_update_role_method_permission template module key =
     (if is_role_key_reserved key \<or> module = RoleAssignmentModule then []
      else case template of
             AuthAllowAll \<Rightarrow> []
           | StaticRoleDefinition (NormalRoles roles) _ \<Rightarrow> (case map_of roles key of Some l \<Rightarrow> l | None \<Rightarrow> [])
           | StaticRoleDefinition UseOuter _ \<Rightarrow> [])"

datatype role_assignment_call = SetRole module_id string access_rule | SetOwner access_rule | LockOwner | GetRole module_id string | GetOwnerRole

definition role_assignment_authorization ::
    "badge_hashes \<Rightarrow> address \<Rightarrow> method_auth_template \<Rightarrow> role_assignment \<Rightarrow> role_assignment_call \<Rightarrow> resolved_permission" where
  "role_assignment_authorization H addr template ra call =
     (case call of
        SetRole module key _ \<Rightarrow> PermRoleList addr module (resolve_update_role_method_permission template module key)
      | SetOwner _ \<Rightarrow> resolve_update_owner_role_method_permission H addr ra
      | LockOwner \<Rightarrow> resolve_update_owner_role_method_permission H addr ra
      | GetRole _ _ \<Rightarrow> PermAllowAll
      | GetOwnerRole \<Rightarrow> PermAllowAll)"

text \<open>
  A call of the role assignment module is given decoded: \<open>None\<close> stands for an unknown method name.
\<close>

definition resolve_method_permission ::
    "badge_hashes \<Rightarrow> address \<Rightarrow> object_info \<Rightarrow> method_auth_template \<Rightarrow> role_assignment \<Rightarrow> module_id \<Rightarrow> string \<Rightarrow>
     role_assignment_call option \<Rightarrow> (auth_error, resolved_permission) res" where
  "resolve_method_permission H receiver info template ra module ident ra_call =
     (if module = RoleAssignmentModule then
        (case ra_call of
           Some call \<Rightarrow> Ok (role_assignment_authorization H receiver template ra call)
         | None \<Rightarrow> Error (NoMethodMapping ident))
      else
      case template of
        AuthAllowAll \<Rightarrow> Ok PermAllowAll
      | StaticRoleDefinition roles methods \<Rightarrow>
          if (case roles of NormalRoles _ \<Rightarrow> \<not> oi_is_global info | UseOuter \<Rightarrow> False) then Ok PermAllowAll
          else
            rbind (case roles of NormalRoles _ \<Rightarrow> Ok receiver | UseOuter \<Rightarrow> expect (oi_outer_object info))
              (\<lambda>role_assignment_of.
            case map_of methods ident of
              Some Public \<Rightarrow> Ok PermAllowAll
            | Some OwnPackageOnly \<Rightarrow>
                Ok (PermAccessRule (Protected (BasicRequirement (Require (NonFungible
                     (package_of_direct_caller_badge H (oi_package info)))))))
            | Some OuterObjectOnly \<Rightarrow>
                (if module = MainModule
                 then (case oi_outer_object info of
                         Some outer \<Rightarrow> Ok (PermAccessRule (require_global_caller H (GlobalObject outer)))
                       | None \<Rightarrow> Error InvalidOuterObjectMapping)
                 else Error InvalidOuterObjectMapping)
            | Some (RoleProtected role_list) \<Rightarrow> Ok (PermRoleList role_assignment_of module role_list)
            | None \<Rightarrow> Error (NoMethodMapping ident)))"

definition on_call_method ::
    "badge_hashes \<Rightarrow> nat \<Rightarrow> zones \<Rightarrow> actor \<Rightarrow> (address \<Rightarrow> role_assignment) \<Rightarrow> address \<Rightarrow> object_info \<Rightarrow> bool \<Rightarrow>
     method_auth_template \<Rightarrow> module_id \<Rightarrow> string \<Rightarrow> role_assignment_call option \<Rightarrow> (auth_error, zones) res" where
  "on_call_method H fresh zones caller assignments receiver info direct_access template module ident ra_call =
     rbind (create_auth_zone fresh zones caller (Some (oi_is_global info, direct_access)) [] []) (\<lambda>zones'.
     rbind (resolve_method_permission H receiver info template (assignments receiver) module ident ra_call)
       (\<lambda>permission.
     rbind (check_permission H zones' fresh assignments permission) (\<lambda>_. Ok zones')))"

datatype function_auth = FnAllowAll | FnRootOnly | FnAccessRules "(string \<times> access_rule) list"

definition resolve_function_permission ::
    "function_auth \<Rightarrow> actor \<Rightarrow> string \<Rightarrow> (auth_error, resolved_permission) res" where
  "resolve_function_permission function_auth caller ident =
     (case function_auth of
        FnAllowAll \<Rightarrow> Ok PermAllowAll
      | FnRootOnly \<Rightarrow> Ok (if caller = Root then PermAllowAll else PermAccessRule DenyAll)
      | FnAccessRules rules \<Rightarrow>
          (case map_of rules ident of
             Some rule \<Rightarrow> Ok (PermAccessRule rule)
           | None \<Rightarrow> Error (NoFunction ident)))"

definition on_call_function ::
    "badge_hashes \<Rightarrow> nat \<Rightarrow> zones \<Rightarrow> actor \<Rightarrow> (address \<Rightarrow> role_assignment) \<Rightarrow> address list \<Rightarrow> nf_global_id list \<Rightarrow>
     function_auth \<Rightarrow> string \<Rightarrow> (auth_error, zones) res" where
  "on_call_function H fresh zones caller assignments simulate implicit function_auth ident =
     rbind (create_auth_zone fresh zones caller None simulate implicit) (\<lambda>zones'.
     rbind (resolve_function_permission function_auth caller ident) (\<lambda>permission.
     rbind (check_permission H zones' fresh assignments permission) (\<lambda>_. Ok zones')))"

end
