(* ===== verification/Authorization_Laws.thy ===== *)
theory Authorization_Laws
  imports Authorization
begin

text \<open>
  What authorization decides. The zones of the call frames form a well-formed stack in every
  reachable state, so the walk over parent references ends; the stateful evaluation of a rule
  equals a declarative reading of the rule over the evidence visible to the call; role
  assignments hold only verified rules under valid names.
\<close>


section \<open>The stack of zones\<close>

definition zone_refs :: "auth_zone \<Rightarrow> nat set" where
  "zone_refs zone = set_option (az_parent zone) \<union> set_option (map_option snd (az_global_caller zone))"

fun wf_zones :: "zones \<Rightarrow> bool" where
  "wf_zones [] = True"
| "wf_zones ((k, zone) # zones) \<longleftrightarrow>
     k \<notin> fst ` set zones \<and> zone_refs zone \<subseteq> fst ` set zones \<and> wf_zones zones"

record auth_state =
  as_zones :: zones
  as_frames :: "actor list"
  as_next :: nat

text \<open>
  The steps that change the zones: a call from the current actor, a native hook, a return, and
  the proofs of a zone being changed (by the auth zone blueprint).
\<close>

inductive auth_step :: "auth_state \<Rightarrow> auth_state \<Rightarrow> bool" where
  call: "\<lbrakk> as_frames s = caller # frames;
           create_auth_zone (as_next s) (as_zones s) caller receiver simulate implicit = Ok zones;
           self_auth_zone callee = Some (as_next s) \<rbrakk> \<Longrightarrow>
         auth_step s \<lparr>as_zones = zones, as_frames = callee # as_frames s, as_next = as_next s + 1\<rparr>"
| hook: "auth_step s (s\<lparr>as_frames := BlueprintHook p # as_frames s\<rparr>)"
| return: "\<lbrakk> as_frames s = actor # frames; self_auth_zone actor = Some z;
             teardown_auth_zone (as_zones s) z = Ok (proofs, zones) \<rbrakk> \<Longrightarrow>
         auth_step s (s\<lparr>as_zones := zones, as_frames := frames\<rparr>)"
| return_hook: "\<lbrakk> as_frames s = actor # frames; self_auth_zone actor = None; actor \<noteq> Root \<rbrakk> \<Longrightarrow>
         auth_step s (s\<lparr>as_frames := frames\<rparr>)"
| proofs: "\<lbrakk> as_zones s = xs @ (z, zone) # ys;
             zone' = zone\<lparr>az_proofs := p, az_simulate := sim, az_implicit := impl\<rparr> \<rbrakk> \<Longrightarrow>
         auth_step s (s\<lparr>as_zones := xs @ (z, zone') # ys\<rparr>)"

definition auth_init :: "auth_state \<Rightarrow> bool" where
  "auth_init s \<longleftrightarrow> s = \<lparr>as_zones = [], as_frames = [Root], as_next = 0\<rparr>"

definition auth_wf :: "auth_state \<Rightarrow> bool" where
  "auth_wf s \<longleftrightarrow> wf_zones (as_zones s) \<and>
     List.map_filter self_auth_zone (as_frames s) = map fst (as_zones s) \<and>
     (\<forall>k \<in> fst ` set (as_zones s). k < as_next s)"

lemma map_of_wf_refs:
  "wf_zones zones \<Longrightarrow> map_of zones z = Some zone \<Longrightarrow> zone_refs zone \<subseteq> fst ` set zones"
  by (induction zones rule: wf_zones.induct) (auto split: if_splits)

lemma copied_caller_refs:
  assumes "wf_zones zones" and "copy_global_caller zones z = Ok g"
  shows "set_option (map_option snd g) \<subseteq> fst ` set zones"
  using assms(2) map_of_wf_refs [OF assms(1), of z]
  by (auto simp: copy_global_caller_def res_iffs zone_refs_def)

lemma zone_refs_create:
  assumes "wf_zones zones" and "set_option (self_auth_zone caller) \<subseteq> fst ` set zones"
    and "next_global_caller zones caller change = Ok g"
  shows "set_option (map_option snd g) \<subseteq> fst ` set zones"
proof -
  define K where "K = fst ` set zones"
  have copied: "set_option (map_option snd h) \<subseteq> K" if "copy_global_caller zones z = Ok h" for z h
    using copied_caller_refs [OF assms(1) that] by (simp add: K_def)
  have self: "set_option (self_auth_zone caller) \<subseteq> K" using assms(2) by (simp add: K_def)
  show ?thesis unfolding K_def [symmetric]
  proof (cases caller)
    case (MethodActor p z origin)
    then show "set_option (map_option snd g) \<subseteq> K" using self assms(3) copied [of z]
      by (cases origin) (auto simp: res_iffs split: if_splits)
  next
    case (FunctionActor p b z)
    then show "set_option (map_option snd g) \<subseteq> K" using self assms(3) copied [of z]
      by (auto split: if_splits)
  qed (use assms(3) in simp_all)
qed

lemma wf_create:
  assumes "wf_zones zones" and "set_option (self_auth_zone caller) \<subseteq> fst ` set zones"
    and "k \<notin> fst ` set zones" and "create_auth_zone k zones caller receiver sim impl = Ok zones'"
  shows "wf_zones zones'" and "map fst zones' = k # map fst zones"
proof -
  obtain change g where g: "next_global_caller zones caller change = Ok g"
    and z: "zones' = (k, \<lparr>az_proofs = [], az_simulate = sim, az_implicit = impl,
      az_direct_caller_package = actor_package_address caller, az_global_caller = g,
      az_parent = (if change then None else self_auth_zone caller)\<rparr>) # zones"
    using assms(4) by (auto simp: create_auth_zone_def Let_def res_iffs)
  show "map fst zones' = k # map fst zones" by (simp add: z)
  show "wf_zones zones'"
    using assms(1-3) zone_refs_create [OF assms(1,2) g] by (simp add: z zone_refs_def)
qed

lemma wf_teardown:
  assumes "wf_zones zones" and "map fst zones = z # ks" and "teardown_auth_zone zones z = Ok (p, zones')"
  shows "wf_zones zones'" and "map fst zones' = ks" and "set zones' \<subseteq> set zones"
proof -
  obtain zone rest where z: "zones = (z, zone) # rest" "map fst rest = ks" using assms(2) by auto
  have "z \<notin> fst ` set rest" using assms(1) by (simp add: z)
  then have "filter (\<lambda>(k, _). k \<noteq> z) rest = rest" by (force simp: filter_id_conv)
  then have "zones' = rest" using assms(3) by (auto simp: teardown_auth_zone_def res_iffs z)
  then show "wf_zones zones'" "map fst zones' = ks" "set zones' \<subseteq> set zones" using assms(1) z by auto
qed

lemma wf_zones_update:
  "wf_zones (xs @ (z, zone) # ys) \<Longrightarrow> zone_refs zone' = zone_refs zone \<Longrightarrow> wf_zones (xs @ (z, zone') # ys)"
  by (induction xs) auto

interpretation zone_stack: invariant_of auth_init auth_step auth_wf
proof (unfold_locales, goal_cases)
  case (1 s)
  then show ?case by (simp add: auth_init_def auth_wf_def map_filter_simps)
next
  case (2 s t)
  from 2(2,1) show ?case
  proof (induction rule: auth_step.induct)
    case (call s caller frames receiver sim impl zones callee)
    have ids: "List.map_filter self_auth_zone (as_frames s) = map fst (as_zones s)"
      and wf: "wf_zones (as_zones s)" and fresh: "as_next s \<notin> fst ` set (as_zones s)"
      using call(4) by (auto simp: auth_wf_def)
    have "set_option (self_auth_zone caller) \<subseteq> set (map fst (as_zones s))"
      unfolding ids [symmetric] call(1) by (auto simp: List.map_filter_def)
    then have "set_option (self_auth_zone caller) \<subseteq> fst ` set (as_zones s)" by simp
    note new = wf_create [OF wf this fresh call(2)]
    have "fst ` set zones = insert (as_next s) (fst ` set (as_zones s))"
      using arg_cong [OF new(2), of set] by simp
    then show ?case using call(3,4) new by (auto simp: auth_wf_def map_filter_simps)
  next
    case (return s actor frames z proofs zones)
    then have "map fst (as_zones s) = z # List.map_filter self_auth_zone frames"
      by (simp add: auth_wf_def map_filter_simps)
    with return show ?case using wf_teardown [of "as_zones s" z _ proofs zones]
      by (auto simp: auth_wf_def)
  next
    case (proofs s xs z zone ys zone' p sim impl)
    then have "zone_refs zone' = zone_refs zone" by (simp add: zone_refs_def)
    then show ?case using proofs wf_zones_update [of xs z zone ys zone']
      by (auto simp: auth_wf_def)
  qed (auto simp: auth_wf_def map_filter_simps)
qed

section \<open>Evidence visible to a call\<close>

fun chain :: "zones \<Rightarrow> nat \<Rightarrow> auth_zone list" where
  "chain [] z = []"
| "chain ((k, zone) # zones) z =
     (if k = z then zone # (case az_parent zone of None \<Rightarrow> [] | Some p \<Rightarrow> chain zones p)
      else chain zones z)"

type_synonym evidence = "auth_proof list \<times> address list \<times> nf_global_id list"

definition view :: "auth_zone \<Rightarrow> evidence" where
  "view zone = (az_proofs zone, az_simulate zone, az_implicit zone)"

definition evidence :: "badge_hashes \<Rightarrow> zones \<Rightarrow> nat \<Rightarrow> evidence list" where
  "evidence H zones z =
     (case map_of zones z of
        None \<Rightarrow> []
      | Some zone \<Rightarrow>
          (let local = local_implicit_non_fungible_proofs H zone in if local \<noteq> [] then [([], [], local)] else []) @
          map view (case az_global_caller zone of Some (_, leaf) \<Rightarrow> chain zones leaf | None \<Rightarrow> []) @
          map view (case az_parent zone of Some p \<Rightarrow> chain zones p | None \<Rightarrow> []))"

lemma any_loop_append:
  "any_loop f (xs @ ys) = rbind (any_loop f xs) (\<lambda>b. if b then Ok True else any_loop f ys)"
  by (induction xs) (auto simp: rbind_assoc intro!: arg_cong [where f = "rbind _"])

lemma any_loop_map: "any_loop f (map g xs) = any_loop (\<lambda>x. f (g x)) xs"
  by (induction xs) (simp_all cong: if_cong)

lemma any_loop_Ok [auth_simps]:
  "(\<And>x. x \<in> set xs \<Longrightarrow> f x = Ok (c x)) \<Longrightarrow> any_loop f xs = Ok (\<exists>x \<in> set xs. c x)"
  by (induction xs) auto

lemma all_loop_Ok [auth_simps]:
  "(\<And>x. x \<in> set xs \<Longrightarrow> f x = Ok (c x)) \<Longrightarrow> all_loop f xs = Ok (\<forall>x \<in> set xs. c x)"
  by (induction xs) auto

lemma count_loop_Ok [auth_simps]:
  "(\<And>x. x \<in> set xs \<Longrightarrow> f x = Ok (c x)) \<Longrightarrow> 0 < n \<Longrightarrow>
   count_loop f n xs = Ok (n \<le> length (filter c xs))"
proof (induction xs arbitrary: n)
  case (Cons x xs)
  then show ?case by (cases "n - 1 = 0") auto
qed simp

lemma any_loop_no_panic: "(\<And>x. x \<in> set xs \<Longrightarrow> f x \<noteq> Panics) \<Longrightarrow> any_loop f xs \<noteq> Panics"
  by (induction xs) (auto simp: rbind_eq_Inl_iff)

lemma all_loop_no_panic: "(\<And>x. x \<in> set xs \<Longrightarrow> f x \<noteq> Panics) \<Longrightarrow> all_loop f xs \<noteq> Panics"
  by (induction xs) (auto simp: rbind_eq_Inl_iff)

lemma count_loop_no_panic: "(\<And>x. x \<in> set xs \<Longrightarrow> f x \<noteq> Panics) \<Longrightarrow> count_loop f n xs \<noteq> Panics"
  by (induction xs arbitrary: n) (auto simp: rbind_eq_Inl_iff)

lemma map_of_middle: "wf_zones (pre @ (k, zone) # rest) \<Longrightarrow> map_of (pre @ (k, zone) # rest) k = Some zone"
  by (induction pre) auto

text \<open>The walk over references, given as many steps as there are zones, visits the chain.\<close>

lemma walk_chain_aux:
  assumes "wf_zones (pre @ rest)" "z \<in> fst ` set rest" "length rest \<le> n"
  shows "global_auth_zone_matches n (pre @ rest) z check =
    any_loop (\<lambda>zone. check (az_proofs zone) (az_simulate zone) (az_implicit zone)) (chain rest z)"
  using assms
proof (induction rest arbitrary: pre z n)
  case (Cons kz rest)
  obtain k zone where kz: "kz = (k, zone)" by fastforce
  note IH = Cons.IH [of "pre @ [kz]"]
  show ?case
  proof (cases "k = z")
    case True
    obtain m where n: "n = Suc m" using Cons.prems(3) by (cases n) auto
    have "zone_refs zone \<subseteq> fst ` set rest" using Cons.prems(1) unfolding kz by (induction pre) auto
    then have "az_parent zone = Some p \<Longrightarrow> p \<in> fst ` set rest" for p
      by (auto simp: zone_refs_def)
    then show ?thesis
      using map_of_middle [of pre k zone rest] Cons.prems IH [of _ m] True
      by (auto simp: n kz intro!: arg_cong [where f = "rbind _"] split: option.splits)
  next
    case False
    then show ?thesis using Cons.prems IH [of z n] by (simp add: kz)
  qed
qed simp

lemma walk_chain:
  "wf_zones zones \<Longrightarrow> z \<in> fst ` set zones \<Longrightarrow> global_auth_zone_matches (length zones) zones z check =
     any_loop (\<lambda>(p, s, i). check p s i) (map view (chain zones z))"
  using walk_chain_aux [of "[]" zones z "length zones" check] by (simp add: any_loop_map view_def)

lemma auth_zone_stack_matches_eq:
  assumes wf: "wf_zones zones" and z: "z \<in> fst ` set zones"
  shows "auth_zone_stack_matches H zones z check = any_loop (\<lambda>(p, s, i). check p s i) (evidence H zones z)"
proof -
  obtain zone where zone: "map_of zones z = Some zone"
    using z by (metis map_of_eq_None_iff not_None_eq)
  note refs = map_of_wf_refs [OF wf zone, unfolded zone_refs_def]
  have "(case az_global_caller zone of Some (_, leaf) \<Rightarrow> global_auth_zone_matches (length zones) zones leaf check
      | None \<Rightarrow> Ok False) = any_loop (\<lambda>(p, s, i). check p s i)
        (map view (case az_global_caller zone of Some (_, leaf) \<Rightarrow> chain zones leaf | None \<Rightarrow> []))"
    using refs walk_chain [OF wf] by (auto split: option.splits)
  moreover have "(case az_parent zone of Some p \<Rightarrow> global_auth_zone_matches (length zones) zones p check
      | None \<Rightarrow> Ok False) = any_loop (\<lambda>(p, s, i). check p s i)
        (map view (case az_parent zone of Some p \<Rightarrow> chain zones p | None \<Rightarrow> []))"
    using refs walk_chain [OF wf] by (auto split: option.splits)
  moreover have "any_loop f [x] = f x" for f and x :: evidence
    by (cases "f x") auto
  ultimately show ?thesis
    by (simp add: auth_zone_stack_matches_def evidence_def zone Let_def any_loop_append
        cong: if_cong del: any_loop.simps(2))
qed

section \<open>The meaning of rules\<close>

fun proves :: "resource_or_non_fungible \<Rightarrow> auth_proof \<Rightarrow> bool" where
  "proves (NonFungible (r, i)) (NonFungibleProof r' ids) = (r = r' \<and> i \<in> set ids)"
| "proves (NonFungible _) (FungibleProof _ _) = False"
| "proves (Resource r) p = (proof_resource p = r)"

definition has_evidence :: "evidence list \<Rightarrow> resource_or_non_fungible \<Rightarrow> bool" where
  "has_evidence ev rule \<longleftrightarrow> (\<exists>(proofs, simulate, implicit) \<in> set ev.
     (case rule of NonFungible (r, i) \<Rightarrow> (r, i) \<in> set implicit \<or> r \<in> set simulate | Resource _ \<Rightarrow> False) \<or>
     (\<exists>p \<in> set proofs. proves rule p))"

definition has_amount :: "evidence list \<Rightarrow> address \<Rightarrow> decimal \<Rightarrow> bool" where
  "has_amount ev r amount \<longleftrightarrow>
     (\<exists>(proofs, _, _) \<in> set ev. \<exists>p \<in> set proofs. proof_resource p = r \<and> amount \<le> proof_amount p)"

fun basic_holds :: "evidence list \<Rightarrow> basic_requirement \<Rightarrow> bool" where
  "basic_holds ev (Require r) = has_evidence ev r"
| "basic_holds ev (AmountOf amount r) = has_amount ev r amount"
| "basic_holds ev (BasicAllOf rs) = (\<forall>r \<in> set rs. has_evidence ev r)"
| "basic_holds ev (BasicAnyOf rs) = (\<exists>r \<in> set rs. has_evidence ev r)"
| "basic_holds ev (CountOf n rs) = (n \<le> length (filter (has_evidence ev) rs))"

fun composite_holds :: "evidence list \<Rightarrow> composite_requirement \<Rightarrow> bool" where
  "composite_holds ev (BasicRequirement r) = basic_holds ev r"
| "composite_holds ev (AnyOf rs) = (\<exists>r \<in> set rs. composite_holds ev r)"
| "composite_holds ev (AllOf rs) = (\<forall>r \<in> set rs. composite_holds ev r)"

fun permits :: "evidence list \<Rightarrow> access_rule \<Rightarrow> bool" where
  "permits ev AllowAll = True"
| "permits ev DenyAll = False"
| "permits ev (Protected c) = composite_holds ev c"

text \<open>
  Asking a fungible proof for its local ids is an error, so a rule that names a non-fungible of
  a resource for which a fungible proof is in sight has no meaning: \<open>sound_for\<close> excludes it.
\<close>

definition sound_for :: "evidence list \<Rightarrow> resource_or_non_fungible \<Rightarrow> bool" where
  "sound_for ev rule \<longleftrightarrow> (\<forall>(proofs, _, _) \<in> set ev. \<forall>p \<in> set proofs.
     case (rule, p) of (NonFungible (r, _), FungibleProof r' _) \<Rightarrow> r \<noteq> r' | _ \<Rightarrow> True)"

fun basic_items :: "basic_requirement \<Rightarrow> resource_or_non_fungible list" where
  "basic_items (Require r) = [r]"
| "basic_items (AmountOf _ _) = []"
| "basic_items (CountOf _ rs) = rs"
| "basic_items (BasicAllOf rs) = rs"
| "basic_items (BasicAnyOf rs) = rs"

fun composite_items :: "composite_requirement \<Rightarrow> resource_or_non_fungible list" where
  "composite_items (BasicRequirement r) = basic_items r"
| "composite_items (AnyOf rs) = concat (map composite_items rs)"
| "composite_items (AllOf rs) = concat (map composite_items rs)"

fun rule_items :: "access_rule \<Rightarrow> resource_or_non_fungible list" where
  "rule_items (Protected c) = composite_items c"
| "rule_items _ = []"

lemma proof_matches_Ok:
  "(case (rule, p) of (NonFungible (r, _), FungibleProof r' _) \<Rightarrow> r \<noteq> r' | _ \<Rightarrow> True) \<Longrightarrow>
   proof_matches rule p = Ok (proves rule p)"
  by (cases rule; cases p) (auto split: prod.splits)

lemma matches_rule_Ok:
  assumes "wf_zones zones" "z \<in> fst ` set zones" "sound_for (evidence H zones z) rule"
  shows "auth_zone_stack_matches_rule H zones z rule = Ok (has_evidence (evidence H zones z) rule)"
  unfolding auth_zone_stack_matches_rule_def auth_zone_stack_matches_eq [OF assms(1,2)] has_evidence_def
proof (rule any_loop_Ok, clarify)
  fix ps sim impl assume "(ps, sim, impl) \<in> set (evidence H zones z)"
  then have "any_loop (proof_matches rule) ps = Ok (\<exists>p \<in> set ps. proves rule p)"
    using assms(3) by (intro any_loop_Ok proof_matches_Ok) (auto simp: sound_for_def)
  then show "check_rule rule ps sim impl = Ok
      ((case rule of NonFungible (r, i) \<Rightarrow> (r, i) \<in> set impl \<or> r \<in> set sim | Resource _ \<Rightarrow> False) \<or>
       (\<exists>p \<in> set ps. proves rule p))"
    by (simp add: check_rule_def)
qed

lemma has_amount_Ok:
  assumes "wf_zones zones" "z \<in> fst ` set zones"
  shows "auth_zone_stack_has_amount H zones z r amount = Ok (has_amount (evidence H zones z) r amount)"
  unfolding auth_zone_stack_has_amount_def auth_zone_stack_matches_eq [OF assms] has_amount_def
  by (rule any_loop_Ok) (auto simp: check_amount_def any_loop_Ok split: prod.splits)

lemma verify_proof_rule_Ok:
  assumes "wf_zones zones" "z \<in> fst ` set zones" "\<forall>r \<in> set (basic_items rule). sound_for (evidence H zones z) r"
  shows "verify_proof_rule H zones z rule = Ok (basic_holds (evidence H zones z) rule)"
  using assms(3)
  by (cases rule) (auto simp: matches_rule_Ok [OF assms(1,2)] has_amount_Ok [OF assms(1,2)]
      intro!: any_loop_Ok all_loop_Ok count_loop_Ok)

definition zone_ok :: "badge_hashes \<Rightarrow> zones \<Rightarrow> nat \<Rightarrow> composite_requirement \<Rightarrow> bool" where
  "zone_ok H zones z c \<longleftrightarrow> wf_zones zones \<and> z \<in> fst ` set zones \<and>
     (\<forall>r \<in> set (composite_items c). sound_for (evidence H zones z) r)"

lemma verify_auth_rule_Ok:
  "zone_ok H zones z c \<Longrightarrow> verify_auth_rule H zones z c =
     Ok (if composite_holds (evidence H zones z) c then Authorized else Failed [])"
  "\<forall>c \<in> set cs. zone_ok H zones z c \<Longrightarrow> verify_any_of H zones z cs =
     Ok (if \<exists>c \<in> set cs. composite_holds (evidence H zones z) c then Authorized else Failed [])"
  "\<forall>c \<in> set cs. zone_ok H zones z c \<Longrightarrow> verify_all_of H zones z cs =
     Ok (if \<forall>c \<in> set cs. composite_holds (evidence H zones z) c then Authorized else Failed [])"
proof (induction H zones z c and H zones z cs and H zones z cs
    rule: verify_auth_rule_verify_any_of_verify_all_of.induct)
  case (1 H zones z rule)
  then show ?case using verify_proof_rule_Ok [of zones z rule H] by (simp add: zone_ok_def)
next
  case (2 H zones z rules)
  then have "\<forall>c \<in> set rules. zone_ok H zones z c" by (auto simp: zone_ok_def)
  with 2 show ?case by simp
next
  case (3 H zones z rules)
  then have "\<forall>c \<in> set rules. zone_ok H zones z c" by (auto simp: zone_ok_def)
  with 3 show ?case by simp
qed auto

lemma check_authorization_Ok:
  assumes "wf_zones zones" "z \<in> fst ` set zones" "\<forall>r \<in> set (rule_items rule). sound_for (evidence H zones z) r"
  shows "check_authorization_against_access_rule H zones z rule =
    Ok (if permits (evidence H zones z) rule then Authorized else Failed [rule])"
proof (cases rule)
  case (Protected c)
  then have "zone_ok H zones z c" using assms by (simp add: zone_ok_def)
  then show ?thesis using Protected by (simp add: verify_auth_rule_Ok(1))
qed simp_all

text \<open>
  Without \<open>sound_for\<close> the evaluation may stop with that error; if it decides, it decides the same.
\<close>

definition decides :: "(auth_error, 'a) res \<Rightarrow> 'a \<Rightarrow> bool" where
  "decides r v \<longleftrightarrow> r = Ok v \<or> r = Error NotANonFungibleProof"

lemma decides_Ok [simp]: "decides (Ok v) w \<longleftrightarrow> v = w"
  by (simp add: decides_def)

lemma decides_bind: "decides r v \<Longrightarrow> decides (k v) w \<Longrightarrow> decides (rbind r k) w"
  by (auto simp: decides_def)

lemma decides_any: "(\<And>x. x \<in> set xs \<Longrightarrow> decides (f x) (c x)) \<Longrightarrow> decides (any_loop f xs) (\<exists>x \<in> set xs. c x)"
  by (induction xs) (auto intro!: decides_bind)

lemma decides_all: "(\<And>x. x \<in> set xs \<Longrightarrow> decides (f x) (c x)) \<Longrightarrow> decides (all_loop f xs) (\<forall>x \<in> set xs. c x)"
  by (induction xs) (auto intro!: decides_bind)

lemma decides_count:
  "(\<And>x. x \<in> set xs \<Longrightarrow> decides (f x) (c x)) \<Longrightarrow> 0 < n \<Longrightarrow> decides (count_loop f n xs) (n \<le> length (filter c xs))"
proof (induction xs arbitrary: n)
  case (Cons x xs)
  have IH: "decides (count_loop f m xs) (m \<le> length (filter c xs))" if "0 < m" for m using Cons that by simp
  show ?case unfolding count_loop.simps
    by (rule decides_bind [of _ "c x"]) (use Cons.prems IH [of n] IH [of "n - 1"] in \<open>auto simp: le_diff_conv\<close>)
qed simp

lemma decides_matches_rule:
  assumes "wf_zones zones" "z \<in> fst ` set zones"
  shows "decides (auth_zone_stack_matches_rule H zones z rule) (has_evidence (evidence H zones z) rule)"
  unfolding auth_zone_stack_matches_rule_def auth_zone_stack_matches_eq [OF assms] has_evidence_def
proof (rule decides_any, clarify)
  fix ps sim impl
  have "decides (proof_matches rule p) (proves rule p)" for p
    by (cases rule; cases p) (auto simp: decides_def split: prod.splits)
  from decides_any [of ps "proof_matches rule", OF this]
  show "decides (check_rule rule ps sim impl)
      ((case rule of NonFungible (r, i) \<Rightarrow> (r, i) \<in> set impl \<or> r \<in> set sim | Resource _ \<Rightarrow> False) \<or>
       (\<exists>p \<in> set ps. proves rule p))"
    by (simp add: check_rule_def)
qed

lemma decides_proof_rule:
  assumes "wf_zones zones" "z \<in> fst ` set zones"
  shows "decides (verify_proof_rule H zones z rule) (basic_holds (evidence H zones z) rule)"
  by (cases rule) (auto simp: has_amount_Ok [OF assms] intro!: decides_any decides_all decides_count decides_matches_rule [OF assms])

lemma decides_auth_rule:
  "wf_zones zones \<Longrightarrow> z \<in> fst ` set zones \<Longrightarrow> decides (verify_auth_rule H zones z c)
     (if composite_holds (evidence H zones z) c then Authorized else Failed [])"
  "wf_zones zones \<Longrightarrow> z \<in> fst ` set zones \<Longrightarrow> decides (verify_any_of H zones z cs)
     (if \<exists>c \<in> set cs. composite_holds (evidence H zones z) c then Authorized else Failed [])"
  "wf_zones zones \<Longrightarrow> z \<in> fst ` set zones \<Longrightarrow> decides (verify_all_of H zones z cs)
     (if \<forall>c \<in> set cs. composite_holds (evidence H zones z) c then Authorized else Failed [])"
proof (induction H zones z c and H zones z cs and H zones z cs
    rule: verify_auth_rule_verify_any_of_verify_all_of.induct)
  case (1 H zones z rule)
  show ?case unfolding verify_auth_rule.simps
    by (rule decides_bind [OF decides_proof_rule [OF 1]]) simp
next
  case (5 H zones z r rules)
  show ?case unfolding verify_any_of.simps by (rule decides_bind [OF "5.IH"(1) [OF 5(3,4)]]) 
      (cases "composite_holds (evidence H zones z) r"; use 5(3,4) "5.IH"(2) [of "Failed []"] in simp)
next
  case (7 H zones z r rules)
  show ?case unfolding verify_all_of.simps by (rule decides_bind [OF "7.IH"(1) [OF 7(3,4)]]) 
      (cases "composite_holds (evidence H zones z) r"; use 7(3,4) "7.IH"(2) [of Authorized] in simp)
qed auto

lemma decides_access_rule:
  assumes "wf_zones zones" "z \<in> fst ` set zones"
  shows "decides (check_authorization_against_access_rule H zones z rule)
    (if permits (evidence H zones z) rule then Authorized else Failed [rule])"
  using decides_auth_rule(1) [OF assms, of H]
  by (cases rule) (auto intro!: decides_bind simp del: decides_Ok, simp_all add: decides_def)

section \<open>The walk ends\<close>

lemma proof_matches_no_panic: "proof_matches rule p \<noteq> Panics"
  by (cases rule; cases p) (auto split: prod.splits if_splits)

lemma stack_matches_no_panic:
  assumes "wf_zones zones" "z \<in> fst ` set zones" "\<And>p s i. check p s i \<noteq> Panics"
  shows "auth_zone_stack_matches H zones z check \<noteq> Panics"
  unfolding auth_zone_stack_matches_eq [OF assms(1,2)]
  using assms(3) by (intro any_loop_no_panic) (auto split: prod.splits)

lemma verify_proof_rule_no_panic:
  assumes "wf_zones zones" "z \<in> fst ` set zones"
  shows "verify_proof_rule H zones z rule \<noteq> Panics"
proof -
  have "check_rule r p s i \<noteq> Panics" for r p s i
    using any_loop_no_panic [of p "proof_matches r"] proof_matches_no_panic by (auto simp: check_rule_def)
  then have "auth_zone_stack_matches_rule H zones z r \<noteq> Panics" for r
    unfolding auth_zone_stack_matches_rule_def by (rule stack_matches_no_panic [OF assms])
  moreover have "check_amount r amount p s i \<noteq> Panics" for r amount p s i
    unfolding check_amount_def by (rule any_loop_no_panic) (auto simp: rbind_eq_Inl_iff)
  then have "auth_zone_stack_has_amount H zones z r amount \<noteq> Panics" for r amount
    unfolding auth_zone_stack_has_amount_def by (rule stack_matches_no_panic [OF assms])
  ultimately show ?thesis
    by (cases rule) (auto dest: any_loop_no_panic all_loop_no_panic count_loop_no_panic
        simp: any_loop_no_panic all_loop_no_panic count_loop_no_panic)
qed

lemma verify_auth_rule_no_panic:
  "wf_zones zones \<Longrightarrow> z \<in> fst ` set zones \<Longrightarrow> verify_auth_rule H zones z c \<noteq> Panics"
  "wf_zones zones \<Longrightarrow> z \<in> fst ` set zones \<Longrightarrow> verify_any_of H zones z cs \<noteq> Panics"
  "wf_zones zones \<Longrightarrow> z \<in> fst ` set zones \<Longrightarrow> verify_all_of H zones z cs \<noteq> Panics"
proof (induction H zones z c and H zones z cs and H zones z cs
    rule: verify_auth_rule_verify_any_of_verify_all_of.induct)
  case (1 H zones z rule)
  then show ?case using verify_proof_rule_no_panic [of zones z H rule] by (simp add: rbind_eq_Inl_iff)
qed (auto simp: rbind_eq_Inl_iff)

lemma check_authorization_no_panic:
  "wf_zones zones \<Longrightarrow> z \<in> fst ` set zones \<Longrightarrow> check_authorization_against_access_rule H zones z rule \<noteq> Panics"
  using verify_auth_rule_no_panic(1) [of zones z H] by (cases rule) (auto simp: rbind_eq_Inl_iff)

lemma role_list_no_panic:
  assumes "wf_zones zones" "z \<in> fst ` set zones"
  shows "check_authorization_against_role_list H zones z addr ra module keys failed \<noteq> Panics"
proof (induction keys arbitrary: failed)
  case (Cons key keys)
  have "check_authorization_against_role_key_internal H zones z addr ra module key \<noteq> Panics"
    unfolding check_authorization_against_role_key_internal_def
    by (rule check_authorization_no_panic [OF assms])
  then show ?case using Cons
    by (auto simp: rbind_eq_Inl_iff split: authorization_check_result.splits)
qed simp

lemma check_permission_no_panic:
  assumes "wf_zones zones" "z \<in> fst ` set zones"
  shows "check_permission H zones z assignments perm \<noteq> Panics"
  using role_list_no_panic [OF assms] check_authorization_no_panic [OF assms]
  by (auto simp: check_permission_def rbind_eq_Inl_iff
      split: resolved_permission.splits authorization_check_result.splits role_list_result.splits)


section \<open>Verified rules and role assignments\<close>

fun rule_height :: "composite_requirement \<Rightarrow> nat" where
  "rule_height (BasicRequirement _) = 0"
| "rule_height (AnyOf rs) = Max (insert 0 (set (map (\<lambda>r. Suc (rule_height r)) rs)))"
| "rule_height (AllOf rs) = Max (insert 0 (set (map (\<lambda>r. Suc (rule_height r)) rs)))"

fun rule_nodes :: "composite_requirement \<Rightarrow> nat" where
  "rule_nodes (BasicRequirement _) = 1"
| "rule_nodes (AnyOf rs) = 1 + sum_list (map rule_nodes rs)"
| "rule_nodes (AllOf rs) = 1 + sum_list (map rule_nodes rs)"

lemma height_le_iff:
  "d + Max (insert 0 ((\<lambda>r. Suc (h r)) ` set rs)) \<le> k \<longleftrightarrow> d \<le> k \<and> (\<forall>r \<in> set rs. Suc d + h r \<le> k)"
proof -
  have "d + Max (insert 0 ((\<lambda>r. Suc (h r)) ` set rs)) \<le> k \<longleftrightarrow>
      d \<le> k \<and> Max (insert 0 ((\<lambda>r. Suc (h r)) ` set rs)) \<le> k - d" by linarith
  moreover have "(\<forall>r \<in> set rs. Suc (h r) \<le> k - d) \<longleftrightarrow> (\<forall>r \<in> set rs. Suc d + h r \<le> k)" if "d \<le> k"
    using that by (intro ball_cong) auto
  ultimately show ?thesis by auto
qed

lemma visit_Ok_iff: "visit d n = Ok m \<longleftrightarrow> d \<le> 8 \<and> n + 1 \<le> 64 \<and> m = n + 1"
  by (auto simp: visit_def MAX_ACCESS_RULE_DEPTH_def MAX_COMPOSITE_REQUIREMENTS_def)

lemma dfs_traverse_Ok_iff:
  "dfs_traverse c d n = Ok m \<longleftrightarrow> d + rule_height c \<le> 8 \<and> n + rule_nodes c \<le> 64 \<and> m = n + rule_nodes c"
  "n \<le> 64 \<Longrightarrow> dfs_traverse_list cs d n = Ok m \<longleftrightarrow>
     (\<forall>c \<in> set cs. d + rule_height c \<le> 8) \<and> n + sum_list (map rule_nodes cs) \<le> 64 \<and>
     m = n + sum_list (map rule_nodes cs)"
proof (induction c d n and cs d n arbitrary: m and m rule: dfs_traverse_dfs_traverse_list.induct)
  case (5 c cs d n)
  then show ?case by (auto simp: rbind_eq_Inr_iff)
qed (auto simp: visit_Ok_iff rbind_eq_Inr_iff height_le_iff)

lemma verify_access_rule_iff:
  "verify_access_rule rule = Ok () \<longleftrightarrow>
     (case rule of Protected c \<Rightarrow> rule_height c \<le> 8 \<and> rule_nodes c \<le> 64 | _ \<Rightarrow> True)"
  by (auto simp: verify_access_rule_def rbind_eq_Inr_iff dfs_traverse_Ok_iff(1) split: access_rule.splits)

definition role_entry_ok :: "module_id \<times> string \<Rightarrow> access_rule \<Rightarrow> bool" where
  "role_entry_ok mk rule \<longleftrightarrow> fst mk \<noteq> RoleAssignmentModule \<and> \<not> is_role_key_reserved (snd mk) \<and>
     check_name (snd mk) = Ok () \<and> length (snd mk) \<le> 100 \<and> verify_access_rule rule = Ok ()"

definition role_assignment_ok :: "role_assignment \<Rightarrow> bool" where
  "role_assignment_ok ra \<longleftrightarrow> verify_access_rule (ra_owner_rule ra) = Ok () \<and>
     (ra_owner_updater ra = UpdaterNone \<longrightarrow> ra_owner_locked ra) \<and>
     (\<forall>mk rule. ra_roles ra mk = Some rule \<longrightarrow> role_entry_ok mk rule)"

inductive role_step :: "role_assignment \<Rightarrow> role_assignment \<Rightarrow> bool" where
  set_role: "set_role attached module key rule ra = Ok ra' \<Longrightarrow> role_step ra ra'"
| set_owner: "set_owner_role rule ra = Ok ra' \<Longrightarrow> role_step ra ra'"
| lock_owner: "lock_owner_role ra = Ok ra' \<Longrightarrow> role_step ra ra'"

definition role_init :: "role_assignment \<Rightarrow> bool" where
  "role_init ra \<longleftrightarrow> (\<exists>owner updater roles. init_system_struct owner updater roles = Ok ra)"

lemma keeps_init_role:
  "module \<noteq> RoleAssignmentModule \<Longrightarrow> keeps role_assignment_ok (init_role module entry)"
proof (rule keepsI)
  fix ra ra' r assume m: "module \<noteq> RoleAssignmentModule" and ok: "role_assignment_ok ra"
    and run: "init_role module entry ra = (ra', r)"
  obtain key role_def where e: "entry = (key, role_def)" by fastforce
  show "role_assignment_ok ra'"
  proof (cases "ra' = ra")
    case False
    have "\<not> is_role_key_reserved key" "check_name key = Ok ()" "length key \<le> 100"
      "case role_def of Some rule \<Rightarrow> verify_access_rule rule = Ok () | None \<Rightarrow> True"
      "ra' = ra\<lparr>ra_roles := (ra_roles ra)((module, key) := role_def)\<rparr>"
      using run False
      by (auto simp: init_role_def e mseq_def mbind_def ensure_def MAX_ROLE_NAME_LEN_def map_err_eq_Inr_iff
          split: if_splits sum.splits option.splits)
    then show ?thesis using ok m by (auto simp: role_assignment_ok_def role_entry_ok_def split: option.splits)
  qed (use ok in simp)
qed

lemma keeps_init_modules:
  "\<forall>(m, _) \<in> set roles. m \<noteq> RoleAssignmentModule \<Longrightarrow> keeps role_assignment_ok (mforeach init_module_roles roles)"
proof (induction roles)
  case (Cons mr roles)
  obtain m rs where mr: "mr = (m, rs)" by fastforce
  have "keeps role_assignment_ok (init_module_roles mr)"
    using Cons.prems unfolding init_module_roles_def mr
    by (auto intro!: keeps_mseq keeps_mlift keeps_mforeach keeps_init_role)
  then show ?case using Cons by (simp add: keeps_mseq)
qed (simp add: keeps_mreturn)

lemma set_role_Ok_iff:
  "set_role attached module key rule ra = Ok ra' \<longleftrightarrow> attached \<and> role_entry_ok (module, key) rule \<and>
     ra' = ra\<lparr>ra_roles := (ra_roles ra)((module, key) \<mapsto> rule)\<rparr>"
  by (auto simp: set_role_def role_entry_ok_def res_iffs MAX_ROLE_NAME_LEN_def)

interpretation roles: invariant_of role_init role_step role_assignment_ok
proof (unfold_locales, goal_cases)
  case (1 ra)
  then obtain owner updater roles where init: "init_system_struct owner updater roles = Ok ra"
    by (auto simp: role_init_def)
  define ra0 where "ra0 = \<lparr>ra_owner_rule = owner, ra_owner_updater = updater,
    ra_owner_locked = (updater = UpdaterNone), ra_roles = Map.empty :: module_id \<times> string \<rightharpoonup> access_rule\<rparr>"
  have m: "\<forall>(m, _) \<in> set roles. m \<noteq> RoleAssignmentModule" and v: "verify_access_rule owner = Ok ()"
    and run: "mforeach init_module_roles roles ra0 = (ra, Ok ())"
    using init by (force simp: init_system_struct_def res_iffs ra0_def split: prod.splits)+
  have "role_assignment_ok ra0" using v by (simp add: ra0_def role_assignment_ok_def)
  from keepsD [OF keeps_init_modules [OF m] this run] show ?case by simp
next
  case (2 ra ra')
  from 2(2,1) show ?case
    by (cases rule: role_step.cases)
       (auto simp: role_assignment_ok_def set_role_Ok_iff set_owner_role_def lock_owner_role_def res_iffs)
qed

lemma locked_owner_kept:
  "role_step ra ra' \<Longrightarrow> ra_owner_locked ra \<Longrightarrow>
   ra_owner_locked ra' \<and> get_owner_role ra' = get_owner_role ra"
  by (cases rule: role_step.cases)
     (auto simp: set_role_def set_owner_role_def lock_owner_role_def get_owner_role_def res_iffs)

section \<open>A session\<close>

text \<open>
  A transaction processor (zone 0, with the badge of a signature) that calls a global object
  (zone 1), for the witnesses.
\<close>

definition demo_hashes :: badge_hashes where
  "demo_hashes = \<lparr>package_badge = (\<lambda>p. p), caller_badge = (\<lambda>_. 0)\<rparr>"

definition processor_zone :: auth_zone where
  "processor_zone = \<lparr>az_proofs = [], az_simulate = [], az_implicit = [(SECP256K1_SIGNATURE_RESOURCE, 7)],
     az_direct_caller_package = None, az_global_caller = None, az_parent = None\<rparr>"

definition callee_zone :: auth_zone where
  "callee_zone = \<lparr>az_proofs = [], az_simulate = [], az_implicit = [],
     az_direct_caller_package = Some 100, az_global_caller = Some (PackageBlueprint 100 ''Processor'', 0),
     az_parent = None\<rparr>"

definition demo_session :: auth_state where
  "demo_session = \<lparr>as_zones = [(1, callee_zone), (0, processor_zone)],
     as_frames = [MethodActor 200 1 (OriginGlobal 300), FunctionActor 100 ''Processor'' 0, Root], as_next = 2\<rparr>"

lemma demo_session_reachable: "reach auth_init auth_step demo_session"
proof -
  define s0 where "s0 = \<lparr>as_zones = [], as_frames = [Root], as_next = 0\<rparr>"
  define s1 where "s1 = \<lparr>as_zones = [(0, processor_zone)],
    as_frames = [FunctionActor 100 ''Processor'' 0, Root], as_next = 1\<rparr>"
  have "reach auth_init auth_step s0" by (rule reach_init) (simp add: auth_init_def s0_def)
  moreover have "auth_step s0 s1"
    using auth_step.call [of s0 Root "[]" None "[]" "[(SECP256K1_SIGNATURE_RESOURCE, 7)]"
        "[(0, processor_zone)]" "FunctionActor 100 ''Processor'' 0"]
    by (simp add: s0_def s1_def create_auth_zone_def processor_zone_def)
  moreover have "auth_step s1 demo_session"
    using auth_step.call [of s1 "FunctionActor 100 ''Processor'' 0" "[Root]" "Some (True, False)" "[]" "[]"
        "[(1, callee_zone), (0, processor_zone)]" "MethodActor 200 1 (OriginGlobal 300)"]
    by (simp add: s1_def create_auth_zone_def demo_session_def callee_zone_def eval_nat_numeral)
  ultimately show ?thesis by (blast intro: reach_step)
qed


text \<open>What a call that changes the global context sees of its caller.\<close>

fun seen_from :: "badge_hashes \<Rightarrow> zones \<Rightarrow> actor \<Rightarrow> evidence list" where
  "seen_from H zones Root = []"
| "seen_from H zones (BlueprintHook p) = [([], [], [package_of_direct_caller_badge H p])]"
| "seen_from H zones (FunctionActor p b z) =
     ([], [], [package_of_direct_caller_badge H p, global_caller_badge H (PackageBlueprint p b)]) # map view (chain zones z)"
| "seen_from H zones (MethodActor p z (OriginGlobal a)) =
     ([], [], package_of_direct_caller_badge H p #
       (if a = FRAME_OWNED_GLOBAL_MARKER then [] else [global_caller_badge H (GlobalObject a)])) # map view (chain zones z)"
| "seen_from H zones (MethodActor p z OriginFrameOwned) =
     ([], [], [package_of_direct_caller_badge H p]) #
       (case map_of zones z of
          Some zone \<Rightarrow> if az_global_caller zone \<noteq> None then map view (chain zones z) else []
        | None \<Rightarrow> [])"
| "seen_from H zones (MethodActor p z _) = [([], [], [package_of_direct_caller_badge H p])]"

lemma created_evidence:
  assumes run: "create_auth_zone fresh zones caller receiver simulate implicit = Ok zones'"
    and change: "case receiver of Some (is_global, direct_access) \<Rightarrow> is_global \<or> direct_access | None \<Rightarrow> True"
    and "fresh \<notin> fst ` set zones" and "set_option (self_auth_zone caller) \<subseteq> fst ` set zones"
  shows "evidence H zones' fresh = seen_from H zones caller"
proof -
  obtain g where g: "next_global_caller zones caller True = Ok g"
    and zones': "zones' = (fresh, \<lparr>az_proofs = [], az_simulate = simulate, az_implicit = implicit,
             az_direct_caller_package = actor_package_address caller, az_global_caller = g, az_parent = None\<rparr>) # zones"
    using run change by (auto simp: create_auth_zone_def Let_def res_iffs split: if_splits)
  have "fresh \<noteq> z" if "self_auth_zone caller = Some z" for z using assms(3,4) that by auto
  then show ?thesis using g
    by (cases "(H, zones, caller)" rule: seen_from.cases)
       (auto simp: zones' evidence_def local_implicit_non_fungible_proofs_def copy_global_caller_def res_iffs Let_def
         split: option.splits)
qed


section \<open>Properties\<close>

text \<open>
  C22. In every reachable state of the call frames the evaluation of an access rule against a live
  auth zone decides exactly the declarative meaning of the rule over the evidence visible to the
  call (its implicit caller badges, the zones of its global caller and of its caller): all, any,
  at least so many, or an amount. A refusal reports the rule. The only other outcome is the error of asking a
  fungible proof for its local ids, and it needs a rule that names a non-fungible of a resource of which
  a fungible proof is in sight.
\<close>

theorem authorization_refines_rules:
  assumes "reach auth_init auth_step s" "z \<in> fst ` set (as_zones s)"
  shows "check_authorization_against_access_rule H (as_zones s) z rule =
      Ok (if permits (evidence H (as_zones s) z) rule then Authorized else Failed [rule]) \<or>
    check_authorization_against_access_rule H (as_zones s) z rule = Error NotANonFungibleProof \<and>
      (\<exists>r \<in> set (rule_items rule). \<not> sound_for (evidence H (as_zones s) z) r)"
proof -
  have wf: "wf_zones (as_zones s)" using zone_stack.reach_inv [OF assms(1)] by (simp add: auth_wf_def)
  show ?thesis
  proof (cases "\<forall>r \<in> set (rule_items rule). sound_for (evidence H (as_zones s) z) r")
    case False
    then show ?thesis using decides_access_rule [OF wf assms(2), of H rule] by (auto simp: decides_def)
  qed (rule disjI1, rule check_authorization_Ok [OF wf assms(2)])
qed

theorem authorization_refines_rules_witness:
  "check_authorization_against_access_rule demo_hashes (as_zones demo_session) 1
     (Protected (BasicRequirement (Require (NonFungible (SECP256K1_SIGNATURE_RESOURCE, 7))))) = Ok Authorized"
proof -
  have ev: "evidence demo_hashes (as_zones demo_session) 1 =
      [([], [], [(PACKAGE_OF_DIRECT_CALLER_RESOURCE, 100), (GLOBAL_CALLER_RESOURCE, 0)]),
       ([], [], [(SECP256K1_SIGNATURE_RESOURCE, 7)])]"
    by (simp add: evidence_def demo_session_def callee_zone_def processor_zone_def view_def
        local_implicit_non_fungible_proofs_def package_of_direct_caller_badge_def global_caller_badge_def
        demo_hashes_def)
  have "1 \<in> fst ` set (as_zones demo_session)" by (simp add: demo_session_def)
  from authorization_refines_rules [OF demo_session_reachable this, of demo_hashes
      "Protected (BasicRequirement (Require (NonFungible (SECP256K1_SIGNATURE_RESOURCE, 7))))"]
  show ?thesis unfolding ev by (simp add: sound_for_def has_evidence_def)
qed

text \<open>
  C23. Authorization ends: in every reachable state no check of a permission, against a rule or a
  list of roles, runs out of the bound on the walk over parent zones, whatever the rules and
  proofs are.
\<close>

theorem authorization_terminates:
  assumes "reach auth_init auth_step s" "z \<in> fst ` set (as_zones s)"
  shows "check_permission H (as_zones s) z assignments perm \<noteq> Panics"
  using check_permission_no_panic zone_stack.reach_inv [OF assms(1)] assms(2) by (simp add: auth_wf_def)

theorem authorization_terminates_witness:
  "check_permission demo_hashes (as_zones demo_session) 1 (\<lambda>_. undefined) (PermAccessRule DenyAll) \<noteq> Panics"
  by (rule authorization_terminates [OF demo_session_reachable]) (simp add: demo_session_def)

text \<open>
  C24. A call that changes the global context (of a function, or of a method of an object that is global or
  directly accessed) sees the badges of its caller and the zones of that caller up to the caller's own
  boundary, and nothing else, for every kind of caller (\<open>seen_from\<close>). The caller's package is
  a badge (the root of a transaction has none). A method of a global object adds the badge of the object,
  unless the object is the marker of frame-owned callers, and a function that of its blueprint, with
  the zones of the calls within it; a method of a frame-owned object adds no badge, and its
  zones only if it has a global caller itself; other callers add nothing.
\<close>

theorem global_call_evidence:
  assumes "create_auth_zone fresh zones caller receiver simulate implicit = Ok zones'"
    and "case receiver of Some (is_global, direct_access) \<Rightarrow> is_global \<or> direct_access | None \<Rightarrow> True"
    and "fresh \<notin> fst ` set zones" and "set_option (self_auth_zone caller) \<subseteq> fst ` set zones"
  shows "evidence H zones' fresh = seen_from H zones caller"
  by (rule created_evidence [OF assms])

theorem global_call_evidence_witness:
  "\<exists>zones'. create_auth_zone 2 (as_zones demo_session) (MethodActor 200 1 (OriginGlobal 300)) (Some (True, False)) [] []
       = Ok zones' \<and>
     evidence demo_hashes zones' 2 =
       [([], [], [(PACKAGE_OF_DIRECT_CALLER_RESOURCE, 200), (GLOBAL_CALLER_RESOURCE, 0)]), ([], [], [])]"
proof -
  define zones' where "zones' = (2, \<lparr>az_proofs = [], az_simulate = [], az_implicit = [],
    az_direct_caller_package = Some 200, az_global_caller = Some (GlobalObject 300, 1 :: nat), az_parent = None\<rparr>)
    # as_zones demo_session"
  have run: "create_auth_zone 2 (as_zones demo_session) (MethodActor 200 1 (OriginGlobal 300)) (Some (True, False)) [] []
      = Ok zones'"
    by (simp add: create_auth_zone_def zones'_def)
  from global_call_evidence [OF run, of demo_hashes] run show ?thesis
    by (simp add: demo_session_def FRAME_OWNED_GLOBAL_MARKER_def callee_zone_def view_def demo_hashes_def
        package_of_direct_caller_badge_def global_caller_badge_def)
qed

text \<open>
  \<^verbatim>\<open>verify_access_rule\<close> accepts a rule exactly when it has at most 64 nodes and is nested at
  most 8 levels deep, so the recursion of the evaluation is bounded.
\<close>

theorem verify_access_rule_bounds:
  "verify_access_rule (Protected c) = Ok () \<longleftrightarrow> rule_height c \<le> 8 \<and> rule_nodes c \<le> 64"
  by (simp add: verify_access_rule_iff)

text \<open>
  C25. A role assignment never holds anything but verified rules under valid, unreserved role names
  of at most 100 characters, outside the module of the role assignment itself; and once the owner
  role is locked, no step changes its rule or its updater.
\<close>

theorem role_assignments_well_formed:
  assumes "reach role_init role_step ra"
  shows "role_assignment_ok ra \<and>
    (\<forall>ra'. role_step ra ra' \<longrightarrow> ra_owner_locked ra \<longrightarrow>
       ra_owner_locked ra' \<and> get_owner_role ra' = get_owner_role ra)"
  using roles.reach_inv [OF assms] locked_owner_kept by blast

theorem role_assignments_well_formed_witness:
  "\<exists>ra. init_system_struct DenyAll UpdaterNone [(MainModule, [(''admin'', Some AllowAll)])] = Ok ra \<and>
     role_assignment_ok ra \<and> ra_roles ra (MainModule, ''admin'') = Some AllowAll"
proof -
  define ra where "ra = \<lparr>ra_owner_rule = DenyAll, ra_owner_updater = UpdaterNone, ra_owner_locked = True,
    ra_roles = [(MainModule, ''admin'') \<mapsto> AllowAll]\<rparr>"
  have init: "init_system_struct DenyAll UpdaterNone [(MainModule, [(''admin'', Some AllowAll)])] = Ok ra"
    by (simp add: init_system_struct_def init_module_roles_def init_role_def mseq_def mbind_def ra_def
        verify_access_rule_def MAX_ROLES_def MAX_ROLE_NAME_LEN_def is_role_key_reserved_def check_name_def
        name_start_char_def name_char_def)
  then have "reach role_init role_step ra" by (intro reach_init) (auto simp: role_init_def)
  from role_assignments_well_formed [OF this] init show ?thesis by (auto simp: ra_def)
qed

end
