(* ===== verification/Decimal_Text.thy ===== *)
theory Decimal_Text
  imports Fixed_Point
begin

text \<open>
  Printing and parsing of \<^verbatim>\<open>Decimal\<close> and \<^verbatim>\<open>PreciseDecimal\<close> (\<^verbatim>\<open>impl Display\<close> and
  \<^verbatim>\<open>impl FromStr\<close>). The integer parts are printed and parsed by the \<^verbatim>\<open>bnum\<close> package, which is
  not part of the repository: its functions are the parameters \<open>show_int\<close> and
  \<open>parse_int\<close>, and what is documented of them (they behave as for Rust's primitive
  integers) is the locale \<open>bint_text\<close>, interpreted on a concrete printer and parser.
\<close>


section \<open>Strings of digits\<close>

definition is_digit :: "char \<Rightarrow> bool" where
  "is_digit c \<longleftrightarrow> 48 \<le> (of_char c :: int) \<and> (of_char c :: int) \<le> 57"

definition digit_val :: "char \<Rightarrow> int" where
  "digit_val c = of_char c - 48"

definition digits_val :: "string \<Rightarrow> int" where
  "digits_val ds = foldl (\<lambda>a c. 10 * a + digit_val c) 0 ds"

lemma digit_val_nonneg: "is_digit c \<Longrightarrow> 0 \<le> digit_val c"
  by (simp add: is_digit_def digit_val_def)

lemma foldl_digits:
  "foldl (\<lambda>a c. 10 * a + digit_val c) a ds = a * 10 ^ length ds + digits_val ds"
  unfolding digits_val_def
proof (induction ds arbitrary: a rule: rev_induct)
  case (snoc d ds)
  show ?case using snoc [of a] by (simp add: algebra_simps)
qed simp

lemma digits_val_append: "digits_val (xs @ ys) = digits_val xs * 10 ^ length ys + digits_val ys"
  using foldl_digits [of "digits_val xs" ys] by (simp add: digits_val_def)

lemma digits_val_simps [simp]:
  "digits_val [] = 0"
  "digits_val [c] = digit_val c"
  by (simp_all add: digits_val_def)

lemma digits_val_nonneg: "list_all is_digit ds \<Longrightarrow> 0 \<le> digits_val ds"
proof (induction ds rule: rev_induct)
  case (snoc d ds)
  then show ?case using digit_val_nonneg [of d] by (simp add: digits_val_append)
qed simp

lemma digits_val_bound: "list_all is_digit ds \<Longrightarrow> digits_val ds < 10 ^ length ds"
proof (induction ds rule: rev_induct)
  case (snoc d ds)
  then have "digits_val ds + 1 \<le> 10 ^ length ds" and "digit_val d \<le> 9"
    by (simp_all add: is_digit_def digit_val_def)
  then show ?case by (simp add: digits_val_append)
qed simp

lemma digits_val_zeros [simp]: "digits_val (replicate n (CHR ''0'')) = 0"
proof (induction n)
  case (Suc n)
  have "replicate (Suc n) (CHR ''0'') = [CHR ''0''] @ replicate n (CHR ''0'')" by simp
  then show ?case using Suc by (simp only: digits_val_append) (simp add: digit_val_def)
qed simp

lemma digit_not_point: "list_all is_digit ds \<Longrightarrow> CHR ''.'' \<notin> set ds"
  by (auto simp: list_all_iff is_digit_def)

lemma digit_not_minus: "list_all is_digit ds \<Longrightarrow> CHR ''-'' \<notin> set ds"
  by (auto simp: list_all_iff is_digit_def)


section \<open>The text functions\<close>

datatype int_error_kind = IntEmpty | IntInvalidDigit | IntPosOverflow | IntNegOverflow

fun split_on :: "char \<Rightarrow> string \<Rightarrow> string list" where
  "split_on c [] = [[]]"
| "split_on c (x # xs) =
     (if x = c then [] # split_on c xs
      else case split_on c xs of [] \<Rightarrow> [[x]] | p # ps \<Rightarrow> (x # p) # ps)"

definition starts_with :: "char \<Rightarrow> string \<Rightarrow> bool" where
  "starts_with c s = (case s of [] \<Rightarrow> False | x # _ \<Rightarrow> x = c)"

definition trim_end_matches :: "char \<Rightarrow> string \<Rightarrow> string" where
  "trim_end_matches c s = rev (dropWhile (\<lambda>x. x = c) (rev s))"

definition pad_zeros :: "nat \<Rightarrow> string \<Rightarrow> string" where
  "pad_zeros width s = replicate (width - length s) (CHR ''0'') @ s"

text \<open>\<^verbatim>\<open>I192::from_str\<close> and \<^verbatim>\<open>I256::from_str\<close>, with the error the caller makes of an empty part.\<close>

definition bnum_from_str ::
    "(string \<Rightarrow> int_error_kind + int) \<Rightarrow> parse_decimal_error \<Rightarrow> string \<Rightarrow>
     (parse_decimal_error, int) res" where
  "bnum_from_str parse_int on_empty s =
     (case parse_int s of
        Inr val \<Rightarrow> Ok val
      | Inl IntEmpty \<Rightarrow> Error on_empty
      | Inl IntInvalidDigit \<Rightarrow> Error InvalidDigit
      | Inl IntPosOverflow \<Rightarrow> Error Overflow
      | Inl IntNegOverflow \<Rightarrow> Error Overflow)"

definition fp_from_str ::
    "nat \<Rightarrow> nat \<Rightarrow> parse_decimal_error \<Rightarrow> (string \<Rightarrow> int_error_kind + int) \<Rightarrow> string \<Rightarrow>
     (parse_decimal_error, int) res" where
  "fp_from_str bits scale too_many_places parse_int s =
     (let v = split_on (CHR ''.'') s in
      if 2 < length v then Error MoreThanOneDecimalPoint
      else
        rbind (bnum_from_str parse_int EmptyIntegralPart (v ! 0)) (\<lambda>integer_part.
        rbind (ok_or (i_checked_mul bits integer_part (10 ^ scale)) Overflow) (\<lambda>subunits.
        if length v = 2 then
          (let len = length (v ! 1) mod 2 ^ 32 in
           if scale < len then Error too_many_places
           else
             rbind (bnum_from_str parse_int EmptyFractionalPart (v ! 1)) (\<lambda>fractional_part.
             rbind (expect (i_checked_mul bits fractional_part (10 ^ (scale - len))))
               (\<lambda>fractional_subunits.
             if integer_part < 0 \<or> starts_with (CHR ''-'') (v ! 0)
             then ok_or (i_checked_sub bits subunits fractional_subunits) Overflow
             else ok_or (i_checked_add bits subunits fractional_subunits) Overflow)))
        else Ok subunits)))"

definition fp_to_string :: "nat \<Rightarrow> (int \<Rightarrow> string) \<Rightarrow> int \<Rightarrow> string" where
  "fp_to_string scale show_int self =
     (let quotient = self sdiv 10 ^ scale; remainder = self smod 10 ^ scale in
      if remainder \<noteq> 0 then
        (let sign = (if remainder < 0 \<and> quotient = 0 then ''-'' else '''');
             rem_str = pad_zeros scale (show_int \<bar>remainder\<bar>)
         in sign @ show_int quotient @ ''.'' @ trim_end_matches (CHR ''0'') rem_str)
      else show_int quotient)"

definition dec_from_str ::
    "(string \<Rightarrow> int_error_kind + int) \<Rightarrow> string \<Rightarrow> (parse_decimal_error, decimal) res" where
  "dec_from_str parse_int s = fp_from_str 192 18 MoreThanEighteenDecimalPlaces parse_int s"

definition dec_to_string :: "(int \<Rightarrow> string) \<Rightarrow> decimal \<Rightarrow> string" where
  "dec_to_string show_int self = fp_to_string 18 show_int self"

definition pdec_from_str ::
    "(string \<Rightarrow> int_error_kind + int) \<Rightarrow> string \<Rightarrow> (parse_decimal_error, precise_decimal) res" where
  "pdec_from_str parse_int s = fp_from_str 256 36 MoreThanThirtySixDecimalPlaces parse_int s"

definition pdec_to_string :: "(int \<Rightarrow> string) \<Rightarrow> precise_decimal \<Rightarrow> string" where
  "pdec_to_string show_int self = fp_to_string 36 show_int self"


section \<open>Lemmas on the string operations\<close>

lemma split_on_none: "c \<notin> set s \<Longrightarrow> split_on c s = [s]"
  by (induction s) auto

lemma split_on_one: "c \<notin> set a \<Longrightarrow> split_on c (a @ c # b) = a # split_on c b"
  by (induction a) auto

lemma trim_end_decompose:
  obtains k where "s = trim_end_matches c s @ replicate k c"
    and "length (trim_end_matches c s) + k = length s"
proof
  define t where "t = takeWhile (\<lambda>x. x = c) (rev s)"
  have "rev s = t @ dropWhile (\<lambda>x. x = c) (rev s)" by (simp add: t_def)
  then have "s = trim_end_matches c s @ rev t"
    unfolding trim_end_matches_def by (metis rev_append rev_rev_ident)
  moreover have "t = replicate (length t) c"
    unfolding t_def by (rule replicate_length_same [symmetric]) (auto dest: set_takeWhileD)
  then have "rev t = replicate (length t) c" by (metis rev_replicate)
  ultimately show s: "s = trim_end_matches c s @ replicate (length t) c" by simp
  from arg_cong [OF s, of length] show "length (trim_end_matches c s) + length t = length s" by simp
qed

lemma set_trim_end: "set (trim_end_matches c s) \<subseteq> set s"
  unfolding trim_end_matches_def using set_dropWhileD by fastforce


section \<open>What is documented of the integer text functions\<close>

locale bint_text =
  fixes bits :: nat
    and parse_int :: "string \<Rightarrow> int_error_kind + int"
    and show_int :: "int \<Rightarrow> string"
  assumes parse_unsigned: "ds \<noteq> [] \<Longrightarrow> list_all is_digit ds \<Longrightarrow> in_range bits (digits_val ds) \<Longrightarrow>
      parse_int ds = Inr (digits_val ds)"
    and parse_negative: "ds \<noteq> [] \<Longrightarrow> list_all is_digit ds \<Longrightarrow> in_range bits (- digits_val ds) \<Longrightarrow>
      parse_int (CHR ''-'' # ds) = Inr (- digits_val ds)"
    and show_digits: "0 \<le> x \<Longrightarrow> in_range bits x \<Longrightarrow>
      show_int x \<noteq> [] \<and> list_all is_digit (show_int x) \<and> digits_val (show_int x) = x"
    and show_negative: "x < 0 \<Longrightarrow> in_range bits x \<Longrightarrow>
      \<exists>ds. show_int x = CHR ''-'' # ds \<and> ds \<noteq> [] \<and> list_all is_digit ds \<and> digits_val ds = - x"
    and show_short: "0 \<le> x \<Longrightarrow> in_range bits x \<Longrightarrow> x < 10 ^ n \<Longrightarrow> 0 < n \<Longrightarrow>
      length (show_int x) \<le> n"
begin

text \<open>Parsing what is printed: the integer part, then the trimmed fraction.\<close>

lemma show_no_point: "in_range bits x \<Longrightarrow> CHR ''.'' \<notin> set (show_int x)"
  using show_digits [of x] show_negative [of x] digit_not_point by (cases "x < 0") auto

lemma parse_show: "in_range bits x \<Longrightarrow> parse_int (show_int x) = Inr x"
  using show_digits [of x] show_negative [of x] parse_unsigned parse_negative
  by (cases "x < 0") force+

lemma show_starts_minus: "in_range bits x \<Longrightarrow> starts_with (CHR ''-'') (show_int x) \<longleftrightarrow> x < 0"
  using show_digits [of x] show_negative [of x] digit_not_minus [of "show_int x"]
  by (cases "x < 0") (auto simp: starts_with_def split: list.splits)

lemma padded_fraction:
  assumes x: "0 \<le> x" "in_range bits x" "x < 10 ^ n" and n: "0 < n"
  shows "length (pad_zeros n (show_int x)) = n" and "list_all is_digit (pad_zeros n (show_int x))"
    and "digits_val (pad_zeros n (show_int x)) = x"
  using show_digits [OF x(1,2)] show_short [OF x n]
  by (auto simp: pad_zeros_def digits_val_append list_all_iff is_digit_def)

lemma trimmed_fraction:
  assumes x: "0 < x" "in_range bits x" "x < 10 ^ n"
  defines "f \<equiv> trim_end_matches (CHR ''0'') (pad_zeros n (show_int x))"
  shows "f \<noteq> []" and "length f \<le> n" and "list_all is_digit f"
    and "digits_val f * 10 ^ (n - length f) = x" and "digits_val f \<le> x" and "0 \<le> digits_val f"
proof -
  define p where "p = pad_zeros n (show_int x)"
  have n: "0 < n" using x(1,3) by (cases n) auto
  have x0: "0 \<le> x" using x(1) by simp
  note p = padded_fraction [OF x0 x(2,3) n, folded p_def]
  obtain k where k: "p = f @ replicate k (CHR ''0'')" "length f + k = length p"
    using trim_end_decompose [of p "CHR ''0''"] unfolding f_def p_def by blast
  have val: "digits_val f * 10 ^ k = x"
    using p(3) k(1) by (simp add: digits_val_append)
  have "k = n - length f" using k(2) p(1) by simp
  with val show v: "digits_val f * 10 ^ (n - length f) = x" by simp
  show "f \<noteq> []" using val x(1) by auto
  show "length f \<le> n" using k(2) p(1) by simp
  show "list_all is_digit f" using p(2) k(1) by simp
  then show nn: "0 \<le> digits_val f" by (rule digits_val_nonneg)
  show "digits_val f \<le> x" using v mult_left_mono [OF _ nn, of 1 "10 ^ (n - length f)"] by simp
qed

end

locale fp_text = fixed_point bits scale wide + bint_text bits parse_int show_int
  for bits scale wide :: nat
    and parse_int :: "string \<Rightarrow> int_error_kind + int"
    and show_int :: "int \<Rightarrow> string" +
  assumes scale_pos: "0 < scale"
    and scale_u32: "scale < 2 ^ 32"
begin

lemma quotient_remainder:
  assumes x: "in_range bits x"
  defines "q \<equiv> x sdiv 10 ^ scale" and "r \<equiv> x smod 10 ^ scale"
  shows "q * 10 ^ scale + r = x" and "in_range bits q" and "in_range bits (q * 10 ^ scale)"
    and "\<bar>r\<bar> < 10 ^ scale" and "in_range bits \<bar>r\<bar>" and "r \<noteq> 0 \<Longrightarrow> r < 0 \<longleftrightarrow> x < 0"
    and "q < 0 \<Longrightarrow> x < 0" and "0 < q \<Longrightarrow> 0 < x"
proof -
  define u :: int where "u = 10 ^ scale"
  have u: "0 < u" by (simp add: u_def)
  show eq: "q * 10 ^ scale + r = x" unfolding q_def r_def by (rule sdiv_mult_smod_eq)
  show r: "\<bar>r\<bar> < 10 ^ scale"
    using u by (simp add: r_def smod_int_alt_def abs_mult abs_sgn_eq u_def)
  show rs: "r < 0 \<longleftrightarrow> x < 0" if "r \<noteq> 0"
    using that smod_neg_iff_mod(2) [OF u, of x] smod_pos_eq_mod(2) [OF u, of x]
    by (cases "r < 0") (auto simp: r_def u_def)
  have q: "x < 0 \<Longrightarrow> q \<le> 0" "0 < x \<Longrightarrow> 0 \<le> q" "x = 0 \<Longrightarrow> q = 0"
    using u by (auto simp: q_def u_def [symmetric] signed_divide_int_def pos_imp_zdiv_nonneg_iff)
  then show "q < 0 \<Longrightarrow> x < 0" "0 < q \<Longrightarrow> 0 < x"
    by (cases x "0::int" rule: linorder_cases; simp)+
  have "\<bar>r\<bar> \<le> 10 ^ scale" using r by simp
  then show "in_range bits \<bar>r\<bar>" using in_range_between(1) [OF pow10_fits(1) [of scale]] by simp
  have "\<bar>q\<bar> \<le> \<bar>q * 10 ^ scale\<bar>" by (simp add: abs_mult mult_le_cancel_left1)
  moreover have "\<bar>q * 10 ^ scale\<bar> \<le> \<bar>x\<bar> \<and> (0 \<le> x \<longrightarrow> 0 \<le> q * 10 ^ scale) \<and> (x \<le> 0 \<longrightarrow> q * 10 ^ scale \<le> 0)"
    using eq rs q by (cases "x = 0"; cases "r = 0") (auto simp: mult_le_0_iff)
  ultimately show "in_range bits (q * 10 ^ scale)" "in_range bits q"
    using in_range_between [OF x] q by (cases "0 \<le> x"; force)+
qed

lemma from_str_to_string:
  assumes x: "in_range bits x"
  shows "fp_from_str bits scale e parse_int (fp_to_string scale show_int x) = Ok x"
proof -
  define q r where "q = x sdiv 10 ^ scale" and "r = x smod 10 ^ scale"
  note qr = quotient_remainder [OF x, folded q_def r_def]
  show ?thesis
  proof (cases "r = 0")
    case True
    then show ?thesis using qr(1,3) parse_show [OF qr(2)] show_no_point [OF qr(2)]
      by (simp add: fp_to_string_def fp_from_str_def split_on_none bnum_from_str_def i_checked_ops
          flip: q_def r_def)
  next
    case False
    define h where "h = (if r < 0 \<and> q = 0 then ''-'' else '''') @ show_int q"
    define f where "f = trim_end_matches (CHR ''0'') (pad_zeros scale (show_int \<bar>r\<bar>))"
    have pos: "0 < \<bar>r\<bar>" using False by simp
    note f = trimmed_fraction [OF pos qr(5,4), folded f_def]
    have str: "fp_to_string scale show_int x = h @ CHR ''.'' # f"
      using False by (simp add: fp_to_string_def h_def f_def Let_def flip: q_def r_def)
    have "CHR ''.'' \<notin> set h" using show_no_point [OF qr(2)] by (simp add: h_def)
    then have split: "split_on (CHR ''.'') (h @ CHR ''.'' # f) = [h, f]"
      using digit_not_point [OF f(3)] by (simp add: split_on_one split_on_none)
    have parse_h: "parse_int h = Inr q"
      using parse_show [OF qr(2)] show_digits [of 0] parse_negative [of "show_int 0"] qr(2)
      by (auto simp: h_def)
    have minus_h: "q < 0 \<or> starts_with (CHR ''-'') h \<longleftrightarrow> x < 0"
      using show_starts_minus [OF qr(2)] qr(6,7,8) False
      by (auto simp: h_def starts_with_def)
    have "in_range bits (digits_val f)" using in_range_between(1) [OF qr(5)] f(5,6) by simp
    then have parse_f: "parse_int f = Inr (digits_val f)" using parse_unsigned f(1,3) by blast
    have len: "length f mod 4294967296 = length f" using f(2) scale_u32 by simp
    have sum: "x < 0 \<Longrightarrow> q * 10 ^ scale - \<bar>r\<bar> = x" "\<not> x < 0 \<Longrightarrow> q * 10 ^ scale + \<bar>r\<bar> = x"
      using qr(1) qr(6) [OF False] by auto
    show ?thesis
      using qr(3,5) f(2,4) sum x
      by (simp add: str fp_from_str_def split bnum_from_str_def parse_h parse_f minus_h len
          i_checked_ops Let_def)
  qed
qed

end

section \<open>A printer and a parser that meet the documentation\<close>

fun show_nat :: "nat \<Rightarrow> string" where
  "show_nat n = (if n < 10 then [char_of (48 + n)] else show_nat (n div 10) @ [char_of (48 + n mod 10)])"

declare show_nat.simps [simp del]

definition rust_show :: "int \<Rightarrow> string" where
  "rust_show x = (if x < 0 then CHR ''-'' # show_nat (nat (- x)) else show_nat (nat x))"

definition rust_parse_digits :: "nat \<Rightarrow> int \<Rightarrow> string \<Rightarrow> int_error_kind + int" where
  "rust_parse_digits bits sign ds =
     (if ds = [] \<or> \<not> list_all is_digit ds then Inl IntInvalidDigit
      else if in_range bits (sign * digits_val ds) then Inr (sign * digits_val ds)
      else Inl (if sign < 0 then IntNegOverflow else IntPosOverflow))"

definition rust_parse :: "nat \<Rightarrow> string \<Rightarrow> int_error_kind + int" where
  "rust_parse bits s =
     (case s of
        [] \<Rightarrow> Inl IntEmpty
      | c # cs \<Rightarrow>
          if c = CHR ''-'' then rust_parse_digits bits (- 1) cs
          else if c = CHR ''+'' then rust_parse_digits bits 1 cs
          else rust_parse_digits bits 1 s)"

lemma digit_char [simp]:
  assumes "n < 10"
  shows "is_digit (char_of (48 + n))" and "digit_val (char_of (48 + n)) = int n"
proof -
  have "(of_char (char_of (48 + n)) :: nat) = 48 + n" using assms by simp
  then have "(of_char (char_of (48 + n)) :: int) = int (48 + n)"
    by (metis of_nat_of_char)
  then show "is_digit (char_of (48 + n))" and "digit_val (char_of (48 + n)) = int n"
    using assms by (simp_all add: is_digit_def digit_val_def)
qed

lemma show_nat_digits:
  "show_nat n \<noteq> [] \<and> list_all is_digit (show_nat n) \<and> digits_val (show_nat n) = int n"
proof (induction n rule: show_nat.induct)
  case (1 n)
  have "int (n div 10) * 10 + int (n mod 10) = int n" by (simp add: zdiv_int zmod_int)
  with 1 show ?case
    by (cases "n < 10") (auto simp: show_nat.simps [of n] digits_val_append)
qed

lemma show_nat_short: "n < 10 ^ k \<Longrightarrow> 0 < k \<Longrightarrow> length (show_nat n) \<le> k"
proof (induction n arbitrary: k rule: show_nat.induct)
  case (1 n)
  show ?case
  proof (cases "n < 10")
    case False
    with "1.prems" obtain j where j: "k = Suc j" "0 < j" by (cases k; cases "k = 1") auto
    then have "n div 10 < 10 ^ j" using "1.prems"(1) by auto
    then have "length (show_nat (n div 10)) \<le> j" using "1.IH" [OF False] j by blast
    then show ?thesis using False j by (simp add: show_nat.simps [of n])
  qed (use "1.prems" in \<open>simp add: show_nat.simps\<close>)
qed

lemma rust_text: "bint_text bits (rust_parse bits) rust_show"
proof (unfold_locales, goal_cases)
  case (1 ds)
  then show ?case
    by (auto simp: rust_parse_def rust_parse_digits_def is_digit_def split: list.splits)
next
  case (2 ds)
  then show ?case by (simp add: rust_parse_def rust_parse_digits_def)
next
  case (3 x)
  then show ?case using show_nat_digits [of "nat x"] by (simp add: rust_show_def)
next
  case (4 x)
  then show ?case using show_nat_digits [of "nat (- x)"] by (simp add: rust_show_def)
next
  case (5 x n)
  then have "nat x < 10 ^ n" by (simp add: nat_less_iff)
  then show ?case using 5 show_nat_short by (simp add: rust_show_def)
qed

interpretation rust_dec: fp_text 192 18 256 "rust_parse 192" rust_show
  by (intro_locales; (rule rust_text)?; unfold_locales; simp)

interpretation rust_pdec: fp_text 256 36 384 "rust_parse 256" rust_show
  by (intro_locales; (rule rust_text)?; unfold_locales; simp)


section \<open>Properties\<close>

text \<open>
  C18. Parsing what is printed gives the same Decimal, for every Decimal from \<^verbatim>\<open>MIN\<close> to \<^verbatim>\<open>MAX\<close>
  and any integer printer and parser with the documented behaviour.
\<close>

theorem dec_from_str_to_string:
  assumes "bint_text 192 parse_int show_int" and "is_decimal x"
  shows "dec_from_str parse_int (dec_to_string show_int x) = Ok x"
proof -
  have "fp_text 192 18 256 parse_int show_int"
    using assms(1) dec.fixed_point_axioms by (simp add: fp_text_def fp_text_axioms_def)
  then show ?thesis
    using fp_text.from_str_to_string assms(2) by (simp add: dec_from_str_def dec_to_string_def)
qed

theorem dec_from_str_to_string_witness:
  "dec_from_str (rust_parse 192) (dec_to_string rust_show (- 100000000000000000)) =
     Ok (- 100000000000000000)"
  by (rule dec_from_str_to_string [OF rust_text]) (simp add: range_simps)

text \<open>
  Parsing what is printed gives the same PreciseDecimal, for every PreciseDecimal and any
  integer printer and parser with the documented behaviour.
\<close>

theorem pdec_from_str_to_string:
  assumes "bint_text 256 parse_int show_int" and "is_precise_decimal x"
  shows "pdec_from_str parse_int (pdec_to_string show_int x) = Ok x"
proof -
  have "fp_text 256 36 384 parse_int show_int"
    using assms(1) pdec.fixed_point_axioms by (simp add: fp_text_def fp_text_axioms_def)
  then show ?thesis
    using fp_text.from_str_to_string assms(2) by (simp add: pdec_from_str_def pdec_to_string_def)
qed

theorem pdec_from_str_to_string_witness:
  "pdec_from_str (rust_parse 256) (pdec_to_string rust_show 123) = Ok 123"
  by (rule pdec_from_str_to_string [OF rust_text]) (simp add: range_simps)

text \<open>
  The fractional part is parsed as a signed integer: with a sign inside it the number read
  is not the one written. The text \<open>1.-5\<close> is accepted and read as 0.95.
\<close>

theorem dec_from_str_accepts_signed_fraction:
  assumes "bint_text 192 parse_int show_int"
  shows "dec_from_str parse_int ''1.-5'' = Ok 950000000000000000"
proof -
  have "parse_int ''1'' = Inr 1" "parse_int ''-5'' = Inr (- 5)"
    using bint_text.parse_unsigned [OF assms, of "''1''"] bint_text.parse_negative [OF assms, of "''5''"]
    by (simp_all add: is_digit_def digit_val_def range_simps)
  then show ?thesis
    by (simp add: dec_from_str_def fp_from_str_def bnum_from_str_def i_checked_ops range_simps
        starts_with_def)
qed

theorem dec_from_str_accepts_signed_fraction_witness:
  "dec_from_str (rust_parse 192) ''1.-5'' = Ok 950000000000000000"
  by (rule dec_from_str_accepts_signed_fraction [OF rust_text])

end
