(* ===== verification/Date_Time.thy ===== *)
theory Date_Time
  imports Decimal_Text
begin

text \<open>
  \<^verbatim>\<open>radix-common/src/time\<close>: \<^verbatim>\<open>Instant\<close> (an \<^verbatim>\<open>i64\<close> of seconds since the Unix epoch, here an
  \<open>int\<close> with the checked operations of its width) and \<^verbatim>\<open>UtcDateTime\<close> with its validation, its
  conversions from and to \<^verbatim>\<open>Instant\<close> and its text form. The conversions are compared with a
  reference calendar that counts days from 0001-01-01. Text is a list of Unicode code points,
  because \<^verbatim>\<open>from_str\<close> mixes positions of characters with positions of UTF-8 bytes.
\<close>


section \<open>Instants\<close>

type_synonym instant = int

abbreviation SECONDS_IN_A_MINUTE :: int where "SECONDS_IN_A_MINUTE \<equiv> 60"
abbreviation SECONDS_IN_AN_HOUR :: int where "SECONDS_IN_AN_HOUR \<equiv> 3600"
abbreviation SECONDS_IN_A_DAY :: int where "SECONDS_IN_A_DAY \<equiv> 86400"

datatype time_comparison_operator = TEq | TLt | TLte | TGt | TGte

fun instant_compare :: "instant \<Rightarrow> instant \<Rightarrow> time_comparison_operator \<Rightarrow> bool" where
  "instant_compare self other TEq = (self = other)"
| "instant_compare self other TLt = (self < other)"
| "instant_compare self other TLte = (self \<le> other)"
| "instant_compare self other TGt = (self > other)"
| "instant_compare self other TGte = (self \<ge> other)"

definition instant_add_days :: "int \<Rightarrow> instant \<Rightarrow> instant option" where
  "instant_add_days days self =
     Option.bind (i_checked_mul 64 days SECONDS_IN_A_DAY) (i_checked_add 64 self)"

definition instant_add_hours :: "int \<Rightarrow> instant \<Rightarrow> instant option" where
  "instant_add_hours hours self =
     Option.bind (i_checked_mul 64 hours SECONDS_IN_AN_HOUR) (i_checked_add 64 self)"

definition instant_add_minutes :: "int \<Rightarrow> instant \<Rightarrow> instant option" where
  "instant_add_minutes minutes self =
     Option.bind (i_checked_mul 64 minutes SECONDS_IN_A_MINUTE) (i_checked_add 64 self)"

definition instant_add_seconds :: "int \<Rightarrow> instant \<Rightarrow> instant option" where
  "instant_add_seconds seconds self = i_checked_add 64 self seconds"


section \<open>Dates\<close>

datatype date_time_error =
    InvalidYear
  | InvalidMonth
  | InvalidDayOfMonth
  | InvalidHour
  | InvalidMinute
  | InvalidSecond
  | InstantIsOutOfRange

record utc_date_time =
  dt_year :: int
  dt_month :: int
  dt_day_of_month :: int
  dt_hour :: int
  dt_minute :: int
  dt_second :: int

definition UNIX_EPOCH_YEAR :: int where
  "UNIX_EPOCH_YEAR = 1970"

definition SECONDS_IN_A_NON_LEAP_YEAR :: int where
  "SECONDS_IN_A_NON_LEAP_YEAR = 365 * 24 * 60 * 60"

definition SECONDS_IN_A_LEAP_YEAR :: int where
  "SECONDS_IN_A_LEAP_YEAR = 366 * 24 * 60 * 60"

definition DAYS_PER_4Y :: int where
  "DAYS_PER_4Y = 365 * 4 + 1"

definition DAYS_PER_100Y :: int where
  "DAYS_PER_100Y = 365 * 100 + 24"

definition DAYS_PER_400Y :: int where
  "DAYS_PER_400Y = 365 * 400 + 97"

definition LEAP_YEAR_DAYS_IN_MONTHS :: "int list" where
  "LEAP_YEAR_DAYS_IN_MONTHS = [31, 29, 31, 30, 31, 30, 31, 31, 30, 31, 30, 31]"

definition SHIFT_FROM_UNIX_TIME_TO_MARCH_Y2K :: int where
  "SHIFT_FROM_UNIX_TIME_TO_MARCH_Y2K = 946684800 + 86400 * (31 + 29)"

definition MIN_SUPPORTED_TIMESTAMP :: int where
  "MIN_SUPPORTED_TIMESTAMP = - 62135596800"

definition MAX_SUPPORTED_TIMESTAMP :: int where
  "MAX_SUPPORTED_TIMESTAMP = 135536014634284799"

definition is_leap_year :: "int \<Rightarrow> bool" where
  "is_leap_year year \<longleftrightarrow> year mod 4 = 0 \<and> (year mod 100 \<noteq> 0 \<or> year mod 400 = 0)"

definition num_leap_years_up_to_exclusive :: "int \<Rightarrow> int" where
  "num_leap_years_up_to_exclusive year =
     (let prev = year - 1 in prev div 4 - prev div 100 + prev div 400)"

definition utc_new ::
    "int \<Rightarrow> int \<Rightarrow> int \<Rightarrow> int \<Rightarrow> int \<Rightarrow> int \<Rightarrow> (date_time_error, utc_date_time) res" where
  "utc_new year month day_of_month hour minute second =
     (if year = 0 then Error InvalidYear
      else if month < 1 \<or> month > 12 then Error InvalidMonth
      else if day_of_month < 1 \<or> day_of_month > LEAP_YEAR_DAYS_IN_MONTHS ! nat (month - 1) \<or>
              (\<not> is_leap_year year \<and> month = 2 \<and> day_of_month > 28)
           then Error InvalidDayOfMonth
      else if hour > 23 then Error InvalidHour
      else if minute > 59 then Error InvalidMinute
      else if second > 59 then Error InvalidSecond
      else Ok \<lparr>dt_year = year, dt_month = month, dt_day_of_month = day_of_month,
               dt_hour = hour, dt_minute = minute, dt_second = second\<rparr>)"

text \<open>The loop over the months of \<^verbatim>\<open>from_instant\<close>; running off the array is an index panic.\<close>

fun skip_months :: "int list \<Rightarrow> int \<Rightarrow> int \<Rightarrow> (date_time_error, int \<times> int) res" where
  "skip_months [] remaining_days month = Panics"
| "skip_months (d # ds) remaining_days month =
     (if d \<le> remaining_days then skip_months ds (remaining_days - d) (month + 1)
      else Ok (month, remaining_days))"

definition try_unsigned :: "nat \<Rightarrow> int \<Rightarrow> int option" where
  "try_unsigned bits x = (if 0 \<le> x \<and> x < 2 ^ bits then Some x else None)"

text \<open>
  The pieces of \<^verbatim>\<open>from_instant\<close>: a truncating division made into a flooring one, a division by
  the length of a leap cycle whose last part is one day longer, and the date of a day.
\<close>

definition floor_split :: "int \<Rightarrow> int \<Rightarrow> int \<times> int" where
  "floor_split x d =
     (let q = x sdiv d; r = x smod d in if r < 0 then (r + d, q - 1) else (r, q))"

definition cycle_split :: "int \<Rightarrow> int \<Rightarrow> int \<Rightarrow> int \<times> int" where
  "cycle_split parts len remaining_days =
     (let q = remaining_days sdiv len; n = (if q = parts then q - 1 else q)
      in (n, remaining_days - n * len))"

definition civil_from_days :: "int \<Rightarrow> (date_time_error, int \<times> int \<times> int) res" where
  "civil_from_days days_since_march_y2k =
     (case floor_split days_since_march_y2k DAYS_PER_400Y of (remaining_days, num_400_year_cycles) \<Rightarrow>
      case cycle_split 4 DAYS_PER_100Y remaining_days of (num_100_year_cycles, remaining_days) \<Rightarrow>
      case cycle_split 25 DAYS_PER_4Y remaining_days of (num_4_year_cycles, remaining_days) \<Rightarrow>
      case cycle_split 4 365 remaining_days of (remaining_years, remaining_days) \<Rightarrow>
      let year = remaining_years + 4 * num_4_year_cycles + 100 * num_100_year_cycles
                 + 400 * num_400_year_cycles + 2000;
          days_in_months_starting_on_march =
            drop 2 LEAP_YEAR_DAYS_IN_MONTHS @ take 2 LEAP_YEAR_DAYS_IN_MONTHS
      in rbind (skip_months days_in_months_starting_on_march remaining_days 0)
        (\<lambda>(month, remaining_days).
           Ok (if month + 2 \<ge> 12 then year + 1 else year,
               (if month + 2 \<ge> 12 then month + 2 - 12 else month + 2) + 1,
               remaining_days + 1)))"

definition from_instant :: "instant \<Rightarrow> (date_time_error, utc_date_time) res" where
  "from_instant instant =
     (if instant < MIN_SUPPORTED_TIMESTAMP \<or> instant > MAX_SUPPORTED_TIMESTAMP
      then Error InstantIsOutOfRange
      else
        case floor_split (instant - SHIFT_FROM_UNIX_TIME_TO_MARCH_Y2K) SECONDS_IN_A_DAY of
          (remaining_secs, days_since_march_y2k) \<Rightarrow>
        rbind (civil_from_days days_since_march_y2k) (\<lambda>(year, month, day_of_month).
        let hour = remaining_secs sdiv SECONDS_IN_AN_HOUR;
            minute = (remaining_secs sdiv SECONDS_IN_A_MINUTE) smod SECONDS_IN_A_MINUTE;
            second = remaining_secs smod SECONDS_IN_A_MINUTE
        in
          rbind (expect (try_unsigned 32 year)) (\<lambda>year.
          rbind (expect (try_unsigned 8 month)) (\<lambda>month.
          rbind (expect (try_unsigned 8 day_of_month)) (\<lambda>day_of_month.
          rbind (expect (try_unsigned 8 hour)) (\<lambda>hour.
          rbind (expect (try_unsigned 8 minute)) (\<lambda>minute.
          rbind (expect (try_unsigned 8 second)) (\<lambda>second.
            Ok \<lparr>dt_year = year, dt_month = month, dt_day_of_month = day_of_month,
                dt_hour = hour, dt_minute = minute, dt_second = second\<rparr>))))))))"

text \<open>The days of a month of \<open>to_instant\<close>, indexed from 0, and its two loops.\<close>

definition month_seconds :: "bool \<Rightarrow> nat \<Rightarrow> int" where
  "month_seconds is_leap n =
     (LEAP_YEAR_DAYS_IN_MONTHS ! n) * SECONDS_IN_A_DAY
       - (if \<not> is_leap \<and> n = 1 then SECONDS_IN_A_DAY else 0)"

definition ended_months :: "bool \<Rightarrow> nat \<Rightarrow> int" where
  "ended_months is_leap month0 = foldl (\<lambda>acc n. acc + month_seconds is_leap n) 0 [0..<month0]"

fun non_started_months :: "bool \<Rightarrow> nat \<Rightarrow> nat \<Rightarrow> int \<Rightarrow> nat \<times> int" where
  "non_started_months is_leap month0 curr_month acc =
     (if month0 < curr_month
      then non_started_months is_leap month0 (curr_month - 1) (acc + month_seconds is_leap curr_month)
      else (curr_month, acc))"

definition to_instant :: "utc_date_time \<Rightarrow> instant" where
  "to_instant self =
     (let is_leap = is_leap_year (dt_year self); month0 = nat (dt_month self - 1) in
      if dt_year self \<ge> UNIX_EPOCH_YEAR then
        let num_leap_years = num_leap_years_up_to_exclusive (dt_year self)
              - num_leap_years_up_to_exclusive (UNIX_EPOCH_YEAR + 1);
            num_non_leap_years = (dt_year self - UNIX_EPOCH_YEAR) - num_leap_years;
            seconds_up_to_the_beginning_of_the_year =
              num_non_leap_years * SECONDS_IN_A_NON_LEAP_YEAR + num_leap_years * SECONDS_IN_A_LEAP_YEAR
        in seconds_up_to_the_beginning_of_the_year
             + ended_months is_leap month0
             + (dt_day_of_month self - 1) * SECONDS_IN_A_DAY
             + dt_hour self * SECONDS_IN_AN_HOUR
             + dt_minute self * SECONDS_IN_A_MINUTE
             + dt_second self
      else
        let num_leap_years = num_leap_years_up_to_exclusive UNIX_EPOCH_YEAR
              - num_leap_years_up_to_exclusive (dt_year self + 1);
            num_non_leap_years = (UNIX_EPOCH_YEAR - dt_year self - 1) - num_leap_years;
            seconds_up_to_the_end_of_the_year =
              num_non_leap_years * SECONDS_IN_A_NON_LEAP_YEAR + num_leap_years * SECONDS_IN_A_LEAP_YEAR;
            (curr_month, seconds_in_non_started_months) = non_started_months is_leap month0 11 0;
            days_in_month = LEAP_YEAR_DAYS_IN_MONTHS ! month0
              - (if \<not> is_leap \<and> curr_month = 1 then 1 else 0);
            remaining_days_in_month = days_in_month - dt_day_of_month self;
            total = seconds_up_to_the_end_of_the_year
              + seconds_in_non_started_months
              + remaining_days_in_month * SECONDS_IN_A_DAY
              + (23 - dt_hour self) * SECONDS_IN_AN_HOUR
              + (59 - dt_minute self) * SECONDS_IN_A_MINUTE
              + (59 - dt_second self)
        in - total - 1)"

definition utc_via ::
    "(instant \<Rightarrow> instant option) \<Rightarrow> utc_date_time \<Rightarrow> (date_time_error, utc_date_time option) res" where
  "utc_via add self =
     (case add (to_instant self) of
        None \<Rightarrow> Ok None
      | Some i \<Rightarrow> (case from_instant i of Ok dt \<Rightarrow> Ok (Some dt) | Error _ \<Rightarrow> Ok None | Panics \<Rightarrow> Panics))"

definition utc_add_days :: "int \<Rightarrow> utc_date_time \<Rightarrow> (date_time_error, utc_date_time option) res" where
  "utc_add_days days = utc_via (instant_add_days days)"

definition utc_add_hours :: "int \<Rightarrow> utc_date_time \<Rightarrow> (date_time_error, utc_date_time option) res" where
  "utc_add_hours hours = utc_via (instant_add_hours hours)"

definition utc_add_minutes :: "int \<Rightarrow> utc_date_time \<Rightarrow> (date_time_error, utc_date_time option) res" where
  "utc_add_minutes minutes = utc_via (instant_add_minutes minutes)"

definition utc_add_seconds :: "int \<Rightarrow> utc_date_time \<Rightarrow> (date_time_error, utc_date_time option) res" where
  "utc_add_seconds seconds = utc_via (instant_add_seconds seconds)"

section \<open>Text\<close>

text \<open>
  A Rust \<^verbatim>\<open>str\<close> is a list of code points; \<open>byte_split\<close> cuts it at a byte offset of its UTF-8
  form, which is possible at a character boundary only, and slicing elsewhere panics.
  \<open>parse_uint\<close> is \<^verbatim>\<open>str::parse\<close> for an unsigned integer of a width; it takes a leading plus sign.
\<close>

type_synonym utf8 = "nat list"

definition ascii :: "string \<Rightarrow> utf8" where
  "ascii s = map of_char s"

definition utf8_len :: "nat \<Rightarrow> nat" where
  "utf8_len c = (if c < 0x80 then 1 else if c < 0x800 then 2 else if c < 0x10000 then 3 else 4)"

fun byte_split :: "nat \<Rightarrow> utf8 \<Rightarrow> (utf8 \<times> utf8) option" where
  "byte_split n [] = (if n = 0 then Some ([], []) else None)"
| "byte_split n (c # s) =
     (if n = 0 then Some ([], c # s)
      else if utf8_len c \<le> n then map_option (apfst (Cons c)) (byte_split (n - utf8_len c) s)
      else None)"

datatype parse_utc_date_time_error = InvalidFormat | DateTimeError date_time_error

definition str_slice :: "nat \<Rightarrow> nat \<Rightarrow> utf8 \<Rightarrow> (parse_utc_date_time_error, utf8) res" where
  "str_slice a b s =
     rbind (expect (byte_split b s)) (\<lambda>(front, _).
     rbind (expect (byte_split a front)) (\<lambda>(_, slice). Ok slice))"

definition parse_uint :: "nat \<Rightarrow> utf8 \<Rightarrow> int option" where
  "parse_uint bits s =
     (let ds = (if 1 < length s \<and> s ! 0 = 43 then tl s else s);
          val = foldl (\<lambda>a c. 10 * a + (int c - 48)) 0 ds
      in if ds = [] \<or> \<not> list_all (\<lambda>c. 48 \<le> c \<and> c \<le> 57) ds \<or> 2 ^ bits \<le> val then None else Some val)"

definition utc_to_string :: "utc_date_time \<Rightarrow> string" where
  "utc_to_string dt =
     pad_zeros 4 (show_nat (nat (dt_year dt))) @ ''-'' @
     pad_zeros 2 (show_nat (nat (dt_month dt))) @ ''-'' @
     pad_zeros 2 (show_nat (nat (dt_day_of_month dt))) @ ''T'' @
     pad_zeros 2 (show_nat (nat (dt_hour dt))) @ '':'' @
     pad_zeros 2 (show_nat (nat (dt_minute dt))) @ '':'' @
     pad_zeros 2 (show_nat (nat (dt_second dt))) @ ''Z''"

definition slice_uint ::
    "nat \<Rightarrow> nat \<Rightarrow> nat \<Rightarrow> utf8 \<Rightarrow> (parse_utc_date_time_error, int) res" where
  "slice_uint bits a b s = rbind (str_slice a b s) (\<lambda>t. ok_or (parse_uint bits t) InvalidFormat)"

definition utc_from_str :: "utf8 \<Rightarrow> (parse_utc_date_time_error, utc_date_time) res" where
  "utc_from_str s =
     (if length s = 20 \<and> s ! 4 = of_char (CHR ''-'') \<and> s ! 7 = of_char (CHR ''-'') \<and>
         s ! 10 = of_char (CHR ''T'') \<and> s ! 13 = of_char (CHR '':'') \<and>
         s ! 16 = of_char (CHR '':'') \<and> s ! 19 = of_char (CHR ''Z'') then
        rbind (slice_uint 32 0 4 s) (\<lambda>year.
        rbind (slice_uint 8 5 7 s) (\<lambda>month.
        rbind (slice_uint 8 8 10 s) (\<lambda>day_of_month.
        rbind (slice_uint 8 11 13 s) (\<lambda>hour.
        rbind (slice_uint 8 14 16 s) (\<lambda>minute.
        rbind (slice_uint 8 17 19 s) (\<lambda>second.
          map_err DateTimeError (utc_new year month day_of_month hour minute second)))))))
      else Error InvalidFormat)"


section \<open>The reference calendar\<close>

text \<open>
  A date is valid when \<^verbatim>\<open>UtcDateTime::new\<close> can build it. \<open>days_before_year\<close> counts the days
  of the proleptic Gregorian calendar from 0001-01-01 to the first of January, and
  \<open>second_number\<close> the seconds since the Unix epoch (719162 days after 0001-01-01).
\<close>

definition month_length :: "int \<Rightarrow> int \<Rightarrow> int" where
  "month_length y m =
     (if m \<in> {4, 6, 9, 11} then 30 else if m = 2 then (if is_leap_year y then 29 else 28) else 31)"

definition valid_date_time :: "utc_date_time \<Rightarrow> bool" where
  "valid_date_time dt \<longleftrightarrow>
     1 \<le> dt_year dt \<and> dt_year dt < 2 ^ 32 \<and> 1 \<le> dt_month dt \<and> dt_month dt \<le> 12 \<and>
     1 \<le> dt_day_of_month dt \<and> dt_day_of_month dt \<le> month_length (dt_year dt) (dt_month dt) \<and>
     0 \<le> dt_hour dt \<and> dt_hour dt \<le> 23 \<and> 0 \<le> dt_minute dt \<and> dt_minute dt \<le> 59 \<and>
     0 \<le> dt_second dt \<and> dt_second dt \<le> 59"

definition days_before_year :: "int \<Rightarrow> int" where
  "days_before_year y = 365 * (y - 1) + (y - 1) div 4 - (y - 1) div 100 + (y - 1) div 400"

primrec days_before_month :: "int \<Rightarrow> nat \<Rightarrow> int" where
  "days_before_month y 0 = 0"
| "days_before_month y (Suc m) = days_before_month y m + month_length y (1 + int m)"

definition day_number :: "int \<Rightarrow> int \<Rightarrow> int \<Rightarrow> int" where
  "day_number y m d = days_before_year y + days_before_month y (nat (m - 1)) + d - 1"

definition second_number :: "utc_date_time \<Rightarrow> int" where
  "second_number dt =
     86400 * (day_number (dt_year dt) (dt_month dt) (dt_day_of_month dt) - 719162)
       + 3600 * dt_hour dt + 60 * dt_minute dt + dt_second dt"

lemma month_cases:
  assumes "1 \<le> (m :: int)" "m \<le> 12"
  shows "m = 1 \<or> m = 2 \<or> m = 3 \<or> m = 4 \<or> m = 5 \<or> m = 6 \<or> m = 7 \<or> m = 8 \<or> m = 9 \<or>
    m = 10 \<or> m = 11 \<or> m = 12"
  using assms by presburger

lemma leap_year_step:
  "days_before_year (y + 1) = days_before_year y + (if is_leap_year y then 366 else 365)"
proof -
  have q: "(y - 1) div d = y div d - (if y mod d = 0 then 1 else 0)" if "0 < d" for d :: int
  proof (cases "y mod d = 0")
    case True
    then have "y = d * (y div d)" using mult_div_mod_eq [of d y] by simp
    then have "y - 1 = d * (y div d - 1) + (d - 1)" by (simp add: right_diff_distrib)
    then show ?thesis using that True int_div_pos_eq [of "y - 1" d "y div d - 1" "d - 1"] by simp
  next
    case False
    then have "0 < y mod d" "y mod d < d"
      using that pos_mod_bound [OF that, of y] pos_mod_sign [OF that, of y] by linarith+
    then show ?thesis using int_div_pos_eq [of "y - 1" d "y div d" "y mod d - 1"] False by simp
  qed
  have "y mod 400 = 0 \<Longrightarrow> y mod 100 = 0" "y mod 100 = 0 \<Longrightarrow> y mod 4 = 0" by presburger+
  then show ?thesis by (auto simp: days_before_year_def is_leap_year_def q)
qed

lemma days_before_year_mono: "y \<le> z \<Longrightarrow> days_before_year y \<le> days_before_year z"
proof (induction z rule: int_ge_induct)
  case (step z)
  then show ?case using leap_year_step [of z] by (simp split: if_splits)
qed simp

lemma days_before_month_cases:
  "days_before_month y (Suc 0) = 31"
  "days_before_month y 2 = (if is_leap_year y then 60 else 59)"
  "days_before_month y 3 = (if is_leap_year y then 91 else 90)"
  "days_before_month y 4 = (if is_leap_year y then 121 else 120)"
  "days_before_month y 5 = (if is_leap_year y then 152 else 151)"
  "days_before_month y 6 = (if is_leap_year y then 182 else 181)"
  "days_before_month y 7 = (if is_leap_year y then 213 else 212)"
  "days_before_month y 8 = (if is_leap_year y then 244 else 243)"
  "days_before_month y 9 = (if is_leap_year y then 274 else 273)"
  "days_before_month y 10 = (if is_leap_year y then 305 else 304)"
  "days_before_month y 11 = (if is_leap_year y then 335 else 334)"
  by (simp_all add: month_length_def numeral_eq_Suc)

lemma month_length_pos: "28 \<le> month_length y m"
  by (simp add: month_length_def)

section \<open>To an instant\<close>

lemma month_seconds_eq: "n \<le> 11 \<Longrightarrow> month_seconds (is_leap_year y) n = 86400 * month_length y (1 + int n)"
proof -
  assume "n \<le> 11"
  then have "n \<in> {0, 1, 2, 3, 4, 5, 6, 7, 8, 9, 10, 11}" by simp presburger
  then show ?thesis
    by (elim insertE) (simp_all add: month_seconds_def LEAP_YEAR_DAYS_IN_MONTHS_def month_length_def)
qed

lemma ended_months_eq:
  "m \<le> 12 \<Longrightarrow> ended_months (is_leap_year y) m = 86400 * days_before_month y m"
  unfolding ended_months_def by (induction m) (simp_all add: month_seconds_eq algebra_simps)

declare non_started_months.simps [simp del]

lemma non_started_months_eq:
  "m \<le> c \<Longrightarrow> c \<le> 11 \<Longrightarrow> non_started_months (is_leap_year y) m c acc =
     (m, acc + 86400 * (days_before_month y (Suc c) - days_before_month y (Suc m)))"
proof (induction c arbitrary: acc)
  case 0
  then show ?case by (simp add: non_started_months.simps)
next
  case (Suc c)
  show ?case
  proof (cases "m = Suc c")
    case False
    then have "m \<le> c" using Suc.prems by simp
    moreover have "non_started_months (is_leap_year y) m (Suc c) acc =
        non_started_months (is_leap_year y) m c (acc + month_seconds (is_leap_year y) (Suc c))"
      using \<open>m \<le> c\<close> by (subst non_started_months.simps) simp
    ultimately show ?thesis using Suc month_seconds_eq [of "Suc c" y] by (simp add: algebra_simps)
  qed (simp add: non_started_months.simps)
qed

lemma days_before_month_12: "days_before_month y 12 = (if is_leap_year y then 366 else 365)"
  by (simp add: month_length_def numeral_eq_Suc)

lemma leap_month_days:
  assumes "1 \<le> m" "m \<le> 12"
  shows "LEAP_YEAR_DAYS_IN_MONTHS ! nat (m - 1) - (if \<not> is_leap_year y \<and> nat (m - 1) = 1 then 1 else 0)
    = month_length y m"
  using month_cases [OF assms]
  by (elim disjE) (simp_all add: LEAP_YEAR_DAYS_IN_MONTHS_def month_length_def)

text \<open>Both branches of \<^verbatim>\<open>to_instant\<close> compute the reference count.\<close>

lemma to_instant_eq_second_number:
  assumes "1 \<le> dt_month dt" "dt_month dt \<le> 12"
  shows "to_instant dt = second_number dt"
proof -
  define y m where "y = dt_year dt" and "m = nat (dt_month dt - 1)"
  have m: "m \<le> 11" using assms by (simp add: m_def)
  define A where "A = num_leap_years_up_to_exclusive"
  have A: "days_before_year z = 365 * (z - 1) + A z" for z
    by (simp add: A_def days_before_year_def num_leap_years_up_to_exclusive_def Let_def)
  have A1970: "A 1970 = 477" "A 1971 = 477"
    by (simp_all add: A_def num_leap_years_up_to_exclusive_def)
  show ?thesis
  proof (cases "y \<ge> 1970")
    case True
    have "ended_months (is_leap_year y) m = 86400 * days_before_month y m"
      using m by (simp add: ended_months_eq)
    then show ?thesis using True
      by (simp add: to_instant_def Let_def second_number_def day_number_def A A1970 y_def [symmetric]
          m_def [symmetric] A_def [symmetric] UNIX_EPOCH_YEAR_def
          SECONDS_IN_A_NON_LEAP_YEAR_def SECONDS_IN_A_LEAP_YEAR_def)
  next
    case False
    have "non_started_months (is_leap_year y) m 11 0
        = (m, 86400 * (days_before_month y 12 - days_before_month y (Suc m)))"
      using non_started_months_eq [of m 11 y 0] m by simp
    moreover have "days_before_month y 12 = 365 + A (y + 1) - A y"
      using leap_year_step [of y] days_before_month_12 [of y] A [of y] A [of "y + 1"] by simp
    moreover have "days_before_month y (Suc m) = days_before_month y m + month_length y (dt_month dt)"
      using assms by (simp add: m_def)
    moreover have "LEAP_YEAR_DAYS_IN_MONTHS ! m - (if \<not> is_leap_year y \<and> m = 1 then 1 else 0)
        = month_length y (dt_month dt)"
      unfolding m_def by (rule leap_month_days [OF assms])
    ultimately show ?thesis using False
      by (simp add: to_instant_def Let_def second_number_def day_number_def A A1970 y_def [symmetric]
          m_def [symmetric] A_def [symmetric] UNIX_EPOCH_YEAR_def
          SECONDS_IN_A_NON_LEAP_YEAR_def SECONDS_IN_A_LEAP_YEAR_def
          del: days_before_month.simps LEAP_YEAR_DAYS_IN_MONTHS_def)
  qed
qed


section \<open>From an instant\<close>

lemma floor_split_eq:
  assumes "0 < d"
  shows "floor_split x d = (x mod d, x div d)"
proof -
  have eq: "x sdiv d * d + x smod d = x" by (rule sdiv_mult_smod_eq)
  show ?thesis
  proof (cases "x smod d < 0")
    case True
    then have m: "d + x smod d = x mod d" using smod_neg_iff_mod(1) [OF assms] by simp
    have "x = d * (x sdiv d - 1) + x mod d" using eq m by (simp add: algebra_simps)
    then have "x div d = x sdiv d - 1"
      using assms pos_mod_bound [OF assms, of x] pos_mod_sign [OF assms, of x]
      by (intro int_div_pos_eq) auto
    then show ?thesis using True m by (simp add: floor_split_def)
  next
    case False
    have "x smod d = x mod d"
    proof (cases "x smod d = 0")
      case True
      then show ?thesis by (simp add: smod_eq_0_iff)
    qed (use False smod_pos_eq_mod(1) [OF assms, of x] in simp)
    moreover then have "x div d = x sdiv d"
      using assms eq pos_mod_bound [OF assms, of x] pos_mod_sign [OF assms, of x]
      by (intro int_div_pos_eq) (auto simp: mult.commute)
    ultimately show ?thesis using False by (simp add: floor_split_def)
  qed
qed

lemma sdiv_nonneg: "0 \<le> (x :: int) \<Longrightarrow> 0 < d \<Longrightarrow> x sdiv d = x div d \<and> x smod d = x mod d"
  using floor_split_eq [of d x] smod_neg_iff_mod(2) [of d x]
  by (auto simp: floor_split_def Let_def split: if_splits)

definition leap_cycle_ok :: "int \<Rightarrow> int \<Rightarrow> int \<Rightarrow> int \<Rightarrow> bool" where
  "leap_cycle_ok c100 c4 y1 r \<longleftrightarrow>
     0 \<le> c100 \<and> c100 \<le> 3 \<and> 0 \<le> c4 \<and> c4 \<le> 24 \<and> 0 \<le> y1 \<and> y1 \<le> 3 \<and> 0 \<le> r \<and> r \<le> 365 \<and>
     (r = 365 \<longrightarrow> y1 = 3 \<and> (c4 < 24 \<or> c100 = 3))"

lemma div_bounds: "0 < (d :: int) \<Longrightarrow> d * (x div d) \<le> x \<and> x < d * (x div d) + d"
  using pos_mod_bound [of d x] pos_mod_sign [of d x] mult_div_mod_eq [of d x] by linarith

lemma leap_cycle_split:
  assumes r: "0 \<le> r" "r < 146097"
    and c100: "c100 = (if r div 36524 = 4 then r div 36524 - 1 else r div 36524)"
    and r1: "r1 = r - c100 * 36524"
    and c4: "c4 = (if r1 div 1461 = 25 then r1 div 1461 - 1 else r1 div 1461)"
    and r2: "r2 = r1 - c4 * 1461"
    and y1: "y1 = (if r2 div 365 = 4 then r2 div 365 - 1 else r2 div 365)"
  shows "leap_cycle_ok c100 c4 y1 (r2 - y1 * 365)" and "0 \<le> r1" and "0 \<le> r2"
proof -
  have a: "0 \<le> c100" "c100 \<le> 3" "0 \<le> r1" "r1 \<le> 36524" "c100 \<noteq> 3 \<Longrightarrow> r1 \<le> 36523"
    using div_bounds [of 36524 r] r by (auto simp: c100 r1)
  have b: "0 \<le> c4" "c4 \<le> 24" "0 \<le> r2" "r2 \<le> 1460" "c100 \<noteq> 3 \<Longrightarrow> r2 = 1460 \<Longrightarrow> c4 < 24"
    using div_bounds [of 1461 r1] a by (auto simp: c4 r2)
  have "0 \<le> y1" "y1 \<le> 3" "0 \<le> r2 - y1 * 365" "r2 - y1 * 365 \<le> 365"
      "r2 - y1 * 365 = 365 \<Longrightarrow> y1 = 3 \<and> r2 = 1460"
    using div_bounds [of 365 r2] b by (auto simp: y1 split: if_splits)
  then show "leap_cycle_ok c100 c4 y1 (r2 - y1 * 365)" unfolding leap_cycle_ok_def using a(1,2) b by blast
  show "0 \<le> r1" "0 \<le> r2" by (fact a b)+
qed

lemma leap_cycle_days:
  fixes c :: int
  assumes "leap_cycle_ok c100 c4 y1 r"
  defines "y \<equiv> y1 + 4 * c4 + 100 * c100 + 400 * c + 2000"
  shows "days_before_year (y + 1) = 146097 * c + 36524 * c100 + 1461 * c4 + 365 * y1 + 730485"
    and "r = 365 \<Longrightarrow> is_leap_year (y + 1)"
proof -
  note ok = assms(1) [unfolded leap_cycle_ok_def]
  have "y div 4 = c4 + 25 * c100 + 100 * c + 500"
    by (rule int_div_pos_eq [of _ _ _ y1]) (use ok in \<open>auto simp: y_def\<close>)
  moreover have "y div 100 = c100 + 4 * c + 20"
    by (rule int_div_pos_eq [of _ _ _ "y1 + 4 * c4"]) (use ok in \<open>auto simp: y_def\<close>)
  moreover have "y div 400 = c + 5"
    by (rule int_div_pos_eq [of _ _ _ "y1 + 4 * c4 + 100 * c100"]) (use ok in \<open>auto simp: y_def\<close>)
  moreover have "days_before_year (y + 1) = 365 * y + y div 4 - y div 100 + y div 400"
    by (simp add: days_before_year_def)
  ultimately show "days_before_year (y + 1) = 146097 * c + 36524 * c100 + 1461 * c4 + 365 * y1 + 730485"
    using y_def by simp
  assume "r = 365"
  then have y1: "y1 = 3" and leap: "c4 < 24 \<or> c100 = 3" using ok by auto
  have "(y + 1) mod 4 = 0" using y1 by (simp add: y_def)
  moreover have "(y + 1) mod 100 = 4 * (c4 + 1)" if "c4 < 24"
    using that y1 ok by (intro int_mod_pos_eq [of _ _ "c100 + 4 * c + 20"]) (auto simp: y_def)
  moreover have "(y + 1) mod 400 = 0" if "c4 = 24" "c100 = 3"
    using that y1 by (simp add: y_def)
  ultimately show "is_leap_year (y + 1)" using leap ok by (force simp: is_leap_year_def)
qed

text \<open>The month loop: the months from March on have fixed lengths, except February at the end.\<close>

definition march_months :: "int list" where
  "march_months = [31, 30, 31, 30, 31, 31, 30, 31, 30, 31, 31, 29]"

lemma march_months_eq:
  "drop 2 LEAP_YEAR_DAYS_IN_MONTHS @ take 2 LEAP_YEAR_DAYS_IN_MONTHS = march_months"
  by (simp add: LEAP_YEAR_DAYS_IN_MONTHS_def march_months_def)

lemmas march_simps = march_months_def day_number_def days_before_month_cases month_length_def

lemma skip_march_months:
  assumes "0 \<le> r" "r \<le> 365" and "r = 365 \<Longrightarrow> is_leap_year (y + 1)"
  obtains month d where "skip_months march_months r 0 = Ok (month, d)" and "0 \<le> d"
    and "month + 2 < 12 \<Longrightarrow> 3 \<le> month + 3 \<and> month + 3 \<le> 12 \<and> d < month_length y (month + 3) \<and>
      day_number y (month + 3) (d + 1) = days_before_year (y + 1) - 306 + r"
    and "\<not> month + 2 < 12 \<Longrightarrow> 1 \<le> month - 9 \<and> month - 9 \<le> 2 \<and> d < month_length (y + 1) (month - 9) \<and>
      day_number (y + 1) (month - 9) (d + 1) = days_before_year (y + 1) - 306 + r"
proof -
  note step = leap_year_step [of y]
  have "r < 366" using assms by simp
  have feb: "\<not> is_leap_year (y + 1) \<Longrightarrow> r < 365" using assms(2,3) by force
  consider (m0) "0 \<le> r" "r < 31"
    | (m1) "31 \<le> r" "r < 61"
    | (m2) "61 \<le> r" "r < 92"
    | (m3) "92 \<le> r" "r < 122"
    | (m4) "122 \<le> r" "r < 153"
    | (m5) "153 \<le> r" "r < 184"
    | (m6) "184 \<le> r" "r < 214"
    | (m7) "214 \<le> r" "r < 245"
    | (m8) "245 \<le> r" "r < 275"
    | (m9) "275 \<le> r" "r < 306"
    | (m10) "306 \<le> r" "r < 337"
    | (m11) "337 \<le> r" "r < 366" using assms(1) \<open>r < 366\<close> by (meson not_less)
  then show thesis
  proof cases
    case m0
    show thesis by (rule that [of 0 "r - 0"]) (use m0 assms step in \<open>simp_all add: march_simps\<close>)
  next
    case m1
    show thesis by (rule that [of 1 "r - 31"]) (use m1 assms step in \<open>simp_all add: march_simps\<close>)
  next
    case m2
    show thesis by (rule that [of 2 "r - 61"]) (use m2 assms step in \<open>simp_all add: march_simps\<close>)
  next
    case m3
    show thesis by (rule that [of 3 "r - 92"]) (use m3 assms step in \<open>simp_all add: march_simps\<close>)
  next
    case m4
    show thesis by (rule that [of 4 "r - 122"]) (use m4 assms step in \<open>simp_all add: march_simps\<close>)
  next
    case m5
    show thesis by (rule that [of 5 "r - 153"]) (use m5 assms step in \<open>simp_all add: march_simps\<close>)
  next
    case m6
    show thesis by (rule that [of 6 "r - 184"]) (use m6 assms step in \<open>simp_all add: march_simps\<close>)
  next
    case m7
    show thesis by (rule that [of 7 "r - 214"]) (use m7 assms step in \<open>simp_all add: march_simps\<close>)
  next
    case m8
    show thesis by (rule that [of 8 "r - 245"]) (use m8 assms step in \<open>simp_all add: march_simps\<close>)
  next
    case m9
    show thesis by (rule that [of 9 "r - 275"]) (use m9 assms step in \<open>simp_all add: march_simps\<close>)
  next
    case m10
    show thesis by (rule that [of 10 "r - 306"]) (use m10 assms step in \<open>simp_all add: march_simps\<close>)
  next
    case m11
    show thesis by (rule that [of 11 "r - 337"]) (use m11 assms step feb in \<open>simp_all add: march_simps\<close>)
  qed
qed

text \<open>The day part: year, month and day of the day \<open>n\<close> (counted from 2000-03-01).\<close>

definition civil_ok :: "int \<Rightarrow> int \<Rightarrow> int \<Rightarrow> int \<Rightarrow> bool" where
  "civil_ok n y m d \<longleftrightarrow> 1 \<le> m \<and> m \<le> 12 \<and> 1 \<le> d \<and> d \<le> month_length y m \<and> day_number y m d = n + 730179"

lemma cycle_split_eq:
  "0 \<le> r \<Longrightarrow> 0 < len \<Longrightarrow> cycle_split parts len r = (q, r') \<longleftrightarrow>
     q = (if r div len = parts then r div len - 1 else r div len) \<and> r' = r - q * len"
  using sdiv_nonneg [of r len] by (auto simp: cycle_split_def Let_def)

lemma from_instant_consts:
  "SHIFT_FROM_UNIX_TIME_TO_MARCH_Y2K = 951868800" "DAYS_PER_4Y = 1461" "DAYS_PER_100Y = 36524"
  "DAYS_PER_400Y = 146097"
  by (simp_all add: SHIFT_FROM_UNIX_TIME_TO_MARCH_Y2K_def DAYS_PER_4Y_def DAYS_PER_100Y_def
      DAYS_PER_400Y_def)

lemma civil_from_days_ok:
  obtains y m d where "civil_from_days n = Ok (y, m, d)" and "civil_ok n y m d"
proof -
  define c r where "c = n div 146097" and "r = n mod 146097"
  have f: "floor_split n 146097 = (r, c)" by (simp add: c_def r_def floor_split_eq)
  have r0: "0 \<le> r" "r < 146097" by (simp_all add: r_def)
  obtain c100 r1 where s100: "cycle_split 4 36524 r = (c100, r1)" by fastforce
  then have c100: "c100 = (if r div 36524 = 4 then r div 36524 - 1 else r div 36524)"
    and r1: "r1 = r - c100 * 36524" using cycle_split_eq r0 by simp_all
  have "0 \<le> r1" using div_bounds [of 36524 r] r0 by (auto simp: r1 c100)
  obtain c4 r2 where s4: "cycle_split 25 1461 r1 = (c4, r2)" by fastforce
  then have c4: "c4 = (if r1 div 1461 = 25 then r1 div 1461 - 1 else r1 div 1461)"
    and r2: "r2 = r1 - c4 * 1461" using cycle_split_eq \<open>0 \<le> r1\<close> by simp_all
  have "0 \<le> r2" using div_bounds [of 1461 r1] \<open>0 \<le> r1\<close> by (auto simp: r2 c4)
  obtain y1 r3 where s1: "cycle_split 4 365 r2 = (y1, r3)" by fastforce
  then have y1: "y1 = (if r2 div 365 = 4 then r2 div 365 - 1 else r2 div 365)"
    and r3: "r3 = r2 - y1 * 365" using cycle_split_eq \<open>0 \<le> r2\<close> by simp_all
  define y where "y = y1 + 4 * c4 + 100 * c100 + 400 * c + 2000"
  have ok: "leap_cycle_ok c100 c4 y1 r3"
    unfolding r3 by (rule leap_cycle_split(1) [OF r0 c100 r1 c4 r2 y1])
  have days: "days_before_year (y + 1) = 146097 * c + 36524 * c100 + 1461 * c4 + 365 * y1 + 730485"
    and feb: "r3 = 365 \<Longrightarrow> is_leap_year (y + 1)"
    using leap_cycle_days [OF ok, of c] by (simp_all add: y_def)
  have n: "days_before_year (y + 1) - 306 + r3 = n + 730179"
    using mult_div_mod_eq [of 146097 n] days by (simp add: r3 r2 r1 r_def c_def)
  have "0 \<le> r3" "r3 \<le> 365" using ok by (simp_all add: leap_cycle_ok_def)
  from skip_march_months [OF this, of y] feb obtain month d
    where sk: "skip_months march_months r3 0 = Ok (month, d)" and d: "0 \<le> d"
    and lo: "month + 2 < 12 \<Longrightarrow> 3 \<le> month + 3 \<and> month + 3 \<le> 12 \<and> d < month_length y (month + 3) \<and>
      day_number y (month + 3) (d + 1) = days_before_year (y + 1) - 306 + r3"
    and hi: "\<not> month + 2 < 12 \<Longrightarrow> 1 \<le> month - 9 \<and> month - 9 \<le> 2 \<and> d < month_length (y + 1) (month - 9) \<and>
      day_number (y + 1) (month - 9) (d + 1) = days_before_year (y + 1) - 306 + r3"
    by metis
  define Y M where "Y = (if month + 2 \<ge> 12 then y + 1 else y)"
    and "M = (if month + 2 \<ge> 12 then month - 9 else month + 3)"
  have "civil_from_days n = Ok (Y, M, d + 1)"
    by (simp add: civil_from_days_def from_instant_consts f s100 s4 s1 march_months_eq sk Y_def M_def
        flip: y_def)
  moreover have "civil_ok n Y M (d + 1)"
  proof (cases "month + 2 < 12")
    case True
    then show ?thesis using lo [OF True] n d by (simp add: civil_ok_def Y_def M_def)
  next
    case False
    then show ?thesis using hi [OF False] n d by (simp add: civil_ok_def Y_def M_def)
  qed
  ultimately show thesis using that by blast
qed

lemma day_number_bounds:
  assumes "1 \<le> m" "m \<le> 12" "1 \<le> d" "d \<le> month_length y m"
  shows "days_before_year y \<le> day_number y m d" "day_number y m d < days_before_year (y + 1)"
proof -
  have "0 \<le> days_before_month y (nat (m - 1)) \<and>
    days_before_month y (nat (m - 1)) + month_length y m \<le> days_before_year (y + 1) - days_before_year y"
    using month_cases [OF assms(1,2)] leap_year_step [of y]
    by (elim disjE) (simp_all add: days_before_month_cases month_length_def)
  then show "days_before_year y \<le> day_number y m d" "day_number y m d < days_before_year (y + 1)"
    using assms(3,4) by (simp_all add: day_number_def)
qed

lemma year_range:
  assumes "civil_ok n y m d" and "- 730179 \<le> n" and "n \<le> 1568703862064"
  shows "1 \<le> y" "y < 2 ^ 32"
proof -
  have b: "days_before_year y \<le> n + 730179" "n + 730179 < days_before_year (y + 1)"
    using assms(1) day_number_bounds [of m d y] by (simp_all add: civil_ok_def)
  have "days_before_year (0 + 1) = 0" "days_before_year (2 ^ 32) = 1568704592244"
    by (simp_all add: days_before_year_def)
  then show "1 \<le> y" "y < 2 ^ 32"
    using b assms(2,3) days_before_year_mono [of "y + 1" "0 + 1"] days_before_year_mono [of "2 ^ 32" y]
    by linarith+
qed

text \<open>Every supported instant has a date, and the date counts back to the instant.\<close>

lemma from_instant_date:
  assumes "MIN_SUPPORTED_TIMESTAMP \<le> i" "i \<le> MAX_SUPPORTED_TIMESTAMP"
  obtains dt where "from_instant i = Ok dt" "valid_date_time dt" "second_number dt = i"
proof -
  define n s where "n = (i - 951868800) div 86400" and "s = (i - 951868800) mod 86400"
  have s: "0 \<le> s" "s < 86400" by (simp_all add: s_def)
  have i: "i = 86400 * (n + 11017) + s"
    using mult_div_mod_eq [of 86400 "i - 951868800"] by (simp add: n_def s_def)
  have n: "- 730179 \<le> n" "n \<le> 1568703862064"
    using assms s i by (simp_all add: MIN_SUPPORTED_TIMESTAMP_def MAX_SUPPORTED_TIMESTAMP_def)
  have f: "floor_split (i - 951868800) 86400 = (s, n)" by (simp add: n_def s_def floor_split_eq)
  obtain y m d where civil: "civil_from_days n = Ok (y, m, d)" and ok: "civil_ok n y m d"
    by (rule civil_from_days_ok)
  have d: "1 \<le> d" "d \<le> 31" "1 \<le> m" "m \<le> 12"
    using ok by (auto simp: civil_ok_def month_length_def split: if_splits)
  have t: "s sdiv 3600 = s div 3600" "s sdiv 60 = s div 60" "s smod 60 = s mod 60"
      "(s div 60) smod 60 = (s div 60) mod 60"
    using sdiv_nonneg [of s] sdiv_nonneg [of "s div 60" 60] s by simp_all
  have h: "0 \<le> s div 3600" "s div 3600 < 24" "s div 60 mod 60 < 256" "s mod 60 < 256"
    using s pos_mod_bound [of 60 s] pos_mod_bound [of 60 "s div 60"] by simp_all
  have run: "from_instant i = Ok \<lparr>dt_year = y, dt_month = m, dt_day_of_month = d,
      dt_hour = s div 3600, dt_minute = (s div 60) mod 60, dt_second = s mod 60\<rparr>"
    using assms civil year_range [OF ok n] d s h
    by (simp add: from_instant_def from_instant_consts f t try_unsigned_def Let_def)
  have "s div 60 div 60 = s div 3600" by (simp add: zdiv_zmult2_eq [symmetric])
  then have "3600 * (s div 3600) + 60 * ((s div 60) mod 60) + s mod 60 = s"
    using mult_div_mod_eq [of 60 s] mult_div_mod_eq [of 60 "s div 60"] by linarith
  then show thesis using ok year_range [OF ok n] i s
    by (intro that [OF run]) (auto simp: valid_date_time_def civil_ok_def second_number_def)
qed

section \<open>Order and round trips\<close>

text \<open>The derived order of \<^verbatim>\<open>UtcDateTime\<close> compares the fields in their order of declaration.\<close>

definition utc_fields :: "utc_date_time \<Rightarrow> int list" where
  "utc_fields dt = [dt_year dt, dt_month dt, dt_day_of_month dt, dt_hour dt, dt_minute dt, dt_second dt]"

fun lex_less :: "int list \<Rightarrow> int list \<Rightarrow> bool" where
  "lex_less [] ys = (ys \<noteq> [])"
| "lex_less (x # xs) [] = False"
| "lex_less (x # xs) (y # ys) = (x < y \<or> x = y \<and> lex_less xs ys)"

definition utc_less :: "utc_date_time \<Rightarrow> utc_date_time \<Rightarrow> bool" where
  "utc_less a b = lex_less (utc_fields a) (utc_fields b)"

lemma utc_trichotomy: "utc_less a b \<or> a = b \<or> utc_less b a"
  by (auto simp: utc_less_def utc_fields_def intro!: utc_date_time.equality)

lemma days_before_month_mono: "m \<le> m' \<Longrightarrow> days_before_month y m \<le> days_before_month y m'"
proof (induction m' rule: dec_induct)
  case (step n)
  then show ?case using month_length_pos [of y "1 + int n"] by simp
qed simp

lemma day_number_less:
  assumes "1 \<le> m" "m \<le> 12" "1 \<le> d" "d \<le> month_length y m"
    and "1 \<le> m'" "m' \<le> 12" "1 \<le> d'" "d' \<le> month_length y' m'"
    and "y < y' \<or> y = y' \<and> (m < m' \<or> m = m' \<and> d < d')"
  shows "day_number y m d < day_number y' m' d'"
  using assms(9)
proof (elim disjE conjE)
  assume "y < y'"
  then show ?thesis
    using day_number_bounds(2) [OF assms(1-4)] day_number_bounds(1) [OF assms(5-8)]
      days_before_year_mono [of "y + 1" y'] by simp
next
  assume y: "y = y'" and m: "m < m'"
  have "days_before_month y (Suc (nat (m - 1))) \<le> days_before_month y (nat (m' - 1))"
    using m assms(1) by (intro days_before_month_mono) simp
  then show ?thesis using y assms(1,4,7) by (simp add: day_number_def)
qed (simp add: day_number_def)

lemma second_number_less:
  assumes "valid_date_time a" "valid_date_time b" "utc_less a b"
  shows "second_number a < second_number b"
proof -
  let ?n = "\<lambda>t. day_number (dt_year t) (dt_month t) (dt_day_of_month t)"
  let ?s = "\<lambda>t. 3600 * dt_hour t + 60 * dt_minute t + dt_second t"
  have v: "0 \<le> ?s a" "?s a < 86400" "0 \<le> ?s b" "?s b < 86400"
    using assms(1,2) by (simp_all add: valid_date_time_def)
  consider "?n a < ?n b" | "?n a = ?n b" "?s a < ?s b"
  proof (cases "[dt_year a, dt_month a, dt_day_of_month a] = [dt_year b, dt_month b, dt_day_of_month b]")
    case True
    then have "?s a < ?s b"
      using assms by (auto simp: utc_less_def utc_fields_def valid_date_time_def)
    then show ?thesis using True that(2) by simp
  next
    case False
    then have "?n a < ?n b"
      using assms by (intro day_number_less) (auto simp: utc_less_def utc_fields_def valid_date_time_def)
    then show ?thesis by (rule that(1))
  qed
  then show ?thesis by cases (use v in \<open>simp_all add: second_number_def\<close>)
qed

lemma second_number_inj:
  "valid_date_time a \<Longrightarrow> valid_date_time b \<Longrightarrow> second_number a = second_number b \<Longrightarrow> a = b"
  using utc_trichotomy [of a b] second_number_less [of a b] second_number_less [of b a] by auto

lemma second_number_range:
  assumes "valid_date_time dt"
  shows "MIN_SUPPORTED_TIMESTAMP \<le> second_number dt" "second_number dt \<le> MAX_SUPPORTED_TIMESTAMP"
proof -
  let ?n = "day_number (dt_year dt) (dt_month dt) (dt_day_of_month dt)"
  note v = assms [unfolded valid_date_time_def]
  have "days_before_year (dt_year dt) \<le> ?n" "?n < days_before_year (dt_year dt + 1)"
    using v day_number_bounds [of "dt_month dt" "dt_day_of_month dt" "dt_year dt"] by simp_all
  moreover have "days_before_year 1 \<le> days_before_year (dt_year dt)"
      "days_before_year (dt_year dt + 1) \<le> days_before_year (2 ^ 32)"
    using v by (auto intro: days_before_year_mono)
  moreover have "days_before_year 1 = 0" "days_before_year (2 ^ 32) = 1568704592244"
    by (simp_all add: days_before_year_def)
  ultimately have "0 \<le> ?n" "?n < 1568704592244" by simp_all
  then show "MIN_SUPPORTED_TIMESTAMP \<le> second_number dt" "second_number dt \<le> MAX_SUPPORTED_TIMESTAMP"
    using v by (simp_all add: second_number_def MIN_SUPPORTED_TIMESTAMP_def MAX_SUPPORTED_TIMESTAMP_def)
qed

lemma to_instant_valid: "valid_date_time dt \<Longrightarrow> to_instant dt = second_number dt"
  by (simp add: to_instant_eq_second_number valid_date_time_def)

lemma from_second_number: "valid_date_time dt \<Longrightarrow> from_instant (second_number dt) = Ok dt"
  using from_instant_date [of "second_number dt"] second_number_range second_number_inj by metis

section \<open>Text round trip\<close>

lemma month_length_le:
  assumes "1 \<le> m" "m \<le> 12"
  shows "d > LEAP_YEAR_DAYS_IN_MONTHS ! nat (m - 1) \<or> (\<not> is_leap_year y \<and> m = 2 \<and> d > 28)
    \<longleftrightarrow> \<not> d \<le> month_length y m"
  using month_cases [OF assms]
  by (elim disjE) (auto simp: LEAP_YEAR_DAYS_IN_MONTHS_def month_length_def)

lemma utc_new_valid:
  assumes "valid_date_time dt"
  shows "utc_new (dt_year dt) (dt_month dt) (dt_day_of_month dt) (dt_hour dt) (dt_minute dt)
    (dt_second dt) = Ok dt"
  using assms month_length_le [of "dt_month dt" "dt_day_of_month dt" "dt_year dt"]
  by (simp add: utc_new_def valid_date_time_def)

lemma utc_new_Ok:
  assumes "utc_new y m d h mi s = Ok dt" and "0 \<le> y" "y < 2 ^ 32" "0 \<le> h" "0 \<le> mi" "0 \<le> s"
  shows "valid_date_time dt"
proof -
  have "y \<noteq> 0" "1 \<le> m" "m \<le> 12" "1 \<le> d" "h \<le> 23" "mi \<le> 59" "s \<le> 59"
    "dt = \<lparr>dt_year = y, dt_month = m, dt_day_of_month = d, dt_hour = h, dt_minute = mi, dt_second = s\<rparr>"
    "\<not> (d > LEAP_YEAR_DAYS_IN_MONTHS ! nat (m - 1) \<or> (\<not> is_leap_year y \<and> m = 2 \<and> d > 28))"
    using assms(1) by (simp_all add: utc_new_def split: if_splits)
  then show ?thesis using assms(2-) month_length_le [of m d y] by (simp add: valid_date_time_def)
qed

lemma byte_split_ascii:
  "list_all (\<lambda>c. c < 128) s \<Longrightarrow> n \<le> length s \<Longrightarrow> byte_split n s = Some (take n s, drop n s)"
proof (induction s arbitrary: n)
  case (Cons c s)
  then show ?case by (cases n) (simp_all add: utf8_len_def)
qed simp

lemma str_slice_ascii:
  "list_all (\<lambda>c. c < 128) s \<Longrightarrow> a \<le> b \<Longrightarrow> b \<le> length s \<Longrightarrow> str_slice a b s = Ok (take (b - a) (drop a s))"
proof -
  assume s: "list_all (\<lambda>c. c < 128) s" and ab: "a \<le> b" "b \<le> length s"
  then have "list_all (\<lambda>c. c < 128) (take b s)" by (auto simp: list_all_iff dest: in_set_takeD)
  then show ?thesis using s ab by (simp add: str_slice_def byte_split_ascii drop_take)
qed

lemma ascii_digits_val:
  "foldl (\<lambda>a c. 10 * a + (int c - 48)) a (ascii ds) = foldl (\<lambda>a c. 10 * a + digit_val c) a ds"
  by (induction ds arbitrary: a) (simp_all add: ascii_def digit_val_def of_nat_of_char)

lemma digit_code: "is_digit c \<longleftrightarrow> 48 \<le> (of_char c :: nat) \<and> (of_char c :: nat) \<le> 57"
  unfolding is_digit_def using of_nat_of_char [of c, where ?'a = int] by linarith

lemma parse_uint_digits:
  assumes "ds \<noteq> []" "list_all is_digit ds" "digits_val ds < 2 ^ bits"
  shows "parse_uint bits (ascii ds) = Some (digits_val ds)"
proof -
  have "list_all (\<lambda>c. 48 \<le> c \<and> c \<le> 57) (ascii ds)"
    using assms(2) digit_code by (auto simp: ascii_def list_all_iff)
  moreover from this have "ascii ds ! 0 \<noteq> 43" using assms(1) by (cases ds) (auto simp: ascii_def)
  ultimately show ?thesis using assms ascii_digits_val [of 0 ds]
    by (auto simp: parse_uint_def digits_val_def ascii_def)
qed

lemma padded_number:
  assumes "0 \<le> x" "x < 10 ^ n" "0 < n"
  shows "length (pad_zeros n (show_nat (nat x))) = n"
    and "list_all is_digit (pad_zeros n (show_nat (nat x)))"
    and "digits_val (pad_zeros n (show_nat (nat x))) = x"
proof -
  have "nat x < 10 ^ n" using assms by (simp add: nat_less_iff)
  then show "length (pad_zeros n (show_nat (nat x))) = n"
    "list_all is_digit (pad_zeros n (show_nat (nat x)))"
    "digits_val (pad_zeros n (show_nat (nat x))) = x"
    using show_nat_digits [of "nat x"] show_nat_short [of "nat x" n] assms
    by (auto simp: pad_zeros_def digits_val_append list_all_iff is_digit_def)
qed

text \<open>The text of a date, cut at the positions that \<^verbatim>\<open>from_str\<close> looks at.\<close>

definition number_text :: "nat \<Rightarrow> int \<Rightarrow> utf8" where
  "number_text n x = ascii (pad_zeros n (show_nat (nat x)))"

lemma digits_ascii: "list_all is_digit ds \<Longrightarrow> list_all (\<lambda>c. c < 128) (ascii ds)"
  by (auto simp: ascii_def list_all_iff digit_code)

lemma ascii_append [simp]: "ascii (xs @ ys) = ascii xs @ ascii ys"
  by (simp add: ascii_def)

lemma ascii_simps [simp]: "ascii [] = []" "ascii (c # cs) = of_char c # ascii cs"
  by (simp_all add: ascii_def)

lemma length_ascii [simp]: "length (ascii xs) = length xs"
  by (simp add: ascii_def)

lemma number_text:
  assumes "0 \<le> x" "x < 10 ^ n" "0 < n"
  shows "length (number_text n x) = n" and "list_all (\<lambda>c. c < 128) (number_text n x)"
    and "x < 2 ^ bits \<Longrightarrow> parse_uint bits (number_text n x) = Some x"
proof -
  note p = padded_number [OF assms]
  show "length (number_text n x) = n" using p(1) by (simp add: number_text_def)
  show "list_all (\<lambda>c. c < 128) (number_text n x)"
    unfolding number_text_def by (rule digits_ascii [OF p(2)])
  show "x < 2 ^ bits \<Longrightarrow> parse_uint bits (number_text n x) = Some x"
    unfolding number_text_def using parse_uint_digits [OF _ p(2)] p(1,3) assms(3) by fastforce
qed

lemma utc_text:
  "ascii (utc_to_string dt) =
     number_text 4 (dt_year dt) @ 45 # number_text 2 (dt_month dt) @ 45 #
     number_text 2 (dt_day_of_month dt) @ 84 # number_text 2 (dt_hour dt) @ 58 #
     number_text 2 (dt_minute dt) @ 58 # number_text 2 (dt_second dt) @ [90]"
  by (simp add: utc_to_string_def number_text_def)

lemma six_slices:
  assumes len: "length y = 4" "length mo = 2" "length d = 2" "length h = 2" "length mi = 2" "length se = 2"
    and small: "list_all (\<lambda>c. c < 128) (y @ mo @ d @ h @ mi @ se)"
  defines "s \<equiv> y @ 45 # mo @ 45 # d @ 84 # h @ 58 # mi @ 58 # se @ [90]"
  shows "length s = 20" "s ! 4 = 45" "s ! 7 = 45" "s ! 10 = 84" "s ! 13 = 58" "s ! 16 = 58" "s ! 19 = 90"
    and "str_slice 0 4 s = Ok y" "str_slice 5 7 s = Ok mo" "str_slice 8 10 s = Ok d"
      "str_slice 11 13 s = Ok h" "str_slice 14 16 s = Ok mi" "str_slice 17 19 s = Ok se"
proof -
  have s: "list_all (\<lambda>c. c < 128) s" using small by (simp add: s_def)
  show n: "length s = 20" by (simp add: s_def len)
  show "s ! 4 = 45" "s ! 7 = 45" "s ! 10 = 84" "s ! 13 = 58" "s ! 16 = 58" "s ! 19 = 90"
    by (simp_all add: s_def len nth_append)
  have cut: "str_slice a b s = Ok (take (b - a) (drop a s))" if "a \<le> b" "b \<le> 20" for a b
    using str_slice_ascii [OF s that(1)] that(2) n by simp
  show "str_slice 0 4 s = Ok y" "str_slice 5 7 s = Ok mo" "str_slice 8 10 s = Ok d"
      "str_slice 11 13 s = Ok h" "str_slice 14 16 s = Ok mi" "str_slice 17 19 s = Ok se"
    by (simp_all add: cut) (simp_all add: s_def len)
qed

lemma utc_from_str_to_string_short:
  assumes v: "valid_date_time dt" and y: "dt_year dt \<le> 9999"
  shows "utc_from_str (ascii (utc_to_string dt)) = Ok dt"
proof -
  note v' = v [unfolded valid_date_time_def]
  have d31: "dt_day_of_month dt \<le> 31" using v' by (auto simp: month_length_def split: if_splits)
  have Y: "0 \<le> dt_year dt" "dt_year dt < 10 ^ 4" "(0 :: nat) < 4" using v' y by simp_all
  note two = number_text [where n = 2]
  have "utc_new (dt_year dt) (dt_month dt) (dt_day_of_month dt) (dt_hour dt) (dt_minute dt)
      (dt_second dt) = Ok dt"
    by (rule utc_new_valid [OF v])
  moreover have t: "length (number_text 2 (f dt)) = 2" "list_all (\<lambda>c. c < 128) (number_text 2 (f dt))"
      "parse_uint 8 (number_text 2 (f dt)) = Some (f dt)" if "0 \<le> f dt" "f dt \<le> 60" for f
    using two [of "f dt"] two(3) [of "f dt" 8] that by simp_all
  note month = t [of dt_month] and day = t [of dt_day_of_month] and hour = t [of dt_hour]
    and minute = t [of dt_minute] and second = t [of dt_second]
  have small: "list_all (\<lambda>c. c < 128) (number_text 4 (dt_year dt) @ number_text 2 (dt_month dt) @
      number_text 2 (dt_day_of_month dt) @ number_text 2 (dt_hour dt) @ number_text 2 (dt_minute dt) @
      number_text 2 (dt_second dt))"
    using v' d31 number_text(2) [OF Y] by (simp add: t(2))
  note slices = six_slices [OF number_text(1) [OF Y] month(1) day(1) hour(1) minute(1) second(1) small,
      folded utc_text]
  ultimately show ?thesis using v' d31 number_text(3) [OF Y, of 32]
    by (simp add: utc_from_str_def slice_uint_def slices month(3) day(3) hour(3) minute(3) second(3))
qed

lemma utc_from_str_to_string_long:
  assumes "9999 < dt_year dt"
  shows "utc_from_str (ascii (utc_to_string dt)) = Error InvalidFormat"
proof -
  let ?y = "show_nat (nat (dt_year dt))"
  have "digits_val ?y < 10 ^ length ?y" "digits_val ?y = dt_year dt"
    using show_nat_digits [of "nat (dt_year dt)"] digits_val_bound [of ?y] assms by simp_all
  then have "(10 :: int) ^ 4 < 10 ^ length ?y" using assms by simp
  then have "4 < length ?y" by (rule power_less_imp_less_exp [rotated]) simp
  then have "4 < length (pad_zeros 4 ?y)" by (simp add: pad_zeros_def)
  moreover have pad: "2 \<le> length (pad_zeros 2 t)" for t by (simp add: pad_zeros_def)
  note pad [of "show_nat (nat (dt_month dt))"] pad [of "show_nat (nat (dt_day_of_month dt))"]
    pad [of "show_nat (nat (dt_hour dt))"] pad [of "show_nat (nat (dt_minute dt))"]
    pad [of "show_nat (nat (dt_second dt))"]
  ultimately have "20 < length (ascii (utc_to_string dt))"
    unfolding utc_to_string_def length_ascii length_append by (simp del: length_append)
  then show ?thesis by (simp add: utc_from_str_def)
qed

text \<open>Adding to a date is adding to its instant, or nothing when that leaves the supported range.\<close>

definition is_shift :: "utc_date_time \<Rightarrow> int \<Rightarrow> (date_time_error, utc_date_time option) res \<Rightarrow> bool" where
  "is_shift dt n res \<longleftrightarrow> (\<exists>r. res = Ok r \<and> (case r of
      None \<Rightarrow> \<not> (MIN_SUPPORTED_TIMESTAMP \<le> to_instant dt + n \<and> to_instant dt + n \<le> MAX_SUPPORTED_TIMESTAMP)
    | Some dt' \<Rightarrow> valid_date_time dt' \<and> to_instant dt' = to_instant dt + n))"

lemma utc_via_checked:
  assumes v: "valid_date_time dt" and "f = (\<lambda>i. Option.bind (i_checked_mul 64 k c) (i_checked_add 64 i))"
    and c: "0 < c" "c \<le> 86400"
  shows "is_shift dt (k * c) (utc_via f dt)"
proof -
  let ?i = "to_instant dt + k * c"
  have i: "MIN_SUPPORTED_TIMESTAMP \<le> to_instant dt" "to_instant dt \<le> MAX_SUPPORTED_TIMESTAMP"
    using second_number_range [OF v] to_instant_valid [OF v] by simp_all
  have f: "f (to_instant dt) = (if in_range 64 (k * c) \<and> in_range 64 ?i then Some ?i else None)"
    by (simp add: assms(2) i_checked_mul_def i_checked_add_def i_checked_def)
  show ?thesis
  proof (cases "MIN_SUPPORTED_TIMESTAMP \<le> ?i \<and> ?i \<le> MAX_SUPPORTED_TIMESTAMP")
    case True
    then have "in_range 64 (k * c)" "in_range 64 ?i"
      using i by (simp_all add: in_range_def i_min_def i_max_def MIN_SUPPORTED_TIMESTAMP_def MAX_SUPPORTED_TIMESTAMP_def)
    moreover obtain dt' where "from_instant ?i = Ok dt'" "valid_date_time dt'" "second_number dt' = ?i"
      using from_instant_date [of ?i] True by blast
    ultimately show ?thesis using f to_instant_valid [of dt'] by (simp add: utc_via_def is_shift_def)
  next
    case False
    then have "from_instant ?i = Error InstantIsOutOfRange" by (auto simp: from_instant_def)
    then show ?thesis using f False by (auto simp: utc_via_def is_shift_def)
  qed
qed

lemma i_checked_mul_one: "in_range 64 k \<Longrightarrow> Option.bind (i_checked_mul 64 k 1) (i_checked_add 64 i) = i_checked_add 64 i k"
  by (simp add: i_checked_mul_def i_checked_def)


section \<open>Properties\<close>

text \<open>
  C19. Every instant in the supported range has a date, that date is a valid calendar date and
  converts back to the instant (with no panic on the way); every other instant is refused.
\<close>

theorem from_instant_total:
  "if MIN_SUPPORTED_TIMESTAMP \<le> i \<and> i \<le> MAX_SUPPORTED_TIMESTAMP
   then \<exists>dt. from_instant i = Ok dt \<and> valid_date_time dt \<and> to_instant dt = i
   else from_instant i = Error InstantIsOutOfRange"
proof (cases "MIN_SUPPORTED_TIMESTAMP \<le> i \<and> i \<le> MAX_SUPPORTED_TIMESTAMP")
  case True
  then obtain dt where "from_instant i = Ok dt" "valid_date_time dt" "second_number dt = i"
    using from_instant_date by blast
  then show ?thesis using True to_instant_valid by auto
qed (auto simp: from_instant_def)

text \<open>
  Converting a valid date to an instant and back gives the date, for all years from 1 to
  4294967295, leap days and dates before 1970 included.
\<close>

theorem utc_instant_roundtrip:
  assumes "valid_date_time dt"
  shows "from_instant (to_instant dt) = Ok dt"
  using from_second_number [OF assms] to_instant_valid [OF assms] by simp

theorem utc_instant_roundtrip_witness:
  "let dt = \<lparr>dt_year = 2024, dt_month = 2, dt_day_of_month = 29, dt_hour = 23, dt_minute = 59, dt_second = 58\<rparr>
   in valid_date_time dt \<and> to_instant dt = 1709251198 \<and> from_instant 1709251198 = Ok dt"
proof -
  define dt where "dt = \<lparr>dt_year = 2024, dt_month = 2, dt_day_of_month = 29, dt_hour = 23,
    dt_minute = 59, dt_second = 58\<rparr>"
  have v: "valid_date_time dt" by (simp add: dt_def valid_date_time_def month_length_def is_leap_year_def)
  moreover have "to_instant dt = 1709251198" unfolding dt_def by code_simp
  ultimately show ?thesis using utc_instant_roundtrip [OF v] by (simp add: dt_def Let_def)
qed

text \<open>
  The derived order of dates (field by field, from the year down) is the order of their
  instants, across the two branches of the conversion.
\<close>

theorem utc_order_is_instant_order:
  assumes "valid_date_time a" "valid_date_time b"
  shows "utc_less a b \<longleftrightarrow> to_instant a < to_instant b"
  using utc_trichotomy [of a b] second_number_less [of a b] second_number_less [of b a] assms
  by (auto simp: to_instant_valid)

theorem utc_order_is_instant_order_witness:
  "to_instant \<lparr>dt_year = 1969, dt_month = 12, dt_day_of_month = 31, dt_hour = 23, dt_minute = 59, dt_second = 59\<rparr>
    < to_instant \<lparr>dt_year = 1970, dt_month = 1, dt_day_of_month = 1, dt_hour = 0, dt_minute = 0, dt_second = 0\<rparr>"
  using utc_order_is_instant_order
    [of "\<lparr>dt_year = 1969, dt_month = 12, dt_day_of_month = 31, dt_hour = 23, dt_minute = 59, dt_second = 59\<rparr>"
        "\<lparr>dt_year = 1970, dt_month = 1, dt_day_of_month = 1, dt_hour = 0, dt_minute = 0, dt_second = 0\<rparr>"]
  by (simp add: valid_date_time_def month_length_def utc_less_def utc_fields_def)

text \<open>
  Adding days, hours, minutes or seconds to a valid date returns the valid date that lies
  exactly that far away, and \<^verbatim>\<open>None\<close> exactly when it is outside the supported range; overflowing
  \<^verbatim>\<open>i64\<close> products and sums are among the latter, and nothing panics.
\<close>

theorem utc_add_exact:
  assumes "valid_date_time dt" "in_range 64 k"
  shows "is_shift dt (k * 86400) (utc_add_days k dt) \<and> is_shift dt (k * 3600) (utc_add_hours k dt) \<and>
    is_shift dt (k * 60) (utc_add_minutes k dt) \<and> is_shift dt (k * 1) (utc_add_seconds k dt)"
  unfolding utc_add_days_def utc_add_hours_def utc_add_minutes_def utc_add_seconds_def
  using assms
  by (intro conjI utc_via_checked)
     (simp_all add: fun_eq_iff instant_add_days_def instant_add_hours_def instant_add_minutes_def
       instant_add_seconds_def i_checked_mul_one)

theorem utc_add_exact_witness:
  "is_shift \<lparr>dt_year = 2023, dt_month = 2, dt_day_of_month = 28, dt_hour = 0, dt_minute = 0, dt_second = 0\<rparr> (2 * 86400)
     (utc_add_days 2 \<lparr>dt_year = 2023, dt_month = 2, dt_day_of_month = 28, dt_hour = 0, dt_minute = 0, dt_second = 0\<rparr>)"
  by (rule utc_add_exact [THEN conjunct1])
     (simp_all add: valid_date_time_def month_length_def in_range_def i_min_def i_max_def)

text \<open>
  C20. The printed form of a valid date parses back to the date for the years up to 9999; a later
  year prints with more digits than \<^verbatim>\<open>from_str\<close> accepts and is refused.
\<close>

theorem utc_text_roundtrip:
  assumes "valid_date_time dt"
  shows "utc_from_str (ascii (utc_to_string dt)) = (if dt_year dt \<le> 9999 then Ok dt else Error InvalidFormat)"
  using utc_from_str_to_string_short [OF assms] utc_from_str_to_string_long [of dt] by simp

theorem utc_text_roundtrip_witness:
  "utc_from_str (ascii ''2023-01-27T12:17:25Z'') =
     Ok \<lparr>dt_year = 2023, dt_month = 1, dt_day_of_month = 27, dt_hour = 12, dt_minute = 17, dt_second = 25\<rparr>"
proof -
  let ?dt = "\<lparr>dt_year = 2023, dt_month = 1, dt_day_of_month = 27, dt_hour = 12, dt_minute = 17, dt_second = 25\<rparr>"
  have "utc_to_string ?dt = ''2023-01-27T12:17:25Z''" by code_simp
  then show ?thesis using utc_text_roundtrip [of ?dt] by (simp add: valid_date_time_def month_length_def)
qed

text \<open>
  C21. \<^verbatim>\<open>from_str\<close> checks the length and the separators by character position and then slices by
  byte position: a text of the right shape whose first three characters are ASCII and whose fourth
  is not makes it panic instead of returning \<^verbatim>\<open>InvalidFormat\<close>, because the fourth byte is then not
  the end of a character.
\<close>

theorem utc_from_str_panics_on_non_ascii:
  assumes "length s = 20" "s ! 4 = 45" "s ! 7 = 45" "s ! 10 = 84" "s ! 13 = 58" "s ! 16 = 58" "s ! 19 = 90"
    and "s ! 0 < 128" "s ! 1 < 128" "s ! 2 < 128" "128 \<le> s ! 3"
  shows "utc_from_str s = Panics"
proof -
  have "length s = Suc (Suc (Suc (Suc 16)))" using assms(1) by simp
  then obtain a b c d t where s: "s = a # b # c # d # t" by (auto simp only: length_Suc_conv)
  have "byte_split 4 s = None" using assms(8-) by (simp add: s utf8_len_def)
  then show ?thesis using assms by (simp add: utc_from_str_def slice_uint_def str_slice_def)
qed

theorem utc_from_str_panics_on_non_ascii_witness:
  "utc_from_str ([50, 48, 50, 233] @ ascii ''-01-27T12:17:25Z'') = Panics"
  using utc_from_str_panics_on_non_ascii [of "[50, 48, 50, 233] @ ascii ''-01-27T12:17:25Z''"]
  by (simp add: ascii_def)

end
