(* ===== verification/Consensus_Clock.thy ===== *)
theory Consensus_Clock
  imports Date_Time
begin

text \<open>
  The clock of the consensus manager (\<^verbatim>\<open>consensus_manager.rs\<close>): the proposer timestamps in
  milliseconds (\<^verbatim>\<open>i64\<close>) and in minutes (\<^verbatim>\<open>i32\<close>), their update at every round, and the two
  queries that blueprints make of it. Rust's integer division truncates towards zero.
\<close>

definition MILLIS_IN_SECOND :: int where "MILLIS_IN_SECOND = 1000"

definition SECONDS_IN_MINUTE :: int where "SECONDS_IN_MINUTE = 60"

definition MILLIS_IN_MINUTE :: int where "MILLIS_IN_MINUTE = MILLIS_IN_SECOND * SECONDS_IN_MINUTE"

datatype time_precision = PrecisionMinute | PrecisionSecond

record clock =
  epoch_milli :: int
  epoch_minute :: int

datatype clock_error =
    InvalidProposerTimestampUpdate int int
  | InvalidConsensusTime int

definition epoch_minute_to_instant :: "int \<Rightarrow> instant" where
  "epoch_minute_to_instant m = m * SECONDS_IN_MINUTE"

definition epoch_milli_to_instant :: "int \<Rightarrow> instant" where
  "epoch_milli_to_instant ms = ms sdiv MILLIS_IN_SECOND"

definition milli_to_minute :: "int \<Rightarrow> int option" where
  "milli_to_minute ms = i_checked 32 (ms sdiv MILLIS_IN_MINUTE)"

definition initial_clock :: "int \<Rightarrow> (clock_error, clock) res" where
  "initial_clock ms =
     rbind (ok_or (milli_to_minute ms) (InvalidConsensusTime ms)) (\<lambda>m.
     Ok \<lparr>epoch_milli = ms, epoch_minute = m\<rparr>)"

definition get_current_time :: "time_precision \<Rightarrow> clock \<Rightarrow> instant" where
  "get_current_time precision c =
     (case precision of
        PrecisionMinute \<Rightarrow> epoch_minute_to_instant (epoch_minute c)
      | PrecisionSecond \<Rightarrow> epoch_milli_to_instant (epoch_milli c))"

text \<open>The minute of an instant of any size: instants outside the range of the clock are clamped.\<close>

definition instant_epoch_minute :: "instant \<Rightarrow> int" where
  "instant_epoch_minute t =
     (case Option.bind (i_checked_mul 64 t MILLIS_IN_SECOND) milli_to_minute of
        Some m \<Rightarrow> m
      | None \<Rightarrow> if t < 0 then i_min 32 else i_max 32)"

definition compare_current_time ::
    "instant \<Rightarrow> time_precision \<Rightarrow> time_comparison_operator \<Rightarrow> clock \<Rightarrow> bool" where
  "compare_current_time other precision operator c =
     (case precision of
        PrecisionMinute \<Rightarrow>
          instant_compare (epoch_minute_to_instant (epoch_minute c))
            (epoch_minute_to_instant (instant_epoch_minute other)) operator
      | PrecisionSecond \<Rightarrow>
          instant_compare (epoch_milli_to_instant (epoch_milli c)) other operator)"

definition check_non_decreasing_and_update_timestamps :: "int \<Rightarrow> clock \<Rightarrow> (clock_error, clock) res" where
  "check_non_decreasing_and_update_timestamps current_time_ms c =
     rbind (ensure (\<not> current_time_ms < epoch_milli c)
              (InvalidProposerTimestampUpdate (epoch_milli c) current_time_ms)) (\<lambda>_.
     let c1 = (if current_time_ms > epoch_milli c then c\<lparr>epoch_milli := current_time_ms\<rparr> else c) in
     rbind (ok_or (milli_to_minute current_time_ms) (InvalidConsensusTime current_time_ms)) (\<lambda>new_rounded_value.
     Ok (if new_rounded_value > epoch_minute c1 then c1\<lparr>epoch_minute := new_rounded_value\<rparr> else c1)))"


section \<open>Laws of the clock\<close>

lemmas clock_consts = MILLIS_IN_SECOND_def SECONDS_IN_MINUTE_def MILLIS_IN_MINUTE_def

lemma sdiv_cases: "0 < (d :: int) \<Longrightarrow> x sdiv d = (if 0 \<le> x then x div d else - (- x div d))"
  by (auto simp: signed_divide_int_def sgn_if)

lemma sdiv_mono: "0 < (d :: int) \<Longrightarrow> x \<le> y \<Longrightarrow> x sdiv d \<le> y sdiv d"
proof -
  assume d: "0 < d" and le: "x \<le> y"
  have neg: "z < 0 \<Longrightarrow> 0 \<le> - z div d" for z using d by (simp add: pos_imp_zdiv_nonneg_iff)
  have pos: "0 \<le> z \<Longrightarrow> 0 \<le> z div d" for z using d by (simp add: pos_imp_zdiv_nonneg_iff)
  show ?thesis
    using d le neg [of x] pos [of y] zdiv_mono1 [of x y d] zdiv_mono1 [of "- y" "- x" d]
    by (auto simp: sdiv_cases)
qed

text \<open>The clock shows one time: the minute is the millisecond timestamp in whole minutes.\<close>

definition clock_ok :: "clock \<Rightarrow> bool" where
  "clock_ok c \<longleftrightarrow> milli_to_minute (epoch_milli c) = Some (epoch_minute c)"

lemma initial_clock_ok: "initial_clock ms = Ok c \<Longrightarrow> clock_ok c"
  by (auto simp: initial_clock_def clock_ok_def res_iffs)

lemma minute_mono: "milli_to_minute a = Some m \<Longrightarrow> milli_to_minute b = Some n \<Longrightarrow> a \<le> b \<Longrightarrow> m \<le> n"
  by (auto simp: milli_to_minute_def i_checked_def clock_consts sdiv_mono split: if_splits)

lemma clock_update:
  assumes "check_non_decreasing_and_update_timestamps t c = Ok c'" "clock_ok c"
  shows "clock_ok c' \<and> epoch_milli c' = t \<and> epoch_milli c \<le> epoch_milli c' \<and> epoch_minute c \<le> epoch_minute c'"
proof -
  from assms(1) obtain m where m: "milli_to_minute t = Some m" "epoch_milli c \<le> t"
    and c': "c' = \<lparr>epoch_milli = t, epoch_minute = (if m > epoch_minute c then m else epoch_minute c)\<rparr>"
    by (cases c) (auto simp: check_non_decreasing_and_update_timestamps_def res_iffs Let_def split: if_splits)
  have "epoch_minute c \<le> m" using m assms(2) minute_mono by (auto simp: clock_ok_def)
  then show ?thesis using m c' by (auto simp: clock_ok_def)
qed

text \<open>The comparison against the clock in minutes, for an instant on a whole minute.\<close>

lemma instant_epoch_minute_whole: "instant_epoch_minute (60 * m) = max (i_min 32) (min m (i_max 32))"
proof -
  have "(60 * m * 1000) sdiv 60000 = m"
    using nonzero_mult_div_cancel_left [of "60000" m] nonzero_mult_div_cancel_left [of "60000" "- m"]
    by (simp add: sdiv_cases)
  moreover have "i_checked_mul 64 (60 * m) 1000 = None \<Longrightarrow> m < i_min 32 \<or> i_max 32 < m"
    by (auto simp: i_checked_mul_def i_checked_def in_range_def i_min_def i_max_def split: if_splits)
  ultimately show ?thesis
    by (cases "i_checked_mul 64 (60 * m) 1000")
       (auto simp: instant_epoch_minute_def clock_consts milli_to_minute_def i_checked_def i_checked_mul_def
         in_range_def i_min_def i_max_def split: if_splits)
qed

lemma whole_minute_elapsed:
  "compare_current_time (60 * m) PrecisionMinute TGte c \<longleftrightarrow> max (i_min 32) (min m (i_max 32)) \<le> epoch_minute c"
  by (simp add: compare_current_time_def instant_epoch_minute_whole epoch_minute_to_instant_def SECONDS_IN_MINUTE_def)

end
