(* ===== verification/Resource.thy ===== *)
theory Resource
  imports Fixed_Point
begin

text \<open>
  The resource containers of \<^verbatim>\<open>blueprints/resource/resource.rs\<close>: liquid and locked amounts of
  fungibles, liquid sets of non-fungible ids, and the checks on amounts of
  \<^verbatim>\<open>blueprints/resource/mod.rs\<close>. A container that can lock amounts for proofs keeps the liquid
  amount and the locks apart: only the largest locked amount is taken out of the liquid one.
  The locale \<open>lockable\<close> states what locking promises; vaults and buckets interpret it.
\<close>


section \<open>Liquid fungible resources\<close>

type_synonym non_fungible_id = string

datatype resource_error =
    ResInsufficientBalance decimal decimal
  | InvalidTakeAmount
  | MissingNonFungibleLocalId non_fungible_id
  | ResDecimalOverflow

type_synonym liquid_fungible = decimal

definition liquid_put :: "liquid_fungible \<Rightarrow> liquid_fungible \<Rightarrow> ('e, liquid_fungible) res" where
  "liquid_put other amount = expect (dec_checked_add amount other)"

text \<open>Taking returns what was taken and what is left.\<close>

definition liquid_take_by_amount ::
    "decimal \<Rightarrow> liquid_fungible \<Rightarrow> (resource_error, liquid_fungible \<times> liquid_fungible) res" where
  "liquid_take_by_amount amount_to_take amount =
     (if amount < amount_to_take then Error (ResInsufficientBalance amount_to_take amount)
      else rbind (ok_or (dec_checked_sub amount amount_to_take) ResDecimalOverflow)
        (\<lambda>left. Ok (amount_to_take, left)))"

definition liquid_take_all :: "liquid_fungible \<Rightarrow> ('e, liquid_fungible \<times> liquid_fungible) res" where
  "liquid_take_all amount =
     (case liquid_take_by_amount amount amount of Inl _ \<Rightarrow> Panics | Inr r \<Rightarrow> Ok r)"


section \<open>Liquid non-fungible resources\<close>

text \<open>An \<^verbatim>\<open>IndexSet\<close> is a list without repetitions; \<^verbatim>\<open>swap_remove\<close> tells whether it removed.\<close>

fun is_swap_remove :: "'a \<Rightarrow> 'a list \<Rightarrow> ('a list) option" where
  "is_swap_remove x [] = None"
| "is_swap_remove x (y # ys) =
     (if x = y then Some (if ys = [] then [] else last ys # butlast ys)
      else map_option (Cons y) (is_swap_remove x ys))"

definition is_insert :: "'a \<Rightarrow> 'a list \<Rightarrow> 'a list" where
  "is_insert x xs = (if x \<in> set xs then xs else xs @ [x])"

definition nf_put :: "non_fungible_id list \<Rightarrow> non_fungible_id list \<Rightarrow> non_fungible_id list" where
  "nf_put other ids = fold is_insert other ids"

text \<open>The loop of \<^verbatim>\<open>take_by_ids\<close> removes one id after the other and stops at a missing one.\<close>

primrec nf_remove_all ::
    "non_fungible_id list \<Rightarrow> non_fungible_id list \<Rightarrow> (resource_error, non_fungible_id list) res" where
  "nf_remove_all [] ids = Ok ids"
| "nf_remove_all (x # xs) ids =
     (case is_swap_remove x ids of
        None \<Rightarrow> Error (MissingNonFungibleLocalId x)
      | Some ids' \<Rightarrow> nf_remove_all xs ids')"

definition nf_take_by_ids ::
    "non_fungible_id list \<Rightarrow> non_fungible_id list \<Rightarrow>
     (resource_error, non_fungible_id list \<times> non_fungible_id list) res" where
  "nf_take_by_ids ids_to_take ids =
     rbind (nf_remove_all ids_to_take ids) (\<lambda>left. Ok (ids_to_take, left))"

definition nf_take_by_amount ::
    "32 word \<Rightarrow> non_fungible_id list \<Rightarrow>
     (resource_error, non_fungible_id list \<times> non_fungible_id list) res" where
  "nf_take_by_amount n ids =
     (if length ids < unat n
      then Error (ResInsufficientBalance (dec_from_int (uint n)) (dec_from_int (int (length ids))))
      else nf_take_by_ids (take (unat n) ids) ids)"

definition nf_take_all :: "non_fungible_id list \<Rightarrow> non_fungible_id list \<times> non_fungible_id list" where
  "nf_take_all ids = (ids, [])"


section \<open>Locked resources\<close>

text \<open>
  The locked amounts with the number of times each is locked. The counter is a \<^verbatim>\<open>usize\<close> that
  grows by one for every live proof, far from its bound.
\<close>

type_synonym locked_fungible = "(decimal \<times> nat) list"

definition is_locked :: "locked_fungible \<Rightarrow> bool" where
  "is_locked amounts \<longleftrightarrow> amounts \<noteq> []"

definition locked_amount :: "locked_fungible \<Rightarrow> decimal" where
  "locked_amount amounts = foldl (\<lambda>mx (amount, _). if amount > mx then amount else mx) 0 amounts"


section \<open>Amount checks\<close>

datatype withdraw_strategy = Exact | Rounded rounding_mode

definition check_fungible_amount :: "decimal \<Rightarrow> nat \<Rightarrow> bool" where
  "check_fungible_amount amount divisibility \<longleftrightarrow>
     \<not> amount < 0 \<and> amount mod (10 ^ (18 - divisibility)) = 0"

definition check_non_fungible_amount :: "decimal \<Rightarrow> (unit, 32 word) res" where
  "check_non_fungible_amount amount =
     rbind (map_err (\<lambda>_. ()) (dec_to_u32 amount)) (\<lambda>n. Ok (word_of_int n))"

fun for_withdrawal :: "decimal \<Rightarrow> nat \<Rightarrow> withdraw_strategy \<Rightarrow> (unit, decimal) res" where
  "for_withdrawal amount divisibility Exact = Ok amount"
| "for_withdrawal amount divisibility (Rounded mode) = dec_checked_round amount (int divisibility) mode"

section \<open>Lemmas\<close>

lemma liquid_take_iff:
  "liquid_take_by_amount a x = Inr (taken, left) \<longleftrightarrow>
     a \<le> x \<and> is_decimal (x - a) \<and> taken = a \<and> left = x - a"
  by (auto simp: liquid_take_by_amount_def res_iffs dec_iffs)

lemma liquid_put_iff: "liquid_put y x = Inr z \<longleftrightarrow> z = x + y \<and> is_decimal (x + y)"
  by (auto simp: liquid_put_def expect_eq_Inr_iff dec_iffs)

lemma liquid_take_no_panic [simp]: "liquid_take_by_amount a x \<noteq> Panics"
  by (auto simp: liquid_take_by_amount_def rbind_eq_Inl_iff ok_or_def split: option.splits)

lemma locked_amount_Max: "locked_amount m = Max (insert 0 (fst ` set m))"
proof -
  have "foldl (\<lambda>mx (amount, _). if amount > mx then amount else mx) d m = Max (insert d (fst ` set m))"
    for d :: int
  proof (induction m arbitrary: d)
    case (Cons p m)
    have "Max (insert (max d (fst p)) (fst ` set m)) = Max (insert d (insert (fst p) (fst ` set m)))"
      by (cases "set m = {}") (auto simp: max.assoc)
    then show ?case using Cons by (cases p) (auto simp: max_def not_less split: if_splits)
  qed simp
  then show ?thesis by (simp add: locked_amount_def)
qed

lemma locked_amount_Nil [simp]: "locked_amount [] = 0"
  by (simp add: locked_amount_def)

lemma locked_amount_nonneg [simp]: "0 \<le> locked_amount m"
  by (simp add: locked_amount_Max)

lemma locked_amount_insert: "locked_amount (im_insert a n m) = max a (locked_amount m)"
proof -
  have "insert 0 (fst ` set (im_insert a n m)) = insert a (insert 0 (fst ` set m))" by auto
  then show ?thesis by (simp add: locked_amount_Max)
qed

lemma locked_amount_swap_remove:
  assumes "im_wf m" and "im_get m a = Some n"
  shows "max a (locked_amount (im_swap_remove a m)) = max a (locked_amount m)"
    and "locked_amount (im_swap_remove a m) \<le> locked_amount m"
proof -
  have keys: "fst ` set (im_swap_remove a m) = fst ` set m - {a}"
    using assms(1) by (auto simp: set_im_swap_remove)
  then have "insert a (insert 0 (fst ` set (im_swap_remove a m))) = insert a (insert 0 (fst ` set m))"
    by auto
  then have "Max (insert a (insert 0 (fst ` set (im_swap_remove a m)))) = Max (insert a (insert 0 (fst ` set m)))"
    by (rule arg_cong)
  then show "max a (locked_amount (im_swap_remove a m)) = max a (locked_amount m)"
    by (simp add: locked_amount_Max)
  show "locked_amount (im_swap_remove a m) \<le> locked_amount m"
    unfolding locked_amount_Max keys by (intro Max_mono) auto
qed


section \<open>The locking contract\<close>

text \<open>Well-formed locks: amounts not negative, each locked at least once.\<close>

definition locks_ok :: "locked_fungible \<Rightarrow> bool" where
  "locks_ok m \<longleftrightarrow> im_wf m \<and> (\<forall>(a, n) \<in> set m. 0 \<le> a \<and> 0 < n)"

definition locks_add :: "decimal \<Rightarrow> locked_fungible \<Rightarrow> locked_fungible" where
  "locks_add a m = im_insert a (im_get_or 0 m a + 1) m"

definition locks_remove :: "decimal \<Rightarrow> locked_fungible \<Rightarrow> locked_fungible option" where
  "locks_remove a m =
     map_option (\<lambda>cnt. if cnt > 1 then im_insert a (cnt - 1) (im_swap_remove a m) else im_swap_remove a m)
       (im_get m a)"

lemma im_insert_mem: "p \<in> set (im_insert k v m) \<Longrightarrow> p = (k, v) \<or> p \<in> set m"
  by (induction k v m rule: im_insert.induct) (auto split: if_splits)

lemma locks_ok_insert: "locks_ok m \<Longrightarrow> 0 \<le> a \<Longrightarrow> 0 < n \<Longrightarrow> locks_ok (im_insert a n m)"
  unfolding locks_ok_def by (auto dest!: im_insert_mem)

lemma locks_ok_add: "locks_ok m \<Longrightarrow> 0 \<le> a \<Longrightarrow> locks_ok (locks_add a m)"
  unfolding locks_add_def by (rule locks_ok_insert) simp_all

lemma locks_ok_remove:
  assumes "locks_ok m" and "locks_remove a m = Some m'"
  shows "locks_ok m'"
proof -
  have sr: "locks_ok (im_swap_remove a m)"
    using assms(1) by (auto simp: locks_ok_def set_im_swap_remove)
  obtain cnt where cnt: "im_get m a = Some cnt"
    and m': "m' = (if cnt > 1 then im_insert a (cnt - 1) (im_swap_remove a m) else im_swap_remove a m)"
    using assms(2) by (auto simp: locks_remove_def)
  have "0 \<le> a" using assms(1) cnt by (auto simp: locks_ok_def dest!: map_of_SomeD)
  then show ?thesis using sr by (auto simp: m' intro: locks_ok_insert)
qed

lemma im_get_locks_add: "im_get_or 0 (locks_add a m) b = im_get_or 0 m b + (if a = b then 1 else 0)"
  by (simp add: locks_add_def im_get_or_def)

lemma im_get_locks_remove:
  assumes "locks_ok m" and "locks_remove a m = Some m'"
  shows "im_get_or 0 m b = im_get_or 0 m' b + (if a = b then 1 else 0)"
proof -
  obtain cnt where cnt: "im_get m a = Some cnt" "0 < cnt"
    and m': "m' = (if cnt > 1 then im_insert a (cnt - 1) (im_swap_remove a m) else im_swap_remove a m)"
    using assms by (auto simp: locks_remove_def locks_ok_def dest: map_of_SomeD)
  have "im_wf m" using assms(1) by (simp add: locks_ok_def)
  with cnt show ?thesis by (auto simp: m' im_get_or_def im_get_swap_remove)
qed

lemma locked_amount_remove:
  assumes "locks_ok m" and "locks_remove a m = Some m'"
  shows "max a (locked_amount m') = max a (locked_amount m)" and "locked_amount m' \<le> locked_amount m"
proof -
  obtain cnt where cnt: "im_get m a = Some cnt"
    and m': "m' = (if cnt > 1 then im_insert a (cnt - 1) (im_swap_remove a m) else im_swap_remove a m)"
    using assms(2) by (auto simp: locks_remove_def)
  have wf: "im_wf m" using assms(1) by (simp add: locks_ok_def)
  have "a \<le> locked_amount m"
    using cnt by (auto simp: locked_amount_Max dest!: map_of_SomeD intro!: Max_ge image_eqI)
  then show "max a (locked_amount m') = max a (locked_amount m)" and "locked_amount m' \<le> locked_amount m"
    using locked_amount_swap_remove [OF wf cnt] by (auto simp: m' locked_amount_insert)
qed

lemma locks_remove_keys:
  assumes "locks_ok m" and "locks_remove a m = Some m'"
  shows "fst ` set m' \<subseteq> fst ` set m"
  using assms by (auto simp: locks_ok_def locks_remove_def set_im_swap_remove dest!: im_insert_mem
      map_of_SomeD split: if_splits intro: rev_image_eqI)

lemma locked_amount_dvd: "\<forall>p \<in> set m. u dvd fst p \<Longrightarrow> u dvd locked_amount m"
proof -
  assume keys: "\<forall>p \<in> set m. u dvd fst p"
  have "locked_amount m \<in> insert 0 (fst ` set m)"
    unfolding locked_amount_Max by (rule Max_in) auto
  then show ?thesis using keys by auto
qed

lemma locks_keys:
  assumes "locks_ok m"
  shows "fst ` set m = {a. 0 < im_get_or 0 m a}"
proof (intro set_eqI iffI)
  fix a assume "a \<in> fst ` set m"
  then obtain n where "im_get m a = Some n"
    using map_of_eq_None_iff [of m a] by blast
  then show "a \<in> {a. 0 < im_get_or 0 m a}"
    using assms by (auto simp: locks_ok_def im_get_or_def dest: map_of_SomeD)
next
  fix a assume "a \<in> {a. 0 < im_get_or 0 m a}"
  then show "a \<in> fst ` set m"
    using map_of_eq_None_iff [of m a] by (auto simp: im_get_or_def split: option.splits)
qed

text \<open>
  What a container promises about locking: locking an amount takes only what exceeds the largest
  lock out of the liquid amount and counts the lock; unlocking removes one lock and returns
  what is no longer covered by any.
\<close>

locale lockable =
  fixes lock :: "decimal \<Rightarrow> 'c \<Rightarrow> ('e, 'c) res"
    and unlock :: "decimal \<Rightarrow> 'c \<Rightarrow> ('e, 'c) res"
    and liquid :: "'c \<Rightarrow> decimal"
    and locks :: "'c \<Rightarrow> locked_fungible"
  assumes lock_Ok: "lock a c = Ok c' \<Longrightarrow>
      locks c' = locks_add a (locks c) \<and>
      liquid c' = liquid c - max 0 (a - locked_amount (locks c)) \<and>
      max 0 (a - locked_amount (locks c)) \<le> max 0 (liquid c)"
    and lock_no_panic: "lock a c \<noteq> Panics"
    and unlock_Ok: "unlock a c = Ok c' \<Longrightarrow>
      locks_remove a (locks c) = Some (locks c') \<and>
      liquid c' = liquid c + (locked_amount (locks c) - locked_amount (locks c'))"
    and unlock_succeeds: "locks_remove a (locks c) = Some m' \<Longrightarrow>
      0 \<le> liquid c \<Longrightarrow> locked_amount m' \<le> locked_amount (locks c) \<Longrightarrow>
      liquid c + locked_amount (locks c) \<le> dec_max \<Longrightarrow> \<exists>c'. unlock a c = Ok c'"
begin

definition total :: "'c \<Rightarrow> int" where
  "total c = liquid c + locked_amount (locks c)"

definition container_ok :: "'c \<Rightarrow> bool" where
  "container_ok c \<longleftrightarrow> 0 \<le> liquid c \<and> locks_ok (locks c)"

text \<open>Divisibility: every amount is a multiple of the resource's smallest unit \<open>u\<close>.\<close>

definition divisible :: "int \<Rightarrow> 'c \<Rightarrow> bool" where
  "divisible u c \<longleftrightarrow> u dvd liquid c \<and> (\<forall>p \<in> set (locks c). u dvd fst p)"

lemma lock_divisible: "lock a c = Ok c' \<Longrightarrow> divisible u c \<Longrightarrow> u dvd a \<Longrightarrow> divisible u c'"
  using lock_Ok [of a c c'] locked_amount_dvd [of "locks c" u]
  by (auto simp: divisible_def locks_add_def max_def dest!: im_insert_mem)

lemma unlock_divisible: "unlock a c = Ok c' \<Longrightarrow> divisible u c \<Longrightarrow> container_ok c \<Longrightarrow> divisible u c'"
proof -
  assume u: "unlock a c = Ok c'" and div: "divisible u c" and ok: "container_ok c"
  have "fst ` set (locks c') \<subseteq> fst ` set (locks c)"
    using unlock_Ok [OF u] ok locks_remove_keys [of "locks c" a "locks c'"]
    by (simp add: container_ok_def)
  then have keys: "\<forall>p \<in> set (locks c'). u dvd fst p"
    using div by (force simp: divisible_def)
  then show ?thesis
    using unlock_Ok [OF u] div locked_amount_dvd [OF keys] locked_amount_dvd [of "locks c" u]
    by (simp add: divisible_def)
qed

lemma lock_total: "lock a c = Ok c' \<Longrightarrow> total c' = total c"
  using lock_Ok [of a c c'] by (auto simp: total_def locks_add_def locked_amount_insert)

lemma lock_container_ok: "lock a c = Ok c' \<Longrightarrow> container_ok c \<Longrightarrow> 0 \<le> a \<Longrightarrow> container_ok c'"
  using lock_Ok [of a c c'] by (auto simp: container_ok_def locks_ok_add)

lemma lock_covered: "lock a c = Ok c' \<Longrightarrow> container_ok c \<Longrightarrow> a \<le> total c"
  using lock_Ok [of a c c'] by (auto simp: container_ok_def total_def)

lemma unlock_total: "unlock a c = Ok c' \<Longrightarrow> total c' = total c"
  using unlock_Ok [of a c c'] by (auto simp: total_def)

lemma unlock_container_ok: "unlock a c = Ok c' \<Longrightarrow> container_ok c \<Longrightarrow> container_ok c'"
  using unlock_Ok [of a c c'] locked_amount_remove(2) [of "locks c" a "locks c'"]
  by (auto simp: container_ok_def intro: locks_ok_remove)

lemma unlock_locked:
  assumes "container_ok c" and "total c \<le> dec_max" and "0 < im_get_or 0 (locks c) a"
  shows "\<exists>c'. unlock a c = Ok c'"
proof -
  obtain m' where m': "locks_remove a (locks c) = Some m'"
    using assms(3) by (auto simp: im_get_or_def locks_remove_def split: option.splits)
  then show ?thesis
    using unlock_succeeds [OF m'] assms locked_amount_remove(2) [OF _ m']
    by (auto simp: container_ok_def total_def)
qed

text \<open>Locking and unlocking the same amount gives the container back, up to the order of its locks.\<close>

lemma lock_unlock:
  assumes "container_ok c" and "total c \<le> dec_max" and "0 \<le> a" and "lock a c = Ok c'"
  shows "\<exists>c''. unlock a c' = Ok c'' \<and> liquid c'' = liquid c \<and>
    (\<forall>b. im_get_or 0 (locks c'') b = im_get_or 0 (locks c) b)"
proof -
  have ok: "container_ok c'" and tot: "total c' = total c"
    using lock_container_ok lock_total assms by blast+
  have l: "locks c' = locks_add a (locks c)" using lock_Ok [OF assms(4)] by simp
  obtain c'' where u: "unlock a c' = Ok c''"
    using unlock_locked [OF ok, of a] assms(2) tot by (auto simp: l im_get_locks_add)
  have r: "locks_remove a (locks c') = Some (locks c'')" using unlock_Ok [OF u] by simp
  have eq: "im_get_or 0 (locks c'') b = im_get_or 0 (locks c) b" for b
    using im_get_locks_remove [OF _ r, of b] ok im_get_locks_add [of a "locks c" b]
    by (simp add: container_ok_def l)
  have ok'': "locks_ok (locks c'')" "locks_ok (locks c)"
    using unlock_container_ok [OF u ok] assms(1) by (simp_all add: container_ok_def)
  then have "fst ` set (locks c'') = fst ` set (locks c)"
    by (simp add: locks_keys eq)
  then have "locked_amount (locks c'') = locked_amount (locks c)" by (simp add: locked_amount_Max)
  then have "liquid c'' = liquid c"
    using unlock_total [OF u] tot by (simp add: total_def)
  then show ?thesis using u eq by blast
qed

end

end
