(* ===== verification/Fungible.thy ===== *)
theory Fungible
  imports Resource
begin

text \<open>
  A fungible resource: its manager, vaults, buckets and proofs, with every operation of the
  four blueprints (\<^verbatim>\<open>fungible_resource_manager.rs\<close>, \<^verbatim>\<open>fungible_vault.rs\<close>, \<^verbatim>\<open>fungible_bucket.rs\<close>,
  \<^verbatim>\<open>fungible_proof.rs\<close>). The objects of one resource live in a \<open>world\<close>; an operation that fails
  aborts the transaction and its updates are discarded, so an operation returns the new world
  only on success. Node ids are numbers handed out by the kernel's allocator and never reused.
\<close>


section \<open>Data\<close>

type_synonym node = nat

datatype local_ref = BucketRef node | VaultRef node

datatype proof_error = EmptyProofNotAllowed

datatype vault_error =
    VaultResourceError resource_error
  | VaultProofError proof_error
  | VaultInvalidAmount decimal
  | NotFreezable
  | NotRecallable
  | VaultIsFrozen
  | LockFeeNotRadixToken
  | LockFeeInsufficientBalance decimal decimal
  | VaultDecimalOverflow

datatype bucket_error =
    BucketResourceError resource_error
  | BucketProofError proof_error
  | BucketLocked node
  | BucketInvalidAmount decimal
  | BucketDecimalOverflow

datatype manager_error =
    InvalidAmount decimal nat
  | MaxMintAmountExceeded
  | InvalidDivisibility nat
  | DropNonEmptyBucket
  | NotMintable
  | NotBurnable
  | UnexpectedDecimalComputationError

datatype runtime_error =
    VaultErr vault_error
  | BucketErr bucket_error
  | ManagerErr manager_error
  | PanicMessage string
  | NodeNotFound node
  | CannotLockFeeInChildSubintent nat

record fungible_vault =
  vault_balance :: liquid_fungible
  vault_locked :: locked_fungible
  vault_frozen :: "32 word"

record fungible_bucket =
  bucket_liquid :: liquid_fungible
  bucket_locked :: locked_fungible

record fungible_proof =
  proof_restricted :: bool
  proof_total_locked :: decimal
  proof_evidence :: "(local_ref \<times> decimal) list"

record resource_manager =
  rm_divisibility :: nat
  rm_total_supply :: decimal
  rm_track_total_supply :: bool
  rm_vault_freeze :: bool
  rm_vault_recall :: bool
  rm_mint :: bool
  rm_burn :: bool
  rm_is_xrd :: bool

datatype resource_event =
    WithdrawEvent node decimal
  | DepositEvent node decimal
  | RecallEvent node decimal
  | LockFeeEvent node decimal
  | MintFungibleResourceEvent decimal
  | BurnFungibleResourceEvent decimal
  | VaultCreationEvent node

record world =
  manager :: resource_manager
  vaults :: "(node \<times> fungible_vault) list"
  buckets :: "(node \<times> fungible_bucket) list"
  proofs :: "(node \<times> fungible_proof) list"
  next_node :: node
  events :: "resource_event list"
  fee_locks :: "(node \<times> decimal \<times> bool) list"
  costing_enabled :: bool
  stack_id :: nat

type_synonym 'a act = "(world, runtime_error, 'a) action"

definition emit_event :: "resource_event \<Rightarrow> unit act" where
  "emit_event e = amodify (\<lambda>w. w\<lparr>events := events w @ [e]\<rparr>)"


section \<open>Vault state\<close>

definition vault_internal_take ::
    "decimal \<Rightarrow> fungible_vault \<Rightarrow> (runtime_error, liquid_fungible \<times> fungible_vault) res" where
  "vault_internal_take amount v =
     rbind (map_err (\<lambda>e. VaultErr (VaultResourceError e)) (liquid_take_by_amount amount (vault_balance v)))
       (\<lambda>(taken, left). Ok (taken, v\<lparr>vault_balance := left\<rparr>))"

definition vault_internal_put ::
    "liquid_fungible \<Rightarrow> fungible_vault \<Rightarrow> (runtime_error, fungible_vault) res" where
  "vault_internal_put resource v =
     (if resource = 0 then Ok v
      else rbind (liquid_put resource (vault_balance v)) (\<lambda>b. Ok (v\<lparr>vault_balance := b\<rparr>)))"

definition vault_lock_amount :: "decimal \<Rightarrow> fungible_vault \<Rightarrow> (runtime_error, fungible_vault) res" where
  "vault_lock_amount amount v =
     (let max_locked = locked_amount (vault_locked v) in
      rbind (if amount > max_locked
             then rbind (ok_or (dec_checked_sub amount max_locked) (VaultErr VaultDecimalOverflow))
               (\<lambda>delta. rbind (vault_internal_take delta v) (\<lambda>(_, v'). Ok v'))
             else Ok v)
        (\<lambda>v'. Ok (v'\<lparr>vault_locked := locks_add amount (vault_locked v)\<rparr>)))"

definition vault_unlock_amount :: "decimal \<Rightarrow> fungible_vault \<Rightarrow> (runtime_error, fungible_vault) res" where
  "vault_unlock_amount amount v =
     (let max_locked = locked_amount (vault_locked v) in
      rbind (expect (locks_remove amount (vault_locked v))) (\<lambda>locked.
      rbind (ok_or (dec_checked_sub max_locked (locked_amount locked)) (VaultErr VaultDecimalOverflow))
        (\<lambda>delta. vault_internal_put delta (v\<lparr>vault_locked := locked\<rparr>))))"

definition vault_get_amount :: "fungible_vault \<Rightarrow> (runtime_error, decimal) res" where
  "vault_get_amount v =
     ok_or (dec_checked_add (vault_balance v) (locked_amount (vault_locked v)))
       (VaultErr VaultDecimalOverflow)"

text \<open>Freeze flags: bit 0 withdraw, bit 1 deposit, bit 2 burn.\<close>

abbreviation WITHDRAW :: "32 word" where "WITHDRAW \<equiv> 1"
abbreviation DEPOSIT :: "32 word" where "DEPOSIT \<equiv> 2"
abbreviation BURN :: "32 word" where "BURN \<equiv> 4"

definition vault_assert_not_frozen ::
    "32 word \<Rightarrow> resource_manager \<Rightarrow> fungible_vault \<Rightarrow> (runtime_error, unit) res" where
  "vault_assert_not_frozen flags m v =
     (if \<not> rm_vault_freeze m then Ok ()
      else if and (vault_frozen v) flags \<noteq> 0 then Error (VaultErr VaultIsFrozen)
      else Ok ())"

definition vault_assert_freezable :: "resource_manager \<Rightarrow> (runtime_error, unit) res" where
  "vault_assert_freezable m = ensure (rm_vault_freeze m) (VaultErr NotFreezable)"

definition vault_assert_recallable :: "resource_manager \<Rightarrow> (runtime_error, unit) res" where
  "vault_assert_recallable m = ensure (rm_vault_recall m) (VaultErr NotRecallable)"


section \<open>Bucket state\<close>

definition bucket_internal_take ::
    "decimal \<Rightarrow> fungible_bucket \<Rightarrow> (runtime_error, liquid_fungible \<times> fungible_bucket) res" where
  "bucket_internal_take amount b =
     rbind (map_err (\<lambda>e. BucketErr (BucketResourceError e)) (liquid_take_by_amount amount (bucket_liquid b)))
       (\<lambda>(taken, left). Ok (taken, b\<lparr>bucket_liquid := left\<rparr>))"

definition bucket_internal_put ::
    "liquid_fungible \<Rightarrow> fungible_bucket \<Rightarrow> (runtime_error, fungible_bucket) res" where
  "bucket_internal_put resource b =
     (if resource = 0 then Ok b
      else rbind (liquid_put resource (bucket_liquid b)) (\<lambda>l. Ok (b\<lparr>bucket_liquid := l\<rparr>)))"

definition bucket_lock_amount :: "decimal \<Rightarrow> fungible_bucket \<Rightarrow> (runtime_error, fungible_bucket) res" where
  "bucket_lock_amount amount b =
     (let max_locked = locked_amount (bucket_locked b) in
      rbind (if amount > max_locked
             then rbind (ok_or (dec_checked_sub amount max_locked) (BucketErr BucketDecimalOverflow))
               (\<lambda>delta. rbind (bucket_internal_take delta b) (\<lambda>(_, b'). Ok b'))
             else Ok b)
        (\<lambda>b'. Ok (b'\<lparr>bucket_locked := locks_add amount (bucket_locked b)\<rparr>)))"

definition bucket_unlock_amount :: "decimal \<Rightarrow> fungible_bucket \<Rightarrow> (runtime_error, fungible_bucket) res" where
  "bucket_unlock_amount amount b =
     (let max_locked = locked_amount (bucket_locked b) in
      rbind (expect (locks_remove amount (bucket_locked b))) (\<lambda>locked.
      rbind (ok_or (dec_checked_sub max_locked (locked_amount locked)) (BucketErr BucketDecimalOverflow))
        (\<lambda>delta. bucket_internal_put delta (b\<lparr>bucket_locked := locked\<rparr>))))"

definition bucket_get_amount :: "fungible_bucket \<Rightarrow> (runtime_error, decimal) res" where
  "bucket_get_amount b =
     ok_or (dec_checked_add (bucket_liquid b) (locked_amount (bucket_locked b)))
       (BucketErr BucketDecimalOverflow)"


section \<open>Objects of the world\<close>

definition get_vault :: "node \<Rightarrow> fungible_vault act" where
  "get_vault n = aread (\<lambda>w. ok_or (im_get (vaults w) n) (NodeNotFound n))"

definition set_vault :: "node \<Rightarrow> fungible_vault \<Rightarrow> unit act" where
  "set_vault n v = amodify (\<lambda>w. w\<lparr>vaults := im_insert n v (vaults w)\<rparr>)"

definition get_bucket :: "node \<Rightarrow> fungible_bucket act" where
  "get_bucket n = aread (\<lambda>w. ok_or (im_get (buckets w) n) (NodeNotFound n))"

definition set_bucket :: "node \<Rightarrow> fungible_bucket \<Rightarrow> unit act" where
  "set_bucket n b = amodify (\<lambda>w. w\<lparr>buckets := im_insert n b (buckets w)\<rparr>)"

definition get_proof :: "node \<Rightarrow> fungible_proof act" where
  "get_proof n = aread (\<lambda>w. ok_or (im_get (proofs w) n) (NodeNotFound n))"

definition get_manager :: "resource_manager act" where
  "get_manager = aread (\<lambda>w. Ok (manager w))"

text \<open>Read an object, run a method on its state, write it back.\<close>

definition on_vault :: "node \<Rightarrow> (fungible_vault \<Rightarrow> (runtime_error, fungible_vault) res) \<Rightarrow> unit act" where
  "on_vault n f = abind (get_vault n) (\<lambda>v. abind (aread (\<lambda>_. f v)) (set_vault n))"

definition on_bucket :: "node \<Rightarrow> (fungible_bucket \<Rightarrow> (runtime_error, fungible_bucket) res) \<Rightarrow> unit act" where
  "on_bucket n f = abind (get_bucket n) (\<lambda>b. abind (aread (\<lambda>_. f b)) (set_bucket n))"

definition take_from_vault :: "node \<Rightarrow> decimal \<Rightarrow> liquid_fungible act" where
  "take_from_vault n amount =
     abind (get_vault n) (\<lambda>v.
     abind (aread (\<lambda>_. vault_internal_take amount v)) (\<lambda>(taken, v').
     abind (set_vault n v') (\<lambda>_. areturn taken)))"

definition take_from_bucket :: "node \<Rightarrow> decimal \<Rightarrow> liquid_fungible act" where
  "take_from_bucket n amount =
     abind (get_bucket n) (\<lambda>b.
     abind (aread (\<lambda>_. bucket_internal_take amount b)) (\<lambda>(taken, b').
     abind (set_bucket n b') (\<lambda>_. areturn taken)))"

definition create_bucket :: "decimal \<Rightarrow> node act" where
  "create_bucket amount w =
     Ok (next_node w, w\<lparr>
       buckets := im_insert (next_node w) \<lparr>bucket_liquid = amount, bucket_locked = []\<rparr> (buckets w),
       next_node := next_node w + 1\<rparr>)"

definition drop_fungible_bucket :: "node \<Rightarrow> fungible_bucket act" where
  "drop_fungible_bucket n =
     abind (get_bucket n) (\<lambda>b.
     abind (amodify (\<lambda>w. w\<lparr>buckets := im_swap_remove n (buckets w)\<rparr>)) (\<lambda>_.
     aread (\<lambda>_. if is_locked (bucket_locked b) then Error (BucketErr (BucketLocked n)) else Ok b)))"

definition new_proof :: "fungible_proof \<Rightarrow> node act" where
  "new_proof p w =
     Ok (next_node w, w\<lparr>proofs := im_insert (next_node w) p (proofs w), next_node := next_node w + 1\<rparr>)"

definition proof_substate_new ::
    "decimal \<Rightarrow> (local_ref \<times> decimal) list \<Rightarrow> (proof_error, fungible_proof) res" where
  "proof_substate_new total_locked evidence =
     (if total_locked = 0 then Error EmptyProofNotAllowed
      else Ok \<lparr>proof_restricted = False, proof_total_locked = total_locked, proof_evidence = evidence\<rparr>)"

section \<open>Manager operations\<close>

definition MAX_MINT_AMOUNT :: decimal where
  "MAX_MINT_AMOUNT = 2 ^ 152"

definition verify_divisibility :: "nat \<Rightarrow> (runtime_error, unit) res" where
  "verify_divisibility divisibility =
     (if divisibility > 18 then Error (ManagerErr (InvalidDivisibility divisibility)) else Ok ())"

definition check_mint_amount :: "nat \<Rightarrow> decimal \<Rightarrow> (runtime_error, unit) res" where
  "check_mint_amount divisibility amount =
     (if \<not> check_fungible_amount amount divisibility
      then Error (ManagerErr (InvalidAmount amount divisibility))
      else if amount > MAX_MINT_AMOUNT then Error (ManagerErr MaxMintAmountExceeded)
      else Ok ())"

definition assert_mintable :: "resource_manager \<Rightarrow> (runtime_error, unit) res" where
  "assert_mintable m = ensure (rm_mint m) (ManagerErr NotMintable)"

definition assert_burnable :: "resource_manager \<Rightarrow> (runtime_error, unit) res" where
  "assert_burnable m = ensure (rm_burn m) (ManagerErr NotBurnable)"

definition set_total_supply :: "decimal option \<Rightarrow> unit act" where
  "set_total_supply new =
     abind (aread (\<lambda>_. ok_or new (ManagerErr UnexpectedDecimalComputationError))) (\<lambda>s.
     amodify (\<lambda>w. w\<lparr>manager := (manager w)\<lparr>rm_total_supply := s\<rparr>\<rparr>))"

definition mint :: "decimal \<Rightarrow> node act" where
  "mint amount =
     abind get_manager (\<lambda>m.
     abind (aread (\<lambda>_. assert_mintable m)) (\<lambda>_.
     abind (aread (\<lambda>_. check_mint_amount (rm_divisibility m) amount)) (\<lambda>_.
     abind (create_bucket amount) (\<lambda>bucket.
     abind (emit_event (MintFungibleResourceEvent amount)) (\<lambda>_.
     abind (if rm_track_total_supply m then set_total_supply (dec_checked_add (rm_total_supply m) amount)
            else areturn ()) (\<lambda>_.
     areturn bucket))))))"

definition burn_internal :: "node \<Rightarrow> unit act" where
  "burn_internal bucket =
     abind get_manager (\<lambda>m.
     abind (aread (\<lambda>_. assert_burnable m)) (\<lambda>_.
     abind (drop_fungible_bucket bucket) (\<lambda>other_bucket.
     abind (emit_event (BurnFungibleResourceEvent (bucket_liquid other_bucket))) (\<lambda>_.
     if rm_track_total_supply m
     then set_total_supply (dec_checked_sub (rm_total_supply m) (bucket_liquid other_bucket))
     else areturn ()))))"

definition drop_empty_bucket :: "node \<Rightarrow> unit act" where
  "drop_empty_bucket bucket =
     abind (drop_fungible_bucket bucket) (\<lambda>other_bucket.
     aread (\<lambda>_. if bucket_liquid other_bucket = 0 then Ok () else Error (ManagerErr DropNonEmptyBucket)))"

definition create_empty_bucket :: "node act" where
  "create_empty_bucket = create_bucket 0"

definition create_empty_vault :: "node act" where
  "create_empty_vault =
     abind (\<lambda>w. Ok (next_node w, w\<lparr>
         vaults := im_insert (next_node w) \<lparr>vault_balance = 0, vault_locked = [], vault_frozen = 0\<rparr> (vaults w),
         next_node := next_node w + 1\<rparr>)) (\<lambda>vault_id.
     abind (emit_event (VaultCreationEvent vault_id)) (\<lambda>_.
     areturn vault_id))"

definition get_total_supply :: "decimal option act" where
  "get_total_supply =
     abind get_manager (\<lambda>m. areturn (if rm_track_total_supply m then Some (rm_total_supply m) else None))"

definition amount_for_withdrawal :: "decimal \<Rightarrow> withdraw_strategy \<Rightarrow> decimal act" where
  "amount_for_withdrawal amount strategy =
     abind get_manager (\<lambda>m.
     aread (\<lambda>_. map_err (\<lambda>_. ManagerErr UnexpectedDecimalComputationError)
       (for_withdrawal amount (rm_divisibility m) strategy)))"

text \<open>Creating a resource: without supply, or with an initial supply in a bucket.\<close>

definition new_resource :: "resource_manager \<Rightarrow> bool \<Rightarrow> nat \<Rightarrow> (runtime_error, world) res" where
  "new_resource m costing stack =
     rbind (verify_divisibility (rm_divisibility m)) (\<lambda>_.
     Ok \<lparr>manager = m\<lparr>rm_total_supply := 0\<rparr>, vaults = [], buckets = [], proofs = [], next_node = 0,
         events = [], fee_locks = [], costing_enabled = costing, stack_id = stack\<rparr>)"

definition create_with_initial_supply ::
    "resource_manager \<Rightarrow> bool \<Rightarrow> nat \<Rightarrow> decimal \<Rightarrow> (runtime_error, node \<times> world) res" where
  "create_with_initial_supply m costing stack initial_supply =
     rbind (new_resource m costing stack) (\<lambda>w.
     rbind (check_mint_amount (rm_divisibility m) initial_supply) (\<lambda>_.
     abind (create_bucket initial_supply) (\<lambda>bucket.
     abind (emit_event (MintFungibleResourceEvent initial_supply)) (\<lambda>_. areturn bucket))
       (w\<lparr>manager := m\<lparr>rm_total_supply := initial_supply\<rparr>\<rparr>)))"


section \<open>Vault operations\<close>

definition vault_take_advanced :: "node \<Rightarrow> decimal \<Rightarrow> withdraw_strategy \<Rightarrow> node act" where
  "vault_take_advanced n amount strategy =
     abind get_manager (\<lambda>m.
     abind (get_vault n) (\<lambda>v.
     abind (aread (\<lambda>_. vault_assert_not_frozen WITHDRAW m v)) (\<lambda>_.
     abind (aread (\<lambda>_. map_err (\<lambda>_. VaultErr VaultDecimalOverflow)
              (for_withdrawal amount (rm_divisibility m) strategy))) (\<lambda>amount.
     abind (aread (\<lambda>_. ensure (check_fungible_amount amount (rm_divisibility m))
              (VaultErr (VaultInvalidAmount amount)))) (\<lambda>_.
     abind (take_from_vault n amount) (\<lambda>taken.
     abind (create_bucket taken) (\<lambda>bucket.
     abind (emit_event (WithdrawEvent n taken)) (\<lambda>_.
     areturn bucket))))))))"

definition vault_take :: "node \<Rightarrow> decimal \<Rightarrow> node act" where
  "vault_take n amount = vault_take_advanced n amount Exact"

definition vault_put :: "node \<Rightarrow> node \<Rightarrow> unit act" where
  "vault_put n bucket =
     abind get_manager (\<lambda>m.
     abind (get_vault n) (\<lambda>v.
     abind (aread (\<lambda>_. vault_assert_not_frozen DEPOSIT m v)) (\<lambda>_.
     abind (drop_fungible_bucket bucket) (\<lambda>other_bucket.
     abind (on_vault n (vault_internal_put (bucket_liquid other_bucket))) (\<lambda>_.
     emit_event (DepositEvent n (bucket_liquid other_bucket)))))))"

text \<open>
  The system call that opens fee locking: only the root intent may lock non-contingent fees.
  What it charges for itself is the fee reserve's business; it says whether costing is on.
\<close>

definition start_lock_fee :: "node \<Rightarrow> decimal \<Rightarrow> bool \<Rightarrow> bool act" where
  "start_lock_fee n amount contingent =
     abind (aread (\<lambda>w. if \<not> contingent \<and> stack_id w \<noteq> 0
        then Error (CannotLockFeeInChildSubintent (stack_id w)) else Ok ())) (\<lambda>_.
     abind (aread (\<lambda>w. Ok (costing_enabled w))) (\<lambda>enabled.
     abind (if enabled then areturn () else emit_event (LockFeeEvent n amount)) (\<lambda>_.
     areturn enabled)))"

definition system_lock_fee :: "node \<Rightarrow> liquid_fungible \<Rightarrow> bool \<Rightarrow> unit act" where
  "system_lock_fee n fee contingent =
     abind (amodify (\<lambda>w. w\<lparr>fee_locks := fee_locks w @ [(n, fee, contingent)]\<rparr>)) (\<lambda>_.
     emit_event (LockFeeEvent n fee))"

definition lock_fee_error :: "resource_error \<Rightarrow> runtime_error" where
  "lock_fee_error e = VaultErr (case e of
       ResInsufficientBalance requested actual \<Rightarrow> LockFeeInsufficientBalance requested actual
     | _ \<Rightarrow> VaultResourceError e)"

definition take_fee :: "node \<Rightarrow> decimal \<Rightarrow> liquid_fungible act" where
  "take_fee n amount =
     abind (get_vault n) (\<lambda>v.
     abind (aread (\<lambda>_. map_err lock_fee_error (liquid_take_by_amount amount (vault_balance v)))) (\<lambda>(fee, left).
     abind (set_vault n (v\<lparr>vault_balance := left\<rparr>)) (\<lambda>_. areturn fee)))"

definition vault_lock_fee :: "node \<Rightarrow> decimal \<Rightarrow> bool \<Rightarrow> unit act" where
  "vault_lock_fee n amount contingent =
     abind get_manager (\<lambda>m.
     abind (get_vault n) (\<lambda>v.
     abind (aread (\<lambda>_. vault_assert_not_frozen WITHDRAW m v)) (\<lambda>_.
     abind (aread (\<lambda>_. ensure (rm_is_xrd m) (VaultErr LockFeeNotRadixToken))) (\<lambda>_.
     abind (aread (\<lambda>_. ensure (check_fungible_amount amount (rm_divisibility m))
              (VaultErr (VaultInvalidAmount amount)))) (\<lambda>_.
     abind (start_lock_fee n amount contingent) (\<lambda>enabled.
     if \<not> enabled then areturn ()
     else abind (take_fee n amount) (\<lambda>fee. system_lock_fee n fee contingent)))))))"

definition vault_recall :: "node \<Rightarrow> decimal \<Rightarrow> node act" where
  "vault_recall n amount =
     abind get_manager (\<lambda>m.
     abind (aread (\<lambda>_. vault_assert_recallable m)) (\<lambda>_.
     abind (aread (\<lambda>_. ensure (check_fungible_amount amount (rm_divisibility m))
              (VaultErr (VaultInvalidAmount amount)))) (\<lambda>_.
     abind (take_from_vault n amount) (\<lambda>taken.
     abind (create_bucket taken) (\<lambda>bucket.
     abind (emit_event (RecallEvent n amount)) (\<lambda>_.
     areturn bucket))))))"

definition vault_freeze :: "node \<Rightarrow> 32 word \<Rightarrow> unit act" where
  "vault_freeze n to_freeze =
     abind get_manager (\<lambda>m.
     abind (aread (\<lambda>_. vault_assert_freezable m)) (\<lambda>_.
     on_vault n (\<lambda>v. Ok (v\<lparr>vault_frozen := or (vault_frozen v) to_freeze\<rparr>))))"

definition vault_unfreeze :: "node \<Rightarrow> 32 word \<Rightarrow> unit act" where
  "vault_unfreeze n to_unfreeze =
     abind get_manager (\<lambda>m.
     abind (aread (\<lambda>_. vault_assert_freezable m)) (\<lambda>_.
     on_vault n (\<lambda>v. Ok (v\<lparr>vault_frozen := and (vault_frozen v) (not to_unfreeze)\<rparr>))))"

definition vault_create_proof_of_amount :: "node \<Rightarrow> decimal \<Rightarrow> node act" where
  "vault_create_proof_of_amount n amount =
     abind get_manager (\<lambda>m.
     abind (aread (\<lambda>_. ensure (check_fungible_amount amount (rm_divisibility m))
              (VaultErr (VaultInvalidAmount amount)))) (\<lambda>_.
     abind (on_vault n (vault_lock_amount amount)) (\<lambda>_.
     abind (aread (\<lambda>_. map_err (\<lambda>e. VaultErr (VaultProofError e))
              (proof_substate_new amount [(VaultRef n, amount)]))) (\<lambda>p.
     new_proof p))))"

definition vault_burn :: "node \<Rightarrow> decimal \<Rightarrow> unit act" where
  "vault_burn n amount =
     abind get_manager (\<lambda>m.
     abind (get_vault n) (\<lambda>v.
     abind (aread (\<lambda>_. vault_assert_not_frozen BURN m v)) (\<lambda>_.
     abind (vault_take n amount) (\<lambda>bucket.
     burn_internal bucket))))"


section \<open>Bucket operations\<close>

definition bucket_take_advanced :: "node \<Rightarrow> decimal \<Rightarrow> withdraw_strategy \<Rightarrow> node act" where
  "bucket_take_advanced n amount strategy =
     abind get_manager (\<lambda>m.
     abind (aread (\<lambda>_. map_err (\<lambda>_. BucketErr BucketDecimalOverflow)
              (for_withdrawal amount (rm_divisibility m) strategy))) (\<lambda>amount.
     abind (aread (\<lambda>_. ensure (check_fungible_amount amount (rm_divisibility m))
              (BucketErr (BucketInvalidAmount amount)))) (\<lambda>_.
     abind (take_from_bucket n amount) (\<lambda>taken.
     create_bucket taken))))"

definition bucket_take :: "node \<Rightarrow> decimal \<Rightarrow> node act" where
  "bucket_take n amount = bucket_take_advanced n amount Exact"

definition bucket_put :: "node \<Rightarrow> node \<Rightarrow> unit act" where
  "bucket_put n bucket =
     abind (drop_fungible_bucket bucket) (\<lambda>other_bucket.
     on_bucket n (\<lambda>b. rbind (liquid_put (bucket_liquid other_bucket) (bucket_liquid b))
       (\<lambda>l. Ok (b\<lparr>bucket_liquid := l\<rparr>))))"

definition bucket_create_proof_of_amount :: "node \<Rightarrow> decimal \<Rightarrow> node act" where
  "bucket_create_proof_of_amount n amount =
     abind get_manager (\<lambda>m.
     abind (aread (\<lambda>_. ensure (check_fungible_amount amount (rm_divisibility m))
              (BucketErr (BucketInvalidAmount amount)))) (\<lambda>_.
     abind (on_bucket n (bucket_lock_amount amount)) (\<lambda>_.
     abind (aread (\<lambda>_. map_err (\<lambda>e. BucketErr (BucketProofError e))
              (proof_substate_new amount [(BucketRef n, amount)]))) (\<lambda>p.
     new_proof p))))"

definition bucket_create_proof_of_all :: "node \<Rightarrow> node act" where
  "bucket_create_proof_of_all n =
     abind (get_bucket n) (\<lambda>b.
     abind (aread (\<lambda>_. bucket_get_amount b)) (\<lambda>amount.
     bucket_create_proof_of_amount n amount))"


section \<open>Proof operations\<close>

fun lock_container :: "local_ref \<times> decimal \<Rightarrow> unit act" where
  "lock_container (BucketRef n, amount) = on_bucket n (bucket_lock_amount amount)"
| "lock_container (VaultRef n, amount) = on_vault n (vault_lock_amount amount)"

fun unlock_container :: "local_ref \<times> decimal \<Rightarrow> unit act" where
  "unlock_container (BucketRef n, amount) = on_bucket n (bucket_unlock_amount amount)"
| "unlock_container (VaultRef n, amount) = on_vault n (vault_unlock_amount amount)"

definition proof_clone :: "node \<Rightarrow> node act" where
  "proof_clone n =
     abind (get_proof n) (\<lambda>p.
     abind (aforeach lock_container (proof_evidence p)) (\<lambda>_.
     new_proof p))"

text \<open>Dropping a proof runs its \<^verbatim>\<open>on_drop\<close> hook, which releases the locks.\<close>

definition proof_drop :: "node \<Rightarrow> unit act" where
  "proof_drop n =
     abind (get_proof n) (\<lambda>p.
     abind (amodify (\<lambda>w. w\<lparr>proofs := im_swap_remove n (proofs w)\<rparr>)) (\<lambda>_.
     aforeach unlock_container (proof_evidence p)))"

definition proof_on_move :: "node \<Rightarrow> bool \<Rightarrow> bool \<Rightarrow> bool \<Rightarrow> bool \<Rightarrow> unit act" where
  "proof_on_move n is_moving_down is_to_barrier is_to_self is_to_auth_zone =
     (if is_moving_down \<and> \<not> is_to_self \<and> (is_to_barrier \<or> is_to_auth_zone)
      then abind (get_proof n) (\<lambda>p.
        abind (aread (\<lambda>_. if proof_restricted p
            then Error (PanicMessage ''Moving restricted proof downstream'') else Ok ())) (\<lambda>_.
        amodify (\<lambda>w. w\<lparr>proofs := im_insert n
            (if is_to_barrier then p\<lparr>proof_restricted := True\<rparr> else p) (proofs w)\<rparr>)))
      else areturn ())"

end
