(* ===== verification/Fungible_Ledger.thy ===== *)
theory Fungible_Ledger
  imports Fungible
begin

text \<open>
  What the four fungible blueprints guarantee together. The ledger invariant says that everything
  in existence is in a vault, a bucket or locked as a fee, adds up to the tracked total supply,
  and that the locks of every container are exactly the evidence of the live proofs. Inside
  an operation an amount may be in transit (\<open>d\<close>) and locks may not be backed by a proof yet
  or any more (\<open>E\<close>); the rules for the primitive actions say how each moves them.
\<close>


section \<open>Vaults and buckets are lockable\<close>

lemma take_sub_iff:
  "vault_internal_take a v = Inr (t, v') \<longleftrightarrow>
     a \<le> vault_balance v \<and> is_decimal (vault_balance v - a) \<and> t = a \<and>
     v' = v\<lparr>vault_balance := vault_balance v - a\<rparr>"
  "bucket_internal_take a b = Inr (t, b') \<longleftrightarrow>
     a \<le> bucket_liquid b \<and> is_decimal (bucket_liquid b - a) \<and> t = a \<and>
     b' = b\<lparr>bucket_liquid := bucket_liquid b - a\<rparr>"
  by (auto simp: vault_internal_take_def bucket_internal_take_def res_iffs liquid_take_iff)

lemma put_add_iff:
  "vault_internal_put a v = Inr v' \<longleftrightarrow>
     v' = v\<lparr>vault_balance := vault_balance v + a\<rparr> \<and> (a = 0 \<or> is_decimal (vault_balance v + a))"
  "bucket_internal_put a b = Inr b' \<longleftrightarrow>
     b' = b\<lparr>bucket_liquid := bucket_liquid b + a\<rparr> \<and> (a = 0 \<or> is_decimal (bucket_liquid b + a))"
  by (auto simp: vault_internal_put_def bucket_internal_put_def res_iffs liquid_put_iff)

lemma internal_take_no_panic [simp]:
  "vault_internal_take a v \<noteq> Panics" "bucket_internal_take a b \<noteq> Panics"
  by (auto simp: vault_internal_take_def bucket_internal_take_def rbind_eq_Inl_iff map_err_def
      split: sum.splits fail.splits prod.splits)

lemma ok_or_not_panic [simp]: "ok_or x e \<noteq> Panics"
  by (cases x) simp_all

lemma is_decimal_between: "0 \<le> x \<Longrightarrow> x \<le> dec_max \<Longrightarrow> is_decimal x"
  by (simp add: range_simps dec_max_def)

interpretation vault: lockable vault_lock_amount vault_unlock_amount vault_balance vault_locked
proof
  fix a v v'
  show "vault_lock_amount a v \<noteq> Panics"
    by (auto simp: vault_lock_amount_def Let_def rbind_eq_Inl_iff split: if_splits)
  show "vault_locked v' = locks_add a (vault_locked v) \<and>
      vault_balance v' = vault_balance v - max 0 (a - locked_amount (vault_locked v)) \<and>
      max 0 (a - locked_amount (vault_locked v)) \<le> max 0 (vault_balance v)"
    if "vault_lock_amount a v = Ok v'"
    using that by (auto simp: vault_lock_amount_def Let_def res_iffs take_sub_iff dec_iffs split: if_splits)
  show "locks_remove a (vault_locked v) = Some (vault_locked v') \<and>
      vault_balance v' = vault_balance v + (locked_amount (vault_locked v) - locked_amount (vault_locked v'))"
    if "vault_unlock_amount a v = Ok v'"
    using that by (auto simp: vault_unlock_amount_def Let_def res_iffs put_add_iff dec_iffs)
  show "\<exists>v'. vault_unlock_amount a v = Ok v'"
    if "locks_remove a (vault_locked v) = Some m'" "0 \<le> vault_balance v"
      "locked_amount m' \<le> locked_amount (vault_locked v)"
      "vault_balance v + locked_amount (vault_locked v) \<le> dec_max" for m'
  proof -
    have "is_decimal (locked_amount (vault_locked v) - locked_amount m')"
      "is_decimal (vault_balance v + (locked_amount (vault_locked v) - locked_amount m'))"
      using that locked_amount_nonneg [of m'] by (intro is_decimal_between; linarith)+
    then show ?thesis using that(1)
      by (auto simp: vault_unlock_amount_def Let_def res_iffs put_add_iff dec_iffs)
  qed
qed

interpretation bucket: lockable bucket_lock_amount bucket_unlock_amount bucket_liquid bucket_locked
proof
  fix a b b'
  show "bucket_lock_amount a b \<noteq> Panics"
    by (auto simp: bucket_lock_amount_def Let_def rbind_eq_Inl_iff split: if_splits)
  show "bucket_locked b' = locks_add a (bucket_locked b) \<and>
      bucket_liquid b' = bucket_liquid b - max 0 (a - locked_amount (bucket_locked b)) \<and>
      max 0 (a - locked_amount (bucket_locked b)) \<le> max 0 (bucket_liquid b)"
    if "bucket_lock_amount a b = Ok b'"
    using that by (auto simp: bucket_lock_amount_def Let_def res_iffs take_sub_iff dec_iffs split: if_splits)
  show "locks_remove a (bucket_locked b) = Some (bucket_locked b') \<and>
      bucket_liquid b' = bucket_liquid b + (locked_amount (bucket_locked b) - locked_amount (bucket_locked b'))"
    if "bucket_unlock_amount a b = Ok b'"
    using that by (auto simp: bucket_unlock_amount_def Let_def res_iffs put_add_iff dec_iffs)
  show "\<exists>b'. bucket_unlock_amount a b = Ok b'"
    if "locks_remove a (bucket_locked b) = Some m'" "0 \<le> bucket_liquid b"
      "locked_amount m' \<le> locked_amount (bucket_locked b)"
      "bucket_liquid b + locked_amount (bucket_locked b) \<le> dec_max" for m'
  proof -
    have "is_decimal (locked_amount (bucket_locked b) - locked_amount m')"
      "is_decimal (bucket_liquid b + (locked_amount (bucket_locked b) - locked_amount m'))"
      using that locked_amount_nonneg [of m'] by (intro is_decimal_between; linarith)+
    then show ?thesis using that(1)
      by (auto simp: bucket_unlock_amount_def Let_def res_iffs put_add_iff dec_iffs)
  qed
qed

section \<open>The ledger invariant\<close>

definition atom_unit :: "resource_manager \<Rightarrow> int" where
  "atom_unit m = 10 ^ (18 - rm_divisibility m)"

definition holdings :: "world \<Rightarrow> int" where
  "holdings w =
     sum_list (map (\<lambda>p. vault.total (snd p)) (vaults w)) +
     sum_list (map (\<lambda>p. bucket.total (snd p)) (buckets w)) +
     sum_list (map (\<lambda>f. fst (snd f)) (fee_locks w))"

fun container_locks :: "world \<Rightarrow> local_ref \<Rightarrow> locked_fungible" where
  "container_locks w (VaultRef n) = (case im_get (vaults w) n of None \<Rightarrow> [] | Some v \<Rightarrow> vault_locked v)"
| "container_locks w (BucketRef n) = (case im_get (buckets w) n of None \<Rightarrow> [] | Some b \<Rightarrow> bucket_locked b)"

definition lock_count :: "world \<Rightarrow> local_ref \<Rightarrow> decimal \<Rightarrow> int" where
  "lock_count w c a = int (im_get_or 0 (container_locks w c) a)"

definition evidence_count :: "world \<Rightarrow> local_ref \<Rightarrow> decimal \<Rightarrow> int" where
  "evidence_count w c a =
     sum_list (map (\<lambda>p. int (count_list (proof_evidence (snd p)) (c, a))) (proofs w))"

definition objects_ok :: "world \<Rightarrow> bool" where
  "objects_ok w \<longleftrightarrow>
     im_wf (vaults w) \<and> im_wf (buckets w) \<and> im_wf (proofs w) \<and>
     (\<forall>p \<in> set (vaults w). fst p < next_node w \<and>
        vault.container_ok (snd p) \<and> vault.divisible (atom_unit (manager w)) (snd p)) \<and>
     (\<forall>p \<in> set (buckets w). fst p < next_node w \<and>
        bucket.container_ok (snd p) \<and> bucket.divisible (atom_unit (manager w)) (snd p)) \<and>
     (\<forall>p \<in> set (proofs w). fst p < next_node w) \<and>
     (\<forall>f \<in> set (fee_locks w). 0 \<le> fst (snd f))"

definition supply_ok :: "int \<Rightarrow> world \<Rightarrow> bool" where
  "supply_ok d w \<longleftrightarrow>
     (rm_track_total_supply (manager w) \<longrightarrow>
        rm_total_supply (manager w) = holdings w + d \<and> rm_total_supply (manager w) \<le> dec_max)"

definition locks_backed :: "(local_ref \<times> decimal) list \<Rightarrow> world \<Rightarrow> bool" where
  "locks_backed E w \<longleftrightarrow> (\<forall>c a. lock_count w c a = evidence_count w c a + int (count_list E (c, a)))"

definition ledger :: "int \<Rightarrow> (local_ref \<times> decimal) list \<Rightarrow> world \<Rightarrow> bool" where
  "ledger d E w \<longleftrightarrow> objects_ok w \<and> supply_ok d w \<and> locks_backed E w \<and> rm_divisibility (manager w) \<le> 18"

text \<open>Everything in existence, in transit or not, fits a Decimal.\<close>

definition live :: "int \<Rightarrow> (local_ref \<times> decimal) list \<Rightarrow> resource_manager \<Rightarrow> world \<Rightarrow> bool" where
  "live d E m w \<longleftrightarrow> ledger d E w \<and> holdings w + d \<le> dec_max \<and> manager w = m"

lemmas ledger_defs = ledger_def objects_ok_def supply_ok_def locks_backed_def

lemma get_vault_ok:
  assumes "ledger d E w" and "im_get (vaults w) n = Some v"
  shows "vault.container_ok v" "vault.divisible (atom_unit (manager w)) v" "n < next_node w"
  using assms by (auto simp: ledger_def objects_ok_def dest!: map_of_SomeD)

lemma get_bucket_ok:
  assumes "ledger d E w" and "im_get (buckets w) n = Some b"
  shows "bucket.container_ok b" "bucket.divisible (atom_unit (manager w)) b" "n < next_node w"
  using assms by (auto simp: ledger_def objects_ok_def dest!: map_of_SomeD)

lemma fresh_node:
  assumes "ledger d E w"
  shows "im_get (vaults w) (next_node w) = None" "im_get (buckets w) (next_node w) = None"
    "im_get (proofs w) (next_node w) = None"
  using assms by (auto simp: ledger_def objects_ok_def map_of_eq_None_iff)

lemma totals_nonneg:
  assumes "ledger d E w"
  shows "\<forall>p \<in> set (vaults w). 0 \<le> vault.total (snd p)"
    "\<forall>p \<in> set (buckets w). 0 \<le> bucket.total (snd p)"
    "\<forall>f \<in> set (fee_locks w). 0 \<le> fst (snd f)"
  using assms by (auto simp: ledger_def objects_ok_def vault.container_ok_def bucket.container_ok_def
      vault.total_def bucket.total_def)

lemma sum_list_member_le:
  fixes f :: "'a \<Rightarrow> int"
  assumes "x \<in> set xs" and "\<forall>y \<in> set xs. 0 \<le> f y"
  shows "f x \<le> sum_list (map f xs)"
  using assms
proof (induction xs)
  case (Cons y ys)
  moreover have "0 \<le> sum_list (map f ys)" using Cons.prems(2) by (auto intro!: sum_list_nonneg)
  ultimately show ?case by fastforce
qed simp

lemma sums_nonneg:
  assumes "ledger d E w"
  shows "0 \<le> sum_list (map (\<lambda>p. vault.total (snd p)) (vaults w))"
    "0 \<le> sum_list (map (\<lambda>p. bucket.total (snd p)) (buckets w))"
    "0 \<le> sum_list (map (\<lambda>f. fst (snd f)) (fee_locks w))"
  using totals_nonneg [OF assms] by (auto intro!: sum_list_nonneg)

lemma container_le_holdings:
  assumes "ledger d E w"
  shows "im_get (vaults w) n = Some v \<Longrightarrow> vault.total v \<le> holdings w"
    "im_get (buckets w) n = Some b \<Longrightarrow> bucket.total b \<le> holdings w"
  using sum_list_member_le [OF _ totals_nonneg(1) [OF assms], of "(n, v)"]
    sum_list_member_le [OF _ totals_nonneg(2) [OF assms], of "(n, b)"] sums_nonneg [OF assms]
  by (auto simp: holdings_def dest!: map_of_SomeD)

section \<open>Updates of the world\<close>

lemma holdings_set_vault:
  assumes "im_wf (vaults w)" and "im_get (vaults w) n = Some v"
  shows "holdings (w\<lparr>vaults := im_insert n v' (vaults w)\<rparr>) = holdings w - vault.total v + vault.total v'"
  using assms sum_im_insert_gen [of "vaults w" "\<lambda>p. vault.total (snd p)" n v']
  by (simp add: holdings_def)

lemma holdings_set_bucket:
  assumes "im_wf (buckets w)" and "im_get (buckets w) n = Some b"
  shows "holdings (w\<lparr>buckets := im_insert n b' (buckets w)\<rparr>) = holdings w - bucket.total b + bucket.total b'"
  using assms sum_im_insert_gen [of "buckets w" "\<lambda>p. bucket.total (snd p)" n b']
  by (simp add: holdings_def)

lemma lock_count_set_vault:
  "lock_count (w\<lparr>vaults := im_insert n v (vaults w)\<rparr>) c a =
     (if c = VaultRef n then int (im_get_or 0 (vault_locked v) a) else lock_count w c a)"
  by (cases c) (auto simp: lock_count_def)

lemma lock_count_set_bucket:
  "lock_count (w\<lparr>buckets := im_insert n b (buckets w)\<rparr>) c a =
     (if c = BucketRef n then int (im_get_or 0 (bucket_locked b) a) else lock_count w c a)"
  by (cases c) (auto simp: lock_count_def)

lemma lock_count_get:
  "im_get (vaults w) n = Some v \<Longrightarrow> lock_count w (VaultRef n) a = int (im_get_or 0 (vault_locked v) a)"
  "im_get (buckets w) n = Some b \<Longrightarrow> lock_count w (BucketRef n) a = int (im_get_or 0 (bucket_locked b) a)"
  by (simp_all add: lock_count_def)

text \<open>Replacing the state of a vault or a bucket, with what it may change of the books.\<close>

lemma ledger_set_vault:
  assumes L: "ledger d E w" and get: "im_get (vaults w) n = Some v"
    and ok: "vault.container_ok v'" "vault.divisible (atom_unit (manager w)) v'"
    and tot: "vault.total v' + d' = vault.total v + d"
    and locks: "\<And>c a. int (count_list E' (c, a)) +
        (if c = VaultRef n then int (im_get_or 0 (vault_locked v) a) else 0) =
      int (count_list E (c, a)) + (if c = VaultRef n then int (im_get_or 0 (vault_locked v') a) else 0)"
  shows "ledger d' E' (w\<lparr>vaults := im_insert n v' (vaults w)\<rparr>)"
proof -
  let ?w = "w\<lparr>vaults := im_insert n v' (vaults w)\<rparr>"
  have wf: "im_wf (vaults w)" using L by (simp add: ledger_defs)
  have h: "holdings ?w + d' = holdings w + d" using holdings_set_vault [OF wf get, of v'] tot by simp
  have "lock_count ?w c a = evidence_count ?w c a + int (count_list E' (c, a))" for c a
  proof -
    have "lock_count w c a = evidence_count w c a + int (count_list E (c, a))"
      using L by (simp add: ledger_defs)
    then show ?thesis
      using locks [of c a] lock_count_get(1) [OF get, of a]
      by (auto simp: lock_count_set_vault evidence_count_def split: if_splits)
  qed
  moreover have "\<forall>p \<in> set (im_insert n v' (vaults w)). fst p < next_node w \<and>
      vault.container_ok (snd p) \<and> vault.divisible (atom_unit (manager w)) (snd p)"
    using L ok get_vault_ok(3) [OF L get] by (intro ball_im_insert) (auto simp: ledger_defs)
  ultimately show ?thesis using L h by (auto simp: ledger_defs)
qed

lemma ledger_set_bucket:
  assumes L: "ledger d E w" and get: "im_get (buckets w) n = Some b"
    and ok: "bucket.container_ok b'" "bucket.divisible (atom_unit (manager w)) b'"
    and tot: "bucket.total b' + d' = bucket.total b + d"
    and locks: "\<And>c a. int (count_list E' (c, a)) +
        (if c = BucketRef n then int (im_get_or 0 (bucket_locked b) a) else 0) =
      int (count_list E (c, a)) + (if c = BucketRef n then int (im_get_or 0 (bucket_locked b') a) else 0)"
  shows "ledger d' E' (w\<lparr>buckets := im_insert n b' (buckets w)\<rparr>)"
proof -
  let ?w = "w\<lparr>buckets := im_insert n b' (buckets w)\<rparr>"
  have wf: "im_wf (buckets w)" using L by (simp add: ledger_defs)
  have h: "holdings ?w + d' = holdings w + d" using holdings_set_bucket [OF wf get, of b'] tot by simp
  have "lock_count ?w c a = evidence_count ?w c a + int (count_list E' (c, a))" for c a
  proof -
    have "lock_count w c a = evidence_count w c a + int (count_list E (c, a))"
      using L by (simp add: ledger_defs)
    then show ?thesis
      using locks [of c a] lock_count_get(2) [OF get, of a]
      by (auto simp: lock_count_set_bucket evidence_count_def split: if_splits)
  qed
  moreover have "\<forall>p \<in> set (im_insert n b' (buckets w)). fst p < next_node w \<and>
      bucket.container_ok (snd p) \<and> bucket.divisible (atom_unit (manager w)) (snd p)"
    using L ok get_bucket_ok(3) [OF L get] by (intro ball_im_insert) (auto simp: ledger_defs)
  ultimately show ?thesis using L h by (auto simp: ledger_defs)
qed

text \<open>A new bucket, and a bucket that is dropped.\<close>

definition add_bucket :: "decimal \<Rightarrow> world \<Rightarrow> world" where
  "add_bucket amount w = w\<lparr>
     buckets := im_insert (next_node w) \<lparr>bucket_liquid = amount, bucket_locked = []\<rparr> (buckets w),
     next_node := next_node w + 1\<rparr>"

lemma holdings_add_bucket:
  assumes "ledger d E w"
  shows "holdings (add_bucket amount w) = holdings w + amount"
  using assms fresh_node [OF assms] sum_im_insert_gen [of "buckets w" "\<lambda>p. bucket.total (snd p)" "next_node w"]
  by (simp add: holdings_def add_bucket_def ledger_defs bucket.total_def)

lemma ledger_add_bucket:
  assumes L: "ledger d E w" and a: "0 \<le> amount" "atom_unit (manager w) dvd amount"
  shows "ledger (d - amount) E (add_bucket amount w)"
proof -
  let ?w = "add_bucket amount w"
  have m: "manager ?w = manager w" by (simp add: add_bucket_def)
  have "lock_count ?w c x = lock_count w c x" for c x
    using fresh_node(2) [OF L] by (cases c) (auto simp: lock_count_def add_bucket_def im_get_or_def)
  then have "locks_backed E ?w"
    using L by (simp add: ledger_defs evidence_count_def add_bucket_def)
  moreover have "\<forall>p \<in> set (buckets ?w). fst p < next_node ?w \<and>
      bucket.container_ok (snd p) \<and> bucket.divisible (atom_unit (manager ?w)) (snd p)"
    unfolding add_bucket_def using L a
    by (auto simp: ledger_defs bucket.container_ok_def bucket.divisible_def locks_ok_def less_Suc_eq
        dest!: im_insert_mem)
  ultimately show ?thesis using L holdings_add_bucket [OF L, of amount]
    by (auto simp: ledger_def objects_ok_def supply_ok_def m add_bucket_def less_Suc_eq)
qed

definition remove_bucket :: "node \<Rightarrow> world \<Rightarrow> world" where
  "remove_bucket n w = w\<lparr>buckets := im_swap_remove n (buckets w)\<rparr>"

lemma holdings_remove_bucket:
  assumes "ledger d E w" and "im_get (buckets w) n = Some b"
  shows "holdings (remove_bucket n w) = holdings w - bucket.total b"
  using assms sum_im_swap_remove [of "buckets w" n b "\<lambda>p. bucket.total (snd p)"]
  by (simp add: holdings_def remove_bucket_def ledger_defs)

lemma ledger_remove_bucket:
  assumes L: "ledger d E w" and get: "im_get (buckets w) n = Some b" and unlocked: "bucket_locked b = []"
  shows "ledger (d + bucket_liquid b) E (remove_bucket n w)"
proof -
  let ?w = "remove_bucket n w"
  have wf: "im_wf (buckets w)" using L by (simp add: ledger_defs)
  have "lock_count ?w c x = lock_count w c x" for c x
    using get unlocked by (cases c) (auto simp: lock_count_def remove_bucket_def im_get_swap_remove [OF wf])
  then have "locks_backed E ?w"
    using L by (simp add: ledger_defs evidence_count_def remove_bucket_def)
  moreover have "holdings ?w + (d + bucket_liquid b) = holdings w + d"
    using holdings_remove_bucket [OF L get] unlocked by (simp add: bucket.total_def)
  ultimately show ?thesis using L wf
    by (auto simp: ledger_def objects_ok_def supply_ok_def remove_bucket_def set_im_swap_remove)
qed

section \<open>Rules for the actions\<close>

text \<open>\<open>hoare P m Q\<close>: from a world satisfying \<open>P\<close> the action does not panic, and when it succeeds
  its result and new world satisfy \<open>Q\<close>.\<close>

definition hoare :: "(world \<Rightarrow> bool) \<Rightarrow> 'a act \<Rightarrow> ('a \<Rightarrow> world \<Rightarrow> bool) \<Rightarrow> bool" where
  "hoare P m Q \<longleftrightarrow> (\<forall>w. P w \<longrightarrow> m w \<noteq> Panics \<and> (\<forall>x w'. m w = Ok (x, w') \<longrightarrow> Q x w'))"

named_theorems act_rules \<open>rules that push an assertion through the first action of a sequence\<close>

lemma hoare_weaken: "hoare P m Q \<Longrightarrow> (\<And>x w. Q x w \<Longrightarrow> R x w) \<Longrightarrow> hoare P m R"
  by (auto simp: hoare_def)

lemma hoareD: "hoare P m Q \<Longrightarrow> P w \<Longrightarrow> m w = Ok (x, w') \<Longrightarrow> Q x w'"
  by (simp add: hoare_def)

lemma hoare_no_panic: "hoare P m Q \<Longrightarrow> P w \<Longrightarrow> m w \<noteq> Panics"
  by (simp add: hoare_def)

lemma hoare_abind:
  assumes "hoare P m Q" and "\<And>x. hoare (Q x) (k x) R"
  shows "hoare P (abind m k) R"
  using assms unfolding hoare_def abind_def
  by (auto simp: rbind_eq_Inl_iff rbind_eq_Inr_iff)

lemma hoare_last: "hoare P (abind m areturn) Q \<Longrightarrow> hoare P m Q"
  by (simp add: abind_areturn)

lemma hoare_areturn: "(\<And>w. P w \<Longrightarrow> Q x w) \<Longrightarrow> hoare P (areturn x) Q"
  by (simp add: hoare_def areturn_def)

lemma hoare_check [act_rules]:
  assumes "r \<noteq> Panics" and "\<And>x. r = Ok x \<Longrightarrow> hoare P (k x) R"
  shows "hoare P (abind (aread (\<lambda>_. r)) k) R"
  using assms by (cases r) (auto simp: hoare_def abind_def aread_def)

lemma hoare_get_manager [act_rules]:
  assumes "hoare (live d E m) (k m) R"
  shows "hoare (live d E m) (abind get_manager k) R"
  using assms by (auto simp: hoare_def abind_def get_manager_def aread_def live_def)

lemma hoare_peek_vault [act_rules]:
  assumes "\<And>v. hoare P (k v) R"
  shows "hoare P (abind (get_vault n) k) R"
  using assms
  by (auto simp: hoare_def abind_def get_vault_def aread_def rbind_eq_Inl_iff rbind_eq_Inr_iff)

lemma hoare_peek_bucket [act_rules]:
  assumes "\<And>b. hoare P (k b) R"
  shows "hoare P (abind (get_bucket n) k) R"
  using assms
  by (auto simp: hoare_def abind_def get_bucket_def aread_def rbind_eq_Inl_iff rbind_eq_Inr_iff)

lemma live_events [simp]: "live d E m (w\<lparr>events := es\<rparr>) = live d E m w"
proof -
  have "lock_count (w\<lparr>events := es\<rparr>) c a = lock_count w c a" for c a
    by (cases c) (simp_all add: lock_count_def)
  then show ?thesis
    by (simp add: live_def ledger_defs holdings_def evidence_count_def)
qed

lemma hoare_emit_event [act_rules]:
  assumes "hoare (live d E m) (k ()) R"
  shows "hoare (live d E m) (abind (emit_event e) k) R"
  by (rule hoare_abind [where Q = "\<lambda>_. live d E m"])
    (use assms in \<open>auto simp: hoare_def emit_event_def amodify_def\<close>)

lemma hoare_create_bucket [act_rules]:
  assumes "0 \<le> a" and "atom_unit m dvd a" and "\<And>n. hoare (live (d - a) E m) (k n) R"
  shows "hoare (live d E m) (abind (create_bucket a) k) R"
proof (rule hoare_abind [OF _ assms(3)])
  show "hoare (live d E m) (create_bucket a) (\<lambda>_. live (d - a) E m)"
    using assms(1,2) ledger_add_bucket holdings_add_bucket
    by (auto simp: hoare_def create_bucket_def live_def add_bucket_def [symmetric])
      (simp_all add: add_bucket_def)
qed

lemma hoare_drop_bucket [act_rules]:
  assumes "\<And>b. 0 \<le> bucket_liquid b \<Longrightarrow> atom_unit m dvd bucket_liquid b \<Longrightarrow>
    hoare (live (d + bucket_liquid b) E m) (k b) R"
  shows "hoare (live d E m) (abind (drop_fungible_bucket n) k) R"
proof (rule hoare_abind [where Q = "\<lambda>b w. live (d + bucket_liquid b) E m w \<and> 0 \<le> bucket_liquid b \<and>
    atom_unit m dvd bucket_liquid b"])
  show "hoare (live d E m) (drop_fungible_bucket n) (\<lambda>b w. live (d + bucket_liquid b) E m w \<and>
      0 \<le> bucket_liquid b \<and> atom_unit m dvd bucket_liquid b)"
    unfolding hoare_def
  proof (intro allI impI conjI)
    fix w assume live: "live d E m w"
    show "drop_fungible_bucket n w \<noteq> Panics"
      by (auto simp: drop_fungible_bucket_def abind_def get_bucket_def aread_def amodify_def
          rbind_eq_Inl_iff split: if_splits)
    fix b w' assume "drop_fungible_bucket n w = Ok (b, w')"
    then have get: "im_get (buckets w) n = Some b" and un: "bucket_locked b = []"
      and w': "w' = remove_bucket n w"
      by (auto simp: drop_fungible_bucket_def abind_def get_bucket_def aread_def amodify_def res_iffs
          is_locked_def remove_bucket_def split: if_splits)
    have L: "ledger d E w" "manager w = m" using live by (simp_all add: live_def)
    show "live (d + bucket_liquid b) E m w'"
      using ledger_remove_bucket [OF L(1) get un] holdings_remove_bucket [OF L(1) get] live un
      by (simp add: live_def w') (simp add: remove_bucket_def bucket.total_def)
    show "0 \<le> bucket_liquid b" "atom_unit m dvd bucket_liquid b"
      using get_bucket_ok [OF L(1) get] L(2) by (simp_all add: bucket.container_ok_def bucket.divisible_def)
  qed
  show "hoare (\<lambda>w. live (d + bucket_liquid b) E m w \<and> 0 \<le> bucket_liquid b \<and> atom_unit m dvd bucket_liquid b)
      (k b) R" for b
    using assms [of b] by (auto simp: hoare_def)
qed

lemma hoare_on_vault:
  assumes "\<And>w v. live d E m w \<Longrightarrow> im_get (vaults w) n = Some v \<Longrightarrow> f v \<noteq> Panics"
    and "\<And>w v v'. live d E m w \<Longrightarrow> im_get (vaults w) n = Some v \<Longrightarrow>
      vault.container_ok v \<Longrightarrow> vault.divisible (atom_unit m) v \<Longrightarrow> f v = Ok v' \<Longrightarrow>
      vault.container_ok v' \<and> vault.divisible (atom_unit m) v' \<and> vault.total v' + d' = vault.total v + d \<and>
      (\<forall>c a. int (count_list E' (c, a)) +
        (if c = VaultRef n then int (im_get_or 0 (vault_locked v) a) else 0) =
      int (count_list E (c, a)) + (if c = VaultRef n then int (im_get_or 0 (vault_locked v') a) else 0))"
    and "hoare (live d' E' m) (k ()) R"
  shows "hoare (live d E m) (abind (on_vault n f) k) R"
proof (rule hoare_abind [where Q = "\<lambda>_. live d' E' m"])
  show "hoare (live d E m) (on_vault n f) (\<lambda>_. live d' E' m)"
    unfolding hoare_def
  proof (intro allI impI conjI)
    fix w assume live: "live d E m w"
    show "on_vault n f w \<noteq> Panics"
      using assms(1) [OF live]
      by (auto simp: on_vault_def abind_def get_vault_def aread_def set_vault_def amodify_def rbind_eq_Inl_iff
          res_iffs)
    fix u w' assume "on_vault n f w = Ok (u, w')"
    then obtain v v' where get: "im_get (vaults w) n = Some v" and f: "f v = Ok v'"
      and w': "w' = w\<lparr>vaults := im_insert n v' (vaults w)\<rparr>"
      by (auto simp: on_vault_def abind_def get_vault_def aread_def set_vault_def amodify_def res_iffs)
    have L: "ledger d E w" "manager w = m" using live by (simp_all add: live_def)
    note v = get_vault_ok [OF L(1) get, unfolded L(2)]
    note v' = assms(2) [OF live get v(1,2) f]
    have "ledger d' E' w'" unfolding w' using v' L(2) by (intro ledger_set_vault [OF L(1) get]) auto
    then show "live d' E' m w'"
      using live holdings_set_vault [OF _ get, of v'] v' by (simp add: live_def w' ledger_defs)
  qed
qed (simp add: assms(3))

lemma hoare_on_bucket:
  assumes "\<And>w b. live d E m w \<Longrightarrow> im_get (buckets w) n = Some b \<Longrightarrow> f b \<noteq> Panics"
    and "\<And>w b b'. live d E m w \<Longrightarrow> im_get (buckets w) n = Some b \<Longrightarrow>
      bucket.container_ok b \<Longrightarrow> bucket.divisible (atom_unit m) b \<Longrightarrow> f b = Ok b' \<Longrightarrow>
      bucket.container_ok b' \<and> bucket.divisible (atom_unit m) b' \<and> bucket.total b' + d' = bucket.total b + d \<and>
      (\<forall>c a. int (count_list E' (c, a)) +
        (if c = BucketRef n then int (im_get_or 0 (bucket_locked b) a) else 0) =
      int (count_list E (c, a)) + (if c = BucketRef n then int (im_get_or 0 (bucket_locked b') a) else 0))"
    and "hoare (live d' E' m) (k ()) R"
  shows "hoare (live d E m) (abind (on_bucket n f) k) R"
proof (rule hoare_abind [where Q = "\<lambda>_. live d' E' m"])
  show "hoare (live d E m) (on_bucket n f) (\<lambda>_. live d' E' m)"
    unfolding hoare_def
  proof (intro allI impI conjI)
    fix w assume live: "live d E m w"
    show "on_bucket n f w \<noteq> Panics"
      using assms(1) [OF live]
      by (auto simp: on_bucket_def abind_def get_bucket_def aread_def set_bucket_def amodify_def rbind_eq_Inl_iff
          res_iffs)
    fix u w' assume "on_bucket n f w = Ok (u, w')"
    then obtain b b' where get: "im_get (buckets w) n = Some b" and f: "f b = Ok b'"
      and w': "w' = w\<lparr>buckets := im_insert n b' (buckets w)\<rparr>"
      by (auto simp: on_bucket_def abind_def get_bucket_def aread_def set_bucket_def amodify_def res_iffs)
    have L: "ledger d E w" "manager w = m" using live by (simp_all add: live_def)
    note b = get_bucket_ok [OF L(1) get, unfolded L(2)]
    note b' = assms(2) [OF live get b(1,2) f]
    have "ledger d' E' w'" unfolding w' using b' L(2) by (intro ledger_set_bucket [OF L(1) get]) auto
    then show "live d' E' m w'"
      using live holdings_set_bucket [OF _ get, of b'] b' by (simp add: live_def w' ledger_defs)
  qed
qed (simp add: assms(3))

lemma vault_total_bound: "live d E m w \<Longrightarrow> im_get (vaults w) n = Some v \<Longrightarrow> vault.total v + d \<le> dec_max"
  using container_le_holdings(1) by (fastforce simp: live_def)

lemma bucket_total_bound: "live d E m w \<Longrightarrow> im_get (buckets w) n = Some b \<Longrightarrow> bucket.total b + d \<le> dec_max"
  using container_le_holdings(2) by (fastforce simp: live_def)

lemma live_vault_ok:
  "live d E m w \<Longrightarrow> im_get (vaults w) n = Some v \<Longrightarrow> vault.container_ok v"
  using get_vault_ok(1) by (auto simp: live_def)

lemma live_bucket_ok:
  "live d E m w \<Longrightarrow> im_get (buckets w) n = Some b \<Longrightarrow> bucket.container_ok b"
  using get_bucket_ok(1) by (auto simp: live_def)

lemma backed_lock:
  assumes "live d E m w" and "0 < count_list E (c, a)"
  shows "0 < lock_count w c a"
proof -
  have "0 \<le> evidence_count w c a" by (auto simp: evidence_count_def intro!: sum_list_nonneg)
  then show ?thesis using assms by (auto simp: live_def ledger_defs)
qed

lemma hoare_vault_put [act_rules]:
  assumes "0 \<le> a" and "a \<le> d" and "atom_unit m dvd a" and "hoare (live (d - a) E m) (k ()) R"
  shows "hoare (live d E m) (abind (on_vault n (vault_internal_put a)) k) R"
proof (rule hoare_on_vault [where k = k, OF _ _ assms(4)])
  fix w v assume live: "live d E m w" and get: "im_get (vaults w) n = Some v"
  have "is_decimal (vault_balance v + a)"
    using vault_total_bound [OF live get] live_vault_ok [OF live get] assms(1,2)
      locked_amount_nonneg [of "vault_locked v"]
    unfolding vault.total_def vault.container_ok_def by (intro is_decimal_between) linarith+
  then show "vault_internal_put a v \<noteq> Panics"
    by (auto simp: vault_internal_put_def liquid_put_def dec_checked_add_def i_checked_ops)
qed (use assms(1,3) in \<open>auto simp: put_add_iff vault.container_ok_def vault.divisible_def vault.total_def\<close>)

lemma hoare_bucket_put [act_rules]:
  assumes "0 \<le> a" and "a \<le> d" and "atom_unit m dvd a" and "hoare (live (d - a) E m) (k ()) R"
  shows "hoare (live d E m) (abind (on_bucket n (\<lambda>b. rbind (liquid_put a (bucket_liquid b))
       (\<lambda>l. Ok (b\<lparr>bucket_liquid := l\<rparr>)))) k) R"
proof (rule hoare_on_bucket [where k = k, OF _ _ assms(4)])
  fix w b assume live: "live d E m w" and get: "im_get (buckets w) n = Some b"
  have "is_decimal (bucket_liquid b + a)"
    using bucket_total_bound [OF live get] live_bucket_ok [OF live get] assms(1,2)
      locked_amount_nonneg [of "bucket_locked b"]
    unfolding bucket.total_def bucket.container_ok_def by (intro is_decimal_between) linarith+
  then show "rbind (liquid_put a (bucket_liquid b)) (\<lambda>l. Ok (b\<lparr>bucket_liquid := l\<rparr>)) \<noteq> Panics"
    by (auto simp: liquid_put_def dec_checked_add_def i_checked_ops)
qed (use assms(1,3) in \<open>auto simp: res_iffs liquid_put_iff bucket.container_ok_def bucket.divisible_def
      bucket.total_def\<close>)

lemma hoare_vault_lock [act_rules]:
  assumes "0 \<le> a" and "atom_unit m dvd a" and "hoare (live d ((VaultRef n, a) # E) m) (k ()) R"
  shows "hoare (live d E m) (abind (on_vault n (vault_lock_amount a)) k) R"
proof (rule hoare_on_vault [where k = k, OF _ _ assms(3)])
  fix w v v' assume ok: "vault.container_ok v" "vault.divisible (atom_unit m) v"
    and run: "vault_lock_amount a v = Ok v'"
  show "vault.container_ok v' \<and> vault.divisible (atom_unit m) v' \<and> vault.total v' + d = vault.total v + d \<and>
      (\<forall>c x. int (count_list ((VaultRef n, a) # E) (c, x)) +
        (if c = VaultRef n then int (im_get_or 0 (vault_locked v) x) else 0) =
      int (count_list E (c, x)) + (if c = VaultRef n then int (im_get_or 0 (vault_locked v') x) else 0))"
    using vault.lock_container_ok [OF run ok(1) assms(1)] vault.lock_divisible [OF run ok(2) assms(2)]
      vault.lock_total [OF run] vault.lock_Ok [OF run]
    by (auto simp: im_get_locks_add)
qed (rule vault.lock_no_panic)

lemma hoare_bucket_lock [act_rules]:
  assumes "0 \<le> a" and "atom_unit m dvd a" and "hoare (live d ((BucketRef n, a) # E) m) (k ()) R"
  shows "hoare (live d E m) (abind (on_bucket n (bucket_lock_amount a)) k) R"
proof (rule hoare_on_bucket [where k = k, OF _ _ assms(3)])
  fix w b b' assume ok: "bucket.container_ok b" "bucket.divisible (atom_unit m) b"
    and run: "bucket_lock_amount a b = Ok b'"
  show "bucket.container_ok b' \<and> bucket.divisible (atom_unit m) b' \<and> bucket.total b' + d = bucket.total b + d \<and>
      (\<forall>c x. int (count_list ((BucketRef n, a) # E) (c, x)) +
        (if c = BucketRef n then int (im_get_or 0 (bucket_locked b) x) else 0) =
      int (count_list E (c, x)) + (if c = BucketRef n then int (im_get_or 0 (bucket_locked b') x) else 0))"
    using bucket.lock_container_ok [OF run ok(1) assms(1)] bucket.lock_divisible [OF run ok(2) assms(2)]
      bucket.lock_total [OF run] bucket.lock_Ok [OF run]
    by (auto simp: im_get_locks_add)
qed (rule bucket.lock_no_panic)

lemma hoare_vault_unlock [act_rules]:
  assumes "0 \<le> d" and "hoare (live d E m) (k ()) R"
  shows "hoare (live d ((VaultRef n, a) # E) m) (abind (on_vault n (vault_unlock_amount a)) k) R"
proof (rule hoare_on_vault [where k = k, OF _ _ assms(2)])
  fix w v assume live: "live d ((VaultRef n, a) # E) m w" and get: "im_get (vaults w) n = Some v"
  have "0 < im_get_or 0 (vault_locked v) a"
    using backed_lock [OF live, of "VaultRef n" a] lock_count_get(1) [OF get] by simp
  moreover have "vault.total v \<le> dec_max" using vault_total_bound [OF live get] assms(1) by linarith
  ultimately obtain v' where "vault_unlock_amount a v = Ok v'"
    using vault.unlock_locked [OF live_vault_ok [OF live get]] by blast
  then show "vault_unlock_amount a v \<noteq> Panics" by simp
next
  fix w v v' assume ok: "vault.container_ok v" "vault.divisible (atom_unit m) v"
    and run: "vault_unlock_amount a v = Ok v'"
  have "im_get_or 0 (vault_locked v) x = im_get_or 0 (vault_locked v') x + (if a = x then 1 else 0)" for x
    using im_get_locks_remove vault.unlock_Ok [OF run] ok(1) by (auto simp: vault.container_ok_def)
  then show "vault.container_ok v' \<and> vault.divisible (atom_unit m) v' \<and> vault.total v' + d = vault.total v + d \<and>
      (\<forall>c x. int (count_list E (c, x)) +
        (if c = VaultRef n then int (im_get_or 0 (vault_locked v) x) else 0) =
      int (count_list ((VaultRef n, a) # E) (c, x)) +
        (if c = VaultRef n then int (im_get_or 0 (vault_locked v') x) else 0))"
    using vault.unlock_container_ok [OF run ok(1)] vault.unlock_divisible [OF run ok(2,1)]
      vault.unlock_total [OF run] by auto
qed

lemma hoare_bucket_unlock [act_rules]:
  assumes "0 \<le> d" and "hoare (live d E m) (k ()) R"
  shows "hoare (live d ((BucketRef n, a) # E) m) (abind (on_bucket n (bucket_unlock_amount a)) k) R"
proof (rule hoare_on_bucket [where k = k, OF _ _ assms(2)])
  fix w b assume live: "live d ((BucketRef n, a) # E) m w" and get: "im_get (buckets w) n = Some b"
  have "0 < im_get_or 0 (bucket_locked b) a"
    using backed_lock [OF live, of "BucketRef n" a] lock_count_get(2) [OF get] by simp
  moreover have "bucket.total b \<le> dec_max" using bucket_total_bound [OF live get] assms(1) by linarith
  ultimately obtain b' where "bucket_unlock_amount a b = Ok b'"
    using bucket.unlock_locked [OF live_bucket_ok [OF live get]] by blast
  then show "bucket_unlock_amount a b \<noteq> Panics" by simp
next
  fix w b b' assume ok: "bucket.container_ok b" "bucket.divisible (atom_unit m) b"
    and run: "bucket_unlock_amount a b = Ok b'"
  have "im_get_or 0 (bucket_locked b) x = im_get_or 0 (bucket_locked b') x + (if a = x then 1 else 0)" for x
    using im_get_locks_remove bucket.unlock_Ok [OF run] ok(1) by (auto simp: bucket.container_ok_def)
  then show "bucket.container_ok b' \<and> bucket.divisible (atom_unit m) b' \<and> bucket.total b' + d = bucket.total b + d \<and>
      (\<forall>c x. int (count_list E (c, x)) +
        (if c = BucketRef n then int (im_get_or 0 (bucket_locked b) x) else 0) =
      int (count_list ((BucketRef n, a) # E) (c, x)) +
        (if c = BucketRef n then int (im_get_or 0 (bucket_locked b') x) else 0))"
    using bucket.unlock_container_ok [OF run ok(1)] bucket.unlock_divisible [OF run ok(2,1)]
      bucket.unlock_total [OF run] by auto
qed

lemma hoare_vault_frozen [act_rules]:
  assumes "hoare (live d E m) (k ()) R"
  shows "hoare (live d E m) (abind (on_vault n (\<lambda>v. Ok (v\<lparr>vault_frozen := f v\<rparr>))) k) R"
  by (rule hoare_on_vault [where k = k, OF _ _ assms])
    (auto simp: vault.container_ok_def vault.divisible_def vault.total_def)

text \<open>Taking out of a container is a method on it followed by returning what was taken.\<close>

lemma take_from_vault_eq:
  "take_from_vault n a = abind (on_vault n (\<lambda>v. rbind (vault_internal_take a v) (\<lambda>(_, v'). Ok v')))
     (\<lambda>_. areturn a)"
proof
  fix w show "take_from_vault n a w = abind (on_vault n (\<lambda>v. rbind (vault_internal_take a v)
      (\<lambda>(_, v'). Ok v'))) (\<lambda>_. areturn a) w"
  proof (cases "im_get (vaults w) n")
    case (Some v)
    show ?thesis
    proof (cases "vault_internal_take a v")
      case (Inr p)
      obtain t v' where p: "p = (t, v')" by (cases p)
      then have "t = a" using Inr by (simp add: take_sub_iff)
      then show ?thesis using Some Inr p
        by (simp add: take_from_vault_def on_vault_def abind_def get_vault_def aread_def set_vault_def
            amodify_def areturn_def)
    qed (use Some in \<open>simp add: take_from_vault_def on_vault_def abind_def get_vault_def aread_def\<close>)
  qed (simp add: take_from_vault_def on_vault_def abind_def get_vault_def aread_def)
qed

lemma take_from_bucket_eq:
  "take_from_bucket n a = abind (on_bucket n (\<lambda>b. rbind (bucket_internal_take a b) (\<lambda>(_, b'). Ok b')))
     (\<lambda>_. areturn a)"
proof
  fix w show "take_from_bucket n a w = abind (on_bucket n (\<lambda>b. rbind (bucket_internal_take a b)
      (\<lambda>(_, b'). Ok b'))) (\<lambda>_. areturn a) w"
  proof (cases "im_get (buckets w) n")
    case (Some b)
    show ?thesis
    proof (cases "bucket_internal_take a b")
      case (Inr p)
      obtain t b' where p: "p = (t, b')" by (cases p)
      then have "t = a" using Inr by (simp add: take_sub_iff)
      then show ?thesis using Some Inr p
        by (simp add: take_from_bucket_def on_bucket_def abind_def get_bucket_def aread_def set_bucket_def
            amodify_def areturn_def)
    qed (use Some in \<open>simp add: take_from_bucket_def on_bucket_def abind_def get_bucket_def aread_def\<close>)
  qed (simp add: take_from_bucket_def on_bucket_def abind_def get_bucket_def aread_def)
qed

lemma hoare_take_from_vault [act_rules]:
  assumes "0 \<le> a" and "atom_unit m dvd a" and "hoare (live (d + a) E m) (k a) R"
  shows "hoare (live d E m) (abind (take_from_vault n a) k) R"
  unfolding take_from_vault_eq abind_assoc abind_return
  by (rule hoare_on_vault [where k = "\<lambda>_. k a", OF _ _ assms(3)])
    (use assms(1,2) in \<open>auto simp: rbind_eq_Inl_iff rbind_eq_Inr_iff take_sub_iff vault.container_ok_def
      vault.divisible_def vault.total_def\<close>)

lemma hoare_take_from_bucket [act_rules]:
  assumes "0 \<le> a" and "atom_unit m dvd a" and "hoare (live (d + a) E m) (k a) R"
  shows "hoare (live d E m) (abind (take_from_bucket n a) k) R"
  unfolding take_from_bucket_eq abind_assoc abind_return
  by (rule hoare_on_bucket [where k = "\<lambda>_. k a", OF _ _ assms(3)])
    (use assms(1,2) in \<open>auto simp: rbind_eq_Inl_iff rbind_eq_Inr_iff take_sub_iff bucket.container_ok_def
      bucket.divisible_def bucket.total_def\<close>)

lemma take_fee_eq:
  "take_fee n a = abind (on_vault n (\<lambda>v. rbind (map_err lock_fee_error
     (liquid_take_by_amount a (vault_balance v))) (\<lambda>(_, left). Ok (v\<lparr>vault_balance := left\<rparr>))))
     (\<lambda>_. areturn a)"
proof
  fix w show "take_fee n a w = abind (on_vault n (\<lambda>v. rbind (map_err lock_fee_error
     (liquid_take_by_amount a (vault_balance v))) (\<lambda>(_, left). Ok (v\<lparr>vault_balance := left\<rparr>))))
     (\<lambda>_. areturn a) w"
  proof (cases "im_get (vaults w) n")
    case (Some v)
    show ?thesis
    proof (cases "map_err lock_fee_error (liquid_take_by_amount a (vault_balance v))")
      case (Inr p)
      then have "fst p = a" by (cases p) (simp add: map_err_eq_Inr_iff liquid_take_iff)
      then show ?thesis using Some Inr
        by (cases p) (simp add: take_fee_def on_vault_def abind_def get_vault_def aread_def set_vault_def
            amodify_def areturn_def)
    qed (use Some in \<open>simp add: take_fee_def on_vault_def abind_def get_vault_def aread_def\<close>)
  qed (simp add: take_fee_def on_vault_def abind_def get_vault_def aread_def)
qed

lemma map_err_no_panic: "r \<noteq> Panics \<Longrightarrow> map_err f r \<noteq> Panics"
  by (auto simp: map_err_def split: sum.splits fail.splits)

lemma hoare_take_fee [act_rules]:
  assumes "0 \<le> a" and "atom_unit m dvd a" and "hoare (live (d + a) E m) (k a) R"
  shows "hoare (live d E m) (abind (take_fee n a) k) R"
  unfolding take_fee_eq abind_assoc abind_return
  by (rule hoare_on_vault [where k = "\<lambda>_. k a", OF _ _ assms(3)])
    (use assms(1,2) in \<open>auto simp: rbind_eq_Inl_iff res_iffs liquid_take_iff map_err_no_panic
      vault.container_ok_def vault.divisible_def vault.total_def\<close>)

lemma evidence_add:
  assumes "ledger d E w"
  shows "evidence_count (w\<lparr>proofs := im_insert (next_node w) p (proofs w), next_node := k\<rparr>) c a =
    evidence_count w c a + int (count_list (proof_evidence p) (c, a))"
  using assms fresh_node(3) [OF assms]
    sum_im_insert_gen [of "proofs w" "\<lambda>p. int (count_list (proof_evidence (snd p)) (c, a))" "next_node w" p]
  by (simp add: evidence_count_def ledger_defs)

lemma lock_count_proofs [simp]: "lock_count (w\<lparr>proofs := ps, next_node := k\<rparr>) c a = lock_count w c a"
  "lock_count (w\<lparr>proofs := ps\<rparr>) c a = lock_count w c a"
  by (cases c; simp add: lock_count_def)+

lemma hoare_new_proof [act_rules]:
  assumes "\<And>n. hoare (live d E m) (k n) R"
  shows "hoare (live d (proof_evidence p @ E) m) (abind (new_proof p) k) R"
proof (rule hoare_abind [OF _ assms])
  show "hoare (live d (proof_evidence p @ E) m) (new_proof p) (\<lambda>_. live d E m)"
    unfolding hoare_def
  proof (intro allI impI conjI)
    fix w x w' assume live: "live d (proof_evidence p @ E) m w" and "new_proof p w = Ok (x, w')"
    then have w': "w' = w\<lparr>proofs := im_insert (next_node w) p (proofs w), next_node := next_node w + 1\<rparr>"
      by (auto simp: new_proof_def)
    have L: "ledger d (proof_evidence p @ E) w" using live by (simp add: live_def)
    have "lock_count w' c a = evidence_count w' c a + int (count_list E (c, a))" for c a
      using L by (simp add: w' evidence_add [OF L]) (simp add: ledger_defs)
    moreover have "\<forall>q \<in> set (proofs w'). fst q < next_node w'"
      using L by (auto simp: w' ledger_defs less_Suc_eq dest!: im_insert_mem)
    ultimately show "live d E m w'"
      using live by (auto simp: live_def ledger_defs w' holdings_def less_Suc_eq)
  qed (simp add: new_proof_def)
qed

lemma hoare_take_proof [act_rules]:
  assumes "\<And>p. hoare (live d (proof_evidence p @ E) m) (k p) R"
  shows "hoare (live d E m) (abind (get_proof n) (\<lambda>p. abind (amodify (\<lambda>w. w\<lparr>proofs := im_swap_remove n (proofs w)\<rparr>))
    (\<lambda>_. k p))) R"
  unfolding hoare_def
proof (intro allI impI)
  fix w assume live: "live d E m w"
  let ?w = "w\<lparr>proofs := im_swap_remove n (proofs w)\<rparr>"
  have wf: "im_wf (proofs w)" using live by (simp add: live_def ledger_defs)
  have "live d (proof_evidence p @ E) m ?w" if get: "im_get (proofs w) n = Some p" for p
  proof -
    have "evidence_count w c a = evidence_count ?w c a + int (count_list (proof_evidence p) (c, a))" for c a
      using sum_im_swap_remove [OF wf get, of "\<lambda>q. int (count_list (proof_evidence (snd q)) (c, a))"]
      by (simp add: evidence_count_def)
    then show ?thesis using live wf
      by (auto simp: live_def ledger_defs holdings_def set_im_swap_remove)
  qed
  then show "abind (get_proof n) (\<lambda>p. abind (amodify (\<lambda>w. w\<lparr>proofs := im_swap_remove n (proofs w)\<rparr>)) (\<lambda>_. k p)) w \<noteq> Panics \<and>
      (\<forall>x w'. abind (get_proof n) (\<lambda>p. abind (amodify (\<lambda>w. w\<lparr>proofs := im_swap_remove n (proofs w)\<rparr>)) (\<lambda>_. k p)) w = Ok (x, w') \<longrightarrow> R x w')"
    using assms unfolding hoare_def
    by (cases "im_get (proofs w) n") (auto simp: abind_def get_proof_def aread_def amodify_def)
qed

lemma hoare_peek_proof:
  assumes "\<And>p. (\<And>c a. (c, a) \<in> set (proof_evidence p) \<Longrightarrow> 0 \<le> a \<and> atom_unit m dvd a) \<Longrightarrow>
      hoare (live d E m) (k p) R"
  shows "hoare (live d E m) (abind (get_proof n) k) R"
  unfolding hoare_def
proof (intro allI impI)
  fix w assume live: "live d E m w"
  have "0 \<le> a \<and> atom_unit m dvd a"
    if get: "im_get (proofs w) n = Some p" and mem: "(c, a) \<in> set (proof_evidence p)" for p c a
  proof -
    have "0 < count_list (proof_evidence p) (c, a)" using mem by (metis count_list_0_iff neq0_conv)
    moreover have "(n, p) \<in> set (proofs w)" using get by (rule map_of_SomeD)
    ultimately have "0 < evidence_count w c a"
      using sum_list_member_le [of "(n, p)" "proofs w" "\<lambda>q. int (count_list (proof_evidence (snd q)) (c, a))"]
      by (simp add: evidence_count_def)
    then have "0 < lock_count w c a" using live by (simp add: live_def ledger_defs)
    then have pos: "0 < im_get_or 0 (container_locks w c) a" by (simp add: lock_count_def)
    then have "im_get (container_locks w c) a \<noteq> None" by (auto simp: im_get_or_def split: option.splits)
    then have key: "a \<in> fst ` set (container_locks w c)" by (simp add: map_of_eq_None_iff)
    have ok: "locks_ok (container_locks w c) \<and> (\<forall>p \<in> set (container_locks w c). atom_unit m dvd fst p)"
    proof (cases c)
      case (VaultRef v)
      then show ?thesis using live get_vault_ok [of d E w v]
        by (force simp: live_def locks_ok_def vault.container_ok_def vault.divisible_def split: option.splits)
    next
      case (BucketRef b)
      then show ?thesis using live get_bucket_ok [of d E w b]
        by (force simp: live_def locks_ok_def bucket.container_ok_def bucket.divisible_def split: option.splits)
    qed
    then show ?thesis using key by (auto simp: locks_ok_def)
  qed
  then have "hoare (live d E m) (k p) R" if "im_get (proofs w) n = Some p" for p
    using assms that by blast
  then show "abind (get_proof n) k w \<noteq> Panics \<and> (\<forall>x w'. abind (get_proof n) k w = Ok (x, w') \<longrightarrow> R x w')"
    using live unfolding hoare_def
    by (cases "im_get (proofs w) n") (auto simp: abind_def get_proof_def aread_def)
qed

lemma hoare_restrict_proof:
  assumes chk: "\<And>p. chk p \<noteq> Panics" and "hoare (live d E m) (k ()) R"
  shows "hoare (live d E m) (abind (get_proof n) (\<lambda>p. abind (aread (\<lambda>_. chk p)) (\<lambda>_.
    abind (amodify (\<lambda>w. w\<lparr>proofs := im_insert n (if b then p\<lparr>proof_restricted := True\<rparr> else p) (proofs w)\<rparr>)) k))) R"
proof -
  have "live d E m (w\<lparr>proofs := im_insert n (if b then p\<lparr>proof_restricted := True\<rparr> else p) (proofs w)\<rparr>)"
    if live: "live d E m w" and get: "im_get (proofs w) n = Some p" for w p
  proof -
    let ?p = "if b then p\<lparr>proof_restricted := True\<rparr> else p"
    have wf: "im_wf (proofs w)" using live by (simp add: live_def ledger_defs)
    have "evidence_count (w\<lparr>proofs := im_insert n ?p (proofs w)\<rparr>) c a = evidence_count w c a" for c a
      using sum_im_insert_gen [OF wf, of "\<lambda>q. int (count_list (proof_evidence (snd q)) (c, a))" n ?p] get
      by (simp add: evidence_count_def)
    moreover have "n < next_node w"
      using live get by (auto simp: live_def ledger_defs dest!: map_of_SomeD)
    ultimately show ?thesis using live
      by (auto simp: live_def ledger_defs holdings_def dest!: im_insert_mem)
  qed
  moreover define upd where
    "upd p w = w\<lparr>proofs := im_insert n (if b then p\<lparr>proof_restricted := True\<rparr> else p) (proofs w)\<rparr>" for p and w :: world
  ultimately have keep: "live d E m w \<Longrightarrow> im_get (proofs w) n = Some p \<Longrightarrow> live d E m (upd p w)" for w p
    by simp
  show ?thesis
    unfolding hoare_def upd_def [symmetric]
  proof (intro allI impI)
    fix w assume live: "live d E m w"
    show "abind (get_proof n) (\<lambda>p. abind (aread (\<lambda>_. chk p)) (\<lambda>_. abind (amodify (upd p)) k)) w \<noteq> Panics \<and>
      (\<forall>x w'. abind (get_proof n) (\<lambda>p. abind (aread (\<lambda>_. chk p)) (\<lambda>_. abind (amodify (upd p)) k)) w = Ok (x, w') \<longrightarrow> R x w')"
    proof (cases "im_get (proofs w) n")
      case (Some p)
      then show ?thesis
        using chk [of p] assms(2) keep [OF live Some] unfolding hoare_def
        by (cases "chk p") (auto simp: abind_def get_proof_def aread_def amodify_def)
    qed (simp add: abind_def get_proof_def aread_def)
  qed
qed

lemma hoare_lock_all:
  assumes "\<And>c a. (c, a) \<in> set xs \<Longrightarrow> 0 \<le> a \<and> atom_unit m dvd a"
    and "hoare (live d (rev xs @ E) m) (k ()) R"
  shows "hoare (live d E m) (abind (aforeach lock_container xs) k) R"
  using assms
proof (induction xs arbitrary: E)
  case (Cons x xs)
  obtain c a where x: "x = (c, a)" by (cases x)
  have a: "0 \<le> a" "atom_unit m dvd a" using Cons.prems(1) [of c a] by (simp_all add: x)
  have "hoare (live d ((c, a) # E) m) (abind (aforeach lock_container xs) k) R"
    using Cons.prems by (intro Cons.IH) (auto simp: x)
  then show ?case using a
    by (cases c) (auto simp: x abind_assoc intro!: act_rules)
qed simp

lemma hoare_unlock_all:
  assumes "0 \<le> d" and "hoare (live d E m) (k ()) R"
  shows "hoare (live d (xs @ E) m) (abind (aforeach unlock_container xs) k) R"
proof (induction xs)
  case (Cons x xs)
  obtain c a where x: "x = (c, a)" by (cases x)
  show ?case using Cons assms(1) by (cases c) (auto simp: x abind_assoc intro!: act_rules)
qed (simp add: assms(2))

lemma hoare_set_total_supply [act_rules]:
  assumes "rm_track_total_supply m" and "\<And>s. new = Some s \<Longrightarrow> s \<le> dec_max"
    and "\<And>s. new = Some s \<Longrightarrow>
      hoare (live (d + (s - rm_total_supply m)) E (m\<lparr>rm_total_supply := s\<rparr>)) (k ()) R"
  shows "hoare (live d E m) (abind (set_total_supply new) k) R"
proof (cases new)
  case (Some s)
  have "live (d + (s - rm_total_supply m)) E (m\<lparr>rm_total_supply := s\<rparr>)
      (w\<lparr>manager := (manager w)\<lparr>rm_total_supply := s\<rparr>\<rparr>)" if live: "live d E m w" for w
  proof -
    let ?w = "w\<lparr>manager := (manager w)\<lparr>rm_total_supply := s\<rparr>\<rparr>"
    have "lock_count ?w c a = lock_count w c a" for c a by (cases c) (simp_all add: lock_count_def)
    then show ?thesis using live assms(1,2) Some
      by (auto simp: live_def ledger_defs holdings_def evidence_count_def atom_unit_def)
  qed
  then show ?thesis using assms(3) Some unfolding hoare_def
    by (auto simp: abind_def set_total_supply_def aread_def amodify_def)
qed (simp add: hoare_def abind_def set_total_supply_def aread_def)

lemma lock_count_fee_locks [simp]: "lock_count (w\<lparr>fee_locks := fs\<rparr>) c a = lock_count w c a"
  by (cases c) (simp_all add: lock_count_def)

lemma hoare_system_lock_fee [act_rules]:
  assumes "0 \<le> a" and "hoare (live (d - a) E m) (k ()) R"
  shows "hoare (live d E m) (abind (system_lock_fee n a contingent) k) R"
proof -
  have "live (d - a) E m (w\<lparr>fee_locks := fee_locks w @ [(n, a, contingent)]\<rparr>)" if "live d E m w" for w
    using that assms(1) by (auto simp: live_def ledger_defs holdings_def evidence_count_def)
  then have "hoare (live d E m) (abind (amodify (\<lambda>w. w\<lparr>fee_locks := fee_locks w @ [(n, a, contingent)]\<rparr>))
      (\<lambda>_. abind (emit_event (LockFeeEvent n a)) k)) R"
    by (intro hoare_abind [where Q = "\<lambda>_. live (d - a) E m"] hoare_emit_event)
      (auto simp: hoare_def amodify_def assms(2) [unfolded hoare_def])
  then show ?thesis by (simp add: system_lock_fee_def abind_assoc)
qed

lemma hoare_start_lock_fee [act_rules]:
  assumes "\<And>enabled. hoare (live d E m) (k enabled) R"
  shows "hoare (live d E m) (abind (start_lock_fee n a contingent) k) R"
proof (rule hoare_abind [OF _ assms])
  show "hoare (live d E m) (start_lock_fee n a contingent) (\<lambda>_. live d E m)"
    by (auto simp: hoare_def start_lock_fee_def abind_def aread_def emit_event_def amodify_def areturn_def
        split: if_splits)
qed

lemma hoare_create_vault [act_rules]:
  assumes "\<And>n. hoare (live d E m) (k n) R"
  shows "hoare (live d E m) (abind (\<lambda>w. Ok (next_node w, w\<lparr>
      vaults := im_insert (next_node w) \<lparr>vault_balance = 0, vault_locked = [], vault_frozen = 0\<rparr> (vaults w),
      next_node := next_node w + 1\<rparr>)) k) R"
proof -
  let ?v = "\<lparr>vault_balance = 0, vault_locked = [], vault_frozen = 0\<rparr>"
  let ?upd = "\<lambda>w. w\<lparr>vaults := im_insert (next_node w) ?v (vaults w), next_node := next_node w + 1\<rparr>"
  have "live d E m (?upd w)" if live: "live d E m w" for w
  proof -
    have L: "ledger d E w" using live by (simp add: live_def)
    have h: "holdings (?upd w) = holdings w"
      using L fresh_node(1) [OF L] sum_im_insert_gen [of "vaults w" "\<lambda>p. vault.total (snd p)" "next_node w" ?v]
      by (simp add: holdings_def ledger_defs vault.total_def)
    have "lock_count (?upd w) c x = lock_count w c x" for c x
      using fresh_node(1) [OF L] by (cases c) (auto simp: lock_count_def im_get_or_def)
    then have "locks_backed E (?upd w)" using L by (simp add: ledger_defs evidence_count_def)
    moreover have "\<forall>p \<in> set (vaults (?upd w)). fst p < next_node (?upd w) \<and>
        vault.container_ok (snd p) \<and> vault.divisible (atom_unit (manager (?upd w))) (snd p)"
      using L by (auto simp: ledger_defs vault.container_ok_def vault.divisible_def locks_ok_def less_Suc_eq
          dest!: im_insert_mem)
    ultimately show ?thesis using live h
      by (auto simp: live_def ledger_def objects_ok_def supply_ok_def less_Suc_eq)
  qed
  then show ?thesis
    by (intro hoare_abind [OF _ assms]) (auto simp: hoare_def)
qed

text \<open>
  The end of an operation: as much is in transit as at its start, or, where the supply is not
  tracked, at least as much room is left below the largest Decimal.
\<close>

definition settled :: "int \<Rightarrow> resource_manager \<Rightarrow> world \<Rightarrow> bool" where
  "settled d m w \<longleftrightarrow> ledger d [] w \<and> holdings w + d \<le> dec_max \<and>
     rm_track_total_supply (manager w) = rm_track_total_supply m"

lemma hoare_end:
  assumes "d' = d \<or> \<not> rm_track_total_supply m \<and> d \<le> d'" and "rm_track_total_supply m' = rm_track_total_supply m"
  shows "hoare (live d' [] m') (areturn x) (\<lambda>_. settled d m)"
  by (rule hoare_areturn) (use assms in \<open>auto simp: settled_def live_def ledger_defs\<close>)

lemma check_amount:
  "ensure (check_fungible_amount a (rm_divisibility m)) e = Inr u \<Longrightarrow> 0 \<le> a \<and> atom_unit m dvd a"
  by (auto simp: ensure_eq_Inr_iff check_fungible_amount_def atom_unit_def dvd_eq_mod_eq_0)

lemma check_mint_amount_Ok:
  "check_mint_amount (rm_divisibility m) a = Inr u \<Longrightarrow> 0 \<le> a \<and> atom_unit m dvd a \<and> a \<le> 2 ^ 152"
  by (auto simp: check_mint_amount_def check_fungible_amount_def atom_unit_def dvd_eq_mod_eq_0
      MAX_MINT_AMOUNT_def split: if_splits)

lemma checks_no_panic [simp]:
  "ensure b e \<noteq> Panics"
  "check_mint_amount dv a \<noteq> Panics"
  "assert_mintable m \<noteq> Panics"
  "assert_burnable m \<noteq> Panics"
  "vault_assert_not_frozen fl m v \<noteq> Panics"
  "vault_assert_freezable m \<noteq> Panics"
  "vault_assert_recallable m \<noteq> Panics"
  "map_err f (proof_substate_new t ev) \<noteq> Panics"
  "vault_get_amount v \<noteq> Panics"
  "bucket_get_amount bk \<noteq> Panics"
  by (simp_all add: ensure_def check_mint_amount_def assert_mintable_def assert_burnable_def
      vault_assert_not_frozen_def vault_assert_freezable_def vault_assert_recallable_def proof_substate_new_def
      vault_get_amount_def bucket_get_amount_def)

lemma for_withdrawal_no_panic:
  "is_decimal a \<Longrightarrow> dv \<le> 18 \<Longrightarrow> for_withdrawal a dv strategy \<noteq> Panics"
  using dec.checked_round_no_panic [of a "int dv"]
  by (cases strategy) (auto simp: dec_checked_round_def)

section \<open>Every operation keeps the books\<close>

lemma abind_if: "abind (if c then p else q) k = (if c then abind p k else abind q k)"
  by simp

lemma hoare_if [act_rules]:
  "(c \<Longrightarrow> hoare P p R) \<Longrightarrow> (\<not> c \<Longrightarrow> hoare P q R) \<Longrightarrow> hoare P (if c then p else q) R"
  by simp

lemma is_decimal_le_max: "is_decimal x \<Longrightarrow> x \<le> dec_max"
  by (simp add: range_simps dec_max_def)

lemmas op_shape = abind_assoc abind_if abind_return

lemma mint_hoare:
  assumes "0 \<le> d"
  shows "hoare (live d [] m) (mint amount) (\<lambda>_. settled (if rm_track_total_supply m then d else d - MAX_MINT_AMOUNT) m)"
  unfolding mint_def op_shape
  by (intro act_rules hoare_end)
    (use assms in \<open>auto dest: check_mint_amount_Ok is_decimal_le_max simp: dec_iffs MAX_MINT_AMOUNT_def\<close>)

lemma burn_internal_hoare:
  assumes "0 \<le> d"
  shows "hoare (live d [] m) (burn_internal bucket) (\<lambda>_. settled d m)"
  unfolding burn_internal_def
  by (rule hoare_last, unfold op_shape, intro act_rules hoare_end)
    (use assms in \<open>auto dest: is_decimal_le_max simp: dec_iffs\<close>)

lemma drop_empty_bucket_hoare: "0 \<le> d \<Longrightarrow> hoare (live d [] m) (drop_empty_bucket bucket) (\<lambda>_. settled d m)"
  unfolding drop_empty_bucket_def
  by (rule hoare_last, unfold op_shape, intro act_rules hoare_end) (auto split: if_splits)

lemma create_empty_bucket_hoare: "0 \<le> d \<Longrightarrow> hoare (live d [] m) create_empty_bucket (\<lambda>_. settled d m)"
  unfolding create_empty_bucket_def by (rule hoare_last, intro act_rules hoare_end) auto

lemma create_empty_vault_hoare: "0 \<le> d \<Longrightarrow> hoare (live d [] m) create_empty_vault (\<lambda>_. settled d m)"
  unfolding create_empty_vault_def by (intro act_rules hoare_end) auto

lemma vault_take_advanced_hoare:
  assumes "is_decimal amount" and "0 \<le> d"
  shows "hoare (live d [] m) (vault_take_advanced n amount strategy) (\<lambda>_. live d [] m)"
proof -
  have "hoare (live d [] m) (vault_take_advanced n amount strategy) (\<lambda>_. live d [] m)" if "rm_divisibility m \<le> 18"
    unfolding vault_take_advanced_def
    using for_withdrawal_no_panic [OF assms(1) that] assms(2)
    by (intro act_rules hoare_areturn) (auto dest: check_amount intro!: map_err_no_panic)
  moreover have "rm_divisibility m \<le> 18" if "live d [] m w" for w
    using that by (auto simp: live_def ledger_def)
  ultimately show ?thesis unfolding hoare_def by blast
qed

lemma vault_put_hoare: "0 \<le> d \<Longrightarrow> hoare (live d [] m) (vault_put n bucket) (\<lambda>_. settled d m)"
  unfolding vault_put_def
  by (rule hoare_last, unfold op_shape, intro act_rules hoare_end) auto

lemma live_settled: "live d [] m w \<Longrightarrow> settled d m w"
  by (simp add: live_def settled_def)

lemma vault_take_hoare:
  assumes "is_decimal amount" and "0 \<le> d"
  shows "hoare (live d [] m) (vault_take_advanced n amount strategy) (\<lambda>_. settled d m)"
  by (rule hoare_weaken [OF vault_take_advanced_hoare [OF assms]]) (rule live_settled)

lemma vault_lock_fee_hoare: "0 \<le> d \<Longrightarrow> hoare (live d [] m) (vault_lock_fee n amount contingent) (\<lambda>_. settled d m)"
  unfolding vault_lock_fee_def
  by (rule hoare_last, unfold op_shape, intro act_rules hoare_end) (auto dest: check_amount)

lemma vault_recall_hoare: "0 \<le> d \<Longrightarrow> hoare (live d [] m) (vault_recall n amount) (\<lambda>_. settled d m)"
  unfolding vault_recall_def by (intro act_rules hoare_end) (auto dest: check_amount)

lemma vault_freeze_hoare: "0 \<le> d \<Longrightarrow> hoare (live d [] m) (vault_freeze n flags) (\<lambda>_. settled d m)"
  unfolding vault_freeze_def by (rule hoare_last, unfold op_shape, intro act_rules hoare_end) auto

lemma vault_unfreeze_hoare: "0 \<le> d \<Longrightarrow> hoare (live d [] m) (vault_unfreeze n flags) (\<lambda>_. settled d m)"
  unfolding vault_unfreeze_def by (rule hoare_last, unfold op_shape, intro act_rules hoare_end) auto

lemma proof_substate_new_Ok:
  "map_err f (proof_substate_new t ev) = Inr p \<Longrightarrow> proof_evidence p = ev \<and> t \<noteq> 0"
  by (auto simp: map_err_eq_Inr_iff proof_substate_new_def split: if_splits)

lemma hoare_new_single_proof [act_rules]:
  assumes "proof_evidence p = [(c, a)]" and "\<And>n. hoare (live d E m) (k n) R"
  shows "hoare (live d ((c, a) # E) m) (abind (new_proof p) k) R"
  using hoare_new_proof [of d E m k R p] assms by simp

lemma vault_create_proof_hoare:
  "0 \<le> d \<Longrightarrow> hoare (live d [] m) (vault_create_proof_of_amount n amount) (\<lambda>_. settled d m)"
  unfolding vault_create_proof_of_amount_def
  by (rule hoare_last, unfold op_shape, intro act_rules hoare_end)
    (auto dest: check_amount proof_substate_new_Ok)

lemma vault_burn_hoare:
  assumes "is_decimal amount" and "0 \<le> d"
  shows "hoare (live d [] m) (vault_burn n amount) (\<lambda>_. settled d m)"
  unfolding vault_burn_def vault_take_def
  by (intro act_rules hoare_abind [OF vault_take_advanced_hoare [OF assms]] burn_internal_hoare)
    (use assms(2) in auto)

lemma bucket_take_advanced_hoare:
  assumes "is_decimal amount" and "0 \<le> d"
  shows "hoare (live d [] m) (bucket_take_advanced n amount strategy) (\<lambda>_. settled d m)"
proof -
  have "hoare (live d [] m) (bucket_take_advanced n amount strategy) (\<lambda>_. settled d m)" if "rm_divisibility m \<le> 18"
    unfolding bucket_take_advanced_def
    using for_withdrawal_no_panic [OF assms(1) that] assms(2)
    by - (rule hoare_last, unfold op_shape, intro act_rules hoare_end,
      auto dest: check_amount intro!: map_err_no_panic)
  moreover have "rm_divisibility m \<le> 18" if "live d [] m w" for w
    using that by (auto simp: live_def ledger_def)
  ultimately show ?thesis unfolding hoare_def by blast
qed

lemma bucket_put_hoare: "0 \<le> d \<Longrightarrow> hoare (live d [] m) (bucket_put n bucket) (\<lambda>_. settled d m)"
  unfolding bucket_put_def
  by (rule hoare_last, unfold op_shape, intro act_rules hoare_end) auto

lemma bucket_create_proof_hoare:
  "0 \<le> d \<Longrightarrow> hoare (live d [] m) (bucket_create_proof_of_amount n amount) (\<lambda>_. settled d m)"
  unfolding bucket_create_proof_of_amount_def
  by (rule hoare_last, unfold op_shape, intro act_rules hoare_end)
    (auto dest: check_amount proof_substate_new_Ok)

lemma bucket_create_proof_of_all_hoare:
  "0 \<le> d \<Longrightarrow> hoare (live d [] m) (bucket_create_proof_of_all n) (\<lambda>_. settled d m)"
  unfolding bucket_create_proof_of_all_def
  by (intro hoare_peek_bucket hoare_check bucket_create_proof_hoare) simp_all

lemma proof_clone_hoare: "0 \<le> d \<Longrightarrow> hoare (live d [] m) (proof_clone n) (\<lambda>_. settled d m)"
proof -
  have "live d (rev ev @ E) m = live d (ev @ E) m" for ev E
    by (simp add: fun_eq_iff live_def ledger_defs)
  then show ?thesis
    unfolding proof_clone_def
    by - (rule hoare_last, unfold op_shape, rule hoare_peek_proof, rule hoare_lock_all, blast,
      simp only:, intro act_rules hoare_end, simp_all)
qed

lemma proof_drop_hoare: "0 \<le> d \<Longrightarrow> hoare (live d [] m) (proof_drop n) (\<lambda>_. settled d m)"
  unfolding proof_drop_def
  by (rule hoare_last, unfold op_shape, intro hoare_take_proof hoare_unlock_all hoare_end) auto

lemma proof_on_move_hoare:
  "0 \<le> d \<Longrightarrow> hoare (live d [] m) (proof_on_move n down barrier self auth_zone) (\<lambda>_. settled d m)"
  unfolding proof_on_move_def
  by (rule hoare_last, unfold op_shape, intro hoare_if hoare_restrict_proof hoare_end) auto

section \<open>Sequences of operations\<close>

datatype resource_op =
    Mint decimal
  | Burn node
  | DropEmptyBucket node
  | CreateEmptyBucket
  | CreateEmptyVault
  | VaultTake node decimal withdraw_strategy
  | VaultPut node node
  | VaultLockFee node decimal bool
  | VaultRecall node decimal
  | VaultFreeze node "32 word"
  | VaultUnfreeze node "32 word"
  | VaultCreateProof node decimal
  | VaultBurn node decimal
  | BucketTake node decimal withdraw_strategy
  | BucketPut node node
  | BucketCreateProof node decimal
  | BucketCreateProofOfAll node
  | ProofClone node
  | ProofDrop node
  | ProofMove node bool bool bool bool

definition discard :: "'a act \<Rightarrow> unit act" where
  "discard m = abind m (\<lambda>_. areturn ())"

fun run_resource_op :: "resource_op \<Rightarrow> unit act" where
  "run_resource_op (Mint a) = discard (mint a)"
| "run_resource_op (Burn b) = burn_internal b"
| "run_resource_op (DropEmptyBucket b) = drop_empty_bucket b"
| "run_resource_op CreateEmptyBucket = discard create_empty_bucket"
| "run_resource_op CreateEmptyVault = discard create_empty_vault"
| "run_resource_op (VaultTake n a s) = discard (vault_take_advanced n a s)"
| "run_resource_op (VaultPut n b) = vault_put n b"
| "run_resource_op (VaultLockFee n a c) = vault_lock_fee n a c"
| "run_resource_op (VaultRecall n a) = discard (vault_recall n a)"
| "run_resource_op (VaultFreeze n f) = vault_freeze n f"
| "run_resource_op (VaultUnfreeze n f) = vault_unfreeze n f"
| "run_resource_op (VaultCreateProof n a) = discard (vault_create_proof_of_amount n a)"
| "run_resource_op (VaultBurn n a) = vault_burn n a"
| "run_resource_op (BucketTake n a s) = discard (bucket_take_advanced n a s)"
| "run_resource_op (BucketPut n b) = bucket_put n b"
| "run_resource_op (BucketCreateProof n a) = discard (bucket_create_proof_of_amount n a)"
| "run_resource_op (BucketCreateProofOfAll n) = discard (bucket_create_proof_of_all n)"
| "run_resource_op (ProofClone p) = discard (proof_clone p)"
| "run_resource_op (ProofDrop p) = proof_drop p"
| "run_resource_op (ProofMove p down barrier self auth_zone) = proof_on_move p down barrier self auth_zone"

text \<open>The amounts callers pass are Decimals.\<close>

fun resource_op_ok :: "resource_op \<Rightarrow> bool" where
  "resource_op_ok (VaultTake n a s) \<longleftrightarrow> is_decimal a"
| "resource_op_ok (VaultBurn n a) \<longleftrightarrow> is_decimal a"
| "resource_op_ok (BucketTake n a s) \<longleftrightarrow> is_decimal a"
| "resource_op_ok _ \<longleftrightarrow> True"

definition resource_init :: "world \<Rightarrow> bool" where
  "resource_init w \<longleftrightarrow>
     (\<exists>m costing stack. new_resource m costing stack = Ok w) \<or>
     (\<exists>m costing stack supply b. create_with_initial_supply m costing stack supply = Ok (b, w))"

text \<open>
  A step is a successful operation; a failed one is rolled back with its transaction. When the
  total supply is not tracked nothing in the code bounds the sum of all mints, so the steps are
  those that keep the amount in existence within a Decimal.
\<close>

inductive resource_step :: "world \<Rightarrow> world \<Rightarrow> bool" where
  resource_call: "resource_op_ok op \<Longrightarrow> run_resource_op op w = Ok ((), w') \<Longrightarrow>
    holdings w' \<le> dec_max \<Longrightarrow> resource_step w w'"

inductive_cases resource_stepE: "resource_step w w'"

definition resource_inv :: "world \<Rightarrow> bool" where
  "resource_inv w \<longleftrightarrow> ledger 0 [] w \<and> holdings w \<le> dec_max"

lemma resource_inv_live: "resource_inv w \<longleftrightarrow> live 0 [] (manager w) w"
  by (simp add: resource_inv_def live_def)

lemma discard_hoare: "hoare P m (\<lambda>_. Q) \<Longrightarrow> hoare P (discard m) (\<lambda>_. Q)"
  unfolding discard_def by (rule hoare_abind) (auto intro: hoare_areturn)

definition is_mint :: "resource_op \<Rightarrow> bool" where
  "is_mint op = (case op of Mint _ \<Rightarrow> True | _ \<Rightarrow> False)"

lemma run_resource_op_settles:
  assumes "resource_op_ok op" and "0 \<le> d"
  shows "hoare (live d [] m) (run_resource_op op)
    (\<lambda>_. settled (if is_mint op \<and> \<not> rm_track_total_supply m then d - MAX_MINT_AMOUNT else d) m)"
proof (cases op)
  case (Mint a)
  show ?thesis using discard_hoare [OF mint_hoare [OF assms(2), of m a]]
    by (cases "rm_track_total_supply m") (simp_all add: Mint is_mint_def)
qed (use assms in \<open>auto simp: is_mint_def intro: discard_hoare burn_internal_hoare drop_empty_bucket_hoare
      create_empty_bucket_hoare create_empty_vault_hoare vault_take_hoare vault_put_hoare
      vault_lock_fee_hoare vault_recall_hoare vault_freeze_hoare vault_unfreeze_hoare
      vault_create_proof_hoare vault_burn_hoare bucket_take_advanced_hoare bucket_put_hoare
      bucket_create_proof_hoare bucket_create_proof_of_all_hoare proof_clone_hoare proof_drop_hoare
      proof_on_move_hoare\<close>)

lemma run_resource_op_hoare:
  assumes "resource_op_ok op"
  shows "hoare (live 0 [] m) (run_resource_op op) (\<lambda>_. ledger 0 [])"
proof (rule hoare_weaken [OF run_resource_op_settles [OF assms order_refl]])
  fix w assume "settled (if is_mint op \<and> \<not> rm_track_total_supply m then 0 - MAX_MINT_AMOUNT else 0) m w"
  then show "ledger 0 [] w" by (auto simp: settled_def ledger_defs split: if_splits)
qed

lemma new_resource_live:
  assumes "new_resource m costing stack = Ok w"
  shows "live 0 [] (m\<lparr>rm_total_supply := 0\<rparr>) w"
proof -
  have w: "w = \<lparr>manager = m\<lparr>rm_total_supply := 0\<rparr>, vaults = [], buckets = [], proofs = [], next_node = 0,
         events = [], fee_locks = [], costing_enabled = costing, stack_id = stack\<rparr>"
    and dv: "rm_divisibility m \<le> 18"
    using assms by (auto simp: new_resource_def verify_divisibility_def res_iffs split: if_splits)
  have "lock_count w c a = 0" for c a
    by (cases c) (simp_all add: w lock_count_def im_get_or_def)
  then show ?thesis
    using dv by (simp add: live_def ledger_defs w holdings_def evidence_count_def dec_max_def range_simps)
qed

lemma initial_supply_live:
  assumes "create_with_initial_supply m costing stack supply = Ok (b, w)"
  shows "resource_inv w"
proof -
  obtain w0 where new: "new_resource m costing stack = Ok w0"
    and chk: "check_mint_amount (rm_divisibility m) supply = Ok ()"
    and run: "abind (create_bucket supply) (\<lambda>bucket.
       abind (emit_event (MintFungibleResourceEvent supply)) (\<lambda>_. areturn bucket))
         (w0\<lparr>manager := m\<lparr>rm_total_supply := supply\<rparr>\<rparr>) = Ok (b, w)"
    using assms by (auto simp: create_with_initial_supply_def res_iffs)
  have sup: "0 \<le> supply" "atom_unit m dvd supply" "supply \<le> dec_max"
    using check_mint_amount_Ok [OF chk] by (auto simp: dec_max_def range_simps)
  have l0: "live 0 [] (m\<lparr>rm_total_supply := 0\<rparr>) w0" by (rule new_resource_live [OF new])
  have h0: "holdings w0 = 0"
    using new by (auto simp: new_resource_def res_iffs holdings_def)
  have "lock_count (w0\<lparr>manager := x\<rparr>) c a = lock_count w0 c a" for c a x
    by (cases c) (simp_all add: lock_count_def)
  then have l1: "live supply [] (m\<lparr>rm_total_supply := supply\<rparr>) (w0\<lparr>manager := m\<lparr>rm_total_supply := supply\<rparr>\<rparr>)"
    using l0 h0 sup(3)
    by (auto simp: live_def ledger_defs holdings_def evidence_count_def atom_unit_def)
  have h1: "hoare (live supply [] (m\<lparr>rm_total_supply := supply\<rparr>)) (abind (create_bucket supply) (\<lambda>bucket.
       abind (emit_event (MintFungibleResourceEvent supply)) (\<lambda>_. areturn bucket)))
       (\<lambda>_. live 0 [] (m\<lparr>rm_total_supply := supply\<rparr>))"
    by (intro act_rules hoare_areturn) (use sup in \<open>auto simp: atom_unit_def\<close>)
  show ?thesis using hoareD [OF h1 l1 run] by (simp add: resource_inv_def live_def)
qed

interpretation resource: invariant_of resource_init resource_step resource_inv
proof
  show "resource_inv w" if "resource_init w" for w
    using that initial_supply_live new_resource_live
    by (force simp: resource_init_def resource_inv_def live_def)
  show "resource_inv w'" if "resource_inv w" "resource_step w w'" for w w'
    using that hoareD [OF run_resource_op_hoare]
    by (force elim!: resource_stepE simp: resource_inv_live [of w] resource_inv_def [of w'])
qed

abbreviation resource_reachable :: "world \<Rightarrow> bool" where
  "resource_reachable \<equiv> reach resource_init resource_step"

text \<open>
  The runs of a resource, with whether its supply is tracked and the number of its mints, the initial
  supply included. They have no condition on amounts: a single mint is bounded by
  \<^verbatim>\<open>MAX_MINT_AMOUNT\<close>, so the number of mints bounds what is in existence.
\<close>

inductive resource_run :: "bool \<Rightarrow> nat \<Rightarrow> world \<Rightarrow> bool" where
  run_new: "new_resource m costing stack = Ok w \<Longrightarrow> resource_run (rm_track_total_supply m) 0 w"
| run_supply: "create_with_initial_supply m costing stack supply = Ok (b, w) \<Longrightarrow>
    resource_run (rm_track_total_supply m) 1 w"
| run_op: "resource_run t n w \<Longrightarrow> resource_op_ok op \<Longrightarrow> run_resource_op op w = Ok ((), w') \<Longrightarrow>
    resource_run t (if is_mint op then Suc n else n) w'"

text \<open>What such a run may hold: a tracked supply is a Decimal, an untracked one the mints so far.\<close>

definition room :: "bool \<Rightarrow> nat \<Rightarrow> int" where
  "room t n = (if t then 0 else dec_max - int n * MAX_MINT_AMOUNT)"

definition run_inv :: "bool \<Rightarrow> nat \<Rightarrow> world \<Rightarrow> bool" where
  "run_inv t n w \<longleftrightarrow> ledger 0 [] w \<and> rm_track_total_supply (manager w) = t \<and> holdings w + room t n \<le> dec_max"

lemma room_nonneg: "t \<or> n < 2 ^ 39 \<Longrightarrow> 0 \<le> room t n"
  by (auto simp: room_def MAX_MINT_AMOUNT_def dec_max_def range_simps)

lemma run_inv_live: "run_inv t n w \<Longrightarrow> live (room t n) [] (manager w) w"
  by (auto simp: run_inv_def live_def ledger_defs room_def)

lemma initial_supply_holdings:
  assumes "create_with_initial_supply m costing stack supply = Ok (b, w)"
  shows "holdings w \<le> MAX_MINT_AMOUNT" "rm_track_total_supply (manager w) = rm_track_total_supply m"
proof -
  obtain w0 where new: "new_resource m costing stack = Ok w0" and chk: "check_mint_amount (rm_divisibility m) supply = Ok ()"
    and w: "w = w0\<lparr>manager := m\<lparr>rm_total_supply := supply\<rparr>,
      buckets := im_insert (next_node w0) \<lparr>bucket_liquid = supply, bucket_locked = []\<rparr> (buckets w0),
      next_node := next_node w0 + 1, events := events w0 @ [MintFungibleResourceEvent supply]\<rparr>"
    using assms by (auto simp: create_with_initial_supply_def create_bucket_def emit_event_def action_iffs res_iffs)
  have "holdings w = supply"
    using new by (auto simp: w new_resource_def res_iffs holdings_def bucket.total_def locked_amount_def)
  then show "holdings w \<le> MAX_MINT_AMOUNT" using check_mint_amount_Ok [OF chk] by (simp add: MAX_MINT_AMOUNT_def)
  show "rm_track_total_supply (manager w) = rm_track_total_supply m" by (simp add: w)
qed

lemma resource_run_inv: "resource_run t n w \<Longrightarrow> t \<or> n < 2 ^ 39 \<Longrightarrow> run_inv t n w"
proof (induction rule: resource_run.induct)
  case (run_new m costing stack w)
  have "holdings w = 0" "rm_track_total_supply (manager w) = rm_track_total_supply m"
    using run_new.hyps by (auto simp: new_resource_def res_iffs holdings_def)
  then show ?case using new_resource_live [OF run_new.hyps] by (auto simp: run_inv_def live_def room_def dec_max_def range_simps)
next
  case (run_supply m costing stack x b w)
  have "resource_inv w" by (rule initial_supply_live [OF run_supply.hyps])
  then show ?case using initial_supply_holdings [OF run_supply.hyps] by (auto simp: run_inv_def resource_inv_def room_def)
next
  case (run_op t n w op w')
  have bound: "t \<or> n < 2 ^ 39" using run_op.prems by (auto split: if_splits)
  then have inv: "run_inv t n w" by (rule run_op.IH)
  have "settled (if is_mint op \<and> \<not> rm_track_total_supply (manager w) then room t n - MAX_MINT_AMOUNT else room t n) (manager w) w'"
    using hoareD [OF run_resource_op_settles [OF run_op.hyps(2) room_nonneg [OF bound]] run_inv_live [OF inv] run_op.hyps(3)] .
  moreover have "rm_track_total_supply (manager w) = t" using inv by (simp add: run_inv_def)
  ultimately show ?case
    by (auto simp: run_inv_def settled_def room_def ledger_defs algebra_simps split: if_splits)
qed

text \<open>Locks of live evidence can always be released.\<close>

lemma unlock_container_succeeds:
  assumes live: "live 0 (x # E) m w"
  shows "\<exists>w'. unlock_container x w = Ok ((), w')"
proof -
  obtain c a where x: "x = (c, a)" by (cases x)
  have pos: "0 < lock_count w c a" using backed_lock [OF live, of c a] by (simp add: x)
  show ?thesis
  proof (cases c)
    case (VaultRef n)
    obtain v where get: "im_get (vaults w) n = Some v"
      using pos by (auto simp: VaultRef lock_count_def im_get_or_def split: option.splits)
    moreover obtain v' where "vault_unlock_amount a v = Ok v'"
      using vault.unlock_locked [OF live_vault_ok [OF live get], of a] vault_total_bound [OF live get] pos
        lock_count_get(1) [OF get] by (auto simp: VaultRef)
    ultimately show ?thesis
      by (simp add: x VaultRef on_vault_def abind_def get_vault_def aread_def set_vault_def amodify_def)
  next
    case (BucketRef n)
    obtain b where get: "im_get (buckets w) n = Some b"
      using pos by (auto simp: BucketRef lock_count_def im_get_or_def split: option.splits)
    moreover obtain b' where "bucket_unlock_amount a b = Ok b'"
      using bucket.unlock_locked [OF live_bucket_ok [OF live get], of a] bucket_total_bound [OF live get] pos
        lock_count_get(2) [OF get] by (auto simp: BucketRef)
    ultimately show ?thesis
      by (simp add: x BucketRef on_bucket_def abind_def get_bucket_def aread_def set_bucket_def amodify_def)
  qed
qed

lemma unlock_container_live:
  "hoare (live 0 (x # E) m) (unlock_container x) (\<lambda>_. live 0 E m)"
proof -
  obtain c a where x: "x = (c, a)" by (cases x)
  show ?thesis unfolding x
    by (rule hoare_last, cases c; simp only: unlock_container.simps)
      (intro act_rules hoare_areturn, simp_all)+
qed

lemma unlock_all_succeeds: "live 0 (xs @ E) m w \<Longrightarrow> \<exists>w'. aforeach unlock_container xs w = Ok ((), w')"
proof (induction xs arbitrary: w)
  case (Cons x xs)
  obtain w1 where w1: "unlock_container x w = Ok ((), w1)"
    using unlock_container_succeeds Cons.prems by fastforce
  have "live 0 (xs @ E) m w1" using hoareD [OF unlock_container_live _ w1] Cons.prems by simp
  then show ?case using Cons.IH [of w1] w1 by (simp add: abind_def)
qed (simp add: areturn_def)

lemma proof_evidence_live:
  assumes live: "live 0 [] m w" and get: "im_get (proofs w) n = Some p"
  shows "live 0 (proof_evidence p) m (w\<lparr>proofs := im_swap_remove n (proofs w)\<rparr>)"
proof -
  have h: "hoare (live 0 [] m) (abind (get_proof n) (\<lambda>p. abind (amodify
      (\<lambda>w. w\<lparr>proofs := im_swap_remove n (proofs w)\<rparr>)) (\<lambda>_. areturn p))) (\<lambda>p. live 0 (proof_evidence p) m)"
    by (rule hoare_take_proof) (rule hoare_areturn, simp)
  have "abind (get_proof n) (\<lambda>p. abind (amodify
      (\<lambda>w. w\<lparr>proofs := im_swap_remove n (proofs w)\<rparr>)) (\<lambda>_. areturn p)) w =
      Ok (p, w\<lparr>proofs := im_swap_remove n (proofs w)\<rparr>)"
    using get by (simp add: abind_def get_proof_def aread_def amodify_def areturn_def)
  then show ?thesis by (rule hoareD [OF h live])
qed

lemma proof_drop_succeeds:
  assumes "live 0 [] m w" and "im_get (proofs w) n = Some p"
  shows "\<exists>w'. proof_drop n w = Ok ((), w')"
  using unlock_all_succeeds [of "proof_evidence p" "[]" m "w\<lparr>proofs := im_swap_remove n (proofs w)\<rparr>"]
    proof_evidence_live [OF assms] assms(2)
  by (simp add: proof_drop_def abind_def get_proof_def aread_def amodify_def)

lemma evidence_locked:
  assumes live: "live 0 [] m w" and get: "im_get (proofs w) n = Some p"
    and mem: "(c, a) \<in> set (proof_evidence p)"
  shows "a \<le> locked_amount (container_locks w c)"
proof -
  let ?w = "w\<lparr>proofs := im_swap_remove n (proofs w)\<rparr>"
  have "0 < count_list (proof_evidence p) (c, a)" using mem by (metis count_list_0_iff neq0_conv)
  then have "0 < lock_count ?w c a" using backed_lock [OF proof_evidence_live [OF live get]] by blast
  then have "0 < lock_count w c a" by simp
  then have "im_get (container_locks w c) a \<noteq> None"
    by (auto simp: lock_count_def im_get_or_def split: option.splits)
  then have "a \<in> fst ` set (container_locks w c)" by (simp add: map_of_eq_None_iff)
  then show ?thesis by (auto simp: locked_amount_Max intro!: Max_ge)
qed

section \<open>A concrete resource\<close>

lemma reachable_tracked:
  assumes "resource_reachable w" and "resource_op_ok op" and "run_resource_op op w = Ok ((), w')"
    and "rm_track_total_supply (manager w')"
  shows "resource_reachable w'"
proof -
  have "live 0 [] (manager w) w" using resource.reach_inv [OF assms(1)] by (simp add: resource_inv_live)
  then have "ledger 0 [] w'" by (rule hoareD [OF run_resource_op_hoare [OF assms(2)] _ assms(3)])
  then have "holdings w' \<le> dec_max" using assms(4) by (simp add: ledger_defs)
  then have "resource_step w w'" by (rule resource_call [OF assms(2,3)])
  then show ?thesis by (rule reach_step [OF assms(1)])
qed

definition demo_manager :: resource_manager where
  "demo_manager = \<lparr>rm_divisibility = 18, rm_total_supply = 100, rm_track_total_supply = True,
     rm_vault_freeze = True, rm_vault_recall = True, rm_mint = True, rm_burn = True, rm_is_xrd = False\<rparr>"

text \<open>One hundred atoms are created, put into vault 1, and 40 of them are locked by proof 2.\<close>

definition demo_created :: world where
  "demo_created = \<lparr>manager = demo_manager, vaults = [],
     buckets = [(0, \<lparr>bucket_liquid = 100, bucket_locked = []\<rparr>)], proofs = [], next_node = 1,
     events = [MintFungibleResourceEvent 100], fee_locks = [], costing_enabled = True, stack_id = 0\<rparr>"

definition demo_deposited :: world where
  "demo_deposited = demo_created\<lparr>
     vaults := [(1, \<lparr>vault_balance = 100, vault_locked = [], vault_frozen = 0\<rparr>)],
     buckets := [], next_node := 2,
     events := [MintFungibleResourceEvent 100, VaultCreationEvent 1, DepositEvent 1 100]\<rparr>"

definition demo_proven :: world where
  "demo_proven = demo_deposited\<lparr>
     vaults := [(1, \<lparr>vault_balance = 60, vault_locked = [(40, 1)], vault_frozen = 0\<rparr>)],
     proofs := [(2, \<lparr>proof_restricted = False, proof_total_locked = 40, proof_evidence = [(VaultRef 1, 40)]\<rparr>)],
     next_node := 3\<rparr>"

lemmas demo_eval = abind_def aread_def amodify_def areturn_def discard_def emit_event_def
  get_vault_def set_vault_def get_bucket_def set_bucket_def get_proof_def get_manager_def on_vault_def
  create_bucket_def create_empty_vault_def drop_fungible_bucket_def is_locked_def vault_put_def
  vault_assert_not_frozen_def vault_internal_put_def vault_internal_take_def liquid_put_def
  liquid_take_by_amount_def dec_checked_add_def dec_checked_sub_def i_checked_ops
  vault_create_proof_of_amount_def vault_lock_amount_def locks_add_def locked_amount_def
  check_fungible_amount_def proof_substate_new_def new_proof_def im_replace_last_def im_get_or_def
  demo_manager_def

lemma demo_created_reachable: "resource_reachable demo_created"
proof -
  have "create_with_initial_supply demo_manager True 0 100 = Ok (0, demo_created)"
    by (simp add: create_with_initial_supply_def new_resource_def verify_divisibility_def check_mint_amount_def
        MAX_MINT_AMOUNT_def demo_created_def demo_eval)
  then show ?thesis by (intro reach_init) (auto simp: resource_init_def)
qed

lemma demo_deposited_reachable: "resource_reachable demo_deposited"
proof -
  let ?w = "demo_created\<lparr>vaults := [(1, \<lparr>vault_balance = 0, vault_locked = [], vault_frozen = 0\<rparr>)],
     next_node := 2, events := [MintFungibleResourceEvent 100, VaultCreationEvent 1]\<rparr>"
  have 1: "run_resource_op CreateEmptyVault demo_created = Ok ((), ?w)"
    by (simp add: demo_created_def demo_eval)
  have r: "resource_reachable ?w"
    by (rule reachable_tracked [OF demo_created_reachable _ 1]) (simp_all add: demo_created_def demo_manager_def)
  have 2: "run_resource_op (VaultPut 1 0) ?w = Ok ((), demo_deposited)"
    by (simp add: demo_created_def demo_deposited_def demo_eval range_simps)
  show ?thesis
    by (rule reachable_tracked [OF r _ 2]) (simp_all add: demo_deposited_def demo_created_def demo_manager_def)
qed

lemma demo_proven_reachable: "resource_reachable demo_proven"
proof -
  have 1: "run_resource_op (VaultCreateProof 1 40) demo_deposited = Ok ((), demo_proven)"
    by (simp add: demo_proven_def demo_deposited_def demo_created_def demo_eval range_simps)
  show ?thesis
    by (rule reachable_tracked [OF demo_deposited_reachable _ 1])
      (simp_all add: demo_proven_def demo_deposited_def demo_created_def demo_manager_def)
qed

section \<open>Properties\<close>

text \<open>
  C1. Conservation of supply: whatever sequence of mints, burns, withdrawals, deposits, recalls,
  fee locks, proofs and drops is performed, when the total supply of a fungible resource is
  tracked it equals the sum of what is in all vaults and buckets (liquid plus locked) and
  what has been locked for fees.
\<close>

theorem total_supply_conserved:
  assumes "resource_reachable w" and "rm_track_total_supply (manager w)"
  shows "rm_total_supply (manager w) = holdings w"
  using resource.reach_inv [OF assms(1)] assms(2) by (simp add: resource_inv_def ledger_defs)

theorem total_supply_conserved_witness: "holdings demo_proven = 100"
  using total_supply_conserved [OF demo_proven_reachable]
  by (simp add: demo_proven_def demo_deposited_def demo_created_def demo_manager_def)

text \<open>
  C13. In every reachable state each vault and bucket holds a non-negative liquid amount, and its
  liquid and locked amounts are multiples of the smallest unit its resource's divisibility allows.
\<close>

theorem containers_well_formed:
  assumes "resource_reachable w"
  shows "(im_get (vaults w) n = Some v \<longrightarrow>
      0 \<le> vault_balance v \<and> 10 ^ (18 - rm_divisibility (manager w)) dvd vault_balance v \<and>
      10 ^ (18 - rm_divisibility (manager w)) dvd locked_amount (vault_locked v)) \<and>
    (im_get (buckets w) n = Some b \<longrightarrow>
      0 \<le> bucket_liquid b \<and> 10 ^ (18 - rm_divisibility (manager w)) dvd bucket_liquid b \<and>
      10 ^ (18 - rm_divisibility (manager w)) dvd locked_amount (bucket_locked b))"
  using resource.reach_inv [OF assms] get_vault_ok [of 0 "[]" w n v] get_bucket_ok [of 0 "[]" w n b]
    locked_amount_dvd [of "vault_locked v"] locked_amount_dvd [of "bucket_locked b"]
  by (simp add: resource_inv_def vault.container_ok_def vault.divisible_def bucket.container_ok_def
      bucket.divisible_def atom_unit_def)

theorem containers_well_formed_witness: "0 \<le> vault_balance (snd (hd (vaults demo_proven)))"
  using containers_well_formed [OF demo_proven_reachable, of 1 "snd (hd (vaults demo_proven))"]
  by (simp add: demo_proven_def)

text \<open>
  C5. Proofs are backed: in every reachable state, every piece of evidence of every live proof names
  a vault or bucket whose locked amount covers it, so proven amounts cannot be withdrawn.
\<close>

theorem proofs_are_backed:
  assumes "resource_reachable w" and "im_get (proofs w) p = Some proof"
    and "(c, amount) \<in> set (proof_evidence proof)"
  shows "amount \<le> locked_amount (container_locks w c)"
  using evidence_locked [OF _ assms(2,3)] resource.reach_inv [OF assms(1)]
  by (simp add: resource_inv_live)

theorem proofs_are_backed_witness: "40 \<le> locked_amount (container_locks demo_proven (VaultRef 1))"
  by (rule proofs_are_backed [OF demo_proven_reachable, of 2
        "\<lparr>proof_restricted = False, proof_total_locked = 40, proof_evidence = [(VaultRef 1, 40)]\<rparr>"])
    (simp_all add: demo_proven_def)

text \<open>
  C6. A live proof can always be dropped: releasing its locks never runs into a missing container, an
  amount that is not locked (the \<^verbatim>\<open>expect\<close> of \<^verbatim>\<open>unlock_amount\<close>) or an overflow.
\<close>

theorem proof_can_be_dropped:
  assumes "resource_reachable w" and "im_get (proofs w) p = Some proof"
  shows "\<exists>w'. proof_drop p w = Ok ((), w')"
  using proof_drop_succeeds [OF _ assms(2)] resource.reach_inv [OF assms(1)]
  by (simp add: resource_inv_live)

theorem proof_can_be_dropped_witness: "\<exists>w'. proof_drop 2 demo_proven = Ok ((), w')"
  by (rule proof_can_be_dropped [OF demo_proven_reachable]) (simp add: demo_proven_def)

text \<open>
  C7. No operation of the fungible blueprints panics: after any run of a resource whose supply is
  tracked, or in which less than \<open>2 ^ 39\<close> mints happened, the \<^verbatim>\<open>expect\<close>s on overflow and on missing locks and the
  rounding of withdrawals are safe, whatever the next operation is. The bound on a single mint
  (\<^verbatim>\<open>MAX_MINT_AMOUNT\<close>) is what keeps an untracked supply within a Decimal.
\<close>

theorem resource_ops_no_panic:
  assumes "resource_run t n w" and "t \<or> n < 2 ^ 39" and "resource_op_ok op"
  shows "run_resource_op op w \<noteq> Panics"
  using hoare_no_panic [OF run_resource_op_settles [OF assms(3) room_nonneg [OF assms(2)]]
    run_inv_live [OF resource_run_inv [OF assms(1,2)]]] .

theorem resource_ops_no_panic_witness:
  "run_resource_op (BucketPut 0 1) (demo_created\<lparr>manager := demo_manager\<lparr>rm_track_total_supply := False\<rparr>,
     buckets := [(0, \<lparr>bucket_liquid = 100, bucket_locked = []\<rparr>), (1, \<lparr>bucket_liquid = 7, bucket_locked = []\<rparr>)],
     next_node := 2, events := [MintFungibleResourceEvent 100, MintFungibleResourceEvent 7]\<rparr>) \<noteq> Panics"
  (is "run_resource_op _ ?w \<noteq> _")
proof (rule resource_ops_no_panic)
  let ?m = "demo_manager\<lparr>rm_track_total_supply := False\<rparr>"
  have "create_with_initial_supply ?m True 0 100 = Ok (0, demo_created\<lparr>manager := ?m\<rparr>)"
    by (simp add: create_with_initial_supply_def new_resource_def verify_divisibility_def check_mint_amount_def
        MAX_MINT_AMOUNT_def demo_created_def demo_eval)
  from run_supply [OF this] have start: "resource_run False 1 (demo_created\<lparr>manager := ?m\<rparr>)" by simp
  have "run_resource_op (Mint 7) (demo_created\<lparr>manager := ?m\<rparr>) = Ok ((), ?w)"
    by (simp add: mint_def check_mint_amount_def MAX_MINT_AMOUNT_def assert_mintable_def demo_created_def demo_eval)
  from run_op [OF start _ this] show "resource_run False 2 ?w" by (simp add: is_mint_def numeral_2_eq_2)
qed simp_all

text \<open>
  C14. A vault whose withdrawal is frozen (in a resource that can be frozen) refuses to be withdrawn
  from and to lock fees whatever the amount, and refuses to burn; freezing sets exactly the
  flags asked for, and unfreezing clears exactly those.
\<close>

theorem frozen_vault_blocks_withdrawal:
  assumes "im_get (vaults w) n = Some v" and "rm_vault_freeze (manager w)"
    and "and (vault_frozen v) WITHDRAW \<noteq> 0"
  shows "vault_take_advanced n amount strategy w = Error (VaultErr VaultIsFrozen) \<and>
    vault_lock_fee n amount contingent w = Error (VaultErr VaultIsFrozen) \<and>
    vault_burn n amount w = Error (VaultErr VaultIsFrozen) \<and>
    (\<exists>w'. vault_freeze n flags w = Ok ((), w') \<and>
       im_get (vaults w') n = Some (v\<lparr>vault_frozen := or (vault_frozen v) flags\<rparr>)) \<and>
    (\<exists>w'. vault_unfreeze n flags w = Ok ((), w') \<and>
       im_get (vaults w') n = Some (v\<lparr>vault_frozen := and (vault_frozen v) (not flags)\<rparr>))"
  using assms
  by (auto simp: vault_take_advanced_def vault_lock_fee_def vault_burn_def vault_take_def vault_freeze_def
      vault_unfreeze_def vault_assert_freezable_def vault_assert_not_frozen_def on_vault_def abind_def
      get_manager_def get_vault_def set_vault_def aread_def amodify_def)

theorem frozen_vault_blocks_withdrawal_witness:
  "vault_take_advanced 7 1 Exact (demo_created\<lparr>vaults := [(7, \<lparr>vault_balance = 5, vault_locked = [],
     vault_frozen = 3\<rparr>)]\<rparr>) = Error (VaultErr VaultIsFrozen)"
  using frozen_vault_blocks_withdrawal [of "demo_created\<lparr>vaults := [(7, \<lparr>vault_balance = 5, vault_locked = [],
     vault_frozen = 3\<rparr>)]\<rparr>" 7 "\<lparr>vault_balance = 5, vault_locked = [], vault_frozen = 3\<rparr>" 1 Exact]
  by (simp add: demo_created_def demo_manager_def)

end
