(* ===== verification/Access_Controller.thy ===== *)
theory Access_Controller
  imports Authorization_Laws Consensus_Clock Fungible_Ledger
begin

text \<open>
  The access controller (\<^verbatim>\<open>blueprints/access_controller\<close>, version 2): the substate with its five
  state machines, every transition of \<^verbatim>\<open>v2/state_machine.rs\<close>, the methods of
  \<^verbatim>\<open>v2/blueprint.rs\<close> and the roles of \<^verbatim>\<open>v2/package.rs\<close>. A call goes through the authorization of
  the system before the method runs, and a confirmed proposal goes through it again, when the
  controller sets its own roles. The controlled asset lives in a vault of any resource, reached
  through the calls of \<^verbatim>\<open>NativeVault\<close>: they are the record \<open>asset_api\<close>, whose laws are the
  locale \<open>vault_contract\<close>. The recovery fee is held in a vault of the fungible resource XRD.
\<close>


section \<open>Data\<close>

record rule_set =
  primary_role :: access_rule
  recovery_role :: access_rule
  confirmation_role :: access_rule

record recovery_proposal =
  proposed_rule_set :: rule_set
  proposed_delay :: "int option"

datatype proposer = Primary | Recovery

datatype access_controller_error =
    OperationRequiresUnlockedPrimaryRole
  | TimeOverflow
  | RecoveryAlreadyExistsForProposer proposer
  | NoRecoveryExistsForProposer proposer
  | BadgeWithdrawAttemptAlreadyExistsForProposer proposer
  | NoBadgeWithdrawAttemptExistsForProposer proposer
  | NoTimedRecoveriesFound
  | TimedRecoveryDelayHasNotElapsed
  | RecoveryProposalMismatch recovery_proposal recovery_proposal
  | NoXrdFeeVault

datatype primary_role_locking_state = Unlocked | Locked

datatype primary_role_recovery_attempt_state =
    PrimaryNoRecoveryAttempt
  | PrimaryRecoveryAttempt recovery_proposal

datatype primary_role_badge_withdraw_attempt_state =
    PrimaryNoBadgeWithdrawAttempt
  | PrimaryBadgeWithdrawAttempt

datatype recovery_role_recovery_state =
    UntimedRecovery recovery_proposal
  | TimedRecovery recovery_proposal instant

datatype recovery_role_recovery_attempt_state =
    RecoveryNoRecoveryAttempt
  | RecoveryRecoveryAttempt recovery_role_recovery_state

datatype recovery_role_badge_withdraw_attempt_state =
    RecoveryNoBadgeWithdrawAttempt
  | RecoveryBadgeWithdrawAttempt

text \<open>The tuple of the five states, and its default.\<close>

record ac_machine =
  m_locking :: primary_role_locking_state
  m_primary_recovery :: primary_role_recovery_attempt_state
  m_primary_withdraw :: primary_role_badge_withdraw_attempt_state
  m_recovery_recovery :: recovery_role_recovery_attempt_state
  m_recovery_withdraw :: recovery_role_badge_withdraw_attempt_state

definition default_machine :: ac_machine where
  "default_machine = \<lparr>m_locking = Unlocked, m_primary_recovery = PrimaryNoRecoveryAttempt,
     m_primary_withdraw = PrimaryNoBadgeWithdrawAttempt, m_recovery_recovery = RecoveryNoRecoveryAttempt,
     m_recovery_withdraw = RecoveryNoBadgeWithdrawAttempt\<rparr>"

record access_controller_v1 =
  v1_controlled_asset :: nat
  v1_timed_recovery_delay :: "int option"
  v1_recovery_badge :: address
  v1_state :: ac_machine

record access_controller_v2 =
  controlled_asset :: nat
  xrd_fee_vault :: "nat option"
  timed_recovery_delay_in_minutes :: "int option"
  recovery_badge :: address
  machine :: ac_machine

definition v2_from_v1 :: "access_controller_v1 \<Rightarrow> access_controller_v2" where
  "v2_from_v1 s = \<lparr>controlled_asset = v1_controlled_asset s, xrd_fee_vault = None,
     timed_recovery_delay_in_minutes = v1_timed_recovery_delay s, recovery_badge = v1_recovery_badge s,
     machine = v1_state s\<rparr>"

datatype ac_field_state = StateV1 access_controller_v1 | StateV2 access_controller_v2

fun latest_version :: "ac_field_state \<Rightarrow> access_controller_v2" where
  "latest_version (StateV1 s) = v2_from_v1 s"
| "latest_version (StateV2 s) = s"


section \<open>Transitions of the state machine\<close>

type_synonym 'a transition = "clock \<Rightarrow> access_controller_v2 \<Rightarrow> (access_controller_error, 'a \<times> access_controller_v2) res"

definition validate_recovery_proposal ::
    "recovery_proposal \<Rightarrow> recovery_proposal \<Rightarrow> (access_controller_error, unit) res" where
  "validate_recovery_proposal expected actual =
     (if expected = actual then Ok () else Error (RecoveryProposalMismatch expected actual))"

definition tr_initiate_recovery_as_primary :: "recovery_proposal \<Rightarrow> unit transition" where
  "tr_initiate_recovery_as_primary p c s =
     (case m_primary_recovery (machine s) of
        PrimaryNoRecoveryAttempt \<Rightarrow>
          Ok ((), s\<lparr>machine := (machine s)\<lparr>m_primary_recovery := PrimaryRecoveryAttempt p\<rparr>\<rparr>)
      | _ \<Rightarrow> Error (RecoveryAlreadyExistsForProposer Primary))"

definition tr_initiate_recovery_as_recovery :: "recovery_proposal \<Rightarrow> unit transition" where
  "tr_initiate_recovery_as_recovery p c s =
     (case m_recovery_recovery (machine s) of
        RecoveryNoRecoveryAttempt \<Rightarrow>
          (case timed_recovery_delay_in_minutes s of
             Some delay_in_minutes \<Rightarrow>
               rbind (ok_or (instant_add_minutes delay_in_minutes (get_current_time PrecisionMinute c)) TimeOverflow)
                 (\<lambda>allowed_after.
               Ok ((), s\<lparr>machine := (machine s)\<lparr>m_recovery_recovery :=
                          RecoveryRecoveryAttempt (TimedRecovery p allowed_after)\<rparr>\<rparr>))
           | None \<Rightarrow>
               Ok ((), s\<lparr>machine := (machine s)\<lparr>m_recovery_recovery :=
                          RecoveryRecoveryAttempt (UntimedRecovery p)\<rparr>\<rparr>))
      | _ \<Rightarrow> Error (RecoveryAlreadyExistsForProposer Recovery))"

definition tr_initiate_badge_withdraw_as_primary :: "unit transition" where
  "tr_initiate_badge_withdraw_as_primary c s =
     (case m_primary_withdraw (machine s) of
        PrimaryNoBadgeWithdrawAttempt \<Rightarrow>
          Ok ((), s\<lparr>machine := (machine s)\<lparr>m_primary_withdraw := PrimaryBadgeWithdrawAttempt\<rparr>\<rparr>)
      | _ \<Rightarrow> Error (BadgeWithdrawAttemptAlreadyExistsForProposer Primary))"

definition tr_initiate_badge_withdraw_as_recovery :: "unit transition" where
  "tr_initiate_badge_withdraw_as_recovery c s =
     (case m_recovery_withdraw (machine s) of
        RecoveryNoBadgeWithdrawAttempt \<Rightarrow>
          Ok ((), s\<lparr>machine := (machine s)\<lparr>m_recovery_withdraw := RecoveryBadgeWithdrawAttempt\<rparr>\<rparr>)
      | _ \<Rightarrow> Error (RecoveryAlreadyExistsForProposer Recovery))"

definition tr_quick_confirm_primary_recovery :: "recovery_proposal \<Rightarrow> recovery_proposal transition" where
  "tr_quick_confirm_primary_recovery to_confirm c s =
     (case m_primary_recovery (machine s) of
        PrimaryRecoveryAttempt p \<Rightarrow>
          rbind (validate_recovery_proposal p to_confirm) (\<lambda>_. Ok (p, s\<lparr>machine := default_machine\<rparr>))
      | _ \<Rightarrow> Error (NoRecoveryExistsForProposer Primary))"

definition tr_quick_confirm_recovery_recovery :: "recovery_proposal \<Rightarrow> recovery_proposal transition" where
  "tr_quick_confirm_recovery_recovery to_confirm c s =
     (case m_recovery_recovery (machine s) of
        RecoveryRecoveryAttempt r \<Rightarrow>
          (let p = (case r of UntimedRecovery p \<Rightarrow> p | TimedRecovery p _ \<Rightarrow> p) in
           rbind (validate_recovery_proposal p to_confirm) (\<lambda>_. Ok (p, s\<lparr>machine := default_machine\<rparr>)))
      | _ \<Rightarrow> Error (NoRecoveryExistsForProposer Recovery))"

definition tr_timed_confirm_recovery :: "recovery_proposal \<Rightarrow> recovery_proposal transition" where
  "tr_timed_confirm_recovery to_confirm c s =
     (case m_recovery_recovery (machine s) of
        RecoveryRecoveryAttempt (TimedRecovery p allowed_after) \<Rightarrow>
          rbind (validate_recovery_proposal p to_confirm) (\<lambda>_.
          let recovery_time_has_elapsed = compare_current_time allowed_after PrecisionMinute TGte c in
          if \<not> recovery_time_has_elapsed then Error TimedRecoveryDelayHasNotElapsed
          else Ok (p, s\<lparr>machine := default_machine\<rparr>))
      | _ \<Rightarrow> Error NoTimedRecoveriesFound)"

definition tr_cancel_primary_recovery :: "unit transition" where
  "tr_cancel_primary_recovery c s =
     (case m_primary_recovery (machine s) of
        PrimaryRecoveryAttempt _ \<Rightarrow>
          Ok ((), s\<lparr>machine := (machine s)\<lparr>m_primary_recovery := PrimaryNoRecoveryAttempt\<rparr>\<rparr>)
      | _ \<Rightarrow> Error (NoRecoveryExistsForProposer Primary))"

definition tr_cancel_recovery_recovery :: "unit transition" where
  "tr_cancel_recovery_recovery c s =
     (case m_recovery_recovery (machine s) of
        RecoveryRecoveryAttempt _ \<Rightarrow>
          Ok ((), s\<lparr>machine := (machine s)\<lparr>m_recovery_recovery := RecoveryNoRecoveryAttempt\<rparr>\<rparr>)
      | _ \<Rightarrow> Error (NoRecoveryExistsForProposer Recovery))"

definition tr_cancel_primary_withdraw :: "unit transition" where
  "tr_cancel_primary_withdraw c s =
     (case m_primary_withdraw (machine s) of
        PrimaryBadgeWithdrawAttempt \<Rightarrow>
          Ok ((), s\<lparr>machine := (machine s)\<lparr>m_primary_withdraw := PrimaryNoBadgeWithdrawAttempt\<rparr>\<rparr>)
      | _ \<Rightarrow> Error (NoBadgeWithdrawAttemptExistsForProposer Primary))"

definition tr_cancel_recovery_withdraw :: "unit transition" where
  "tr_cancel_recovery_withdraw c s =
     (case m_recovery_withdraw (machine s) of
        RecoveryBadgeWithdrawAttempt \<Rightarrow>
          Ok ((), s\<lparr>machine := (machine s)\<lparr>m_recovery_withdraw := RecoveryNoBadgeWithdrawAttempt\<rparr>\<rparr>)
      | _ \<Rightarrow> Error (NoBadgeWithdrawAttemptExistsForProposer Recovery))"

definition tr_lock_primary_role :: "unit transition" where
  "tr_lock_primary_role c s =
     (case m_locking (machine s) of
        Unlocked \<Rightarrow> Ok ((), s\<lparr>machine := (machine s)\<lparr>m_locking := Locked\<rparr>\<rparr>)
      | _ \<Rightarrow> Ok ((), s))"

definition tr_unlock_primary_role :: "unit transition" where
  "tr_unlock_primary_role c s =
     (case m_locking (machine s) of
        Locked \<Rightarrow> Ok ((), s\<lparr>machine := (machine s)\<lparr>m_locking := Unlocked\<rparr>\<rparr>)
      | _ \<Rightarrow> Ok ((), s))"

definition tr_stop_timed_recovery :: "recovery_proposal \<Rightarrow> unit transition" where
  "tr_stop_timed_recovery to_stop c s =
     (case m_recovery_recovery (machine s) of
        RecoveryRecoveryAttempt (TimedRecovery p _) \<Rightarrow>
          rbind (validate_recovery_proposal p to_stop) (\<lambda>_.
          Ok ((), s\<lparr>machine := (machine s)\<lparr>m_recovery_recovery := RecoveryRecoveryAttempt (UntimedRecovery p)\<rparr>\<rparr>))
      | _ \<Rightarrow> Error NoTimedRecoveriesFound)"


section \<open>The world of a controller\<close>

record 'w asset_api =
  api_is_fungible :: "nat \<Rightarrow> bool"
  api_create_vault :: "('w, runtime_error, nat) action"
  api_put :: "nat \<Rightarrow> nat \<Rightarrow> ('w, runtime_error, unit) action"
  api_amount :: "nat \<Rightarrow> ('w, runtime_error, decimal) action"
  api_take :: "nat \<Rightarrow> decimal \<Rightarrow> ('w, runtime_error, nat) action"
  api_proof_of_amount :: "nat \<Rightarrow> decimal \<Rightarrow> ('w, runtime_error, nat) action"
  api_local_ids :: "nat \<Rightarrow> int \<Rightarrow> ('w, runtime_error, string list) action"
  api_proof_of_ids :: "nat \<Rightarrow> string list \<Rightarrow> ('w, runtime_error, nat) action"

definition native_take_all :: "'w asset_api \<Rightarrow> nat \<Rightarrow> ('w, runtime_error, nat) action" where
  "native_take_all api v = abind (api_amount api v) (\<lambda>amount. api_take api v amount)"

datatype ac_event =
    InitiateRecoveryEvent proposer recovery_proposal
  | InitiateBadgeWithdrawAttemptEvent proposer
  | RuleSetUpdateEvent proposer recovery_proposal
  | BadgeWithdrawEvent proposer
  | CancelRecoveryProposalEvent proposer
  | CancelBadgeWithdrawAttemptEvent proposer
  | LockPrimaryRoleEvent
  | UnlockPrimaryRoleEvent
  | StopTimedRecoveryEvent
  | DepositRecoveryXrdEvent decimal
  | WithdrawRecoveryXrdEvent decimal

datatype ac_runtime_error =
    AcError access_controller_error
  | AcRoleError role_assignment_error
  | AcAuthError auth_error
  | AcResourceError runtime_error

record 'w ac_world =
  ac_field :: ac_field_state
  ac_roles :: role_assignment
  ac_address :: address
  ac_clock :: clock
  ac_assets :: 'w
  ac_xrd :: world
  ac_events :: "ac_event list"
  ac_zones :: zones
  ac_actor :: actor

type_synonym ('w, 'a) ac_act = "('w ac_world, ac_runtime_error, 'a) action"

definition on_assets :: "('w, runtime_error, 'a) action \<Rightarrow> ('w, 'a) ac_act" where
  "on_assets = azoom ac_assets (\<lambda>a w. w\<lparr>ac_assets := a\<rparr>) AcResourceError"

definition on_xrd :: "'a act \<Rightarrow> ('w, 'a) ac_act" where
  "on_xrd = azoom ac_xrd (\<lambda>x w. w\<lparr>ac_xrd := x\<rparr>) AcResourceError"

definition ac_emit :: "ac_event \<Rightarrow> ('w, unit) ac_act" where
  "ac_emit e = amodify (\<lambda>w. w\<lparr>ac_events := ac_events w @ [e]\<rparr>)"

definition ac_write :: "access_controller_v2 \<Rightarrow> ('w, unit) ac_act" where
  "ac_write s = amodify (\<lambda>w. w\<lparr>ac_field := StateV2 s\<rparr>)"

text \<open>
  Reading the state updates a version 1 substate and stores it, also when the method goes on to
  read only.
\<close>

definition ac_read :: "('w, access_controller_v2) ac_act" where
  "ac_read =
     abind (aread (\<lambda>w. Ok (ac_field w))) (\<lambda>f.
     abind (case f of StateV1 _ \<Rightarrow> ac_write (latest_version f) | StateV2 _ \<Rightarrow> areturn ()) (\<lambda>_.
     areturn (latest_version f)))"

definition with_state :: "(access_controller_v2 \<Rightarrow> ('w, 'a) ac_act) \<Rightarrow> ('w, 'a) ac_act" where
  "with_state callback = abind ac_read callback"

definition with_state_mut ::
    "(access_controller_v2 \<Rightarrow> ('w, 'a \<times> access_controller_v2) ac_act) \<Rightarrow> ('w, 'a) ac_act" where
  "with_state_mut callback =
     abind ac_read (\<lambda>s.
     abind (callback s) (\<lambda>(rtn, s').
     abind (ac_write s') (\<lambda>_.
     areturn rtn)))"

definition transition_mut :: "'a transition \<Rightarrow> ('w, 'a) ac_act" where
  "transition_mut tr = with_state_mut (\<lambda>s. aread (\<lambda>w. map_err AcError (tr (ac_clock w) s)))"


section \<open>Roles\<close>

definition ACCESS_CONTROLLER_PACKAGE :: address where
  "ACCESS_CONTROLLER_PACKAGE = 0x0d906318c6318c6c4d63f8cc6318c6318cf7bf553d3ca51686318c6318c6"

definition ac_roles_spec :: "(string \<times> string list) list" where
  "ac_roles_spec = [(''primary'', [SELF_ROLE]), (''recovery'', [SELF_ROLE]), (''confirmation'', [SELF_ROLE])]"

definition ac_methods_spec :: "(string \<times> method_accessibility) list" where
  "ac_methods_spec =
    [(''timed_confirm_recovery'', Public),
     (''create_proof'', RoleProtected [''primary'']),
     (''initiate_recovery_as_primary'', RoleProtected [''primary'']),
     (''cancel_primary_role_recovery_proposal'', RoleProtected [''primary'']),
     (''initiate_badge_withdraw_attempt_as_primary'', RoleProtected [''primary'']),
     (''cancel_primary_role_badge_withdraw_attempt'', RoleProtected [''primary'']),
     (''initiate_recovery_as_recovery'', RoleProtected [''recovery'']),
     (''cancel_recovery_role_recovery_proposal'', RoleProtected [''recovery'']),
     (''initiate_badge_withdraw_attempt_as_recovery'', RoleProtected [''recovery'']),
     (''cancel_recovery_role_badge_withdraw_attempt'', RoleProtected [''recovery'']),
     (''lock_primary_role'', RoleProtected [''recovery'']),
     (''unlock_primary_role'', RoleProtected [''recovery'']),
     (''quick_confirm_primary_role_recovery_proposal'', RoleProtected [''recovery'', ''confirmation'']),
     (''quick_confirm_primary_role_badge_withdraw_attempt'', RoleProtected [''recovery'', ''confirmation'']),
     (''quick_confirm_recovery_role_recovery_proposal'', RoleProtected [''primary'', ''confirmation'']),
     (''quick_confirm_recovery_role_badge_withdraw_attempt'', RoleProtected [''primary'', ''confirmation'']),
     (''mint_recovery_badges'', RoleProtected [''primary'', ''recovery'']),
     (''stop_timed_recovery'', RoleProtected [''primary'', ''confirmation'', ''recovery'']),
     (''lock_recovery_fee'', RoleProtected [''primary'', ''confirmation'', ''recovery'']),
     (''withdraw_recovery_fee'', RoleProtected [''primary'']),
     (''contribute_recovery_fee'', Public)]"

definition ac_template :: method_auth_template where
  "ac_template = StaticRoleDefinition (NormalRoles ac_roles_spec) ac_methods_spec"

definition ac_object_info :: object_info where
  "ac_object_info = \<lparr>oi_is_global = True, oi_package = ACCESS_CONTROLLER_PACKAGE, oi_outer_object = None\<rparr>"

definition locked_role_assignment :: rule_set where
  "locked_role_assignment = \<lparr>primary_role = DenyAll, recovery_role = DenyAll, confirmation_role = DenyAll\<rparr>"

definition init_roles_from_rule_set :: "rule_set \<Rightarrow> (string \<times> access_rule option) list" where
  "init_roles_from_rule_set r =
     [(''primary'', Some (primary_role r)), (''recovery'', Some (recovery_role r)),
      (''confirmation'', Some (confirmation_role r))]"

text \<open>The node id of the zone of a new call frame: any id that is not in use.\<close>

definition fresh_zone :: "zones \<Rightarrow> nat" where
  "fresh_zone zones = Suc (foldr (\<lambda>(z, _). max z) zones 0)"

text \<open>A call of the role assignment module of the controller: authorized like any other call.\<close>

definition call_set_role :: "badge_hashes \<Rightarrow> string \<Rightarrow> access_rule \<Rightarrow> ('w, unit) ac_act" where
  "call_set_role H key rule w =
     rbind (map_err AcAuthError (on_call_method H (fresh_zone (ac_zones w)) (ac_zones w) (ac_actor w)
              (\<lambda>_. ac_roles w) (ac_address w) ac_object_info False ac_template RoleAssignmentModule ''set''
              (Some (SetRole MainModule key rule)))) (\<lambda>_.
     rbind (map_err AcRoleError (set_role True MainModule key rule (ac_roles w))) (\<lambda>ra.
     Ok ((), w\<lparr>ac_roles := ra\<rparr>)))"

definition update_role_assignment :: "badge_hashes \<Rightarrow> rule_set \<Rightarrow> ('w, unit) ac_act" where
  "update_role_assignment H r =
     abind (call_set_role H ''primary'' (primary_role r)) (\<lambda>_.
     abind (call_set_role H ''recovery'' (recovery_role r)) (\<lambda>_.
     call_set_role H ''confirmation'' (confirmation_role r)))"

section \<open>Methods\<close>

definition ac_fail :: "access_controller_error \<Rightarrow> ('w, 'a) ac_act" where
  "ac_fail e w = Error (AcError e)"

text \<open>The transitions that call the vault of the controlled asset.\<close>

definition tr_create_proof :: "'w asset_api \<Rightarrow> access_controller_v2 \<Rightarrow> ('w, nat) ac_act" where
  "tr_create_proof api s =
     (case m_locking (machine s) of
        Unlocked \<Rightarrow>
          (if api_is_fungible api (controlled_asset s)
           then abind (on_assets (api_amount api (controlled_asset s))) (\<lambda>amount.
                on_assets (api_proof_of_amount api (controlled_asset s) amount))
           else abind (on_assets (api_local_ids api (controlled_asset s) (2 ^ 32 - 1))) (\<lambda>ids.
                on_assets (api_proof_of_ids api (controlled_asset s) ids)))
      | _ \<Rightarrow> ac_fail OperationRequiresUnlockedPrimaryRole)"

definition tr_quick_confirm_primary_withdraw ::
    "'w asset_api \<Rightarrow> access_controller_v2 \<Rightarrow> ('w, nat \<times> access_controller_v2) ac_act" where
  "tr_quick_confirm_primary_withdraw api s =
     (case m_primary_withdraw (machine s) of
        PrimaryBadgeWithdrawAttempt \<Rightarrow>
          abind (on_assets (native_take_all api (controlled_asset s))) (\<lambda>bucket.
          areturn (bucket, s\<lparr>machine := default_machine\<rparr>))
      | _ \<Rightarrow> ac_fail (NoBadgeWithdrawAttemptExistsForProposer Primary))"

definition tr_quick_confirm_recovery_withdraw ::
    "'w asset_api \<Rightarrow> access_controller_v2 \<Rightarrow> ('w, nat \<times> access_controller_v2) ac_act" where
  "tr_quick_confirm_recovery_withdraw api s =
     (case m_recovery_withdraw (machine s) of
        RecoveryBadgeWithdrawAttempt \<Rightarrow>
          abind (on_assets (native_take_all api (controlled_asset s))) (\<lambda>bucket.
          areturn (bucket, s\<lparr>machine := default_machine\<rparr>))
      | _ \<Rightarrow> ac_fail (NoBadgeWithdrawAttemptExistsForProposer Recovery))"

definition ac_create_proof :: "'w asset_api \<Rightarrow> ('w, nat) ac_act" where
  "ac_create_proof api = with_state (tr_create_proof api)"

definition initiate_recovery_as_primary :: "recovery_proposal \<Rightarrow> ('w, unit) ac_act" where
  "initiate_recovery_as_primary p =
     abind (transition_mut (tr_initiate_recovery_as_primary p)) (\<lambda>_.
     ac_emit (InitiateRecoveryEvent Primary p))"

definition initiate_recovery_as_recovery :: "recovery_proposal \<Rightarrow> ('w, unit) ac_act" where
  "initiate_recovery_as_recovery p =
     abind (transition_mut (tr_initiate_recovery_as_recovery p)) (\<lambda>_.
     ac_emit (InitiateRecoveryEvent Recovery p))"

definition initiate_badge_withdraw_attempt_as_primary :: "('w, unit) ac_act" where
  "initiate_badge_withdraw_attempt_as_primary =
     abind (transition_mut tr_initiate_badge_withdraw_as_primary) (\<lambda>_.
     ac_emit (InitiateBadgeWithdrawAttemptEvent Primary))"

definition initiate_badge_withdraw_attempt_as_recovery :: "('w, unit) ac_act" where
  "initiate_badge_withdraw_attempt_as_recovery =
     abind (transition_mut tr_initiate_badge_withdraw_as_recovery) (\<lambda>_.
     ac_emit (InitiateBadgeWithdrawAttemptEvent Recovery))"

definition quick_confirm_primary_role_recovery_proposal :: "badge_hashes \<Rightarrow> recovery_proposal \<Rightarrow> ('w, unit) ac_act" where
  "quick_confirm_primary_role_recovery_proposal H p =
     abind (transition_mut (tr_quick_confirm_primary_recovery p)) (\<lambda>confirmed.
     abind (update_role_assignment H (proposed_rule_set confirmed)) (\<lambda>_.
     ac_emit (RuleSetUpdateEvent Primary p)))"

definition quick_confirm_recovery_role_recovery_proposal :: "badge_hashes \<Rightarrow> recovery_proposal \<Rightarrow> ('w, unit) ac_act" where
  "quick_confirm_recovery_role_recovery_proposal H p =
     abind (transition_mut (tr_quick_confirm_recovery_recovery p)) (\<lambda>confirmed.
     abind (update_role_assignment H (proposed_rule_set confirmed)) (\<lambda>_.
     ac_emit (RuleSetUpdateEvent Recovery p)))"

definition quick_confirm_primary_role_badge_withdraw_attempt ::
    "badge_hashes \<Rightarrow> 'w asset_api \<Rightarrow> ('w, nat) ac_act" where
  "quick_confirm_primary_role_badge_withdraw_attempt H api =
     abind (with_state_mut (tr_quick_confirm_primary_withdraw api)) (\<lambda>bucket.
     abind (update_role_assignment H locked_role_assignment) (\<lambda>_.
     abind (ac_emit (BadgeWithdrawEvent Primary)) (\<lambda>_.
     areturn bucket)))"

definition quick_confirm_recovery_role_badge_withdraw_attempt ::
    "badge_hashes \<Rightarrow> 'w asset_api \<Rightarrow> ('w, nat) ac_act" where
  "quick_confirm_recovery_role_badge_withdraw_attempt H api =
     abind (with_state_mut (tr_quick_confirm_recovery_withdraw api)) (\<lambda>bucket.
     abind (update_role_assignment H locked_role_assignment) (\<lambda>_.
     abind (ac_emit (BadgeWithdrawEvent Recovery)) (\<lambda>_.
     areturn bucket)))"

definition timed_confirm_recovery :: "badge_hashes \<Rightarrow> recovery_proposal \<Rightarrow> ('w, unit) ac_act" where
  "timed_confirm_recovery H p =
     abind (transition_mut (tr_timed_confirm_recovery p)) (\<lambda>confirmed.
     abind (update_role_assignment H (proposed_rule_set confirmed)) (\<lambda>_.
     ac_emit (RuleSetUpdateEvent Recovery p)))"

definition cancel_primary_role_recovery_proposal :: "('w, unit) ac_act" where
  "cancel_primary_role_recovery_proposal =
     abind (transition_mut tr_cancel_primary_recovery) (\<lambda>_. ac_emit (CancelRecoveryProposalEvent Primary))"

definition cancel_recovery_role_recovery_proposal :: "('w, unit) ac_act" where
  "cancel_recovery_role_recovery_proposal =
     abind (transition_mut tr_cancel_recovery_recovery) (\<lambda>_. ac_emit (CancelRecoveryProposalEvent Recovery))"

definition cancel_primary_role_badge_withdraw_attempt :: "('w, unit) ac_act" where
  "cancel_primary_role_badge_withdraw_attempt =
     abind (transition_mut tr_cancel_primary_withdraw) (\<lambda>_. ac_emit (CancelBadgeWithdrawAttemptEvent Primary))"

definition cancel_recovery_role_badge_withdraw_attempt :: "('w, unit) ac_act" where
  "cancel_recovery_role_badge_withdraw_attempt =
     abind (transition_mut tr_cancel_recovery_withdraw) (\<lambda>_. ac_emit (CancelBadgeWithdrawAttemptEvent Recovery))"

definition lock_primary_role :: "('w, unit) ac_act" where
  "lock_primary_role = abind (transition_mut tr_lock_primary_role) (\<lambda>_. ac_emit LockPrimaryRoleEvent)"

definition unlock_primary_role :: "('w, unit) ac_act" where
  "unlock_primary_role = abind (transition_mut tr_unlock_primary_role) (\<lambda>_. ac_emit UnlockPrimaryRoleEvent)"

definition stop_timed_recovery :: "recovery_proposal \<Rightarrow> ('w, unit) ac_act" where
  "stop_timed_recovery p = abind (transition_mut (tr_stop_timed_recovery p)) (\<lambda>_. ac_emit StopTimedRecoveryEvent)"

text \<open>Minting recovery badges is a call of the badge's non-fungible resource manager, a parameter.\<close>

definition mint_recovery_badges ::
    "(address \<Rightarrow> string list \<Rightarrow> ('w, runtime_error, nat) action) \<Rightarrow> string list \<Rightarrow> ('w, nat) ac_act" where
  "mint_recovery_badges mint_nf ids = with_state (\<lambda>s. on_assets (mint_nf (recovery_badge s) ids))"

definition lock_recovery_fee :: "decimal \<Rightarrow> ('w, unit) ac_act" where
  "lock_recovery_fee amount =
     with_state_mut (\<lambda>s.
       case xrd_fee_vault s of
         None \<Rightarrow> ac_fail NoXrdFeeVault
       | Some v \<Rightarrow> abind (on_xrd (vault_lock_fee v amount False)) (\<lambda>_. areturn ((), s)))"

definition withdraw_recovery_fee :: "decimal \<Rightarrow> ('w, nat) ac_act" where
  "withdraw_recovery_fee amount =
     abind (ac_emit (WithdrawRecoveryXrdEvent amount)) (\<lambda>_.
     with_state_mut (\<lambda>s.
       case xrd_fee_vault s of
         None \<Rightarrow> ac_fail NoXrdFeeVault
       | Some v \<Rightarrow> abind (on_xrd (vault_take v amount)) (\<lambda>bucket. areturn (bucket, s))))"

definition contribute_recovery_fee :: "nat \<Rightarrow> ('w, unit) ac_act" where
  "contribute_recovery_fee bucket =
     abind (on_xrd (abind (get_bucket bucket) (\<lambda>b. aread (\<lambda>_. bucket_get_amount b)))) (\<lambda>amount.
     abind (ac_emit (DepositRecoveryXrdEvent amount)) (\<lambda>_.
     with_state_mut (\<lambda>s.
       abind (case xrd_fee_vault s of
                Some v \<Rightarrow> areturn (v, s)
              | None \<Rightarrow> abind (on_xrd create_empty_vault) (\<lambda>v. areturn (v, s\<lparr>xrd_fee_vault := Some v\<rparr>)))
         (\<lambda>(v, s'). abind (on_xrd (vault_put v bucket)) (\<lambda>_. areturn ((), s'))))))"

text \<open>
  Creation: the address of the controller and the address of the recovery badge resource come from
  the system and from the creation of that resource.
\<close>

definition ac_create ::
    "'w asset_api \<Rightarrow> nat \<Rightarrow> rule_set \<Rightarrow> int option \<Rightarrow> address \<Rightarrow> address \<Rightarrow> clock \<Rightarrow> world \<Rightarrow> 'w \<Rightarrow>
     (ac_runtime_error, 'w ac_world) res" where
  "ac_create api bucket rules delay badge addr c xrd assets =
     rbind (map_err AcResourceError (abind (api_create_vault api) (\<lambda>v.
              abind (api_put api v bucket) (\<lambda>_. areturn v)) assets)) (\<lambda>(v, assets').
     rbind (map_err AcRoleError (init_system_struct DenyAll UpdaterNone
              [(MainModule, init_roles_from_rule_set rules)])) (\<lambda>ra.
     Ok \<lparr>ac_field = StateV2 \<lparr>controlled_asset = v, xrd_fee_vault = None,
           timed_recovery_delay_in_minutes = delay, recovery_badge = badge, machine = default_machine\<rparr>,
         ac_roles = ra, ac_address = addr, ac_clock = c, ac_assets = assets', ac_xrd = xrd, ac_events = [],
         ac_zones = [], ac_actor = Root\<rparr>))"


section \<open>Calls\<close>

datatype ac_method =
    CreateProof
  | InitiateRecoveryAsPrimary recovery_proposal
  | InitiateRecoveryAsRecovery recovery_proposal
  | InitiateBadgeWithdrawAttemptAsPrimary
  | InitiateBadgeWithdrawAttemptAsRecovery
  | QuickConfirmPrimaryRoleRecoveryProposal recovery_proposal
  | QuickConfirmRecoveryRoleRecoveryProposal recovery_proposal
  | QuickConfirmPrimaryRoleBadgeWithdrawAttempt
  | QuickConfirmRecoveryRoleBadgeWithdrawAttempt
  | TimedConfirmRecovery recovery_proposal
  | CancelPrimaryRoleRecoveryProposal
  | CancelRecoveryRoleRecoveryProposal
  | CancelPrimaryRoleBadgeWithdrawAttempt
  | CancelRecoveryRoleBadgeWithdrawAttempt
  | LockPrimaryRole
  | UnlockPrimaryRole
  | StopTimedRecovery recovery_proposal
  | MintRecoveryBadges "string list"
  | LockRecoveryFee decimal
  | WithdrawRecoveryFee decimal
  | ContributeRecoveryFee nat

fun ac_ident :: "ac_method \<Rightarrow> string" where
  "ac_ident CreateProof = ''create_proof''"
| "ac_ident (InitiateRecoveryAsPrimary _) = ''initiate_recovery_as_primary''"
| "ac_ident (InitiateRecoveryAsRecovery _) = ''initiate_recovery_as_recovery''"
| "ac_ident InitiateBadgeWithdrawAttemptAsPrimary = ''initiate_badge_withdraw_attempt_as_primary''"
| "ac_ident InitiateBadgeWithdrawAttemptAsRecovery = ''initiate_badge_withdraw_attempt_as_recovery''"
| "ac_ident (QuickConfirmPrimaryRoleRecoveryProposal _) = ''quick_confirm_primary_role_recovery_proposal''"
| "ac_ident (QuickConfirmRecoveryRoleRecoveryProposal _) = ''quick_confirm_recovery_role_recovery_proposal''"
| "ac_ident QuickConfirmPrimaryRoleBadgeWithdrawAttempt = ''quick_confirm_primary_role_badge_withdraw_attempt''"
| "ac_ident QuickConfirmRecoveryRoleBadgeWithdrawAttempt = ''quick_confirm_recovery_role_badge_withdraw_attempt''"
| "ac_ident (TimedConfirmRecovery _) = ''timed_confirm_recovery''"
| "ac_ident CancelPrimaryRoleRecoveryProposal = ''cancel_primary_role_recovery_proposal''"
| "ac_ident CancelRecoveryRoleRecoveryProposal = ''cancel_recovery_role_recovery_proposal''"
| "ac_ident CancelPrimaryRoleBadgeWithdrawAttempt = ''cancel_primary_role_badge_withdraw_attempt''"
| "ac_ident CancelRecoveryRoleBadgeWithdrawAttempt = ''cancel_recovery_role_badge_withdraw_attempt''"
| "ac_ident LockPrimaryRole = ''lock_primary_role''"
| "ac_ident UnlockPrimaryRole = ''unlock_primary_role''"
| "ac_ident (StopTimedRecovery _) = ''stop_timed_recovery''"
| "ac_ident (MintRecoveryBadges _) = ''mint_recovery_badges''"
| "ac_ident (LockRecoveryFee _) = ''lock_recovery_fee''"
| "ac_ident (WithdrawRecoveryFee _) = ''withdraw_recovery_fee''"
| "ac_ident (ContributeRecoveryFee _) = ''contribute_recovery_fee''"

datatype ac_output = NoOutput | OutProof nat | OutBucket nat

definition ac_unit :: "('w, unit) ac_act \<Rightarrow> ('w, ac_output) ac_act" where
  "ac_unit m = abind m (\<lambda>_. areturn NoOutput)"

record 'w ac_env =
  env_hashes :: badge_hashes
  env_api :: "'w asset_api"
  env_mint :: "address \<Rightarrow> string list \<Rightarrow> ('w, runtime_error, nat) action"

fun invoke_export :: "'w ac_env \<Rightarrow> ac_method \<Rightarrow> ('w, ac_output) ac_act" where
  "invoke_export E CreateProof = abind (ac_create_proof (env_api E)) (\<lambda>p. areturn (OutProof p))"
| "invoke_export E (InitiateRecoveryAsPrimary p) = ac_unit (initiate_recovery_as_primary p)"
| "invoke_export E (InitiateRecoveryAsRecovery p) = ac_unit (initiate_recovery_as_recovery p)"
| "invoke_export E InitiateBadgeWithdrawAttemptAsPrimary = ac_unit initiate_badge_withdraw_attempt_as_primary"
| "invoke_export E InitiateBadgeWithdrawAttemptAsRecovery = ac_unit initiate_badge_withdraw_attempt_as_recovery"
| "invoke_export E (QuickConfirmPrimaryRoleRecoveryProposal p) =
     ac_unit (quick_confirm_primary_role_recovery_proposal (env_hashes E) p)"
| "invoke_export E (QuickConfirmRecoveryRoleRecoveryProposal p) =
     ac_unit (quick_confirm_recovery_role_recovery_proposal (env_hashes E) p)"
| "invoke_export E QuickConfirmPrimaryRoleBadgeWithdrawAttempt =
     abind (quick_confirm_primary_role_badge_withdraw_attempt (env_hashes E) (env_api E)) (\<lambda>b. areturn (OutBucket b))"
| "invoke_export E QuickConfirmRecoveryRoleBadgeWithdrawAttempt =
     abind (quick_confirm_recovery_role_badge_withdraw_attempt (env_hashes E) (env_api E)) (\<lambda>b. areturn (OutBucket b))"
| "invoke_export E (TimedConfirmRecovery p) = ac_unit (timed_confirm_recovery (env_hashes E) p)"
| "invoke_export E CancelPrimaryRoleRecoveryProposal = ac_unit cancel_primary_role_recovery_proposal"
| "invoke_export E CancelRecoveryRoleRecoveryProposal = ac_unit cancel_recovery_role_recovery_proposal"
| "invoke_export E CancelPrimaryRoleBadgeWithdrawAttempt = ac_unit cancel_primary_role_badge_withdraw_attempt"
| "invoke_export E CancelRecoveryRoleBadgeWithdrawAttempt = ac_unit cancel_recovery_role_badge_withdraw_attempt"
| "invoke_export E LockPrimaryRole = ac_unit lock_primary_role"
| "invoke_export E UnlockPrimaryRole = ac_unit unlock_primary_role"
| "invoke_export E (StopTimedRecovery p) = ac_unit (stop_timed_recovery p)"
| "invoke_export E (MintRecoveryBadges ids) = abind (mint_recovery_badges (env_mint E) ids) (\<lambda>b. areturn (OutBucket b))"
| "invoke_export E (LockRecoveryFee amount) = ac_unit (lock_recovery_fee amount)"
| "invoke_export E (WithdrawRecoveryFee amount) = abind (withdraw_recovery_fee amount) (\<lambda>b. areturn (OutBucket b))"
| "invoke_export E (ContributeRecoveryFee bucket) = ac_unit (contribute_recovery_fee bucket)"

text \<open>
  A call from the current frame: the zone of the new frame is created and the permission of the
  method checked, the method runs as the controller, and its zone is torn down.
\<close>

definition call_method :: "'w ac_env \<Rightarrow> ac_method \<Rightarrow> ('w, ac_output) ac_act" where
  "call_method E m w =
     (let z = fresh_zone (ac_zones w) in
      rbind (map_err AcAuthError (on_call_method (env_hashes E) z (ac_zones w) (ac_actor w) (\<lambda>_. ac_roles w)
               (ac_address w) ac_object_info False ac_template MainModule (ac_ident m) None)) (\<lambda>zones.
      rbind (invoke_export E m (w\<lparr>ac_zones := zones,
               ac_actor := MethodActor ACCESS_CONTROLLER_PACKAGE z (OriginGlobal (ac_address w))\<rparr>)) (\<lambda>(out, w').
      rbind (map_err AcAuthError (teardown_auth_zone (ac_zones w') z)) (\<lambda>(_, zones').
      Ok (out, w'\<lparr>ac_zones := zones', ac_actor := ac_actor w\<rparr>)))))"

end
