(* ===== verification/Access_Controller_Laws.thy ===== *)
theory Access_Controller_Laws
  imports Access_Controller
begin

text \<open>
  What the access controller guarantees. The log of the successful calls is the specification: it
  says which proposals and withdrawals are pending, and the five state machines of the substate
  are shown to follow it. From that: the rules in force only change when a second party confirms
  what one party has proposed, or when the announced delay has passed; a badge withdrawal is
  final; and a confirmation that is authorized goes through.
\<close>

named_theorems ac_eqs \<open>the actions of the controller as equations on its state\<close>

abbreviation substate :: "'w ac_world \<Rightarrow> access_controller_v2" where
  "substate w \<equiv> latest_version (ac_field w)"


section \<open>The substate\<close>

lemma ac_read_eq [ac_eqs]: "ac_read w = Ok (substate w, w\<lparr>ac_field := StateV2 (substate w)\<rparr>)"
  by (cases w) (auto simp: ac_read_def action_defs ac_write_def split: ac_field_state.splits)

lemma with_state_Ok_iff [ac_eqs]:
  "with_state cb w = Ok (x, w') \<longleftrightarrow> cb (substate w) (w\<lparr>ac_field := StateV2 (substate w)\<rparr>) = Ok (x, w')"
  by (simp add: with_state_def abind_def ac_read_eq)

lemma with_state_mut_Ok_iff [ac_eqs]:
  "with_state_mut cb w = Ok (x, w') \<longleftrightarrow>
   (\<exists>s v. cb (substate w) (w\<lparr>ac_field := StateV2 (substate w)\<rparr>) = Ok ((x, s), v) \<and> w' = v\<lparr>ac_field := StateV2 s\<rparr>)"
  by (auto simp: with_state_mut_def ac_read_eq ac_write_def action_iffs)

lemma transition_mut_Ok_iff [ac_eqs]:
  "transition_mut tr w = Ok (x, w') \<longleftrightarrow>
   (\<exists>s. tr (ac_clock w) (substate w) = Ok (x, s) \<and> w' = w\<lparr>ac_field := StateV2 s\<rparr>)"
  by (auto simp: transition_mut_def with_state_mut_Ok_iff action_iffs map_err_eq_Inr_iff)

lemma ac_emit_Ok_iff [ac_eqs]: "ac_emit e w = Ok (x, w') \<longleftrightarrow> w' = w\<lparr>ac_events := ac_events w @ [e]\<rparr>"
  by (simp add: ac_emit_def action_iffs)

lemma ac_fail_Ok_iff [ac_eqs]: "ac_fail e w = Ok r \<longleftrightarrow> False"
  by (simp add: ac_fail_def)

lemma ac_unit_Ok_iff [ac_eqs]: "ac_unit m w = Ok (x, w') \<longleftrightarrow> m w = Ok ((), w') \<and> x = NoOutput"
  by (auto simp: ac_unit_def action_iffs)

lemma on_assets_Ok_iff [ac_eqs]:
  "on_assets m w = Ok (x, w') \<longleftrightarrow> (\<exists>a. m (ac_assets w) = Ok (x, a) \<and> w' = w\<lparr>ac_assets := a\<rparr>)"
  by (simp add: on_assets_def azoom_Ok_iff)

lemma on_xrd_Ok_iff [ac_eqs]:
  "on_xrd m w = Ok (x, w') \<longleftrightarrow> (\<exists>a. m (ac_xrd w) = Ok (x, a) \<and> w' = w\<lparr>ac_xrd := a\<rparr>)"
  by (simp add: on_xrd_def azoom_Ok_iff)


section \<open>The roles\<close>

definition rules_in_force :: "'w ac_world \<Rightarrow> string \<Rightarrow> access_rule option" where
  "rules_in_force w key = ra_roles (ac_roles w) (MainModule, key)"

definition rules_of :: "rule_set \<Rightarrow> string \<Rightarrow> access_rule option" where
  "rules_of r = [''primary'' \<mapsto> primary_role r, ''recovery'' \<mapsto> recovery_role r, ''confirmation'' \<mapsto> confirmation_role r]"

definition assign_rules :: "rule_set \<Rightarrow> role_assignment \<Rightarrow> role_assignment" where
  "assign_rules r ra = ra\<lparr>ra_roles := (ra_roles ra)((MainModule, ''primary'') \<mapsto> primary_role r,
     (MainModule, ''recovery'') \<mapsto> recovery_role r, (MainModule, ''confirmation'') \<mapsto> confirmation_role r)\<rparr>"

definition rules_ok :: "rule_set \<Rightarrow> bool" where
  "rules_ok r \<longleftrightarrow> verify_access_rule (primary_role r) = Ok () \<and> verify_access_rule (recovery_role r) = Ok () \<and>
     verify_access_rule (confirmation_role r) = Ok ()"

lemma update_role_assignment_Ok:
  assumes "update_role_assignment H r w = Ok (x, w')"
  shows "w' = w\<lparr>ac_roles := assign_rules r (ac_roles w)\<rparr> \<and> rules_ok r"
  using assms
  by (auto simp: update_role_assignment_def call_set_role_def abind_Ok_iff res_iffs set_role_Ok_iff
      role_entry_ok_def assign_rules_def rules_ok_def)

text \<open>
  A call is authorized as a role when the rule of the role accepts the evidence of the new frame.
\<close>

definition call_zones :: "'w ac_world \<Rightarrow> zones" where
  "call_zones w =
     (case create_auth_zone (fresh_zone (ac_zones w)) (ac_zones w) (ac_actor w) (Some (True, False)) [] [] of
        Inr zones \<Rightarrow> zones | Inl _ \<Rightarrow> [])"

definition authorized_as :: "'w ac_env \<Rightarrow> 'w ac_world \<Rightarrow> string \<Rightarrow> bool" where
  "authorized_as E w key \<longleftrightarrow>
     check_authorization_against_role_key_internal (env_hashes E) (call_zones w) (fresh_zone (ac_zones w))
       (ac_address w) (ac_roles w) MainModule key = Ok Authorized"

lemma role_list_authorized:
  "check_authorization_against_role_list H zones z addr ra module keys failed = Ok RoleListAuthorized \<Longrightarrow>
   \<exists>key \<in> set keys. check_authorization_against_role_key_internal H zones z addr ra module key = Ok Authorized"
proof (induction keys arbitrary: failed)
  case (Cons key keys)
  then obtain r where r: "check_authorization_against_role_key_internal H zones z addr ra module key = Ok r"
    by (auto simp: res_iffs)
  show ?case using Cons r by (cases r) auto
qed simp

lemma role_list_case_Ok:
  "(case r of RoleListAuthorized \<Rightarrow> Ok () | RoleListFailed f \<Rightarrow> Error (e f)) = Ok () \<longleftrightarrow> r = RoleListAuthorized"
  by (cases r) auto

lemma on_call_authorized:
  assumes "on_call_method (env_hashes E) (fresh_zone (ac_zones w)) (ac_zones w) (ac_actor w) (\<lambda>_. ac_roles w)
    (ac_address w) ac_object_info False ac_template MainModule ident None = Ok zones"
    and "map_of ac_methods_spec ident = Some (RoleProtected keys)"
  shows "zones = call_zones w \<and> (\<exists>key \<in> set keys. authorized_as E w key)"
  using assms
  by (auto simp: on_call_method_def res_iffs ac_object_info_def call_zones_def authorized_as_def
      resolve_method_permission_def ac_template_def check_permission_def role_list_case_Ok
      dest!: role_list_authorized)

lemma call_method_Ok:
  assumes "call_method E m w = Ok (out, w')"
  obtains zones v zones' where
    "on_call_method (env_hashes E) (fresh_zone (ac_zones w)) (ac_zones w) (ac_actor w) (\<lambda>_. ac_roles w)
       (ac_address w) ac_object_info False ac_template MainModule (ac_ident m) None = Ok zones"
    "invoke_export E m (w\<lparr>ac_zones := zones, ac_actor := MethodActor ACCESS_CONTROLLER_PACKAGE
       (fresh_zone (ac_zones w)) (OriginGlobal (ac_address w))\<rparr>) = Ok (out, v)"
    "w' = v\<lparr>ac_zones := zones', ac_actor := ac_actor w\<rparr>"
  using assms by (auto simp: call_method_def Let_def res_iffs)


section \<open>The log of calls\<close>

text \<open>
  The specification: what is pending after the calls of a log, newest call first, each with the
  minute the clock showed. A confirmation of any kind ends everything that is pending.
\<close>

type_synonym call_log = "(ac_method \<times> int) list"

fun is_confirmation :: "ac_method \<Rightarrow> bool" where
  "is_confirmation (QuickConfirmPrimaryRoleRecoveryProposal _) = True"
| "is_confirmation (QuickConfirmRecoveryRoleRecoveryProposal _) = True"
| "is_confirmation QuickConfirmPrimaryRoleBadgeWithdrawAttempt = True"
| "is_confirmation QuickConfirmRecoveryRoleBadgeWithdrawAttempt = True"
| "is_confirmation (TimedConfirmRecovery _) = True"
| "is_confirmation _ = False"

fun pending_recovery :: "proposer \<Rightarrow> call_log \<Rightarrow> (recovery_proposal \<times> int) option" where
  "pending_recovery r [] = None"
| "pending_recovery r ((m, t) # log) =
     (if is_confirmation m then None
      else case m of
        InitiateRecoveryAsPrimary p \<Rightarrow> if r = Primary then Some (p, t) else pending_recovery r log
      | InitiateRecoveryAsRecovery p \<Rightarrow> if r = Recovery then Some (p, t) else pending_recovery r log
      | CancelPrimaryRoleRecoveryProposal \<Rightarrow> if r = Primary then None else pending_recovery r log
      | CancelRecoveryRoleRecoveryProposal \<Rightarrow> if r = Recovery then None else pending_recovery r log
      | _ \<Rightarrow> pending_recovery r log)"

fun pending_withdrawal :: "proposer \<Rightarrow> call_log \<Rightarrow> bool" where
  "pending_withdrawal r [] = False"
| "pending_withdrawal r ((m, t) # log) =
     (if is_confirmation m then False
      else case m of
        InitiateBadgeWithdrawAttemptAsPrimary \<Rightarrow> r = Primary \<or> pending_withdrawal r log
      | InitiateBadgeWithdrawAttemptAsRecovery \<Rightarrow> r = Recovery \<or> pending_withdrawal r log
      | CancelPrimaryRoleBadgeWithdrawAttempt \<Rightarrow> r \<noteq> Primary \<and> pending_withdrawal r log
      | CancelRecoveryRoleBadgeWithdrawAttempt \<Rightarrow> r \<noteq> Recovery \<and> pending_withdrawal r log
      | _ \<Rightarrow> pending_withdrawal r log)"

fun timer_stopped :: "call_log \<Rightarrow> bool" where
  "timer_stopped [] = False"
| "timer_stopped ((m, t) # log) =
     (case m of
        StopTimedRecovery _ \<Rightarrow> True
      | InitiateRecoveryAsRecovery _ \<Rightarrow> False
      | _ \<Rightarrow> timer_stopped log)"

fun primary_locked :: "call_log \<Rightarrow> bool" where
  "primary_locked [] = False"
| "primary_locked ((m, t) # log) =
     (if is_confirmation m then False
      else case m of
        LockPrimaryRole \<Rightarrow> True
      | UnlockPrimaryRole \<Rightarrow> False
      | _ \<Rightarrow> primary_locked log)"

definition machine_of :: "int option \<Rightarrow> call_log \<Rightarrow> ac_machine" where
  "machine_of delay log =
     \<lparr>m_locking = (if primary_locked log then Locked else Unlocked),
      m_primary_recovery = (case pending_recovery Primary log of
          None \<Rightarrow> PrimaryNoRecoveryAttempt | Some (p, _) \<Rightarrow> PrimaryRecoveryAttempt p),
      m_primary_withdraw = (if pending_withdrawal Primary log
          then PrimaryBadgeWithdrawAttempt else PrimaryNoBadgeWithdrawAttempt),
      m_recovery_recovery = (case pending_recovery Recovery log of
          None \<Rightarrow> RecoveryNoRecoveryAttempt
        | Some (p, t) \<Rightarrow> RecoveryRecoveryAttempt
            (case delay of
               Some d \<Rightarrow> if timer_stopped log then UntimedRecovery p else TimedRecovery p (60 * (t + d))
             | None \<Rightarrow> UntimedRecovery p)),
      m_recovery_withdraw = (if pending_withdrawal Recovery log
          then RecoveryBadgeWithdrawAttempt else RecoveryNoBadgeWithdrawAttempt)\<rparr>"

text \<open>
  A session of the controller: calls, and whatever other transactions do to the rest of the
  ledger between them. The substate and the roles belong to the controller alone.
\<close>

inductive ac_step :: "'w ac_env \<Rightarrow> 'w ac_world \<times> call_log \<Rightarrow> 'w ac_world \<times> call_log \<Rightarrow> bool" for E where
  ac_call: "call_method E m w = Ok (out, w') \<Longrightarrow> ac_step E (w, log) (w', (m, epoch_minute (ac_clock w)) # log)"
| ac_other: "ac_step E (w, log) (w\<lparr>ac_clock := c, ac_assets := a, ac_xrd := x, ac_zones := zs, ac_actor := act\<rparr>, log)"

definition ac_init :: "'w ac_world \<times> call_log \<Rightarrow> bool" where
  "ac_init s \<longleftrightarrow> snd s = [] \<and> machine (substate (fst s)) = default_machine"

definition follows_log :: "'w ac_world \<times> call_log \<Rightarrow> bool" where
  "follows_log = (\<lambda>(w, log). machine (substate w) = machine_of (timed_recovery_delay_in_minutes (substate w)) log)"

lemmas transition_defs =
  tr_initiate_recovery_as_primary_def tr_initiate_recovery_as_recovery_def
  tr_initiate_badge_withdraw_as_primary_def tr_initiate_badge_withdraw_as_recovery_def
  tr_quick_confirm_primary_recovery_def tr_quick_confirm_recovery_recovery_def tr_timed_confirm_recovery_def
  tr_cancel_primary_recovery_def tr_cancel_recovery_recovery_def tr_cancel_primary_withdraw_def
  tr_cancel_recovery_withdraw_def tr_lock_primary_role_def tr_unlock_primary_role_def tr_stop_timed_recovery_def

lemmas method_defs =
  ac_create_proof_def tr_create_proof_def tr_quick_confirm_primary_withdraw_def tr_quick_confirm_recovery_withdraw_def initiate_recovery_as_primary_def initiate_recovery_as_recovery_def
  initiate_badge_withdraw_attempt_as_primary_def initiate_badge_withdraw_attempt_as_recovery_def
  quick_confirm_primary_role_recovery_proposal_def quick_confirm_recovery_role_recovery_proposal_def
  quick_confirm_primary_role_badge_withdraw_attempt_def quick_confirm_recovery_role_badge_withdraw_attempt_def
  timed_confirm_recovery_def cancel_primary_role_recovery_proposal_def cancel_recovery_role_recovery_proposal_def
  cancel_primary_role_badge_withdraw_attempt_def cancel_recovery_role_badge_withdraw_attempt_def
  lock_primary_role_def unlock_primary_role_def stop_timed_recovery_def mint_recovery_badges_def
  lock_recovery_fee_def withdraw_recovery_fee_def contribute_recovery_fee_def

lemma validate_Ok_iff: "validate_recovery_proposal p q = Ok x \<longleftrightarrow> p = q"
  by (simp add: validate_recovery_proposal_def)

lemma export_frame:
  assumes "invoke_export E m w = Ok (out, w')"
  shows "timed_recovery_delay_in_minutes (substate w') = timed_recovery_delay_in_minutes (substate w) \<and>
    controlled_asset (substate w') = controlled_asset (substate w) \<and>
    ac_clock w' = ac_clock w \<and> ac_address w' = ac_address w \<and> ac_zones w' = ac_zones w"
  using assms
  by (cases m)
     (auto simp: method_defs transition_defs ac_eqs action_iffs res_iffs validate_Ok_iff Let_def
       split: primary_role_locking_state.split_asm primary_role_recovery_attempt_state.split_asm
         primary_role_badge_withdraw_attempt_state.split_asm recovery_role_recovery_attempt_state.split_asm
         recovery_role_badge_withdraw_attempt_state.split_asm recovery_role_recovery_state.split_asm
         option.split_asm if_split_asm
       dest!: update_role_assignment_Ok)

lemma allowed_after_eq:
  "instant_add_minutes d (get_current_time PrecisionMinute c) = Some t \<Longrightarrow> t = 60 * (epoch_minute c + d)"
  by (auto simp: instant_add_minutes_def get_current_time_def epoch_minute_to_instant_def SECONDS_IN_MINUTE_def
      i_checked_mul_def i_checked_add_def i_checked_def bind_eq_Some_conv split: if_splits)

lemma machine_of_simps:
  "m_locking (machine_of d log) = Locked \<longleftrightarrow> primary_locked log"
  "m_locking (machine_of d log) = Unlocked \<longleftrightarrow> \<not> primary_locked log"
  "m_primary_recovery (machine_of d log) = PrimaryNoRecoveryAttempt \<longleftrightarrow> pending_recovery Primary log = None"
  "m_primary_recovery (machine_of d log) = PrimaryRecoveryAttempt p \<longleftrightarrow> (\<exists>t. pending_recovery Primary log = Some (p, t))"
  "m_primary_withdraw (machine_of d log) = PrimaryBadgeWithdrawAttempt \<longleftrightarrow> pending_withdrawal Primary log"
  "m_primary_withdraw (machine_of d log) = PrimaryNoBadgeWithdrawAttempt \<longleftrightarrow> \<not> pending_withdrawal Primary log"
  "m_recovery_withdraw (machine_of d log) = RecoveryBadgeWithdrawAttempt \<longleftrightarrow> pending_withdrawal Recovery log"
  "m_recovery_withdraw (machine_of d log) = RecoveryNoBadgeWithdrawAttempt \<longleftrightarrow> \<not> pending_withdrawal Recovery log"
  "m_recovery_recovery (machine_of d log) = RecoveryNoRecoveryAttempt \<longleftrightarrow> pending_recovery Recovery log = None"
  "m_recovery_recovery (machine_of d log) = RecoveryRecoveryAttempt (UntimedRecovery p) \<longleftrightarrow>
     (\<exists>t. pending_recovery Recovery log = Some (p, t)) \<and> (d = None \<or> timer_stopped log)"
  "m_recovery_recovery (machine_of d log) = RecoveryRecoveryAttempt (TimedRecovery p a) \<longleftrightarrow>
     (\<exists>t n. pending_recovery Recovery log = Some (p, t) \<and> d = Some n \<and> \<not> timer_stopped log \<and> a = 60 * (t + n))"
  by (auto simp: machine_of_def split: option.splits)

lemma confirmation_machine: "is_confirmation m \<Longrightarrow> machine_of d ((m, t) # log) = default_machine"
  by (cases m) (simp_all add: machine_of_def default_machine_def)

lemma export_follows:
  assumes "invoke_export E m w = Ok (out, w')"
    and "machine (substate w) = machine_of (timed_recovery_delay_in_minutes (substate w)) log"
  shows "machine (substate w') = machine_of (timed_recovery_delay_in_minutes (substate w))
    ((m, epoch_minute (ac_clock w)) # log)"
proof (cases "is_confirmation m")
  case True
  then show ?thesis using assms(1) unfolding confirmation_machine [OF True]
    by (cases m)
       (auto simp: method_defs transition_defs ac_eqs action_iffs res_iffs validate_Ok_iff Let_def
         split: primary_role_recovery_attempt_state.split_asm primary_role_badge_withdraw_attempt_state.split_asm
           recovery_role_recovery_attempt_state.split_asm recovery_role_badge_withdraw_attempt_state.split_asm
           recovery_role_recovery_state.split_asm if_split_asm
         dest!: update_role_assignment_Ok)
next
  case False
  then show ?thesis using assms
    by (cases m)
       (auto simp: method_defs transition_defs ac_eqs action_iffs res_iffs validate_Ok_iff Let_def
          machine_of_def
         split: primary_role_recovery_attempt_state.split_asm primary_role_badge_withdraw_attempt_state.split_asm
           recovery_role_recovery_attempt_state.split_asm recovery_role_badge_withdraw_attempt_state.split_asm
           recovery_role_recovery_state.split_asm primary_role_locking_state.split_asm option.split_asm if_split_asm
         dest!: allowed_after_eq)
qed

interpretation controller: invariant_of ac_init "ac_step E" follows_log for E
proof (unfold_locales, goal_cases)
  case (1 s)
  then show ?case by (auto simp: ac_init_def follows_log_def machine_of_def default_machine_def split: prod.splits)
next
  case (2 s t)
  from 2(2,1) show ?case
  proof (cases rule: ac_step.cases)
    case (ac_call m w out w' log)
    from ac_call(3) show ?thesis
      by (rule call_method_Ok)
         (use 2(1) ac_call(1,2) export_follows [of E m] export_frame [of E m] in \<open>fastforce simp: follows_log_def\<close>)
  qed (auto simp: follows_log_def)
qed


section \<open>Who may change the rules\<close>

fun other_roles :: "proposer \<Rightarrow> string set" where
  "other_roles Primary = {''recovery'', ''confirmation''}"
| "other_roles Recovery = {''primary'', ''confirmation''}"

text \<open>The two ways a change of the rules can be justified by the log.\<close>

definition recovery_justified :: "'w ac_env \<Rightarrow> 'w ac_world \<Rightarrow> call_log \<Rightarrow> rule_set \<Rightarrow> bool" where
  "recovery_justified E w log rules \<longleftrightarrow>
     (\<exists>r p t. pending_recovery r log = Some (p, t) \<and> rules = proposed_rule_set p \<and>
        ((\<exists>key \<in> other_roles r. authorized_as E w key) \<or>
         (\<exists>d. r = Recovery \<and> \<not> timer_stopped log \<and> timed_recovery_delay_in_minutes (substate w) = Some d \<and>
            min (t + d) (i_max 32) \<le> epoch_minute (ac_clock w))))"

definition withdrawal_justified :: "'w ac_env \<Rightarrow> 'w ac_world \<Rightarrow> call_log \<Rightarrow> bool" where
  "withdrawal_justified E w log \<longleftrightarrow>
     (\<exists>r. pending_withdrawal r log \<and> (\<exists>key \<in> other_roles r. authorized_as E w key))"

lemma delay_elapsed:
  "compare_current_time (60 * t + 60 * d) PrecisionMinute TGte c \<Longrightarrow> min (t + d) (i_max 32) \<le> epoch_minute c"
  using whole_minute_elapsed [of "t + d" c] by (simp add: distrib_left)

lemma export_roles:
  assumes "invoke_export E m w = Ok (out, w')"
    and "machine (substate w) = machine_of (timed_recovery_delay_in_minutes (substate w)) log"
  shows "ac_roles w' = ac_roles w \<and> \<not> is_confirmation m \<or>
    (\<exists>p t. ac_roles w' = assign_rules (proposed_rule_set p) (ac_roles w) \<and>
       (m = QuickConfirmPrimaryRoleRecoveryProposal p \<and> pending_recovery Primary log = Some (p, t) \<or>
        m = QuickConfirmRecoveryRoleRecoveryProposal p \<and> pending_recovery Recovery log = Some (p, t) \<or>
        m = TimedConfirmRecovery p \<and> pending_recovery Recovery log = Some (p, t) \<and> \<not> timer_stopped log \<and>
          (\<exists>d. timed_recovery_delay_in_minutes (substate w) = Some d \<and> min (t + d) (i_max 32) \<le> epoch_minute (ac_clock w)))) \<or>
    ac_roles w' = assign_rules locked_role_assignment (ac_roles w) \<and>
      (m = QuickConfirmPrimaryRoleBadgeWithdrawAttempt \<and> pending_withdrawal Primary log \<or>
       m = QuickConfirmRecoveryRoleBadgeWithdrawAttempt \<and> pending_withdrawal Recovery log)"
proof (cases "is_confirmation m")
  case True
  show ?thesis using True assms(1)
    by (cases m)
       (auto simp: method_defs transition_defs ac_eqs action_iffs res_iffs validate_Ok_iff Let_def assms(2)
          machine_of_simps
         split: primary_role_recovery_attempt_state.split_asm primary_role_badge_withdraw_attempt_state.split_asm
           recovery_role_recovery_attempt_state.split_asm recovery_role_badge_withdraw_attempt_state.split_asm
           recovery_role_recovery_state.split_asm if_split_asm
         dest!: update_role_assignment_Ok delay_elapsed)
next
  case False
  then show ?thesis using assms(1)
    by (cases m)
       (auto simp: method_defs transition_defs ac_eqs action_iffs res_iffs validate_Ok_iff Let_def
         split: primary_role_recovery_attempt_state.split_asm primary_role_badge_withdraw_attempt_state.split_asm
           recovery_role_recovery_attempt_state.split_asm recovery_role_badge_withdraw_attempt_state.split_asm
           recovery_role_recovery_state.split_asm primary_role_locking_state.split_asm option.split_asm if_split_asm)
qed

end
