(* ===== verification/Access_Controller_Safety.thy ===== *)
theory Access_Controller_Safety
  imports Access_Controller_Laws
begin

text \<open>
  The guarantees of the access controller as properties: the state machines follow the log of
  calls, the rules change by two parties, a badge withdrawal is final, a confirmation goes
  through. The vault of the controlled asset is used through the contract \<open>vault_contract\<close>,
  which the fungible vault is shown to keep.
\<close>


section \<open>The vault of the controlled asset\<close>

text \<open>
  The calls of \<^verbatim>\<open>NativeVault\<close> on a fungible vault. A fungible vault has no methods on local ids.
\<close>

definition fungible_api :: "world asset_api" where
  "fungible_api = \<lparr>api_is_fungible = (\<lambda>_. True), api_create_vault = create_empty_vault, api_put = vault_put,
     api_amount = (\<lambda>v. abind (get_vault v) (\<lambda>s. aread (\<lambda>_. vault_get_amount s))), api_take = vault_take,
     api_proof_of_amount = vault_create_proof_of_amount,
     api_local_ids = (\<lambda>v _ _. Error (NodeNotFound v)), api_proof_of_ids = (\<lambda>v _ _. Error (NodeNotFound v))\<rparr>"

locale vault_contract =
  fixes api :: "'w asset_api"
  assumes amount_reads: "api_amount api v a = Ok (x, a') \<Longrightarrow> a' = a"
    and take_whole_amount:
      "api_amount api v a = Ok (x, a) \<Longrightarrow> api_take api v x a = Ok (b, a') \<Longrightarrow> api_amount api v a' = Ok (0, a')"
begin

lemma take_all_empties: "native_take_all api v a = Ok (b, a') \<Longrightarrow> api_amount api v a' = Ok (0, a')"
  by (auto simp: native_take_all_def abind_Ok_iff dest: amount_reads intro: take_whole_amount)

lemma withdrawal_empties:
  assumes "invoke_export E m w = Ok (out, w')" "env_api E = api"
    and "m \<in> {QuickConfirmPrimaryRoleBadgeWithdrawAttempt, QuickConfirmRecoveryRoleBadgeWithdrawAttempt}"
  shows "api_amount api (controlled_asset (substate w')) (ac_assets w') = Ok (0, ac_assets w')"
  using assms(1,3)
  by (auto simp: assms(2) method_defs ac_eqs action_iffs
      split: primary_role_badge_withdraw_attempt_state.split_asm recovery_role_badge_withdraw_attempt_state.split_asm
      dest!: update_role_assignment_Ok take_all_empties)

end

lemma exact_withdrawal: "for_withdrawal amount divisibility Exact = Ok amount"
  by simp

interpretation fungible_asset: vault_contract fungible_api
proof (unfold_locales, goal_cases)
  case (1 v a x a')
  then show ?case by (auto simp: fungible_api_def action_iffs get_vault_def)
next
  case (2 v a x b a')
  then show ?case
    by (auto simp: fungible_api_def action_iffs get_vault_def vault_take_def vault_take_advanced_def res_iffs
        take_from_vault_def get_manager_def create_bucket_def emit_event_def set_vault_def vault_internal_take_def
        vault_get_amount_def liquid_take_iff dec_checked_add_def i_checked_add_def i_checked_def split: if_splits)
qed


section \<open>Authorization of the methods\<close>

fun roles_of :: "ac_method \<Rightarrow> string list option" where
  "roles_of (TimedConfirmRecovery _) = None"
| "roles_of (ContributeRecoveryFee _) = None"
| "roles_of CreateProof = Some [''primary'']"
| "roles_of (InitiateRecoveryAsPrimary _) = Some [''primary'']"
| "roles_of CancelPrimaryRoleRecoveryProposal = Some [''primary'']"
| "roles_of InitiateBadgeWithdrawAttemptAsPrimary = Some [''primary'']"
| "roles_of CancelPrimaryRoleBadgeWithdrawAttempt = Some [''primary'']"
| "roles_of (WithdrawRecoveryFee _) = Some [''primary'']"
| "roles_of (QuickConfirmPrimaryRoleRecoveryProposal _) = Some [''recovery'', ''confirmation'']"
| "roles_of QuickConfirmPrimaryRoleBadgeWithdrawAttempt = Some [''recovery'', ''confirmation'']"
| "roles_of (QuickConfirmRecoveryRoleRecoveryProposal _) = Some [''primary'', ''confirmation'']"
| "roles_of QuickConfirmRecoveryRoleBadgeWithdrawAttempt = Some [''primary'', ''confirmation'']"
| "roles_of (MintRecoveryBadges _) = Some [''primary'', ''recovery'']"
| "roles_of (StopTimedRecovery _) = Some [''primary'', ''confirmation'', ''recovery'']"
| "roles_of (LockRecoveryFee _) = Some [''primary'', ''confirmation'', ''recovery'']"
| "roles_of m = Some [''recovery'']"

lemma method_roles:
  "map_of ac_methods_spec (ac_ident m) = Some (case roles_of m of None \<Rightarrow> Public | Some keys \<Rightarrow> RoleProtected keys)"
  by (cases m) (simp_all add: ac_methods_spec_def)

lemma call_authorized:
  assumes "call_method E m w = Ok (out, w')" "roles_of m = Some keys"
  shows "\<exists>key \<in> set keys. authorized_as E w key"
  using assms(1)
  by (rule call_method_Ok) (use on_call_authorized [of E w "ac_ident m"] method_roles [of m] assms(2) in simp)

lemma call_export:
  assumes "call_method E m w = Ok (out, w')"
  obtains w0 v where "invoke_export E m w0 = Ok (out, v)" "ac_field w0 = ac_field w" "ac_roles w0 = ac_roles w"
    "ac_clock w0 = ac_clock w" "ac_field w' = ac_field v" "ac_roles w' = ac_roles v" "ac_assets w' = ac_assets v"
  using assms by (rule call_method_Ok) (auto intro: that)

lemma rule_change_justified:
  assumes "call_method E m w = Ok (out, w')" "follows_log (w, log)" "ac_roles w' \<noteq> ac_roles w"
  shows "\<exists>rules. ac_roles w' = assign_rules rules (ac_roles w) \<and>
    (recovery_justified E w log rules \<or> rules = locked_role_assignment \<and> withdrawal_justified E w log)"
proof -
  from assms(1) obtain w0 v where run: "invoke_export E m w0 = Ok (out, v)"
    and same: "ac_field w0 = ac_field w" "ac_roles w0 = ac_roles w" "ac_clock w0 = ac_clock w" "ac_roles w' = ac_roles v"
    by (rule call_export)
  have auth: "roles_of m = Some keys \<Longrightarrow> \<exists>key \<in> set keys. authorized_as E w key" for keys
    using call_authorized [OF assms(1)] .
  from assms(2) same have "machine (substate w0) = machine_of (timed_recovery_delay_in_minutes (substate w0)) log"
    by (simp add: follows_log_def)
  from export_roles [OF run this] assms(3) same auth show ?thesis
    unfolding recovery_justified_def withdrawal_justified_def by (elim disjE exE conjE) (force | auto)+
qed


section \<open>Locked controllers\<close>

definition ac_locked :: "'w ac_world \<Rightarrow> bool" where
  "ac_locked w \<longleftrightarrow> machine (substate w) = default_machine \<and>
     (\<forall>key \<in> {''primary'', ''recovery'', ''confirmation''}. rules_in_force w key = Some DenyAll)"

lemma locked_not_authorized:
  "ac_locked w \<Longrightarrow> key \<in> {''primary'', ''recovery'', ''confirmation''} \<Longrightarrow> \<not> authorized_as E w key"
  by (auto simp: ac_locked_def rules_in_force_def authorized_as_def SELF_ROLE_def
      check_authorization_against_role_key_internal_def)

lemma known_roles: "roles_of m = Some keys \<Longrightarrow> set keys \<subseteq> {''primary'', ''recovery'', ''confirmation''}"
  by (cases m) auto

lemma locked_call:
  assumes "ac_locked w" "call_method E m w = Ok (out, w')"
  shows "(\<exists>b. m = ContributeRecoveryFee b) \<and> ac_locked w'"
proof -
  have public: "roles_of m = None"
    using call_authorized [OF assms(2)] known_roles locked_not_authorized [OF assms(1)] by (cases "roles_of m") blast+
  from assms(2) obtain w0 v where run: "invoke_export E m w0 = Ok (out, v)"
    and same: "ac_field w0 = ac_field w" "ac_roles w0 = ac_roles w" "ac_field w' = ac_field v" "ac_roles w' = ac_roles v"
    by (rule call_export)
  from run assms(1) have contribute: "\<exists>b. m = ContributeRecoveryFee b" using public
    by (cases m) (auto simp: ac_locked_def same default_machine_def method_defs transition_defs ac_eqs action_iffs)
  with run have "machine (substate v) = machine (substate w0) \<and> ac_roles v = ac_roles w0"
    by (auto simp: method_defs ac_eqs action_iffs split: option.split_asm)
  with assms(1) same contribute show ?thesis by (simp add: ac_locked_def rules_in_force_def)
qed

lemma reach_weaken: "reach init step s \<Longrightarrow> (\<And>t. init t \<Longrightarrow> init' t) \<Longrightarrow> reach init' step s"
  by (induction rule: reach.induct) (auto intro: reach.intros)

interpretation locked: invariant_of "\<lambda>s. ac_locked (fst s)" "ac_step E" "\<lambda>(w, log). ac_locked w" for E
proof (unfold_locales, goal_cases)
  case (2 s t)
  from 2(2,1) show ?case
  proof (cases rule: ac_step.cases)
    case (ac_call m w out w' log)
    then show ?thesis using 2(1) locked_call [of w E m out w'] by auto
  qed (auto simp: ac_locked_def rules_in_force_def)
qed auto

lemma withdrawal_locks:
  assumes "call_method E m w = Ok (out, w')"
    and "m \<in> {QuickConfirmPrimaryRoleBadgeWithdrawAttempt, QuickConfirmRecoveryRoleBadgeWithdrawAttempt}"
  shows "ac_locked w'"
proof -
  from assms(1) obtain w0 v where run: "invoke_export E m w0 = Ok (out, v)"
    and same: "ac_field w' = ac_field v" "ac_roles w' = ac_roles v"
    by (rule call_export)
  from run assms(2) show ?thesis
    by (auto simp: ac_locked_def rules_in_force_def same method_defs ac_eqs action_iffs assign_rules_def
        locked_role_assignment_def
      split: primary_role_badge_withdraw_attempt_state.split_asm recovery_role_badge_withdraw_attempt_state.split_asm
      dest!: update_role_assignment_Ok)
qed


section \<open>Confirmations go through\<close>

text \<open>The controller is authorized to set its own roles.\<close>

lemma self_authorized:
  assumes "addr \<noteq> FRAME_OWNED_GLOBAL_MARKER" "key \<in> {''primary'', ''recovery'', ''confirmation''}"
  shows "\<exists>zones'. on_call_method H fresh zones (MethodActor p z (OriginGlobal addr)) roles addr ac_object_info False
    ac_template RoleAssignmentModule ''set'' (Some (SetRole MainModule key rule)) = Ok zones'"
  using assms
  by (auto simp: on_call_method_def create_auth_zone_def ac_object_info_def resolve_method_permission_def
      role_assignment_authorization_def resolve_update_role_method_permission_def ac_template_def ac_roles_spec_def
      is_role_key_reserved_def check_permission_def check_authorization_against_role_key_internal_def
      require_global_caller_def auth_zone_stack_matches_rule_def auth_zone_stack_matches_def
      local_implicit_non_fungible_proofs_def check_rule_def Let_def)

lemma call_set_role_succeeds:
  assumes "ac_actor w = MethodActor p z (OriginGlobal (ac_address w))" "ac_address w \<noteq> FRAME_OWNED_GLOBAL_MARKER"
    and "key \<in> {''primary'', ''recovery'', ''confirmation''}" "verify_access_rule rule = Ok ()"
  shows "call_set_role H key rule w =
    Ok ((), w\<lparr>ac_roles := (ac_roles w)\<lparr>ra_roles := (ra_roles (ac_roles w))((MainModule, key) \<mapsto> rule)\<rparr>\<rparr>)"
proof -
  have "set_role True MainModule key rule (ac_roles w) =
      Ok ((ac_roles w)\<lparr>ra_roles := (ra_roles (ac_roles w))((MainModule, key) \<mapsto> rule)\<rparr>)"
    using assms(3,4)
    by (auto simp: set_role_def is_role_key_reserved_def MAX_ROLE_NAME_LEN_def check_name_def name_start_char_def
        name_char_def)
  moreover obtain zones' where
    "on_call_method H (fresh_zone (ac_zones w)) (ac_zones w) (MethodActor p z (OriginGlobal (ac_address w)))
       (\<lambda>_. ac_roles w) (ac_address w) ac_object_info False ac_template RoleAssignmentModule ''set''
       (Some (SetRole MainModule key rule)) = Ok zones'"
    using self_authorized [OF assms(2,3)] by blast
  ultimately show ?thesis by (simp add: call_set_role_def assms(1))
qed

lemma update_role_assignment_succeeds:
  assumes "ac_actor w = MethodActor p z (OriginGlobal (ac_address w))" "ac_address w \<noteq> FRAME_OWNED_GLOBAL_MARKER"
    and "rules_ok r"
  shows "update_role_assignment H r w = Ok ((), w\<lparr>ac_roles := assign_rules r (ac_roles w)\<rparr>)"
  using assms
  by (simp add: update_role_assignment_def abind_def call_set_role_succeeds rules_ok_def assign_rules_def)

fun pending_proposal :: "ac_machine \<Rightarrow> ac_method \<Rightarrow> recovery_proposal option" where
  "pending_proposal s (QuickConfirmPrimaryRoleRecoveryProposal _) =
     (case m_primary_recovery s of PrimaryRecoveryAttempt p \<Rightarrow> Some p | _ \<Rightarrow> None)"
| "pending_proposal s (QuickConfirmRecoveryRoleRecoveryProposal _) =
     (case m_recovery_recovery s of
        RecoveryRecoveryAttempt (UntimedRecovery p) \<Rightarrow> Some p
      | RecoveryRecoveryAttempt (TimedRecovery p _) \<Rightarrow> Some p
      | _ \<Rightarrow> None)"
| "pending_proposal s (TimedConfirmRecovery _) =
     (case m_recovery_recovery s of RecoveryRecoveryAttempt (TimedRecovery p _) \<Rightarrow> Some p | _ \<Rightarrow> None)"
| "pending_proposal s _ = None"

text \<open>Only the timed confirmation has to wait for the announced delay.\<close>

fun delay_elapsed :: "clock \<Rightarrow> ac_machine \<Rightarrow> ac_method \<Rightarrow> bool" where
  "delay_elapsed c s (TimedConfirmRecovery _) =
     (case m_recovery_recovery s of
        RecoveryRecoveryAttempt (TimedRecovery _ allowed_after) \<Rightarrow>
          compare_current_time allowed_after PrecisionMinute TGte c
      | _ \<Rightarrow> False)"
| "delay_elapsed c s _ = True"

lemma confirm_export:
  assumes "m \<in> {QuickConfirmPrimaryRoleRecoveryProposal p, QuickConfirmRecoveryRoleRecoveryProposal p,
      TimedConfirmRecovery p}"
    and "pending_proposal (machine (substate w)) m = Some p" "rules_ok (proposed_rule_set p)"
    and "delay_elapsed (ac_clock w) (machine (substate w)) m"
    and "ac_actor w = MethodActor pkg z (OriginGlobal (ac_address w))" "ac_address w \<noteq> FRAME_OWNED_GLOBAL_MARKER"
  shows "\<exists>e. invoke_export E m w = Ok (NoOutput, w\<lparr>ac_field := StateV2 ((substate w)\<lparr>machine := default_machine\<rparr>),
    ac_roles := assign_rules (proposed_rule_set p) (ac_roles w), ac_events := ac_events w @ [e]\<rparr>)"
proof -
  define w1 where "w1 = w\<lparr>ac_field := StateV2 ((substate w)\<lparr>machine := default_machine\<rparr>)\<rparr>"
  have "update_role_assignment (env_hashes E) (proposed_rule_set p) w1 =
      Ok ((), w1\<lparr>ac_roles := assign_rules (proposed_rule_set p) (ac_roles w)\<rparr>)"
    using update_role_assignment_succeeds [of w1 pkg z] assms(3,5,6) by (simp add: w1_def)
  moreover have "transition_mut (tr_timed_confirm_recovery p) w = Ok (p, w1)"
    if "m_recovery_recovery (machine (substate w)) = RecoveryRecoveryAttempt (TimedRecovery p t)"
      "compare_current_time t PrecisionMinute TGte (ac_clock w)" for t
    using that by (simp add: transition_mut_Ok_iff tr_timed_confirm_recovery_def validate_recovery_proposal_def w1_def)
  moreover have "transition_mut (tr_quick_confirm_primary_recovery p) w = Ok (p, w1)"
    if "m_primary_recovery (machine (substate w)) = PrimaryRecoveryAttempt p"
    using that by (simp add: transition_mut_Ok_iff tr_quick_confirm_primary_recovery_def validate_recovery_proposal_def w1_def)
  moreover have "transition_mut (tr_quick_confirm_recovery_recovery p) w = Ok (p, w1)"
    if "m_recovery_recovery (machine (substate w)) = RecoveryRecoveryAttempt r"
      "pending_proposal (machine (substate w)) (QuickConfirmRecoveryRoleRecoveryProposal p) = Some p" for r
    using that by (cases r)
      (simp_all add: transition_mut_Ok_iff tr_quick_confirm_recovery_recovery_def validate_recovery_proposal_def w1_def)
  ultimately show ?thesis using assms(1,2,4)
    by (auto simp: ac_unit_Ok_iff quick_confirm_primary_role_recovery_proposal_def abind_Ok_iff ac_emit_Ok_iff w1_def
        quick_confirm_recovery_role_recovery_proposal_def timed_confirm_recovery_def
        split: primary_role_recovery_attempt_state.split_asm recovery_role_recovery_attempt_state.split_asm
          recovery_role_recovery_state.split_asm)
qed

lemma fresh_zone_new: "fresh_zone zones \<notin> fst ` set zones"
proof -
  have "(z, zone) \<in> set zones \<Longrightarrow> z \<le> foldr (\<lambda>(z, _). max z) zones 0" for z zone
    by (induction zones) auto
  then show ?thesis unfolding fresh_zone_def by fastforce
qed


text \<open>A controller that has just been created is in an initial state.\<close>

lemma created_controller_init: "ac_create api bucket rules delay badge addr c xrd assets = Ok w \<Longrightarrow> ac_init (w, [])"
  by (auto simp: ac_create_def ac_init_def res_iffs)


section \<open>A controller\<close>

text \<open>
  A controller of ten whole tokens that anybody may act on, for the witnesses.
\<close>

definition open_rules :: rule_set where
  "open_rules = \<lparr>primary_role = AllowAll, recovery_role = AllowAll, confirmation_role = AllowAll\<rparr>"

definition demo_proposal :: recovery_proposal where
  "demo_proposal = \<lparr>proposed_rule_set = open_rules\<lparr>confirmation_role := DenyAll\<rparr>, proposed_delay = None\<rparr>"

definition demo_env :: "world ac_env" where
  "demo_env = \<lparr>env_hashes = demo_hashes, env_api = fungible_api, env_mint = (\<lambda>r _ _. Error (NodeNotFound r))\<rparr>"

definition demo_machine_world :: "ac_machine \<Rightarrow> ac_event list \<Rightarrow> world ac_world" where
  "demo_machine_world s es =
     \<lparr>ac_field = StateV2 \<lparr>controlled_asset = 1, xrd_fee_vault = None, timed_recovery_delay_in_minutes = Some 30,
        recovery_badge = 5, machine = s\<rparr>,
      ac_roles = \<lparr>ra_owner_rule = DenyAll, ra_owner_updater = UpdaterNone, ra_owner_locked = True,
        ra_roles = [(MainModule, ''primary'') \<mapsto> AllowAll, (MainModule, ''recovery'') \<mapsto> AllowAll,
          (MainModule, ''confirmation'') \<mapsto> AllowAll]\<rparr>,
      ac_address = 300, ac_clock = \<lparr>epoch_milli = 60000, epoch_minute = 1\<rparr>, ac_assets = demo_deposited,
      ac_xrd = demo_created, ac_events = es, ac_zones = [], ac_actor = Root\<rparr>"

definition demo_zone :: auth_zone where
  "demo_zone = \<lparr>az_proofs = [], az_simulate = [], az_implicit = [], az_direct_caller_package = None,
     az_global_caller = None, az_parent = None\<rparr>"

lemma demo_authorized:
  assumes "roles_of m = Some (key # keys)" "key \<in> {''primary'', ''recovery'', ''confirmation''}"
  shows "on_call_method H 1 [] Root (\<lambda>_. ac_roles (demo_machine_world s es)) 300 ac_object_info False ac_template
    MainModule (ac_ident m) None = Ok [(1, demo_zone)]"
  using assms method_roles [of m]
  by (auto simp: on_call_method_def create_auth_zone_def ac_object_info_def demo_zone_def resolve_method_permission_def
      ac_template_def check_permission_def check_authorization_against_role_key_internal_def SELF_ROLE_def
      demo_machine_world_def)

lemma demo_call:
  assumes "roles_of m = Some (key # keys)" "key \<in> {''primary'', ''recovery'', ''confirmation''}"
    and "invoke_export demo_env m ((demo_machine_world s es)\<lparr>ac_zones := [(1, demo_zone)],
      ac_actor := MethodActor ACCESS_CONTROLLER_PACKAGE 1 (OriginGlobal 300)\<rparr>) = Ok (out, v)"
    and "ac_zones v = [(1, demo_zone)]"
  shows "call_method demo_env m (demo_machine_world s es) = Ok (out, v\<lparr>ac_zones := [], ac_actor := Root\<rparr>)"
proof -
  have w: "fresh_zone [] = 1" "ac_zones (demo_machine_world s es) = []"
    "ac_actor (demo_machine_world s es) = Root" "ac_address (demo_machine_world s es) = 300"
    by (simp_all add: demo_machine_world_def fresh_zone_def)
  show ?thesis unfolding call_method_def w Let_def
    by (simp add: demo_authorized [OF assms(1,2)] assms(3,4) teardown_auth_zone_def del: One_nat_def)
qed

lemma demo_initiate:
  "call_method demo_env (InitiateRecoveryAsPrimary demo_proposal) (demo_machine_world default_machine []) =
   Ok (NoOutput, demo_machine_world (default_machine\<lparr>m_primary_recovery := PrimaryRecoveryAttempt demo_proposal\<rparr>)
     [InitiateRecoveryEvent Primary demo_proposal])"
  by (subst demo_call [where key = "''primary''" and keys = "[]"])
     (auto simp: ac_unit_Ok_iff initiate_recovery_as_primary_def action_iffs transition_mut_Ok_iff ac_emit_Ok_iff
       tr_initiate_recovery_as_primary_def demo_machine_world_def default_machine_def)

lemma demo_initiate_withdrawal:
  "call_method demo_env InitiateBadgeWithdrawAttemptAsPrimary (demo_machine_world default_machine []) =
   Ok (NoOutput, demo_machine_world (default_machine\<lparr>m_primary_withdraw := PrimaryBadgeWithdrawAttempt\<rparr>)
     [InitiateBadgeWithdrawAttemptEvent Primary])"
  by (subst demo_call [where key = "''primary''" and keys = "[]"])
     (auto simp: ac_unit_Ok_iff initiate_badge_withdraw_attempt_as_primary_def action_iffs transition_mut_Ok_iff
       ac_emit_Ok_iff tr_initiate_badge_withdraw_as_primary_def demo_machine_world_def default_machine_def)

definition demo_pending :: "world ac_world" where
  "demo_pending = demo_machine_world (default_machine\<lparr>m_primary_recovery := PrimaryRecoveryAttempt demo_proposal\<rparr>)
     [InitiateRecoveryEvent Primary demo_proposal]"

lemma demo_pending_reachable:
  "reach ac_init (ac_step demo_env) (demo_pending, [(InitiateRecoveryAsPrimary demo_proposal, 1)])"
proof -
  have "reach ac_init (ac_step demo_env) (demo_machine_world default_machine [], [])"
    by (rule reach_init) (simp add: ac_init_def demo_machine_world_def)
  from reach_step [OF this ac_call [OF demo_initiate]] show ?thesis
    by (simp add: demo_pending_def demo_machine_world_def)
qed

lemma demo_confirm:
  "\<exists>w'. call_method demo_env (QuickConfirmPrimaryRoleRecoveryProposal demo_proposal) demo_pending = Ok (NoOutput, w') \<and>
     ac_roles w' = assign_rules (proposed_rule_set demo_proposal) (ac_roles demo_pending)"
proof -
  define m where "m = QuickConfirmPrimaryRoleRecoveryProposal demo_proposal"
  define w where "w = demo_pending\<lparr>ac_zones := [(1, demo_zone)],
      ac_actor := MethodActor ACCESS_CONTROLLER_PACKAGE 1 (OriginGlobal 300)\<rparr>"
  have "rules_ok (proposed_rule_set demo_proposal)"
    by (simp add: rules_ok_def demo_proposal_def open_rules_def verify_access_rule_def)
  with confirm_export [of m demo_proposal w ACCESS_CONTROLLER_PACKAGE 1 demo_env]
  obtain e where "invoke_export demo_env m w = Ok (NoOutput, w\<lparr>ac_field := StateV2 ((substate w)\<lparr>machine := default_machine\<rparr>),
    ac_roles := assign_rules (proposed_rule_set demo_proposal) (ac_roles w), ac_events := ac_events w @ [e]\<rparr>)"
    by (auto simp: m_def w_def demo_pending_def demo_machine_world_def FRAME_OWNED_GLOBAL_MARKER_def)
  from demo_call [OF _ _ this [unfolded w_def demo_pending_def]] show ?thesis
    unfolding m_def demo_pending_def by simp
qed

lemma demo_withdraw:
  "\<exists>b w'. call_method demo_env QuickConfirmPrimaryRoleBadgeWithdrawAttempt
     (demo_machine_world (default_machine\<lparr>m_primary_withdraw := PrimaryBadgeWithdrawAttempt\<rparr>) es) = Ok (OutBucket b, w')"
proof -
  define w where "w = (demo_machine_world (default_machine\<lparr>m_primary_withdraw := PrimaryBadgeWithdrawAttempt\<rparr>) es)
    \<lparr>ac_zones := [(1, demo_zone)], ac_actor := MethodActor ACCESS_CONTROLLER_PACKAGE 1 (OriginGlobal 300)\<rparr>"
  obtain b a where take: "native_take_all fungible_api 1 demo_deposited = Ok (b, a)"
    by (simp add: native_take_all_def fungible_api_def vault_take_def vault_take_advanced_def take_from_vault_def
        vault_get_amount_def demo_deposited_def demo_created_def demo_eval i_checked_def in_range_def i_min_def i_max_def)
  define w1 where "w1 = w\<lparr>ac_assets := a, ac_field := StateV2 ((substate w)\<lparr>machine := default_machine\<rparr>)\<rparr>"
  have "update_role_assignment demo_hashes locked_role_assignment w1 =
      Ok ((), w1\<lparr>ac_roles := assign_rules locked_role_assignment (ac_roles w1)\<rparr>)"
    by (rule update_role_assignment_succeeds [where p = ACCESS_CONTROLLER_PACKAGE and z = 1])
       (auto simp: w1_def w_def demo_machine_world_def FRAME_OWNED_GLOBAL_MARKER_def rules_ok_def
         locked_role_assignment_def verify_access_rule_def)
  with take have "\<exists>v. invoke_export demo_env QuickConfirmPrimaryRoleBadgeWithdrawAttempt w = Ok (OutBucket b, v) \<and>
      ac_zones v = [(1, demo_zone)]"
    by (auto simp: quick_confirm_primary_role_badge_withdraw_attempt_def tr_quick_confirm_primary_withdraw_def action_iffs with_state_mut_Ok_iff
        on_assets_Ok_iff ac_emit_Ok_iff demo_env_def w1_def w_def demo_machine_world_def)
  then obtain v where run: "invoke_export demo_env QuickConfirmPrimaryRoleBadgeWithdrawAttempt w = Ok (OutBucket b, v)"
    and zones: "ac_zones v = [(1, demo_zone)]" by blast
  from demo_call [OF _ _ run [unfolded w_def] zones, of "''recovery''" "[''confirmation'']"] show ?thesis by auto
qed

section \<open>Properties\<close>

text \<open>
  C27. The five state machines of an access controller refine the log of its successful calls: in
  every reachable state they show exactly which proposals and withdrawals the log leaves pending,
  whether the primary role is locked, and from which instant on a timed recovery may be confirmed.
\<close>

theorem controller_follows_log:
  assumes "reach ac_init (ac_step E) (w, log)"
  shows "machine (substate w) = machine_of (timed_recovery_delay_in_minutes (substate w)) log"
  using controller.reach_inv [OF assms] by (simp add: follows_log_def)

theorem controller_follows_log_witness:
  "machine (substate demo_pending) = machine_of (Some 30) [(InitiateRecoveryAsPrimary demo_proposal, 1)]"
  using controller_follows_log [OF demo_pending_reachable] by (simp add: demo_pending_def demo_machine_world_def)

text \<open>
  C26. Nobody changes the rules of an access controller alone. When a call changes them, then either
  they become the rules of a proposal that is still pending, and the caller is authorized by a role
  other than the proposer's, or the recovery role proposed them and the delay has passed by the
  clock of the consensus manager without being stopped (a delay beyond the range of the clock ends
  when the clock does); or a badge withdrawal is pending, the caller is authorized by a role other
  than the one that asked for it, and the rules become deny-all.
\<close>

theorem rule_change_needs_two_parties:
  assumes "reach ac_init (ac_step E) (w, log)" "call_method E m w = Ok (out, w')" "ac_roles w' \<noteq> ac_roles w"
  shows "\<exists>rules. ac_roles w' = assign_rules rules (ac_roles w) \<and>
    (recovery_justified E w log rules \<or> rules = locked_role_assignment \<and> withdrawal_justified E w log)"
  using rule_change_justified [OF assms(2) controller.reach_inv [OF assms(1)] assms(3)] .

theorem rule_change_needs_two_parties_witness:
  "\<exists>w' rules. call_method demo_env (QuickConfirmPrimaryRoleRecoveryProposal demo_proposal) demo_pending = Ok (NoOutput, w') \<and>
     ac_roles w' = assign_rules rules (ac_roles demo_pending) \<and>
     (recovery_justified demo_env demo_pending [(InitiateRecoveryAsPrimary demo_proposal, 1)] rules \<or>
      rules = locked_role_assignment \<and>
        withdrawal_justified demo_env demo_pending [(InitiateRecoveryAsPrimary demo_proposal, 1)])"
proof -
  obtain w' where run: "call_method demo_env (QuickConfirmPrimaryRoleRecoveryProposal demo_proposal) demo_pending
      = Ok (NoOutput, w')"
    and roles: "ac_roles w' = assign_rules (proposed_rule_set demo_proposal) (ac_roles demo_pending)"
    using demo_confirm by blast
  have "ra_roles (ac_roles w') (MainModule, ''confirmation'') \<noteq> ra_roles (ac_roles demo_pending) (MainModule, ''confirmation'')"
    by (simp add: roles assign_rules_def demo_proposal_def demo_pending_def demo_machine_world_def)
  then have "ac_roles w' \<noteq> ac_roles demo_pending" by auto
  from rule_change_needs_two_parties [OF demo_pending_reachable run this] run show ?thesis by blast
qed

text \<open>
  C28. A badge withdrawal is final, whatever the controlled asset. Once a withdrawal is confirmed, in
  every later state all three roles are deny-all and no call succeeds any more but a contribution to
  the recovery fee, which nobody can ever take out or use again. The withdrawal leaves the vault of
  the asset empty when that vault keeps its contract: reading its amount changes nothing, and taking
  the whole amount leaves zero. The fungible vault is shown to keep it; the vault of non-fungible
  assets is a parameter.
\<close>

theorem badge_withdrawal_is_final:
  assumes "call_method E m w = Ok (out, w')"
    and "m \<in> {QuickConfirmPrimaryRoleBadgeWithdrawAttempt, QuickConfirmRecoveryRoleBadgeWithdrawAttempt}"
    and "reach (\<lambda>s. s = (w', log)) (ac_step E) (w2, log2)"
  shows "(vault_contract (env_api E) \<longrightarrow>
      api_amount (env_api E) (controlled_asset (substate w')) (ac_assets w') = Ok (0, ac_assets w')) \<and>
    (\<forall>key \<in> {''primary'', ''recovery'', ''confirmation''}. rules_in_force w2 key = Some DenyAll) \<and>
    (\<forall>m2 out2 w3. call_method E m2 w2 = Ok (out2, w3) \<longrightarrow> (\<exists>b. m2 = ContributeRecoveryFee b))"
proof -
  from assms(1) obtain w0 v where run: "invoke_export E m w0 = Ok (out, v)"
    and same: "ac_field w' = ac_field v" "ac_assets w' = ac_assets v"
    by (rule call_export)
  have "ac_locked w'" using withdrawal_locks [OF assms(1,2)] .
  then have "reach (\<lambda>s. ac_locked (fst s)) (ac_step E) (w2, log2)"
    using reach_weaken [OF assms(3)] by simp
  then have "ac_locked w2" using locked.reach_inv by fastforce
  moreover have "api_amount (env_api E) (controlled_asset (substate w')) (ac_assets w') = Ok (0, ac_assets w')"
    if "vault_contract (env_api E)"
    using vault_contract.withdrawal_empties [OF that run refl assms(2)] by (simp add: same)
  ultimately show ?thesis using locked_call [of w2 E] by (auto simp: ac_locked_def)
qed

theorem badge_withdrawal_is_final_witness:
  "\<exists>w out w'. call_method demo_env QuickConfirmPrimaryRoleBadgeWithdrawAttempt w = Ok (out, w') \<and>
     api_amount fungible_api (controlled_asset (substate w')) (ac_assets w') = Ok (0, ac_assets w') \<and>
     rules_in_force w' ''primary'' = Some DenyAll"
proof -
  define m where "m = QuickConfirmPrimaryRoleBadgeWithdrawAttempt"
  obtain b w' where run: "call_method demo_env m
      (demo_machine_world (default_machine\<lparr>m_primary_withdraw := PrimaryBadgeWithdrawAttempt\<rparr>) []) = Ok (OutBucket b, w')"
    using demo_withdraw m_def by blast
  have "reach (\<lambda>s. s = (w', [])) (ac_step demo_env) (w', [])"
    by (rule reach_init) simp
  moreover have api: "env_api demo_env = fungible_api" by (simp add: demo_env_def)
  ultimately show ?thesis
    using badge_withdrawal_is_final [OF run, unfolded api] run fungible_asset.vault_contract_axioms unfolding m_def by blast
qed

text \<open>
  C29. A confirmation of a recovery, quick or timed, that is authorized goes through: when the caller
  passes the check of the method's roles (the timed confirmation is public), the given proposal is
  the pending one, its rules are within the bounds of access rules, which initiating a recovery does
  not check, and for the timed confirmation the announced delay has elapsed by the clock, then the
  call succeeds, the controller is authorized to set its own roles, the proposed rules are in force
  and nothing is pending any more.
\<close>

theorem confirmation_goes_through:
  assumes "m \<in> {QuickConfirmPrimaryRoleRecoveryProposal p, QuickConfirmRecoveryRoleRecoveryProposal p,
      TimedConfirmRecovery p}"
    and "pending_proposal (machine (substate w)) m = Some p" "rules_ok (proposed_rule_set p)"
    and "delay_elapsed (ac_clock w) (machine (substate w)) m"
    and "on_call_method (env_hashes E) (fresh_zone (ac_zones w)) (ac_zones w) (ac_actor w) (\<lambda>_. ac_roles w)
      (ac_address w) ac_object_info False ac_template MainModule (ac_ident m) None = Ok zones"
    and "ac_address w \<noteq> FRAME_OWNED_GLOBAL_MARKER"
  shows "\<exists>w'. call_method E m w = Ok (NoOutput, w') \<and> ac_zones w' = ac_zones w \<and>
    ac_roles w' = assign_rules (proposed_rule_set p) (ac_roles w) \<and> machine (substate w') = default_machine"
proof -
  define z where "z = fresh_zone (ac_zones w)"
  define w0 where "w0 = w\<lparr>ac_zones := zones, ac_actor := MethodActor ACCESS_CONTROLLER_PACKAGE z (OriginGlobal (ac_address w))\<rparr>"
  from confirm_export [OF assms(1), of w0 ACCESS_CONTROLLER_PACKAGE z E] assms(2,3,4,6) obtain e where
    run: "invoke_export E m w0 = Ok (NoOutput, w0\<lparr>ac_field := StateV2 ((substate w0)\<lparr>machine := default_machine\<rparr>),
      ac_roles := assign_rules (proposed_rule_set p) (ac_roles w0), ac_events := ac_events w0 @ [e]\<rparr>)"
    by (auto simp: w0_def)
  obtain zone where zones: "zones = (z, zone) # ac_zones w"
    using assms(5) by (auto simp: on_call_method_def create_auth_zone_def res_iffs Let_def z_def)
  have "filter (\<lambda>(k, _). k \<noteq> z) (ac_zones w) = ac_zones w"
    using fresh_zone_new [of "ac_zones w"] by (force simp: z_def filter_id_conv)
  with run assms(5) show ?thesis
    by (simp add: call_method_def Let_def w0_def z_def teardown_auth_zone_def zones)
qed

theorem confirmation_goes_through_witness:
  "\<exists>w'. call_method demo_env (QuickConfirmPrimaryRoleRecoveryProposal demo_proposal) demo_pending = Ok (NoOutput, w') \<and>
     machine (substate w') = default_machine"
proof -
  define m where "m = QuickConfirmPrimaryRoleRecoveryProposal demo_proposal"
  have zones: "fresh_zone [] = 1" "ac_zones demo_pending = []" "ac_actor demo_pending = Root"
    "ac_address demo_pending = 300"
    by (simp_all add: demo_pending_def demo_machine_world_def fresh_zone_def)
  have "on_call_method (env_hashes demo_env) (fresh_zone (ac_zones demo_pending)) (ac_zones demo_pending)
      (ac_actor demo_pending) (\<lambda>_. ac_roles demo_pending) (ac_address demo_pending) ac_object_info False ac_template
      MainModule (ac_ident m) None = Ok [(1, demo_zone)]"
    unfolding zones unfolding demo_pending_def
    by (rule demo_authorized [where key = "''recovery''" and keys = "[''confirmation'']"]) (simp_all add: m_def)
  from confirmation_goes_through [OF _ _ _ _ this, of demo_proposal] show ?thesis
    by (auto simp: m_def demo_pending_def demo_machine_world_def rules_ok_def demo_proposal_def open_rules_def
        verify_access_rule_def FRAME_OWNED_GLOBAL_MARKER_def)
qed



end
