(* ===== verification/Validator.thy ===== *)
theory Validator
  imports Consensus_Clock Fungible_Ledger
begin

text \<open>
  The validator blueprint (\<^verbatim>\<open>consensus_manager/validator.rs\<close>): staking and unstaking, registration
  and the index of validators by stake, fees, the owner's locked stake units, emissions and rewards.
  A validator holds XRD in two vaults and its own stake units, a fungible resource of its own, in two
  more. The claim tokens it hands out for unstaked XRD are a non-fungible resource: the calls of
  its manager are the record \<open>claim_api\<close>. Epochs are \<^verbatim>\<open>u64\<close>.
\<close>


section \<open>Epochs\<close>

type_synonym epoch = int

definition epoch_after :: "epoch \<Rightarrow> int \<Rightarrow> epoch option" where
  "epoch_after e n = (if e + n < 2 ^ 64 then Some (e + n) else None)"

definition epoch_next :: "epoch \<Rightarrow> epoch option" where
  "epoch_next e = epoch_after e 1"

definition epoch_previous :: "epoch \<Rightarrow> epoch option" where
  "epoch_previous e = (if e - 1 \<ge> 0 then Some (e - 1) else None)"


section \<open>Data\<close>

type_synonym address = nat
type_synonym sorted_key = "int \<times> address"

record validator_entry =
  entry_key :: nat
  entry_stake :: decimal

record unstake_data =
  claim_epoch :: epoch
  claim_amount :: decimal

record validator_fee_change_request =
  epoch_effective :: epoch
  new_fee_factor :: decimal

record validator_substate =
  sorted_key :: "sorted_key option"
  validator_key :: nat
  is_registered :: bool
  accepts_delegated_stake :: bool
  validator_fee_factor :: decimal
  fee_change_request :: "validator_fee_change_request option"
  stake_xrd_vault :: nat
  pending_xrd_withdraw_vault :: nat
  locked_owner_stake_unit_vault :: nat
  pending_owner_stake_unit_unlock_vault :: nat
  pending_owner_stake_unit_withdrawals :: "(epoch \<times> decimal) list"
  already_unlocked_owner_stake_unit_amount :: decimal

datatype validator_error =
    InvalidClaimResource
  | InvalidGetRedemptionAmount
  | ValidatorDecimalComputationError
  | EpochUnlockHasNotOccurredYet
  | InvalidValidatorFeeFactor
  | ValidatorIsNotAcceptingDelegatedStake
  | InvalidProtocolVersionNameLength nat nat
  | ValidatorEpochMathOverflow

datatype consensus_event =
    StakeEvent address decimal
  | UnstakeEvent address decimal
  | ClaimXrdEvent address decimal
  | RegisterValidatorEvent address
  | UnregisterValidatorEvent address
  | UpdateAcceptingStakeDelegationStateEvent address bool
  | ProtocolUpdateReadinessSignalEvent address string
  | ValidatorEmissionAppliedEvent address epoch decimal decimal decimal decimal int int
  | ValidatorRewardAppliedEvent address epoch decimal
  | RoundChangeEvent int
  | EpochChangeEvent epoch "(address \<times> validator_entry) list" "(string \<times> decimal) list"

text \<open>The claim tokens: minting one into a bucket, and reading and burning a bucket of them.\<close>

record 'n claim_api =
  claim_mint :: "unstake_data \<Rightarrow> ('n, runtime_error, nat) action"
  claim_is_claim_bucket :: "nat \<Rightarrow> ('n, runtime_error, bool) action"
  claim_ids :: "nat \<Rightarrow> ('n, runtime_error, nat list) action"
  claim_data :: "nat \<Rightarrow> ('n, runtime_error, unstake_data) action"
  claim_burn :: "nat \<Rightarrow> ('n, runtime_error, unit) action"

record 'n validator_object =
  vo_state :: validator_substate
  vo_signal :: "string option"
  vo_units :: world
  vo_claims :: 'n

record consensus_config =
  max_validators :: int
  num_unstake_epochs :: int
  total_emission_xrd_per_epoch :: decimal
  min_validator_reliability :: decimal
  num_owner_stake_units_unlock_epochs :: int
  num_fee_increase_delay_epochs :: int
  min_round_count :: int
  max_round_count :: int
  target_duration_millis :: int
  validator_creation_usd_cost :: decimal

record proposal_statistic =
  made :: int
  missed :: int

record 'n consensus_world =
  cw_started :: bool
  cw_epoch :: epoch
  cw_effective_epoch_start_milli :: int
  cw_actual_epoch_start_milli :: int
  cw_round :: int
  cw_current_leader :: "int option"
  cw_config :: consensus_config
  cw_clock :: clock
  cw_proposer_rewards :: "(int \<times> decimal) list"
  cw_rewards_vault :: nat
  cw_validator_set :: "(address \<times> validator_entry) list"
  cw_statistics :: "proposal_statistic list"
  cw_index :: "(sorted_key \<times> validator_entry) list"
  cw_validators :: "(address \<times> 'n validator_object) list"
  cw_xrd :: world
  cw_events :: "consensus_event list"

datatype consensus_manager_error =
    InvalidRoundUpdate int int
  | InconsistentGapRounds nat int
  | InvalidValidatorIndex int nat
  | AlreadyStarted
  | NotXrd
  | ConsensusDecimalComputationError
  | ConsensusEpochMathOverflow
  | ClockErr clock_error

datatype consensus_error =
    ValidatorErr validator_error
  | ConsensusErr consensus_manager_error
  | ResourceErr runtime_error
  | NoSuchValidator address

type_synonym ('n, 'a) cm_act = "('n consensus_world, consensus_error, 'a) action"


section \<open>Access to the parts of the state\<close>

definition cm_xrd :: "'a act \<Rightarrow> ('n, 'a) cm_act" where
  "cm_xrd = azoom cw_xrd (\<lambda>x w. w\<lparr>cw_xrd := x\<rparr>) ResourceErr"

definition get_validator :: "address \<Rightarrow> ('n, 'n validator_object) cm_act" where
  "get_validator a = aread (\<lambda>w. ok_or (im_get (cw_validators w) a) (NoSuchValidator a))"

definition set_validator :: "address \<Rightarrow> 'n validator_object \<Rightarrow> ('n, unit) cm_act" where
  "set_validator a v = amodify (\<lambda>w. w\<lparr>cw_validators := im_insert a v (cw_validators w)\<rparr>)"

definition read_state :: "address \<Rightarrow> ('n, validator_substate) cm_act" where
  "read_state a = abind (get_validator a) (\<lambda>v. areturn (vo_state v))"

definition write_state :: "address \<Rightarrow> validator_substate \<Rightarrow> ('n, unit) cm_act" where
  "write_state a s = abind (get_validator a) (\<lambda>v. set_validator a (v\<lparr>vo_state := s\<rparr>))"

definition cm_units :: "address \<Rightarrow> 'a act \<Rightarrow> ('n, 'a) cm_act" where
  "cm_units a m =
     abind (get_validator a) (\<lambda>v.
     abind (aread (\<lambda>_. map_err ResourceErr (m (vo_units v)))) (\<lambda>(x, u).
     abind (set_validator a (v\<lparr>vo_units := u\<rparr>)) (\<lambda>_.
     areturn x)))"

definition cm_claims :: "address \<Rightarrow> ('n, runtime_error, 'a) action \<Rightarrow> ('n, 'a) cm_act" where
  "cm_claims a m =
     abind (get_validator a) (\<lambda>v.
     abind (aread (\<lambda>_. map_err ResourceErr (m (vo_claims v)))) (\<lambda>(x, c).
     abind (set_validator a (v\<lparr>vo_claims := c\<rparr>)) (\<lambda>_.
     areturn x)))"

definition cm_emit :: "consensus_event \<Rightarrow> ('n, unit) cm_act" where
  "cm_emit e = amodify (\<lambda>w. w\<lparr>cw_events := cw_events w @ [e]\<rparr>)"

definition cm_fail :: "validator_error \<Rightarrow> ('n, 'a) cm_act" where
  "cm_fail e w = Error (ValidatorErr e)"

definition cm_ok_or :: "'a option \<Rightarrow> validator_error \<Rightarrow> ('n, 'a) cm_act" where
  "cm_ok_or x e = aread (\<lambda>_. ok_or x (ValidatorErr e))"

definition amount_of_vault :: "nat \<Rightarrow> decimal act" where
  "amount_of_vault v = abind (get_vault v) (\<lambda>s. aread (\<lambda>_. vault_get_amount s))"

definition amount_of_bucket :: "nat \<Rightarrow> decimal act" where
  "amount_of_bucket b = abind (get_bucket b) (\<lambda>s. aread (\<lambda>_. bucket_get_amount s))"

definition unit_supply :: "address \<Rightarrow> ('n, decimal) cm_act" where
  "unit_supply a = abind (cm_units a get_total_supply) (\<lambda>s. aread (\<lambda>_. expect s))"


section \<open>Stake units\<close>

definition calculate_stake_unit_amount :: "decimal \<Rightarrow> decimal \<Rightarrow> decimal \<Rightarrow> (consensus_error, decimal) res" where
  "calculate_stake_unit_amount xrd_amount total_stake_xrd_amount total_stake_unit_supply =
     (if total_stake_xrd_amount = 0 then Ok xrd_amount
      else ok_or (Option.bind (dec_checked_div total_stake_unit_supply total_stake_xrd_amount)
                   (\<lambda>amount. dec_checked_mul xrd_amount amount))
             (ValidatorErr ValidatorDecimalComputationError))"

definition redemption_value :: "decimal \<Rightarrow> decimal \<Rightarrow> decimal \<Rightarrow> (consensus_error, decimal) res" where
  "redemption_value amount_of_stake_units active_stake_amount total_stake_unit_supply =
     (if total_stake_unit_supply = 0 then Ok 0
      else ok_or (Option.bind (dec_checked_div active_stake_amount total_stake_unit_supply)
                   (\<lambda>amount. dec_checked_mul amount_of_stake_units amount))
             (ValidatorErr ValidatorDecimalComputationError))"

definition calculate_redemption_value :: "address \<Rightarrow> decimal \<Rightarrow> validator_substate \<Rightarrow> ('n, decimal) cm_act" where
  "calculate_redemption_value a amount_of_stake_units s =
     abind (cm_xrd (amount_of_vault (stake_xrd_vault s))) (\<lambda>active_stake_amount.
     abind (unit_supply a) (\<lambda>total_stake_unit_supply.
     aread (\<lambda>_. redemption_value amount_of_stake_units active_stake_amount total_stake_unit_supply)))"

definition check_validator_fee_factor :: "decimal \<Rightarrow> ('n, unit) cm_act" where
  "check_validator_fee_factor fee_factor =
     (if fee_factor < 0 \<or> fee_factor > dec_one then cm_fail InvalidValidatorFeeFactor else areturn ())"


section \<open>The index of registered validators\<close>

definition create_sort_prefix_from_stake :: "decimal \<Rightarrow> (consensus_error, int) res" where
  "create_sort_prefix_from_stake stake =
     rbind (ok_or (dec_checked_div stake (dec_from_int 100000)) (ValidatorErr ValidatorDecimalComputationError)) (\<lambda>stake_100k.
     rbind (ok_or (Option.bind (dec_checked_powi (dec_from_int 10) 18) (dec_checked_div stake_100k))
              (ValidatorErr ValidatorDecimalComputationError)) (\<lambda>whole_units.
     rbind (if whole_units > 65535 then Ok 65535
            else if whole_units < 0 then Panics else Ok whole_units) (\<lambda>stake_u16.
     Ok (65535 - stake_u16))))"

definition to_sorted_key :: "bool \<Rightarrow> decimal \<Rightarrow> address \<Rightarrow> (consensus_error, sorted_key option) res" where
  "to_sorted_key registered stake a =
     (if \<not> registered \<or> stake = 0 then Ok None
      else rbind (create_sort_prefix_from_stake stake) (\<lambda>prefix. Ok (Some (prefix, a))))"

datatype update_secondary_index =
    IndexCreate sorted_key decimal nat
  | IndexUpdatePublicKey sorted_key nat
  | IndexUpdateStake sorted_key sorted_key decimal
  | IndexRemove sorted_key

definition index_insert :: "sorted_key \<Rightarrow> validator_entry \<Rightarrow> ('n, unit) cm_act" where
  "index_insert k e = amodify (\<lambda>w. w\<lparr>cw_index := im_insert k e (cw_index w)\<rparr>)"

definition index_remove :: "sorted_key \<Rightarrow> ('n, validator_entry option) cm_act" where
  "index_remove k w =
     Ok (im_get (cw_index w) k, w\<lparr>cw_index := filter (\<lambda>(k', _). k' \<noteq> k) (cw_index w)\<rparr>)"

fun update_validator :: "update_secondary_index \<Rightarrow> ('n, unit) cm_act" where
  "update_validator (IndexCreate index_key stake key) =
     index_insert index_key \<lparr>entry_key = key, entry_stake = stake\<rparr>"
| "update_validator (IndexUpdatePublicKey index_key key) =
     abind (index_remove index_key) (\<lambda>found.
     abind (aread (\<lambda>_. expect found)) (\<lambda>v.
     index_insert index_key (v\<lparr>entry_key := key\<rparr>)))"
| "update_validator (IndexUpdateStake index_key new_index_key new_stake_amount) =
     abind (index_remove index_key) (\<lambda>found.
     abind (aread (\<lambda>_. expect found)) (\<lambda>v.
     index_insert new_index_key (v\<lparr>entry_stake := new_stake_amount\<rparr>)))"
| "update_validator (IndexRemove index_key) = abind (index_remove index_key) (\<lambda>_. areturn ())"

definition index_update ::
    "address \<Rightarrow> validator_substate \<Rightarrow> bool \<Rightarrow> decimal \<Rightarrow> ('n, sorted_key option) cm_act" where
  "index_update a s new_registered new_stake_amount =
     abind (aread (\<lambda>_. to_sorted_key new_registered new_stake_amount a)) (\<lambda>new_sorted_key.
     abind (case sorted_key s of
              Some cur_index_key \<Rightarrow>
                (case new_sorted_key of
                   Some new_index_key \<Rightarrow>
                     update_validator (IndexUpdateStake cur_index_key new_index_key new_stake_amount)
                 | None \<Rightarrow> update_validator (IndexRemove cur_index_key))
            | None \<Rightarrow>
                (case new_sorted_key of
                   Some new_index_key \<Rightarrow>
                     update_validator (IndexCreate new_index_key new_stake_amount (validator_key s))
                 | None \<Rightarrow> areturn ())) (\<lambda>_.
     areturn new_sorted_key))"

section \<open>Staking\<close>

definition stake_internal :: "address \<Rightarrow> nat \<Rightarrow> bool \<Rightarrow> ('n, nat) cm_act" where
  "stake_internal a xrd_bucket is_owner =
     abind (read_state a) (\<lambda>s.
     abind (if \<not> is_owner \<and> \<not> accepts_delegated_stake s
            then cm_fail ValidatorIsNotAcceptingDelegatedStake else areturn ()) (\<lambda>_.
     abind (cm_xrd (amount_of_bucket xrd_bucket)) (\<lambda>xrd_bucket_amount.
     abind (cm_xrd (amount_of_vault (stake_xrd_vault s))) (\<lambda>stake_amount.
     abind (unit_supply a) (\<lambda>supply.
     abind (aread (\<lambda>_. calculate_stake_unit_amount xrd_bucket_amount stake_amount supply)) (\<lambda>mint_amount.
     abind (cm_units a (mint mint_amount)) (\<lambda>stake_unit_bucket.
     abind (cm_xrd (vault_put (stake_xrd_vault s) xrd_bucket)) (\<lambda>_.
     abind (cm_xrd (amount_of_vault (stake_xrd_vault s))) (\<lambda>new_stake_amount.
     abind (index_update a s (is_registered s) new_stake_amount) (\<lambda>new_index_key.
     abind (write_state a (s\<lparr>sorted_key := new_index_key\<rparr>)) (\<lambda>_.
     abind (cm_emit (StakeEvent a xrd_bucket_amount)) (\<lambda>_.
     areturn stake_unit_bucket))))))))))))"

definition stake_as_owner :: "address \<Rightarrow> nat \<Rightarrow> ('n, nat) cm_act" where
  "stake_as_owner a xrd_bucket = stake_internal a xrd_bucket True"

definition validator_stake :: "address \<Rightarrow> nat \<Rightarrow> ('n, nat) cm_act" where
  "validator_stake a xrd_bucket = stake_internal a xrd_bucket False"

definition validator_unstake :: "'n claim_api \<Rightarrow> address \<Rightarrow> nat \<Rightarrow> ('n, nat) cm_act" where
  "validator_unstake C a stake_unit_bucket =
     abind (cm_units a (amount_of_bucket stake_unit_bucket)) (\<lambda>stake_unit_bucket_amount.
     abind (read_state a) (\<lambda>s.
     abind (calculate_redemption_value a stake_unit_bucket_amount s) (\<lambda>xrd_amount.
     abind (cm_units a (burn_internal stake_unit_bucket)) (\<lambda>_.
     abind (aread (\<lambda>w. Ok (cw_epoch w, num_unstake_epochs (cw_config w)))) (\<lambda>(current_epoch, unstake_epochs).
     abind (cm_ok_or (epoch_after current_epoch unstake_epochs) ValidatorEpochMathOverflow) (\<lambda>epoch.
     abind (cm_xrd (vault_take (stake_xrd_vault s) xrd_amount)) (\<lambda>bucket.
     abind (cm_xrd (vault_put (pending_xrd_withdraw_vault s) bucket)) (\<lambda>_.
     abind (cm_claims a (claim_mint C \<lparr>claim_epoch = epoch, claim_amount = xrd_amount\<rparr>)) (\<lambda>unstake_bucket.
     abind (cm_xrd (amount_of_vault (stake_xrd_vault s))) (\<lambda>new_stake_amount.
     abind (index_update a s (is_registered s) new_stake_amount) (\<lambda>new_index_key.
     abind (write_state a (s\<lparr>sorted_key := new_index_key\<rparr>)) (\<lambda>_.
     abind (cm_emit (UnstakeEvent a stake_unit_bucket_amount)) (\<lambda>_.
     areturn unstake_bucket)))))))))))))"

primrec claim_total :: "'n claim_api \<Rightarrow> address \<Rightarrow> epoch \<Rightarrow> nat list \<Rightarrow> decimal \<Rightarrow> ('n, decimal) cm_act" where
  "claim_total C a current_epoch [] unstake_amount = areturn unstake_amount"
| "claim_total C a current_epoch (i # ids) unstake_amount =
     abind (cm_claims a (claim_data C i)) (\<lambda>data.
     if current_epoch < claim_epoch data then cm_fail EpochUnlockHasNotOccurredYet
     else abind (cm_ok_or (dec_checked_add unstake_amount (claim_amount data)) ValidatorDecimalComputationError)
            (claim_total C a current_epoch ids))"

definition claim_xrd :: "'n claim_api \<Rightarrow> address \<Rightarrow> nat \<Rightarrow> ('n, nat) cm_act" where
  "claim_xrd C a bucket =
     abind (read_state a) (\<lambda>s.
     abind (cm_claims a (claim_is_claim_bucket C bucket)) (\<lambda>is_claim.
     abind (if \<not> is_claim then cm_fail InvalidClaimResource else areturn ()) (\<lambda>_.
     abind (aread (\<lambda>w. Ok (cw_epoch w))) (\<lambda>current_epoch.
     abind (cm_claims a (claim_ids C bucket)) (\<lambda>ids.
     abind (claim_total C a current_epoch ids 0) (\<lambda>unstake_amount.
     abind (cm_claims a (claim_burn C bucket)) (\<lambda>_.
     abind (cm_xrd (vault_take (pending_xrd_withdraw_vault s) unstake_amount)) (\<lambda>claimed_bucket.
     abind (cm_xrd (amount_of_bucket claimed_bucket)) (\<lambda>amount.
     abind (cm_emit (ClaimXrdEvent a amount)) (\<lambda>_.
     areturn claimed_bucket))))))))))"


section \<open>Registration, key, fee and delegation\<close>

definition register_update :: "address \<Rightarrow> bool \<Rightarrow> ('n, unit) cm_act" where
  "register_update a new_registered =
     abind (read_state a) (\<lambda>s.
     if is_registered s = new_registered then areturn ()
     else
       abind (cm_xrd (amount_of_vault (stake_xrd_vault s))) (\<lambda>stake_amount.
       abind (index_update a s new_registered stake_amount) (\<lambda>index_key.
       abind (write_state a (s\<lparr>is_registered := new_registered, sorted_key := index_key\<rparr>)) (\<lambda>_.
       cm_emit (if new_registered then RegisterValidatorEvent a else UnregisterValidatorEvent a)))))"

definition register :: "address \<Rightarrow> ('n, unit) cm_act" where
  "register a = register_update a True"

definition unregister :: "address \<Rightarrow> ('n, unit) cm_act" where
  "unregister a = register_update a False"

definition update_key :: "address \<Rightarrow> nat \<Rightarrow> ('n, unit) cm_act" where
  "update_key a key =
     abind (read_state a) (\<lambda>s.
     abind (case sorted_key s of
              Some index_key \<Rightarrow> update_validator (IndexUpdatePublicKey index_key key)
            | None \<Rightarrow> areturn ()) (\<lambda>_.
     write_state a (s\<lparr>validator_key := key\<rparr>)))"

definition update_fee :: "address \<Rightarrow> decimal \<Rightarrow> ('n, unit) cm_act" where
  "update_fee a factor =
     abind (check_validator_fee_factor factor) (\<lambda>_.
     abind (aread (\<lambda>w. Ok (cw_epoch w, num_fee_increase_delay_epochs (cw_config w)))) (\<lambda>(current_epoch, delay).
     abind (read_state a) (\<lambda>s.
     let s1 = (case fee_change_request s of
                 Some previous_request \<Rightarrow>
                   (if epoch_effective previous_request \<le> current_epoch
                    then s\<lparr>validator_fee_factor := new_fee_factor previous_request\<rparr> else s)
               | None \<Rightarrow> s) in
     abind (cm_ok_or (if factor > validator_fee_factor s1 then epoch_after current_epoch delay
                      else epoch_next current_epoch) ValidatorEpochMathOverflow) (\<lambda>effective.
     write_state a (s1\<lparr>fee_change_request := Some \<lparr>epoch_effective = effective, new_fee_factor = factor\<rparr>\<rparr>)))))"

definition update_accept_delegated_stake :: "address \<Rightarrow> bool \<Rightarrow> ('n, unit) cm_act" where
  "update_accept_delegated_stake a accept =
     abind (read_state a) (\<lambda>s.
     abind (write_state a (s\<lparr>accepts_delegated_stake := accept\<rparr>)) (\<lambda>_.
     cm_emit (UpdateAcceptingStakeDelegationStateEvent a accept)))"

definition VALIDATOR_PROTOCOL_VERSION_NAME_LEN :: nat where
  "VALIDATOR_PROTOCOL_VERSION_NAME_LEN = 32"

definition signal_protocol_update_readiness :: "address \<Rightarrow> string \<Rightarrow> ('n, unit) cm_act" where
  "signal_protocol_update_readiness a name =
     (if length name \<noteq> VALIDATOR_PROTOCOL_VERSION_NAME_LEN
      then cm_fail (InvalidProtocolVersionNameLength VALIDATOR_PROTOCOL_VERSION_NAME_LEN (length name))
      else
        abind (get_validator a) (\<lambda>v.
        abind (set_validator a (v\<lparr>vo_signal := Some name\<rparr>)) (\<lambda>_.
        cm_emit (ProtocolUpdateReadinessSignalEvent a name))))"

definition get_protocol_update_readiness :: "address \<Rightarrow> ('n, string option) cm_act" where
  "get_protocol_update_readiness a = abind (get_validator a) (\<lambda>v. areturn (vo_signal v))"

definition get_redemption_value :: "address \<Rightarrow> decimal \<Rightarrow> ('n, decimal) cm_act" where
  "get_redemption_value a amount =
     (if amount < 0 \<or> amount = 0 then cm_fail InvalidGetRedemptionAmount
      else
        abind (read_state a) (\<lambda>s.
        abind (unit_supply a) (\<lambda>supply.
        if amount > supply then cm_fail InvalidGetRedemptionAmount
        else calculate_redemption_value a amount s)))"

definition total_stake_xrd_amount :: "address \<Rightarrow> ('n, decimal) cm_act" where
  "total_stake_xrd_amount a = abind (read_state a) (\<lambda>s. cm_xrd (amount_of_vault (stake_xrd_vault s)))"


section \<open>Locked owner stake units\<close>

text \<open>A \<^verbatim>\<open>BTreeMap\<close> is a list sorted by its keys.\<close>

fun bt_insert :: "int \<Rightarrow> 'v \<Rightarrow> (int \<times> 'v) list \<Rightarrow> (int \<times> 'v) list" where
  "bt_insert k v [] = [(k, v)]"
| "bt_insert k v ((k', v') # m) =
     (if k < k' then (k, v) # (k', v') # m
      else if k = k' then (k, v) # m
      else (k', v') # bt_insert k v m)"

definition lock_owner_stake_units :: "address \<Rightarrow> nat \<Rightarrow> ('n, unit) cm_act" where
  "lock_owner_stake_units a stake_unit_bucket =
     abind (read_state a) (\<lambda>s. cm_units a (vault_put (locked_owner_stake_unit_vault s) stake_unit_bucket))"

primrec unlock_available :: "(epoch \<times> decimal) list \<Rightarrow> decimal \<Rightarrow> decimal option" where
  "unlock_available [] amount = Some amount"
| "unlock_available (x # xs) amount = Option.bind (dec_checked_add amount (snd x)) (unlock_available xs)"

definition normalize_available_owner_stake_unit_withdrawals ::
    "epoch \<Rightarrow> validator_substate \<Rightarrow> (consensus_error, validator_substate) res" where
  "normalize_available_owner_stake_unit_withdrawals current_epoch s =
     rbind (ok_or (unlock_available
              (filter (\<lambda>(e, _). e \<le> current_epoch) (pending_owner_stake_unit_withdrawals s))
              (already_unlocked_owner_stake_unit_amount s)) (ValidatorErr ValidatorDecimalComputationError)) (\<lambda>amount.
     Ok (s\<lparr>pending_owner_stake_unit_withdrawals :=
             filter (\<lambda>(e, _). \<not> e \<le> current_epoch) (pending_owner_stake_unit_withdrawals s),
           already_unlocked_owner_stake_unit_amount := amount\<rparr>))"

definition start_unlock_owner_stake_units :: "address \<Rightarrow> decimal \<Rightarrow> ('n, unit) cm_act" where
  "start_unlock_owner_stake_units a requested =
     abind (aread (\<lambda>w. Ok (cw_epoch w, num_owner_stake_units_unlock_epochs (cw_config w)))) (\<lambda>(current_epoch, delay).
     abind (read_state a) (\<lambda>s.
     abind (aread (\<lambda>_. normalize_available_owner_stake_unit_withdrawals current_epoch s)) (\<lambda>s1.
     abind (cm_ok_or (epoch_after current_epoch delay) ValidatorEpochMathOverflow) (\<lambda>epoch.
     let pending = pending_owner_stake_unit_withdrawals s1;
         amount = (case im_get pending epoch of
                     Some pending_amount \<Rightarrow>
                       (case dec_checked_add pending_amount requested of Some x \<Rightarrow> x | None \<Rightarrow> dec_max)
                   | None \<Rightarrow> requested);
         s2 = s1\<lparr>pending_owner_stake_unit_withdrawals := bt_insert epoch amount pending\<rparr> in
     abind (write_state a s2) (\<lambda>_.
     abind (cm_units a (vault_take (locked_owner_stake_unit_vault s2) requested)) (\<lambda>bucket.
     cm_units a (vault_put (pending_owner_stake_unit_unlock_vault s2) bucket)))))))"

definition finish_unlock_owner_stake_units :: "address \<Rightarrow> ('n, nat) cm_act" where
  "finish_unlock_owner_stake_units a =
     abind (aread (\<lambda>w. Ok (cw_epoch w))) (\<lambda>current_epoch.
     abind (read_state a) (\<lambda>s.
     abind (aread (\<lambda>_. normalize_available_owner_stake_unit_withdrawals current_epoch s)) (\<lambda>s1.
     abind (write_state a (s1\<lparr>already_unlocked_owner_stake_unit_amount := 0\<rparr>)) (\<lambda>_.
     cm_units a (vault_take (pending_owner_stake_unit_unlock_vault s1)
       (already_unlocked_owner_stake_unit_amount s1))))))"


section \<open>Emissions and rewards\<close>

definition apply_emission :: "address \<Rightarrow> nat \<Rightarrow> epoch \<Rightarrow> int \<Rightarrow> int \<Rightarrow> ('n, unit) cm_act" where
  "apply_emission a xrd_bucket concluded_epoch proposals_made proposals_missed =
     abind (read_state a) (\<lambda>s.
     let factor = (case fee_change_request s of
                     Some request \<Rightarrow>
                       (if epoch_effective request \<le> concluded_epoch then new_fee_factor request
                        else validator_fee_factor s)
                   | None \<Rightarrow> validator_fee_factor s) in
     abind (cm_xrd (amount_of_bucket xrd_bucket)) (\<lambda>total_emission_xrd.
     abind (cm_ok_or (dec_checked_mul factor total_emission_xrd) ValidatorDecimalComputationError) (\<lambda>validator_fee_xrd.
     abind (cm_xrd (bucket_take xrd_bucket validator_fee_xrd)) (\<lambda>fee_xrd_bucket.
     abind (cm_xrd (amount_of_vault (stake_xrd_vault s))) (\<lambda>starting_stake_pool_xrd.
     abind (cm_xrd (vault_put (stake_xrd_vault s) xrd_bucket)) (\<lambda>_.
     abind (cm_ok_or (dec_checked_sub total_emission_xrd validator_fee_xrd) ValidatorDecimalComputationError)
       (\<lambda>stake_pool_added_xrd.
     abind (cm_ok_or (dec_checked_add starting_stake_pool_xrd stake_pool_added_xrd) ValidatorDecimalComputationError)
       (\<lambda>post_emission_stake_pool_xrd.
     abind (unit_supply a) (\<lambda>total_stake_unit_supply.
     abind (aread (\<lambda>_. calculate_stake_unit_amount validator_fee_xrd post_emission_stake_pool_xrd
              total_stake_unit_supply)) (\<lambda>stake_unit_mint_amount.
     abind (cm_units a (mint stake_unit_mint_amount)) (\<lambda>fee_stake_unit_bucket.
     abind (cm_xrd (vault_put (stake_xrd_vault s) fee_xrd_bucket)) (\<lambda>_.
     abind (cm_units a (vault_put (locked_owner_stake_unit_vault s) fee_stake_unit_bucket)) (\<lambda>_.
     abind (cm_ok_or (dec_checked_add starting_stake_pool_xrd total_emission_xrd) ValidatorDecimalComputationError)
       (\<lambda>new_stake_xrd.
     abind (index_update a s (is_registered s) new_stake_xrd) (\<lambda>new_index_key.
     abind (write_state a (s\<lparr>sorted_key := new_index_key\<rparr>)) (\<lambda>_.
     cm_emit (ValidatorEmissionAppliedEvent a concluded_epoch starting_stake_pool_xrd stake_pool_added_xrd
       total_stake_unit_supply validator_fee_xrd proposals_made proposals_missed)))))))))))))))))"

definition apply_reward :: "address \<Rightarrow> nat \<Rightarrow> epoch \<Rightarrow> ('n, unit) cm_act" where
  "apply_reward a xrd_bucket concluded_epoch =
     abind (read_state a) (\<lambda>s.
     abind (cm_xrd (amount_of_bucket xrd_bucket)) (\<lambda>total_reward_xrd.
     abind (cm_xrd (amount_of_vault (stake_xrd_vault s))) (\<lambda>starting_stake_pool_xrd.
     abind (unit_supply a) (\<lambda>total_stake_unit_supply.
     abind (aread (\<lambda>_. calculate_stake_unit_amount total_reward_xrd starting_stake_pool_xrd
              total_stake_unit_supply)) (\<lambda>stake_unit_mint_amount.
     abind (cm_units a (mint stake_unit_mint_amount)) (\<lambda>new_stake_unit_bucket.
     abind (cm_xrd (vault_put (stake_xrd_vault s) xrd_bucket)) (\<lambda>_.
     abind (cm_units a (vault_put (locked_owner_stake_unit_vault s) new_stake_unit_bucket)) (\<lambda>_.
     abind (cm_ok_or (dec_checked_add starting_stake_pool_xrd total_reward_xrd) ValidatorDecimalComputationError)
       (\<lambda>new_stake_xrd.
     abind (index_update a s (is_registered s) new_stake_xrd) (\<lambda>new_index_key.
     abind (write_state a (s\<lparr>sorted_key := new_index_key\<rparr>)) (\<lambda>_.
     cm_emit (ValidatorRewardAppliedEvent a concluded_epoch total_reward_xrd))))))))))))"


section \<open>Creation\<close>

text \<open>
  The address of the validator is allocated by the system; its stake units are a new fungible
  resource, its claim tokens a new non-fungible one.
\<close>

definition stake_unit_manager :: resource_manager where
  "stake_unit_manager = \<lparr>rm_divisibility = 18, rm_total_supply = 0, rm_track_total_supply = True,
     rm_vault_freeze = False, rm_vault_recall = False, rm_mint = True, rm_burn = True, rm_is_xrd = False\<rparr>"

definition validator_create :: "'n \<Rightarrow> address \<Rightarrow> nat \<Rightarrow> bool \<Rightarrow> decimal \<Rightarrow> ('n, address) cm_act" where
  "validator_create claims a key registered fee_factor =
     abind (check_validator_fee_factor fee_factor) (\<lambda>_.
     abind (cm_xrd create_empty_vault) (\<lambda>stake_vault.
     abind (cm_xrd create_empty_vault) (\<lambda>withdraw_vault.
     abind (aread (\<lambda>w. map_err ResourceErr
              (new_resource stake_unit_manager (costing_enabled (cw_xrd w)) (stack_id (cw_xrd w))))) (\<lambda>units.
     abind (aread (\<lambda>_. map_err ResourceErr
              (abind create_empty_vault (\<lambda>l. abind create_empty_vault (\<lambda>p. areturn (l, p))) units))) (\<lambda>((l, p), units').
     abind (set_validator a \<lparr>vo_state = \<lparr>sorted_key = None, validator_key = key, is_registered = registered,
              accepts_delegated_stake = False, validator_fee_factor = fee_factor, fee_change_request = None,
              stake_xrd_vault = stake_vault, pending_xrd_withdraw_vault = withdraw_vault,
              locked_owner_stake_unit_vault = l, pending_owner_stake_unit_unlock_vault = p,
              pending_owner_stake_unit_withdrawals = [], already_unlocked_owner_stake_unit_amount = 0\<rparr>,
            vo_signal = None, vo_units = units', vo_claims = claims\<rparr>) (\<lambda>_.
     areturn a))))))"

end
