(* ===== verification/Stake_Effects.thy ===== *)
theory Stake_Effects
  imports Validator
begin

text \<open>
  What the calls that the validator and the consensus manager make of a fungible resource do to
  the amounts in its vaults and buckets and to its supply. Each lemma reads a successful call as
  an update of the amount functions \<open>vault_amount\<close> and \<open>bucket_amount\<close>, and shows that the books of
  the resource stay balanced.
\<close>


section \<open>Amounts\<close>

definition vault_amount :: "world \<Rightarrow> node \<Rightarrow> decimal" where
  "vault_amount w n = (case im_get (vaults w) n of None \<Rightarrow> 0 | Some v \<Rightarrow> vault.total v)"

definition bucket_amount :: "world \<Rightarrow> node \<Rightarrow> decimal" where
  "bucket_amount w n = (case im_get (buckets w) n of None \<Rightarrow> 0 | Some b \<Rightarrow> bucket.total b)"

abbreviation vault_nodes :: "world \<Rightarrow> node set" where
  "vault_nodes w \<equiv> fst ` set (vaults w)"

abbreviation balanced :: "world \<Rightarrow> bool" where
  "balanced \<equiv> ledger 0 []"

abbreviation issued :: "world \<Rightarrow> decimal" where
  "issued w \<equiv> rm_total_supply (manager w)"

abbreviation tracked :: "world \<Rightarrow> bool" where
  "tracked w \<equiv> rm_track_total_supply (manager w)"

lemma vault_amount_nonneg: "ledger d E w \<Longrightarrow> 0 \<le> vault_amount w n"
  using totals_nonneg(1) [of d E w] by (force simp: vault_amount_def split: option.splits dest: map_of_SomeD)

lemma bucket_amount_nonneg: "ledger d E w \<Longrightarrow> 0 \<le> bucket_amount w n"
  using totals_nonneg(2) [of d E w] by (force simp: bucket_amount_def split: option.splits dest: map_of_SomeD)

lemma supply_nonneg: "balanced w \<Longrightarrow> tracked w \<Longrightarrow> 0 \<le> issued w"
  using sums_nonneg [of 0 "[]" w] by (simp add: ledger_def supply_ok_def holdings_def)

lemma bucket_le_supply: "balanced w \<Longrightarrow> tracked w \<Longrightarrow> bucket_amount w b \<le> issued w"
  using container_le_holdings(2) [of 0 "[]" w b] sums_nonneg [of 0 "[]" w]
  by (auto simp: ledger_def supply_ok_def bucket_amount_def holdings_def split: option.splits)

lemma ledger_events [simp]: "ledger d E (w\<lparr>events := es\<rparr>) = ledger d E w"
proof -
  have "lock_count (w\<lparr>events := es\<rparr>) c a = lock_count w c a" for c a
    by (cases c) (simp_all add: lock_count_def)
  then show ?thesis by (simp add: ledger_defs holdings_def evidence_count_def)
qed

lemma amount_of_vault_Ok:
  "amount_of_vault n w = Ok (x, w') \<Longrightarrow> w' = w \<and> x = vault_amount w n \<and> is_decimal x \<and> n \<in> vault_nodes w"
  by (auto simp: amount_of_vault_def get_vault_def vault_get_amount_def vault_amount_def vault.total_def
      action_iffs res_iffs dec_checked_add_iff intro: rev_image_eqI dest: map_of_SomeD)

lemma amount_of_bucket_Ok:
  "amount_of_bucket n w = Ok (x, w') \<Longrightarrow> w' = w \<and> x = bucket_amount w n \<and> is_decimal x"
  by (auto simp: amount_of_bucket_def get_bucket_def bucket_get_amount_def bucket_amount_def bucket.total_def
      action_iffs res_iffs dec_checked_add_iff)

lemma get_total_supply_Ok:
  "get_total_supply w = Ok (x, w') \<Longrightarrow> w' = w \<and> x = (if tracked w then Some (issued w) else None)"
  by (auto simp: get_total_supply_def get_manager_def action_iffs)


section \<open>Calls\<close>

text \<open>A call that moves amounts: the amounts after it, with the books balanced as before.\<close>

definition moves :: "world \<Rightarrow> world \<Rightarrow> (node \<Rightarrow> decimal) \<Rightarrow> (node \<Rightarrow> decimal) \<Rightarrow> int \<Rightarrow> bool" where
  "moves w w' v b minted \<longleftrightarrow>
     balanced w' \<and> tracked w' = tracked w \<and> vault_nodes w \<subseteq> vault_nodes w' \<and>
     vault_amount w' = v \<and> bucket_amount w' = b \<and> holdings w' = holdings w + minted \<and>
     (tracked w \<longrightarrow> issued w' = issued w + minted)"

lemma drop_bucket_Ok:
  "drop_fungible_bucket b w = Ok (x, w') \<Longrightarrow>
     im_get (buckets w) b = Some x \<and> bucket_locked x = [] \<and> w' = remove_bucket b w"
  by (auto simp: drop_fungible_bucket_def get_bucket_def action_iffs res_iffs is_locked_def remove_bucket_def
      split: if_splits)

lemma bucket_amount_remove:
  "ledger d E w \<Longrightarrow> bucket_amount (remove_bucket b w) = (bucket_amount w)(b := 0)"
  by (auto simp: fun_eq_iff bucket_amount_def remove_bucket_def im_get_swap_remove ledger_defs)

lemma bucket_amount_add:
  "bucket_amount (add_bucket x w) = (bucket_amount w)(next_node w := x)"
  by (auto simp: fun_eq_iff bucket_amount_def add_bucket_def bucket.total_def)

lemma create_bucket_Ok:
  "create_bucket x w = Ok (b, w') \<Longrightarrow> b = next_node w \<and> w' = add_bucket x w"
  by (auto simp: create_bucket_def add_bucket_def)

lemma vault_put_moves:
  assumes "vault_put n b w = Ok (u, w')" and L: "balanced w"
  shows "moves w w' ((vault_amount w)(n := vault_amount w n + bucket_amount w b)) ((bucket_amount w)(b := 0)) 0 \<and>
    vault_nodes w' = vault_nodes w \<and> n \<in> vault_nodes w \<and> manager w' = manager w"
proof -
  obtain v x v' where v: "im_get (vaults w) n = Some v" and x: "im_get (buckets w) b = Some x"
    and un: "bucket_locked x = []" and put: "vault_internal_put (bucket_liquid x) v = Ok v'"
    and w': "w' = (remove_bucket b w)\<lparr>vaults := im_insert n v' (vaults w),
      events := events w @ [DepositEvent n (bucket_liquid x)]\<rparr>"
    using assms(1)
    by (auto simp: vault_put_def get_manager_def get_vault_def on_vault_def set_vault_def emit_event_def action_iffs
        res_iffs remove_bucket_def dest!: drop_bucket_Ok)
  have v': "vault_balance v' = vault_balance v + bucket_liquid x" "vault_locked v' = vault_locked v"
    using put by (auto simp: vault_internal_put_def res_iffs liquid_put_iff split: if_splits)
  have ok: "vault.container_ok v" "vault.divisible (atom_unit (manager w)) v"
    "bucket.container_ok x" "bucket.divisible (atom_unit (manager w)) x"
    using get_vault_ok [OF L v] get_bucket_ok [OF L x] by auto
  let ?r = "remove_bucket b w"
  have r: "vaults ?r = vaults w" "manager ?r = manager w" by (simp_all add: remove_bucket_def)
  have "ledger 0 [] (?r\<lparr>vaults := im_insert n v' (vaults ?r)\<rparr>)"
    by (rule ledger_set_vault [OF ledger_remove_bucket [OF L x un], of n v])
      (use ok v v' r in \<open>auto simp: vault.container_ok_def vault.divisible_def vault.total_def
        bucket.container_ok_def bucket.divisible_def\<close>)
  moreover have "holdings (?r\<lparr>vaults := im_insert n v' (vaults ?r)\<rparr>) = holdings w"
    using holdings_set_vault [of ?r n v v'] holdings_remove_bucket [OF L x] L v v' un r
    by (simp add: ledger_defs vault.total_def bucket.total_def)
  moreover have "n \<in> vault_nodes w" using v by (auto intro: rev_image_eqI dest: map_of_SomeD)
  ultimately show ?thesis
    using v x un v' bucket_amount_remove [OF L, of b] r
    by (simp add: moves_def w' insert_absorb holdings_def)
       (auto simp: fun_eq_iff vault_amount_def bucket_amount_def vault.total_def bucket.total_def)
qed

text \<open>The state after amounts are taken out of a container into a new bucket.\<close>

lemma vault_take_moves:
  assumes "vault_take n x w = Ok (b, w')" and L: "balanced w"
  shows "moves w w' ((vault_amount w)(n := vault_amount w n - x)) ((bucket_amount w)(b := x)) 0 \<and>
    0 \<le> x \<and> x \<le> vault_amount w n \<and> n \<in> vault_nodes w \<and> vault_nodes w' = vault_nodes w"
proof -
  obtain v where v: "im_get (vaults w) n = Some v" and le: "x \<le> vault_balance v"
    and x: "0 \<le> x" "atom_unit (manager w) dvd x" and b: "b = next_node w"
    and w': "w' = (add_bucket x (w\<lparr>vaults := im_insert n (v\<lparr>vault_balance := vault_balance v - x\<rparr>) (vaults w)\<rparr>))
      \<lparr>events := events w @ [WithdrawEvent n x]\<rparr>"
    using assms(1)
    by (auto simp: vault_take_def vault_take_advanced_def get_manager_def get_vault_def take_from_vault_def
        vault_internal_take_def set_vault_def emit_event_def action_iffs res_iffs liquid_take_iff
        check_fungible_amount_def atom_unit_def dvd_eq_mod_eq_0 add_bucket_def dest!: create_bucket_Ok)
  let ?v = "v\<lparr>vault_balance := vault_balance v - x\<rparr>"
  let ?t = "w\<lparr>vaults := im_insert n ?v (vaults w)\<rparr>"
  have "vault.container_ok v" "vault.divisible (atom_unit (manager w)) v"
    using get_vault_ok [OF L v] by auto
  then have T: "ledger x [] ?t"
    by (intro ledger_set_vault [OF L v])
      (use x le in \<open>auto simp: vault.container_ok_def vault.divisible_def vault.total_def\<close>)
  then have "ledger 0 [] (add_bucket x ?t)" using ledger_add_bucket [OF T x(1)] x by simp
  moreover have "holdings (add_bucket x ?t) = holdings w"
    using holdings_add_bucket [OF T, of x] holdings_set_vault [of w n v ?v] L v
    by (simp add: ledger_defs vault.total_def)
  moreover have n: "n \<in> vault_nodes w" using v by (auto intro: rev_image_eqI dest: map_of_SomeD)
  moreover have "x \<le> vault_amount w n" using le v by (simp add: vault_amount_def vault.total_def add_increasing2)
  ultimately show ?thesis
    using x b v bucket_amount_add [of x ?t]
    by (simp add: moves_def w' insert_absorb holdings_def)
       (auto simp: fun_eq_iff vault_amount_def bucket_amount_def vault.total_def add_bucket_def)
qed

lemma bucket_take_moves:
  assumes "bucket_take n x w = Ok (b, w')" and L: "balanced w"
  shows "moves w w' (vault_amount w) ((bucket_amount w)(n := bucket_amount w n - x, b := x)) 0 \<and>
    0 \<le> x \<and> x \<le> bucket_amount w n \<and> b \<noteq> n \<and> vault_nodes w' = vault_nodes w"
proof -
  obtain v where v: "im_get (buckets w) n = Some v" and le: "x \<le> bucket_liquid v"
    and x: "0 \<le> x" "atom_unit (manager w) dvd x" and b: "b = next_node w"
    and w': "w' = add_bucket x (w\<lparr>buckets := im_insert n (v\<lparr>bucket_liquid := bucket_liquid v - x\<rparr>) (buckets w)\<rparr>)"
    using assms(1)
    by (auto simp: bucket_take_def bucket_take_advanced_def get_manager_def get_bucket_def take_from_bucket_def
        bucket_internal_take_def set_bucket_def action_iffs res_iffs liquid_take_iff
        check_fungible_amount_def atom_unit_def dvd_eq_mod_eq_0 dest!: create_bucket_Ok)
  let ?v = "v\<lparr>bucket_liquid := bucket_liquid v - x\<rparr>"
  let ?t = "w\<lparr>buckets := im_insert n ?v (buckets w)\<rparr>"
  have "bucket.container_ok v" "bucket.divisible (atom_unit (manager w)) v"
    using get_bucket_ok [OF L v] by auto
  then have T: "ledger x [] ?t"
    by (intro ledger_set_bucket [OF L v])
      (use x le in \<open>auto simp: bucket.container_ok_def bucket.divisible_def bucket.total_def\<close>)
  then have "ledger 0 [] (add_bucket x ?t)" using ledger_add_bucket [OF T x(1)] x by simp
  moreover have "holdings (add_bucket x ?t) = holdings w"
    using holdings_add_bucket [OF T, of x] holdings_set_bucket [of w n v ?v] L v
    by (simp add: ledger_defs bucket.total_def)
  moreover have "b \<noteq> n" using fresh_node(2) [OF L] v b by auto
  moreover have "x \<le> bucket_amount w n" using le v by (simp add: bucket_amount_def bucket.total_def add_increasing2)
  ultimately show ?thesis
    using x b v bucket_amount_add [of x ?t]
    by (simp add: moves_def w' insert_absorb holdings_def)
       (auto simp: fun_eq_iff vault_amount_def bucket_amount_def bucket.total_def add_bucket_def)
qed

lemma mint_moves:
  assumes "mint x w = Ok (b, w')" and L: "balanced w"
  shows "moves w w' (vault_amount w) ((bucket_amount w)(b := x)) x \<and> 0 \<le> x \<and>
    vault_nodes w' = vault_nodes w"
proof -
  have x: "0 \<le> x" "atom_unit (manager w) dvd x" and b: "b = next_node w"
    and dom: "tracked w \<Longrightarrow> issued w + x \<le> dec_max"
    and w': "w' = (add_bucket x w)\<lparr>
      manager := (manager w)\<lparr>rm_total_supply := (if tracked w then issued w + x else issued w)\<rparr>,
      events := events w @ [MintFungibleResourceEvent x]\<rparr>"
    using assms(1)
    by (auto simp: mint_def get_manager_def emit_event_def set_total_supply_def action_iffs res_iffs
        dec_checked_add_iff is_decimal_le_max add_bucket_def dest!: create_bucket_Ok check_mint_amount_Ok
        split: if_splits)
  let ?t = "add_bucket x w"
  let ?m = "\<lambda>w'. w'\<lparr>manager := (manager w)\<lparr>rm_total_supply := (if tracked w then issued w + x else issued w)\<rparr>\<rparr>"
  have T: "ledger (- x) [] ?t" using ledger_add_bucket [OF L x] by simp
  have "lock_count (?m ?t) c y = lock_count ?t c y" for c y by (cases c) (simp_all add: lock_count_def)
  then have "ledger 0 [] (?m ?t)"
    using T x dom by (auto simp: ledger_defs holdings_def evidence_count_def atom_unit_def)
       (auto simp: add_bucket_def atom_unit_def)
  moreover have "holdings (?m ?t) = holdings w + x"
    using holdings_add_bucket [OF L, of x] by (simp add: holdings_def)
  ultimately show ?thesis
    using x b bucket_amount_add [of x w]
    by (simp add: moves_def w' holdings_def)
       (auto simp: fun_eq_iff vault_amount_def bucket_amount_def add_bucket_def)
qed

lemma burn_moves:
  assumes "burn_internal b w = Ok (u, w')" and L: "balanced w"
  shows "moves w w' (vault_amount w) ((bucket_amount w)(b := 0)) (- bucket_amount w b) \<and>
    vault_nodes w' = vault_nodes w"
proof -
  obtain x where x: "im_get (buckets w) b = Some x" and un: "bucket_locked x = []"
    and w': "w' = (remove_bucket b w)\<lparr>manager := (manager w)\<lparr>rm_total_supply :=
        (if tracked w then issued w - bucket_liquid x else issued w)\<rparr>,
      events := events w @ [BurnFungibleResourceEvent (bucket_liquid x)]\<rparr>"
    using assms(1)
    by (cases "tracked w") (auto simp: burn_internal_def get_manager_def emit_event_def set_total_supply_def
        action_iffs res_iffs dec_checked_sub_iff remove_bucket_def dest!: drop_bucket_Ok)
  let ?t = "remove_bucket b w"
  let ?m = "\<lambda>w'. w'\<lparr>manager := (manager w)\<lparr>rm_total_supply :=
    (if tracked w then issued w - bucket_liquid x else issued w)\<rparr>\<rparr>"
  have T: "ledger (bucket_liquid x) [] ?t" using ledger_remove_bucket [OF L x un] by simp
  have pos: "0 \<le> bucket_liquid x" using get_bucket_ok(1) [OF L x] by (simp add: bucket.container_ok_def)
  have h: "holdings (?m ?t) = holdings w - bucket_liquid x"
    using holdings_remove_bucket [OF L x] un by (simp add: holdings_def bucket.total_def)
  have "lock_count (?m ?t) c y = lock_count ?t c y" for c y by (cases c) (simp_all add: lock_count_def)
  then have "ledger 0 [] (?m ?t)"
    using T L pos h by (auto simp: ledger_defs evidence_count_def atom_unit_def)
       (auto simp: remove_bucket_def atom_unit_def)
  with h show ?thesis
    using x un bucket_amount_remove [OF L, of b]
    by (simp add: moves_def w' holdings_def)
       (auto simp: fun_eq_iff vault_amount_def bucket_amount_def remove_bucket_def bucket.total_def)
qed

lemma drop_empty_bucket_moves:
  assumes "drop_empty_bucket b w = Ok (u, w')" and L: "balanced w"
  shows "moves w w' (vault_amount w) ((bucket_amount w)(b := 0)) 0 \<and> vault_nodes w' = vault_nodes w"
proof -
  obtain x where x: "im_get (buckets w) b = Some x" and un: "bucket_locked x = []" "bucket_liquid x = 0"
    and w': "w' = remove_bucket b w"
    using assms(1)
    by (auto simp: drop_empty_bucket_def action_iffs dest!: drop_bucket_Ok split: if_splits)
  have "vault_amount w' = vault_amount w" by (simp add: fun_eq_iff vault_amount_def w' remove_bucket_def)
  then show ?thesis
    using ledger_remove_bucket [OF L x un(1)] holdings_remove_bucket [OF L x] bucket_amount_remove [OF L] un
    by (simp add: moves_def w' bucket.total_def) (simp add: remove_bucket_def)
qed

lemma create_empty_vault_moves:
  assumes "create_empty_vault w = Ok (n, w')" and L: "balanced w"
  shows "moves w w' (vault_amount w) (bucket_amount w) 0 \<and> n \<notin> vault_nodes w \<and>
    vault_nodes w' = insert n (vault_nodes w)"
proof -
  let ?v = "\<lparr>vault_balance = 0, vault_locked = [], vault_frozen = 0\<rparr>"
  let ?u = "w\<lparr>vaults := im_insert (next_node w) ?v (vaults w), next_node := next_node w + 1\<rparr>"
  have n: "n = next_node w" and w': "w' = ?u\<lparr>events := events w @ [VaultCreationEvent n]\<rparr>"
    using assms(1) by (auto simp: create_empty_vault_def emit_event_def action_iffs)
  have "lock_count ?u c x = lock_count w c x" for c x
    using fresh_node(1) [OF L] by (cases c) (auto simp: lock_count_def im_get_or_def)
  moreover have h: "holdings ?u = holdings w"
    using L fresh_node(1) [OF L] sum_im_insert_gen [of "vaults w" "\<lambda>p. vault.total (snd p)" "next_node w" ?v]
    by (simp add: holdings_def ledger_defs vault.total_def)
  moreover have "\<forall>p \<in> set (vaults ?u). fst p < next_node ?u \<and>
      vault.container_ok (snd p) \<and> vault.divisible (atom_unit (manager ?u)) (snd p)"
    using L by (auto simp: ledger_defs vault.container_ok_def vault.divisible_def locks_ok_def less_Suc_eq
        dest!: im_insert_mem)
  ultimately have "balanced ?u"
    using L by (auto simp: ledger_def objects_ok_def supply_ok_def locks_backed_def evidence_count_def less_Suc_eq)
  moreover have "n \<notin> vault_nodes w" using fresh_node(1) [OF L] n by (simp add: map_of_eq_None_iff)
  ultimately show ?thesis using h fresh_node(1) [OF L] n w'
    by (simp add: moves_def holdings_def)
       (auto simp: fun_eq_iff vault_amount_def bucket_amount_def vault.total_def)
qed

end
