(* ===== verification/Stake_Pool.thy ===== *)
theory Stake_Pool
  imports Stake_Effects
begin

text \<open>
  The validators as stake pools. \<open>pools\<close> abstracts a state of the consensus manager to what
  the value of stake units depends on: for each validator its two XRD vaults and the ledger of its stake
  units. A pool holds \<open>stake_of\<close> XRD against \<open>units_of\<close> stake units. The lemmas read every call
  of the validator blueprint as a change of these two numbers, under the invariant \<open>pool_ok\<close>: the books
  are balanced and no two pools share a vault.
\<close>


section \<open>The abstraction\<close>

type_synonym pool = "nat \<times> nat \<times> world"

definition pools :: "'n consensus_world \<Rightarrow> address \<Rightarrow> pool option" where
  "pools w a = map_option (\<lambda>v. (stake_xrd_vault (vo_state v), pending_xrd_withdraw_vault (vo_state v), vo_units v))
     (im_get (cw_validators w) a)"

definition stake_in :: "world \<Rightarrow> (address \<Rightarrow> pool option) \<Rightarrow> address \<Rightarrow> decimal" where
  "stake_in x P a = (case P a of None \<Rightarrow> 0 | Some (s, p, u) \<Rightarrow> vault_amount x s)"

definition units_in :: "(address \<Rightarrow> pool option) \<Rightarrow> address \<Rightarrow> decimal" where
  "units_in P a = (case P a of None \<Rightarrow> 0 | Some (s, p, u) \<Rightarrow> issued u)"

definition stake_of :: "'n consensus_world \<Rightarrow> address \<Rightarrow> decimal" where
  "stake_of w = stake_in (cw_xrd w) (pools w)"

definition units_of :: "'n consensus_world \<Rightarrow> address \<Rightarrow> decimal" where
  "units_of w = units_in (pools w)"

definition pool_inv :: "world \<Rightarrow> nat \<Rightarrow> (address \<Rightarrow> pool option) \<Rightarrow> bool" where
  "pool_inv x r P \<longleftrightarrow> balanced x \<and> r \<in> vault_nodes x \<and>
     (\<forall>a s p u. P a = Some (s, p, u) \<longrightarrow>
        balanced u \<and> tracked u \<and> s \<in> vault_nodes x \<and> p \<in> vault_nodes x \<and> s \<noteq> r) \<and>
     (\<forall>a b s p u s' p' u'. P a = Some (s, p, u) \<longrightarrow> P b = Some (s', p', u') \<longrightarrow> s \<noteq> p' \<and> (a \<noteq> b \<longrightarrow> s \<noteq> s'))"

definition pool_ok :: "'n consensus_world \<Rightarrow> bool" where
  "pool_ok w \<longleftrightarrow> pool_inv (cw_xrd w) (cw_rewards_vault w) (pools w)"

lemmas pool_defs = pool_ok_def stake_of_def units_of_def

lemma pool_invD:
  assumes "pool_inv x r P"
  shows "balanced x" "r \<in> vault_nodes x"
    "P a = Some (s, p, u) \<Longrightarrow> balanced u \<and> tracked u \<and> s \<in> vault_nodes x \<and> p \<in> vault_nodes x \<and> s \<noteq> r \<and> s \<noteq> p"
    "P a = Some (s, p, u) \<Longrightarrow> P b = Some (s', p', u') \<Longrightarrow> s \<noteq> p' \<and> (a \<noteq> b \<longrightarrow> s \<noteq> s')"
  using assms unfolding pool_inv_def by blast+

lemma pool_inv_xrd: "pool_inv x r P \<Longrightarrow> balanced x' \<Longrightarrow> vault_nodes x \<subseteq> vault_nodes x' \<Longrightarrow> pool_inv x' r P"
  unfolding pool_inv_def by blast

lemma pool_inv_units:
  assumes "pool_inv x r P" and "P a = Some (s, p, u)" and "balanced u'" and "tracked u'"
  shows "pool_inv x r (P(a \<mapsto> (s, p, u')))"
proof -
  have key: "(P(a \<mapsto> (s, p, u'))) b = Some (s1, p1, u1) \<Longrightarrow> \<exists>u2. P b = Some (s1, p1, u2) \<and> (u1 = u' \<or> u1 = u2)"
    for b s1 p1 u1
    using assms(2) by (auto split: if_splits)
  have tr: "b = a \<or> P b = Some (s1, p1, u1)" if "(P(a \<mapsto> (s, p, u'))) b = Some (s1, p1, u1)" for b s1 p1 u1
    using that by (auto split: if_splits)
  show ?thesis
    unfolding pool_inv_def
  proof (intro conjI allI impI)
    show "balanced x" "r \<in> vault_nodes x" using pool_invD [OF assms(1)] by auto
    fix b s1 p1 u1 assume b: "(P(a \<mapsto> (s, p, u'))) b = Some (s1, p1, u1)"
    obtain u2 where u2: "P b = Some (s1, p1, u2)" "u1 = u' \<or> u1 = u2" using key [OF b] by blast
    show "balanced u1" "tracked u1" "s1 \<in> vault_nodes x" "p1 \<in> vault_nodes x" "s1 \<noteq> r"
      using pool_invD(3) [OF assms(1) u2(1)] u2(2) assms(3,4) by auto
    fix c s2 p2 v assume c: "(P(a \<mapsto> (s, p, u'))) c = Some (s2, p2, v)"
    obtain u3 where "P c = Some (s2, p2, u3)" using key [OF c] by blast
    with pool_invD(4) [OF assms(1) u2(1)] show "s1 \<noteq> p2" "b \<noteq> c \<Longrightarrow> s1 \<noteq> s2" by auto
  qed
qed

lemma stake_in_update:
  assumes "pool_inv x r P" and "P a = Some (s, p, u)" and "vault_amount x' = (vault_amount x)(n := y)"
  shows "n = s \<Longrightarrow> stake_in x' P = (stake_in x P)(a := y)"
    "n = p \<or> n = r \<Longrightarrow> stake_in x' P = stake_in x P"
  using assms(2,3) pool_invD(3,4) [OF assms(1)]
  by (auto simp: stake_in_def fun_eq_iff split: option.splits) blast+

lemma units_in_update:
  "P a = Some (s, p, u) \<Longrightarrow> units_in (P(a \<mapsto> (s, p, u'))) = (units_in P)(a := issued u')"
  "P a = Some (s, p, u) \<Longrightarrow> stake_in x (P(a \<mapsto> (s, p, u'))) = stake_in x P"
  by (auto simp: units_in_def stake_in_def fun_eq_iff)

lemma pool_nonneg:
  assumes "pool_inv x r P"
  shows "0 \<le> stake_in x P a" "0 \<le> units_in P a"
  using pool_invD(1,3) [OF assms] vault_amount_nonneg [OF pool_invD(1) [OF assms]] supply_nonneg
  by (auto simp: stake_in_def units_in_def split: option.splits)


section \<open>Calls that leave the pools alone\<close>

definition quiet :: "'n consensus_world \<Rightarrow> 'n consensus_world \<Rightarrow> bool" where
  "quiet w w' \<longleftrightarrow> cw_xrd w' = cw_xrd w \<and> cw_rewards_vault w' = cw_rewards_vault w \<and> pools w' = pools w \<and>
     cw_config w' = cw_config w"

lemma quiet_refl [simp]: "quiet w w"
  by (simp add: quiet_def)

lemma quiet_trans: "quiet w w' \<Longrightarrow> quiet w' w'' \<Longrightarrow> quiet w w''"
  by (simp add: quiet_def)

lemma cm_xrd_Ok: "cm_xrd m w = Ok (y, w') \<longleftrightarrow> (\<exists>x. m (cw_xrd w) = Ok (y, x) \<and> w' = w\<lparr>cw_xrd := x\<rparr>)"
  by (simp add: cm_xrd_def azoom_Ok_iff)

lemma pools_simps [simp]:
  "pools (w\<lparr>cw_xrd := x\<rparr>) = pools w"
  "pools (w\<lparr>cw_events := e\<rparr>) = pools w"
  "pools (w\<lparr>cw_index := i\<rparr>) = pools w"
  by (simp_all add: pools_def fun_eq_iff)

lemma get_validator_Ok: "get_validator a w = Ok (v, w') \<longleftrightarrow> im_get (cw_validators w) a = Some v \<and> w' = w"
  by (auto simp: get_validator_def action_iffs res_iffs)

lemma read_state_Ok:
  "read_state a w = Ok (s, w') \<Longrightarrow>
     w' = w \<and> (\<exists>u. pools w a = Some (stake_xrd_vault s, pending_xrd_withdraw_vault s, u))"
  by (auto simp: read_state_def action_iffs get_validator_Ok pools_def)

lemma write_state_quiet:
  assumes "write_state a s w = Ok (y, w')"
    and "pools w a = Some (stake_xrd_vault s, pending_xrd_withdraw_vault s, u)"
  shows "quiet w w'"
  using assms
  by (auto simp: write_state_def set_validator_def action_iffs get_validator_Ok quiet_def pools_def fun_eq_iff)

lemma cm_emit_quiet: "cm_emit e w = Ok (y, w') \<Longrightarrow> quiet w w'"
  by (auto simp: cm_emit_def action_iffs quiet_def)

lemma cm_claims_quiet: "cm_claims a m w = Ok (y, w') \<Longrightarrow> quiet w w'"
  by (auto simp: cm_claims_def set_validator_def action_iffs get_validator_Ok quiet_def pools_def fun_eq_iff)

lemma cm_ok_or_Ok: "cm_ok_or x e w = Ok (y, w') \<longleftrightarrow> x = Some y \<and> w' = w"
  by (auto simp: cm_ok_or_def action_iffs res_iffs)

lemma cm_fail_Ok [simp]: "cm_fail e w = Ok y \<longleftrightarrow> False"
  by (simp add: cm_fail_def)

lemma update_validator_quiet: "update_validator i w = Ok (y, w') \<Longrightarrow> quiet w w'"
  by (cases i) (auto simp: index_insert_def index_remove_def action_iffs quiet_def)

lemma index_update_quiet:
  "index_update a s reg x w = Ok (y, w') \<Longrightarrow> quiet w w'"
  by (auto simp: index_update_def action_iffs simp del: update_validator.simps dest: update_validator_quiet
      split: option.splits)

lemma cm_units_Ok:
  assumes "cm_units a m w = Ok (y, w')"
  shows "\<exists>s p u u'. pools w a = Some (s, p, u) \<and> m u = Ok (y, u') \<and> cw_xrd w' = cw_xrd w \<and>
    cw_rewards_vault w' = cw_rewards_vault w \<and> cw_config w' = cw_config w \<and> pools w' = (pools w)(a \<mapsto> (s, p, u'))"
  using assms
  by (auto simp: cm_units_def set_validator_def action_iffs get_validator_Ok res_iffs pools_def fun_eq_iff)

lemma unit_supply_Ok:
  assumes "unit_supply a w = Ok (y, w')"
  shows "quiet w w' \<and> y = units_of w a"
proof -
  obtain x w1 where x: "cm_units a get_total_supply w = Ok (x, w1)" "expect x = (Ok y :: (consensus_error, _) res)" "w' = w1"
    using assms by (auto simp: unit_supply_def action_iffs)
  obtain s p u u' where u: "pools w a = Some (s, p, u)" "get_total_supply u = Ok (x, u')" "cw_xrd w1 = cw_xrd w"
    "cw_rewards_vault w1 = cw_rewards_vault w" "cw_config w1 = cw_config w" "pools w1 = (pools w)(a \<mapsto> (s, p, u'))"
    using cm_units_Ok [OF x(1)] by blast
  show ?thesis using u x(2,3) get_total_supply_Ok [OF u(2)]
    by (auto simp: quiet_def units_of_def units_in_def res_iffs fun_upd_idem split: if_splits)
qed

section \<open>Stake units are priced fairly\<close>

lemma sdiv_mult_le: "0 \<le> x \<Longrightarrow> 0 < d \<Longrightarrow> (x sdiv d) * d \<le> (x :: int)"
  using div_mult_mod_eq [of x d] by (simp add: sdiv_cases minus_mod_eq_div_mult [symmetric])

text \<open>A price that is rounded down twice: \<open>n\<close> shares of \<open>t / o\<close> each.\<close>

lemma rounded_share:
  assumes "dec_checked_div t b = Some q" and "dec_checked_mul n q = Some y"
    and "is_decimal t" and "0 \<le> t" and "0 < b" and "0 \<le> n"
  shows "0 \<le> y \<and> b * y \<le> n * t"
proof -
  have q: "q = (t * 10 ^ 18) sdiv b"
    using assms(1,3) dec.checked_div_Some_iff [of t b q] by (simp add: dec_checked_div_def)
  have y: "y = (n * q) sdiv 10 ^ 18" using assms(2) by (simp add: dec_checked_mul_iff)
  have q0: "0 \<le> q" using q assms(4,5) by (simp add: sdiv_cases pos_imp_zdiv_nonneg_iff)
  have y0: "0 \<le> y" using y q0 assms(6) by (simp add: sdiv_cases pos_imp_zdiv_nonneg_iff)
  have "q * b \<le> t * 10 ^ 18" using q sdiv_mult_le [of "t * 10 ^ 18" b] assms(4,5) by simp
  moreover have "y * 10 ^ 18 \<le> n * q" using y sdiv_mult_le [of "n * q" "10 ^ 18"] q0 assms(6) by simp
  ultimately have "(y * 10 ^ 18) * b \<le> n * q * b" "n * (q * b) \<le> n * (t * 10 ^ 18)"
    using assms(5,6) by (auto intro!: mult_right_mono mult_left_mono simp del: mult_le_cancel_right)
  then have "10 ^ 18 * (b * y) \<le> 10 ^ 18 * (n * t)" by (simp only: ac_simps)
  then have "b * y \<le> n * t" by simp
  with y0 show ?thesis by simp
qed

lemma stake_unit_amount_fair:
  assumes "calculate_stake_unit_amount x t u = Ok y" and "is_decimal u" and "0 \<le> x" and "0 \<le> t" and "0 \<le> u"
  shows "0 \<le> y \<and> t * y \<le> x * u"
  using assms rounded_share [of u t _ x y]
  by (auto simp: calculate_stake_unit_amount_def res_iffs bind_eq_Some_conv split: if_splits)

lemma redemption_value_fair:
  assumes "redemption_value n t u = Ok y" and "is_decimal t" and "0 \<le> n" and "0 \<le> t" and "0 \<le> u"
  shows "0 \<le> y \<and> u * y \<le> n * t"
  using assms rounded_share [of t u _ n y]
  by (auto simp: redemption_value_def res_iffs bind_eq_Some_conv split: if_splits)


section \<open>The operations on the pools\<close>

text \<open>A change of one pool by amounts of XRD and of stake units; the vaults of all pools stay.\<close>

definition pool_vaults :: "'n consensus_world \<Rightarrow> address \<Rightarrow> (nat \<times> nat) option" where
  "pool_vaults w = map_option (\<lambda>(s, p, u). (s, p)) \<circ> pools w"

definition pool_change ::
    "address \<Rightarrow> int \<Rightarrow> int \<Rightarrow> 'n consensus_world \<Rightarrow> 'n consensus_world \<Rightarrow> bool" where
  "pool_change a ds du w w' \<longleftrightarrow> pool_ok w' \<and> pool_vaults w' = pool_vaults w \<and>
     cw_rewards_vault w' = cw_rewards_vault w \<and> cw_config w' = cw_config w \<and>
     holdings (cw_xrd w') = holdings (cw_xrd w) \<and>
     stake_of w' = (stake_of w)(a := stake_of w a + ds) \<and>
     units_of w' = (units_of w)(a := units_of w a + du)"

lemma pool_change_trans:
  "pool_change a ds du w w' \<Longrightarrow> pool_change a ds' du' w' w'' \<Longrightarrow> pool_change a (ds + ds') (du + du') w w''"
  by (auto simp: pool_change_def fun_eq_iff)

lemma pool_change_refl: "pool_ok w \<Longrightarrow> pool_change a 0 0 w w"
  by (auto simp: pool_change_def)

lemma quiet_change: "pool_ok w \<Longrightarrow> quiet w w' \<Longrightarrow> pool_change a 0 0 w w'"
  by (simp add: quiet_def pool_change_def pool_defs pool_vaults_def)

lemma pool_vaultsD: "pools w a = Some (s, p, u) \<Longrightarrow> pool_vaults w a = Some (s, p)"
  by (simp add: pool_vaults_def)

text \<open>A call on the stake units of a validator, of which it issues some.\<close>

lemma cm_units_change:
  assumes "cm_units a m w = Ok (y, w')" and ok: "pool_ok w"
    and m: "\<And>s p u u'. pools w a = Some (s, p, u) \<Longrightarrow> balanced u \<Longrightarrow> tracked u \<Longrightarrow> m u = Ok (y, u') \<Longrightarrow>
      balanced u' \<and> tracked u' \<and> issued u' = issued u + d"
  shows "pool_change a 0 d w w' \<and> cw_xrd w' = cw_xrd w"
proof -
  obtain s p u u' where u: "pools w a = Some (s, p, u)" "m u = Ok (y, u')" "cw_xrd w' = cw_xrd w"
    "cw_rewards_vault w' = cw_rewards_vault w" "cw_config w' = cw_config w" "pools w' = (pools w)(a \<mapsto> (s, p, u'))"
    using cm_units_Ok [OF assms(1)] by blast
  have inv: "pool_inv (cw_xrd w) (cw_rewards_vault w) (pools w)" using ok by (simp add: pool_ok_def)
  have u': "balanced u'" "tracked u'" "issued u' = issued u + d"
    using m [OF u(1) _ _ u(2)] pool_invD(3) [OF inv u(1)] by auto
  moreover have "units_in (pools w) a = issued u" using u(1) by (simp add: units_in_def)
  ultimately show ?thesis
    using pool_inv_units [OF inv u(1) u'(1,2)] units_in_update [of "pools w", OF u(1)] u
    by (auto simp: pool_change_def pool_defs pool_vaults_def fun_upd_comp intro!: fun_upd_idem)
qed

text \<open>A call on XRD that changes the stake of at most one pool.\<close>

lemma cm_xrd_change:
  assumes ok: "pool_ok w" and x: "moves (cw_xrd w) x v b 0"
    and st: "stake_in x (pools w) = (stake_of w)(a := stake_of w a + d)"
  shows "pool_change a d 0 w (w\<lparr>cw_xrd := x\<rparr>)"
  using assms pool_inv_xrd [of "cw_xrd w" "cw_rewards_vault w" "pools w" x]
  by (auto simp: pool_change_def pool_defs pool_vaults_def moves_def)

lemma stake_in_same: "vault_amount x' = vault_amount x \<Longrightarrow> stake_in x' P = stake_in x P"
  by (auto simp: stake_in_def fun_eq_iff split: option.splits)

lemma cm_amounts_Ok:
  "cm_xrd (amount_of_vault n) w = Ok (x, w') \<Longrightarrow> w' = w \<and> x = vault_amount (cw_xrd w) n \<and> is_decimal x"
  "cm_xrd (amount_of_bucket n) w = Ok (x, w') \<Longrightarrow> w' = w \<and> x = bucket_amount (cw_xrd w) n \<and> is_decimal x"
  by (auto simp: cm_xrd_Ok dest!: amount_of_vault_Ok amount_of_bucket_Ok)

lemma units_of_decimal: "pool_ok w \<Longrightarrow> is_decimal (units_of w a)"
proof (cases "pools w a")
  case (Some t)
  assume ok: "pool_ok w"
  obtain s p u where t: "t = (s, p, u)" by (cases t)
  have "balanced u" "tracked u"
    using pool_invD(3) [OF ok [unfolded pool_ok_def]] Some t by blast+
  then show ?thesis
    using Some t supply_nonneg [of u] is_decimal_between [of "issued u"]
    by (simp add: units_of_def units_in_def ledger_defs)
qed (simp add: units_of_def units_in_def range_simps)

lemma pool_ok_facts:
  assumes "pool_ok w"
  shows "balanced (cw_xrd w)" "0 \<le> stake_of w a" "0 \<le> units_of w a" "is_decimal (units_of w a)"
  using assms pool_invD(1) pool_nonneg units_of_decimal [OF assms] by (auto simp: pool_defs)

text \<open>The tail of the operations that move stake: the index, the substate and the event.\<close>

lemma stake_tail_quiet:
  assumes "index_update a s reg t w = Ok (k, w1)" and "write_state a (s\<lparr>sorted_key := k\<rparr>) w1 = Ok (y, w2)"
    and "cm_emit e w2 = Ok (z, w')"
    and "pools w a = Some (stake_xrd_vault s, pending_xrd_withdraw_vault s, u)"
  shows "quiet w w'"
proof -
  have "quiet w w1" by (rule index_update_quiet [OF assms(1)])
  moreover have "pools w1 a = pools w a" using calculation by (simp add: quiet_def)
  then have "quiet w1 w2" using write_state_quiet [OF assms(2)] assms(4) by simp
  ultimately show ?thesis using cm_emit_quiet [OF assms(3)] quiet_trans by blast
qed

lemmas cm_run = abind_Ok_iff aread_Ok_iff areturn_Ok_iff amodify_Ok_iff cm_xrd_Ok cm_ok_or_Ok

lemma stake_internal_steps:
  assumes "stake_internal a b is_owner w = Ok (y, w')"
  obtains s w0 un w1 m sb w2 x3 t k w4 w5 where "read_state a w = Ok (s, w0)"
    and "is_decimal (bucket_amount (cw_xrd w) b)"
    and "unit_supply a w = Ok (un, w1)"
    and "calculate_stake_unit_amount (bucket_amount (cw_xrd w) b) (vault_amount (cw_xrd w) (stake_xrd_vault s)) un = Ok m"
    and "cm_units a (mint m) w1 = Ok (sb, w2)"
    and "vault_put (stake_xrd_vault s) b (cw_xrd w2) = Ok ((), x3)"
    and "index_update a s (is_registered s) t (w2\<lparr>cw_xrd := x3\<rparr>) = Ok (k, w4)"
    and "write_state a (s\<lparr>sorted_key := k\<rparr>) w4 = Ok ((), w5)"
    and "cm_emit (StakeEvent a (bucket_amount (cw_xrd w) b)) w5 = Ok ((), w')"
  using assms unfolding stake_internal_def
  by (fastforce simp: cm_run split: if_splits dest: read_state_Ok dest!: amount_of_vault_Ok amount_of_bucket_Ok)


section \<open>Calls on XRD and on stake units\<close>

lemma stake_put_change:
  assumes "vault_put s b (cw_xrd w) = Ok (y, x)" and ok: "pool_ok w" and s: "pool_vaults w a = Some (s, p)"
  shows "pool_change a (bucket_amount (cw_xrd w) b) 0 w (w\<lparr>cw_xrd := x\<rparr>) \<and>
    bucket_amount x = (bucket_amount (cw_xrd w))(b := 0)"
proof -
  have mv: "moves (cw_xrd w) x ((vault_amount (cw_xrd w))(s := vault_amount (cw_xrd w) s + bucket_amount (cw_xrd w) b))
      ((bucket_amount (cw_xrd w))(b := 0)) 0"
    using vault_put_moves [OF assms(1) pool_ok_facts(1) [OF ok]] by blast
  obtain u where P: "pools w a = Some (s, p, u)" using s by (auto simp: pool_vaults_def)
  have "stake_in x (pools w) = (stake_of w)(a := stake_of w a + bucket_amount (cw_xrd w) b)"
    using stake_in_update(1) [OF ok [unfolded pool_ok_def] P] mv P
    by (simp add: moves_def stake_of_def stake_in_def)
  then show ?thesis using cm_xrd_change [OF ok mv] mv by (simp add: moves_def)
qed

lemma stake_take_change:
  assumes "vault_take s q (cw_xrd w) = Ok (b, x)" and ok: "pool_ok w" and s: "pool_vaults w a = Some (s, p)"
  shows "pool_change a (- q) 0 w (w\<lparr>cw_xrd := x\<rparr>) \<and> 0 \<le> q \<and> q \<le> stake_of w a"
proof -
  have mv: "moves (cw_xrd w) x ((vault_amount (cw_xrd w))(s := vault_amount (cw_xrd w) s - q))
      ((bucket_amount (cw_xrd w))(b := q)) 0" "0 \<le> q" "q \<le> vault_amount (cw_xrd w) s"
    using vault_take_moves [OF assms(1) pool_ok_facts(1) [OF ok]] by blast+
  obtain u where P: "pools w a = Some (s, p, u)" using s by (auto simp: pool_vaults_def)
  have "stake_in x (pools w) = (stake_of w)(a := stake_of w a + - q)"
    using stake_in_update(1) [OF ok [unfolded pool_ok_def] P] mv P
    by (simp add: moves_def stake_of_def stake_in_def)
  then show ?thesis using cm_xrd_change [OF ok mv(1)] mv P by (simp add: stake_of_def stake_in_def)
qed

text \<open>Moves of XRD between buckets and the vaults that hold no stake.\<close>

definition no_stake_vault :: "'n consensus_world \<Rightarrow> nat \<Rightarrow> bool" where
  "no_stake_vault w n \<longleftrightarrow> n = cw_rewards_vault w \<or> (\<exists>a s. pool_vaults w a = Some (s, n))"

lemma other_vault_change:
  assumes "moves (cw_xrd w) x ((vault_amount (cw_xrd w))(n := y)) b 0" and ok: "pool_ok w"
    and n: "no_stake_vault w n"
  shows "pool_change a 0 0 w (w\<lparr>cw_xrd := x\<rparr>)"
proof -
  have "s \<noteq> n" if "pools w c = Some (s, p, u)" for c s p u
    using n pool_invD(3,4) [OF ok [unfolded pool_ok_def]] that
    by (auto simp: no_stake_vault_def pool_vaults_def split: option.splits) blast+
  then have "stake_in x (pools w) = stake_of w"
    using assms(1) by (auto simp: moves_def stake_of_def stake_in_def fun_eq_iff split: option.splits)
  then show ?thesis using cm_xrd_change [OF ok assms(1)] by simp
qed

lemma buckets_change:
  assumes "moves (cw_xrd w) x (vault_amount (cw_xrd w)) b 0" and ok: "pool_ok w"
  shows "pool_change a 0 0 w (w\<lparr>cw_xrd := x\<rparr>)"
  using cm_xrd_change [OF ok assms(1)] assms(1) stake_in_same [of x "cw_xrd w"]
  by (auto simp: moves_def stake_of_def)

lemma unit_calls_change:
  assumes ok: "pool_ok w"
  shows "cm_units a (mint d) w = Ok (y, w') \<Longrightarrow> pool_change a 0 d w w' \<and> cw_xrd w' = cw_xrd w \<and> 0 \<le> d"
    "cm_units a (vault_put n b) w = Ok (z, w') \<Longrightarrow> pool_change a 0 0 w w' \<and> cw_xrd w' = cw_xrd w"
    "cm_units a (vault_take n d) w = Ok (y, w') \<Longrightarrow> pool_change a 0 0 w w' \<and> cw_xrd w' = cw_xrd w"
    "cm_units a (amount_of_bucket b) w = Ok (d, w') \<Longrightarrow> pool_change a 0 0 w w' \<and> cw_xrd w' = cw_xrd w"
proof -
  assume run: "cm_units a (mint d) w = Ok (y, w')"
  have "0 \<le> d" using cm_units_Ok [OF run] pool_invD(3) [OF ok [unfolded pool_ok_def]] mint_moves by blast
  moreover have "pool_change a 0 d w w' \<and> cw_xrd w' = cw_xrd w"
    by (rule cm_units_change [OF run ok]) (auto dest!: mint_moves simp: moves_def)
  ultimately show "pool_change a 0 d w w' \<and> cw_xrd w' = cw_xrd w \<and> 0 \<le> d" by simp
next
  assume run: "cm_units a (vault_put n b) w = Ok (z, w')"
  show "pool_change a 0 0 w w' \<and> cw_xrd w' = cw_xrd w"
    by (rule cm_units_change [OF run ok]) (auto dest!: vault_put_moves simp: moves_def)
next
  assume run: "cm_units a (vault_take n d) w = Ok (y, w')"
  show "pool_change a 0 0 w w' \<and> cw_xrd w' = cw_xrd w"
    by (rule cm_units_change [OF run ok]) (auto dest!: vault_take_moves simp: moves_def)
next
  assume run: "cm_units a (amount_of_bucket b) w = Ok (d, w')"
  show "pool_change a 0 0 w w' \<and> cw_xrd w' = cw_xrd w"
    by (rule cm_units_change [OF run ok]) (auto dest!: amount_of_bucket_Ok)
qed

text \<open>Burning stake units out of a bucket.\<close>

lemma unit_burn_change:
  assumes ok: "pool_ok w" and amt: "cm_units a (amount_of_bucket b) w = Ok (d, w1)"
    and "pools w1 = pools w2" "cm_units a (burn_internal b) w2 = Ok (z, w')" "pool_ok w2"
  shows "pool_change a 0 (- d) w2 w' \<and> cw_xrd w' = cw_xrd w2 \<and> 0 \<le> d \<and> d \<le> units_of w a"
proof -
  obtain s p u where u: "pools w a = Some (s, p, u)" and d: "d = bucket_amount u b" and w1: "pools w1 = pools w"
    using cm_units_Ok [OF amt] by (auto dest!: amount_of_bucket_Ok simp: fun_upd_idem)
  have bal: "balanced u" "tracked u" using pool_invD(3) [OF ok [unfolded pool_ok_def] u] by auto
  have "pool_change a 0 (- d) w2 w' \<and> cw_xrd w' = cw_xrd w2"
  proof (rule cm_units_change [OF assms(4,5)])
    fix s' p' v v' assume v: "pools w2 a = Some (s', p', v)" "balanced v" "tracked v" "burn_internal b v = Ok (z, v')"
    then have "v = u" using assms(3) w1 u by simp
    then show "balanced v' \<and> tracked v' \<and> issued v' = issued v + - d"
      using burn_moves [OF v(4,2)] v(3) d by (auto simp: moves_def)
  qed
  then show ?thesis
    using bucket_le_supply [OF bal] bucket_amount_nonneg [OF bal(1)] d u
    by (simp add: units_of_def units_in_def)
qed


section \<open>The operations that move stake\<close>

lemma pool_change_facts:
  assumes "pool_change a ds du w w'"
  shows "pool_ok w'" "pool_vaults w' = pool_vaults w" "stake_of w' a = stake_of w a + ds"
    "units_of w' a = units_of w a + du"
  using assms by (simp_all add: pool_change_def)

text \<open>The same calls after a change of the pool: the amounts add up.\<close>

lemma after_quiet: "pool_change a ds du w0 w \<Longrightarrow> quiet w w' \<Longrightarrow> pool_change a ds du w0 w'"
  using quiet_change [of w w' a] pool_change_trans [of a ds du w0 w 0 0 w'] pool_change_facts(1) by fastforce

lemma after_units:
  assumes c: "pool_change a ds du w0 w"
  shows "cm_units a (mint d) w = Ok (y, w') \<Longrightarrow>
      pool_change a ds (du + d) w0 w' \<and> cw_xrd w' = cw_xrd w \<and> 0 \<le> d"
    "cm_units a (vault_put n b) w = Ok (z, w') \<Longrightarrow> pool_change a ds du w0 w' \<and> cw_xrd w' = cw_xrd w"
    "cm_units a (vault_take n d) w = Ok (y, w') \<Longrightarrow> pool_change a ds du w0 w' \<and> cw_xrd w' = cw_xrd w"
    "cm_units a (amount_of_bucket b) w = Ok (d, w') \<Longrightarrow> pool_change a ds du w0 w' \<and> cw_xrd w' = cw_xrd w"
  using unit_calls_change [OF pool_change_facts(1) [OF c], of a] pool_change_trans [OF c]
  by fastforce+

lemma after_stake_put:
  assumes c: "pool_change a ds du w0 w" and "pool_vaults w0 a = Some (s, p)"
    and "vault_put s b (cw_xrd w) = Ok (y, x)"
  shows "pool_change a (ds + bucket_amount (cw_xrd w) b) du w0 (w\<lparr>cw_xrd := x\<rparr>) \<and>
    bucket_amount x = (bucket_amount (cw_xrd w))(b := 0)"
  using stake_put_change [OF assms(3) pool_change_facts(1) [OF c], of a p] assms(2)
    pool_change_facts(2) [OF c] pool_change_trans [OF c] by fastforce

lemma after_stake_take:
  assumes c: "pool_change a ds du w0 w" and "pool_vaults w0 a = Some (s, p)"
    and "vault_take s q (cw_xrd w) = Ok (b, x)"
  shows "pool_change a (ds - q) du w0 (w\<lparr>cw_xrd := x\<rparr>) \<and> 0 \<le> q"
  using stake_take_change [OF assms(3) pool_change_facts(1) [OF c], of a p] assms(2)
    pool_change_facts(2) [OF c] pool_change_trans [OF c] by fastforce

lemma after_other_vault:
  assumes c: "pool_change a ds du w0 w" and n: "no_stake_vault w0 n"
  shows "vault_put n b (cw_xrd w) = Ok (y, x) \<Longrightarrow> pool_change a ds du w0 (w\<lparr>cw_xrd := x\<rparr>)"
    "vault_take n q (cw_xrd w) = Ok (b', x) \<Longrightarrow> pool_change a ds du w0 (w\<lparr>cw_xrd := x\<rparr>) \<and>
      bucket_amount x b' = q"
proof -
  have n': "no_stake_vault w n" using c n by (auto simp: no_stake_vault_def pool_change_def)
  note ok = pool_change_facts(1) [OF c]
  note tr = pool_change_trans [OF c other_vault_change [OF _ ok n', of _ _ _ a]]
  show "pool_change a ds du w0 (w\<lparr>cw_xrd := x\<rparr>)" if "vault_put n b (cw_xrd w) = Ok (y, x)"
    using tr vault_put_moves [OF that pool_ok_facts(1) [OF ok]] by fastforce
  show "pool_change a ds du w0 (w\<lparr>cw_xrd := x\<rparr>) \<and> bucket_amount x b' = q" if "vault_take n q (cw_xrd w) = Ok (b', x)"
    using tr vault_take_moves [OF that pool_ok_facts(1) [OF ok]] by (fastforce simp: moves_def)
qed

lemma after_bucket_take:
  assumes c: "pool_change a ds du w0 w" and "bucket_take n q (cw_xrd w) = Ok (b, x)"
  shows "pool_change a ds du w0 (w\<lparr>cw_xrd := x\<rparr>) \<and> 0 \<le> q \<and> q \<le> bucket_amount (cw_xrd w) n \<and> b \<noteq> n \<and>
    bucket_amount x = (bucket_amount (cw_xrd w))(n := bucket_amount (cw_xrd w) n - q, b := q)"
proof -
  note ok = pool_change_facts(1) [OF c]
  note mv = bucket_take_moves [OF assms(2) pool_ok_facts(1) [OF ok]]
  then show ?thesis using pool_change_trans [OF c buckets_change [of w x _ a, OF _ ok]] by (auto simp: moves_def)
qed

lemma after_tail:
  assumes c: "pool_change a ds du w0 w"
    and "pool_vaults w0 a = Some (stake_xrd_vault s, pending_xrd_withdraw_vault s)"
    and "index_update a s reg t w = Ok (k, w1)" and "write_state a (s\<lparr>sorted_key := k\<rparr>) w1 = Ok (y, w2)"
    and "cm_emit e w2 = Ok (z, w')"
  shows "pool_change a ds du w0 w'"
proof -
  obtain u where "pools w a = Some (stake_xrd_vault s, pending_xrd_withdraw_vault s, u)"
    using assms(2) pool_change_facts(2) [OF c] by (auto simp: pool_vaults_def fun_eq_iff dest!: spec [of _ a])
  then show ?thesis using after_quiet [OF c stake_tail_quiet [OF assms(3-5)]] by simp
qed

lemma read_state_vaults:
  assumes "read_state a w = Ok (s, w0)"
  shows "pool_vaults w a = Some (stake_xrd_vault s, pending_xrd_withdraw_vault s) \<and> w0 = w \<and>
    stake_of w a = vault_amount (cw_xrd w) (stake_xrd_vault s)"
  using read_state_Ok [OF assms] by (auto simp: pool_vaults_def stake_of_def stake_in_def)

lemma stake_internal_change:
  assumes "stake_internal a b is_owner w = Ok (y, w')" and ok: "pool_ok w"
  shows "\<exists>ds du. pool_change a ds du w w' \<and> 0 \<le> ds \<and> 0 \<le> du \<and> stake_of w a * du \<le> ds * units_of w a"
  using assms(1)
proof (rule stake_internal_steps)
  fix s w0 un w1 m sb w2 x3 t k w4 w5
  let ?b = "bucket_amount (cw_xrd w) b"
  assume st: "read_state a w = Ok (s, w0)" and un: "unit_supply a w = Ok (un, w1)"
    and m: "calculate_stake_unit_amount ?b (vault_amount (cw_xrd w) (stake_xrd_vault s)) un = Ok m"
    and mint: "cm_units a (mint m) w1 = Ok (sb, w2)"
    and put: "vault_put (stake_xrd_vault s) b (cw_xrd w2) = Ok ((), x3)"
    and tail: "index_update a s (is_registered s) t (w2\<lparr>cw_xrd := x3\<rparr>) = Ok (k, w4)"
      "write_state a (s\<lparr>sorted_key := k\<rparr>) w4 = Ok ((), w5)" "cm_emit (StakeEvent a ?b) w5 = Ok ((), w')"
  note V = read_state_vaults [OF st]
  have q: "quiet w w1" "un = units_of w a" using unit_supply_Ok [OF un] by auto
  note c1 = after_quiet [OF pool_change_refl [OF ok, of a] q(1)]
  have c2: "pool_change a 0 m w w2" "cw_xrd w2 = cw_xrd w" "0 \<le> m"
    using after_units(1) [OF c1 mint] q(1) by (auto simp: quiet_def)
  have c3: "pool_change a ?b m w (w2\<lparr>cw_xrd := x3\<rparr>)" using after_stake_put [OF c2(1) _ put] V c2(2) by simp
  have "pool_change a ?b m w w'" using after_tail [OF c3 _ tail] V by blast
  then show ?thesis
    using stake_unit_amount_fair [OF m] q(2) c2(3) V pool_ok_facts [OF ok] bucket_amount_nonneg [OF pool_ok_facts(1) [OF ok], of b]
    by metis
qed

lemma apply_reward_change:
  assumes "apply_reward a b e w = Ok (y, w')" and ok: "pool_ok w"
  shows "\<exists>ds du. pool_change a ds du w w' \<and> 0 \<le> ds \<and> 0 \<le> du \<and> stake_of w a * du \<le> ds * units_of w a"
proof -
  let ?b = "bucket_amount (cw_xrd w) b"
  obtain s w0 un w1 m sb w2 x3 w3 t k w4 w5 where st: "read_state a w = Ok (s, w0)" and un: "unit_supply a w = Ok (un, w1)"
    and m: "calculate_stake_unit_amount ?b (vault_amount (cw_xrd w) (stake_xrd_vault s)) un = Ok m"
    and mint: "cm_units a (mint m) w1 = Ok (sb, w2)"
    and put: "vault_put (stake_xrd_vault s) b (cw_xrd w2) = Ok ((), x3)"
    and lock: "cm_units a (vault_put (locked_owner_stake_unit_vault s) sb) (w2\<lparr>cw_xrd := x3\<rparr>) = Ok ((), w3)"
    and tail: "index_update a s (is_registered s) t w3 = Ok (k, w4)"
      "write_state a (s\<lparr>sorted_key := k\<rparr>) w4 = Ok ((), w5)" "cm_emit (ValidatorRewardAppliedEvent a e ?b) w5 = Ok (y, w')"
    using assms(1) unfolding apply_reward_def
    by (fastforce simp: cm_run dest: read_state_Ok dest!: amount_of_vault_Ok amount_of_bucket_Ok)
  note V = read_state_vaults [OF st]
  have q: "quiet w w1" "un = units_of w a" using unit_supply_Ok [OF un] by auto
  note c1 = after_quiet [OF pool_change_refl [OF ok, of a] q(1)]
  have c2: "pool_change a 0 m w w2" "cw_xrd w2 = cw_xrd w" "0 \<le> m"
    using after_units(1) [OF c1 mint] q(1) by (auto simp: quiet_def)
  have c3: "pool_change a ?b m w (w2\<lparr>cw_xrd := x3\<rparr>)" using after_stake_put [OF c2(1) _ put] V c2(2) by simp
  have c4: "pool_change a ?b m w w3" using after_units(2) [OF c3 lock] by blast
  have "pool_change a ?b m w w'" using after_tail [OF c4 _ tail] V by blast
  then show ?thesis
    using stake_unit_amount_fair [OF m] q(2) c2(3) V pool_ok_facts [OF ok] bucket_amount_nonneg [OF pool_ok_facts(1) [OF ok], of b]
    by metis
qed

lemma apply_emission_change:
  assumes "apply_emission a b e pm ps w = Ok (y, w')" and ok: "pool_ok w"
  shows "\<exists>ds du. pool_change a ds du w w' \<and> 0 \<le> ds \<and> 0 \<le> du \<and> stake_of w a * du \<le> ds * units_of w a"
proof -
  let ?b = "bucket_amount (cw_xrd w) b" let ?s = "\<lambda>s. vault_amount (cw_xrd w) (stake_xrd_vault s)"
  obtain s w0 fee fb x1 x2 un w3 m sb w4 x5 w6 t k w7 w8 ev where st: "read_state a w = Ok (s, w0)"
    and take: "bucket_take b fee (cw_xrd w) = Ok (fb, x1)"
    and put: "vault_put (stake_xrd_vault s) b x1 = Ok ((), x2)"
    and un: "unit_supply a (w\<lparr>cw_xrd := x2\<rparr>) = Ok (un, w3)"
    and m: "calculate_stake_unit_amount fee (vault_amount x1 (stake_xrd_vault s) + (?b - fee)) un = Ok m"
    and mint: "cm_units a (mint m) w3 = Ok (sb, w4)"
    and put2: "vault_put (stake_xrd_vault s) fb (cw_xrd w4) = Ok ((), x5)"
    and lock: "cm_units a (vault_put (locked_owner_stake_unit_vault s) sb) (w4\<lparr>cw_xrd := x5\<rparr>) = Ok ((), w6)"
    and tail: "index_update a s (is_registered s) t w6 = Ok (k, w7)"
      "write_state a (s\<lparr>sorted_key := k\<rparr>) w7 = Ok ((), w8)" "cm_emit ev w8 = Ok (y, w')"
    using assms(1) unfolding apply_emission_def
    by (fastforce simp: cm_run Let_def dec_checked_add_iff dec_checked_sub_iff dest: read_state_Ok
        dest!: amount_of_vault_Ok amount_of_bucket_Ok)
  note V = read_state_vaults [OF st]
  have c1: "pool_change a 0 0 w (w\<lparr>cw_xrd := x1\<rparr>)" "0 \<le> fee" "fee \<le> ?b" "fb \<noteq> b"
    "bucket_amount x1 = (bucket_amount (cw_xrd w))(b := ?b - fee, fb := fee)"
    using after_bucket_take [OF pool_change_refl [OF ok, of a] take] by auto
  have x1: "vault_amount x1 (stake_xrd_vault s) = ?s s"
    using bucket_take_moves [OF take pool_ok_facts(1) [OF ok]] by (simp add: moves_def)
  have c2: "pool_change a (?b - fee) 0 w (w\<lparr>cw_xrd := x2\<rparr>)" "bucket_amount x2 fb = fee"
    using after_stake_put [OF c1(1), of "stake_xrd_vault s" _ b] put V c1(4,5) by auto
  have q: "quiet (w\<lparr>cw_xrd := x2\<rparr>) w3" "un = units_of w a"
    using unit_supply_Ok [OF un] pool_change_facts(4) [OF c2(1)] by auto
  note c3 = after_quiet [OF c2(1) q(1)]
  have c4: "pool_change a (?b - fee) m w w4" "cw_xrd w4 = x2" "0 \<le> m"
    using after_units(1) [OF c3 mint] q(1) by (auto simp: quiet_def)
  have c5: "pool_change a ?b m w (w4\<lparr>cw_xrd := x5\<rparr>)" using after_stake_put [OF c4(1) _ put2] V c4(2) c2(2) by simp
  have c6: "pool_change a ?b m w w6" using after_units(2) [OF c5 lock] by blast
  have c7: "pool_change a ?b m w w'" using after_tail [OF c6 _ tail] V by blast
  have s: "stake_of w a = ?s s" "0 \<le> stake_of w a" "0 \<le> units_of w a" "is_decimal (units_of w a)"
    using V pool_ok_facts(2-4) [OF ok, of a] by auto
  have "(stake_of w a + (?b - fee)) * m \<le> fee * units_of w a"
    using stake_unit_amount_fair [OF m] x1 q(2) c1(2,3) s by simp
  moreover have "stake_of w a * m \<le> (stake_of w a + (?b - fee)) * m" using c1(3) c4(3) by (intro mult_right_mono) auto
  moreover have "fee * units_of w a \<le> ?b * units_of w a" using c1(3) s(3) by (intro mult_right_mono) auto
  ultimately have "stake_of w a * m \<le> ?b * units_of w a" by linarith
  then show ?thesis using c7 c4(3) c1(2,3) by (intro exI [of _ ?b] exI [of _ m]) auto
qed

lemma unstake_change:
  assumes "validator_unstake C a b w = Ok (y, w')" and ok: "pool_ok w"
  shows "\<exists>q n. pool_change a (- q) (- n) w w' \<and> 0 \<le> q \<and> 0 \<le> n \<and> n \<le> units_of w a \<and>
    units_of w a * q \<le> n * stake_of w a"
proof -
  obtain n w1 s w1' t un w2 q w3 bk x4 x5 cb w6 t' k w7 w8 ev where amt: "cm_units a (amount_of_bucket b) w = Ok (n, w1)"
    and st: "read_state a w1 = Ok (s, w1')"
    and t: "t = vault_amount (cw_xrd w1) (stake_xrd_vault s)" "is_decimal t"
    and un: "unit_supply a w1 = Ok (un, w2)" and q: "redemption_value n t un = Ok q"
    and burn: "cm_units a (burn_internal b) w2 = Ok ((), w3)"
    and take: "vault_take (stake_xrd_vault s) q (cw_xrd w3) = Ok (bk, x4)"
    and put: "vault_put (pending_xrd_withdraw_vault s) bk x4 = Ok ((), x5)"
    and claim: "cm_claims a (claim_mint C cb) (w3\<lparr>cw_xrd := x5\<rparr>) = Ok (y, w6)"
    and tail: "index_update a s (is_registered s) t' w6 = Ok (k, w7)"
      "write_state a (s\<lparr>sorted_key := k\<rparr>) w7 = Ok ((), w8)" "cm_emit ev w8 = Ok ((), w')"
    using assms(1) unfolding validator_unstake_def calculate_redemption_value_def
    by (fastforce simp: cm_run dest: read_state_Ok dest!: amount_of_vault_Ok)
  have c1: "pool_change a 0 0 w w1" "cw_xrd w1 = cw_xrd w" "pools w1 = pools w"
    using after_units(4) [OF pool_change_refl [OF ok] amt] cm_units_Ok [OF amt]
    by (auto dest!: amount_of_bucket_Ok simp: fun_upd_idem)
  have V: "pool_vaults w a = Some (stake_xrd_vault s, pending_xrd_withdraw_vault s)"
    and s: "stake_of w a = vault_amount (cw_xrd w) (stake_xrd_vault s)"
    using read_state_vaults [OF st] pool_change_facts [OF c1(1)] c1(2) by auto
  have u: "quiet w1 w2" "un = units_of w a" using unit_supply_Ok [OF un] pool_change_facts(4) [OF c1(1)] by auto
  note c2 = after_quiet [OF c1(1) u(1)]
  have c3: "pool_change a 0 (- n) w2 w3" "cw_xrd w3 = cw_xrd w" "0 \<le> n" "n \<le> units_of w a"
    using unit_burn_change [OF ok amt _ burn pool_change_facts(1) [OF c2]] u(1) c1 by (auto simp: quiet_def)
  have c4: "pool_change a 0 (- n) w w3" using pool_change_trans [OF c2 c3(1)] by simp
  have c5: "pool_change a (- q) (- n) w (w3\<lparr>cw_xrd := x4\<rparr>)" "0 \<le> q"
    using after_stake_take [OF c4 V take] by auto
  have c6: "pool_change a (- q) (- n) w (w3\<lparr>cw_xrd := x5\<rparr>)"
    using after_other_vault(1) [OF c5(1), of "pending_xrd_withdraw_vault s" bk] put V
    by (auto simp: no_stake_vault_def)
  have "pool_change a (- q) (- n) w w'"
    using after_tail [OF after_quiet [OF c6 cm_claims_quiet [OF claim]] V tail] .
  moreover have "units_of w a * q \<le> n * stake_of w a"
    using redemption_value_fair [OF q] t u(2) s c1(2) c3(3) pool_ok_facts(2-4) [OF ok, of a] by simp
  ultimately show ?thesis using c5(2) c3(3,4) by blast
qed

end
