(* ===== verification/Consensus_Manager.thy ===== *)
theory Consensus_Manager
  imports Validator
begin

text \<open>
  The consensus manager (\<^verbatim>\<open>consensus_manager/consensus_manager.rs\<close>): rounds and proposal
  statistics, the condition of an epoch change, emissions and rewards of the concluded epoch, and
  the selection of the next validator set. The index of registered validators is scanned in the
  order of its sort prefix; validators with equal prefixes come in the order of the hashes of
  their keys in the database, the parameter \<open>key_hash\<close>.
\<close>


section \<open>Epoch change condition\<close>

datatype epoch_change_outcome = NoChange | Change int

definition is_change_criterion_met :: "consensus_config \<Rightarrow> int \<Rightarrow> int \<Rightarrow> bool" where
  "is_change_criterion_met c duration_millis round \<longleftrightarrow>
     (if round \<ge> max_round_count c then True
      else if round < min_round_count c then False
      else duration_millis \<ge> target_duration_millis c)"

definition is_actual_duration_close_to_target :: "consensus_config \<Rightarrow> int \<Rightarrow> ('e, bool) res" where
  "is_actual_duration_close_to_target c actual_duration_millis =
     (if \<not> (actual_duration_millis \<ge> 1000 \<and> target_duration_millis c \<ge> 1000) then Ok False
      else
        rbind (expect (dec_checked_sub (dec_from_int actual_duration_millis) (dec_from_int (target_duration_millis c))))
          (\<lambda>difference.
        rbind (expect (dec_checked_div difference (dec_from_int (target_duration_millis c)))) (\<lambda>proportion_difference.
        Ok (proportion_difference \<le> 10 ^ 17))))"

definition should_epoch_change :: "consensus_config \<Rightarrow> int \<Rightarrow> int \<Rightarrow> int \<Rightarrow> ('e, epoch_change_outcome) res" where
  "should_epoch_change c effective_start current_time round =
     (let epoch_duration_millis =
        (if current_time \<ge> 0 \<and> effective_start \<ge> 0 \<and> current_time > effective_start
         then current_time - effective_start else 0) in
      if is_change_criterion_met c epoch_duration_millis round then
        rbind (is_actual_duration_close_to_target c epoch_duration_millis) (\<lambda>close.
        Ok (Change (if close then min (effective_start + target_duration_millis c) (i_max 64) else current_time)))
      else Ok NoChange)"


section \<open>Reliability\<close>

definition u64_add :: "int \<Rightarrow> int \<Rightarrow> int" where
  "u64_add x y = (x + y) mod 2 ^ 64"

definition cm_decimal :: "decimal option \<Rightarrow> (consensus_error, decimal) res" where
  "cm_decimal x = ok_or x (ConsensusErr ConsensusDecimalComputationError)"

definition success_ratio :: "proposal_statistic \<Rightarrow> (consensus_error, decimal) res" where
  "success_ratio s =
     (let total = u64_add (made s) (missed s) in
      if total = 0 then Ok dec_one
      else cm_decimal (dec_checked_div (dec_from_int (made s)) (dec_from_int total)))"

definition to_reliability_factor :: "decimal \<Rightarrow> decimal \<Rightarrow> (consensus_error, decimal) res" where
  "to_reliability_factor reliability min_required_reliability =
     rbind (cm_decimal (dec_checked_sub reliability min_required_reliability)) (\<lambda>reliability_reserve.
     if reliability_reserve < 0 then Ok 0
     else
       rbind (cm_decimal (dec_checked_sub dec_one min_required_reliability)) (\<lambda>max_allowed_unreliability.
       if max_allowed_unreliability = 0 then Ok (if reliability = dec_one then dec_one else 0)
       else cm_decimal (dec_checked_div reliability_reserve max_allowed_unreliability)))"

record validator_info =
  info_address :: address
  info_stake_xrd :: decimal
  info_effective_stake_xrd :: decimal
  info_statistic :: proposal_statistic

definition create_if_applicable ::
    "address \<Rightarrow> decimal \<Rightarrow> proposal_statistic \<Rightarrow> decimal \<Rightarrow> (consensus_error, validator_info option) res" where
  "create_if_applicable a stake_xrd statistic min_required_reliability =
     (if stake_xrd > 0 then
        rbind (success_ratio statistic) (\<lambda>ratio.
        rbind (to_reliability_factor ratio min_required_reliability) (\<lambda>factor.
        rbind (cm_decimal (dec_checked_mul stake_xrd factor)) (\<lambda>effective.
        Ok (Some \<lparr>info_address = a, info_stake_xrd = stake_xrd, info_effective_stake_xrd = effective,
                  info_statistic = statistic\<rparr>))))
      else Ok None)"


section \<open>Emissions and rewards\<close>

text \<open>The loops of \<^verbatim>\<open>apply_validator_emissions_and_rewards\<close>, in their order.\<close>

fun collect_infos ::
    "consensus_config \<Rightarrow> proposal_statistic list \<Rightarrow> nat \<Rightarrow> (address \<times> validator_entry) list \<Rightarrow> decimal \<Rightarrow>
     (consensus_error, decimal \<times> (int \<times> validator_info) list) res" where
  "collect_infos c stats i [] stake_sum_xrd = Ok (stake_sum_xrd, [])"
| "collect_infos c stats i ((a, v) # vs) stake_sum_xrd =
     (if i \<ge> length stats then Panics
      else
        rbind (create_if_applicable a (entry_stake v) (stats ! i) (min_validator_reliability c)) (\<lambda>info.
        case info of
          None \<Rightarrow> collect_infos c stats (i + 1) vs stake_sum_xrd
        | Some info \<Rightarrow>
            rbind (cm_decimal (dec_checked_add stake_sum_xrd (info_stake_xrd info))) (\<lambda>acc.
            if i > 255 then Panics
            else
              rbind (collect_infos c stats (i + 1) vs acc) (\<lambda>(total, infos).
              Ok (total, (int i, info) # infos)))))"

fun total_emission :: "decimal \<Rightarrow> (int \<times> validator_info) list \<Rightarrow> decimal \<Rightarrow> (consensus_error, decimal) res" where
  "total_emission rate [] acc = Ok acc"
| "total_emission rate ((_, info) # infos) acc =
     rbind (cm_decimal (dec_checked_mul (info_effective_stake_xrd info) rate)) (\<lambda>emission.
     rbind (cm_decimal (dec_checked_add acc emission)) (\<lambda>acc.
     total_emission rate infos acc))"

fun distribute_emissions :: "decimal \<Rightarrow> nat \<Rightarrow> epoch \<Rightarrow> (int \<times> validator_info) list \<Rightarrow> ('n, unit) cm_act" where
  "distribute_emissions rate bucket epoch [] = areturn ()"
| "distribute_emissions rate bucket epoch ((_, info) # infos) =
     abind (aread (\<lambda>_. cm_decimal (dec_checked_mul (info_effective_stake_xrd info) rate))) (\<lambda>emission.
     abind (cm_xrd (bucket_take bucket emission)) (\<lambda>emission_bucket.
     abind (apply_emission (info_address info) emission_bucket epoch
              (made (info_statistic info)) (missed (info_statistic info))) (\<lambda>_.
     distribute_emissions rate bucket epoch infos)))"

fun total_claimable ::
    "(int \<times> decimal) list \<Rightarrow> (int \<times> validator_info) list \<Rightarrow> decimal \<Rightarrow> decimal \<Rightarrow>
     (consensus_error, decimal \<times> decimal) res" where
  "total_claimable rewards [] stake claimable = Ok (stake, claimable)"
| "total_claimable rewards ((i, info) # infos) stake claimable =
     rbind (cm_decimal (dec_checked_add stake (info_effective_stake_xrd info))) (\<lambda>stake.
     rbind (cm_decimal (dec_checked_add claimable (im_get_or 0 rewards i))) (\<lambda>claimable.
     total_claimable rewards infos stake claimable))"

fun distribute_rewards :: "decimal \<Rightarrow> epoch \<Rightarrow> (int \<times> validator_info) list \<Rightarrow> ('n, unit) cm_act" where
  "distribute_rewards rate epoch [] = areturn ()"
| "distribute_rewards rate epoch ((i, info) # infos) =
     abind (aread (\<lambda>w. Ok (im_get_or 0 (cw_proposer_rewards w) i))) (\<lambda>as_proposer.
     abind (amodify (\<lambda>w. w\<lparr>cw_proposer_rewards := im_swap_remove i (cw_proposer_rewards w)\<rparr>)) (\<lambda>_.
     abind (aread (\<lambda>_. cm_decimal (dec_checked_mul (info_effective_stake_xrd info) rate))) (\<lambda>as_member.
     abind (aread (\<lambda>_. cm_decimal (dec_checked_add as_proposer as_member))) (\<lambda>total_rewards.
     abind (if total_rewards = 0 then areturn ()
            else
              abind (aread (\<lambda>w. Ok (cw_rewards_vault w))) (\<lambda>vault.
              abind (cm_xrd (vault_take vault total_rewards)) (\<lambda>xrd_bucket.
              apply_reward (info_address info) xrd_bucket epoch))) (\<lambda>_.
     distribute_rewards rate epoch infos)))))"

definition apply_validator_emissions_and_rewards :: "epoch \<Rightarrow> ('n, unit) cm_act" where
  "apply_validator_emissions_and_rewards epoch =
     abind (aread (\<lambda>w. collect_infos (cw_config w) (cw_statistics w) 0 (cw_validator_set w) 0))
       (\<lambda>(stake_sum_xrd, infos).
     if infos = [] then areturn ()
     else
       abind (aread (\<lambda>w. cm_decimal (dec_checked_div (total_emission_xrd_per_epoch (cw_config w)) stake_sum_xrd)))
         (\<lambda>emission_per_staked_xrd.
       abind (aread (\<lambda>_. total_emission emission_per_staked_xrd infos 0)) (\<lambda>effective_total_emission_xrd.
       abind (cm_xrd (mint effective_total_emission_xrd)) (\<lambda>total_emission_xrd_bucket.
       abind (distribute_emissions emission_per_staked_xrd total_emission_xrd_bucket epoch infos) (\<lambda>_.
       abind (cm_xrd (drop_empty_bucket total_emission_xrd_bucket)) (\<lambda>_.
       abind (aread (\<lambda>w. total_claimable (cw_proposer_rewards w) infos 0 0))
         (\<lambda>(total_effective_stake, total_claimable_proposer_rewards).
       abind (aread (\<lambda>w. Ok (cw_rewards_vault w))) (\<lambda>vault.
       abind (cm_xrd (amount_of_vault vault)) (\<lambda>vault_amount.
       abind (aread (\<lambda>_. cm_decimal (dec_checked_sub vault_amount total_claimable_proposer_rewards)))
         (\<lambda>total_claimable_validator_set_rewards.
       abind (aread (\<lambda>_. if total_effective_stake = 0 then Ok 0
                else cm_decimal (dec_checked_div total_claimable_validator_set_rewards total_effective_stake)))
         (\<lambda>reward_per_effective_stake.
       abind (distribute_rewards reward_per_effective_stake epoch infos) (\<lambda>_.
       amodify (\<lambda>w. w\<lparr>cw_proposer_rewards := []\<rparr>)))))))))))))"


section \<open>Epoch change\<close>

definition sorted_index_scan ::
    "(address \<Rightarrow> nat) \<Rightarrow> nat \<Rightarrow> (sorted_key \<times> validator_entry) list \<Rightarrow> (address \<times> validator_entry) list" where
  "sorted_index_scan key_hash limit index =
     map (\<lambda>((_, a), v). (a, v))
       (take limit (sort_key (\<lambda>((prefix, _), _). prefix) (sort_key (\<lambda>((_, a), _). key_hash a) index)))"

definition next_active_validator_set ::
    "(address \<Rightarrow> nat) \<Rightarrow> consensus_config \<Rightarrow> (sorted_key \<times> validator_entry) list \<Rightarrow> (address \<times> validator_entry) list" where
  "next_active_validator_set key_hash c index =
     (let to_read = max_validators c + max_validators c div 10 + 10;
          top = sort_key (\<lambda>(_, v). - entry_stake v) (sorted_index_scan key_hash (nat to_read) index)
      in foldl (\<lambda>m (a, v). im_insert a v m) [] (take (nat (max_validators c)) top))"

fun protocol_update_readiness ::
    "(address \<times> validator_entry) list \<Rightarrow> decimal \<Rightarrow> (string \<times> decimal) list \<Rightarrow>
     ('n, decimal \<times> (string \<times> decimal) list) cm_act" where
  "protocol_update_readiness [] stake_total readiness = areturn (stake_total, readiness)"
| "protocol_update_readiness ((a, v) # vs) stake_total readiness =
     abind (aread (\<lambda>_. cm_decimal (dec_checked_add stake_total (entry_stake v)))) (\<lambda>stake_total.
     abind (get_protocol_update_readiness a) (\<lambda>signal.
     case signal of
       Some name \<Rightarrow>
         abind (aread (\<lambda>_. cm_decimal (dec_checked_add (im_get_or 0 readiness name) (entry_stake v)))) (\<lambda>stake.
         protocol_update_readiness vs stake_total (im_insert name stake readiness))
     | None \<Rightarrow> protocol_update_readiness vs stake_total readiness))"

definition epoch_change :: "(address \<Rightarrow> nat) \<Rightarrow> epoch \<Rightarrow> ('n, unit) cm_act" where
  "epoch_change key_hash next_epoch =
     abind (aread (\<lambda>_. ok_or (epoch_previous next_epoch) (ConsensusErr ConsensusEpochMathOverflow))) (\<lambda>concluded.
     abind (apply_validator_emissions_and_rewards concluded) (\<lambda>_.
     abind (aread (\<lambda>w. Ok (next_active_validator_set key_hash (cw_config w) (cw_index w)))) (\<lambda>next_set.
     abind (protocol_update_readiness next_set 0 []) (\<lambda>(total_stake, readiness).
     abind (aread (\<lambda>_. cm_decimal (dec_checked_mul total_stake (10 ^ 17)))) (\<lambda>threshold.
     abind (cm_emit (EpochChangeEvent next_epoch next_set (filter (\<lambda>(_, stake). stake \<ge> threshold) readiness))) (\<lambda>_.
     amodify (\<lambda>w. w\<lparr>cw_statistics := replicate (length next_set) \<lparr>made = 0, missed = 0\<rparr>,
                     cw_validator_set := next_set\<rparr>)))))))"

definition start :: "(address \<Rightarrow> nat) \<Rightarrow> ('n, unit) cm_act" where
  "start key_hash =
     abind (aread (\<lambda>w. ensure (\<not> cw_started w) (ConsensusErr AlreadyStarted))) (\<lambda>_.
     abind (aread (\<lambda>w. ok_or (epoch_next (cw_epoch w)) (ConsensusErr ConsensusEpochMathOverflow))) (\<lambda>post_genesis_epoch.
     abind (epoch_change key_hash post_genesis_epoch) (\<lambda>_.
     amodify (\<lambda>w. w\<lparr>cw_started := True, cw_epoch := post_genesis_epoch, cw_round := 0\<rparr>))))"


section \<open>Rounds\<close>

record leader_proposal_history =
  gap_round_leaders :: "int list"
  current_leader :: int
  is_fallback :: bool

definition calculate_progress :: "int \<Rightarrow> int \<Rightarrow> int option" where
  "calculate_progress from to = (if to - from \<le> 0 then None else Some (to - from))"

definition update_statistic ::
    "int \<Rightarrow> (proposal_statistic \<Rightarrow> proposal_statistic) \<Rightarrow> ('n, unit) cm_act" where
  "update_statistic i f =
     abind (aread (\<lambda>w. ensure (nat i < length (cw_statistics w))
              (ConsensusErr (InvalidValidatorIndex i (length (cw_statistics w)))))) (\<lambda>_.
     amodify (\<lambda>w. w\<lparr>cw_statistics := (cw_statistics w)[nat i := f (cw_statistics w ! nat i)]\<rparr>))"

definition update_proposal_statistics :: "int \<Rightarrow> leader_proposal_history \<Rightarrow> ('n, unit) cm_act" where
  "update_proposal_statistics progressed_rounds h =
     abind (aread (\<lambda>_. ensure (int (length (gap_round_leaders h)) = progressed_rounds - 1)
              (ConsensusErr (InconsistentGapRounds (length (gap_round_leaders h)) progressed_rounds)))) (\<lambda>_.
     abind (aforeach (\<lambda>i. update_statistic i (\<lambda>s. s\<lparr>missed := u64_add (missed s) 1\<rparr>)) (gap_round_leaders h)) (\<lambda>_.
     update_statistic (current_leader h) (\<lambda>s.
       if is_fallback h then s\<lparr>missed := u64_add (missed s) 1\<rparr> else s\<lparr>made := u64_add (made s) 1\<rparr>)))"

definition next_round ::
    "(address \<Rightarrow> nat) \<Rightarrow> int \<Rightarrow> int \<Rightarrow> leader_proposal_history \<Rightarrow> ('n, unit) cm_act" where
  "next_round key_hash round proposer_timestamp_milli h =
     abind (azoom cw_clock (\<lambda>c w. w\<lparr>cw_clock := c\<rparr>) (\<lambda>e. ConsensusErr (ClockErr e)) (\<lambda>c.
       rbind (check_non_decreasing_and_update_timestamps proposer_timestamp_milli c) (\<lambda>c'. Ok ((), c')))) (\<lambda>_.
     abind (aread (\<lambda>w. ok_or (calculate_progress (cw_round w) round)
              (ConsensusErr (InvalidRoundUpdate (cw_round w) round)))) (\<lambda>progressed_rounds.
     abind (update_proposal_statistics progressed_rounds h) (\<lambda>_.
     abind (aread (\<lambda>w. should_epoch_change (cw_config w) (cw_effective_epoch_start_milli w)
              proposer_timestamp_milli round)) (\<lambda>outcome.
     abind (case outcome of
              NoChange \<Rightarrow>
                abind (cm_emit (RoundChangeEvent round)) (\<lambda>_.
                amodify (\<lambda>w. w\<lparr>cw_round := round\<rparr>))
            | Change next_epoch_effective_start \<Rightarrow>
                abind (aread (\<lambda>w. ok_or (epoch_next (cw_epoch w)) (ConsensusErr ConsensusEpochMathOverflow)))
                  (\<lambda>next_epoch.
                abind (epoch_change key_hash next_epoch) (\<lambda>_.
                amodify (\<lambda>w. w\<lparr>cw_epoch := next_epoch, cw_round := 0,
                  cw_actual_epoch_start_milli := proposer_timestamp_milli,
                  cw_effective_epoch_start_milli := next_epoch_effective_start\<rparr>)))) (\<lambda>_.
     amodify (\<lambda>w. w\<lparr>cw_current_leader := Some (current_leader h)\<rparr>))))))"


section \<open>Creating validators\<close>

definition get_validator_xrd_cost :: "decimal \<Rightarrow> ('n, decimal option) cm_act" where
  "get_validator_xrd_cost usd_price =
     aread (\<lambda>w. if cw_started w
       then rbind (cm_decimal (dec_checked_mul (validator_creation_usd_cost (cw_config w)) usd_price)) (\<lambda>x. Ok (Some x))
       else Ok None)"

definition create_validator ::
    "'n \<Rightarrow> address \<Rightarrow> decimal \<Rightarrow> nat \<Rightarrow> decimal \<Rightarrow> bool \<Rightarrow> nat \<Rightarrow> ('n, address \<times> nat) cm_act" where
  "create_validator claims a usd_price key fee_factor payment_is_xrd xrd_payment =
     abind (aread (\<lambda>_. ensure payment_is_xrd (ConsensusErr NotXrd))) (\<lambda>_.
     abind (get_validator_xrd_cost usd_price) (\<lambda>validator_xrd_cost.
     abind (case validator_xrd_cost of
              Some xrd_cost \<Rightarrow>
                abind (cm_xrd (bucket_take xrd_payment xrd_cost)) (\<lambda>xrd_paid.
                cm_xrd (burn_internal xrd_paid))
            | None \<Rightarrow> areturn ()) (\<lambda>_.
     abind (validator_create claims a key False fee_factor) (\<lambda>validator_address.
     areturn (validator_address, xrd_payment)))))"

end
