(* ===== verification/Stake_Safety.thy ===== *)
theory Stake_Safety
  imports Stake_Pool Consensus_Manager
begin

text \<open>
  The pools under every operation of the validators and of the consensus manager: stake units are
  never diluted, the proposal statistics of an epoch account for its rounds, and an epoch mints no more
  XRD than its budget.
\<close>


section \<open>The other operations of a validator\<close>

lemma claims_loop_quiet: "claim_total C a e ids t w = Ok (y, w') \<Longrightarrow> quiet w w'"
proof (induction ids arbitrary: t w)
  case (Cons i ids)
  then show ?case by (fastforce simp: cm_run split: if_splits dest!: cm_claims_quiet intro: quiet_trans)
qed (simp add: cm_run)

lemma claim_xrd_change:
  assumes "claim_xrd C a b w = Ok (y, w')" and ok: "pool_ok w"
  shows "pool_change a 0 0 w w'"
proof -
  obtain s w0 c w1 e ids w2 q w3 w4 x5 ev where st: "read_state a w = Ok (s, w0)"
    and q: "cm_claims a (claim_is_claim_bucket C b) w = Ok (c, w1)" "cm_claims a (claim_ids C b) w1 = Ok (ids, w2)"
      "claim_total C a e ids 0 w2 = Ok (q, w3)" "cm_claims a (claim_burn C b) w3 = Ok ((), w4)"
    and take: "vault_take (pending_xrd_withdraw_vault s) q (cw_xrd w4) = Ok (y, x5)"
    and ev: "cm_emit ev (w4\<lparr>cw_xrd := x5\<rparr>) = Ok ((), w')"
    using assms(1) unfolding claim_xrd_def
    by (fastforce simp: cm_run split: if_splits dest: read_state_Ok dest!: amount_of_bucket_Ok)
  have "quiet w w4"
    using q cm_claims_quiet claims_loop_quiet quiet_trans by meson
  then have c: "pool_change a 0 0 w w4" by (rule after_quiet [OF pool_change_refl [OF ok]])
  have "no_stake_vault w (pending_xrd_withdraw_vault s)"
    using read_state_vaults [OF st] by (auto simp: no_stake_vault_def)
  then show ?thesis using after_other_vault(2) [OF c _ take] after_quiet cm_emit_quiet [OF ev] by blast
qed

lemma write_back_quiet:
  assumes "quiet w w1" and "write_state a s w1 = Ok (y, w2)"
    and "pools w a = Some (stake_xrd_vault s, pending_xrd_withdraw_vault s, u)"
  shows "quiet w w2"
  using assms write_state_quiet [OF assms(2), of u] quiet_trans by (auto simp: quiet_def)

lemma register_update_quiet:
  assumes "register_update a r w = Ok (y, w')"
  shows "quiet w w'"
proof -
  obtain s u where s: "read_state a w = Ok (s, w)" "pools w a = Some (stake_xrd_vault s, pending_xrd_withdraw_vault s, u)"
    using assms unfolding register_update_def by (fastforce simp: cm_run dest: read_state_Ok)
  show ?thesis
  proof (cases "is_registered s = r")
    case True
    then show ?thesis using assms s(1) by (simp add: register_update_def cm_run)
  next
    case False
    then obtain t k w1 w2 e where run: "index_update a s r t w = Ok (k, w1)"
      "write_state a (s\<lparr>is_registered := r, sorted_key := k\<rparr>) w1 = Ok ((), w2)" "cm_emit e w2 = Ok (y, w')"
      using assms by (clarsimp simp: register_update_def s(1) cm_run dest!: amount_of_vault_Ok)
    have "quiet w w2" using write_back_quiet [OF index_update_quiet [OF run(1)] run(2)] s(2) by simp
    then show ?thesis using cm_emit_quiet [OF run(3)] by (rule quiet_trans)
  qed
qed

lemma update_key_quiet:
  assumes "update_key a k w = Ok (y, w')"
  shows "quiet w w'"
proof -
  obtain s u w1 where s: "pools w a = Some (stake_xrd_vault s, pending_xrd_withdraw_vault s, u)"
    and c: "(case sorted_key s of Some i \<Rightarrow> update_validator (IndexUpdatePublicKey i k) | None \<Rightarrow> areturn ()) w = Ok ((), w1)"
    and wr: "write_state a (s\<lparr>validator_key := k\<rparr>) w1 = Ok (y, w')"
    using assms unfolding update_key_def abind_Ok_iff by (auto dest!: read_state_Ok)
  have "quiet w w1"
    using c update_validator_quiet
    by (cases "sorted_key s") (auto simp: areturn_Ok_iff simp del: update_validator.simps)
  then show ?thesis using write_back_quiet [OF _ wr] s by simp
qed

lemma update_fee_quiet:
  assumes "update_fee a f w = Ok (y, w')"
  shows "quiet w w'"
  using assms
  by (auto simp: update_fee_def check_validator_fee_factor_def Let_def cm_run split: if_splits option.splits
      dest!: read_state_Ok write_state_quiet)

lemma accept_delegated_quiet:
  assumes "update_accept_delegated_stake a c w = Ok (y, w')"
  shows "quiet w w'"
proof -
  obtain s u w1 e where s: "pools w a = Some (stake_xrd_vault s, pending_xrd_withdraw_vault s, u)"
    and wr: "write_state a (s\<lparr>accepts_delegated_stake := c\<rparr>) w = Ok ((), w1)" and e: "cm_emit e w1 = Ok (y, w')"
    using assms unfolding update_accept_delegated_stake_def by (fastforce simp: cm_run dest!: read_state_Ok)
  show ?thesis using write_back_quiet [OF quiet_refl wr] s cm_emit_quiet [OF e] quiet_trans by fastforce
qed

lemma signal_quiet: "signal_protocol_update_readiness a n w = Ok (y, w') \<Longrightarrow> quiet w w'"
  by (auto simp: signal_protocol_update_readiness_def set_validator_def cm_run get_validator_Ok cm_emit_def quiet_def
      pools_def fun_eq_iff split: if_splits)

lemma normalize_vaults:
  "normalize_available_owner_stake_unit_withdrawals e s = Ok s' \<Longrightarrow>
     stake_xrd_vault s' = stake_xrd_vault s \<and> pending_xrd_withdraw_vault s' = pending_xrd_withdraw_vault s"
  by (auto simp: normalize_available_owner_stake_unit_withdrawals_def res_iffs)

lemma lock_units_change:
  assumes "lock_owner_stake_units a b w = Ok (y, w')" and "pool_ok w"
  shows "pool_change a 0 0 w w'"
  using assms after_units(2) [OF pool_change_refl [OF assms(2), of a]]
  by (auto simp: lock_owner_stake_units_def cm_run dest!: read_state_Ok)

lemma start_unlock_change:
  assumes "start_unlock_owner_stake_units a q w = Ok (y, w')" and ok: "pool_ok w"
  shows "pool_change a 0 0 w w'"
proof -
  obtain s u s' m n n' b w1 w2 where s: "pools w a = Some (stake_xrd_vault s, pending_xrd_withdraw_vault s, u)"
    and s': "normalize_available_owner_stake_unit_withdrawals (cw_epoch w) s = Ok s'"
    and run: "write_state a (s'\<lparr>pending_owner_stake_unit_withdrawals := m\<rparr>) w = Ok ((), w1)"
      "cm_units a (vault_take n q) w1 = Ok (b, w2)"
      "cm_units a (vault_put n' b) w2 = Ok (y, w')"
    using assms(1) unfolding start_unlock_owner_stake_units_def Let_def
    by (fastforce simp: cm_run dest!: read_state_Ok)
  have "quiet w w1" using write_back_quiet [OF quiet_refl run(1)] s normalize_vaults [OF s'] by simp
  then have "pool_change a 0 0 w w1" by (rule after_quiet [OF pool_change_refl [OF ok]])
  then show ?thesis using after_units(2,3) run(2,3) by blast
qed

lemma finish_unlock_change:
  assumes "finish_unlock_owner_stake_units a w = Ok (y, w')" and ok: "pool_ok w"
  shows "pool_change a 0 0 w w'"
proof -
  obtain s u s' n q w1 where s: "pools w a = Some (stake_xrd_vault s, pending_xrd_withdraw_vault s, u)"
    and s': "normalize_available_owner_stake_unit_withdrawals (cw_epoch w) s = Ok s'"
    and run: "write_state a (s'\<lparr>already_unlocked_owner_stake_unit_amount := 0\<rparr>) w = Ok ((), w1)" "cm_units a (vault_take n q) w1 = Ok (y, w')"
    using assms(1) unfolding finish_unlock_owner_stake_units_def
    by (fastforce simp: cm_run dest!: read_state_Ok)
  have "quiet w w1" using write_back_quiet [OF quiet_refl run(1)] s normalize_vaults [OF s'] by simp
  then have "pool_change a 0 0 w w1" by (rule after_quiet [OF pool_change_refl [OF ok]])
  then show ?thesis using after_units(3) run(2) by blast
qed

section \<open>The operations of an epoch change\<close>

text \<open>
  \<open>grows d w w'\<close>: every pool gains, its stake at least in proportion to its units, and \<open>d\<close> XRD are minted.
\<close>

definition grows :: "int \<Rightarrow> 'n consensus_world \<Rightarrow> 'n consensus_world \<Rightarrow> bool" where
  "grows d w w' \<longleftrightarrow> pool_ok w' \<and> pool_vaults w' = pool_vaults w \<and>
     cw_rewards_vault w' = cw_rewards_vault w \<and> cw_config w' = cw_config w \<and>
     holdings (cw_xrd w') = holdings (cw_xrd w) + d \<and>
     (\<forall>a. stake_of w a \<le> stake_of w' a \<and> units_of w a \<le> units_of w' a \<and>
       stake_of w a * units_of w' a \<le> stake_of w' a * units_of w a)"

lemma share_trans:
  fixes S U :: int
  assumes "0 \<le> S" "S \<le> S'" "S' \<le> S''" "0 \<le> U" "U \<le> U'" "U' \<le> U''"
    and "S * U' \<le> S' * U" and "S' * U'' \<le> S'' * U'"
  shows "S * U'' \<le> S'' * U"
proof (cases "U' = 0")
  case True
  then have "S' * U'' \<le> 0" "U = 0" using assms by auto
  moreover have "S * U'' \<le> S' * U''" using assms by (intro mult_right_mono) auto
  ultimately show ?thesis by simp
next
  case False
  have "U' * (S * U'') = (S * U') * U''" by (simp add: ac_simps)
  also have "\<dots> \<le> (S' * U) * U''" using assms by (intro mult_right_mono) auto
  also have "\<dots> = U * (S' * U'')" by (simp add: ac_simps)
  also have "\<dots> \<le> U * (S'' * U')" using assms by (intro mult_left_mono) auto
  also have "\<dots> = U' * (S'' * U)" by (simp add: ac_simps)
  finally have "U' * (S * U'') \<le> U' * (S'' * U)" .
  moreover have "0 < U'" using False assms by auto
  ultimately show ?thesis by simp
qed

lemma grows_trans:
  assumes ok: "pool_ok w" and 1: "grows d w w'" and 2: "grows e w' w''"
  shows "grows (d + e) w w''"
proof -
  have "stake_of w a * units_of w'' a \<le> stake_of w'' a * units_of w a" for a
    using share_trans [of "stake_of w a" "stake_of w' a" "stake_of w'' a" "units_of w a" "units_of w' a" "units_of w'' a"]
      pool_ok_facts(2,3) [OF ok, of a] 1 2 by (auto simp: grows_def)
  moreover have "stake_of w a \<le> stake_of w'' a" "units_of w a \<le> units_of w'' a" for a
    using 1 2 order_trans unfolding grows_def by blast+
  ultimately show ?thesis using 1 2 by (auto simp: grows_def)
qed

lemma grows_refl: "pool_ok w \<Longrightarrow> grows 0 w w"
  by (simp add: grows_def)

lemma pool_change_grows:
  assumes "pool_change a ds du w w'" and "0 \<le> ds" "0 \<le> du" and "stake_of w a * du \<le> ds * units_of w a"
  shows "grows 0 w w'"
  using assms by (auto simp: grows_def pool_change_def algebra_simps)

lemma no_change_grows: "pool_change a 0 0 w w' \<Longrightarrow> grows 0 w w'"
  by (rule pool_change_grows) auto

lemma grows_ok: "grows d w w' \<Longrightarrow> pool_ok w'"
  by (simp add: grows_def)

lemma quiet_grows: "pool_ok w \<Longrightarrow> quiet w w' \<Longrightarrow> grows 0 w w'"
  using no_change_grows quiet_change by blast

lemma distribute_emissions_grows:
  "distribute_emissions r b e infos w = Ok (y, w') \<Longrightarrow> pool_ok w \<Longrightarrow> grows 0 w w'"
proof (induction r b e infos arbitrary: w rule: distribute_emissions.induct)
  case (2 r b e i info infos)
  obtain q eb x1 u w2 where run: "bucket_take b q (cw_xrd w) = Ok (eb, x1)"
    "apply_emission (info_address info) eb e (made (info_statistic info)) (missed (info_statistic info)) (w\<lparr>cw_xrd := x1\<rparr>) = Ok (u, w2)"
    "distribute_emissions r b e infos w2 = Ok (y, w')"
    using "2.prems"(1) by (auto simp: cm_run)
  have g1: "grows 0 w (w\<lparr>cw_xrd := x1\<rparr>)"
    using after_bucket_take [OF pool_change_refl [OF "2.prems"(2), of 0] run(1)] no_change_grows by blast
  have g2: "grows 0 (w\<lparr>cw_xrd := x1\<rparr>) w2"
    using apply_emission_change [OF run(2) grows_ok [OF g1]] pool_change_grows by blast
  have "grows 0 w2 w'" using "2.IH" run(3) grows_ok [OF g2] by blast
  then show ?case using grows_trans [OF _ g1] grows_trans [OF _ g2] "2.prems"(2) grows_ok [OF g1] by fastforce
qed (simp add: grows_refl cm_run)

lemma distribute_rewards_grows:
  "distribute_rewards r e infos w = Ok (y, w') \<Longrightarrow> pool_ok w \<Longrightarrow> grows 0 w w'"
proof (induction r e infos arbitrary: w rule: distribute_rewards.induct)
  case (2 r e i info infos)
  let ?w = "w\<lparr>cw_proposer_rewards := im_swap_remove i (cw_proposer_rewards w)\<rparr>"
  obtain q w2 where run: "(if q = 0 then areturn () else abind (aread (\<lambda>w. Ok (cw_rewards_vault w))) (\<lambda>vault.
      abind (cm_xrd (vault_take vault q)) (\<lambda>xrd_bucket. apply_reward (info_address info) xrd_bucket e))) ?w = Ok ((), w2)"
    "distribute_rewards r e infos w2 = Ok (y, w')"
    using "2.prems"(1) by (auto simp: abind_Ok_iff aread_Ok_iff amodify_Ok_iff)
  have g1: "grows 0 w ?w" by (rule quiet_grows [OF "2.prems"(2)]) (simp add: quiet_def pools_def fun_eq_iff)
  have g2: "grows 0 ?w w2"
  proof (cases "q = 0")
    case False
    then obtain b x where take: "vault_take (cw_rewards_vault ?w) q (cw_xrd ?w) = Ok (b, x)"
      and rew: "apply_reward (info_address info) b e (?w\<lparr>cw_xrd := x\<rparr>) = Ok ((), w2)"
      using run(1) by (auto simp: cm_run)
    have "grows 0 ?w (?w\<lparr>cw_xrd := x\<rparr>)"
      using after_other_vault(2) [OF pool_change_refl [OF grows_ok [OF g1], of 0] _ take] no_change_grows
      by (auto simp: no_stake_vault_def)
    moreover from this have "grows 0 (?w\<lparr>cw_xrd := x\<rparr>) w2"
      using apply_reward_change [OF rew grows_ok] pool_change_grows by blast
    ultimately show ?thesis using grows_trans [OF grows_ok [OF g1]] by fastforce
  qed (use run(1) grows_refl [OF grows_ok [OF g1]] in \<open>simp add: cm_run\<close>)
  have "grows 0 w2 w'" using "2.IH" run(2) grows_ok [OF g2] by blast
  then show ?case using grows_trans [OF _ g1] grows_trans [OF _ g2] "2.prems"(2) grows_ok [OF g1] by fastforce
qed (simp add: grows_refl cm_run)

text \<open>The XRD minted at an epoch change, and all the rest of it.\<close>

lemma mint_grows:
  assumes "mint d (cw_xrd w) = Ok (b, x)" and ok: "pool_ok w"
  shows "grows d w (w\<lparr>cw_xrd := x\<rparr>) \<and> 0 \<le> d"
proof -
  have mv: "moves (cw_xrd w) x (vault_amount (cw_xrd w)) ((bucket_amount (cw_xrd w))(b := d)) d" "0 \<le> d"
    using mint_moves [OF assms(1) pool_ok_facts(1) [OF ok]] by auto
  moreover have "pool_inv x (cw_rewards_vault w) (pools w)"
    using pool_inv_xrd [OF ok [unfolded pool_ok_def]] mv by (simp add: moves_def)
  moreover have "stake_in x (pools w) = stake_in (cw_xrd w) (pools w)"
    using mv by (intro stake_in_same) (simp add: moves_def)
  ultimately show ?thesis
    by (simp add: grows_def pool_defs moves_def pool_vaults_def)
qed

lemma drop_empty_grows:
  assumes "drop_empty_bucket b (cw_xrd w) = Ok (y, x)" and ok: "pool_ok w"
  shows "grows 0 w (w\<lparr>cw_xrd := x\<rparr>)"
  using buckets_change [of w x _ 0, OF _ ok] drop_empty_bucket_moves [OF assms(1) pool_ok_facts(1) [OF ok]]
    no_change_grows by blast

lemma rewards_quiet: "quiet w (w\<lparr>cw_proposer_rewards := r\<rparr>)"
  by (simp add: quiet_def pools_def fun_eq_iff)

text \<open>An amount minted at an epoch change: the emissions of the validators of the epoch.\<close>

definition budgeted :: "'n consensus_world \<Rightarrow> int \<Rightarrow> bool" where
  "budgeted w d \<longleftrightarrow> 0 \<le> d \<and> (d = 0 \<or> (\<exists>n infos r.
     collect_infos (cw_config w) (cw_statistics w) 0 (cw_validator_set w) 0 = Ok (n, infos) \<and> infos \<noteq> [] \<and>
     cm_decimal (dec_checked_div (total_emission_xrd_per_epoch (cw_config w)) n) = Ok r \<and>
     total_emission r infos 0 = Ok d))"

lemma emissions_and_rewards_grows:
  assumes "apply_validator_emissions_and_rewards e w = Ok (y, w')" and ok: "pool_ok w"
  shows "\<exists>d. grows d w w' \<and> budgeted w d"
proof -
  obtain n infos where ci: "collect_infos (cw_config w) (cw_statistics w) 0 (cw_validator_set w) 0 = Ok (n, infos)"
    using assms(1) unfolding apply_validator_emissions_and_rewards_def by (auto simp: abind_Ok_iff aread_Ok_iff)
  show ?thesis
  proof (cases "infos = []")
    case True
    then show ?thesis using assms ci grows_refl [OF ok]
      by (auto simp: budgeted_def apply_validator_emissions_and_rewards_def abind_Ok_iff aread_Ok_iff areturn_Ok_iff)
  next
    case False
    obtain r d b x1 u2 w2 u3 x3 rr u4 w4 where
      r: "cm_decimal (dec_checked_div (total_emission_xrd_per_epoch (cw_config w)) n) = Ok r"
      and d: "total_emission r infos 0 = Ok d" and mint: "mint d (cw_xrd w) = Ok (b, x1)"
      and de: "distribute_emissions r b e infos (w\<lparr>cw_xrd := x1\<rparr>) = Ok (u2, w2)"
      and drop: "drop_empty_bucket b (cw_xrd w2) = Ok (u3, x3)"
      and dr: "distribute_rewards rr e infos (w2\<lparr>cw_xrd := x3\<rparr>) = Ok (u4, w4)"
      and w': "w' = w4\<lparr>cw_proposer_rewards := []\<rparr>"
      using assms(1) ci False unfolding apply_validator_emissions_and_rewards_def
      by (fastforce simp: cm_run dest!: amount_of_vault_Ok)
    have g1: "grows d w (w\<lparr>cw_xrd := x1\<rparr>)" "0 \<le> d" using mint_grows [OF mint ok] by auto
    note g2 = grows_trans [OF ok g1(1) distribute_emissions_grows [OF de grows_ok [OF g1(1)]]]
    note g3 = grows_trans [OF ok g2 drop_empty_grows [OF drop grows_ok [OF g2]]]
    note g4 = grows_trans [OF ok g3 distribute_rewards_grows [OF dr grows_ok [OF g3]]]
    have "grows d w w'"
      using grows_trans [OF ok g4 quiet_grows [OF grows_ok [OF g4] rewards_quiet]] w' by simp
    then show ?thesis using g1(2) ci r d False unfolding budgeted_def by blast
  qed
qed

lemma readiness_same: "protocol_update_readiness vs t r w = Ok (y, w') \<Longrightarrow> w' = w"
  by (induction vs t r arbitrary: w rule: protocol_update_readiness.induct)
    (auto simp: cm_run get_protocol_update_readiness_def get_validator_Ok split: option.splits)

lemma epoch_change_grows:
  assumes "epoch_change kh e w = Ok (y, w')" and ok: "pool_ok w"
  shows "\<exists>d. grows d w w' \<and> budgeted w d"
proof -
  obtain c w1 vs ev w2 where run: "apply_validator_emissions_and_rewards c w = Ok ((), w1)" "cm_emit ev w1 = Ok ((), w2)"
    and w': "w' = w2\<lparr>cw_statistics := replicate (length vs) \<lparr>made = 0, missed = 0\<rparr>, cw_validator_set := vs\<rparr>"
    using assms(1) unfolding epoch_change_def by (fastforce simp: cm_run dest!: readiness_same)
  obtain d where d: "grows d w w1" "budgeted w d"
    using emissions_and_rewards_grows [OF run(1) ok] by blast
  have "quiet w2 w'" by (simp add: quiet_def pools_def fun_eq_iff w')
  then have "grows 0 w1 w'" using quiet_grows [OF grows_ok [OF d(1)]] quiet_trans cm_emit_quiet [OF run(2)] by blast
  then show ?thesis using grows_trans [OF ok d(1)] d(2) by fastforce
qed


section \<open>Rounds and proposals\<close>

text \<open>
  Every round of the epoch is counted once, as made or as missed, for one validator; so the \<^verbatim>\<open>u64\<close>
  counters and their sums stay below the number of the round.
\<close>

abbreviation proposals :: "proposal_statistic list \<Rightarrow> int" where
  "proposals ss \<equiv> sum_list (map (\<lambda>s. made s + missed s) ss)"

definition counts_ok :: "proposal_statistic list \<Rightarrow> bool" where
  "counts_ok ss \<longleftrightarrow> (\<forall>s \<in> set ss. 0 \<le> made s \<and> 0 \<le> missed s)"

definition rounds_ok :: "'n consensus_world \<Rightarrow> bool" where
  "rounds_ok w \<longleftrightarrow> counts_ok (cw_statistics w) \<and> proposals (cw_statistics w) = cw_round w"

lemma sum_list_map_update:
  fixes g :: "'a \<Rightarrow> int"
  shows "i < length xs \<Longrightarrow> sum_list (map g (xs[i := y])) = sum_list (map g xs) - g (xs ! i) + g y"
proof (induction xs arbitrary: i)
  case (Cons x xs)
  then show ?case by (cases i) auto
qed simp

lemma counts_bound: "counts_ok ss \<Longrightarrow> s \<in> set ss \<Longrightarrow> made s + missed s \<le> proposals ss"
  using sum_list_member_le [of s ss "\<lambda>s. made s + missed s"] by (auto simp: counts_ok_def)

text \<open>The fields of the state that a round's statistics leave alone.\<close>

definition round_frame :: "'n consensus_world \<Rightarrow> 'n consensus_world \<Rightarrow> bool" where
  "round_frame w w' \<longleftrightarrow> quiet w w' \<and> cw_validator_set w' = cw_validator_set w \<and>
     cw_round w' = cw_round w \<and> cw_epoch w' = cw_epoch w"

lemma round_frame_trans: "round_frame w w' \<Longrightarrow> round_frame w' w'' \<Longrightarrow> round_frame w w''"
  by (auto simp: round_frame_def intro: quiet_trans)

lemma update_statistic_frame: "update_statistic i f w = Ok (y, w') \<Longrightarrow> round_frame w w'"
  by (auto simp: update_statistic_def cm_run round_frame_def quiet_def pools_def fun_eq_iff)

lemma proposal_statistics_frame:
  assumes "update_proposal_statistics p h w = Ok (y, w')"
  shows "round_frame w w'"
proof -
  have loop: "aforeach (\<lambda>i. update_statistic i f) js w0 = Ok (u, w1) \<Longrightarrow> round_frame w0 w1" for f js u w0 w1
    by (induction js arbitrary: w0)
      (auto simp: cm_run dest!: update_statistic_frame intro: round_frame_trans, simp add: round_frame_def)
  show ?thesis
    using assms loop update_statistic_frame round_frame_trans
    by (auto simp: update_proposal_statistics_def cm_run) blast
qed

lemma update_statistic_counts:
  assumes "update_statistic i f w = Ok (y, w')" and "counts_ok (cw_statistics w)"
    and "proposals (cw_statistics w) + 1 < 2 ^ 64"
    and f: "f = (\<lambda>s. s\<lparr>missed := u64_add (missed s) 1\<rparr>) \<or> f = (\<lambda>s. s\<lparr>made := u64_add (made s) 1\<rparr>)"
  shows "counts_ok (cw_statistics w') \<and> proposals (cw_statistics w') = proposals (cw_statistics w) + 1"
proof -
  let ?s = "cw_statistics w ! nat i"
  have i: "nat i < length (cw_statistics w)" and w': "w' = w\<lparr>cw_statistics := (cw_statistics w)[nat i := f ?s]\<rparr>"
    using assms(1) by (auto simp: update_statistic_def cm_run res_iffs)
  have m: "?s \<in> set (cw_statistics w)" using i by simp
  have s: "0 \<le> made ?s" "0 \<le> missed ?s" "made ?s + missed ?s + 1 < 2 ^ 64"
    using assms(2,3) m counts_bound [OF assms(2) m] by (auto simp: counts_ok_def)
  have fs: "0 \<le> made (f ?s)" "0 \<le> missed (f ?s)" "made (f ?s) + missed (f ?s) = made ?s + missed ?s + 1"
    using f s by (auto simp: u64_add_def)
  have "counts_ok ((cw_statistics w)[nat i := f ?s])"
    using assms(2) fs(1,2) set_update_subset_insert [of "cw_statistics w" "nat i" "f ?s"] unfolding counts_ok_def by blast
  then show ?thesis
    using fs(3) sum_list_map_update [OF i, of "\<lambda>s. made s + missed s" "f ?s"]
    by (simp add: w')
qed

lemma gap_rounds_counts:
  assumes "aforeach (\<lambda>i. update_statistic i (\<lambda>s. s\<lparr>missed := u64_add (missed s) 1\<rparr>)) is w = Ok (y, w')"
    and "counts_ok (cw_statistics w)" and "proposals (cw_statistics w) + int (length is) < 2 ^ 64"
  shows "counts_ok (cw_statistics w') \<and>
    proposals (cw_statistics w') = proposals (cw_statistics w) + int (length is)"
  using assms
proof (induction "is" arbitrary: w)
  case (Cons i js)
  obtain u w1 where 1: "update_statistic i (\<lambda>s. s\<lparr>missed := u64_add (missed s) 1\<rparr>) w = Ok (u, w1)"
    and 2: "aforeach (\<lambda>i. update_statistic i (\<lambda>s. s\<lparr>missed := u64_add (missed s) 1\<rparr>)) js w1 = Ok (y, w')"
    using Cons.prems(1) by (auto simp: cm_run)
  have "counts_ok (cw_statistics w1) \<and> proposals (cw_statistics w1) = proposals (cw_statistics w) + 1"
    by (rule update_statistic_counts [OF 1 Cons.prems(2)]) (use Cons.prems(3) in auto)
  then show ?case using Cons.IH [OF 2] Cons.prems(3) by simp
qed (simp add: cm_run)

lemma proposal_statistics_counts:
  assumes "update_proposal_statistics p h w = Ok (y, w')"
    and "counts_ok (cw_statistics w)" and "proposals (cw_statistics w) + p < 2 ^ 64"
  shows "counts_ok (cw_statistics w') \<and> proposals (cw_statistics w') = proposals (cw_statistics w) + p"
proof -
  obtain u w1 where len: "int (length (gap_round_leaders h)) = p - 1"
    and 1: "aforeach (\<lambda>i. update_statistic i (\<lambda>s. s\<lparr>missed := u64_add (missed s) 1\<rparr>)) (gap_round_leaders h) w = Ok (u, w1)"
    and 2: "update_statistic (current_leader h) (\<lambda>s.
       if is_fallback h then s\<lparr>missed := u64_add (missed s) 1\<rparr> else s\<lparr>made := u64_add (made s) 1\<rparr>) w1 = Ok (y, w')"
    using assms(1) by (auto simp: update_proposal_statistics_def cm_run res_iffs)
  have g: "counts_ok (cw_statistics w1)" "proposals (cw_statistics w1) = proposals (cw_statistics w) + (p - 1)"
    using gap_rounds_counts [OF 1 assms(2)] len assms(3) by auto
  have "counts_ok (cw_statistics w') \<and> proposals (cw_statistics w') = proposals (cw_statistics w1) + 1"
    by (rule update_statistic_counts [OF 2 g(1)]) (use g(2) assms(3) in simp, cases "is_fallback h", simp_all)
  then show ?thesis using g(2) by simp
qed


lemma round_fields:
  "pools (w\<lparr>cw_epoch := e\<rparr>) = pools w" "pools (w\<lparr>cw_round := i\<rparr>) = pools w"
  "pools (w\<lparr>cw_actual_epoch_start_milli := t\<rparr>) = pools w" "pools (w\<lparr>cw_effective_epoch_start_milli := t\<rparr>) = pools w"
  "pools (w\<lparr>cw_current_leader := l\<rparr>) = pools w" "pools (w\<lparr>cw_started := b\<rparr>) = pools w"
  by (simp_all add: pools_def fun_eq_iff)

lemma abind_OkE:
  "abind m k w = Ok (y, w') \<Longrightarrow> (\<And>x v. m w = Ok (x, v) \<Longrightarrow> k x v = Ok (y, w') \<Longrightarrow> thesis) \<Longrightarrow> thesis"
  by (auto simp: abind_Ok_iff)

text \<open>A round is either the next one of its epoch or the first of the next epoch.\<close>

lemma next_round_steps:
  assumes "next_round kh round t h w = Ok (y, w')"
  shows "\<exists>w1. round_frame w w1 \<and>
    (rounds_ok w \<and> round < 2 ^ 64 \<longrightarrow> counts_ok (cw_statistics w1) \<and> proposals (cw_statistics w1) = round) \<and>
    (quiet w1 w' \<and> cw_statistics w' = cw_statistics w1 \<and> cw_round w' = round \<and> cw_epoch w' = cw_epoch w \<or>
     (\<exists>e w2. epoch_change kh e w1 = Ok ((), w2) \<and> quiet w2 w' \<and> cw_statistics w' = cw_statistics w2 \<and> cw_round w' = 0 \<and>
       cw_epoch w' = cw_epoch w + 1))"
proof -
  obtain c p w1 out v where p: "calculate_progress (cw_round w) round = Some p"
    and st: "update_proposal_statistics p h (w\<lparr>cw_clock := c\<rparr>) = Ok ((), w1)"
    and run: "(case out of
              NoChange \<Rightarrow>
                abind (cm_emit (RoundChangeEvent round)) (\<lambda>_.
                amodify (\<lambda>w. w\<lparr>cw_round := round\<rparr>))
            | Change next_epoch_effective_start \<Rightarrow>
                abind (aread (\<lambda>w. ok_or (epoch_next (cw_epoch w)) (ConsensusErr ConsensusEpochMathOverflow)))
                  (\<lambda>next_epoch.
                abind (epoch_change kh next_epoch) (\<lambda>_.
                amodify (\<lambda>w. w\<lparr>cw_epoch := next_epoch, cw_round := 0,
                  cw_actual_epoch_start_milli := t,
                  cw_effective_epoch_start_milli := next_epoch_effective_start\<rparr>)))) w1 = Ok ((), v)"
    and w': "w' = v\<lparr>cw_current_leader := Some (current_leader h)\<rparr>"
    using assms(1) unfolding next_round_def
    by (elim abind_OkE) (auto simp: aread_Ok_iff azoom_Ok_iff amodify_Ok_iff res_iffs)
  have f0: "round_frame w (w\<lparr>cw_clock := c\<rparr>)" by (simp add: round_frame_def quiet_def pools_def fun_eq_iff)
  have pr: "cw_round w + p = round" using p by (auto simp: calculate_progress_def split: if_splits)
  have "rounds_ok w \<and> round < 2 ^ 64 \<longrightarrow> counts_ok (cw_statistics w1) \<and> proposals (cw_statistics w1) = round"
    using proposal_statistics_counts [OF st] pr by (auto simp: rounds_ok_def)
  moreover have frame: "round_frame w w1" using round_frame_trans [OF f0 proposal_statistics_frame [OF st]] .
  moreover have "quiet w1 w' \<and> cw_statistics w' = cw_statistics w1 \<and> cw_round w' = round \<and> cw_epoch w' = cw_epoch w1 \<or>
     (\<exists>e w2. epoch_change kh e w1 = Ok ((), w2) \<and> quiet w2 w' \<and> cw_statistics w' = cw_statistics w2 \<and> cw_round w' = 0 \<and>
       cw_epoch w' = cw_epoch w1 + 1)"
  proof (cases out)
    case NoChange
    then show ?thesis using run w' by (auto simp: abind_Ok_iff cm_emit_def amodify_Ok_iff quiet_def round_fields)
  next
    case (Change start)
    then obtain e w2 where "epoch_change kh e w1 = Ok ((), w2)" "epoch_next (cw_epoch w1) = Some e" and "w' = w2\<lparr>cw_epoch := e, cw_round := 0,
        cw_actual_epoch_start_milli := t, cw_effective_epoch_start_milli := start, cw_current_leader := Some (current_leader h)\<rparr>"
      using run w' by (auto simp: abind_Ok_iff aread_Ok_iff amodify_Ok_iff res_iffs)
    then show ?thesis by (auto simp: quiet_def round_fields epoch_next_def epoch_after_def split: if_splits intro!: disjI2)
  qed
  moreover have "cw_epoch w1 = cw_epoch w" using frame by (simp add: round_frame_def)
  ultimately show ?thesis by auto
qed

lemma next_round_grows:
  assumes "next_round kh round t h w = Ok (y, w')" and ok: "pool_ok w"
  shows "\<exists>d w1. grows d w w' \<and> round_frame w w1 \<and> budgeted w1 d \<and>
    (d = 0 \<and> cw_epoch w' = cw_epoch w \<or> cw_epoch w' = cw_epoch w + 1) \<and>
    (rounds_ok w \<and> round < 2 ^ 64 \<longrightarrow> counts_ok (cw_statistics w1) \<and> proposals (cw_statistics w1) = round)"
proof -
  obtain w1 where w1: "round_frame w w1"
      "rounds_ok w \<and> round < 2 ^ 64 \<longrightarrow> counts_ok (cw_statistics w1) \<and> proposals (cw_statistics w1) = round"
    and rest: "quiet w1 w' \<and> cw_epoch w' = cw_epoch w \<or>
      (\<exists>e w2. epoch_change kh e w1 = Ok ((), w2) \<and> quiet w2 w' \<and> cw_epoch w' = cw_epoch w + 1)"
    using next_round_steps [OF assms(1)] by blast
  have g1: "grows 0 w w1" using quiet_grows [OF ok] w1(1) by (simp add: round_frame_def)
  from rest show ?thesis
  proof
    assume q: "quiet w1 w' \<and> cw_epoch w' = cw_epoch w"
    then have "grows 0 w w'" using grows_trans [OF ok g1 quiet_grows [OF grows_ok [OF g1]]] by fastforce
    then show ?thesis using w1 q by (auto simp: budgeted_def)
  next
    assume "\<exists>e w2. epoch_change kh e w1 = Ok ((), w2) \<and> quiet w2 w' \<and> cw_epoch w' = cw_epoch w + 1"
    then obtain e w2 where e: "epoch_change kh e w1 = Ok ((), w2)" "quiet w2 w'" "cw_epoch w' = cw_epoch w + 1" by blast
    obtain d where d: "grows d w1 w2" "budgeted w1 d" using epoch_change_grows [OF e(1) grows_ok [OF g1]] by blast
    have "grows d w w'"
      using grows_trans [OF ok grows_trans [OF ok g1 d(1)] quiet_grows [OF grows_ok [OF d(1)] e(2)]] by simp
    then show ?thesis using w1 d(2) e(3) by blast
  qed
qed

lemma epoch_change_statistics:
  "epoch_change kh e w = Ok (y, w') \<Longrightarrow> \<exists>n. cw_statistics w' = replicate n \<lparr>made = 0, missed = 0\<rparr>"
  by (auto simp: epoch_change_def cm_run)

lemma next_round_counts:
  assumes "next_round kh round t h w = Ok (y, w')" and "rounds_ok w" and "round < 2 ^ 64"
  shows "rounds_ok w'"
proof -
  obtain w1 where w1: "rounds_ok w \<and> round < 2 ^ 64 \<longrightarrow>
      counts_ok (cw_statistics w1) \<and> proposals (cw_statistics w1) = round"
    and rest: "quiet w1 w' \<and> cw_statistics w' = cw_statistics w1 \<and> cw_round w' = round \<or>
     (\<exists>e w2. epoch_change kh e w1 = Ok ((), w2) \<and> quiet w2 w' \<and> cw_statistics w' = cw_statistics w2 \<and> cw_round w' = 0)"
    using next_round_steps [OF assms(1)] by blast
  have "counts_ok (cw_statistics w1)" "proposals (cw_statistics w1) = round" using w1 assms(2,3) by simp_all
  with rest show ?thesis
    by (auto simp: rounds_ok_def counts_ok_def sum_list_replicate dest!: epoch_change_statistics)
qed

lemma start_steps:
  "start kh w = Ok (y, w') \<Longrightarrow>
     \<exists>e w1. epoch_change kh e w = Ok ((), w1) \<and> quiet w1 w' \<and> cw_statistics w' = cw_statistics w1 \<and> cw_round w' = 0"
  by (fastforce simp: start_def cm_run quiet_def round_fields)

section \<open>The budget of an epoch\<close>

lemma sdiv_le_mult: "0 \<le> x \<Longrightarrow> x \<le> y * d \<Longrightarrow> 0 < d \<Longrightarrow> 0 \<le> x sdiv d \<and> x sdiv d \<le> (y :: int)"
  using sdiv_mult_le [of x d] by (auto simp: sdiv_cases pos_imp_zdiv_nonneg_iff)
    (metis mult_le_cancel_right_pos order_trans)

lemma success_ratio_range:
  assumes "success_ratio s = Ok r" and "0 \<le> made s" "0 \<le> missed s" "made s + missed s < 2 ^ 64"
  shows "0 \<le> r \<and> r \<le> dec_one"
proof (cases "made s + missed s = 0")
  case False
  have t: "u64_add (made s) (missed s) = made s + missed s" using assms by (simp add: u64_add_def)
  have "is_decimal (dec_from_int (made s))" using assms by (simp add: dec_from_int_def dec_one_def range_simps)
  then have r: "r = (dec_from_int (made s) * 10 ^ 18) sdiv dec_from_int (made s + missed s)"
    using assms(1) t False dec.checked_div_Some_iff [of "dec_from_int (made s)" "dec_from_int (made s + missed s)" r]
    by (auto simp: success_ratio_def cm_decimal_def res_iffs dec_checked_div_def)
  show ?thesis unfolding r dec_one_def
    by (rule sdiv_le_mult) (use assms False in \<open>auto simp: dec_from_int_def dec_one_def\<close>)
qed (use assms in \<open>auto simp: success_ratio_def u64_add_def dec_one_def\<close>)

lemma reliability_factor_range:
  assumes "to_reliability_factor r m = Ok f" and "0 \<le> r" "r \<le> dec_one"
  shows "0 \<le> f \<and> f \<le> dec_one"
proof (cases "r - m < 0 \<or> dec_one - m = 0")
  case False
  then have "f = ((r - m) * 10 ^ 18) sdiv (dec_one - m)"
    using assms(1) dec.checked_div_Some_iff [of "r - m" "dec_one - m" f]
    by (auto simp: to_reliability_factor_def cm_decimal_def res_iffs dec_checked_sub_iff dec_checked_div_def)
  then show ?thesis using False assms(2,3) sdiv_le_mult [of "(r - m) * 10 ^ 18" "10 ^ 18" "dec_one - m"]
    by (auto simp: dec_one_def)
qed (use assms in \<open>auto simp: to_reliability_factor_def cm_decimal_def res_iffs dec_checked_sub_iff dec_one_def split: if_splits\<close>)

definition infos_ok :: "(int \<times> validator_info) list \<Rightarrow> bool" where
  "infos_ok infos \<longleftrightarrow> (\<forall>(i, info) \<in> set infos. 0 < info_stake_xrd info \<and>
     0 \<le> info_effective_stake_xrd info \<and> info_effective_stake_xrd info \<le> info_stake_xrd info)"

abbreviation stake_sum :: "(int \<times> validator_info) list \<Rightarrow> int" where
  "stake_sum infos \<equiv> sum_list (map (\<lambda>p. info_stake_xrd (snd p)) infos)"

lemma create_info_ok:
  assumes "create_if_applicable a t s m = Ok (Some info)" and "0 \<le> made s" "0 \<le> missed s" "made s + missed s < 2 ^ 64"
  shows "0 < info_stake_xrd info \<and> 0 \<le> info_effective_stake_xrd info \<and>
    info_effective_stake_xrd info \<le> info_stake_xrd info"
proof -
  obtain r f e where r: "success_ratio s = Ok r" and f: "to_reliability_factor r m = Ok f"
    and e: "e = (t * f) sdiv 10 ^ 18" and info: "info_stake_xrd info = t" "info_effective_stake_xrd info = e" "0 < t"
    using assms(1) by (auto simp: create_if_applicable_def cm_decimal_def res_iffs dec_checked_mul_iff split: if_splits)
  have "0 \<le> f" "f \<le> 10 ^ 18"
    using success_ratio_range [OF r assms(2-4)] reliability_factor_range [OF f] by (auto simp: dec_one_def)
  then show ?thesis using sdiv_le_mult [of "t * f" t "10 ^ 18"] info e by simp
qed

lemma collect_infos_ok:
  assumes "collect_infos c stats i vs acc = Ok (n, infos)"
    and "\<forall>s \<in> set stats. 0 \<le> made s \<and> 0 \<le> missed s \<and> made s + missed s < 2 ^ 64"
  shows "infos_ok infos \<and> n = acc + stake_sum infos"
  using assms
proof (induction vs arbitrary: i acc n infos)
  case (Cons av vs)
  obtain a v where av: "av = (a, v)" by (cases av)
  have i: "i < length stats" using Cons.prems(1) [unfolded av] by (auto split: if_splits)
  obtain info where info: "create_if_applicable a (entry_stake v) (stats ! i) (min_validator_reliability c) = Ok info"
    using Cons.prems(1) [unfolded av] i by (auto simp: res_iffs)
  show ?case
  proof (cases info)
    case None
    then show ?thesis using Cons.IH [of "i + 1" acc n infos] Cons.prems(1) [unfolded av] Cons.prems(2) i info by (auto simp: res_iffs)
  next
    case (Some x)
    obtain acc' infos' where acc': "acc' = acc + info_stake_xrd x" and infos: "infos = (int i, x) # infos'"
      and rest: "collect_infos c stats (i + 1) vs acc' = Ok (n, infos')" and i': "\<not> i > 255"
      using Cons.prems(1) [unfolded av] i info Some
      by (auto simp: res_iffs cm_decimal_def dec_checked_add_iff split: if_splits)
    have s: "stats ! i \<in> set stats" using i by simp
    have "infos_ok infos' \<and> n = acc' + stake_sum infos'"
      using Cons.IH [OF rest Cons.prems(2)] .
    then show ?thesis
      using create_info_ok [OF info [unfolded Some]] Cons.prems(2) s infos acc' by (auto simp: infos_ok_def)
  qed
qed (auto simp: infos_ok_def)

lemma total_emission_bound:
  assumes "total_emission r infos acc = Ok e" and "infos_ok infos" and "0 \<le> r"
  shows "10 ^ 18 * e \<le> 10 ^ 18 * acc + r * stake_sum infos"
  using assms
proof (induction infos arbitrary: acc)
  case (Cons p infos)
  obtain i info where p: "p = (i, info)" by (cases p)
  obtain q where q: "q = (info_effective_stake_xrd info * r) sdiv 10 ^ 18"
    and rest: "total_emission r infos (acc + q) = Ok e"
    using Cons.prems(1) p by (auto simp: res_iffs cm_decimal_def dec_checked_mul_iff dec_checked_add_iff)
  have info: "0 \<le> info_effective_stake_xrd info" "info_effective_stake_xrd info \<le> info_stake_xrd info" "infos_ok infos"
    using Cons.prems(2) p by (auto simp: infos_ok_def)
  have "q * 10 ^ 18 \<le> info_effective_stake_xrd info * r"
    unfolding q using info(1) Cons.prems(3) by (intro sdiv_mult_le) auto
  also have "\<dots> \<le> r * info_stake_xrd info" using info Cons.prems(3) by (simp add: mult.commute mult_left_mono)
  finally show ?case
    using Cons.IH [OF rest info(3) Cons.prems(3)] p by (simp add: algebra_simps)
qed simp


lemma budgeted_bound:
  assumes "budgeted w d" and "counts_ok (cw_statistics w)" and "proposals (cw_statistics w) < 2 ^ 64"
    and E: "0 \<le> total_emission_xrd_per_epoch (cw_config w)" "is_decimal (total_emission_xrd_per_epoch (cw_config w))"
  shows "0 \<le> d \<and> d \<le> total_emission_xrd_per_epoch (cw_config w)"
proof (cases "d = 0")
  case False
  let ?E = "total_emission_xrd_per_epoch (cw_config w)"
  from assms(1) False obtain n infos r where ci: "collect_infos (cw_config w) (cw_statistics w) 0 (cw_validator_set w) 0 = Ok (n, infos)"
    and ne: "infos \<noteq> []" and r: "cm_decimal (dec_checked_div ?E n) = Ok r" and d: "total_emission r infos 0 = Ok d" and "0 \<le> d"
    by (auto simp: budgeted_def)
  have "\<forall>s \<in> set (cw_statistics w). 0 \<le> made s \<and> 0 \<le> missed s \<and> made s + missed s < 2 ^ 64"
    using assms(2,3) counts_bound [OF assms(2)] by (fastforce simp: counts_ok_def)
  then have io: "infos_ok infos" "n = stake_sum infos" using collect_infos_ok [OF ci] by auto
  obtain p ps where p: "infos = p # ps" using ne by (cases infos) auto
  have "0 \<le> stake_sum ps" using io(1) p by (intro sum_list_nonneg) (fastforce simp: infos_ok_def)
  then have n: "0 < n" using io p by (auto simp: infos_ok_def split: prod.splits)
  have rv: "r = (?E * 10 ^ 18) sdiv n"
    using r E(2) dec.checked_div_Some_iff [of ?E n r] by (auto simp: cm_decimal_def res_iffs dec_checked_div_def)
  have "0 \<le> r" using rv n E(1) by (simp add: sdiv_cases pos_imp_zdiv_nonneg_iff)
  then have "10 ^ 18 * d \<le> r * n" using total_emission_bound [OF d io(1)] io(2) by simp
  also have "r * n \<le> ?E * 10 ^ 18" unfolding rv using n E(1) by (intro sdiv_mult_le) auto
  finally show ?thesis using \<open>0 \<le> d\<close> by simp
qed (use E in simp)



section \<open>New validators\<close>

lemma pool_inv_add:
  assumes inv: "pool_inv x r P" and a: "P a = None" and u: "balanced u" "tracked u"
    and s: "s \<notin> vault_nodes x" "p \<notin> vault_nodes x" "s \<noteq> p" and x': "balanced x'" "vault_nodes x' = {s, p} \<union> vault_nodes x"
  shows "pool_inv x' r (P(a \<mapsto> (s, p, u)))"
proof -
  have old: "balanced v \<and> tracked v \<and> s1 \<in> vault_nodes x \<and> p1 \<in> vault_nodes x \<and> s1 \<noteq> r \<and> s1 \<noteq> s \<and> s1 \<noteq> p \<and> p1 \<noteq> s \<and> b \<noteq> a"
    if "P b = Some (s1, p1, v)" for b s1 p1 v
    using pool_invD(3) [OF inv that] s that a by auto
  have "r \<noteq> s" using pool_invD(2) [OF inv] s(1) by auto
  with old show ?thesis
    unfolding pool_inv_def using pool_invD(2) [OF inv] u s(3) x' pool_invD(4) [OF inv]
    by (auto split: if_splits) blast+
qed

lemma new_units_balanced:
  assumes "new_resource stake_unit_manager c k = Ok u" and "create_empty_vault u = Ok (l, v)" and "create_empty_vault v = Ok (p, v')"
  shows "balanced v' \<and> tracked v'"
proof -
  have u: "balanced u" "tracked u"
    using new_resource_live [OF assms(1)] by (auto simp: live_def stake_unit_manager_def)
  then have "balanced v" "tracked v" using create_empty_vault_moves [OF assms(2)] by (auto simp: moves_def)
  then show ?thesis using create_empty_vault_moves [OF assms(3)] by (auto simp: moves_def)
qed

lemma validator_create_pools:
  assumes "validator_create claims a key reg fee w = Ok (y, w')" and ok: "pool_ok w" and a: "pools w a = None"
  shows "pool_ok w' \<and> (\<forall>b. b \<noteq> a \<longrightarrow> stake_of w' b = stake_of w b \<and> units_of w' b = units_of w b)"
proof -
  obtain sv x1 pv x2 c k u l v p v' where sv: "create_empty_vault (cw_xrd w) = Ok (sv, x1)"
    and pv: "create_empty_vault x1 = Ok (pv, x2)" and u: "new_resource stake_unit_manager c k = Ok u"
    and l: "create_empty_vault u = Ok (l, v)" and p: "create_empty_vault v = Ok (p, v')"
    and w': "cw_xrd w' = x2" "cw_rewards_vault w' = cw_rewards_vault w" "pools w' = (pools w)(a \<mapsto> (sv, pv, v'))"
    using assms(1) unfolding validator_create_def check_validator_fee_factor_def
    by (fastforce simp: cm_run res_iffs set_validator_def pools_def fun_eq_iff split: if_splits)
  have x1: "moves (cw_xrd w) x1 (vault_amount (cw_xrd w)) (bucket_amount (cw_xrd w)) 0"
    "sv \<notin> vault_nodes (cw_xrd w)" "vault_nodes x1 = insert sv (vault_nodes (cw_xrd w))"
    using create_empty_vault_moves [OF sv pool_ok_facts(1) [OF ok]] by auto
  have x2: "moves x1 x2 (vault_amount x1) (bucket_amount x1) 0" "pv \<notin> vault_nodes x1" "vault_nodes x2 = insert pv (vault_nodes x1)"
    using create_empty_vault_moves [OF pv] x1(1) by (auto simp: moves_def)
  have "pool_inv x2 (cw_rewards_vault w) ((pools w)(a \<mapsto> (sv, pv, v')))"
    by (rule pool_inv_add [OF ok [unfolded pool_ok_def] a])
      (use new_units_balanced [OF u l p] x1 x2 in \<open>auto simp: moves_def\<close>)
  moreover have "stake_in x2 ((pools w)(a \<mapsto> (sv, pv, v'))) b = stake_in (cw_xrd w) (pools w) b" if "b \<noteq> a" for b
    using that x1(1) x2(1) by (cases "pools w b") (auto simp: stake_in_def moves_def)
  ultimately show ?thesis by (simp add: pool_defs w' units_in_def)
qed

lemma burn_grows:
  assumes "burn_internal b (cw_xrd w) = Ok (y, x)" and ok: "pool_ok w"
  shows "pool_ok (w\<lparr>cw_xrd := x\<rparr>) \<and> stake_of (w\<lparr>cw_xrd := x\<rparr>) = stake_of w \<and> units_of (w\<lparr>cw_xrd := x\<rparr>) = units_of w"
proof -
  have "moves (cw_xrd w) x (vault_amount (cw_xrd w)) ((bucket_amount (cw_xrd w))(b := 0)) (- bucket_amount (cw_xrd w) b)"
    using burn_moves [OF assms(1) pool_ok_facts(1) [OF ok]] by simp
  then show ?thesis
    using pool_inv_xrd [OF ok [unfolded pool_ok_def]] stake_in_same [of x "cw_xrd w" "pools w"]
    by (simp add: pool_defs moves_def)
qed

lemma create_validator_pools:
  assumes "create_validator claims a usd key fee is_xrd b w = Ok (y, w')" and ok: "pool_ok w" and a: "pools w a = None"
  shows "pool_ok w' \<and> (\<forall>c. c \<noteq> a \<longrightarrow> stake_of w' c = stake_of w c \<and> units_of w' c = units_of w c)"
proof -
  obtain cost w1 z where cost: "(case cost of Some xrd_cost \<Rightarrow> abind (cm_xrd (bucket_take b xrd_cost)) (\<lambda>xrd_paid.
        cm_xrd (burn_internal xrd_paid)) | None \<Rightarrow> areturn ()) w = Ok ((), w1)"
    and cr: "validator_create claims a key False fee w1 = Ok (z, w')"
    using assms(1) unfolding create_validator_def
    by (elim abind_OkE) (auto simp: aread_Ok_iff areturn_Ok_iff get_validator_xrd_cost_def)
  have w1: "pool_ok w1 \<and> stake_of w1 = stake_of w \<and> units_of w1 = units_of w \<and> pools w1 = pools w"
  proof (cases cost)
    case (Some q)
    then obtain pb x1 x2 where take: "bucket_take b q (cw_xrd w) = Ok (pb, x1)" and burn: "burn_internal pb x1 = Ok ((), x2)"
      and w1: "w1 = w\<lparr>cw_xrd := x2\<rparr>"
      using cost by (auto simp: cm_run)
    have c: "pool_change 0 0 0 w (w\<lparr>cw_xrd := x1\<rparr>)"
      using after_bucket_take [OF pool_change_refl [OF ok] take] by blast
    show ?thesis using burn_grows [of pb "w\<lparr>cw_xrd := x1\<rparr>", OF _ pool_change_facts(1) [OF c]] burn c w1
      by (simp add: pool_change_def)
  qed (use cost ok in \<open>simp add: areturn_Ok_iff\<close>)
  then show ?thesis using validator_create_pools [OF cr] a by simp
qed



section \<open>The operations together\<close>

datatype 'n consensus_op =
    OpStake address nat
  | OpStakeAsOwner address nat
  | OpUnstake address nat
  | OpClaimXrd address nat
  | OpRegister address
  | OpUnregister address
  | OpUpdateKey address nat
  | OpUpdateFee address decimal
  | OpAcceptDelegatedStake address bool
  | OpSignalReadiness address string
  | OpLockOwnerStakeUnits address nat
  | OpStartUnlock address decimal
  | OpFinishUnlock address
  | OpApplyEmission address nat epoch int int
  | OpApplyReward address nat epoch
  | OpCreateValidator 'n address decimal nat decimal bool nat
  | OpStart
  | OpNextRound int int leader_proposal_history

definition cm_discard :: "('n, 'a) cm_act \<Rightarrow> ('n, unit) cm_act" where
  "cm_discard m = abind m (\<lambda>_. areturn ())"

fun run_consensus_op :: "(address \<Rightarrow> nat) \<Rightarrow> 'n claim_api \<Rightarrow> 'n consensus_op \<Rightarrow> ('n, unit) cm_act" where
  "run_consensus_op kh C (OpStake a b) = cm_discard (validator_stake a b)"
| "run_consensus_op kh C (OpStakeAsOwner a b) = cm_discard (stake_as_owner a b)"
| "run_consensus_op kh C (OpUnstake a b) = cm_discard (validator_unstake C a b)"
| "run_consensus_op kh C (OpClaimXrd a b) = cm_discard (claim_xrd C a b)"
| "run_consensus_op kh C (OpRegister a) = register a"
| "run_consensus_op kh C (OpUnregister a) = unregister a"
| "run_consensus_op kh C (OpUpdateKey a k) = update_key a k"
| "run_consensus_op kh C (OpUpdateFee a f) = update_fee a f"
| "run_consensus_op kh C (OpAcceptDelegatedStake a c) = update_accept_delegated_stake a c"
| "run_consensus_op kh C (OpSignalReadiness a n) = signal_protocol_update_readiness a n"
| "run_consensus_op kh C (OpLockOwnerStakeUnits a b) = lock_owner_stake_units a b"
| "run_consensus_op kh C (OpStartUnlock a q) = start_unlock_owner_stake_units a q"
| "run_consensus_op kh C (OpFinishUnlock a) = cm_discard (finish_unlock_owner_stake_units a)"
| "run_consensus_op kh C (OpApplyEmission a b e pm ps) = apply_emission a b e pm ps"
| "run_consensus_op kh C (OpApplyReward a b e) = apply_reward a b e"
| "run_consensus_op kh C (OpCreateValidator n a usd key fee xrd b) = cm_discard (create_validator n a usd key fee xrd b)"
| "run_consensus_op kh C OpStart = start kh"
| "run_consensus_op kh C (OpNextRound r t h) = next_round kh r t h"

text \<open>A new validator gets an address that no validator has.\<close>

fun fresh_address :: "'n consensus_op \<Rightarrow> 'n consensus_world \<Rightarrow> bool" where
  "fresh_address (OpCreateValidator n a usd key fee xrd b) w \<longleftrightarrow> im_get (cw_validators w) a = None"
| "fresh_address _ w \<longleftrightarrow> True"

definition undiluted :: "'n consensus_world \<Rightarrow> 'n consensus_world \<Rightarrow> bool" where
  "undiluted w w' \<longleftrightarrow> pool_ok w' \<and> (\<forall>a. pools w a \<noteq> None \<longrightarrow>
     stake_of w a * units_of w' a \<le> stake_of w' a * units_of w a)"

lemma grows_undiluted: "grows d w w' \<Longrightarrow> undiluted w w'"
  by (simp add: grows_def undiluted_def)

lemma quiet_undiluted: "pool_ok w \<Longrightarrow> quiet w w' \<Longrightarrow> undiluted w w'"
  using grows_undiluted quiet_grows by blast

lemma no_change_undiluted: "pool_change a 0 0 w w' \<Longrightarrow> undiluted w w'"
  using grows_undiluted no_change_grows by blast

lemma stake_undiluted:
  "\<exists>ds du. pool_change a ds du w w' \<and> 0 \<le> ds \<and> 0 \<le> du \<and> stake_of w a * du \<le> ds * units_of w a \<Longrightarrow> undiluted w w'"
  using grows_undiluted pool_change_grows by blast

lemma unstake_undiluted:
  assumes "\<exists>q n. pool_change a (- q) (- n) w w' \<and> 0 \<le> q \<and> 0 \<le> n \<and> n \<le> units_of w a \<and>
    units_of w a * q \<le> n * stake_of w a"
  shows "undiluted w w'"
  using assms by (auto simp: undiluted_def pool_change_def algebra_simps)

lemma unchanged_undiluted:
  "pool_ok w' \<and> (\<forall>b. b \<noteq> a \<longrightarrow> stake_of w' b = stake_of w b \<and> units_of w' b = units_of w b) \<Longrightarrow> pools w a = None \<Longrightarrow>
     undiluted w w'"
  unfolding undiluted_def by (metis order_refl)

lemma cm_discard_Ok: "cm_discard m w = Ok (u, w') \<longleftrightarrow> (\<exists>x. m w = Ok (x, w'))"
  by (auto simp: cm_discard_def abind_Ok_iff areturn_Ok_iff)

lemma consensus_op_undiluted:
  assumes "run_consensus_op kh C op w = Ok ((), w')" and ok: "pool_ok w" and fresh: "fresh_address op w"
  shows "undiluted w w'"
proof (cases op)
  case (OpCreateValidator n a usd key fee xrd b)
  have "pools w a = None" using fresh OpCreateValidator by (simp add: pools_def)
  moreover from assms(1) OpCreateValidator obtain x where "create_validator n a usd key fee xrd b w = Ok (x, w')"
    by (auto simp: cm_discard_Ok)
  ultimately show ?thesis by (intro unchanged_undiluted [OF create_validator_pools [OF _ ok]])
next
  case OpStart
  then show ?thesis
    using assms(1) start_steps epoch_change_grows [OF _ ok] grows_undiluted grows_trans [OF ok] quiet_grows grows_ok
    by (metis run_consensus_op.simps(17))
next
  case (OpNextRound r t h)
  then show ?thesis using assms(1) next_round_grows [OF _ ok] grows_undiluted by fastforce
qed (use assms(1) in \<open>auto simp: cm_discard_Ok validator_stake_def stake_as_owner_def register_def unregister_def
    intro: stake_undiluted [OF stake_internal_change [OF _ ok]] unstake_undiluted [OF unstake_change [OF _ ok]]
      no_change_undiluted [OF claim_xrd_change [OF _ ok]] quiet_undiluted [OF ok register_update_quiet]
      quiet_undiluted [OF ok update_key_quiet] quiet_undiluted [OF ok update_fee_quiet]
      quiet_undiluted [OF ok accept_delegated_quiet] quiet_undiluted [OF ok signal_quiet]
      no_change_undiluted [OF lock_units_change [OF _ ok]] no_change_undiluted [OF start_unlock_change [OF _ ok]]
      no_change_undiluted [OF finish_unlock_change [OF _ ok]] stake_undiluted [OF apply_emission_change [OF _ ok]]
      stake_undiluted [OF apply_reward_change [OF _ ok]]\<close>)



section \<open>A small network\<close>

definition demo_xrd :: world where
  "demo_xrd = \<lparr>manager = \<lparr>rm_divisibility = 18, rm_total_supply = 1000 * 10 ^ 18, rm_track_total_supply = False,
      rm_vault_freeze = False, rm_vault_recall = False, rm_mint = True, rm_burn = True, rm_is_xrd = True\<rparr>,
     vaults = [(2, \<lparr>vault_balance = 0, vault_locked = [], vault_frozen = 0\<rparr>)],
     buckets = [(0, \<lparr>bucket_liquid = 600 * 10 ^ 18, bucket_locked = []\<rparr>),
       (1, \<lparr>bucket_liquid = 400 * 10 ^ 18, bucket_locked = []\<rparr>)],
     proofs = [], next_node = 3,
     events = [MintFungibleResourceEvent (1000 * 10 ^ 18), VaultCreationEvent 2],
     fee_locks = [], costing_enabled = True, stack_id = 0\<rparr>"

lemma demo_xrd_made:
  "rbind (create_with_initial_supply \<lparr>rm_divisibility = 18, rm_total_supply = 0, rm_track_total_supply = False,
      rm_vault_freeze = False, rm_vault_recall = False, rm_mint = True, rm_burn = True, rm_is_xrd = True\<rparr> True 0 (1000 * 10 ^ 18))
    (\<lambda>(b, w). abind (bucket_take b (400 * 10 ^ 18)) (\<lambda>_. create_empty_vault) w) = Ok (2, demo_xrd)"
  by code_simp

definition demo_genesis :: "unit consensus_world" where
  "demo_genesis = \<lparr>cw_started = False, cw_epoch = 1, cw_effective_epoch_start_milli = 0, cw_actual_epoch_start_milli = 0,
     cw_round = 0, cw_current_leader = None,
     cw_config = \<lparr>max_validators = 10, num_unstake_epochs = 1, total_emission_xrd_per_epoch = 50 * 10 ^ 18,
       min_validator_reliability = 8 * 10 ^ 17, num_owner_stake_units_unlock_epochs = 1,
       num_fee_increase_delay_epochs = 1, min_round_count = 1, max_round_count = 2, target_duration_millis = 1000,
       validator_creation_usd_cost = 0\<rparr>,
     cw_clock = \<lparr>epoch_milli = 0, epoch_minute = 0\<rparr>, cw_proposer_rewards = [], cw_rewards_vault = 2,
     cw_validator_set = [], cw_statistics = [], cw_index = [], cw_validators = [], cw_xrd = demo_xrd, cw_events = []\<rparr>"

primrec run_consensus_ops :: "(address \<Rightarrow> nat) \<Rightarrow> 'n claim_api \<Rightarrow> 'n consensus_op list \<Rightarrow> 'n consensus_world \<Rightarrow>
    'n consensus_world option" where
  "run_consensus_ops kh C [] w = Some w"
| "run_consensus_ops kh C (op # ops) w =
     (if fresh_address op w then
        case run_consensus_op kh C op w of
          Inr (_, w') \<Rightarrow> run_consensus_ops kh C ops w'
        | Inl _ \<Rightarrow> None
      else None)"

lemma demo_genesis_ok: "pool_ok demo_genesis"
proof -
  obtain b w where w: "create_with_initial_supply \<lparr>rm_divisibility = 18, rm_total_supply = 0, rm_track_total_supply = False,
      rm_vault_freeze = False, rm_vault_recall = False, rm_mint = True, rm_burn = True, rm_is_xrd = True\<rparr> True 0 (1000 * 10 ^ 18) = Ok (b, w)"
    and r: "abind (bucket_take b (400 * 10 ^ 18)) (\<lambda>_. create_empty_vault) w = Ok (2, demo_xrd)"
    using demo_xrd_made by (auto simp: res_iffs)
  have "balanced w" using initial_supply_live [OF w] by (simp add: resource_inv_def)
  then have "balanced demo_xrd"
    using r bucket_take_moves create_empty_vault_moves by (fastforce simp: abind_Ok_iff moves_def)
  then show ?thesis by (simp add: pool_ok_def pool_inv_def pools_def demo_genesis_def) (simp add: demo_xrd_def)
qed

lemma run_ops_ok: "run_consensus_ops kh C ops w = Some w' \<Longrightarrow> pool_ok w \<Longrightarrow> pool_ok w'"
proof (induction ops arbitrary: w)
  case (Cons op ops)
  obtain w1 where w1: "fresh_address op w" "run_consensus_op kh C op w = Ok ((), w1)" "run_consensus_ops kh C ops w1 = Some w'"
    using Cons.prems(1) by (auto split: if_splits sum.splits)
  have "pool_ok w1" using consensus_op_undiluted [OF w1(2) Cons.prems(2) w1(1)] by (simp add: undiluted_def)
  then show ?case using Cons.IH w1(3) by blast
qed simp

definition demo_claims :: "unit claim_api" where
  "demo_claims = \<lparr>claim_mint = (\<lambda>_. areturn 0), claim_is_claim_bucket = (\<lambda>_. areturn True), claim_ids = (\<lambda>_. areturn []),
     claim_data = (\<lambda>_. areturn \<lparr>claim_epoch = 0, claim_amount = 0\<rparr>), claim_burn = (\<lambda>_. areturn ())\<rparr>"

definition demo_ops :: "unit consensus_op list" where
  "demo_ops = [OpCreateValidator () 7 0 5 (2 * 10 ^ 17) True 0, OpStakeAsOwner 7 0, OpRegister 7, OpStart]"

definition demo_network :: "unit consensus_world" where
  "demo_network = the (run_consensus_ops id demo_claims demo_ops demo_genesis)"

lemma demo_network_runs: "run_consensus_ops id demo_claims demo_ops demo_genesis = Some demo_network"
  by code_simp

definition demo_staked :: "unit consensus_world" where
  "demo_staked = the (run_consensus_ops id demo_claims [OpStakeAsOwner 7 1] demo_network)"

definition demo_round :: leader_proposal_history where
  "demo_round = \<lparr>gap_round_leaders = [], current_leader = 0, is_fallback = False\<rparr>"

definition demo_next_epoch :: "unit consensus_world" where
  "demo_next_epoch = the (run_consensus_ops id demo_claims [OpNextRound 1 1000 demo_round] demo_network)"

lemma demo_network_ok: "pool_ok demo_network"
  by (rule run_ops_ok [OF demo_network_runs demo_genesis_ok])

lemma demo_staked_run: "run_consensus_op id demo_claims (OpStakeAsOwner 7 1) demo_network = Ok ((), demo_staked)"
  by code_simp

lemma demo_next_epoch_run: "next_round id 1 1000 demo_round demo_network = Ok ((), demo_next_epoch)"
  by code_simp

lemma demo_rounds_ok: "rounds_ok demo_network"
  unfolding rounds_ok_def counts_ok_def by code_simp


section \<open>Properties\<close>

text \<open>
  C30. Stake units are never diluted. Whatever operation of a validator or of the consensus manager
  succeeds (staking, unstaking, claiming, registration, fees, owner stake units, emissions, rewards,
  creating a validator, a round, an epoch change), for every validator the XRD in its stake vault per stake unit
  in existence does not fall, and the vaults and stake unit ledgers of all validators stay sound and
  separate.
\<close>

theorem stake_units_never_diluted:
  assumes "pool_ok w" and "fresh_address op w" and "run_consensus_op kh C op w = Ok ((), w')"
  shows "pool_ok w' \<and> (\<forall>a v. im_get (cw_validators w) a = Some v \<longrightarrow>
    stake_of w a * units_of w' a \<le> stake_of w' a * units_of w a)"
  using consensus_op_undiluted [OF assms(3,1,2)] by (auto simp: undiluted_def pools_def)

theorem stake_units_never_diluted_witness:
  "pool_ok demo_staked \<and> stake_of demo_network 7 * units_of demo_staked 7 \<le> stake_of demo_staked 7 * units_of demo_network 7"
proof -
  have "\<not> Option.is_none (im_get (cw_validators demo_network) 7)" by code_simp
  then obtain v where "im_get (cw_validators demo_network) 7 = Some v" by (auto simp: Option.is_none_def)
  then show ?thesis
    using stake_units_never_diluted [OF demo_network_ok _ demo_staked_run] by auto
qed

text \<open>
  C31. An epoch mints within its budget. A round that does not end its epoch mints nothing. A round that
  ends it mints at most the configured emission of an epoch: over all validators of the set, however their stakes,
  reliabilities and the roundings of the shares turn out.
\<close>

theorem emission_within_budget:
  assumes "pool_ok w" and "rounds_ok w" and "round < 2 ^ 64"
    and "0 \<le> total_emission_xrd_per_epoch (cw_config w)" and "is_decimal (total_emission_xrd_per_epoch (cw_config w))"
    and "next_round kh round t h w = Ok (y, w')"
  shows "cw_epoch w' = cw_epoch w \<and> holdings (cw_xrd w') = holdings (cw_xrd w) \<or>
    cw_epoch w' = cw_epoch w + 1 \<and> holdings (cw_xrd w) \<le> holdings (cw_xrd w') \<and>
    holdings (cw_xrd w') \<le> holdings (cw_xrd w) + total_emission_xrd_per_epoch (cw_config w)"
proof -
  obtain d w1 where d: "grows d w w'" "round_frame w w1" "budgeted w1 d"
    "counts_ok (cw_statistics w1)" "proposals (cw_statistics w1) = round"
    and epoch: "d = 0 \<and> cw_epoch w' = cw_epoch w \<or> cw_epoch w' = cw_epoch w + 1"
    using next_round_grows [OF assms(6,1)] assms(2,3) by auto
  have "cw_config w1 = cw_config w" using d(2) by (simp add: round_frame_def quiet_def)
  then have "0 \<le> d \<and> d \<le> total_emission_xrd_per_epoch (cw_config w)"
    using budgeted_bound [OF d(3,4)] d(5) assms(3-5) by simp
  then show ?thesis using d(1) epoch by (auto simp: grows_def)
qed

theorem emission_within_budget_witness:
  "holdings (cw_xrd demo_next_epoch) \<le> holdings (cw_xrd demo_network) + 50 * 10 ^ 18"
proof -
  have "total_emission_xrd_per_epoch (cw_config demo_network) = 50 * 10 ^ 18" by code_simp
  moreover have "is_decimal (50 * 10 ^ 18)" by (simp add: range_simps)
  ultimately show ?thesis
    using emission_within_budget [OF demo_network_ok demo_rounds_ok _ _ _ demo_next_epoch_run] by auto
qed

text \<open>
  C32. Rounds are accounted for. The proposals made and missed that the statistics of the epoch
  hold add up to the number of its rounds, each round counted once and for one validator; so the counters do not
  overflow.
\<close>

theorem rounds_accounted:
  assumes "rounds_ok w" and "round < 2 ^ 64" and "next_round kh round t h w = Ok (y, w')"
  shows "counts_ok (cw_statistics w') \<and> proposals (cw_statistics w') = cw_round w'"
  using next_round_counts [OF assms(3,1,2)] by (simp add: rounds_ok_def)

theorem rounds_accounted_witness: "proposals (cw_statistics demo_next_epoch) = cw_round demo_next_epoch"
  using rounds_accounted [OF demo_rounds_ok _ demo_next_epoch_run] by simp



end
