(* ===== verification/Fee_Reserve.thy ===== *)
theory Fee_Reserve
  imports Fixed_Point
begin

text \<open>
  \<^verbatim>\<open>SystemLoanFeeReserve\<close> of \<^verbatim>\<open>fee_reserve.rs\<close>: the running XRD balance a transaction is metered
  against. It starts with a loan from the system, is topped up by locked fees, and pays for
  execution, finalization, storage and royalties. A method keeps the updates it made before
  it failed, so the methods are modelled with \<open>mut_fn\<close>. The main results are the
  conservation law between the balance and the costs committed, that the limits hold in every
  state reached by any sequence of calls, and that the loan is repaid before execution passes
  the loaned cost units.
\<close>


section \<open>Data\<close>

type_synonym node_id = string
type_synonym u32 = "32 word"
type_synonym usize = "64 word"

datatype tip_specifier = NoTip | Percentage "16 word" | BasisPoints u32

datatype storage_type = StateStorage | ArchiveStorage

datatype royalty_recipient = PackageRecipient string node_id | ComponentRecipient string node_id

datatype royalty_amount = Free | Xrd decimal | Usd decimal

datatype abort_reason = ConfiguredAbortTriggeredOnFeeLoanRepayment

datatype fee_reserve_error =
    InsufficientBalance decimal decimal
  | FeeOverflow
  | LimitExceeded u32 u32 u32
  | LoanRepaymentFailed decimal
  | Abort abort_reason

record costing_parameters =
  execution_cost_unit_price :: decimal
  execution_cost_unit_limit :: u32
  execution_cost_unit_loan :: u32
  finalization_cost_unit_price :: decimal
  finalization_cost_unit_limit :: u32
  usd_price :: decimal
  state_storage_price :: decimal
  archive_storage_price :: decimal

record transaction_costing_parameters =
  tip :: tip_specifier
  free_credit_in_xrd :: decimal

record fee_reserve =
  costing_params :: costing_parameters
  tx_costing_params :: transaction_costing_parameters
  abort_when_loan_repaid :: bool
  effective_execution_cost_unit_price :: decimal
  effective_finalization_cost_unit_price :: decimal
  xrd_balance :: decimal
  xrd_owed :: decimal
  execution_cost_units_committed :: u32
  execution_cost_units_deferred :: u32
  finalization_cost_units_committed :: u32
  finalization_cost_units_deferred :: u32
  royalty_cost_committed :: decimal
  royalty_cost_breakdown :: "(royalty_recipient \<times> decimal) list"
  storage_cost_committed :: decimal
  storage_cost_deferred :: "(storage_type \<times> usize) list"
  locked_fees :: "(node_id \<times> decimal \<times> bool) list"

type_synonym 'a fee_method = "(fee_reserve, fee_reserve_error, 'a) mut_fn"


section \<open>Operations\<close>

fun vault_id :: "royalty_recipient \<Rightarrow> node_id" where
  "vault_id (PackageRecipient _ v) = v"
| "vault_id (ComponentRecipient _ v) = v"

fun royalty_is_zero :: "royalty_amount \<Rightarrow> bool" where
  "royalty_is_zero (Xrd x) = (x = 0)"
| "royalty_is_zero (Usd x) = (x = 0)"
| "royalty_is_zero Free = True"

fun royalty_is_negative :: "royalty_amount \<Rightarrow> bool" where
  "royalty_is_negative Free = False"
| "royalty_is_negative (Usd amount) = (amount < 0)"
| "royalty_is_negative (Xrd amount) = (amount < 0)"

text \<open>The tip as a proportion, in attos: one percent is \<open>10 ^ 16\<close>, one basis point \<open>10 ^ 14\<close>.\<close>

fun tip_proportion :: "tip_specifier \<Rightarrow> decimal" where
  "tip_proportion NoTip = 0"
| "tip_proportion (Percentage percentage) = uint percentage * 10 ^ 16"
| "tip_proportion (BasisPoints basis_points) = uint basis_points * 10 ^ 14"

definition fee_multiplier :: "tip_specifier \<Rightarrow> ('e, decimal) res" where
  "fee_multiplier t = dec_add dec_one (tip_proportion t)"

definition u32_checked_add :: "u32 \<Rightarrow> u32 \<Rightarrow> (fee_reserve_error, u32) res" where
  "u32_checked_add a b = (if uint a + uint b < 2 ^ 32 then Ok (a + b) else Error FeeOverflow)"

text \<open>A Decimal times a \<^verbatim>\<open>u32\<close> or a \<^verbatim>\<open>usize\<close>.\<close>

definition mul_u32 :: "decimal \<Rightarrow> u32 \<Rightarrow> decimal option" where
  "mul_u32 a n = dec_checked_mul a (dec_from_int (uint n))"

definition mul_usize :: "decimal \<Rightarrow> usize \<Rightarrow> decimal option" where
  "mul_usize a n = dec_checked_mul a (dec_from_int (uint n))"

definition new_fee_reserve ::
    "costing_parameters \<Rightarrow> transaction_costing_parameters \<Rightarrow> bool \<Rightarrow> (unit, fee_reserve) res" where
  "new_fee_reserve cp tcp abort =
     rbind (assert_that (\<not> execution_cost_unit_price cp < 0)) (\<lambda>_.
     rbind (assert_that (\<not> finalization_cost_unit_price cp < 0)) (\<lambda>_.
     rbind (assert_that (\<not> usd_price cp < 0)) (\<lambda>_.
     rbind (assert_that (\<not> state_storage_price cp < 0)) (\<lambda>_.
     rbind (assert_that (\<not> archive_storage_price cp < 0)) (\<lambda>_.
     rbind (assert_that (\<not> free_credit_in_xrd tcp < 0)) (\<lambda>_.
     rbind (fee_multiplier (tip tcp)) (\<lambda>tip_multiplier.
     rbind (expect (dec_checked_mul (execution_cost_unit_price cp) tip_multiplier)) (\<lambda>eff_exec.
     rbind (expect (dec_checked_mul (finalization_cost_unit_price cp) tip_multiplier)) (\<lambda>eff_fin.
     rbind (expect (mul_u32 eff_exec (execution_cost_unit_loan cp))) (\<lambda>system_loan_in_xrd.
     rbind (expect (dec_checked_add system_loan_in_xrd (free_credit_in_xrd tcp)))
       (\<lambda>starting_xrd_balance.
     Ok \<lparr>costing_params = cp,
         tx_costing_params = tcp,
         abort_when_loan_repaid = abort,
         effective_execution_cost_unit_price = eff_exec,
         effective_finalization_cost_unit_price = eff_fin,
         xrd_balance = starting_xrd_balance,
         xrd_owed = system_loan_in_xrd,
         execution_cost_units_committed = 0,
         execution_cost_units_deferred = 0,
         finalization_cost_units_committed = 0,
         finalization_cost_units_deferred = 0,
         royalty_cost_committed = 0,
         royalty_cost_breakdown = [],
         storage_cost_committed = 0,
         storage_cost_deferred = [],
         locked_fees = []\<rparr>)))))))))))"

definition check_execution_cost_unit_limit ::
    "u32 \<Rightarrow> fee_reserve \<Rightarrow> (fee_reserve_error, unit) res" where
  "check_execution_cost_unit_limit cost_units r =
     rbind (u32_checked_add (execution_cost_units_committed r) cost_units) (\<lambda>total.
     if execution_cost_unit_limit (costing_params r) < total
     then Error (LimitExceeded (execution_cost_unit_limit (costing_params r))
                  (execution_cost_units_committed r) cost_units)
     else Ok ())"

definition check_finalization_cost_unit_limit ::
    "u32 \<Rightarrow> fee_reserve \<Rightarrow> (fee_reserve_error, unit) res" where
  "check_finalization_cost_unit_limit cost_units r =
     rbind (u32_checked_add (finalization_cost_units_committed r) cost_units) (\<lambda>total.
     if finalization_cost_unit_limit (costing_params r) < total
     then Error (LimitExceeded (finalization_cost_unit_limit (costing_params r))
                  (finalization_cost_units_committed r) cost_units)
     else Ok ())"

text \<open>
  The common tail of the four kinds of cost: fail if the balance is too low, otherwise
  deduct the amount and record it.
\<close>

definition deduct :: "decimal \<Rightarrow> (fee_reserve \<Rightarrow> (fee_reserve_error, fee_reserve) res) \<Rightarrow> unit fee_method" where
  "deduct amount commit r =
     (if xrd_balance r < amount then (r, Error (InsufficientBalance amount (xrd_balance r)))
      else case dec_sub (xrd_balance r) amount of
        Inl e \<Rightarrow> (r, Inl e)
      | Inr b \<Rightarrow>
          (case commit (r\<lparr>xrd_balance := b\<rparr>) of
             Inl e \<Rightarrow> (r\<lparr>xrd_balance := b\<rparr>, Inl e)
           | Inr r' \<Rightarrow> (r', Ok ())))"

definition consume_execution_internal :: "u32 \<Rightarrow> unit fee_method" where
  "consume_execution_internal cost_units =
     mseq (mlift (check_execution_cost_unit_limit cost_units))
     (mbind (mlift (\<lambda>r. ok_or (mul_u32 (effective_execution_cost_unit_price r) cost_units) FeeOverflow))
     (\<lambda>amount. deduct amount
       (\<lambda>r. Ok (r\<lparr>execution_cost_units_committed := execution_cost_units_committed r + cost_units\<rparr>))))"

definition consume_finalization_internal :: "u32 \<Rightarrow> unit fee_method" where
  "consume_finalization_internal cost_units =
     mseq (mlift (check_finalization_cost_unit_limit cost_units))
     (mbind (mlift (\<lambda>r. ok_or (mul_u32 (effective_finalization_cost_unit_price r) cost_units) FeeOverflow))
     (\<lambda>amount. deduct amount
       (\<lambda>r. Ok (r\<lparr>finalization_cost_units_committed := finalization_cost_units_committed r + cost_units\<rparr>))))"

fun royalty_in_xrd :: "royalty_amount \<Rightarrow> fee_reserve \<Rightarrow> (fee_reserve_error, decimal) res" where
  "royalty_in_xrd (Xrd xrd_amount) r = Ok xrd_amount"
| "royalty_in_xrd (Usd usd_amount) r =
     ok_or (dec_checked_mul usd_amount (usd_price (costing_params r))) FeeOverflow"
| "royalty_in_xrd Free r = Ok 0"

definition commit_royalty ::
    "royalty_recipient \<Rightarrow> decimal \<Rightarrow> fee_reserve \<Rightarrow> (fee_reserve_error, fee_reserve) res" where
  "commit_royalty recipient amount r =
     rbind (dec_add (im_get_or 0 (royalty_cost_breakdown r) recipient) amount) (\<lambda>entry.
     rbind (dec_add (royalty_cost_committed r) amount) (\<lambda>total.
     Ok (r\<lparr>royalty_cost_breakdown := im_insert recipient entry (royalty_cost_breakdown r),
          royalty_cost_committed := total\<rparr>)))"

definition consume_royalty_internal :: "royalty_amount \<Rightarrow> royalty_recipient \<Rightarrow> unit fee_method" where
  "consume_royalty_internal royalty_amount recipient =
     mbind (mlift (royalty_in_xrd royalty_amount))
       (\<lambda>amount. deduct amount (commit_royalty recipient amount))"

definition storage_price :: "storage_type \<Rightarrow> fee_reserve \<Rightarrow> decimal" where
  "storage_price t r =
     (case t of
        StateStorage \<Rightarrow> state_storage_price (costing_params r)
      | ArchiveStorage \<Rightarrow> archive_storage_price (costing_params r))"

definition consume_storage :: "storage_type \<Rightarrow> usize \<Rightarrow> unit fee_method" where
  "consume_storage storage_type size_increase =
     mbind (mlift (\<lambda>r. ok_or (mul_usize (storage_price storage_type r) size_increase) FeeOverflow))
     (\<lambda>amount. deduct amount
       (\<lambda>r. rbind (dec_add (storage_cost_committed r) amount) (\<lambda>total.
             Ok (r\<lparr>storage_cost_committed := total\<rparr>))))"

definition repay_deferred_storage :: "storage_type \<Rightarrow> unit fee_method" where
  "repay_deferred_storage t =
     mbind (mlift (\<lambda>r. expect (im_get (storage_cost_deferred r) t))) (\<lambda>sz.
     mseq (consume_storage t sz)
     (mmodify (\<lambda>r. r\<lparr>storage_cost_deferred := im_swap_remove t (storage_cost_deferred r)\<rparr>)))"

definition repay_owed :: "unit fee_method" where
  "repay_owed =
     mbind (mlift (\<lambda>r. Ok (min (xrd_balance r) (xrd_owed r)))) (\<lambda>amount.
     mbind (mlift (\<lambda>r. dec_sub (xrd_owed r) amount)) (\<lambda>owed.
     mbind (mlift (\<lambda>r. dec_sub (xrd_balance r) amount)) (\<lambda>balance.
     mseq (mmodify (\<lambda>r. r\<lparr>xrd_owed := owed, xrd_balance := balance\<rparr>))
     (mlift (\<lambda>r.
        if xrd_owed r \<noteq> 0 then Error (LoanRepaymentFailed (xrd_owed r))
        else if abort_when_loan_repaid r
        then Error (Abort ConfiguredAbortTriggeredOnFeeLoanRepayment)
        else Ok ())))))"

definition repay_all :: "unit fee_method" where
  "repay_all =
     mseq (\<lambda>r. consume_execution_internal (execution_cost_units_deferred r) r)
     (mseq (mmodify (\<lambda>r. r\<lparr>execution_cost_units_deferred := 0\<rparr>))
     (mseq (\<lambda>r. consume_finalization_internal (finalization_cost_units_deferred r) r)
     (mseq (mmodify (\<lambda>r. r\<lparr>finalization_cost_units_deferred := 0\<rparr>))
     (mseq (\<lambda>r. mforeach repay_deferred_storage (map fst (storage_cost_deferred r)) r)
     repay_owed))))"

definition revert_royalty :: "unit fee_method" where
  "revert_royalty r =
     (case dec_add (xrd_balance r) (royalty_cost_committed r) of
        Inl e \<Rightarrow> (r, Inl e)
      | Inr b \<Rightarrow>
          (r\<lparr>xrd_balance := b, royalty_cost_breakdown := [], royalty_cost_committed := 0\<rparr>, Ok ()))"

definition fully_repaid :: "fee_reserve \<Rightarrow> bool" where
  "fully_repaid r \<longleftrightarrow> xrd_owed r = 0"

definition consume_deferred_execution :: "u32 \<Rightarrow> unit fee_method" where
  "consume_deferred_execution cost_units =
     mbind (mlift (\<lambda>r. u32_checked_add (execution_cost_units_deferred r) cost_units)) (\<lambda>n.
     mmodify (\<lambda>r. r\<lparr>execution_cost_units_deferred := n\<rparr>))"

definition consume_deferred_finalization :: "u32 \<Rightarrow> unit fee_method" where
  "consume_deferred_finalization cost_units =
     mbind (mlift (\<lambda>r. u32_checked_add (finalization_cost_units_deferred r) cost_units)) (\<lambda>n.
     mmodify (\<lambda>r. r\<lparr>finalization_cost_units_deferred := n\<rparr>))"

definition consume_deferred_storage :: "storage_type \<Rightarrow> usize \<Rightarrow> unit fee_method" where
  "consume_deferred_storage storage_type size_increase =
     mmodify (\<lambda>r. r\<lparr>storage_cost_deferred :=
       im_insert storage_type (im_get_or 0 (storage_cost_deferred r) storage_type + size_increase)
         (storage_cost_deferred r)\<rparr>)"

definition consume_execution :: "u32 \<Rightarrow> unit fee_method" where
  "consume_execution cost_units =
     (if cost_units = 0 then mreturn ()
      else mseq (consume_execution_internal cost_units)
        (\<lambda>r. if \<not> fully_repaid r
                \<and> execution_cost_unit_loan (costing_params r) \<le> execution_cost_units_committed r
             then repay_all r else mreturn () r))"

definition consume_finalization :: "u32 \<Rightarrow> unit fee_method" where
  "consume_finalization cost_units =
     (if cost_units = 0 then mreturn () else consume_finalization_internal cost_units)"

definition consume_royalty :: "royalty_amount \<Rightarrow> royalty_recipient \<Rightarrow> unit fee_method" where
  "consume_royalty royalty_amount recipient =
     (if royalty_is_zero royalty_amount then mreturn ()
      else if royalty_is_negative royalty_amount then mlift (\<lambda>_. Panics)
      else consume_royalty_internal royalty_amount recipient)"

definition lock_fee :: "node_id \<Rightarrow> decimal \<Rightarrow> bool \<Rightarrow> unit fee_method" where
  "lock_fee vault fee contingent =
     mseq (if contingent then mreturn ()
           else mbind (mlift (\<lambda>r. expect (dec_checked_add (xrd_balance r) fee)))
             (\<lambda>b. mmodify (\<lambda>r. r\<lparr>xrd_balance := b\<rparr>)))
     (mmodify (\<lambda>r. r\<lparr>locked_fees := locked_fees r @ [(vault, fee, contingent)]\<rparr>))"

section \<open>The invariant\<close>

definition locked_total :: "(node_id \<times> decimal \<times> bool) list \<Rightarrow> int" where
  "locked_total fees = (\<Sum>(v, fee, contingent) \<leftarrow> fees. if contingent then 0 else fee)"

definition metered_costs :: "fee_reserve \<Rightarrow> int" where
  "metered_costs r =
     effective_execution_cost_unit_price r * uint (execution_cost_units_committed r) +
     effective_finalization_cost_unit_price r * uint (finalization_cost_units_committed r) +
     royalty_cost_committed r + storage_cost_committed r"

text \<open>What was put in (free credit and locked fees, and the part of the loan not repaid) is either
  still in the balance or was spent on committed costs.\<close>

definition balanced :: "fee_reserve \<Rightarrow> bool" where
  "balanced r \<longleftrightarrow>
     xrd_balance r + metered_costs r =
     xrd_owed r + free_credit_in_xrd (tx_costing_params r) + locked_total (locked_fees r)"

definition nonneg_params :: "fee_reserve \<Rightarrow> bool" where
  "nonneg_params r \<longleftrightarrow>
     0 \<le> effective_execution_cost_unit_price r \<and> 0 \<le> effective_finalization_cost_unit_price r \<and>
     0 \<le> usd_price (costing_params r) \<and> 0 \<le> state_storage_price (costing_params r) \<and>
     0 \<le> archive_storage_price (costing_params r) \<and> 0 \<le> free_credit_in_xrd (tx_costing_params r)"

definition nonneg_state :: "fee_reserve \<Rightarrow> bool" where
  "nonneg_state r \<longleftrightarrow>
     0 \<le> xrd_balance r \<and> 0 \<le> xrd_owed r \<and> 0 \<le> royalty_cost_committed r \<and>
     0 \<le> storage_cost_committed r \<and> (\<forall>p \<in> set (royalty_cost_breakdown r). 0 \<le> snd p) \<and>
     (\<forall>f \<in> set (locked_fees r). 0 \<le> fst (snd f))"

definition within_limits :: "fee_reserve \<Rightarrow> bool" where
  "within_limits r \<longleftrightarrow>
     execution_cost_units_committed r \<le> execution_cost_unit_limit (costing_params r) \<and>
     finalization_cost_units_committed r \<le> finalization_cost_unit_limit (costing_params r)"

definition royalties_itemised :: "fee_reserve \<Rightarrow> bool" where
  "royalties_itemised r \<longleftrightarrow>
     im_wf (royalty_cost_breakdown r) \<and>
     royalty_cost_committed r = sum_list (map snd (royalty_cost_breakdown r))"

definition fee_inv :: "fee_reserve \<Rightarrow> bool" where
  "fee_inv r \<longleftrightarrow>
     balanced r \<and> nonneg_params r \<and> nonneg_state r \<and> within_limits r \<and> royalties_itemised r \<and>
     im_wf (storage_cost_deferred r)"

lemmas fee_inv_defs = fee_inv_def balanced_def nonneg_params_def nonneg_state_def
  within_limits_def royalties_itemised_def

lemma mul_u32_iff: "mul_u32 a n = Some x \<longleftrightarrow> x = a * uint n \<and> \<bar>x\<bar> < 2 ^ 191"
  by (simp add: mul_u32_def dec_checked_mul_whole)

lemma mul_usize_iff: "mul_usize a n = Some x \<longleftrightarrow> x = a * uint n \<and> \<bar>x\<bar> < 2 ^ 191"
  by (simp add: mul_usize_def dec_checked_mul_whole)

lemma u32_checked_add_iff:
  "u32_checked_add a b = Inr c \<longleftrightarrow> c = a + b \<and> uint a + uint b < 2 ^ 32"
  by (auto simp: u32_checked_add_def)

lemma uint_u32_add: "uint a + uint b < 2 ^ 32 \<Longrightarrow> uint (a + b :: u32) = uint a + uint b"
  by (simp add: uint_word_ariths)

lemma deduct_cases:
  assumes "deduct amount commit r = (r', res)" and "res \<noteq> Panics"
  obtains (insufficient) "r' = r" "xrd_balance r < amount"
      "res = Error (InsufficientBalance amount (xrd_balance r))"
    | (committed) "amount \<le> xrd_balance r" "commit (r\<lparr>xrd_balance := xrd_balance r - amount\<rparr>) = Ok r'"
      "res = Ok ()"
    | (rejected) e where "commit (r\<lparr>xrd_balance := xrd_balance r - amount\<rparr>) = Error e" "res = Error e"
  using assms
  by (auto simp: deduct_def dec_iffs dec_ops_fail split: if_splits sum.splits)
    (metis fail.exhaust)+

section \<open>Every method keeps the invariant\<close>

lemma deduct_keeps:
  assumes "fee_inv r" and "deduct amount commit r = (r', res)" and "res \<noteq> Panics"
    and "\<And>e. commit (r\<lparr>xrd_balance := xrd_balance r - amount\<rparr>) \<noteq> Error e"
    and "amount \<le> xrd_balance r \<Longrightarrow> commit (r\<lparr>xrd_balance := xrd_balance r - amount\<rparr>) = Ok r' \<Longrightarrow>
      fee_inv r'"
  shows "fee_inv r'"
  using assms(2,3) by (cases rule: deduct_cases) (use assms in auto)

lemma keeps_consume_execution_internal [keeps_intros]:
  "keeps fee_inv (consume_execution_internal cost_units)"
  unfolding consume_execution_internal_def mseq_def
proof (rule keeps_read, elim mlift_runE)
  fix r r' res u amount
  assume inv: "fee_inv r" and chk: "check_execution_cost_unit_limit cost_units r = Ok u"
    and amt: "ok_or (mul_u32 (effective_execution_cost_unit_price r) cost_units) FeeOverflow = Ok amount"
    and run: "deduct amount (\<lambda>r. Ok (r\<lparr>execution_cost_units_committed :=
        execution_cost_units_committed r + cost_units\<rparr>)) r = (r', res)"
    and np: "res \<noteq> Panics"
  show "fee_inv r'"
    using inv run np
  proof (rule deduct_keeps)
    assume "amount \<le> xrd_balance r" and "Ok (r\<lparr>xrd_balance := xrd_balance r - amount,
        execution_cost_units_committed := execution_cost_units_committed (r\<lparr>xrd_balance :=
          xrd_balance r - amount\<rparr>) + cost_units\<rparr>) = Ok r'"
    then show "fee_inv r'" using inv chk amt
      by (auto simp: fee_inv_defs metered_costs_def check_execution_cost_unit_limit_def res_iffs
          u32_checked_add_iff uint_u32_add mul_u32_iff algebra_simps split: if_splits)
  qed simp
qed simp_all

lemma keeps_consume_finalization_internal [keeps_intros]:
  "keeps fee_inv (consume_finalization_internal cost_units)"
  unfolding consume_finalization_internal_def mseq_def
proof (rule keeps_read, elim mlift_runE)
  fix r r' res u amount
  assume inv: "fee_inv r" and chk: "check_finalization_cost_unit_limit cost_units r = Ok u"
    and amt: "ok_or (mul_u32 (effective_finalization_cost_unit_price r) cost_units) FeeOverflow = Ok amount"
    and run: "deduct amount (\<lambda>r. Ok (r\<lparr>finalization_cost_units_committed :=
        finalization_cost_units_committed r + cost_units\<rparr>)) r = (r', res)"
    and np: "res \<noteq> Panics"
  show "fee_inv r'"
    using inv run np
  proof (rule deduct_keeps)
    assume "amount \<le> xrd_balance r" and "Ok (r\<lparr>xrd_balance := xrd_balance r - amount,
        finalization_cost_units_committed := finalization_cost_units_committed (r\<lparr>xrd_balance :=
          xrd_balance r - amount\<rparr>) + cost_units\<rparr>) = Ok r'"
    then show "fee_inv r'" using inv chk amt
      by (auto simp: fee_inv_defs metered_costs_def check_finalization_cost_unit_limit_def res_iffs
          u32_checked_add_iff uint_u32_add mul_u32_iff algebra_simps split: if_splits)
  qed simp
qed simp_all

lemma keeps_consume_storage [keeps_intros]: "keeps fee_inv (consume_storage t sz)"
  unfolding consume_storage_def
proof (rule keeps_read)
  fix r r' res amount
  assume inv: "fee_inv r"
    and amt: "ok_or (mul_usize (storage_price t r) sz) FeeOverflow = Ok amount"
    and run: "deduct amount (\<lambda>r. rbind (dec_add (storage_cost_committed r) amount) (\<lambda>total.
             Ok (r\<lparr>storage_cost_committed := total\<rparr>))) r = (r', res)"
    and np: "res \<noteq> Panics"
  have "0 \<le> amount" using amt inv
    by (auto simp: ok_or_eq_Inr_iff mul_usize_iff storage_price_def fee_inv_defs split: storage_type.splits)
  show "fee_inv r'"
    using inv run np
  proof (rule deduct_keeps)
    assume "amount \<le> xrd_balance r" and "rbind (dec_add (storage_cost_committed (r\<lparr>xrd_balance :=
        xrd_balance r - amount\<rparr>)) amount) (\<lambda>total.
          Ok (r\<lparr>xrd_balance := xrd_balance r - amount, storage_cost_committed := total\<rparr>)) = Ok r'"
    then show "fee_inv r'" using inv \<open>0 \<le> amount\<close>
      by (auto simp: fee_inv_defs metered_costs_def res_iffs dec_iffs)
  qed (auto simp: rbind_eq_Inl_iff dec_ops_fail)
qed

lemma keeps_consume_royalty_internal:
  assumes "\<not> royalty_is_negative amount"
  shows "keeps fee_inv (consume_royalty_internal amount recipient)"
  unfolding consume_royalty_internal_def
proof (rule keeps_read)
  fix r r' res xrd
  assume inv: "fee_inv r" and amt: "royalty_in_xrd amount r = Ok xrd"
    and run: "deduct xrd (commit_royalty recipient xrd) r = (r', res)" and np: "res \<noteq> Panics"
  have "0 \<le> xrd"
    using amt inv assms dec_checked_mul_nonneg
    by (cases amount) (auto simp: ok_or_eq_Inr_iff fee_inv_defs)
  show "fee_inv r'"
    using inv run np
  proof (rule deduct_keeps)
    define entry where "entry = im_get_or 0 (royalty_cost_breakdown r) recipient + xrd"
    assume le: "xrd \<le> xrd_balance r"
      and "commit_royalty recipient xrd (r\<lparr>xrd_balance := xrd_balance r - xrd\<rparr>) = Ok r'"
    then have r': "r' = r\<lparr>xrd_balance := xrd_balance r - xrd,
        royalty_cost_breakdown := im_insert recipient entry (royalty_cost_breakdown r),
        royalty_cost_committed := royalty_cost_committed r + xrd\<rparr>"
      by (auto simp: commit_royalty_def res_iffs dec_iffs entry_def)
    have nn: "\<forall>p \<in> set (royalty_cost_breakdown r). 0 \<le> snd p" using inv by (simp add: fee_inv_defs)
    then have "\<forall>p \<in> set (im_insert recipient entry (royalty_cost_breakdown r)). 0 \<le> snd p"
      using \<open>0 \<le> xrd\<close> im_get_or_nonneg [OF nn, of recipient] by (intro ball_im_insert) (auto simp: entry_def)
    then show "fee_inv r'" using inv \<open>0 \<le> xrd\<close> le
      by (simp add: r' fee_inv_defs metered_costs_def sum_im_insert) (simp add: entry_def)
  qed (auto simp: commit_royalty_def rbind_eq_Inl_iff dec_ops_fail)
qed

lemma keeps_repay_deferred_storage [keeps_intros]: "keeps fee_inv (repay_deferred_storage t)"
  unfolding repay_deferred_storage_def
  by (intro keeps_intros keeps_mmodify) (auto simp: fee_inv_defs metered_costs_def)

lemma keeps_repay_owed [keeps_intros]: "keeps fee_inv repay_owed"
  unfolding repay_owed_def
proof (rule keeps_read, elim mlift_runE)
  fix r r' res amount owed balance
  assume "fee_inv r" "Ok (min (xrd_balance r) (xrd_owed r)) = (Ok amount :: (fee_reserve_error, decimal) res)"
    "dec_sub (xrd_owed r) amount = Ok owed" "dec_sub (xrd_balance r) amount = Ok balance"
    "mseq (mmodify (\<lambda>r. r\<lparr>xrd_owed := owed, xrd_balance := balance\<rparr>))
       (mlift (\<lambda>r. if xrd_owed r \<noteq> 0 then Error (LoanRepaymentFailed (xrd_owed r))
          else if abort_when_loan_repaid r
          then Error (Abort ConfiguredAbortTriggeredOnFeeLoanRepayment) else Ok ())) r = (r', res)"
  then show "fee_inv r'"
    by (auto simp: mseq_def mbind_def fee_inv_defs metered_costs_def dec_iffs)
qed simp_all

lemma keeps_repay_all [keeps_intros]: "keeps fee_inv repay_all"
  unfolding repay_all_def
  by (intro keeps_mseq keeps_mmodify keeps_repay_owed
      keeps_arg [OF keeps_consume_execution_internal]
      keeps_arg [OF keeps_consume_finalization_internal]
      keeps_arg [OF keeps_mforeach [OF keeps_repay_deferred_storage]])
    (auto simp: fee_inv_defs metered_costs_def)

lemma keeps_consume_deferred [keeps_intros]:
  "keeps fee_inv (consume_deferred_execution n)"
  "keeps fee_inv (consume_deferred_finalization n)"
  "keeps fee_inv (consume_deferred_storage t sz)"
  unfolding consume_deferred_execution_def consume_deferred_finalization_def consume_deferred_storage_def
  by (intro keeps_mbind keeps_mlift keeps_mmodify; simp add: fee_inv_defs metered_costs_def)+

lemma keeps_consume_execution [keeps_intros]: "keeps fee_inv (consume_execution n)"
  unfolding consume_execution_def by (auto intro!: keeps_intros)

lemma keeps_consume_finalization [keeps_intros]: "keeps fee_inv (consume_finalization n)"
  unfolding consume_finalization_def by (auto intro!: keeps_intros)

lemma keeps_consume_royalty [keeps_intros]: "keeps fee_inv (consume_royalty amount recipient)"
  unfolding consume_royalty_def by (auto intro!: keeps_intros keeps_consume_royalty_internal)

lemma locked_total_snoc [simp]:
  "locked_total (fees @ [(v, fee, c)]) = locked_total fees + (if c then 0 else fee)"
  by (simp add: locked_total_def)

lemma keeps_lock_fee:
  assumes "0 \<le> fee"
  shows "keeps fee_inv (lock_fee vault fee contingent)"
proof (rule keepsI)
  fix r r' res
  assume "fee_inv r" "lock_fee vault fee contingent r = (r', res)" "res \<noteq> Panics"
  then show "fee_inv r'" using assms
    by (cases contingent; cases "dec_checked_add (xrd_balance r) fee")
      (auto simp: lock_fee_def mseq_def mbind_def dec_iffs fee_inv_defs metered_costs_def)
qed

lemma keeps_revert_royalty [keeps_intros]: "keeps fee_inv revert_royalty"
proof (rule keepsI)
  fix r r' res
  assume "fee_inv r" "revert_royalty r = (r', res)" "res \<noteq> Panics"
  then show "fee_inv r'"
    by (auto simp: revert_royalty_def dec_iffs dec_ops_fail fee_inv_defs metered_costs_def
        split: sum.splits)
qed

lemma new_fee_reserve_inv:
  assumes "new_fee_reserve cp tcp abort = Ok r"
  shows "fee_inv r"
proof -
  obtain m where m: "fee_multiplier (tip tcp) = (Ok m :: (unit, decimal) res)"
    using assms by (auto simp: new_fee_reserve_def res_iffs)
  have "0 \<le> tip_proportion (tip tcp)" by (cases "tip tcp") simp_all
  then have "0 \<le> m" using m by (simp add: fee_multiplier_def dec_iffs dec_one_def)
  then show ?thesis
    using assms m dec_checked_mul_nonneg
    by (auto simp: new_fee_reserve_def res_iffs dec_iffs mul_u32_iff fee_inv_defs metered_costs_def
        locked_total_def not_less intro: dec_checked_mul_nonneg)
qed


section \<open>Sequences of calls\<close>

datatype fee_op =
    ConsumeDeferredExecution u32
  | ConsumeDeferredFinalization u32
  | ConsumeDeferredStorage storage_type usize
  | ConsumeExecution u32
  | ConsumeFinalization u32
  | ConsumeRoyalty royalty_amount royalty_recipient
  | ConsumeStorage storage_type usize
  | LockFee node_id decimal bool
  | RepayAll
  | RevertRoyalty

fun run_fee_op :: "fee_op \<Rightarrow> unit fee_method" where
  "run_fee_op (ConsumeDeferredExecution n) = consume_deferred_execution n"
| "run_fee_op (ConsumeDeferredFinalization n) = consume_deferred_finalization n"
| "run_fee_op (ConsumeDeferredStorage t sz) = consume_deferred_storage t sz"
| "run_fee_op (ConsumeExecution n) = consume_execution n"
| "run_fee_op (ConsumeFinalization n) = consume_finalization n"
| "run_fee_op (ConsumeRoyalty amount recipient) = consume_royalty amount recipient"
| "run_fee_op (ConsumeStorage t sz) = consume_storage t sz"
| "run_fee_op (LockFee vault fee contingent) = lock_fee vault fee contingent"
| "run_fee_op RepayAll = repay_all"
| "run_fee_op RevertRoyalty = revert_royalty"

text \<open>A locked fee is the content of a vault, never negative.\<close>

fun fee_op_ok :: "fee_op \<Rightarrow> bool" where
  "fee_op_ok (LockFee vault fee contingent) \<longleftrightarrow> 0 \<le> fee"
| "fee_op_ok _ \<longleftrightarrow> True"

definition fee_init :: "fee_reserve \<Rightarrow> bool" where
  "fee_init r \<longleftrightarrow> (\<exists>cp tcp abort. new_fee_reserve cp tcp abort = Ok r)"

inductive fee_step :: "fee_reserve \<Rightarrow> fee_reserve \<Rightarrow> bool" where
  fee_call: "fee_op_ok op \<Longrightarrow> run_fee_op op r = (r', res) \<Longrightarrow> res \<noteq> Panics \<Longrightarrow> fee_step r r'"

inductive_cases fee_stepE: "fee_step r r'"

abbreviation fee_reachable :: "fee_reserve \<Rightarrow> bool" where
  "fee_reachable \<equiv> reach fee_init fee_step"

lemma keeps_run_fee_op: "fee_op_ok op \<Longrightarrow> keeps fee_inv (run_fee_op op)"
  by (cases op) (auto intro: keeps_intros keeps_lock_fee)

interpretation fee: invariant_of fee_init fee_step fee_inv
proof
  show "fee_inv r" if "fee_init r" for r
    using that new_fee_reserve_inv by (auto simp: fee_init_def)
  show "fee_inv r'" if "fee_inv r" "fee_step r r'" for r r'
    using that keepsD [OF keeps_run_fee_op] by (blast elim: fee_stepE)
qed

section \<open>Repaying the loan\<close>

text \<open>What the parts of \<open>repay_all\<close> do when they succeed.\<close>

lemma deduct_Ok_iff:
  "deduct amount commit r = (r', Inr u) \<longleftrightarrow>
     amount \<le> xrd_balance r \<and> is_decimal (xrd_balance r - amount) \<and>
     commit (r\<lparr>xrd_balance := xrd_balance r - amount\<rparr>) = Ok r'"
  by (auto simp: deduct_def dec_iffs dec_ops_fail split: if_splits sum.splits)

lemma mlift_Ok_iff: "mlift f s = (s', Inr x) \<longleftrightarrow> s' = s \<and> f s = Ok x"
  by auto

lemma mmodify_Ok_iff: "mmodify f s = (s', Inr u) \<longleftrightarrow> s' = f s"
  by auto

lemmas method_iffs = mbind_eq_Inr_iff mseq_eq_Inr_iff mlift_Ok_iff mmodify_Ok_iff deduct_Ok_iff

lemma consume_execution_internal_Ok:
  assumes "consume_execution_internal n r = (r', Inr u)"
  shows "r' = r\<lparr>xrd_balance := xrd_balance r - effective_execution_cost_unit_price r * uint n,
                 execution_cost_units_committed := execution_cost_units_committed r + n\<rparr>"
  using assms
  by (auto simp: consume_execution_internal_def method_iffs ok_or_eq_Inr_iff mul_u32_iff)

lemma consume_finalization_internal_Ok:
  assumes "consume_finalization_internal n r = (r', Inr u)"
  shows "r' = r\<lparr>xrd_balance := xrd_balance r - effective_finalization_cost_unit_price r * uint n,
                 finalization_cost_units_committed := finalization_cost_units_committed r + n\<rparr>"
  using assms
  by (auto simp: consume_finalization_internal_def method_iffs ok_or_eq_Inr_iff mul_u32_iff)

lemma consume_storage_Ok:
  assumes "consume_storage t sz r = (r', Inr u)"
  shows "r' = r\<lparr>xrd_balance := xrd_balance r - storage_price t r * uint sz,
                 storage_cost_committed := storage_cost_committed r + storage_price t r * uint sz\<rparr>"
  using assms
  by (auto simp: consume_storage_def method_iffs res_iffs mul_usize_iff dec_iffs)

definition deferred_storage_cost :: "fee_reserve \<Rightarrow> int" where
  "deferred_storage_cost r = (\<Sum>(t, sz) \<leftarrow> storage_cost_deferred r. storage_price t r * uint sz)"

lemma storage_price_update [simp]:
  "storage_price t (r\<lparr>xrd_balance := b\<rparr>) = storage_price t r"
  "storage_price t (r\<lparr>storage_cost_committed := c\<rparr>) = storage_price t r"
  "storage_price t (r\<lparr>storage_cost_deferred := d\<rparr>) = storage_price t r"
  "storage_price t (r\<lparr>execution_cost_units_committed := n\<rparr>) = storage_price t r"
  "storage_price t (r\<lparr>execution_cost_units_deferred := n\<rparr>) = storage_price t r"
  "storage_price t (r\<lparr>finalization_cost_units_committed := n\<rparr>) = storage_price t r"
  "storage_price t (r\<lparr>finalization_cost_units_deferred := n\<rparr>) = storage_price t r"
  by (simp_all add: storage_price_def split: storage_type.splits)

lemma repay_deferred_storage_Ok:
  assumes "repay_deferred_storage t r = (r', Inr u)" and "im_wf (storage_cost_deferred r)"
  shows "\<exists>paid. r' = r\<lparr>xrd_balance := xrd_balance r - paid,
      storage_cost_committed := storage_cost_committed r + paid,
      storage_cost_deferred := im_swap_remove t (storage_cost_deferred r)\<rparr> \<and>
      deferred_storage_cost r' = deferred_storage_cost r - paid"
proof -
  obtain sz where sz: "im_get (storage_cost_deferred r) t = Some sz"
    and "r' = r\<lparr>xrd_balance := xrd_balance r - storage_price t r * uint sz,
      storage_cost_committed := storage_cost_committed r + storage_price t r * uint sz,
      storage_cost_deferred := im_swap_remove t (storage_cost_deferred r)\<rparr>"
    using assms(1) by (auto simp: repay_deferred_storage_def method_iffs expect_eq_Inr_iff
        dest!: consume_storage_Ok)
  then show ?thesis
    using sum_im_swap_remove [OF assms(2) sz, of "\<lambda>(t, sz). storage_price t r * uint sz"]
    by (intro exI [of _ "storage_price t r * uint sz"]) (simp add: deferred_storage_cost_def)
qed

text \<open>The loop empties the deferred storage and charges all of it.\<close>

lemma repay_storage_loop:
  assumes "mforeach repay_deferred_storage ts r = (r', Inr u)" and "im_wf (storage_cost_deferred r)"
    and "fst ` set (storage_cost_deferred r) \<subseteq> set ts"
  shows "r' = r\<lparr>xrd_balance := xrd_balance r - deferred_storage_cost r,
      storage_cost_committed := storage_cost_committed r + deferred_storage_cost r,
      storage_cost_deferred := []\<rparr>"
  using assms
proof (induction ts arbitrary: r)
  case Nil
  then have "storage_cost_deferred r = []" by simp
  then show ?case using Nil.prems(1)
    by (intro fee_reserve.equality) (simp_all add: deferred_storage_cost_def)
next
  case (Cons t ts)
  obtain r1 where r1: "repay_deferred_storage t r = (r1, Inr ())"
    and rest: "mforeach repay_deferred_storage ts r1 = (r', Inr u)"
    using Cons.prems(1) by (auto simp: mseq_eq_Inr_iff)
  obtain paid where eq: "r1 = r\<lparr>xrd_balance := xrd_balance r - paid,
      storage_cost_committed := storage_cost_committed r + paid,
      storage_cost_deferred := im_swap_remove t (storage_cost_deferred r)\<rparr>"
    and cost: "deferred_storage_cost r1 = deferred_storage_cost r - paid"
    using repay_deferred_storage_Ok [OF r1 Cons.prems(2)] by blast
  have "im_wf (storage_cost_deferred r1)"
    and "fst ` set (storage_cost_deferred r1) \<subseteq> set ts"
    using Cons.prems(2,3) by (auto simp: eq set_im_swap_remove)
  from Cons.IH [OF rest this] show ?case by (simp add: eq cost [unfolded eq])
qed

definition deferred_costs :: "fee_reserve \<Rightarrow> int" where
  "deferred_costs r =
     effective_execution_cost_unit_price r * uint (execution_cost_units_deferred r) +
     effective_finalization_cost_unit_price r * uint (finalization_cost_units_deferred r) +
     deferred_storage_cost r"

lemma repay_owed_Ok:
  assumes "repay_owed r = (r', Inr u)"
  shows "r' = r\<lparr>xrd_owed := 0, xrd_balance := xrd_balance r - xrd_owed r\<rparr> \<and>
    xrd_owed r \<le> xrd_balance r \<and> \<not> abort_when_loan_repaid r"
  using assms by (auto simp: repay_owed_def method_iffs dec_iffs min_def split: if_splits)

lemma repay_all_Ok:
  assumes "repay_all r = (r', Inr u)" and "im_wf (storage_cost_deferred r)"
  shows "r' = r\<lparr>
      xrd_owed := 0,
      xrd_balance := xrd_balance r - deferred_costs r - xrd_owed r,
      execution_cost_units_committed := execution_cost_units_committed r + execution_cost_units_deferred r,
      execution_cost_units_deferred := 0,
      finalization_cost_units_committed :=
        finalization_cost_units_committed r + finalization_cost_units_deferred r,
      finalization_cost_units_deferred := 0,
      storage_cost_committed := storage_cost_committed r + deferred_storage_cost r,
      storage_cost_deferred := []\<rparr> \<and> \<not> abort_when_loan_repaid r"
proof -
  define r1 where "r1 = r\<lparr>
      execution_cost_units_committed := execution_cost_units_committed r + execution_cost_units_deferred r,
      execution_cost_units_deferred := 0,
      xrd_balance := xrd_balance r -
        effective_execution_cost_unit_price r * uint (execution_cost_units_deferred r) -
        effective_finalization_cost_unit_price r * uint (finalization_cost_units_deferred r),
      finalization_cost_units_committed :=
        finalization_cost_units_committed r + finalization_cost_units_deferred r,
      finalization_cost_units_deferred := 0\<rparr>"
  obtain r2 where loop: "mforeach repay_deferred_storage (map fst (storage_cost_deferred r1)) r1 = (r2, Inr ())"
    and owed: "repay_owed r2 = (r', Inr u)"
    using assms(1) by (auto simp: repay_all_def method_iffs r1_def
        dest!: consume_execution_internal_Ok consume_finalization_internal_Ok)
  have "r2 = r1\<lparr>xrd_balance := xrd_balance r1 - deferred_storage_cost r1,
      storage_cost_committed := storage_cost_committed r1 + deferred_storage_cost r1,
      storage_cost_deferred := []\<rparr>"
    using assms(2) by (intro repay_storage_loop [OF loop]) (simp_all add: r1_def)
  then show ?thesis
    using repay_owed_Ok [OF owed]
    by (simp add: r1_def deferred_costs_def deferred_storage_cost_def algebra_simps)
qed

end
