(* ===== verification/Fee_Metering.thy ===== *)
theory Fee_Metering
  imports Fee_Reserve
begin

text \<open>
  What the fee reserve guarantees over whole transactions: conservation and limits in every
  state any sequence of calls can reach, the loan gate over sequences of successful calls, and
  that no call panics while the funds put into the reserve fit a Decimal.
\<close>


section \<open>Protocol parameters\<close>

definition babylon_genesis :: costing_parameters where
  "babylon_genesis = \<lparr>
     execution_cost_unit_price = 50000000000,
     execution_cost_unit_limit = 100000000,
     execution_cost_unit_loan = 4000000,
     finalization_cost_unit_price = 50000000000,
     finalization_cost_unit_limit = 50000000,
     usd_price = 16666666666666666666,
     state_storage_price = 95367430000000,
     archive_storage_price = 95367430000000\<rparr>"

definition no_tip_no_credit :: transaction_costing_parameters where
  "no_tip_no_credit = \<lparr>tip = NoTip, free_credit_in_xrd = 0\<rparr>"


section \<open>The loan gate\<close>

text \<open>
  A reserve may run on the system's loan only while fewer execution cost units than loaned are
  committed. A failing call ends the execution, so the steps here are the successful calls.
\<close>

definition loan_gate :: "fee_reserve \<Rightarrow> bool" where
  "loan_gate r \<longleftrightarrow>
     im_wf (storage_cost_deferred r) \<and>
     (fully_repaid r \<or> execution_cost_units_committed r < execution_cost_unit_loan (costing_params r))"

inductive fee_ok_step :: "fee_reserve \<Rightarrow> fee_reserve \<Rightarrow> bool" where
  fee_ok_call: "run_fee_op op r = (r', Ok ()) \<Longrightarrow> fee_ok_step r r'"

inductive_cases fee_ok_stepE: "fee_ok_step r r'"

lemma consume_execution_gate:
  assumes "loan_gate r" and "consume_execution n r = (r', Ok ())"
  shows "loan_gate r'"
proof (cases "n = 0")
  case True
  then show ?thesis using assms by (simp add: consume_execution_def)
next
  case False
  obtain r1 where r1: "consume_execution_internal n r = (r1, Inr ())"
    and rest: "(if \<not> fully_repaid r1
                \<and> execution_cost_unit_loan (costing_params r1) \<le> execution_cost_units_committed r1
             then repay_all r1 else mreturn () r1) = (r', Ok ())"
    using assms(2) False by (auto simp: consume_execution_def mseq_eq_Inr_iff)
  have "im_wf (storage_cost_deferred r1)"
    using assms(1) consume_execution_internal_Ok [OF r1] by (simp add: loan_gate_def)
  with rest show ?thesis
    by (auto simp: loan_gate_def fully_repaid_def not_le dest!: repay_all_Ok split: if_splits)
qed

lemma royalty_Ok:
  assumes "consume_royalty_internal amount recipient r = (r', Inr u)"
  shows "xrd_owed r' = xrd_owed r" "costing_params r' = costing_params r"
    "execution_cost_units_committed r' = execution_cost_units_committed r"
    "storage_cost_deferred r' = storage_cost_deferred r"
  using assms
  by (auto simp: consume_royalty_internal_def method_iffs commit_royalty_def rbind_eq_Inr_iff)

lemma loan_gate_step:
  assumes "loan_gate r" and "run_fee_op op r = (r', Ok ())"
  shows "loan_gate r'"
proof (cases op)
  case (ConsumeExecution n)
  then show ?thesis using assms consume_execution_gate by simp
next
  case (ConsumeFinalization n)
  then show ?thesis using assms
    by (auto simp: consume_finalization_def loan_gate_def fully_repaid_def
        dest!: consume_finalization_internal_Ok split: if_splits)
next
  case (ConsumeRoyalty amount recipient)
  then show ?thesis using assms
    by (auto simp: consume_royalty_def loan_gate_def fully_repaid_def royalty_Ok split: if_splits)
next
  case (ConsumeStorage t sz)
  then show ?thesis using assms
    by (auto simp: loan_gate_def fully_repaid_def dest!: consume_storage_Ok)
next
  case (LockFee vault fee contingent)
  then show ?thesis using assms
    by (auto simp: lock_fee_def method_iffs loan_gate_def fully_repaid_def split: if_splits)
next
  case RepayAll
  then show ?thesis using assms
    by (auto simp: loan_gate_def fully_repaid_def dest!: repay_all_Ok)
next
  case RevertRoyalty
  then show ?thesis using assms
    by (auto simp: revert_royalty_def loan_gate_def fully_repaid_def split: sum.splits)
qed (use assms in \<open>auto simp: loan_gate_def fully_repaid_def consume_deferred_execution_def
      consume_deferred_finalization_def consume_deferred_storage_def method_iffs\<close>)

interpretation gate: invariant_of fee_init fee_ok_step loan_gate
proof
  show "loan_gate r" if init: "fee_init r" for r
  proof -
    obtain cp tcp abort where new: "new_fee_reserve cp tcp abort = Ok r"
      using init by (auto simp: fee_init_def)
    then have r: "costing_params r = cp" "execution_cost_units_committed r = 0"
      "storage_cost_deferred r = []"
      "xrd_owed r = effective_execution_cost_unit_price r * uint (execution_cost_unit_loan cp)"
      by (auto simp: new_fee_reserve_def res_iffs mul_u32_iff)
    then show ?thesis
      by (cases "execution_cost_unit_loan cp = 0")
        (auto simp: loan_gate_def fully_repaid_def word_neq_0_conv)
  qed
  show "loan_gate r'" if "loan_gate r" "fee_ok_step r r'" for r r'
    using that loan_gate_step by (blast elim: fee_ok_stepE)
qed

section \<open>Panics\<close>

text \<open>
  The unchecked additions and subtractions of the reserve are safe as long as everything that
  was ever put into it fits a Decimal (``No overflow due to limited supply'').
\<close>

definition funds :: "fee_reserve \<Rightarrow> int" where
  "funds r = xrd_owed r + free_credit_in_xrd (tx_costing_params r) + locked_total (locked_fees r)"

definition solvent :: "fee_reserve \<Rightarrow> bool" where
  "solvent r \<longleftrightarrow> fee_inv r \<and> funds r \<le> dec_max"

fun op_funds :: "fee_op \<Rightarrow> int" where
  "op_funds (LockFee vault fee contingent) = (if contingent then 0 else fee)"
| "op_funds _ = 0"

fun op_royalty_ok :: "fee_op \<Rightarrow> bool" where
  "op_royalty_ok (ConsumeRoyalty amount recipient) \<longleftrightarrow> \<not> royalty_is_negative amount"
| "op_royalty_ok _ \<longleftrightarrow> True"

lemma is_decimal_nonneg: "0 \<le> x \<Longrightarrow> x \<le> dec_max \<Longrightarrow> is_decimal x"
  by (simp add: range_simps dec_max_def)

text \<open>In a solvent reserve the balance and the costs recorded add up to at most the funds.\<close>

lemma solvent_bounds:
  assumes "solvent r"
  shows "0 \<le> xrd_balance r" "0 \<le> xrd_owed r" "xrd_owed r \<le> dec_max"
    "xrd_balance r + royalty_cost_committed r \<le> dec_max"
    "xrd_balance r + storage_cost_committed r \<le> dec_max"
    "0 \<le> royalty_cost_committed r" "0 \<le> storage_cost_committed r"
    "xrd_balance r \<le> funds r"
proof -
  have "0 \<le> effective_execution_cost_unit_price r * uint (execution_cost_units_committed r)"
    "0 \<le> effective_finalization_cost_unit_price r * uint (finalization_cost_units_committed r)"
    "0 \<le> locked_total (locked_fees r)"
    using assms by (force simp: solvent_def fee_inv_defs locked_total_def intro!: sum_list_nonneg)+
  moreover have "xrd_balance r + metered_costs r = funds r" "funds r \<le> dec_max"
    "0 \<le> free_credit_in_xrd (tx_costing_params r)"
    using assms by (simp_all add: solvent_def fee_inv_defs funds_def)
  moreover show "0 \<le> xrd_balance r" "0 \<le> xrd_owed r"
    "0 \<le> royalty_cost_committed r" "0 \<le> storage_cost_committed r"
    using assms by (simp_all add: solvent_def fee_inv_def nonneg_state_def)
  ultimately show "xrd_owed r \<le> dec_max" "xrd_balance r + royalty_cost_committed r \<le> dec_max"
    "xrd_balance r + storage_cost_committed r \<le> dec_max" "xrd_balance r \<le> funds r"
    unfolding funds_def metered_costs_def by linarith+
qed

lemma breakdown_entry_le:
  fixes m :: "('k \<times> int) list"
  assumes "\<forall>p \<in> set m. 0 \<le> snd p"
  shows "im_get_or 0 m k \<le> sum_list (map snd m)"
  using assms
proof (induction m)
  case (Cons p m)
  then have "0 \<le> sum_list (map snd m)" by (auto intro!: sum_list_nonneg)
  with Cons show ?case by (cases p) (auto simp: im_get_or_def split: option.splits)
qed (simp add: im_get_or_def)

lemma deduct_no_panic:
  assumes "solvent r" and "0 \<le> amount"
    and "amount \<le> xrd_balance r \<Longrightarrow> commit (r\<lparr>xrd_balance := xrd_balance r - amount\<rparr>) \<noteq> Panics"
  shows "snd (deduct amount commit r) \<noteq> Panics"
proof -
  have "is_decimal (xrd_balance r - amount)" if "amount \<le> xrd_balance r"
    using that assms(2) solvent_bounds [OF assms(1)] by (intro is_decimal_nonneg) auto
  then show ?thesis using assms(3)
    by (cases "amount \<le> xrd_balance r") (auto simp: deduct_def dec_ops_fail dec_iffs split: sum.splits)
qed

lemma u32_checked_add_no_panic [simp]: "u32_checked_add a b \<noteq> Panics"
  by (simp add: u32_checked_add_def)

lemma check_limits_no_panic [simp]:
  "check_execution_cost_unit_limit n r \<noteq> Panics"
  "check_finalization_cost_unit_limit n r \<noteq> Panics"
  by (auto simp: check_execution_cost_unit_limit_def check_finalization_cost_unit_limit_def
      rbind_eq_Inl_iff u32_checked_add_def split: if_splits)

lemma ok_or_no_panic [simp]: "ok_or x e \<noteq> Panics"
  by (cases x) simp_all

lemma never_panics_read:
  assumes "\<And>s. P s \<Longrightarrow> f s \<noteq> Panics" and "\<And>s x. P s \<Longrightarrow> f s = Ok x \<Longrightarrow> snd (k x s) \<noteq> Panics"
  shows "never_panics P (mbind (mlift f) k)"
  unfolding never_panics_def
proof (intro allI impI)
  fix s assume "P s"
  then show "snd (mbind (mlift f) k s) \<noteq> Panics"
    using assms [of s] by (cases "f s") (auto simp: mbind_def)
qed

lemma internal_no_panic:
  "never_panics solvent (consume_execution_internal n)"
  "never_panics solvent (consume_finalization_internal n)"
proof -
  show "never_panics solvent (consume_execution_internal n)"
    unfolding consume_execution_internal_def mseq_def
  proof (rule never_panics_mbind)
    show "never_panics solvent (mbind (mlift (\<lambda>r. ok_or
        (mul_u32 (effective_execution_cost_unit_price r) n) FeeOverflow)) (\<lambda>amount. deduct amount
        (\<lambda>r. Ok (r\<lparr>execution_cost_units_committed := execution_cost_units_committed r + n\<rparr>))))"
      by (intro never_panics_read deduct_no_panic)
        (auto simp: ok_or_eq_Inr_iff mul_u32_iff solvent_def fee_inv_defs)
  qed (auto intro: never_panics_mlift keeps_mlift)
  show "never_panics solvent (consume_finalization_internal n)"
    unfolding consume_finalization_internal_def mseq_def
  proof (rule never_panics_mbind)
    show "never_panics solvent (mbind (mlift (\<lambda>r. ok_or
        (mul_u32 (effective_finalization_cost_unit_price r) n) FeeOverflow)) (\<lambda>amount. deduct amount
        (\<lambda>r. Ok (r\<lparr>finalization_cost_units_committed := finalization_cost_units_committed r + n\<rparr>))))"
      by (intro never_panics_read deduct_no_panic)
        (auto simp: ok_or_eq_Inr_iff mul_u32_iff solvent_def fee_inv_defs)
  qed (auto intro: never_panics_mlift keeps_mlift)
qed

lemma storage_no_panic: "never_panics solvent (consume_storage t sz)"
  unfolding consume_storage_def
proof (intro never_panics_read deduct_no_panic)
  fix r x
  assume r: "solvent r" and x: "ok_or (mul_usize (storage_price t r) sz) FeeOverflow = Ok x"
  show "0 \<le> x" using r x
    by (auto simp: ok_or_eq_Inr_iff mul_usize_iff storage_price_def solvent_def fee_inv_defs
        split: storage_type.splits)
  assume "x \<le> xrd_balance r"
  then have "is_decimal (storage_cost_committed r + x)"
    using \<open>0 \<le> x\<close> solvent_bounds [OF r] by (intro is_decimal_nonneg) auto
  then show "rbind (dec_add (storage_cost_committed (r\<lparr>xrd_balance := xrd_balance r - x\<rparr>)) x)
      (\<lambda>total. Ok (r\<lparr>xrd_balance := xrd_balance r - x, storage_cost_committed := total\<rparr>)) \<noteq> Panics"
    by (auto simp: rbind_eq_Inl_iff dec_ops_fail)
qed auto

lemma royalty_no_panic:
  assumes "\<not> royalty_is_negative amount"
  shows "never_panics solvent (consume_royalty_internal amount recipient)"
  unfolding consume_royalty_internal_def
proof (intro never_panics_read deduct_no_panic)
  fix r x
  assume r: "solvent r" and x: "royalty_in_xrd amount r = Ok x"
  show "0 \<le> x"
    using x r assms dec_checked_mul_nonneg
    by (cases amount) (auto simp: ok_or_eq_Inr_iff solvent_def fee_inv_defs)
  assume le: "x \<le> xrd_balance r"
  let ?entry = "im_get_or 0 (royalty_cost_breakdown r) recipient"
  have nn: "\<forall>p \<in> set (royalty_cost_breakdown r). 0 \<le> snd p"
    and total: "royalty_cost_committed r = sum_list (map snd (royalty_cost_breakdown r))"
    using r by (simp_all add: solvent_def fee_inv_defs)
  have "0 \<le> ?entry" "?entry \<le> royalty_cost_committed r"
    using im_get_or_nonneg [OF nn] breakdown_entry_le [OF nn] total by auto
  then have "is_decimal (?entry + x)" "is_decimal (royalty_cost_committed r + x)"
    using le \<open>0 \<le> x\<close> solvent_bounds [OF r] by (auto intro!: is_decimal_nonneg)
  then show "commit_royalty recipient x (r\<lparr>xrd_balance := xrd_balance r - x\<rparr>) \<noteq> Panics"
    by (auto simp: commit_royalty_def rbind_eq_Inl_iff dec_ops_fail)
next
  show "royalty_in_xrd amount r \<noteq> Panics" for r by (cases amount) auto
qed auto

text \<open>The methods keep a reserve solvent: only locking a fee adds to the funds.\<close>

lemma solvent_mono: "solvent r \<Longrightarrow> fee_inv r' \<Longrightarrow> funds r' \<le> funds r \<Longrightarrow> solvent r'"
  by (simp add: solvent_def)

lemma keeps_solvent:
  assumes "keeps fee_inv m" and "\<And>r. fee_inv r \<Longrightarrow> funds (fst (m r)) \<le> funds r"
  shows "keeps solvent m"
proof (rule keepsI)
  fix r r' res assume "solvent r" "m r = (r', res)" "res \<noteq> Panics"
  then show "solvent r'"
    using keepsD [OF assms(1), of r r' res] assms(2) [of r] by (auto simp: solvent_def)
qed

lemma deduct_funds:
  assumes "\<And>s s'. commit s = Ok s' \<Longrightarrow> funds s' = funds s"
  shows "funds (fst (deduct amount commit r)) = funds r"
proof -
  have b: "funds (r\<lparr>xrd_balance := b\<rparr>) = funds r" for b by (simp add: funds_def)
  show ?thesis by (auto simp: deduct_def b dest: assms split: sum.splits)
qed

lemma read_funds:
  assumes "\<And>x. funds (fst (k x r)) = funds r"
  shows "funds (fst (mbind (mlift f) k r)) = funds r"
  using assms by (cases "f r") (auto simp: mbind_def)

lemma consume_funds:
  "funds (fst (consume_execution_internal n r)) = funds r"
  "funds (fst (consume_finalization_internal n r)) = funds r"
  "funds (fst (consume_storage t sz r)) = funds r"
  "funds (fst (consume_royalty_internal amount recipient r)) = funds r"
  unfolding consume_execution_internal_def consume_finalization_internal_def consume_storage_def
    consume_royalty_internal_def mseq_def
  by (intro read_funds deduct_funds;
      auto simp: funds_def commit_royalty_def rbind_eq_Inr_iff)+

lemma keeps_solvent_consume:
  "keeps solvent (consume_execution_internal n)"
  "keeps solvent (consume_finalization_internal n)"
  "keeps solvent (consume_storage t sz)"
  by (intro keeps_solvent keeps_intros; simp add: consume_funds)+

lemma keeps_solvent_modify:
  "keeps solvent (mmodify (\<lambda>r. r\<lparr>execution_cost_units_deferred := n\<rparr>))"
  "keeps solvent (mmodify (\<lambda>r. r\<lparr>finalization_cost_units_deferred := n\<rparr>))"
  "keeps solvent (mmodify (\<lambda>r. r\<lparr>storage_cost_deferred := im_swap_remove t (storage_cost_deferred r)\<rparr>))"
  by (intro keeps_mmodify; simp add: solvent_def fee_inv_defs funds_def metered_costs_def)+

lemma storage_key_kept:
  assumes "repay_deferred_storage t r = (r', Inr u)" and "fee_inv r" and "t' \<noteq> t"
  shows "im_get (storage_cost_deferred r') t' = im_get (storage_cost_deferred r) t'"
  using repay_deferred_storage_Ok [OF assms(1)] assms(2,3)
  by (auto simp: fee_inv_def im_get_swap_remove)

lemma repay_deferred_storage_safe:
  assumes "solvent r" and "im_get (storage_cost_deferred r) t \<noteq> None"
    and "repay_deferred_storage t r = (r', res)"
  shows "res \<noteq> Panics" and "solvent r'"
proof -
  let ?body = "\<lambda>sz. mseq (consume_storage t sz)
     (mmodify (\<lambda>r. r\<lparr>storage_cost_deferred := im_swap_remove t (storage_cost_deferred r)\<rparr>))"
  obtain sz where "im_get (storage_cost_deferred r) t = Some sz" using assms(2) by blast
  then have run: "?body sz r = (r', res)"
    using assms(3) by (simp add: repay_deferred_storage_def mbind_def)
  have np: "never_panics solvent (?body sz)" and ks: "keeps solvent (?body sz)"
    by (intro never_panics_mseq keeps_mseq storage_no_panic keeps_solvent_consume
        keeps_solvent_modify never_panics_simps)+
  then show "res \<noteq> Panics" and "solvent r'"
    using never_panicsD [OF np assms(1) run] keepsD [OF ks assms(1) run] by auto
qed

lemma repay_storage_loop_safe:
  assumes "solvent r" and "distinct ts" and "set ts \<subseteq> dom (im_get (storage_cost_deferred r))"
    and "mforeach repay_deferred_storage ts r = (r', res)"
  shows "res \<noteq> Panics \<and> solvent r'"
  using assms
proof (induction ts arbitrary: r)
  case (Cons t ts)
  obtain r1 res1 where r1: "repay_deferred_storage t r = (r1, res1)" by force
  have safe: "res1 \<noteq> Panics" "solvent r1"
    using repay_deferred_storage_safe [OF Cons.prems(1) _ r1] Cons.prems(3) by auto
  show ?case
  proof (cases res1)
    case (Inl e)
    then show ?thesis using safe r1 Cons.prems(4) by auto
  next
    case (Inr u)
    have "im_get (storage_cost_deferred r1) t' = im_get (storage_cost_deferred r) t'" if "t' \<in> set ts" for t'
      using storage_key_kept [of t r r1 u t'] r1 Inr that Cons.prems(1,2) by (auto simp: solvent_def)
    then have "set ts \<subseteq> dom (im_get (storage_cost_deferred r1))"
      using Cons.prems(3) by (auto simp: subset_iff dom_def)
    then show ?thesis
      using Cons.IH [OF safe(2)] Cons.prems(2,4) r1 Inr by (simp add: mseq_def mbind_def)
  qed
qed auto

lemma repay_owed_no_panic: "never_panics solvent repay_owed"
proof -
  have min_bounds: "0 \<le> min (xrd_balance r) (xrd_owed r)" if "solvent r" for r
    using solvent_bounds(1,2) [OF that] by simp
  have "is_decimal (xrd_owed r - min (xrd_balance r) (xrd_owed r))"
    "is_decimal (xrd_balance r - min (xrd_balance r) (xrd_owed r))" if "solvent r" for r
    using solvent_bounds [OF that] min_bounds [OF that] by (auto intro!: is_decimal_nonneg)
  then show ?thesis
    unfolding repay_owed_def
    by (intro never_panics_read) (auto simp: dec_ops_fail mbind_def dec_sub_def dec_checked_sub_def
        i_checked_ops split: if_splits)
qed

lemma repay_all_no_panic: "never_panics solvent repay_all"
proof -
  have loop: "never_panics solvent (\<lambda>r. mforeach repay_deferred_storage (map fst (storage_cost_deferred r)) r)"
    and loop_keeps: "keeps solvent (\<lambda>r. mforeach repay_deferred_storage (map fst (storage_cost_deferred r)) r)"
  proof -
    have "res \<noteq> Panics \<and> solvent r'"
      if "solvent r" "mforeach repay_deferred_storage (map fst (storage_cost_deferred r)) r = (r', res)"
      for r r' res
      by (rule repay_storage_loop_safe [OF that(1) _ _ that(2)])
        (use that(1) in \<open>simp_all add: solvent_def fee_inv_def dom_map_of_conv_image_fst\<close>)
    then show "never_panics solvent (\<lambda>r. mforeach repay_deferred_storage (map fst (storage_cost_deferred r)) r)"
      and "keeps solvent (\<lambda>r. mforeach repay_deferred_storage (map fst (storage_cost_deferred r)) r)"
      by (auto intro: never_panicsI keepsI)
  qed
  show ?thesis
    unfolding repay_all_def
    by (intro never_panics_mseq loop loop_keeps repay_owed_no_panic keeps_solvent_modify
        never_panics_simps never_panics_arg [OF internal_no_panic(1)] keeps_arg [OF keeps_solvent_consume(1)]
        never_panics_arg [OF internal_no_panic(2)] keeps_arg [OF keeps_solvent_consume(2)])
qed

lemma run_fee_op_no_panic:
  assumes "solvent r" and "fee_op_ok op" and "op_royalty_ok op" and "funds r + op_funds op \<le> dec_max"
  shows "snd (run_fee_op op r) \<noteq> Panics"
proof (cases op)
  case (ConsumeExecution n)
  have "never_panics solvent (consume_execution n)"
    unfolding consume_execution_def
    by (auto intro!: never_panics_mseq never_panics_if [OF repay_all_no_panic never_panics_simps(1)]
        internal_no_panic keeps_solvent_consume simp del: mreturn_apply)
  then show ?thesis using assms(1) ConsumeExecution by (simp add: never_panics_def)
next
  case (ConsumeFinalization n)
  then show ?thesis using assms(1) internal_no_panic(2) [of n]
    by (simp add: consume_finalization_def never_panics_def)
next
  case (ConsumeRoyalty amount recipient)
  then show ?thesis using assms(1,3) royalty_no_panic [of amount recipient]
    by (simp add: consume_royalty_def never_panics_def)
next
  case (ConsumeStorage t sz)
  then show ?thesis using assms(1) storage_no_panic [of t sz] by (simp add: never_panics_def)
next
  case (LockFee vault fee contingent)
  have "is_decimal (xrd_balance r + fee)" if "\<not> contingent"
    using assms solvent_bounds(1,8) [OF assms(1)] LockFee that by (intro is_decimal_nonneg) auto
  then show ?thesis using LockFee
    by (auto simp: lock_fee_def mseq_def mbind_def dec_checked_add_def i_checked_ops)
next
  case RepayAll
  then show ?thesis using assms(1) repay_all_no_panic by (simp add: never_panics_def)
next
  case RevertRoyalty
  have "is_decimal (xrd_balance r + royalty_cost_committed r)"
    using solvent_bounds [OF assms(1)] by (intro is_decimal_nonneg) auto
  then show ?thesis using RevertRoyalty
    by (auto simp: revert_royalty_def dec_ops_fail split: sum.splits)
qed (auto simp: consume_deferred_execution_def consume_deferred_finalization_def
    consume_deferred_storage_def mbind_def split: sum.splits)


section \<open>Properties\<close>

text \<open>A concrete reserve: genesis prices, no tip, a fee of one XRD locked.\<close>

definition genesis_reserve :: fee_reserve where
  "genesis_reserve = \<lparr>costing_params = babylon_genesis, tx_costing_params = no_tip_no_credit,
     abort_when_loan_repaid = False,
     effective_execution_cost_unit_price = 50000000000,
     effective_finalization_cost_unit_price = 50000000000,
     xrd_balance = 200000000000000000, xrd_owed = 200000000000000000,
     execution_cost_units_committed = 0, execution_cost_units_deferred = 0,
     finalization_cost_units_committed = 0, finalization_cost_units_deferred = 0,
     royalty_cost_committed = 0, royalty_cost_breakdown = [],
     storage_cost_committed = 0, storage_cost_deferred = [], locked_fees = []\<rparr>"

lemma mul_u32_eval: "\<bar>a * uint n\<bar> < 2 ^ 191 \<Longrightarrow> mul_u32 a n = Some (a * uint n)"
  by (simp add: mul_u32_iff)

lemma mul_usize_eval: "\<bar>a * uint n\<bar> < 2 ^ 191 \<Longrightarrow> mul_usize a n = Some (a * uint n)"
  by (simp add: mul_usize_iff)

lemma genesis_new: "new_fee_reserve babylon_genesis no_tip_no_credit False = Ok genesis_reserve"
proof -
  have "dec_checked_mul 50000000000 dec_one = Some 50000000000"
    by (simp add: dec_checked_mul_iff dec_one_def signed_divide_int_def)
  then show ?thesis
    by (simp add: new_fee_reserve_def babylon_genesis_def no_tip_no_credit_def genesis_reserve_def
        fee_multiplier_def dec_add_def dec_checked_add_def i_checked_ops mul_u32_eval range_simps
        dec_one_def)
qed

lemma genesis_init: "fee_init genesis_reserve"
  using genesis_new by (auto simp: fee_init_def)

definition funded_reserve :: fee_reserve where
  "funded_reserve = fst (lock_fee ''vault'' dec_one False genesis_reserve)"

lemma funded_reserve_eq:
  "funded_reserve = genesis_reserve\<lparr>xrd_balance := 1200000000000000000,
     locked_fees := [(''vault'', 1000000000000000000, False)]\<rparr>"
  by (simp add: funded_reserve_def lock_fee_def genesis_reserve_def mseq_def mbind_def
      dec_checked_add_def i_checked_ops range_simps dec_one_def)

lemma funded_run: "run_fee_op (LockFee ''vault'' dec_one False) genesis_reserve = (funded_reserve, Ok ())"
  by (simp add: funded_reserve_def lock_fee_def genesis_reserve_def mseq_def mbind_def
      dec_checked_add_def i_checked_ops range_simps dec_one_def)

lemma funded_reachable: "fee_reachable funded_reserve"
proof -
  have "fee_step genesis_reserve funded_reserve"
    by (rule fee_call [OF _ funded_run]) (simp_all add: dec_one_def)
  then show ?thesis using reach_step reach_init genesis_init by metis
qed

text \<open>
  C3. In every state of the fee reserve that any sequence of its calls reaches (failing calls
  included), money is conserved: the balance plus everything charged (execution and
  finalization at their tipped prices, royalties, storage) equals the free credit plus the
  non-contingent locked fees plus the part of the system loan not yet repaid; balance and debt
  are never negative, and the royalty total is the sum of its breakdown.
\<close>

theorem fee_reserve_conserves:
  assumes "fee_reachable r"
  shows "xrd_balance r + metered_costs r =
      xrd_owed r + free_credit_in_xrd (tx_costing_params r) + locked_total (locked_fees r) \<and>
    0 \<le> xrd_balance r \<and> 0 \<le> xrd_owed r \<and>
    royalty_cost_committed r = sum_list (map snd (royalty_cost_breakdown r))"
  using fee.reach_inv [OF assms] by (simp add: fee_inv_defs)

theorem fee_reserve_conserves_witness:
  "fee_reachable funded_reserve \<and>
   xrd_balance funded_reserve + metered_costs funded_reserve = 1200000000000000000"
  using fee_reserve_conserves [OF funded_reachable] funded_reachable
  by (simp add: funded_reserve_eq genesis_reserve_def no_tip_no_credit_def locked_total_def)

text \<open>
  C11. No sequence of calls, successful or failing, gets the committed execution or
  finalization cost units above the limits of the costing parameters.
\<close>

theorem fee_reserve_limits:
  assumes "fee_reachable r"
  shows "execution_cost_units_committed r \<le> execution_cost_unit_limit (costing_params r) \<and>
    finalization_cost_units_committed r \<le> finalization_cost_unit_limit (costing_params r)"
  using fee.reach_inv [OF assms] by (simp add: fee_inv_defs)

theorem fee_reserve_limits_witness:
  "fee_reachable funded_reserve \<and> execution_cost_units_committed funded_reserve \<le> 100000000"
  using fee_reserve_limits [OF funded_reachable] funded_reachable
  by (simp add: funded_reserve_eq genesis_reserve_def babylon_genesis_def)

text \<open>
  C8. A transaction runs on the system's loan only below the loaned cost units: in every state
  reached by successful calls, either the loan is fully repaid or fewer execution cost units
  than loaned have been committed.
\<close>

theorem loan_repaid_before_gate:
  assumes "reach fee_init fee_ok_step r"
  shows "fully_repaid r \<or> execution_cost_units_committed r < execution_cost_unit_loan (costing_params r)"
  using gate.reach_inv [OF assms] by (simp add: loan_gate_def)

theorem loan_repaid_before_gate_witness:
  "reach fee_init fee_ok_step funded_reserve \<and> \<not> fully_repaid funded_reserve \<and>
   execution_cost_units_committed funded_reserve < 4000000"
proof -
  have r: "reach fee_init fee_ok_step funded_reserve"
    using reach_step reach_init genesis_init fee_ok_call [OF funded_run] by metis
  then show ?thesis using loan_repaid_before_gate [OF r]
    by (simp add: funded_reserve_eq genesis_reserve_def babylon_genesis_def fully_repaid_def)
qed

text \<open>
  C9. A successful \<open>repay_all\<close> settles everything: the debt is zero, nothing is deferred any
  more, the deferred cost units and storage have become committed ones, and the balance has
  paid exactly for the deferred costs and the debt. It fails when the reserve is configured
  to abort on repayment.
\<close>

theorem repay_all_settles:
  assumes "fee_reachable r" and "repay_all r = (r', Ok ())"
  shows "r' = r\<lparr>
      xrd_owed := 0,
      xrd_balance := xrd_balance r - deferred_costs r - xrd_owed r,
      execution_cost_units_committed := execution_cost_units_committed r + execution_cost_units_deferred r,
      execution_cost_units_deferred := 0,
      finalization_cost_units_committed :=
        finalization_cost_units_committed r + finalization_cost_units_deferred r,
      finalization_cost_units_deferred := 0,
      storage_cost_committed := storage_cost_committed r + deferred_storage_cost r,
      storage_cost_deferred := []\<rparr> \<and> \<not> abort_when_loan_repaid r"
  using repay_all_Ok [OF assms(2)] fee.reach_inv [OF assms(1)] by (simp add: fee_inv_def)

lemma funded_repay_all: "\<exists>r'. repay_all funded_reserve = (r', Ok ())"
  by (simp add: repay_all_def consume_execution_internal_def consume_finalization_internal_def
      mseq_def mbind_def check_execution_cost_unit_limit_def check_finalization_cost_unit_limit_def
      u32_checked_add_def funded_reserve_eq genesis_reserve_def babylon_genesis_def mul_u32_eval
      deduct_def dec_sub_def dec_checked_sub_def i_checked_ops range_simps repay_owed_def)

theorem repay_all_settles_witness:
  "\<exists>r'. repay_all funded_reserve = (r', Ok ()) \<and> xrd_owed r' = 0 \<and> xrd_balance r' = 1000000000000000000"
proof -
  obtain r' where r': "repay_all funded_reserve = (r', Ok ())" using funded_repay_all by blast
  then show ?thesis using repay_all_settles [OF funded_reachable r']
    by (simp add: funded_reserve_eq genesis_reserve_def deferred_costs_def deferred_storage_cost_def)
qed

text \<open>
  C10. In a reachable state no call of the reserve panics as long as the funds in it (loan,
  free credit and locked fees, with the fee the call locks) fit a Decimal and no negative
  royalty is charged: every unchecked \<open>+=\<close> and \<open>-=\<close>, every \<open>unwrap\<close> of the repayment loop is safe.
\<close>

theorem fee_reserve_no_panic:
  assumes "fee_reachable r" and "fee_op_ok op" and "op_royalty_ok op"
    and "funds r \<le> dec_max" and "funds r + op_funds op \<le> dec_max"
  shows "snd (run_fee_op op r) \<noteq> Panics"
  using run_fee_op_no_panic assms fee.reach_inv [OF assms(1)] by (simp add: solvent_def)

theorem fee_reserve_no_panic_witness:
  "snd (run_fee_op (ConsumeRoyalty (Usd dec_one) (PackageRecipient ''p'' ''v'')) funded_reserve) \<noteq> Panics"
  by (rule fee_reserve_no_panic [OF funded_reachable])
    (simp_all add: dec_one_def funds_def funded_reserve_eq genesis_reserve_def no_tip_no_credit_def
      locked_total_def dec_max_def range_simps)

end
