(* ===== verification/Fee_Settlement.thy ===== *)
theory Fee_Settlement
  imports Fee_Metering Resource
begin

text \<open>
  Settling the fees of a committed transaction: \<^verbatim>\<open>finalize\<close> of the fee reserve, the shares of
  \<^verbatim>\<open>fee_summary.rs\<close>, and \<^verbatim>\<open>finalize_fees_for_commit\<close> of \<^verbatim>\<open>system_callback.rs\<close>, which pays the
  royalties, collects the cost from the locked fees (last lock first), refunds the rest, and
  rewards the proposer and the validator set. The main results: for a repaid reserve none of its
  sanity checks can fail, and XRD is conserved up to the part that is burnt.
\<close>


section \<open>Finalization summary\<close>

record fee_summary =
  total_execution_cost_units_consumed :: u32
  total_finalization_cost_units_consumed :: u32
  total_execution_cost_in_xrd :: decimal
  total_finalization_cost_in_xrd :: decimal
  total_tipping_cost_in_xrd :: decimal
  total_storage_cost_in_xrd :: decimal
  total_royalty_cost_in_xrd :: decimal
  total_bad_debt_in_xrd :: decimal
  summary_locked_fees :: "(node_id \<times> decimal \<times> bool) list"
  summary_royalty_breakdown :: "(royalty_recipient \<times> decimal) list"

definition finalize :: "fee_reserve \<Rightarrow> (unit, fee_summary) res" where
  "finalize r =
     rbind (expect (mul_u32 (execution_cost_unit_price (costing_params r))
       (execution_cost_units_committed r))) (\<lambda>exec_cost.
     rbind (expect (mul_u32 (finalization_cost_unit_price (costing_params r))
       (finalization_cost_units_committed r))) (\<lambda>fin_cost.
     rbind (expect (dec_checked_mul exec_cost (tip_proportion (tip (tx_costing_params r))))) (\<lambda>exec_tip.
     rbind (expect (dec_checked_mul fin_cost (tip_proportion (tip (tx_costing_params r))))) (\<lambda>fin_tip.
     rbind (expect (dec_checked_add exec_tip fin_tip)) (\<lambda>tipping.
     Ok \<lparr>total_execution_cost_units_consumed = execution_cost_units_committed r,
         total_finalization_cost_units_consumed = finalization_cost_units_committed r,
         total_execution_cost_in_xrd = exec_cost,
         total_finalization_cost_in_xrd = fin_cost,
         total_tipping_cost_in_xrd = tipping,
         total_storage_cost_in_xrd = storage_cost_committed r,
         total_royalty_cost_in_xrd = royalty_cost_committed r,
         total_bad_debt_in_xrd = xrd_owed r,
         summary_locked_fees = locked_fees r,
         summary_royalty_breakdown = royalty_cost_breakdown r\<rparr>)))))"

definition loan_fully_repaid :: "fee_summary \<Rightarrow> bool" where
  "loan_fully_repaid s \<longleftrightarrow> total_bad_debt_in_xrd s = 0"

definition total_cost :: "fee_summary \<Rightarrow> (unit, decimal) res" where
  "total_cost s =
     rbind (expect (dec_checked_add (total_execution_cost_in_xrd s) (total_finalization_cost_in_xrd s))) (\<lambda>x.
     rbind (expect (dec_checked_add x (total_tipping_cost_in_xrd s))) (\<lambda>x.
     rbind (expect (dec_checked_add x (total_storage_cost_in_xrd s))) (\<lambda>x.
     expect (dec_checked_add x (total_royalty_cost_in_xrd s)))))"

definition network_fees :: "fee_summary \<Rightarrow> (unit, decimal) res" where
  "network_fees s =
     rbind (expect (dec_checked_add (total_execution_cost_in_xrd s) (total_finalization_cost_in_xrd s))) (\<lambda>x.
     expect (dec_checked_add x (total_storage_cost_in_xrd s)))"

definition TIPS_PROPOSER_SHARE_PERCENTAGE :: int where "TIPS_PROPOSER_SHARE_PERCENTAGE = 100"
definition TIPS_VALIDATOR_SET_SHARE_PERCENTAGE :: int where "TIPS_VALIDATOR_SET_SHARE_PERCENTAGE = 0"
definition NETWORK_FEES_PROPOSER_SHARE_PERCENTAGE :: int where "NETWORK_FEES_PROPOSER_SHARE_PERCENTAGE = 25"
definition NETWORK_FEES_VALIDATOR_SET_SHARE_PERCENTAGE :: int where
  "NETWORK_FEES_VALIDATOR_SET_SHARE_PERCENTAGE = 25"

definition one_percent :: decimal where
  "one_percent = 10 ^ 16"

text \<open>The share of the proposer and that of the validator set differ only in their percentages.\<close>

definition share_amount :: "int \<Rightarrow> int \<Rightarrow> fee_summary \<Rightarrow> (unit, decimal) res" where
  "share_amount tips_percentage fees_percentage s =
     rbind (expect (dec_checked_mul one_percent (dec_from_int tips_percentage))) (\<lambda>tip_share.
     rbind (expect (dec_checked_mul (total_tipping_cost_in_xrd s) tip_share)) (\<lambda>from_tips.
     rbind (network_fees s) (\<lambda>fees.
     rbind (expect (dec_checked_mul one_percent (dec_from_int fees_percentage))) (\<lambda>fee_share.
     rbind (expect (dec_checked_mul fees fee_share)) (\<lambda>from_fees.
     expect (dec_checked_add from_tips from_fees))))))"

definition to_proposer_amount :: "fee_summary \<Rightarrow> (unit, decimal) res" where
  "to_proposer_amount =
     share_amount TIPS_PROPOSER_SHARE_PERCENTAGE NETWORK_FEES_PROPOSER_SHARE_PERCENTAGE"

definition to_validator_set_amount :: "fee_summary \<Rightarrow> (unit, decimal) res" where
  "to_validator_set_amount =
     share_amount TIPS_VALIDATOR_SET_SHARE_PERCENTAGE NETWORK_FEES_VALIDATOR_SET_SHARE_PERCENTAGE"

definition to_burn_amount :: "fee_summary \<Rightarrow> (unit, decimal) res" where
  "to_burn_amount s =
     rbind (network_fees s) (\<lambda>fees.
     rbind (expect (dec_checked_add (total_tipping_cost_in_xrd s) fees)) (\<lambda>x.
     rbind (to_proposer_amount s) (\<lambda>to_proposer.
     rbind (expect (dec_checked_sub x to_proposer)) (\<lambda>x.
     rbind (to_validator_set_amount s) (\<lambda>to_validator_set.
     expect (dec_checked_sub x to_validator_set))))))"


section \<open>Settlement\<close>

definition unwrap :: "('f, 'a) res \<Rightarrow> ('e, 'a) res" where
  "unwrap r = (case r of Inl _ \<Rightarrow> Panics | Inr x \<Rightarrow> Ok x)"

text \<open>
  The part of the substate store the settlement touches: the balances of the XRD vaults, and the
  consensus manager's leader and reward books.
\<close>

datatype fee_event =
    RoyaltyDeposit node_id decimal
  | PayFee node_id decimal
  | RewardDeposit node_id decimal
  | BurnFees decimal

record fee_store =
  balances :: "(node_id \<times> liquid_fungible) list"
  current_leader :: "nat option"
  proposer_rewards :: "(nat \<times> decimal) list"
  rewards_vault :: node_id
  fee_events :: "fee_event list"

definition put_vault :: "node_id \<Rightarrow> decimal \<Rightarrow> fee_store \<Rightarrow> (unit, fee_store) res" where
  "put_vault v amount st =
     rbind (expect (im_get (balances st) v)) (\<lambda>balance.
     rbind (liquid_put amount balance) (\<lambda>balance'.
     Ok (st\<lparr>balances := im_insert v balance' (balances st)\<rparr>)))"

definition push_event :: "fee_event \<Rightarrow> fee_store \<Rightarrow> fee_store" where
  "push_event e st = st\<lparr>fee_events := fee_events st @ [e]\<rparr>"

primrec distribute_royalty ::
    "(royalty_recipient \<times> decimal) list \<Rightarrow> fee_store \<Rightarrow> (unit, fee_store) res" where
  "distribute_royalty [] st = Ok st"
| "distribute_royalty (x # xs) st =
     rbind (put_vault (vault_id (fst x)) (snd x) st) (\<lambda>st'.
     distribute_royalty xs (push_event (RoyaltyDeposit (vault_id (fst x)) (snd x)) st'))"

record fee_collection =
  store :: fee_store
  required :: decimal
  collected :: liquid_fungible
  fee_payments :: "(node_id \<times> decimal) list"

definition take_payment ::
    "bool \<Rightarrow> node_id \<times> decimal \<times> bool \<Rightarrow> fee_collection \<Rightarrow> (unit, fee_collection) res" where
  "take_payment is_success x c =
     (case x of (v, locked, contingent) \<Rightarrow>
      let amount = (if contingent \<and> \<not> is_success then 0 else min locked (required c)) in
      rbind (unwrap (liquid_take_by_amount amount locked)) (\<lambda>(taken, left).
      rbind (liquid_put taken (collected c)) (\<lambda>collected'.
      rbind (expect (dec_checked_sub (required c) amount)) (\<lambda>required'.
      rbind (put_vault v left (store c)) (\<lambda>store'.
      rbind (expect (dec_checked_add (im_get_or 0 (fee_payments c) v) amount)) (\<lambda>payment.
      Ok \<lparr>store = push_event (PayFee v amount) store',
          required = required',
          collected = collected',
          fee_payments = im_insert v payment (fee_payments c)\<rparr>))))))"

fun take_payments ::
    "bool \<Rightarrow> (node_id \<times> decimal \<times> bool) list \<Rightarrow> fee_collection \<Rightarrow> (unit, fee_collection) res" where
  "take_payments is_success [] c = Ok c"
| "take_payments is_success (x # xs) c =
     rbind (take_payment is_success x c) (\<lambda>c'. take_payments is_success xs c')"

definition use_free_credit :: "decimal \<Rightarrow> fee_collection \<Rightarrow> (unit, fee_collection) res" where
  "use_free_credit free_credit c =
     (if free_credit > 0
      then let amount = min free_credit (required c) in
        rbind (liquid_put amount (collected c)) (\<lambda>collected'.
        rbind (expect (dec_checked_sub (required c) amount)) (\<lambda>required'.
        Ok (c\<lparr>collected := collected', required := required'\<rparr>)))
      else Ok c)"

text \<open>Rewards go to the leader's book (or only to the pool when there is none) and the rewards vault.\<close>

definition reward :: "decimal \<Rightarrow> decimal \<Rightarrow> fee_collection \<Rightarrow> (unit, fee_collection) res" where
  "reward to_proposer to_validator_set c =
     (if to_proposer = 0 \<and> to_validator_set = 0 then Ok c
      else
        rbind (case current_leader (store c) of
            None \<Rightarrow> Ok (store c)
          | Some leader \<Rightarrow>
              rbind (expect (dec_checked_add (im_get_or 0 (proposer_rewards (store c)) leader) to_proposer))
                (\<lambda>entry. Ok ((store c)\<lparr>proposer_rewards := im_insert leader entry (proposer_rewards (store c))\<rparr>)))
          (\<lambda>st.
        rbind (expect (dec_checked_add to_proposer to_validator_set)) (\<lambda>total_amount.
        rbind (unwrap (liquid_take_by_amount total_amount (collected c))) (\<lambda>(taken, left).
        rbind (put_vault (rewards_vault st) taken st) (\<lambda>st'.
        Ok (c\<lparr>store := push_event (RewardDeposit (rewards_vault st) total_amount) st', collected := left\<rparr>))))))"

definition finalize_fees_for_commit ::
    "fee_store \<Rightarrow> fee_reserve \<Rightarrow> bool \<Rightarrow> (unit, fee_summary \<times> fee_collection) res" where
  "finalize_fees_for_commit st r is_success =
     rbind (distribute_royalty (royalty_cost_breakdown r) st) (\<lambda>st.
     rbind (finalize r) (\<lambda>s.
     rbind (total_cost s) (\<lambda>required.
     rbind (take_payments is_success (rev (summary_locked_fees s))
       \<lparr>store = st, required = required, collected = 0, fee_payments = []\<rparr>) (\<lambda>c.
     rbind (use_free_credit (free_credit_in_xrd (tx_costing_params r)) c) (\<lambda>c.
     rbind (to_proposer_amount s) (\<lambda>to_proposer.
     rbind (to_validator_set_amount s) (\<lambda>to_validator_set.
     rbind (to_burn_amount s) (\<lambda>to_burn.
     rbind (assert_that (total_bad_debt_in_xrd s = 0)) (\<lambda>_.
     rbind (assert_that (fee_collection.required c = 0)) (\<lambda>_.
     rbind (expect (dec_checked_sub (collected c) (total_royalty_cost_in_xrd s))) (\<lambda>remaining.
     rbind (expect (dec_checked_add to_proposer to_validator_set)) (\<lambda>x.
     rbind (expect (dec_checked_add x to_burn)) (\<lambda>to_distribute.
     rbind (assert_that (remaining = to_distribute)) (\<lambda>_.
     rbind (reward to_proposer to_validator_set c) (\<lambda>c.
     Ok (s, if to_burn > 0 then c\<lparr>store := push_event (BurnFees to_burn) (store c)\<rparr> else c))))))))))))))))"

section \<open>Prices and tips\<close>

text \<open>The parameters of a reserve never change; the effective prices stay the tipped ones.\<close>

definition static_part where
  "static_part r = (costing_params r, tx_costing_params r, effective_execution_cost_unit_price r,
     effective_finalization_cost_unit_price r)"

lemma static_updates [simp]:
  "static_part (r\<lparr>xrd_balance := b\<rparr>) = static_part r"
  "static_part (r\<lparr>execution_cost_units_deferred := n\<rparr>) = static_part r"
  "static_part (r\<lparr>finalization_cost_units_deferred := n\<rparr>) = static_part r"
  "static_part (r\<lparr>storage_cost_deferred := sd\<rparr>) = static_part r"
  "static_part (r\<lparr>locked_fees := lf\<rparr>) = static_part r"
  by (simp_all add: static_part_def)

lemma static_deduct:
  assumes "\<And>s s'. commit s = Ok s' \<Longrightarrow> static_part s' = static_part s"
  shows "static_part (fst (deduct amount commit r)) = static_part r"
proof -
  have b: "static_part (r\<lparr>xrd_balance := b\<rparr>) = static_part r" for b by (simp add: static_part_def)
  show ?thesis by (auto simp: deduct_def b dest: assms split: sum.splits)
qed

lemma static_read:
  assumes "\<And>x. static_part (fst (k x r)) = static_part r"
  shows "static_part (fst (mbind (mlift f) k r)) = static_part r"
  using assms by (cases "f r") (auto simp: mbind_def)

lemma static_consume:
  "static_part (fst (consume_execution_internal n r)) = static_part r"
  "static_part (fst (consume_finalization_internal n r)) = static_part r"
  "static_part (fst (consume_storage t sz r)) = static_part r"
  "static_part (fst (consume_royalty_internal amount recipient r)) = static_part r"
  unfolding consume_execution_internal_def consume_finalization_internal_def consume_storage_def
    consume_royalty_internal_def mseq_def
  by (intro static_read static_deduct; auto simp: static_part_def commit_royalty_def rbind_eq_Inr_iff)+

lemma keeps_static_consume:
  "keeps (\<lambda>r. static_part r = S) (consume_execution_internal n)"
  "keeps (\<lambda>r. static_part r = S) (consume_finalization_internal n)"
  "keeps (\<lambda>r. static_part r = S) (consume_storage t sz)"
  "keeps (\<lambda>r. static_part r = S) (consume_royalty_internal amount recipient)"
  by (simp_all add: keeps_def static_consume)

lemma keeps_static_repay_all: "keeps (\<lambda>r. static_part r = S) repay_all"
proof -
  have "keeps (\<lambda>r. static_part r = S) (repay_deferred_storage t)" for t
    unfolding repay_deferred_storage_def
    by (intro keeps_intros keeps_mmodify keeps_static_consume) (simp add: static_part_def)
  moreover have "keeps (\<lambda>r. static_part r = S) repay_owed"
    unfolding repay_owed_def by (intro keeps_intros keeps_mmodify) (simp add: static_part_def)
  ultimately show ?thesis
    unfolding repay_all_def
    by (intro keeps_mseq keeps_mmodify keeps_arg [OF keeps_static_consume(1)]
        keeps_arg [OF keeps_static_consume(2)] keeps_arg [OF keeps_mforeach]) (auto simp: static_part_def)
qed

lemma keeps_static: "keeps (\<lambda>r. static_part r = S) (run_fee_op op)"
proof (cases op)
  case (ConsumeExecution n)
  then show ?thesis
    by (auto simp: consume_execution_def simp del: mreturn_apply
        intro!: keeps_intros keeps_static_consume keeps_static_repay_all)
next
  case (ConsumeRoyalty amount recipient)
  then show ?thesis
    by (auto simp: consume_royalty_def intro!: keeps_intros keeps_static_consume)
next
  case (LockFee vault fee contingent)
  then show ?thesis
    by (auto simp: lock_fee_def intro!: keeps_intros keeps_mmodify)
next
  case RevertRoyalty
  then show ?thesis
    by (auto simp: keeps_def revert_royalty_def static_part_def split: sum.splits)
qed (auto simp: consume_finalization_def consume_deferred_execution_def consume_deferred_finalization_def
    consume_deferred_storage_def
    intro!: keeps_intros keeps_mmodify keeps_static_consume keeps_static_repay_all)

definition priced :: "fee_reserve \<Rightarrow> bool" where
  "priced r \<longleftrightarrow>
     0 \<le> execution_cost_unit_price (costing_params r) \<and>
     0 \<le> finalization_cost_unit_price (costing_params r) \<and>
     effective_execution_cost_unit_price r =
       (execution_cost_unit_price (costing_params r) *
         (dec_one + tip_proportion (tip (tx_costing_params r)))) sdiv 10 ^ 18 \<and>
     effective_finalization_cost_unit_price r =
       (finalization_cost_unit_price (costing_params r) *
         (dec_one + tip_proportion (tip (tx_costing_params r)))) sdiv 10 ^ 18"

lemma priced_static: "static_part r = static_part r' \<Longrightarrow> priced r = priced r'"
  by (simp add: priced_def static_part_def)

interpretation prices: invariant_of fee_init fee_step priced
proof
  show "priced r" if init: "fee_init r" for r
  proof -
    obtain cp tcp abort where "new_fee_reserve cp tcp abort = Ok r" using init by (auto simp: fee_init_def)
    then show ?thesis
      by (auto simp: new_fee_reserve_def res_iffs fee_multiplier_def dec_iffs dec_checked_mul_iff priced_def)
  qed
  show "priced r'" if "priced r" "fee_step r r'" for r r'
    using that(2)
  proof (cases rule: fee_step.cases)
    case (fee_call op res)
    then have "static_part r' = static_part r" using keepsD [OF keeps_static] by blast
    then show ?thesis using that(1) priced_static by blast
  qed
qed

text \<open>Tips are exact when the prices are multiples of \<open>10 ^ 4\<close> attos, as the protocol's are.\<close>

definition exact_prices :: "costing_parameters \<Rightarrow> bool" where
  "exact_prices cp \<longleftrightarrow>
     10 ^ 4 dvd execution_cost_unit_price cp \<and> 10 ^ 4 dvd finalization_cost_unit_price cp"

lemma tip_proportion_dvd: "10 ^ 14 dvd tip_proportion t"
proof (cases t)
  case (Percentage p)
  have "uint p * 10 ^ 16 = 10 ^ 14 * (100 * uint p)" by simp
  then show ?thesis unfolding Percentage tip_proportion.simps by (metis dvd_triv_left)
qed simp_all

lemma tip_proportion_nonneg: "0 \<le> tip_proportion t"
  by (cases t) simp_all

lemma sdiv_exact: "(10 ^ 18 * x :: int) sdiv 10 ^ 18 = x"
  using dec.mult_sdiv_cancel [of "10 ^ 18" x] by (simp add: mult.commute)

lemma exact_tip:
  fixes price p n :: int
  assumes "10 ^ 4 dvd price" and "10 ^ 14 dvd p"
  shows "\<exists>t. price * p = 10 ^ 18 * t \<and> (price * n * p) sdiv 10 ^ 18 = t * n \<and>
    (price * (10 ^ 18 + p)) sdiv 10 ^ 18 = price + t"
proof -
  obtain a b where a: "price = 10 ^ 4 * a" and b: "p = 10 ^ 14 * b" using assms by (auto elim!: dvdE)
  have 1: "price * p = 10 ^ 18 * (a * b)" by (simp add: a b)
  have 2: "price * n * p = 10 ^ 18 * (a * b * n)" by (simp add: a b)
  have 3: "price * (10 ^ 18 + p) = 10 ^ 18 * (price + a * b)" using 1 by (simp add: algebra_simps)
  show ?thesis unfolding 2 3 sdiv_exact using 1 by blast
qed

section \<open>The summary of a repaid reserve\<close>


lemma small_nonneg: "0 \<le> x \<Longrightarrow> x \<le> dec_max \<Longrightarrow> \<bar>x\<bar> < 2 ^ 191"
  by (simp add: dec_max_def range_simps)

lemma mul_Some:
  "(x * y) sdiv 10 ^ 18 = v \<Longrightarrow> 0 \<le> v \<Longrightarrow> v \<le> dec_max \<Longrightarrow> dec_checked_mul x y = Some v"
  using small_nonneg [of v] by (simp only: dec_checked_mul_iff)

lemma add_Some: "0 \<le> x \<Longrightarrow> 0 \<le> y \<Longrightarrow> x + y \<le> dec_max \<Longrightarrow> dec_checked_add x y = Some (x + y)"
  by (simp add: dec_checked_add_iff is_decimal_nonneg)

lemma sub_Some: "0 \<le> y \<Longrightarrow> y \<le> x \<Longrightarrow> x \<le> dec_max \<Longrightarrow> dec_checked_sub x y = Some (x - y)"
  by (simp add: dec_checked_sub_iff is_decimal_nonneg)

text \<open>What the summary says of the reserve: the parts add up to the metered costs.\<close>

definition summary_of :: "fee_reserve \<Rightarrow> fee_summary \<Rightarrow> bool" where
  "summary_of r s \<longleftrightarrow>
     0 \<le> total_execution_cost_in_xrd s \<and> 0 \<le> total_finalization_cost_in_xrd s \<and>
     0 \<le> total_tipping_cost_in_xrd s \<and> 0 \<le> total_storage_cost_in_xrd s \<and>
     total_royalty_cost_in_xrd s = royalty_cost_committed r \<and>
     total_bad_debt_in_xrd s = xrd_owed r \<and> summary_locked_fees s = locked_fees r \<and>
     total_execution_cost_in_xrd s + total_finalization_cost_in_xrd s + total_tipping_cost_in_xrd s +
       total_storage_cost_in_xrd s + total_royalty_cost_in_xrd s = metered_costs r"

lemma tipped_cost:
  fixes price n p m :: int
  assumes "10 ^ 4 dvd price" and "10 ^ 14 dvd p" and "0 \<le> price" and "0 \<le> n" and "0 \<le> p"
    and eff: "eff = (price * (dec_one + p)) sdiv 10 ^ 18" and bound: "eff * n \<le> dec_max"
  shows "\<exists>t. 0 \<le> t \<and> eff * n = price * n + t \<and> dec_checked_mul (price * n) p = Some t \<and> 0 \<le> price * n \<and>
    price * n \<le> dec_max"
proof -
  obtain t where t: "price * p = 10 ^ 18 * t" "(price * n * p) sdiv 10 ^ 18 = t * n"
    "(price * (10 ^ 18 + p)) sdiv 10 ^ 18 = price + t"
    using exact_tip [OF assms(1,2), of n] by blast
  have "0 \<le> price * p" using assms by simp
  then have "0 \<le> t" using t(1) by (simp add: zero_le_mult_iff)
  then have nn: "0 \<le> t * n" "0 \<le> price * n" using assms by simp_all
  have sum: "eff * n = price * n + t * n" using t(3) eff by (simp add: dec_one_def algebra_simps)
  then have "dec_checked_mul (price * n) p = Some (t * n)"
    using nn bound t(2) by (intro mul_Some) linarith+
  then show ?thesis using sum nn bound by (intro exI [of _ "t * n"]) simp
qed

lemma finalize_summary:
  assumes "fee_inv r" and "priced r" and "exact_prices (costing_params r)" and "funds r \<le> dec_max"
  shows "\<exists>s. finalize r = Ok s \<and> summary_of r s"
proof -
  let ?p = "tip_proportion (tip (tx_costing_params r))"
  let ?e = "uint (execution_cost_units_committed r)" and ?f = "uint (finalization_cost_units_committed r)"
  have sol: "solvent r" using assms by (simp add: solvent_def)
  note b = solvent_bounds [OF sol]
  have bal: "xrd_balance r + metered_costs r = funds r"
    using assms(1) by (simp add: fee_inv_def balanced_def funds_def)
  have eff: "0 \<le> effective_execution_cost_unit_price r * ?e" "0 \<le> effective_finalization_cost_unit_price r * ?f"
    using assms(1) by (simp_all add: fee_inv_def nonneg_params_def)
  have le: "effective_execution_cost_unit_price r * ?e \<le> dec_max"
    "effective_finalization_cost_unit_price r * ?f \<le> dec_max"
    "effective_execution_cost_unit_price r * ?e + effective_finalization_cost_unit_price r * ?f \<le> dec_max"
    using b bal eff assms(4) unfolding metered_costs_def by linarith+
  obtain te where te: "0 \<le> te" "effective_execution_cost_unit_price r * ?e =
      execution_cost_unit_price (costing_params r) * ?e + te"
      "dec_checked_mul (execution_cost_unit_price (costing_params r) * ?e) ?p = Some te"
      "0 \<le> execution_cost_unit_price (costing_params r) * ?e"
      "execution_cost_unit_price (costing_params r) * ?e \<le> dec_max"
    using tipped_cost [OF _ tip_proportion_dvd _ _ tip_proportion_nonneg _ le(1)] assms(2,3)
    by (auto simp: priced_def exact_prices_def)
  obtain tf where tf: "0 \<le> tf" "effective_finalization_cost_unit_price r * ?f =
      finalization_cost_unit_price (costing_params r) * ?f + tf"
      "dec_checked_mul (finalization_cost_unit_price (costing_params r) * ?f) ?p = Some tf"
      "0 \<le> finalization_cost_unit_price (costing_params r) * ?f"
      "finalization_cost_unit_price (costing_params r) * ?f \<le> dec_max"
    using tipped_cost [OF _ tip_proportion_dvd _ _ tip_proportion_nonneg _ le(2)] assms(2,3)
    by (auto simp: priced_def exact_prices_def)
  have "dec_checked_add te tf = Some (te + tf)"
    using te(1,2,4) tf(1,2,4) le(3) by (intro add_Some) linarith+
  moreover have "mul_u32 (execution_cost_unit_price (costing_params r)) (execution_cost_units_committed r) =
      Some (execution_cost_unit_price (costing_params r) * ?e)"
    "mul_u32 (finalization_cost_unit_price (costing_params r)) (finalization_cost_units_committed r) =
      Some (finalization_cost_unit_price (costing_params r) * ?f)"
    using te(4,5) tf(4,5) small_nonneg by (auto intro!: mul_u32_eval)
  ultimately show ?thesis using te tf b
    by (simp add: finalize_def summary_of_def metered_costs_def)
qed

lemma metered_bounds:
  assumes "fee_inv r" and "funds r \<le> dec_max"
  shows "metered_costs r \<le> funds r" "metered_costs r \<le> dec_max" "0 \<le> royalty_cost_committed r"
proof -
  have "xrd_balance r + metered_costs r = funds r" "0 \<le> xrd_balance r" "0 \<le> royalty_cost_committed r"
    using assms(1) by (simp_all add: fee_inv_defs funds_def)
  then show "metered_costs r \<le> funds r" "metered_costs r \<le> dec_max" "0 \<le> royalty_cost_committed r"
    using assms(2) by linarith+
qed

definition net :: "fee_summary \<Rightarrow> int" where
  "net s = total_execution_cost_in_xrd s + total_finalization_cost_in_xrd s + total_storage_cost_in_xrd s"

text \<open>The shares: tips to the proposer, a quarter of the network fees each, the rest is burnt.\<close>

lemma shares:
  assumes "0 \<le> total_execution_cost_in_xrd s" "0 \<le> total_finalization_cost_in_xrd s"
    "0 \<le> total_tipping_cost_in_xrd s" "0 \<le> total_storage_cost_in_xrd s"
    and bound: "total_tipping_cost_in_xrd s + net s \<le> dec_max"
  shows "network_fees s = Ok (net s)"
    and "to_proposer_amount s = Ok (total_tipping_cost_in_xrd s + net s div 4)"
    and "to_validator_set_amount s = Ok (net s div 4)"
    and "to_burn_amount s = Ok (net s - 2 * (net s div 4))"
proof -
  let ?t = "total_tipping_cost_in_xrd s" and ?n = "net s"
  have n: "0 \<le> ?n" "?n \<le> dec_max" "?t \<le> dec_max" using assms by (simp_all add: net_def)
  have d: "0 \<le> ?n div 4" "?n div 4 \<le> ?n" "2 * (?n div 4) \<le> ?n" using n(1) by simp_all
  show nf: "network_fees s = Ok ?n"
    using assms n by (simp add: network_fees_def net_def add_Some)
  have pct: "dec_checked_mul one_percent (dec_from_int 100) = Some (10 ^ 18)"
    "dec_checked_mul one_percent (dec_from_int 0) = Some 0"
    "dec_checked_mul one_percent (dec_from_int 25) = Some (25 * 10 ^ 16)"
    by (simp_all add: dec_checked_mul_whole one_percent_def)

  have "(?n * (25 * 10 ^ 16)) sdiv 10 ^ 18 = ?n div 4"
  proof -
    have "(?n * (25 * 10 ^ 16)) sdiv 10 ^ 18 = (?n * (25 * 10 ^ 16)) div 10 ^ 18"
      using n(1) by (simp add: signed_divide_int_def sgn_if)
    also have "\<dots> = (?n * (25 * 10 ^ 16)) div (4 * (25 * 10 ^ 16))" by simp
    also have "\<dots> = ?n div 4" by (rule div_mult_mult2) simp
    finally show ?thesis .
  qed
  then have qn: "dec_checked_mul ?n (25 * 10 ^ 16) = Some (?n div 4)"
    using d n(2) by (intro mul_Some) linarith+
  have tt: "dec_checked_mul ?t (10 ^ 18) = Some ?t"
    using sdiv_exact [of ?t] assms(3) n(3) by (intro mul_Some) (simp_all add: mult.commute)
  have t0: "dec_checked_mul ?t 0 = Some 0"
    by (rule mul_Some) (simp_all add: dec_max_def range_simps)
  have "to_proposer_amount s = Ok (?t + ?n div 4)"
    using pct qn tt nf assms(3) d bound
    by (simp add: to_proposer_amount_def share_amount_def TIPS_PROPOSER_SHARE_PERCENTAGE_def
        NETWORK_FEES_PROPOSER_SHARE_PERCENTAGE_def add_Some)
  moreover have "to_validator_set_amount s = Ok (?n div 4)"
    using pct qn t0 nf d n add_Some [of 0 "?n div 4"]
    by (simp add: to_validator_set_amount_def share_amount_def TIPS_VALIDATOR_SET_SHARE_PERCENTAGE_def
        NETWORK_FEES_VALIDATOR_SET_SHARE_PERCENTAGE_def)
  moreover have "dec_checked_add ?t ?n = Some (?t + ?n)" using assms(3) n(1) bound by (rule add_Some)
  moreover have "dec_checked_sub (?t + ?n) (?t + ?n div 4) = Some (?n - ?n div 4)"
    using sub_Some [of "?t + ?n div 4" "?t + ?n"] assms(3) d bound by simp
  moreover have "dec_checked_sub (?n - ?n div 4) (?n div 4) = Some (?n - 2 * (?n div 4))"
    using sub_Some [of "?n div 4" "?n - ?n div 4"] d n by simp
  ultimately show "to_proposer_amount s = Ok (?t + ?n div 4)" "to_validator_set_amount s = Ok (?n div 4)"
    "to_burn_amount s = Ok (?n - 2 * (?n div 4))"
    using nf by (simp_all add: to_burn_amount_def)
qed

lemma total_cost_summary:
  assumes "summary_of r s" and "metered_costs r \<le> dec_max" and "0 \<le> royalty_cost_committed r"
  shows "total_cost s = Ok (metered_costs r)"
    and "total_tipping_cost_in_xrd s + net s + royalty_cost_committed r = metered_costs r"
  using assms by (auto simp: summary_of_def total_cost_def net_def add_Some algebra_simps)


section \<open>Vault balances during settlement\<close>

definition store_sum :: "fee_store \<Rightarrow> int" where
  "store_sum st = sum_list (map snd (balances st))"

definition store_ok :: "fee_store \<Rightarrow> bool" where
  "store_ok st \<longleftrightarrow> im_wf (balances st) \<and> (\<forall>p \<in> set (balances st). 0 \<le> snd p)"

definition has_vault :: "fee_store \<Rightarrow> node_id \<Rightarrow> bool" where
  "has_vault st v \<longleftrightarrow> im_get (balances st) v \<noteq> None"

lemma push_event_simps [simp]:
  "balances (push_event e st) = balances st" "store_sum (push_event e st) = store_sum st"
  "store_ok (push_event e st) = store_ok st" "has_vault (push_event e st) = has_vault st"
  "current_leader (push_event e st) = current_leader st"
  "proposer_rewards (push_event e st) = proposer_rewards st"
  "rewards_vault (push_event e st) = rewards_vault st"
  by (simp_all add: push_event_def store_sum_def store_ok_def has_vault_def fun_eq_iff)

text \<open>What a put keeps: everything but the balances.\<close>

definition same_books :: "fee_store \<Rightarrow> fee_store \<Rightarrow> bool" where
  "same_books st st' \<longleftrightarrow> has_vault st' = has_vault st \<and> current_leader st' = current_leader st \<and>
     proposer_rewards st' = proposer_rewards st \<and> rewards_vault st' = rewards_vault st"

lemma put_vault_succeeds:
  assumes "store_ok st" and "has_vault st v" and "0 \<le> a" and "store_sum st + a \<le> dec_max"
  shows "\<exists>st'. put_vault v a st = Ok st' \<and> store_ok st' \<and> store_sum st' = store_sum st + a \<and> same_books st st'"
proof -
  obtain b where b: "im_get (balances st) v = Some b" using assms(2) by (auto simp: has_vault_def)
  have nn: "\<forall>p \<in> set (balances st). 0 \<le> snd p" and wf: "im_wf (balances st)"
    using assms(1) by (simp_all add: store_ok_def)
  have "0 \<le> b" "b \<le> store_sum st"
    using im_get_or_nonneg [OF nn, of v] breakdown_entry_le [OF nn, of v] b
    by (simp_all add: im_get_or_def store_sum_def)
  then have "is_decimal (b + a)" using assms(3,4) by (intro is_decimal_nonneg) auto
  then have put: "put_vault v a st = Ok (st\<lparr>balances := im_insert v (b + a) (balances st)\<rparr>)"
    using b by (simp add: put_vault_def liquid_put_def dec_checked_add_def i_checked_ops)
  have "\<forall>p \<in> set (im_insert v (b + a) (balances st)). 0 \<le> snd p"
    using nn \<open>0 \<le> b\<close> assms(3) by (intro ball_im_insert) auto
  moreover have "store_sum (st\<lparr>balances := im_insert v (b + a) (balances st)\<rparr>) = store_sum st + a"
    using sum_im_insert [OF wf, of v "b + a"] b by (simp add: store_sum_def im_get_or_def)
  moreover have "has_vault (st\<lparr>balances := im_insert v (b + a) (balances st)\<rparr>) = has_vault st"
    using assms(2) by (auto simp: has_vault_def fun_eq_iff)
  ultimately show ?thesis using put wf by (auto simp: store_ok_def same_books_def)
qed

lemma distribute_royalty_succeeds:
  assumes "store_ok st" and "\<forall>x \<in> set xs. has_vault st (vault_id (fst x)) \<and> 0 \<le> snd x"
    and "store_sum st + sum_list (map snd xs) \<le> dec_max"
  shows "\<exists>st'. distribute_royalty xs st = Ok st' \<and> store_ok st' \<and>
    store_sum st' = store_sum st + sum_list (map snd xs) \<and> same_books st st'"
  using assms
proof (induction xs arbitrary: st)
  case (Cons x xs)
  have nn: "0 \<le> sum_list (map snd xs)" using Cons.prems(2) by (auto intro!: sum_list_nonneg)
  obtain st1 where st1: "put_vault (vault_id (fst x)) (snd x) st = Ok st1" "store_ok st1"
    "store_sum st1 = store_sum st + snd x" "same_books st st1"
    using put_vault_succeeds [of st "vault_id (fst x)" "snd x"] Cons.prems nn by auto
  then show ?case
    using Cons.IH [of "push_event (RoyaltyDeposit (vault_id (fst x)) (snd x)) st1"] Cons.prems
    by (auto simp: same_books_def)
qed (simp add: same_books_def)

text \<open>A collection in progress, and what one payment does to it.\<close>

definition collection_ok :: "fee_collection \<Rightarrow> bool" where
  "collection_ok c \<longleftrightarrow> store_ok (store c) \<and> 0 \<le> required c \<and> 0 \<le> collected c \<and>
     im_wf (fee_payments c) \<and> (\<forall>p \<in> set (fee_payments c). 0 \<le> snd p) \<and>
     sum_list (map snd (fee_payments c)) = collected c"

definition usable :: "bool \<Rightarrow> (node_id \<times> decimal \<times> bool) list \<Rightarrow> int" where
  "usable is_success xs = (\<Sum>(v, locked, contingent) \<leftarrow> xs. if contingent \<and> \<not> is_success then 0 else locked)"

definition all_locked :: "(node_id \<times> decimal \<times> bool) list \<Rightarrow> int" where
  "all_locked xs = sum_list (map (\<lambda>x. fst (snd x)) xs)"

lemma usable_simps [simp]:
  "usable b [] = 0"
  "usable b ((v, l, c) # xs) = (if c \<and> \<not> b then 0 else l) + usable b xs"
  by (simp_all add: usable_def)

lemma all_locked_simps [simp]:
  "all_locked [] = 0" "all_locked ((v, l, c) # xs) = l + all_locked xs"
  by (simp_all add: all_locked_def)

lemma take_payment_succeeds:
  fixes contingent is_success :: bool
  assumes ok: "collection_ok c" and v: "has_vault (store c) v" and l: "0 \<le> locked"
    and b1: "required c + collected c \<le> dec_max"
    and b2: "store_sum (store c) + locked \<le> dec_max" and b3: "locked \<le> dec_max"
  defines "amount \<equiv> if contingent \<and> \<not> is_success then 0 else min locked (required c)"
  shows "\<exists>c'. take_payment is_success (v, locked, contingent) c = Ok c' \<and> collection_ok c' \<and>
    required c' = required c - amount \<and> collected c' = collected c + amount \<and>
    store_sum (store c') = store_sum (store c) + (locked - amount) \<and> same_books (store c) (store c')"
proof -
  let ?old = "im_get_or 0 (fee_payments c) v"
  have c: "store_ok (store c)" "0 \<le> required c" "0 \<le> collected c" "im_wf (fee_payments c)"
    "\<forall>p \<in> set (fee_payments c). 0 \<le> snd p" "sum_list (map snd (fee_payments c)) = collected c"
    using ok by (simp_all add: collection_ok_def)
  have a: "0 \<le> amount" "amount \<le> locked" "amount \<le> required c"
    using l c(2) by (auto simp: amount_def)
  have take: "liquid_take_by_amount amount locked = Ok (amount, locked - amount)"
    using a b3 by (simp add: liquid_take_iff is_decimal_nonneg)
  have put: "liquid_put amount (collected c) = (Ok (collected c + amount) :: (unit, decimal) res)"
    using a b1 c(3) by (simp add: liquid_put_iff is_decimal_nonneg)
  have sub: "dec_checked_sub (required c) amount = Some (required c - amount)"
    using a b1 c(3) by (intro sub_Some) auto
  obtain st where st: "put_vault v (locked - amount) (store c) = Ok st" "store_ok st"
    "store_sum st = store_sum (store c) + (locked - amount)" "same_books (store c) st"
    using put_vault_succeeds [OF c(1) v, of "locked - amount"] a b2 by auto
  have old: "0 \<le> ?old" "?old \<le> collected c"
    using im_get_or_nonneg [OF c(5)] breakdown_entry_le [OF c(5)] c(6) by auto
  have add: "dec_checked_add ?old amount = Some (?old + amount)"
    using old a b1 by (intro add_Some) linarith+
  let ?c = "\<lparr>store = push_event (PayFee v amount) st, required = required c - amount,
      collected = collected c + amount, fee_payments = im_insert v (?old + amount) (fee_payments c)\<rparr>"
  have run: "take_payment is_success (v, locked, contingent) c = Ok ?c"
    using take put sub st(1) add
    by (simp add: take_payment_def amount_def [symmetric] unwrap_def Let_def)
  have "\<forall>p \<in> set (im_insert v (?old + amount) (fee_payments c)). 0 \<le> snd p"
    using c(5) old a by (intro ball_im_insert) auto
  then have "collection_ok ?c"
    using c a st(2) sum_im_insert [OF c(4), of v "?old + amount"] by (simp add: collection_ok_def)
  then show ?thesis using run st by (auto simp: same_books_def)
qed

lemma take_payments_succeeds:
  assumes "collection_ok c" and "\<forall>x \<in> set xs. has_vault (store c) (fst x) \<and> 0 \<le> fst (snd x)"
    and "required c + collected c \<le> dec_max"
    and "store_sum (store c) + all_locked xs \<le> dec_max"
  shows "\<exists>c'. take_payments is_success xs c = Ok c' \<and> collection_ok c' \<and>
    required c' = max 0 (required c - usable is_success xs) \<and>
    collected c' + required c' = collected c + required c \<and>
    store_sum (store c') = store_sum (store c) + all_locked xs - (collected c' - collected c) \<and>
    same_books (store c) (store c')"
  using assms
proof (induction xs arbitrary: c)
  case Nil
  then show ?case by (simp add: collection_ok_def same_books_def)
next
  case (Cons x xs)
  obtain v l con where x: "x = (v, l, con)" by (cases x)
  have nn: "0 \<le> all_locked xs" "0 \<le> usable is_success xs"
    using Cons.prems(2) by (force simp: all_locked_def usable_def intro!: sum_list_nonneg)+
  have c: "0 \<le> store_sum (store c)" "0 \<le> required c"
    using Cons.prems(1) by (auto simp: collection_ok_def store_ok_def store_sum_def intro!: sum_list_nonneg)
  let ?amount = "if con \<and> \<not> is_success then 0 else min l (required c)"
  have l: "has_vault (store c) v" "0 \<le> l" using Cons.prems(2) by (simp_all add: x)
  obtain c1 where c1: "take_payment is_success x c = Ok c1" "collection_ok c1"
    "required c1 = required c - ?amount" "collected c1 = collected c + ?amount"
    "store_sum (store c1) = store_sum (store c) + (l - ?amount)" "same_books (store c) (store c1)"
  proof -
    have "store_sum (store c) + l \<le> dec_max" "l \<le> dec_max"
      using Cons.prems(4) nn c by (simp_all add: x)
    then show thesis
      using that take_payment_succeeds [OF Cons.prems(1) l Cons.prems(3), where contingent = con
          and is_success = is_success] unfolding x by blast
  qed
  have "\<exists>c'. take_payments is_success xs c1 = Ok c' \<and> collection_ok c' \<and>
    required c' = max 0 (required c1 - usable is_success xs) \<and>
    collected c' + required c' = collected c1 + required c1 \<and>
    store_sum (store c') = store_sum (store c1) + all_locked xs - (collected c' - collected c1) \<and>
    same_books (store c1) (store c')"
    using Cons.prems c1 l(2) c by (intro Cons.IH) (auto simp: x same_books_def)
  then obtain c' where c': "take_payments is_success xs c1 = Ok c'" "collection_ok c'"
    "required c' = max 0 (required c1 - usable is_success xs)"
    "collected c' + required c' = collected c1 + required c1"
    "store_sum (store c') = store_sum (store c1) + all_locked xs - (collected c' - collected c1)"
    "same_books (store c1) (store c')" by blast
  have "required c' = max 0 (required c - usable is_success (x # xs))"
    using c'(3) c1(3) nn c l(2) by (auto simp: x)
  moreover have "same_books (store c) (store c')" using c1(6) c'(6) by (simp add: same_books_def)
  ultimately show ?case using c' c1 by (simp add: x)
qed

lemma use_free_credit_succeeds:
  assumes "collection_ok c" and "0 \<le> free_credit" and "required c + collected c \<le> dec_max"
  shows "\<exists>c'. use_free_credit free_credit c = Ok c' \<and> store c' = store c \<and>
    fee_payments c' = fee_payments c \<and> required c' = required c - min free_credit (required c) \<and>
    collected c' = collected c + min free_credit (required c)"
proof (cases "free_credit = 0")
  case True
  then show ?thesis using assms(1) by (simp add: use_free_credit_def collection_ok_def)
next
  case False
  let ?a = "min free_credit (required c)"
  have nn: "0 \<le> ?a" "0 \<le> required c" "0 \<le> collected c" "?a \<le> required c"
    using assms(1,2) by (simp_all add: collection_ok_def)
  have "liquid_put ?a (collected c) = (Ok (collected c + ?a) :: (unit, decimal) res)"
    using nn assms(3) by (simp add: liquid_put_iff is_decimal_nonneg)
  moreover have "dec_checked_sub (required c) ?a = Some (required c - ?a)"
    using nn assms(3) by (intro sub_Some) auto
  ultimately show ?thesis using False assms(2) by (simp add: use_free_credit_def Let_def)
qed

lemma reward_succeeds:
  assumes st: "store_ok (store c)" "has_vault (store c) (rewards_vault (store c))"
    and nn: "0 \<le> p" "0 \<le> v" "p + v \<le> collected c" "collected c \<le> dec_max"
    and b: "store_sum (store c) + (p + v) \<le> dec_max"
    and leader: "\<And>l. 0 \<le> im_get_or 0 (proposer_rewards (store c)) l \<and>
      im_get_or 0 (proposer_rewards (store c)) l + p \<le> dec_max"
  shows "\<exists>c'. reward p v c = Ok c' \<and> store_sum (store c') = store_sum (store c) + (p + v) \<and>
    fee_payments c' = fee_payments c \<and> collected c' = collected c - (p + v) \<and> required c' = required c"
proof (cases "p = 0 \<and> v = 0")
  case True
  then show ?thesis by (simp add: reward_def)
next
  case False
  let ?st = "store c"
  obtain st1 where st1: "(case current_leader ?st of None \<Rightarrow> Ok ?st
      | Some leader \<Rightarrow> rbind (expect (dec_checked_add (im_get_or 0 (proposer_rewards ?st) leader) p))
          (\<lambda>entry. Ok (?st\<lparr>proposer_rewards := im_insert leader entry (proposer_rewards ?st)\<rparr>))) = (Ok st1 :: (unit, fee_store) res)"
    and same: "balances st1 = balances ?st" "rewards_vault st1 = rewards_vault ?st"
    using leader nn(1) by (cases "current_leader ?st") (auto simp: add_Some)
  have eq: "store_ok st1 = store_ok ?st" "store_sum st1 = store_sum ?st" "has_vault st1 = has_vault ?st"
    using same by (simp_all add: store_ok_def store_sum_def has_vault_def fun_eq_iff)
  have add: "dec_checked_add p v = Some (p + v)" using nn by (intro add_Some) auto
  have take: "liquid_take_by_amount (p + v) (collected c) = Ok (p + v, collected c - (p + v))"
    using nn by (simp add: liquid_take_iff is_decimal_nonneg)
  obtain st2 where st2: "put_vault (rewards_vault st1) (p + v) st1 = Ok st2"
    "store_sum st2 = store_sum ?st + (p + v)"
    using put_vault_succeeds [of st1 "rewards_vault st1" "p + v"] st nn(1,2) b eq same by auto
  show ?thesis using False st1 add take st2 by (auto simp: reward_def unwrap_def)
qed


section \<open>Settling a repaid reserve\<close>

text \<open>
  What the settlement may assume of the store: the vaults named by the reserve exist, and the
  balances together with everything to be paid out fit a Decimal.
\<close>

definition settleable :: "fee_store \<Rightarrow> fee_reserve \<Rightarrow> bool" where
  "settleable st r \<longleftrightarrow> store_ok st \<and>
     (\<forall>x \<in> set (royalty_cost_breakdown r). has_vault st (vault_id (fst x))) \<and>
     (\<forall>x \<in> set (locked_fees r). has_vault st (fst x)) \<and>
     has_vault st (rewards_vault st) \<and>
     store_sum st + royalty_cost_committed r + all_locked (locked_fees r) + funds r \<le> dec_max \<and>
     (\<forall>l. 0 \<le> im_get_or 0 (proposer_rewards st) l \<and>
        im_get_or 0 (proposer_rewards st) l + funds r \<le> dec_max)"

lemma all_locked_rev [simp]: "all_locked (rev xs) = all_locked xs"
  by (simp add: all_locked_def rev_map [symmetric] sum_list_rev)

lemma usable_rev [simp]: "usable b (rev xs) = usable b xs"
  by (simp add: usable_def rev_map [symmetric] sum_list_rev)

lemma usable_ge_locked:
  assumes "\<forall>x \<in> set xs. 0 \<le> fst (snd x)"
  shows "locked_total xs \<le> usable b xs"
  using assms by (induction xs) (auto simp: locked_total_def)

lemma metered_nonneg: "fee_inv r \<Longrightarrow> 0 \<le> metered_costs r"
  by (auto simp: fee_inv_defs metered_costs_def intro!: add_nonneg_nonneg mult_nonneg_nonneg)

lemma settleable_bounds:
  assumes inv: "fee_inv r" and st: "settleable st r"
  shows "0 \<le> store_sum st" "0 \<le> all_locked (locked_fees r)" "0 \<le> funds r" "funds r \<le> dec_max"
    "store_sum st + royalty_cost_committed r + all_locked (locked_fees r) + funds r \<le> dec_max"
    "0 \<le> royalty_cost_committed r"
proof -
  have nnL: "\<forall>x \<in> set (locked_fees r). 0 \<le> fst (snd x)" using inv by (simp add: fee_inv_defs)
  show S: "0 \<le> store_sum st" using st
    by (auto simp: settleable_def store_ok_def store_sum_def intro!: sum_list_nonneg)
  show L: "0 \<le> all_locked (locked_fees r)" using nnL by (auto simp: all_locked_def intro!: sum_list_nonneg)
  have "0 \<le> locked_total (locked_fees r)" using nnL by (force simp: locked_total_def intro!: sum_list_nonneg)
  then show F: "0 \<le> funds r" using inv by (simp add: funds_def fee_inv_defs)
  show R: "0 \<le> royalty_cost_committed r" using inv by (simp add: fee_inv_defs)
  show big: "store_sum st + royalty_cost_committed r + all_locked (locked_fees r) + funds r \<le> dec_max"
    using st by (simp add: settleable_def)
  show "funds r \<le> dec_max" using big S L R by linarith
qed

text \<open>First half: royalties are paid out and the whole cost is collected.\<close>

lemma collect_phase:
  assumes inv: "fee_inv r" and repaid: "xrd_owed r = 0" and st: "settleable st r"
  shows "\<exists>st1 c1 c2. distribute_royalty (royalty_cost_breakdown r) st = Ok st1 \<and>
    take_payments is_success (rev (locked_fees r))
      \<lparr>store = st1, required = metered_costs r, collected = 0, fee_payments = []\<rparr> = Ok c1 \<and>
    use_free_credit (free_credit_in_xrd (tx_costing_params r)) c1 = Ok c2 \<and>
    required c2 = 0 \<and> collected c2 = metered_costs r \<and> store_ok (store c2) \<and> same_books st (store c2) \<and>
    0 \<le> sum_list (map snd (fee_payments c2)) \<and> sum_list (map snd (fee_payments c2)) \<le> metered_costs r \<and>
    metered_costs r - sum_list (map snd (fee_payments c2)) \<le> free_credit_in_xrd (tx_costing_params r) \<and>
    store_sum (store c2) = store_sum st + royalty_cost_committed r + all_locked (locked_fees r) -
      sum_list (map snd (fee_payments c2))"
proof -
  let ?free = "free_credit_in_xrd (tx_costing_params r)" and ?M = "metered_costs r"
  have nnL: "\<forall>x \<in> set (locked_fees r). 0 \<le> fst (snd x)" and nnR: "\<forall>x \<in> set (royalty_cost_breakdown r). 0 \<le> snd x"
    and R: "royalty_cost_committed r = sum_list (map snd (royalty_cost_breakdown r))" and free: "0 \<le> ?free"
    using inv by (simp_all add: fee_inv_defs)
  note b = settleable_bounds [OF inv st]
  note M = metered_bounds [OF inv b(4)]
  obtain st1 where st1: "distribute_royalty (royalty_cost_breakdown r) st = Ok st1" "store_ok st1"
    "store_sum st1 = store_sum st + royalty_cost_committed r" "same_books st st1"
    using distribute_royalty_succeeds [of st "royalty_cost_breakdown r"] st nnR b
    by (auto simp: settleable_def R)
  let ?c0 = "\<lparr>store = st1, required = ?M, collected = 0, fee_payments = []\<rparr>"
  have "collection_ok ?c0" using st1(2) metered_nonneg [OF inv] by (simp add: collection_ok_def)
  then obtain c1 where c1: "take_payments is_success (rev (locked_fees r)) ?c0 = Ok c1" "collection_ok c1"
    "required c1 = max 0 (?M - usable is_success (locked_fees r))" "collected c1 + required c1 = ?M"
    "store_sum (store c1) = store_sum st1 + all_locked (locked_fees r) - collected c1" "same_books st1 (store c1)"
    using take_payments_succeeds [of ?c0 "rev (locked_fees r)" is_success] st st1 nnL M(2) b
    by (auto simp: settleable_def same_books_def)
  have paid: "sum_list (map snd (fee_payments c1)) = collected c1" "0 \<le> collected c1" "0 \<le> required c1"
    using c1(2) by (simp_all add: collection_ok_def)
  have req: "required c1 \<le> ?free"
    using c1(3) usable_ge_locked [OF nnL, of is_success] repaid free M(1) by (simp add: funds_def)
  obtain c2 where c2: "use_free_credit ?free c1 = Ok c2" "store c2 = store c1" "fee_payments c2 = fee_payments c1"
    "required c2 = 0" "collected c2 = ?M"
    using use_free_credit_succeeds [OF c1(2) free] c1(4) M(2) req by (auto simp: min_def)
  have "same_books st (store c2)" using st1(4) c1(6) c2(2) by (simp add: same_books_def)
  moreover have "store_ok (store c2)" using c1(2) c2(2) by (simp add: collection_ok_def)
  ultimately show ?thesis
    using st1 c1 c2 paid req
    by (intro exI [of _ st1] exI [of _ c1] exI [of _ c2]) auto
qed

text \<open>Second half: the sanity checks hold and the collected fees are distributed.\<close>

lemma settlement:
  assumes inv: "fee_inv r" and pr: "priced r" and ex: "exact_prices (costing_params r)"
    and repaid: "xrd_owed r = 0" and st: "settleable st r"
  shows "\<exists>s c burn. finalize_fees_for_commit st r is_success = Ok (s, c) \<and>
    total_cost s = Ok (metered_costs r) \<and> to_burn_amount s = Ok burn \<and> 0 \<le> burn \<and>
    sum_list (map snd (fee_payments c)) \<le> metered_costs r \<and>
    metered_costs r - sum_list (map snd (fee_payments c)) \<le> free_credit_in_xrd (tx_costing_params r) \<and>
    store_sum (store c) + burn = store_sum st + all_locked (locked_fees r) +
      (metered_costs r - sum_list (map snd (fee_payments c)))"
proof -
  let ?M = "metered_costs r" and ?R = "royalty_cost_committed r"
  note b = settleable_bounds [OF inv st]
  note M = metered_bounds [OF inv b(4)]
  obtain s where s: "finalize r = Ok s" "summary_of r s" using finalize_summary [OF inv pr ex b(4)] by blast
  note tc = total_cost_summary [OF s(2) M(2,3)]
  let ?t = "total_tipping_cost_in_xrd s" and ?n = "net s"
  have parts: "0 \<le> ?t" "0 \<le> ?n" "?M = ?t + ?n + ?R"
    "total_royalty_cost_in_xrd s = ?R" "summary_locked_fees s = locked_fees r" "total_bad_debt_in_xrd s = 0"
    using s(2) tc(2) repaid by (auto simp: summary_of_def net_def)
  define q where "q = ?n div 4"
  have q: "0 \<le> q" "2 * q \<le> ?n" using parts(2) by (simp_all add: q_def)
  have sh: "to_proposer_amount s = Ok (?t + q)" "to_validator_set_amount s = Ok q" "to_burn_amount s = Ok (?n - 2 * q)"
    using shares [of s] s(2) parts(3) M(2,3) by (auto simp: summary_of_def q_def)
  obtain st1 c1 c2 where c: "distribute_royalty (royalty_cost_breakdown r) st = Ok st1"
    "take_payments is_success (rev (locked_fees r))
      \<lparr>store = st1, required = ?M, collected = 0, fee_payments = []\<rparr> = Ok c1"
    "use_free_credit (free_credit_in_xrd (tx_costing_params r)) c1 = Ok c2"
    "required c2 = 0" "collected c2 = ?M" "store_ok (store c2)" "same_books st (store c2)"
    and paid: "0 \<le> sum_list (map snd (fee_payments c2))" "sum_list (map snd (fee_payments c2)) \<le> ?M"
    "?M - sum_list (map snd (fee_payments c2)) \<le> free_credit_in_xrd (tx_costing_params r)"
    "store_sum (store c2) = store_sum st + ?R + all_locked (locked_fees r) - sum_list (map snd (fee_payments c2))"
    using collect_phase [OF inv repaid st, of is_success] by blast
  have pv: "0 \<le> ?t + q" "?t + q + q \<le> ?M" "?t + q \<le> funds r" using parts(1-3) q M by linarith+
  have bound: "store_sum (store c2) + (?t + q + q) \<le> dec_max" using paid pv b M(1) by linarith
  have leader: "0 \<le> im_get_or 0 (proposer_rewards (store c2)) l \<and>
      im_get_or 0 (proposer_rewards (store c2)) l + (?t + q) \<le> dec_max" for l
  proof -
    have "proposer_rewards (store c2) = proposer_rewards st" using c(7) by (simp add: same_books_def)
    moreover have "0 \<le> im_get_or 0 (proposer_rewards st) l" "im_get_or 0 (proposer_rewards st) l + funds r \<le> dec_max"
      using st by (simp_all add: settleable_def)
    ultimately show ?thesis using pv(3) by simp
  qed
  obtain c3 where c3: "reward (?t + q) q c2 = Ok c3" "store_sum (store c3) = store_sum (store c2) + (?t + q + q)"
    "fee_payments c3 = fee_payments c2"
    using reward_succeeds [OF c(6) _ pv(1) q(1) _ _ bound leader] st c pv M(2)
    by (auto simp: settleable_def same_books_def)
  let ?burn = "?n - 2 * q"
  have a: "dec_checked_sub ?M ?R = Some (?t + ?n)" "dec_checked_add (?t + q) q = Some (?t + q + q)"
    "dec_checked_add (?t + q + q) ?burn = Some (?t + ?n)"
    using sub_Some [of ?R ?M] add_Some [of "?t + q" q] add_Some [of "?t + q + q" ?burn] M parts(1-3) pv q
    by simp_all
  have "finalize_fees_for_commit st r is_success =
      Ok (s, if ?burn > 0 then c3\<lparr>store := push_event (BurnFees ?burn) (store c3)\<rparr> else c3)"
    unfolding finalize_fees_for_commit_def
    using c s(1) tc(1) sh parts(4-6) a c3(1) by simp
  then show ?thesis using tc(1) sh(3) paid c3 parts(3) q by fastforce
qed

section \<open>A concrete settlement\<close>

text \<open>Five million execution cost units at genesis prices, paid from a locked fee of one XRD.\<close>

definition spent_reserve :: fee_reserve where
  "spent_reserve = funded_reserve\<lparr>xrd_balance := 750000000000000000, xrd_owed := 0,
     execution_cost_units_committed := 5000000\<rparr>"

definition demo_store :: fee_store where
  "demo_store = \<lparr>balances = [(''vault'', 5), (''rewards'', 0)], current_leader = Some 3,
     proposer_rewards = [], rewards_vault = ''rewards'', fee_events = []\<rparr>"

lemma spent_run: "run_fee_op (ConsumeExecution 5000000) funded_reserve = (spent_reserve, Ok ())"
  by (simp add: consume_execution_def consume_execution_internal_def consume_finalization_internal_def
      repay_all_def repay_owed_def mseq_def mbind_def check_execution_cost_unit_limit_def
      check_finalization_cost_unit_limit_def u32_checked_add_def funded_reserve_eq genesis_reserve_def
      babylon_genesis_def mul_u32_eval deduct_def dec_sub_def dec_checked_sub_def i_checked_ops range_simps
      fully_repaid_def spent_reserve_def)

lemma spent_reachable: "fee_reachable spent_reserve"
proof -
  have "fee_step funded_reserve spent_reserve" by (rule fee_call [OF _ spent_run]) simp_all
  then show ?thesis by (rule reach_step [OF funded_reachable])
qed

lemma spent_static:
  "fully_repaid spent_reserve" "costing_params spent_reserve = babylon_genesis"
  "exact_prices babylon_genesis" "settleable demo_store spent_reserve"
proof -
  show "fully_repaid spent_reserve" "costing_params spent_reserve = babylon_genesis"
    by (simp_all add: fully_repaid_def spent_reserve_def funded_reserve_eq genesis_reserve_def)
  show "exact_prices babylon_genesis" by (simp add: exact_prices_def babylon_genesis_def)
  show "settleable demo_store spent_reserve"
    by (simp add: settleable_def store_ok_def store_sum_def has_vault_def demo_store_def spent_reserve_def
        funded_reserve_eq genesis_reserve_def funds_def all_locked_def locked_total_def no_tip_no_credit_def
        im_get_or_def dec_max_def range_simps)
qed


section \<open>Properties\<close>

text \<open>
  C2. Committing never fails on fees: for every reachable fee reserve whose loan is repaid, with
  unit prices that are multiples of \<open>10 ^ 4\<close> attos (so that tips are exact, as with the protocol's
  prices) and vaults that exist, \<^verbatim>\<open>finalize_fees_for_commit\<close> passes all its sanity checks
  (no bad debt, the locked fees cover the cost, what is distributed is what was collected),
  for successful and for failed transactions. The charged total is exactly what was metered, the
  payers pay at most that and the free credit covers the rest, and XRD is conserved: what the
  vaults hold afterwards plus the burnt amount is what they held before plus the locked
  fees and the free credit used.
\<close>

theorem settlement_conserves_xrd:
  assumes "fee_reachable r" and "fully_repaid r" and "exact_prices (costing_params r)" and "settleable st r"
  shows "\<exists>s c burn. finalize_fees_for_commit st r is_success = Ok (s, c) \<and>
    total_cost s = Ok (metered_costs r) \<and> to_burn_amount s = Ok burn \<and> 0 \<le> burn \<and>
    sum_list (map snd (fee_payments c)) \<le> metered_costs r \<and>
    metered_costs r - sum_list (map snd (fee_payments c)) \<le> free_credit_in_xrd (tx_costing_params r) \<and>
    store_sum (store c) + burn = store_sum st + all_locked (locked_fees r) +
      (metered_costs r - sum_list (map snd (fee_payments c)))"
  using settlement [OF fee.reach_inv prices.reach_inv] assms by (simp add: fully_repaid_def)

theorem settlement_conserves_xrd_witness:
  "\<exists>s c. finalize_fees_for_commit demo_store spent_reserve True = Ok (s, c) \<and>
     total_cost s = Ok 250000000000000000"
  using settlement_conserves_xrd [OF spent_reachable, of demo_store True] spent_static
  by (force simp: metered_costs_def spent_reserve_def funded_reserve_eq genesis_reserve_def)

text \<open>
  C12. The distribution of the fees: the proposer gets all tips and a quarter of the network fees
  (rounded down), the validator set another quarter, and what is burnt is the rest; together
  they are exactly tips plus network fees.
\<close>

theorem fee_distribution:
  assumes "0 \<le> total_execution_cost_in_xrd s" and "0 \<le> total_finalization_cost_in_xrd s"
    and "0 \<le> total_tipping_cost_in_xrd s" and "0 \<le> total_storage_cost_in_xrd s"
    and "total_tipping_cost_in_xrd s + net s \<le> dec_max"
  shows "network_fees s = Ok (net s) \<and>
    to_proposer_amount s = Ok (total_tipping_cost_in_xrd s + net s div 4) \<and>
    to_validator_set_amount s = Ok (net s div 4) \<and>
    to_burn_amount s = Ok (net s - 2 * (net s div 4))"
  using shares [OF assms] by simp

definition demo_summary :: fee_summary where
  "demo_summary = \<lparr>total_execution_cost_units_consumed = 1, total_finalization_cost_units_consumed = 1,
     total_execution_cost_in_xrd = 7, total_finalization_cost_in_xrd = 3, total_tipping_cost_in_xrd = 2,
     total_storage_cost_in_xrd = 1, total_royalty_cost_in_xrd = 0, total_bad_debt_in_xrd = 0,
     summary_locked_fees = [], summary_royalty_breakdown = []\<rparr>"

theorem fee_distribution_witness:
  "to_proposer_amount demo_summary = Ok 4 \<and> to_burn_amount demo_summary = Ok 7"
  using fee_distribution [of demo_summary] by (simp add: demo_summary_def net_def dec_max_def range_simps)

end
