(* ===== verification/Sbor_Codec.thy ===== *)
theory Sbor_Codec
  imports Prelude
begin

text \<open>
  The SBOR codec of the crate \<^verbatim>\<open>sbor\<close>: value kinds, values, the byte writer \<^verbatim>\<open>VecEncoder\<close>, the
  byte reader \<^verbatim>\<open>VecDecoder\<close>, and the encoding and decoding of \<^verbatim>\<open>Value\<close>. Encoder and decoder are
  records threaded through the calls, and keep their updates when a call fails, as the Rust
  structs do. The custom value kinds and values (the type parameters \<^verbatim>\<open>X\<close> and \<^verbatim>\<open>Y\<close> with their
  traits) are an argument, the record \<open>custom_codec\<close>; the theory \<^verbatim>\<open>Sbor_Custom\<close> gives the two the
  ledger uses.
\<close>

unbundle bit_operations_syntax

type_synonym u8 = "8 word"


section \<open>Integers as bytes\<close>

text \<open>
  \<^verbatim>\<open>to_le_bytes\<close> and \<^verbatim>\<open>from_le_bytes\<close> of the integer types of \<open>n\<close> bytes, over the integers: the
  bytes of a negative number are those of its two's complement. The big-endian variants are
  their reversals.
\<close>

primrec to_le_bytes :: "nat \<Rightarrow> int \<Rightarrow> u8 list" where
  "to_le_bytes 0 x = []"
| "to_le_bytes (Suc n) x = word_of_int x # to_le_bytes n (x div 256)"

primrec from_le_bytes :: "u8 list \<Rightarrow> int" where
  "from_le_bytes [] = 0"
| "from_le_bytes (b # bs) = uint b + 256 * from_le_bytes bs"

definition to_be_bytes :: "nat \<Rightarrow> int \<Rightarrow> u8 list" where
  "to_be_bytes n x = rev (to_le_bytes n x)"

definition from_be_bytes :: "u8 list \<Rightarrow> int" where
  "from_be_bytes bs = from_le_bytes (rev bs)"

lemma length_to_le_bytes [simp]: "length (to_le_bytes n x) = n"
  by (induction n arbitrary: x) simp_all

lemma length_to_be_bytes [simp]: "length (to_be_bytes n x) = n"
  by (simp add: to_be_bytes_def)

lemma from_le_bytes_nonneg [simp]: "0 \<le> from_le_bytes bs"
  by (induction bs) simp_all

lemma from_le_bytes_less: "from_le_bytes bs < 256 ^ length bs"
proof (induction bs)
  case (Cons b bs)
  have "uint b < 256" using uint_lt2p [of b] by simp
  then show ?case using Cons.IH by simp
qed simp

lemma from_to_le_bytes: "from_le_bytes (to_le_bytes n x) = x mod 256 ^ n"
proof (induction n arbitrary: x)
  case (Suc n)
  have "uint (word_of_int x :: u8) = x mod 256"
    by (simp add: uint_word_of_int)
  then have "from_le_bytes (to_le_bytes (Suc n) x) = x mod 256 + 256 * (x div 256 mod 256 ^ n)"
    by (simp add: Suc.IH)
  also have "\<dots> = x mod (256 * 256 ^ n)"
    by (metis add.commute mod_mult2_eq' of_int_numeral mult.commute zmod_zmult2_eq
        zero_le_numeral zero_le_power)
  finally show ?case by simp
qed simp

lemma to_from_le_bytes: "to_le_bytes (length bs) (from_le_bytes bs) = bs"
proof (induction bs)
  case (Cons b bs)
  have "uint b < 256" using uint_lt2p [of b] by simp
  then have "(uint b + 256 * from_le_bytes bs) div 256 = from_le_bytes bs" by simp
  moreover have "word_of_int (uint b + 256 * from_le_bytes bs) = (b :: u8)"
  proof -
    have "(256 :: u8) = 0" by simp
    then have "256 * w = 0" for w :: u8 by (metis mult_zero_left)
    then show ?thesis by simp
  qed
  ultimately show ?case using Cons.IH by simp
qed simp

lemma to_le_bytes_mod: "to_le_bytes n (x mod 256 ^ n) = to_le_bytes n x"
  by (metis from_to_le_bytes length_to_le_bytes to_from_le_bytes)

section \<open>Strings\<close>

text \<open>
  A Rust \<^verbatim>\<open>String\<close> is a sequence of bytes that is valid UTF-8. \<open>is_utf8\<close> is the check of
  \<^verbatim>\<open>String::from_utf8\<close> and \<^verbatim>\<open>str::from_utf8\<close>: the well-formed byte sequences of the Unicode standard
  (no overlong forms, no surrogates, nothing above \<^verbatim>\<open>U+10FFFF\<close>).
\<close>

definition is_continuation :: "u8 \<Rightarrow> bool" where
  "is_continuation b \<longleftrightarrow> 0x80 \<le> b \<and> b \<le> 0xBF"

fun is_utf8 :: "u8 list \<Rightarrow> bool" where
  "is_utf8 [] = True"
| "is_utf8 (a # bs) =
    (if a \<le> 0x7F then is_utf8 bs
     else if 0xC2 \<le> a \<and> a \<le> 0xDF then
       (case bs of b # r \<Rightarrow> is_continuation b \<and> is_utf8 r | _ \<Rightarrow> False)
     else if 0xE0 \<le> a \<and> a \<le> 0xEF then
       (case bs of b # c # r \<Rightarrow>
          is_continuation b \<and> is_continuation c \<and> (a = 0xE0 \<longrightarrow> 0xA0 \<le> b) \<and> (a = 0xED \<longrightarrow> b \<le> 0x9F) \<and> is_utf8 r
        | _ \<Rightarrow> False)
     else if 0xF0 \<le> a \<and> a \<le> 0xF4 then
       (case bs of b # c # d # r \<Rightarrow>
          is_continuation b \<and> is_continuation c \<and> is_continuation d \<and>
          (a = 0xF0 \<longrightarrow> 0x90 \<le> b) \<and> (a = 0xF4 \<longrightarrow> b \<le> 0x8F) \<and> is_utf8 r
        | _ \<Rightarrow> False)
     else False)"


section \<open>Value kinds\<close>

datatype 'x value_kind =
    KBool | KI8 | KI16 | KI32 | KI64 | KI128 | KU8 | KU16 | KU32 | KU64 | KU128 | KString
  | KEnum | KArray | KTuple | KMap | KCustom 'x

text \<open>
  The custom part of a codec: \<^verbatim>\<open>CustomValueKind::as_u8\<close> and \<^verbatim>\<open>from_u8\<close>, \<^verbatim>\<open>get_custom_value_kind\<close>
  of \<^verbatim>\<open>CustomValue\<close>, and the \<^verbatim>\<open>encode_body\<close> and \<^verbatim>\<open>decode_body_with_value_kind\<close> of the custom value
  type. (The record of the functions comes after the encoder and the decoder they work on.)
\<close>

definition value_kind_as_u8 :: "('x \<Rightarrow> u8) \<Rightarrow> 'x value_kind \<Rightarrow> u8" where
  "value_kind_as_u8 as_u8 k = (case k of
     KBool \<Rightarrow> 0x01 | KI8 \<Rightarrow> 0x02 | KI16 \<Rightarrow> 0x03 | KI32 \<Rightarrow> 0x04 | KI64 \<Rightarrow> 0x05 | KI128 \<Rightarrow> 0x06
   | KU8 \<Rightarrow> 0x07 | KU16 \<Rightarrow> 0x08 | KU32 \<Rightarrow> 0x09 | KU64 \<Rightarrow> 0x0a | KU128 \<Rightarrow> 0x0b | KString \<Rightarrow> 0x0c
   | KTuple \<Rightarrow> 0x21 | KEnum \<Rightarrow> 0x22 | KArray \<Rightarrow> 0x20 | KMap \<Rightarrow> 0x23
   | KCustom custom_value_kind \<Rightarrow> as_u8 custom_value_kind)"

definition CUSTOM_VALUE_KIND_START :: u8 where
  "CUSTOM_VALUE_KIND_START = 0x80"

definition value_kind_from_u8 :: "(u8 \<Rightarrow> 'x option) \<Rightarrow> u8 \<Rightarrow> 'x value_kind option" where
  "value_kind_from_u8 from_u8 ident =
    (if ident = 0x01 then Some KBool else if ident = 0x02 then Some KI8 else if ident = 0x03 then Some KI16
     else if ident = 0x04 then Some KI32 else if ident = 0x05 then Some KI64 else if ident = 0x06 then Some KI128
     else if ident = 0x07 then Some KU8 else if ident = 0x08 then Some KU16 else if ident = 0x09 then Some KU32
     else if ident = 0x0a then Some KU64 else if ident = 0x0b then Some KU128 else if ident = 0x0c then Some KString
     else if ident = 0x21 then Some KTuple else if ident = 0x22 then Some KEnum else if ident = 0x20 then Some KArray
     else if ident = 0x23 then Some KMap
     else if CUSTOM_VALUE_KIND_START \<le> ident then map_option KCustom (from_u8 ident)
     else None)"


section \<open>Values\<close>

text \<open>
  The \<^verbatim>\<open>Value\<close> enum. The signed integers are kept as the words of their two's complement, a
  string as its bytes.
\<close>

datatype ('x, 'y) sbor_value =
    VBool bool
  | VI8 "8 word" | VI16 "16 word" | VI32 "32 word" | VI64 "64 word" | VI128 "128 word"
  | VU8 "8 word" | VU16 "16 word" | VU32 "32 word" | VU64 "64 word" | VU128 "128 word"
  | VString "u8 list"
  | VEnum u8 "('x, 'y) sbor_value list"
  | VArray "'x value_kind" "('x, 'y) sbor_value list"
  | VTuple "('x, 'y) sbor_value list"
  | VMap "'x value_kind" "'x value_kind" "(('x, 'y) sbor_value \<times> ('x, 'y) sbor_value) list"
  | VCustom 'y


section \<open>The encoder\<close>

datatype encode_error =
    EncMaxDepthExceeded nat
  | SizeTooLarge nat nat
  | MismatchingArrayElementValueKind u8 u8
  | MismatchingMapKeyValueKind u8 u8
  | MismatchingMapValueValueKind u8 u8

record vec_encoder =
  enc_buf :: "u8 list"
  enc_max_depth :: nat
  enc_stack_depth :: nat

definition VecEncoder_new :: "u8 list \<Rightarrow> nat \<Rightarrow> vec_encoder" where
  "VecEncoder_new buf max_depth = \<lparr>enc_buf = buf, enc_max_depth = max_depth, enc_stack_depth = 0\<rparr>"

type_synonym 'a encodes = "(vec_encoder, encode_error, 'a) mut_fn"

definition enc_track_stack_depth_increase :: "unit encodes" where
  "enc_track_stack_depth_increase =
     mseq (mmodify (\<lambda>e. e\<lparr>enc_stack_depth := enc_stack_depth e + 1\<rparr>))
     (mlift (\<lambda>e. ensure (\<not> enc_stack_depth e > enc_max_depth e) (EncMaxDepthExceeded (enc_max_depth e))))"

definition enc_track_stack_depth_decrease :: "unit encodes" where
  "enc_track_stack_depth_decrease = mmodify (\<lambda>e. e\<lparr>enc_stack_depth := enc_stack_depth e - 1\<rparr>)"

definition write_byte :: "u8 \<Rightarrow> unit encodes" where
  "write_byte n = mmodify (\<lambda>e. e\<lparr>enc_buf := enc_buf e @ [n]\<rparr>)"

definition write_slice :: "u8 list \<Rightarrow> unit encodes" where
  "write_slice bs = mmodify (\<lambda>e. e\<lparr>enc_buf := enc_buf e @ bs\<rparr>)"

definition write_discriminator :: "u8 \<Rightarrow> unit encodes" where
  "write_discriminator discriminator = write_byte discriminator"

definition write_payload_prefix :: "u8 \<Rightarrow> unit encodes" where
  "write_payload_prefix payload_prefix = write_byte payload_prefix"

text \<open>The loop of \<^verbatim>\<open>write_size\<close> ends because the size is shifted right each round.\<close>

lemma drop_bit_7_less: "drop_bit 7 n \<noteq> 0 \<Longrightarrow> drop_bit 7 n < (n :: nat)"
  by (cases "n = 0") (auto simp: drop_bit_eq_div)

function write_size_loop :: "nat \<Rightarrow> unit encodes" where
  "write_size_loop sz =
    (let seven_bits = sz AND 0x7F; sz' = drop_bit 7 sz
     in if sz' = 0 then write_byte (of_nat seven_bits)
        else mseq (write_byte (of_nat seven_bits OR 0x80)) (write_size_loop sz'))"
  by auto
termination by (relation "measure id") (auto simp: drop_bit_7_less)

declare write_size_loop.simps [simp del]

definition write_size :: "nat \<Rightarrow> unit encodes" where
  "write_size sz =
     mseq (mlift (\<lambda>_. ensure (\<not> sz > 0x0FFFFFFF) (SizeTooLarge sz 0x0FFFFFFF)))
     (write_size_loop sz)"

text \<open>\<^verbatim>\<open>encode_deeper_body\<close>, on the \<^verbatim>\<open>encode_body\<close> of the value.\<close>

definition encode_deeper_body :: "unit encodes \<Rightarrow> unit encodes" where
  "encode_deeper_body body =
     mseq enc_track_stack_depth_increase (mseq body enc_track_stack_depth_decrease)"

section \<open>The decoder\<close>

datatype decode_error =
    ExtraTrailingBytes nat
  | BufferUnderflow nat nat
  | UnexpectedPayloadPrefix u8 u8
  | UnexpectedValueKind u8 u8
  | UnexpectedCustomValueKind u8
  | UnexpectedSize nat nat
  | UnexpectedDiscriminator u8 u8
  | UnknownValueKind u8
  | UnknownDiscriminator u8
  | InvalidBool u8
  | InvalidUtf8
  | InvalidSize
  | DecMaxDepthExceeded nat
  | DuplicateKey
  | InvalidCustomValue

record vec_decoder =
  dec_input :: "u8 list"
  dec_offset :: nat
  dec_stack_depth :: nat
  dec_max_depth :: nat

definition VecDecoder_new :: "u8 list \<Rightarrow> nat \<Rightarrow> vec_decoder" where
  "VecDecoder_new input max_depth =
     \<lparr>dec_input = input, dec_offset = 0, dec_stack_depth = 0, dec_max_depth = max_depth\<rparr>"

type_synonym 'a decodes = "(vec_decoder, decode_error, 'a) mut_fn"

definition remaining_bytes :: "vec_decoder \<Rightarrow> nat" where
  "remaining_bytes d = length (dec_input d) - dec_offset d"

definition peek_remaining :: "vec_decoder \<Rightarrow> u8 list" where
  "peek_remaining d = drop (dec_offset d) (dec_input d)"

definition require_remaining :: "nat \<Rightarrow> unit decodes" where
  "require_remaining n =
     mlift (\<lambda>d. ensure (\<not> remaining_bytes d < n) (BufferUnderflow n (remaining_bytes d)))"

definition dec_track_stack_depth_increase :: "unit decodes" where
  "dec_track_stack_depth_increase =
     mseq (mmodify (\<lambda>d. d\<lparr>dec_stack_depth := dec_stack_depth d + 1\<rparr>))
     (mlift (\<lambda>d. ensure (\<not> dec_stack_depth d > dec_max_depth d) (DecMaxDepthExceeded (dec_max_depth d))))"

definition dec_track_stack_depth_decrease :: "unit decodes" where
  "dec_track_stack_depth_decrease = mmodify (\<lambda>d. d\<lparr>dec_stack_depth := dec_stack_depth d - 1\<rparr>)"

definition read_byte :: "u8 decodes" where
  "read_byte =
     mseq (require_remaining 1)
     (\<lambda>d. (d\<lparr>dec_offset := dec_offset d + 1\<rparr>, Ok (dec_input d ! dec_offset d)))"

definition read_slice :: "nat \<Rightarrow> u8 list decodes" where
  "read_slice n =
     mseq (require_remaining n)
     (\<lambda>d. (d\<lparr>dec_offset := dec_offset d + n\<rparr>, Ok (take n (drop (dec_offset d) (dec_input d)))))"

definition check_end :: "unit decodes" where
  "check_end = mlift (\<lambda>d. let n = remaining_bytes d in ensure (\<not> n \<noteq> 0) (ExtraTrailingBytes n))"

definition read_discriminator :: "u8 decodes" where
  "read_discriminator = read_byte"

definition read_value_kind :: "(u8 \<Rightarrow> 'x option) \<Rightarrow> 'x value_kind decodes" where
  "read_value_kind from_u8 =
     mbind read_byte (\<lambda>ident.
     mlift (\<lambda>_. ok_or (value_kind_from_u8 from_u8 ident) (UnknownValueKind ident)))"

text \<open>
  The loop of \<^verbatim>\<open>read_size\<close>: it returns the size, the last byte read and the shift. A fourth
  continuation byte ends it with an error, so that the size stays below \<open>2 ^ 28\<close>.
\<close>

lemma mbind_cong [fundef_cong]:
  "m s = m' s' \<Longrightarrow> s = s' \<Longrightarrow> (\<And>x t. m' s' = (t, Ok x) \<Longrightarrow> k x t = k' x t) \<Longrightarrow> mbind m k s = mbind m' k' s'"
  by (auto simp: mbind_def split: prod.splits sum.splits)

function read_size_loop :: "nat \<Rightarrow> nat \<Rightarrow> (nat \<times> u8 \<times> nat) decodes" where
  "read_size_loop sz shift d =
     mbind read_byte (\<lambda>b d.
       let sz' = sz OR push_bit shift (unat (b AND 0x7F))
       in if b < 0x80 then (d, Ok (sz', b, shift))
          else if shift + 7 \<ge> 28 then (d, Error InvalidSize)
          else read_size_loop sz' (shift + 7) d) d"
  by auto
termination by (relation "measure (\<lambda>(sz, shift, d). 28 - shift)") auto

declare read_size_loop.simps [simp del]

definition read_size :: "nat decodes" where
  "read_size =
     mbind (read_size_loop 0 0) (\<lambda>(sz, b, shift).
     mlift (\<lambda>_. if b = 0 \<and> shift \<noteq> 0 then Error InvalidSize else Ok sz))"

definition check_preloaded_value_kind :: "('x \<Rightarrow> u8) \<Rightarrow> 'x value_kind \<Rightarrow> 'x value_kind \<Rightarrow> unit decodes" where
  "check_preloaded_value_kind as_u8 value_kind expected =
     mlift (\<lambda>_. if value_kind = expected then Ok ()
       else Error (UnexpectedValueKind (value_kind_as_u8 as_u8 expected) (value_kind_as_u8 as_u8 value_kind)))"

definition read_and_check_payload_prefix :: "u8 \<Rightarrow> unit decodes" where
  "read_and_check_payload_prefix expected_prefix =
     mbind read_byte (\<lambda>actual_payload_prefix.
     mlift (\<lambda>_. if actual_payload_prefix \<noteq> expected_prefix
       then Error (UnexpectedPayloadPrefix expected_prefix actual_payload_prefix) else Ok ()))"


section \<open>Encoding values\<close>

record ('x, 'y) custom_codec =
  custom_as_u8 :: "'x \<Rightarrow> u8"
  custom_from_u8 :: "u8 \<Rightarrow> 'x option"
  get_custom_value_kind :: "'y \<Rightarrow> 'x"
  custom_encode_body :: "'y \<Rightarrow> unit encodes"
  custom_decode_body :: "'x value_kind \<Rightarrow> 'y decodes"

definition kind_byte :: "('x, 'y) custom_codec \<Rightarrow> 'x value_kind \<Rightarrow> u8" where
  "kind_byte c = value_kind_as_u8 (custom_as_u8 c)"

definition write_value_kind :: "('x, 'y) custom_codec \<Rightarrow> 'x value_kind \<Rightarrow> unit encodes" where
  "write_value_kind c ty = write_byte (kind_byte c ty)"

definition get_value_kind :: "('x, 'y) custom_codec \<Rightarrow> ('x, 'y) sbor_value \<Rightarrow> 'x value_kind" where
  "get_value_kind c v = (case v of
     VBool _ \<Rightarrow> KBool | VI8 _ \<Rightarrow> KI8 | VI16 _ \<Rightarrow> KI16 | VI32 _ \<Rightarrow> KI32 | VI64 _ \<Rightarrow> KI64 | VI128 _ \<Rightarrow> KI128
   | VU8 _ \<Rightarrow> KU8 | VU16 _ \<Rightarrow> KU16 | VU32 _ \<Rightarrow> KU32 | VU64 _ \<Rightarrow> KU64 | VU128 _ \<Rightarrow> KU128 | VString _ \<Rightarrow> KString
   | VEnum _ _ \<Rightarrow> KEnum | VArray _ _ \<Rightarrow> KArray | VTuple _ \<Rightarrow> KTuple | VMap _ _ _ \<Rightarrow> KMap
   | VCustom v \<Rightarrow> KCustom (get_custom_value_kind c v))"

text \<open>
  \<^verbatim>\<open>encode_value_kind\<close> of \<^verbatim>\<open>Value\<close>. For a custom value it is the \<^verbatim>\<open>encode_value_kind\<close> of the custom
  type, which writes the value's custom kind.
\<close>

definition encode_value_kind :: "('x, 'y) custom_codec \<Rightarrow> ('x, 'y) sbor_value \<Rightarrow> unit encodes" where
  "encode_value_kind c v = (case v of
     VBool _ \<Rightarrow> write_value_kind c KBool
   | VI8 _ \<Rightarrow> write_value_kind c KI8 | VI16 _ \<Rightarrow> write_value_kind c KI16 | VI32 _ \<Rightarrow> write_value_kind c KI32
   | VI64 _ \<Rightarrow> write_value_kind c KI64 | VI128 _ \<Rightarrow> write_value_kind c KI128
   | VU8 _ \<Rightarrow> write_value_kind c KU8 | VU16 _ \<Rightarrow> write_value_kind c KU16 | VU32 _ \<Rightarrow> write_value_kind c KU32
   | VU64 _ \<Rightarrow> write_value_kind c KU64 | VU128 _ \<Rightarrow> write_value_kind c KU128
   | VString _ \<Rightarrow> write_value_kind c KString
   | VEnum _ _ \<Rightarrow> write_value_kind c KEnum | VArray _ _ \<Rightarrow> write_value_kind c KArray
   | VTuple _ \<Rightarrow> write_value_kind c KTuple | VMap _ _ _ \<Rightarrow> write_value_kind c KMap
   | VCustom v \<Rightarrow> write_value_kind c (KCustom (get_custom_value_kind c v)))"

text \<open>The \<^verbatim>\<open>encode\<close> of the encoder, on the \<^verbatim>\<open>encode_body\<close> of the value.\<close>

definition encode_with :: "('x, 'y) custom_codec \<Rightarrow> ('x, 'y) sbor_value \<Rightarrow> unit encodes \<Rightarrow> unit encodes" where
  "encode_with c v body = mseq (encode_value_kind c v) (encode_deeper_body body)"

definition encode_bool_body :: "bool \<Rightarrow> unit encodes" where
  "encode_bool_body v = write_byte (if v then 1 else 0)"

definition encode_int_body :: "nat \<Rightarrow> int \<Rightarrow> unit encodes" where
  "encode_int_body n x = write_slice (to_le_bytes n x)"

definition encode_str_body :: "u8 list \<Rightarrow> unit encodes" where
  "encode_str_body s = mseq (write_size (length s)) (write_slice s)"

lemma mforeach_cong [fundef_cong]:
  "xs = ys \<Longrightarrow> (\<And>x. x \<in> set ys \<Longrightarrow> f x = g x) \<Longrightarrow> mforeach f xs = mforeach g ys"
  by (induction ys arbitrary: xs) auto

text \<open>An array element and a map entry: the kind is checked, then the body is written.\<close>

definition encode_element :: "('x, 'y) custom_codec \<Rightarrow> 'x value_kind \<Rightarrow> ('x, 'y) sbor_value \<Rightarrow> unit encodes \<Rightarrow> unit encodes" where
  "encode_element c element_value_kind v body =
     mseq (mlift (\<lambda>_. ensure (\<not> get_value_kind c v \<noteq> element_value_kind)
        (MismatchingArrayElementValueKind (kind_byte c element_value_kind) (kind_byte c (get_value_kind c v)))))
     (encode_deeper_body body)"

definition encode_entry :: "('x, 'y) custom_codec \<Rightarrow> 'x value_kind \<Rightarrow> 'x value_kind \<Rightarrow>
    ('x, 'y) sbor_value \<Rightarrow> ('x, 'y) sbor_value \<Rightarrow> unit encodes \<Rightarrow> unit encodes \<Rightarrow> unit encodes" where
  "encode_entry c key_value_kind value_value_kind k v key_body value_body =
     mseq (mlift (\<lambda>_. ensure (\<not> get_value_kind c k \<noteq> key_value_kind)
        (MismatchingMapKeyValueKind (kind_byte c key_value_kind) (kind_byte c (get_value_kind c k)))))
     (mseq (encode_deeper_body key_body)
     (mseq (mlift (\<lambda>_. ensure (\<not> get_value_kind c v \<noteq> value_value_kind)
        (MismatchingMapValueValueKind (kind_byte c value_value_kind) (kind_byte c (get_value_kind c v)))))
     (encode_deeper_body value_body)))"

fun encode_body :: "('x, 'y) custom_codec \<Rightarrow> ('x, 'y) sbor_value \<Rightarrow> unit encodes" where
  "encode_body c (VBool v) = encode_bool_body v"
| "encode_body c (VI8 v) = write_byte v"
| "encode_body c (VI16 v) = encode_int_body 2 (sint v)"
| "encode_body c (VI32 v) = encode_int_body 4 (sint v)"
| "encode_body c (VI64 v) = encode_int_body 8 (sint v)"
| "encode_body c (VI128 v) = encode_int_body 16 (sint v)"
| "encode_body c (VU8 v) = write_byte v"
| "encode_body c (VU16 v) = encode_int_body 2 (uint v)"
| "encode_body c (VU32 v) = encode_int_body 4 (uint v)"
| "encode_body c (VU64 v) = encode_int_body 8 (uint v)"
| "encode_body c (VU128 v) = encode_int_body 16 (uint v)"
| "encode_body c (VString v) = encode_str_body v"
| "encode_body c (VEnum discriminator flds) =
     mseq (write_discriminator discriminator)
     (mseq (write_size (length flds))
     (mforeach (\<lambda>field. encode_with c field (encode_body c field)) flds))"
| "encode_body c (VArray element_value_kind elements) =
     mseq (write_value_kind c element_value_kind)
     (mseq (write_size (length elements))
     (mforeach (\<lambda>item. encode_element c element_value_kind item (encode_body c item)) elements))"
| "encode_body c (VTuple flds) =
     mseq (write_size (length flds))
     (mforeach (\<lambda>field. encode_with c field (encode_body c field)) flds)"
| "encode_body c (VMap key_value_kind value_value_kind entries) =
     mseq (write_value_kind c key_value_kind)
     (mseq (write_value_kind c value_value_kind)
     (mseq (write_size (length entries))
     (mforeach (\<lambda>entry. encode_entry c key_value_kind value_value_kind (fst entry) (snd entry)
        (encode_body c (fst entry)) (encode_body c (snd entry))) entries)))"
| "encode_body c (VCustom v) = custom_encode_body c v"

definition encode :: "('x, 'y) custom_codec \<Rightarrow> ('x, 'y) sbor_value \<Rightarrow> unit encodes" where
  "encode c v = encode_with c v (encode_body c v)"

definition encode_payload :: "('x, 'y) custom_codec \<Rightarrow> ('x, 'y) sbor_value \<Rightarrow> u8 \<Rightarrow> unit encodes" where
  "encode_payload c v payload_prefix = mseq (write_payload_prefix payload_prefix) (encode c v)"

section \<open>Decoding values\<close>

definition decode_bool_body :: "('x, 'y) custom_codec \<Rightarrow> 'x value_kind \<Rightarrow> bool decodes" where
  "decode_bool_body c value_kind =
     mseq (check_preloaded_value_kind (custom_as_u8 c) value_kind KBool)
     (mbind read_byte (\<lambda>b. mlift (\<lambda>_. if b = 0 then Ok False else if b = 1 then Ok True else Error (InvalidBool b))))"

definition decode_byte_body :: "('x, 'y) custom_codec \<Rightarrow> 'x value_kind \<Rightarrow> 'x value_kind \<Rightarrow> u8 decodes" where
  "decode_byte_body c own_kind value_kind =
     mseq (check_preloaded_value_kind (custom_as_u8 c) value_kind own_kind) read_byte"

definition decode_int_body :: "('x, 'y) custom_codec \<Rightarrow> 'x value_kind \<Rightarrow> nat \<Rightarrow> 'x value_kind \<Rightarrow> int decodes" where
  "decode_int_body c own_kind n value_kind =
     mseq (check_preloaded_value_kind (custom_as_u8 c) value_kind own_kind)
     (mbind (read_slice n) (\<lambda>bs. mreturn (from_le_bytes bs)))"

definition decode_string_body :: "('x, 'y) custom_codec \<Rightarrow> 'x value_kind \<Rightarrow> u8 list decodes" where
  "decode_string_body c value_kind =
     mseq (check_preloaded_value_kind (custom_as_u8 c) value_kind KString)
     (mbind read_size (\<lambda>len.
     mbind (read_slice len) (\<lambda>bs.
     mlift (\<lambda>_. if is_utf8 bs then Ok bs else Error InvalidUtf8))))"

text \<open>The loop \<^verbatim>\<open>for _ in 0..n\<close> pushing what its body returns on a vector.\<close>

primrec mtimes :: "nat \<Rightarrow> ('s, 'e, 'a) mut_fn \<Rightarrow> ('s, 'e, 'a list) mut_fn" where
  "mtimes 0 m = mreturn []"
| "mtimes (Suc n) m = mbind m (\<lambda>x. mbind (mtimes n m) (\<lambda>xs. mreturn (x # xs)))"

text \<open>
  \<^verbatim>\<open>decode_body_with_value_kind\<close> of \<^verbatim>\<open>Value\<close>. Its argument \<open>deeper\<close> is the decoder's
  \<^verbatim>\<open>decode_deeper_body_with_value_kind\<close>, called for the children.
\<close>

definition decode_body_with_value_kind ::
    "('x, 'y) custom_codec \<Rightarrow> ('x value_kind \<Rightarrow> ('x, 'y) sbor_value decodes) \<Rightarrow> 'x value_kind \<Rightarrow> ('x, 'y) sbor_value decodes" where
  "decode_body_with_value_kind c deeper value_kind = (case value_kind of
     KBool \<Rightarrow> mbind (decode_bool_body c value_kind) (\<lambda>v. mreturn (VBool v))
   | KI8 \<Rightarrow> mbind (decode_byte_body c KI8 value_kind) (\<lambda>v. mreturn (VI8 v))
   | KI16 \<Rightarrow> mbind (decode_int_body c KI16 2 value_kind) (\<lambda>v. mreturn (VI16 (word_of_int v)))
   | KI32 \<Rightarrow> mbind (decode_int_body c KI32 4 value_kind) (\<lambda>v. mreturn (VI32 (word_of_int v)))
   | KI64 \<Rightarrow> mbind (decode_int_body c KI64 8 value_kind) (\<lambda>v. mreturn (VI64 (word_of_int v)))
   | KI128 \<Rightarrow> mbind (decode_int_body c KI128 16 value_kind) (\<lambda>v. mreturn (VI128 (word_of_int v)))
   | KU8 \<Rightarrow> mbind (decode_byte_body c KU8 value_kind) (\<lambda>v. mreturn (VU8 v))
   | KU16 \<Rightarrow> mbind (decode_int_body c KU16 2 value_kind) (\<lambda>v. mreturn (VU16 (word_of_int v)))
   | KU32 \<Rightarrow> mbind (decode_int_body c KU32 4 value_kind) (\<lambda>v. mreturn (VU32 (word_of_int v)))
   | KU64 \<Rightarrow> mbind (decode_int_body c KU64 8 value_kind) (\<lambda>v. mreturn (VU64 (word_of_int v)))
   | KU128 \<Rightarrow> mbind (decode_int_body c KU128 16 value_kind) (\<lambda>v. mreturn (VU128 (word_of_int v)))
   | KString \<Rightarrow> mbind (decode_string_body c value_kind) (\<lambda>v. mreturn (VString v))
   | KTuple \<Rightarrow>
       mbind read_size (\<lambda>len.
       mbind (mtimes len (mbind (read_value_kind (custom_from_u8 c)) deeper)) (\<lambda>flds.
       mreturn (VTuple flds)))
   | KEnum \<Rightarrow>
       mbind read_discriminator (\<lambda>discriminator.
       mbind read_size (\<lambda>len.
       mbind (mtimes len (mbind (read_value_kind (custom_from_u8 c)) deeper)) (\<lambda>flds.
       mreturn (VEnum discriminator flds))))
   | KArray \<Rightarrow>
       mbind (read_value_kind (custom_from_u8 c)) (\<lambda>element_value_kind.
       mbind read_size (\<lambda>len.
       mbind (mtimes len (deeper element_value_kind)) (\<lambda>elements.
       mreturn (VArray element_value_kind elements))))
   | KMap \<Rightarrow>
       mbind (read_value_kind (custom_from_u8 c)) (\<lambda>key_value_kind.
       mbind (read_value_kind (custom_from_u8 c)) (\<lambda>value_value_kind.
       mbind read_size (\<lambda>len.
       mbind (mtimes len
         (mbind (deeper key_value_kind) (\<lambda>k. mbind (deeper value_value_kind) (\<lambda>v. mreturn (k, v)))))
         (\<lambda>entries. mreturn (VMap key_value_kind value_value_kind entries)))))
   | KCustom _ \<Rightarrow> mbind (custom_decode_body c value_kind) (\<lambda>v. mreturn (VCustom v)))"

text \<open>
  \<^verbatim>\<open>decode_deeper_body_with_value_kind\<close> of the decoder: one level deeper, or an error when the
  limit is reached. The recursion is bounded by the number of levels left. At the entry that
  number is \<open>max_depth - stack_depth\<close>, and the branch below the last level is never taken: there
  \<^verbatim>\<open>track_stack_depth_increase\<close> has already failed.
\<close>

primrec decode_deeper_levels ::
    "('x, 'y) custom_codec \<Rightarrow> nat \<Rightarrow> 'x value_kind \<Rightarrow> ('x, 'y) sbor_value decodes" where
  "decode_deeper_levels c 0 = (\<lambda>value_kind. mseq dec_track_stack_depth_increase (mlift (\<lambda>_. Panics)))"
| "decode_deeper_levels c (Suc n) = (\<lambda>value_kind.
     mseq dec_track_stack_depth_increase
     (mbind (decode_body_with_value_kind c (decode_deeper_levels c n) value_kind) (\<lambda>decoded.
      mseq dec_track_stack_depth_decrease (mreturn decoded))))"

definition decode_deeper_body_with_value_kind ::
    "('x, 'y) custom_codec \<Rightarrow> 'x value_kind \<Rightarrow> ('x, 'y) sbor_value decodes" where
  "decode_deeper_body_with_value_kind c value_kind d =
     decode_deeper_levels c (dec_max_depth d - dec_stack_depth d) value_kind d"

definition decode :: "('x, 'y) custom_codec \<Rightarrow> ('x, 'y) sbor_value decodes" where
  "decode c = mbind (read_value_kind (custom_from_u8 c)) (decode_deeper_body_with_value_kind c)"

definition decode_payload :: "('x, 'y) custom_codec \<Rightarrow> u8 \<Rightarrow> ('x, 'y) sbor_value decodes" where
  "decode_payload c expected_prefix =
     mseq (read_and_check_payload_prefix expected_prefix)
     (mbind (decode c) (\<lambda>v. mseq check_end (mreturn v)))"

text \<open>The entry points, such as \<^verbatim>\<open>scrypto_encode_with_depth_limit\<close>, with their prefix as argument.\<close>

definition vec_encode :: "('x, 'y) custom_codec \<Rightarrow> u8 \<Rightarrow> nat \<Rightarrow> ('x, 'y) sbor_value \<Rightarrow> (encode_error, u8 list) res" where
  "vec_encode c payload_prefix depth_limit v =
     (case encode_payload c v payload_prefix (VecEncoder_new [] depth_limit) of
        (e, Inl err) \<Rightarrow> Inl err | (e, Inr _) \<Rightarrow> Ok (enc_buf e))"

definition vec_decode :: "('x, 'y) custom_codec \<Rightarrow> u8 \<Rightarrow> nat \<Rightarrow> u8 list \<Rightarrow> (decode_error, ('x, 'y) sbor_value) res" where
  "vec_decode c expected_prefix depth_limit buf =
     snd (decode_payload c expected_prefix (VecDecoder_new buf depth_limit))"

end
