(* ===== verification/Sbor_Format.thy ===== *)
theory Sbor_Format
  imports Sbor_Codec
begin

text \<open>
  The SBOR format as a specification, and that encoder and decoder implement it. \<open>body_bytes\<close>
  gives the bytes of a value and \<open>encodable\<close> says which values fit the limits of the format at a
  given depth. \<open>writes\<close> and \<open>parses\<close> say of an operation of the encoder, or of the decoder, exactly
  when it succeeds and what it then writes, or consumes; they compose along the operations. What
  the codec needs of its custom values is the locale \<open>custom_sbor\<close>.
\<close>

named_theorems writes_intros \<open>what the operations of the encoder write\<close>
named_theorems parses_intros \<open>what the operations of the decoder consume\<close>


section \<open>What an encoder operation writes\<close>

definition enc_left :: "vec_encoder \<Rightarrow> nat" where
  "enc_left e = enc_max_depth e - enc_stack_depth e"

text \<open>
  With \<open>n\<close> levels left the operation succeeds exactly when \<open>ok\<close> holds, and then appends \<open>bs\<close> to the
  buffer.
\<close>

definition writes :: "nat \<Rightarrow> unit encodes \<Rightarrow> bool \<Rightarrow> u8 list \<Rightarrow> bool" where
  "writes n m ok bs \<longleftrightarrow>
     (\<forall>e. enc_left e = n \<longrightarrow> (\<forall>e'. m e = (e', Ok ()) \<longleftrightarrow> ok \<and> e' = e\<lparr>enc_buf := enc_buf e @ bs\<rparr>))"

lemma writesI:
  "(\<And>e e'. enc_left e = n \<Longrightarrow> m e = (e', Ok ()) \<longleftrightarrow> ok \<and> e' = e\<lparr>enc_buf := enc_buf e @ bs\<rparr>) \<Longrightarrow> writes n m ok bs"
  unfolding writes_def by blast

lemma writesD:
  "writes n m ok bs \<Longrightarrow> enc_left e = n \<Longrightarrow> m e = (e', Ok ()) \<longleftrightarrow> ok \<and> e' = e\<lparr>enc_buf := enc_buf e @ bs\<rparr>"
  unfolding writes_def by blast

lemma writes_cong: "writes n m ok bs \<Longrightarrow> ok = ok' \<Longrightarrow> bs = bs' \<Longrightarrow> writes n m ok' bs'"
  by simp

lemma writes_byte [writes_intros]: "writes n (write_byte b) True [b]"
  by (rule writesI) (auto simp: write_byte_def)

lemma writes_slice [writes_intros]: "writes n (write_slice bs) True bs"
  by (rule writesI) (auto simp: write_slice_def)

lemma writes_check [writes_intros]: "writes n (mlift (\<lambda>_. ensure b err)) b []"
  by (rule writesI) (auto simp: ensure_def)

lemma writes_mseq:
  assumes "writes n m b bs" and "writes n m' b' bs'"
  shows "writes n (mseq m m') (b \<and> b') (bs @ bs')"
proof (rule writesI)
  fix e e' assume n: "enc_left e = n"
  define e1 where "e1 = e\<lparr>enc_buf := enc_buf e @ bs\<rparr>"
  have "enc_left e1 = n" using n by (simp add: e1_def enc_left_def)
  then have "m' e1 = (e', Ok ()) \<longleftrightarrow> b' \<and> e' = e1\<lparr>enc_buf := enc_buf e1 @ bs'\<rparr>"
    using writesD [OF assms(2)] by blast
  moreover have "m e = (e2, Ok ()) \<longleftrightarrow> b \<and> e2 = e1" for e2
    using writesD [OF assms(1) n] by (simp add: e1_def)
  ultimately show "mseq m m' e = (e', Ok ()) \<longleftrightarrow> (b \<and> b') \<and> e' = e\<lparr>enc_buf := enc_buf e @ (bs @ bs')\<rparr>"
    by (auto simp: mseq_eq_Inr_iff e1_def)
qed

lemma writes_mforeach:
  assumes "\<And>x. x \<in> set xs \<Longrightarrow> writes n (f x) (ok x) (bytes x)"
  shows "writes n (mforeach f xs) (\<forall>x \<in> set xs. ok x) (concat (map bytes xs))"
  using assms
proof (induction xs)
  case Nil
  then show ?case by (auto intro: writesI)
next
  case (Cons x xs)
  then show ?case using writes_mseq [of n "f x" "ok x" "bytes x"] by simp
qed

text \<open>One level down: fails without a level left, and leaves the depth as it was.\<close>

lemma writes_deeper:
  assumes "0 < n \<Longrightarrow> writes (n - 1) m ok bs"
  shows "writes n (encode_deeper_body m) (0 < n \<and> ok) bs"
proof (rule writesI)
  fix e e' assume n: "enc_left e = n"
  define e1 where "e1 = e\<lparr>enc_stack_depth := enc_stack_depth e + 1\<rparr>"
  show "encode_deeper_body m e = (e', Ok ()) \<longleftrightarrow> (0 < n \<and> ok) \<and> e' = e\<lparr>enc_buf := enc_buf e @ bs\<rparr>"
  proof (cases "0 < n")
    case True
    then have "enc_track_stack_depth_increase e = (e1, Ok ())"
      using n by (simp add: enc_track_stack_depth_increase_def e1_def enc_left_def)
    moreover have "enc_left e1 = n - 1" using n by (simp add: e1_def enc_left_def)
    ultimately show ?thesis using writesD [OF assms [OF True], of e1] True
      by (auto simp: encode_deeper_body_def mseq_eq_Inr_iff enc_track_stack_depth_decrease_def e1_def)
  next
    case False
    then have "enc_track_stack_depth_increase e = (e1, Error (EncMaxDepthExceeded (enc_max_depth e)))"
      using n by (auto simp: enc_track_stack_depth_increase_def e1_def enc_left_def)
    then show ?thesis using False by (simp add: encode_deeper_body_def)
  qed
qed


section \<open>What a decoder operation consumes\<close>

definition dec_left :: "vec_decoder \<Rightarrow> nat" where
  "dec_left d = dec_max_depth d - dec_stack_depth d"

definition skip :: "nat \<Rightarrow> vec_decoder \<Rightarrow> vec_decoder" where
  "skip n d = d\<lparr>dec_offset := dec_offset d + n\<rparr>"

lemma skip_simps [simp]:
  "dec_left (skip n d) = dec_left d"
  "peek_remaining (skip n d) = drop n (peek_remaining d)"
  "skip 0 d = d"
  "skip n (skip m d) = skip (m + n) d"
  "dec_offset (skip n d) = dec_offset d + n"
  "dec_input (skip n d) = dec_input d"
  "dec_max_depth (skip n d) = dec_max_depth d"
  by (simp_all add: skip_def dec_left_def peek_remaining_def add.commute)

lemma length_peek [simp]: "length (peek_remaining d) = remaining_bytes d"
  by (simp add: peek_remaining_def remaining_bytes_def)

text \<open>
  With \<open>n\<close> levels left the operation succeeds exactly when the input goes on with bytes \<open>bs\<close> that
  represent the result, in the sense of \<open>S\<close>, and then consumes these bytes; otherwise it returns
  an error, and it never panics.
\<close>

definition parses :: "nat \<Rightarrow> 'a decodes \<Rightarrow> ('a \<Rightarrow> u8 list \<Rightarrow> bool) \<Rightarrow> bool" where
  "parses n m S \<longleftrightarrow> (\<forall>d. dec_left d = n \<longrightarrow> snd (m d) \<noteq> Panics \<and> (\<forall>v d'. m d = (d', Ok v) \<longleftrightarrow>
     (\<exists>bs r. S v bs \<and> peek_remaining d = bs @ r \<and> d' = skip (length bs) d)))"

lemma parsesI:
  assumes "\<And>d v d'. dec_left d = n \<Longrightarrow> m d = (d', Ok v) \<Longrightarrow>
      \<exists>bs r. S v bs \<and> peek_remaining d = bs @ r \<and> d' = skip (length bs) d"
    and "\<And>d v bs r. dec_left d = n \<Longrightarrow> S v bs \<Longrightarrow> peek_remaining d = bs @ r \<Longrightarrow> m d = (skip (length bs) d, Ok v)"
    and "\<And>d. dec_left d = n \<Longrightarrow> snd (m d) \<noteq> Panics"
  shows "parses n m S"
  unfolding parses_def using assms by blast

lemma parsesD:
  assumes "parses n m S" and "dec_left d = n" and "m d = (d', Ok v)"
  obtains bs r where "S v bs" "peek_remaining d = bs @ r" "d' = skip (length bs) d"
  using assms unfolding parses_def by blast

lemma parses_run:
  "parses n m S \<Longrightarrow> dec_left d = n \<Longrightarrow> S v bs \<Longrightarrow> peek_remaining d = bs @ r \<Longrightarrow> m d = (skip (length bs) d, Ok v)"
  unfolding parses_def by blast

lemma parses_calm: "parses n m S \<Longrightarrow> dec_left d = n \<Longrightarrow> snd (m d) \<noteq> Panics"
  unfolding parses_def by blast

lemma parses_cong: "parses n m S \<Longrightarrow> (\<And>v bs. S v bs \<longleftrightarrow> S' v bs) \<Longrightarrow> parses n m S'"
  unfolding parses_def by simp

lemma parses_mreturn [parses_intros]: "parses n (mreturn x) (\<lambda>v bs. v = x \<and> bs = [])"
  by (rule parsesI) auto

lemma ok_or_calm [simp]: "ok_or x e \<noteq> Panics"
  by (cases x) simp_all

lemma parses_mlift: "r \<noteq> Panics \<Longrightarrow> parses n (mlift (\<lambda>_. r)) (\<lambda>v bs. r = Ok v \<and> bs = [])"
  by (rule parsesI) auto

lemma parses_mbind:
  assumes "parses n m S" and "\<And>x. parses n (k x) (T x)"
  shows "parses n (mbind m k) (\<lambda>v bs. \<exists>x as cs. S x as \<and> T x v cs \<and> bs = as @ cs)"
proof (rule parsesI)
  fix d v d' assume n: "dec_left d = n" and run: "mbind m k d = (d', Ok v)"
  then obtain d1 x where m: "m d = (d1, Ok x)" and k: "k x d1 = (d', Ok v)"
    by (auto simp: mbind_eq_Inr_iff)
  obtain as r where as: "S x as" "peek_remaining d = as @ r" "d1 = skip (length as) d"
    using parsesD [OF assms(1) n m] .
  then have "dec_left d1 = n" using n by simp
  obtain cs r' where "T x v cs" "peek_remaining d1 = cs @ r'" "d' = skip (length cs) d1"
    using parsesD [OF assms(2) \<open>dec_left d1 = n\<close> k] .
  then show "\<exists>bs r. (\<exists>x as cs. S x as \<and> T x v cs \<and> bs = as @ cs) \<and> peek_remaining d = bs @ r \<and> d' = skip (length bs) d"
    using as by (intro exI [of _ "as @ cs"] exI [of _ r']) auto
next
  fix d v bs r assume n: "dec_left d = n" and "\<exists>x as cs. S x as \<and> T x v cs \<and> bs = as @ cs"
    and peek: "peek_remaining d = bs @ r"
  then obtain x as cs where *: "S x as" "T x v cs" "bs = as @ cs" by blast
  have "m d = (skip (length as) d, Ok x)"
    using parses_run [OF assms(1) n *(1)] peek *(3) by simp
  moreover have "k x (skip (length as) d) = (skip (length bs) d, Ok v)"
    using parses_run [OF assms(2), of "skip (length as) d" x v cs r] n * peek by simp
  ultimately show "mbind m k d = (skip (length bs) d, Ok v)" by simp
next
  fix d assume n: "dec_left d = n"
  obtain d' r where md: "m d = (d', r)" by (cases "m d")
  show "snd (mbind m k d) \<noteq> Panics"
  proof (cases r)
    case (Inl e)
    then show ?thesis using parses_calm [OF assms(1) n] md by (simp add: mbind_def)
  next
    case (Inr x)
    then have "dec_left d' = n" using parsesD [OF assms(1) n, of d' x] md n by (metis skip_simps(1))
    then show ?thesis using parses_calm [OF assms(2)] md Inr by simp
  qed
qed

lemma parses_mseq:
  assumes "parses n m S" and "parses n m' T"
  shows "parses n (mseq m m') (\<lambda>v bs. \<exists>as cs. S () as \<and> T v cs \<and> bs = as @ cs)"
  unfolding mseq_def by (rule parses_cong [OF parses_mbind [OF assms]]) auto

lemma parses_mtimes:
  assumes "parses n m S"
  shows "parses n (mtimes i m) (\<lambda>vs bs. length vs = i \<and> (\<exists>bss. list_all2 S vs bss \<and> bs = concat bss))"
proof (induction i)
  case 0
  show ?case unfolding mtimes.simps by (rule parses_cong [OF parses_mreturn]) auto
next
  case (Suc i)
  show ?case unfolding mtimes.simps
    apply (rule parses_cong [OF parses_mbind [OF assms parses_mbind [OF Suc parses_mreturn]]])
    subgoal for vs bs by (cases vs) (fastforce simp: list_all2_Cons1)+
    done
qed

lemma list_all2_map_iff:
  "list_all2 (\<lambda>v bs. G v \<and> bs = f v) vs bss \<longleftrightarrow> (\<forall>v \<in> set vs. G v) \<and> bss = map f vs"
  by (induction vs arbitrary: bss) (auto simp: list_all2_Cons1)

lemma parses_times:
  assumes "parses n m (\<lambda>v bs. G v \<and> bs = f v)"
  shows "parses n (mtimes i m) (\<lambda>vs bs. length vs = i \<and> (\<forall>v \<in> set vs. G v) \<and> bs = concat (map f vs))"
  by (rule parses_cong [OF parses_mtimes [OF assms]]) (auto simp: list_all2_map_iff)

text \<open>The primitive reads.\<close>

lemma parses_byte [parses_intros]: "parses n read_byte (\<lambda>b bs. bs = [b])"
proof (rule parsesI)
  fix d v d' assume "read_byte d = (d', Ok v)"
  then have "\<not> remaining_bytes d < 1" and v: "v = dec_input d ! dec_offset d" and d': "d' = skip 1 d"
    by (auto simp: read_byte_def require_remaining_def ensure_def mseq_def mbind_def skip_def split: if_splits)
  then have "peek_remaining d = v # drop (Suc (dec_offset d)) (dec_input d)"
    by (simp add: peek_remaining_def remaining_bytes_def Cons_nth_drop_Suc)
  then show "\<exists>bs r. bs = [v] \<and> peek_remaining d = bs @ r \<and> d' = skip (length bs) d"
    using d' by simp
next
  fix d v bs r assume "bs = [v]" and peek: "peek_remaining d = bs @ r"
  then have "\<not> remaining_bytes d < 1" and "dec_input d ! dec_offset d = v"
    by (metis length_peek length_append length_Cons list.size(3) One_nat_def not_add_less1,
        metis peek_remaining_def append_Cons append_Nil hd_drop_conv_nth list.sel(1) drop_all
          linorder_not_less list.distinct(1))
  then show "read_byte d = (skip (length bs) d, Ok v)"
    using \<open>bs = [v]\<close> by (simp add: read_byte_def require_remaining_def mseq_def mbind_def skip_def)
qed (simp add: read_byte_def require_remaining_def ensure_def mseq_def mbind_def)

lemma parses_slice [parses_intros]: "parses n (read_slice k) (\<lambda>v bs. length v = k \<and> bs = v)"
proof (rule parsesI)
  fix d v d' assume "read_slice k d = (d', Ok v)"
  then have "\<not> remaining_bytes d < k" and "v = take k (peek_remaining d)" and "d' = skip k d"
    by (auto simp: read_slice_def require_remaining_def ensure_def mseq_def mbind_def skip_def peek_remaining_def
        split: if_splits)
  then show "\<exists>bs r. (length v = k \<and> bs = v) \<and> peek_remaining d = bs @ r \<and> d' = skip (length bs) d"
    by (intro exI [of _ v] exI [of _ "drop k (peek_remaining d)"]) simp
next
  fix d v bs r assume "length v = k \<and> bs = v" and peek: "peek_remaining d = bs @ r"
  then have "\<not> remaining_bytes d < k" and "take k (peek_remaining d) = v"
    by (metis length_peek length_append not_add_less1) (use peek \<open>length v = k \<and> bs = v\<close> in simp)
  then show "read_slice k d = (skip (length bs) d, Ok v)"
    using \<open>length v = k \<and> bs = v\<close>
    by (simp add: read_slice_def require_remaining_def mseq_def mbind_def skip_def peek_remaining_def)
qed (simp add: read_slice_def require_remaining_def ensure_def mseq_def mbind_def)

lemma parses_check_kind:
  "parses n (check_preloaded_value_kind as_u8 k own_kind) (\<lambda>_ bs. k = own_kind \<and> bs = [])"
  unfolding check_preloaded_value_kind_def by (rule parses_cong [OF parses_mlift]) auto

text \<open>One level down.\<close>

lemma parses_deeper:
  assumes "0 < n \<Longrightarrow> parses (n - 1) m S"
  shows "parses n (mseq dec_track_stack_depth_increase (mbind m (\<lambda>v. mseq dec_track_stack_depth_decrease (mreturn v))))
    (\<lambda>v bs. 0 < n \<and> S v bs)"
proof -
  let ?m = "mseq dec_track_stack_depth_increase (mbind m (\<lambda>v. mseq dec_track_stack_depth_decrease (mreturn v)))"
  define inc where "inc d = d\<lparr>dec_stack_depth := dec_stack_depth d + 1\<rparr>" for d :: vec_decoder
  have inc: "dec_track_stack_depth_increase d =
      (inc d, if 0 < dec_left d then Ok () else Error (DecMaxDepthExceeded (dec_max_depth d)))" for d
    by (auto simp: dec_track_stack_depth_increase_def inc_def dec_left_def mseq_def mbind_def ensure_def)
  have left: "dec_left (inc d) = dec_left d - 1" "peek_remaining (inc d) = peek_remaining d" for d
    by (simp_all add: inc_def dec_left_def peek_remaining_def)
  have down: "(skip k (inc d))\<lparr>dec_stack_depth := dec_stack_depth (skip k (inc d)) - 1\<rparr> = skip k d" for d k
    by (simp add: inc_def skip_def)
  show ?thesis
  proof (cases "0 < n")
    case False
    then have "snd (?m d) \<noteq> Panics \<and> \<not> (\<exists>v d'. ?m d = (d', Ok v))" if "dec_left d = n" for d
      using that inc [of d] by (auto simp: mseq_def mbind_def)
    then show ?thesis using False unfolding parses_def by blast
  next
    case True
    have step: "?m d = (d', Ok v) \<longleftrightarrow>
        (\<exists>e. m (inc d) = (e, Ok v) \<and> d' = e\<lparr>dec_stack_depth := dec_stack_depth e - 1\<rparr>)" if "dec_left d = n" for d d' v
      using that True inc [of d]
      by (auto simp: mseq_eq_Inr_iff mbind_eq_Inr_iff dec_track_stack_depth_decrease_def)
    show ?thesis
    proof (rule parsesI)
      fix d v d' assume n: "dec_left d = n" and "?m d = (d', Ok v)"
      then obtain e where e: "m (inc d) = (e, Ok v)" "d' = e\<lparr>dec_stack_depth := dec_stack_depth e - 1\<rparr>"
        using step by blast
      moreover have "dec_left (inc d) = n - 1" using n by (simp add: left)
      ultimately obtain bs r where "S v bs" "peek_remaining (inc d) = bs @ r" "e = skip (length bs) (inc d)"
        using parsesD [OF assms [OF True]] by blast
      then show "\<exists>bs r. (0 < n \<and> S v bs) \<and> peek_remaining d = bs @ r \<and> d' = skip (length bs) d"
        using e(2) down left(2) True by auto
    next
      fix d v bs r assume n: "dec_left d = n" and "0 < n \<and> S v bs" and "peek_remaining d = bs @ r"
      then have "m (inc d) = (skip (length bs) (inc d), Ok v)"
        using parses_run [OF assms [OF True], of "inc d"] by (simp add: left)
      then show "?m d = (skip (length bs) d, Ok v)"
        by (intro iffD2 [OF step [OF n]] exI [of _ "skip (length bs) (inc d)"]) (simp add: down [simplified])
    next
      fix d assume "dec_left d = n"
      then have "snd (m (inc d)) \<noteq> Panics" using parses_calm [OF assms [OF True], of "inc d"] by (simp add: left)
      then show "snd (?m d) \<noteq> Panics" using True inc [of d] \<open>dec_left d = n\<close>
        by (auto simp: mseq_def mbind_def dec_track_stack_depth_decrease_def split: prod.splits sum.splits)
    qed
  qed
qed


section \<open>Sizes\<close>

text \<open>A size is written seven bits at a time, the lowest first, in at most four bytes.\<close>

fun size_bytes :: "nat \<Rightarrow> u8 list" where
  "size_bytes n = (if n < 128 then [of_nat n] else of_nat (n mod 128 + 128) # size_bytes (n div 128))"

declare size_bytes.simps [simp del]

lemma size_bytes_ne [simp]: "size_bytes n \<noteq> []"
  by (subst size_bytes.simps) simp

lemma or_push_bit: "x < 2 ^ k \<Longrightarrow> x OR push_bit k y = x + 2 ^ k * (y :: nat)"
proof -
  assume "x < 2 ^ k"
  then have "take_bit k x = x" by (simp add: take_bit_nat_eq_self)
  moreover have "take_bit k x AND push_bit k y = 0" by (auto simp: bit_eq_iff bit_simps)
  ultimately have "x + push_bit k y = x OR push_bit k y" by (metis disjunctive_add_eq_or)
  then show ?thesis by (simp add: push_bit_eq_mult mult.commute)
qed

lemma or_128: "x < 128 \<Longrightarrow> (of_nat x OR 0x80 :: u8) = of_nat (x + 128)"
proof -
  assume "x < 128"
  then have "x OR 128 = x + 128" using or_push_bit [of x 7 1] by (simp add: push_bit_eq_mult)
  then show ?thesis by (metis of_nat_numeral of_nat_or_eq)
qed

lemma and_127: "n AND 0x7F = n mod (128 :: nat)"
proof -
  have "n AND mask 7 = take_bit 7 n" by (simp add: take_bit_eq_mask)
  then show ?thesis by (simp add: mask_eq_exp_minus_1 take_bit_eq_mod)
qed

lemma writes_size_loop: "writes n (write_size_loop k) True (size_bytes k)"
proof (induction k rule: write_size_loop.induct)
  case (1 k)
  have b: "k mod 128 < 128" by simp
  show ?case
  proof (cases "k < 128")
    case True
    then show ?thesis
      by (subst write_size_loop.simps, subst size_bytes.simps)
        (simp add: and_127 drop_bit_eq_div writes_byte)
  next
    case False
    then have "writes n (write_size_loop (k div 128)) True (size_bytes (k div 128))"
      using 1 by (simp add: drop_bit_eq_div)
    moreover have "k div 128 \<noteq> 0" using False by (simp add: div_eq_0_iff)
    ultimately show ?thesis using False b writes_mseq [OF writes_byte, of n _ True "size_bytes (k div 128)"]
      by (subst write_size_loop.simps, subst size_bytes.simps)
        (simp add: and_127 drop_bit_eq_div Let_def or_128 del: of_nat_add)
  qed
qed

lemma writes_size [writes_intros]: "writes n (write_size k) (k \<le> 0x0FFFFFFF) (size_bytes k)"
  unfolding write_size_def
  by (rule writes_cong [OF writes_mseq [OF writes_check writes_size_loop]]) auto

text \<open>What a chain of bytes stands for, and when it is the one the encoder writes.\<close>

primrec size_value :: "u8 list \<Rightarrow> nat" where
  "size_value [] = 0"
| "size_value (b # bs) = unat b mod 128 + 128 * size_value bs"

fun size_chain :: "u8 list \<Rightarrow> bool" where
  "size_chain [] = False"
| "size_chain [b] = (b < 0x80)"
| "size_chain (b # bs) = (\<not> b < 0x80 \<and> size_chain bs)"

lemma unat_less_128: "unat b < 128 \<longleftrightarrow> b < (0x80 :: u8)"
  by (simp add: word_less_nat_alt)

lemma unat_byte: "n < 256 \<Longrightarrow> unat (of_nat n :: u8) = n"
  by (simp add: unsigned_of_nat take_bit_nat_eq_self)

lemma size_value_size_bytes: "size_value (size_bytes n) = n"
proof (induction n rule: size_bytes.induct)
  case (1 n)
  have "n mod 128 + 128 < 256" by simp
  then have "unat (of_nat (n mod 128 + 128) :: u8) = n mod 128 + 128"
    by (rule unat_byte)
  then show ?case using 1
    by (subst size_bytes.simps) (auto simp del: of_nat_add simp: unat_byte)
qed

lemma size_chain_size_bytes: "size_chain (size_bytes n)"
proof (induction n rule: size_bytes.induct)
  case (1 n)
  have "n mod 128 + 128 < 256" by simp
  then have "unat (of_nat (n mod 128 + 128) :: u8) = n mod 128 + 128"
    by (rule unat_byte)
  then have *: "\<not> (of_nat (n mod 128 + 128) :: u8) < 0x80"
    by (simp add: word_less_nat_alt del: of_nat_add)
  show ?case
  proof (cases "n < 128")
    case True
    then show ?thesis by (subst size_bytes.simps) (simp add: word_less_nat_alt unat_byte)
  next
    case False
    then show ?thesis using * 1 size_bytes_ne [of "n div 128"]
      by (subst size_bytes.simps) (cases "size_bytes (n div 128)", auto simp del: of_nat_add)
  qed
qed

lemma size_chain_Cons: "size_chain (b # bs) \<longleftrightarrow> (if bs = [] then b < 0x80 else \<not> b < 0x80 \<and> size_chain bs)"
  by (cases bs) auto

lemma size_value_pos: "size_chain bs \<Longrightarrow> last bs \<noteq> 0 \<Longrightarrow> 0 < size_value bs"
proof (induction bs)
  case (Cons b bs)
  show ?case
  proof (cases "bs = []")
    case True
    then have "unat b < 128" "0 < unat b" using Cons.prems by (simp_all add: unat_gt_0 unat_less_128)
    then show ?thesis by simp
  qed (use Cons in \<open>simp add: size_chain_Cons\<close>)
qed simp

lemma size_bytes_size_value:
  "size_chain bs \<Longrightarrow> last bs \<noteq> 0 \<or> length bs = 1 \<Longrightarrow> size_bytes (size_value bs) = bs"
proof (induction bs)
  case (Cons b bs)
  show ?case
  proof (cases "bs = []")
    case True
    then have "unat b < 128" using Cons.prems by (simp add: unat_less_128)
    then show ?thesis using True by (subst size_bytes.simps) simp
  next
    case False
    then have b: "\<not> unat b < 128" and chain: "size_chain bs" and "last bs \<noteq> 0"
      using Cons.prems by (auto simp: size_chain_Cons unat_less_128)
    then have pos: "0 < size_value bs" and IH: "size_bytes (size_value bs) = bs"
      using size_value_pos Cons.IH by blast+
    have "unat b < 256" using unsigned_less [of b] by simp
    then have "unat b - 128 < 128" using b by linarith
    moreover have "unat b mod 128 = (unat b - 128) mod 128" using b by (simp add: le_mod_geq)
    ultimately have "unat b mod 128 + 128 = unat b" using b by simp
    then have "of_nat (unat b mod 128 + 128) = b" by simp
    then show ?thesis using pos IH
      by (subst size_bytes.simps) (simp del: of_nat_add)
  qed
qed simp

lemma size_value_less: "size_value bs < 128 ^ length bs"
proof (induction bs)
  case (Cons b bs)
  have "unat b mod 128 < 128" by simp
  then show ?case using Cons.IH by simp
qed simp

lemma length_size_bytes: "0 < k \<Longrightarrow> n < 128 ^ k \<Longrightarrow> length (size_bytes n) \<le> k"
proof (induction k arbitrary: n)
  case (Suc k)
  show ?case
  proof (cases "n < 128")
    case False
    then have "n div 128 < 128 ^ k" "0 < k"
      using Suc.prems by (auto simp: less_mult_imp_div_less mult.commute intro: gr0I)
    then show ?thesis using Suc.IH False by (subst size_bytes.simps) simp
  qed (subst size_bytes.simps, simp)
qed simp

lemma last_size_bytes: "last (size_bytes n) = 0 \<Longrightarrow> length (size_bytes n) = 1"
proof (induction n rule: size_bytes.induct)
  case (1 n)
  show ?case
  proof (cases "n < 128")
    case False
    then have l: "last (size_bytes (n div 128)) = 0" "length (size_bytes (n div 128)) = 1"
      using 1 by (subst (asm) (2) size_bytes.simps, simp)+
    then have "n div 128 < 128" by (subst (asm) (2) size_bytes.simps) (auto split: if_splits)
    then have "of_nat (n div 128) = (0 :: u8)" "n div 128 < 128"
      using l by (subst (asm) size_bytes.simps, simp)+
    then have "n div 128 = 0" using unat_byte [of "n div 128"] by simp
    then show ?thesis using False by (simp add: div_eq_0_iff)
  qed (subst size_bytes.simps, simp)
qed

lemma and_127_byte: "unat (b AND 0x7F :: u8) = unat b mod 128"
  using and_127 [of "unat b"] by (simp add: unsigned_and_eq)

lemma read_size_loop_alt:
  "read_size_loop sz shift = mbind read_byte (\<lambda>b.
     if b < 0x80 then mreturn (sz OR push_bit shift (unat b mod 128), b, shift)
     else if shift + 7 \<ge> 28 then mlift (\<lambda>_. Error InvalidSize)
     else read_size_loop (sz OR push_bit shift (unat b mod 128)) (shift + 7))"
  by (rule ext, subst read_size_loop.simps) (auto simp: mbind_def Let_def and_127_byte split: prod.splits sum.splits)

lemma parses_size_loop:
  "i + k = 3 \<Longrightarrow> sz < 2 ^ (7 * i) \<Longrightarrow> parses n (read_size_loop sz (7 * i)) (\<lambda>(sz', b, shift) bs.
     size_chain bs \<and> i + length bs \<le> 4 \<and> sz' = sz + 2 ^ (7 * i) * size_value bs \<and> b = last bs \<and>
     shift = 7 * (i + length bs - 1))"
proof (induction k arbitrary: i sz)
  case 0
  then have i: "i = 3" and sz: "sz < 2 ^ 21" by simp_all
  show ?case unfolding i
    apply (subst read_size_loop_alt)
    apply (rule parses_cong [OF parses_mbind [OF parses_byte, where T = "\<lambda>b v bs. b < 0x80 \<and> bs = [] \<and>
        v = (sz + 2 ^ 21 * (unat b mod 128), b, 21)"]])
    subgoal for b
      using or_push_bit [OF sz, of "unat b mod 128"]
      by (auto intro: parses_cong [OF parses_mreturn] parses_cong [OF parses_mlift])
    subgoal for v bs
      apply (cases bs)
       apply (auto simp: size_chain_Cons split: prod.splits if_splits)
      done
    done
next
  case (Suc k)
  then have i: "Suc i + k = 3" and ge: "\<not> 7 * i + 7 \<ge> 28" by simp_all
  have pow: "2 ^ (7 * Suc i) = 2 ^ (7 * i) * (128 :: nat)" by (simp add: power_add)
  have less: "sz + 2 ^ (7 * i) * (unat b mod 128) < 2 ^ (7 * Suc i)" for b :: u8
  proof -
    have "unat b mod 128 + 1 \<le> 128" by (simp add: Suc_leI)
    then have "2 ^ (7 * i) * (unat b mod 128 + 1) \<le> 2 ^ (7 * i) * (128 :: nat)" by (rule mult_le_mono2)
    then show ?thesis using Suc.prems(2) pow unfolding add_mult_distrib2 by linarith
  qed
  have distrib: "2 ^ (7 * i) * (x + 128 * y) = 2 ^ (7 * i) * x + 2 ^ (7 * Suc i) * y" for x y :: nat
    unfolding pow by (simp add: algebra_simps)
  show ?case
    apply (subst read_size_loop_alt)
    apply (rule parses_cong [OF parses_mbind [OF parses_byte, where T = "\<lambda>b v bs.
       if b < 0x80 then bs = [] \<and> v = (sz + 2 ^ (7 * i) * (unat b mod 128), b, 7 * i)
       else (case v of (sz', b', shift) \<Rightarrow> size_chain bs \<and> Suc i + length bs \<le> 4 \<and>
         sz' = sz + 2 ^ (7 * i) * (unat b mod 128) + 2 ^ (7 * Suc i) * size_value bs \<and> b' = last bs \<and>
         shift = 7 * (Suc i + length bs - 1))"]])
    subgoal for b
    proof (cases "b < 0x80")
      case True
      then show ?thesis using or_push_bit [OF Suc.prems(2), of "unat b mod 128"]
        by (auto intro: parses_cong [OF parses_mreturn])
    next
      case False
      have "parses n (read_size_loop (sz OR push_bit (7 * i) (unat b mod 128)) (7 * i + 7))
          (\<lambda>v bs. case v of (sz', b', shift) \<Rightarrow> size_chain bs \<and> Suc i + length bs \<le> 4 \<and>
             sz' = sz + 2 ^ (7 * i) * (unat b mod 128) + 2 ^ (7 * Suc i) * size_value bs \<and> b' = last bs \<and>
             shift = 7 * (Suc i + length bs - 1))"
        using Suc.IH [OF i less [of b]] or_push_bit [OF Suc.prems(2), of "unat b mod 128"]
        by (simp add: case_prod_beta' add.commute)
      then show ?thesis using False ge by simp
    qed
    subgoal for v bs
      using distrib [of "unat (hd bs) mod 128" "size_value (tl bs)"] i
      by (cases bs) (auto simp: size_chain_Cons split: prod.splits if_splits)
    done
qed

lemma size_bytes_iff:
  "size_chain bs \<and> length bs \<le> 4 \<and> k = size_value bs \<and> \<not> (last bs = 0 \<and> length bs \<noteq> 1) \<longleftrightarrow>
   k \<le> 0x0FFFFFFF \<and> bs = size_bytes k"
proof
  assume *: "size_chain bs \<and> length bs \<le> 4 \<and> k = size_value bs \<and> \<not> (last bs = 0 \<and> length bs \<noteq> 1)"
  then have "bs = size_bytes k" using size_bytes_size_value by metis
  moreover have "size_value bs < 128 ^ 4"
    using size_value_less [of bs] * power_increasing [of "length bs" 4 "128 :: nat"] by simp
  ultimately show "k \<le> 0x0FFFFFFF \<and> bs = size_bytes k" using * by simp
next
  assume *: "k \<le> 0x0FFFFFFF \<and> bs = size_bytes k"
  then have "k < 128 ^ 4" by simp
  then have "length (size_bytes k) \<le> 4" using length_size_bytes [of 4 k] by simp
  then show "size_chain bs \<and> length bs \<le> 4 \<and> k = size_value bs \<and> \<not> (last bs = 0 \<and> length bs \<noteq> 1)"
    using * size_chain_size_bytes size_value_size_bytes last_size_bytes by metis
qed

text \<open>
  The decoder reads exactly the sizes the encoder writes: no longer form of a size is accepted.
\<close>

lemma parses_size [parses_intros]: "parses n read_size (\<lambda>k bs. k \<le> 0x0FFFFFFF \<and> bs = size_bytes k)"
proof -
  have loop: "parses n (read_size_loop 0 0) (\<lambda>(sz, b, shift) bs.
      size_chain bs \<and> length bs \<le> 4 \<and> sz = size_value bs \<and> b = last bs \<and> shift = 7 * (length bs - 1))"
    using parses_size_loop [of 0 3 0 n] by (simp add: case_prod_beta')
  have one: "7 * (length bs - 1) \<noteq> 0 \<longleftrightarrow> length bs \<noteq> 1" if "size_chain bs" for bs
    using that by (cases bs) auto
  have check: "parses n (case x of (sz, b, shift) \<Rightarrow> mlift (\<lambda>_. if b = 0 \<and> shift \<noteq> 0 then Error InvalidSize else Ok sz))
      (\<lambda>v bs. bs = [] \<and> (case x of (sz, b, shift) \<Rightarrow> \<not> (b = 0 \<and> shift \<noteq> 0) \<and> v = sz))" for x :: "nat \<times> u8 \<times> nat"
    by (cases x) (auto intro: parses_cong [OF parses_mlift])
  show ?thesis unfolding read_size_def
    apply (rule parses_cong [OF parses_mbind [OF loop check]])
    subgoal for v bs
      unfolding size_bytes_iff [symmetric] using one [of bs] by auto
    done
qed


section \<open>The format of values\<close>

text \<open>
  The bytes of a value's body, given those of the custom values, and the bytes of a value with
  its kind in front.
\<close>

fun body_bytes :: "('x, 'y) custom_codec \<Rightarrow> ('y \<Rightarrow> u8 list) \<Rightarrow> ('x, 'y) sbor_value \<Rightarrow> u8 list" where
  "body_bytes c cb (VBool v) = [if v then 1 else 0]"
| "body_bytes c cb (VI8 v) = [v]"
| "body_bytes c cb (VI16 v) = to_le_bytes 2 (uint v)"
| "body_bytes c cb (VI32 v) = to_le_bytes 4 (uint v)"
| "body_bytes c cb (VI64 v) = to_le_bytes 8 (uint v)"
| "body_bytes c cb (VI128 v) = to_le_bytes 16 (uint v)"
| "body_bytes c cb (VU8 v) = [v]"
| "body_bytes c cb (VU16 v) = to_le_bytes 2 (uint v)"
| "body_bytes c cb (VU32 v) = to_le_bytes 4 (uint v)"
| "body_bytes c cb (VU64 v) = to_le_bytes 8 (uint v)"
| "body_bytes c cb (VU128 v) = to_le_bytes 16 (uint v)"
| "body_bytes c cb (VString v) = size_bytes (length v) @ v"
| "body_bytes c cb (VEnum discriminator flds) =
     [discriminator] @ size_bytes (length flds) @
     concat (map (\<lambda>v. kind_byte c (get_value_kind c v) # body_bytes c cb v) flds)"
| "body_bytes c cb (VArray k elements) =
     [kind_byte c k] @ size_bytes (length elements) @ concat (map (\<lambda>v. body_bytes c cb v) elements)"
| "body_bytes c cb (VTuple flds) =
     size_bytes (length flds) @ concat (map (\<lambda>v. kind_byte c (get_value_kind c v) # body_bytes c cb v) flds)"
| "body_bytes c cb (VMap kk vk entries) =
     [kind_byte c kk] @ [kind_byte c vk] @ size_bytes (length entries) @
     concat (map (\<lambda>e. body_bytes c cb (fst e) @ body_bytes c cb (snd e)) entries)"
| "body_bytes c cb (VCustom v) = cb v"

definition value_bytes :: "('x, 'y) custom_codec \<Rightarrow> ('y \<Rightarrow> u8 list) \<Rightarrow> ('x, 'y) sbor_value \<Rightarrow> u8 list" where
  "value_bytes c cb v = kind_byte c (get_value_kind c v) # body_bytes c cb v"

text \<open>
  A value with \<open>n\<close> levels below it: its containers have at most \<open>2 ^ 28 - 1\<close> children, one kind of
  elements per array and of keys and values per map, and only as many levels.
\<close>

fun encodable :: "('x, 'y) custom_codec \<Rightarrow> nat \<Rightarrow> ('x, 'y) sbor_value \<Rightarrow> bool" where
  "encodable c n (VString v) = (length v \<le> 0x0FFFFFFF)"
| "encodable c n (VEnum _ flds) = (length flds \<le> 0x0FFFFFFF \<and> (\<forall>v \<in> set flds. 0 < n \<and> encodable c (n - 1) v))"
| "encodable c n (VArray k elements) = (length elements \<le> 0x0FFFFFFF \<and>
     (\<forall>v \<in> set elements. get_value_kind c v = k \<and> 0 < n \<and> encodable c (n - 1) v))"
| "encodable c n (VTuple flds) = (length flds \<le> 0x0FFFFFFF \<and> (\<forall>v \<in> set flds. 0 < n \<and> encodable c (n - 1) v))"
| "encodable c n (VMap kk vk entries) = (length entries \<le> 0x0FFFFFFF \<and>
     (\<forall>e \<in> set entries. get_value_kind c (fst e) = kk \<and> (0 < n \<and> encodable c (n - 1) (fst e)) \<and>
        get_value_kind c (snd e) = vk \<and> (0 < n \<and> encodable c (n - 1) (snd e))))"
| "encodable c n _ = True"

text \<open>
  The values of the Rust type: strings are UTF-8 (an invariant of \<^verbatim>\<open>String\<close>), custom values are
  among the values \<open>cv\<close> of their type.
\<close>

fun rust_value :: "('y \<Rightarrow> bool) \<Rightarrow> ('x, 'y) sbor_value \<Rightarrow> bool" where
  "rust_value cv (VString v) = is_utf8 v"
| "rust_value cv (VEnum _ flds) = (\<forall>v \<in> set flds. rust_value cv v)"
| "rust_value cv (VArray _ elements) = (\<forall>v \<in> set elements. rust_value cv v)"
| "rust_value cv (VTuple flds) = (\<forall>v \<in> set flds. rust_value cv v)"
| "rust_value cv (VMap _ _ entries) = (\<forall>e \<in> set entries. rust_value cv (fst e) \<and> rust_value cv (snd e))"
| "rust_value cv (VCustom v) = cv v"
| "rust_value cv _ = True"

section \<open>Custom values, and the correctness of the codec\<close>

text \<open>
  What the codec relies on: custom kinds have bytes above the built-in ones and are recognised
  by them; the encoder of a custom value writes the bytes \<open>cb\<close> of the value; the decoder of a kind
  reads exactly these.
\<close>

locale custom_sbor =
  fixes c :: "('x, 'y) custom_codec"
    and cv :: "'y \<Rightarrow> bool"
    and cb :: "'y \<Rightarrow> u8 list"
  assumes custom_kind_start: "CUSTOM_VALUE_KIND_START \<le> custom_as_u8 c x"
    and custom_kind_iff: "custom_from_u8 c b = Some x \<longleftrightarrow> b = custom_as_u8 c x"
    and custom_writes: "cv y \<Longrightarrow> writes n (custom_encode_body c y) True (cb y)"
    and custom_parses: "parses n (custom_decode_body c (KCustom x)) (\<lambda>y bs. (cv y \<and> get_custom_value_kind c y = x) \<and> bs = cb y)"

lemma to_le_bytes_sint:
  "LENGTH('a) = 8 * n \<Longrightarrow> to_le_bytes n (sint (w :: 'a :: len word)) = to_le_bytes n (uint w)"
proof -
  assume n: "LENGTH('a) = 8 * n"
  have "uint w = take_bit LENGTH('a) (sint w)" by (rule uint_sint)
  also have "\<dots> = sint w mod 256 ^ n" by (simp add: take_bit_eq_mod n power_mult)
  finally show ?thesis using to_le_bytes_mod [of n "sint w"] by simp
qed

lemma word_of_le_bytes:
  "LENGTH('a) = 8 * n \<Longrightarrow> length bs = n \<Longrightarrow>
   word_of_int (from_le_bytes bs) = (w :: 'a :: len word) \<longleftrightarrow> bs = to_le_bytes n (uint w)"
proof -
  assume n: "LENGTH('a) = 8 * n" and len: "length bs = n"
  have "from_le_bytes bs mod 256 ^ n = from_le_bytes bs"
    using from_le_bytes_less [of bs] len by simp
  then have "uint (word_of_int (from_le_bytes bs) :: 'a word) = from_le_bytes bs"
    by (simp add: uint_word_of_int n power_mult)
  moreover have "uint w mod 256 ^ n = uint w"
    using uint_lt2p [of w] n by (simp add: power_mult)
  ultimately show ?thesis
    by (metis from_to_le_bytes len to_from_le_bytes word_of_int_uint)
qed

lemma writes_kind [writes_intros]: "writes n (write_value_kind c k) True [kind_byte c k]"
  unfolding write_value_kind_def by (rule writes_byte)

lemma writes_value_kind: "writes n (encode_value_kind c v) True [kind_byte c (get_value_kind c v)]"
  by (cases v) (simp_all add: encode_value_kind_def get_value_kind_def writes_kind)

lemma writes_child:
  assumes "\<And>i. writes i m (ok i) bs"
  shows "writes n (encode_with c v m) (0 < n \<and> ok (n - 1)) (kind_byte c (get_value_kind c v) # bs)"
  unfolding encode_with_def
  by (rule writes_cong [OF writes_mseq [OF writes_value_kind writes_deeper [OF assms]]]) auto

lemma writes_element:
  assumes "\<And>i. writes i m (ok i) bs"
  shows "writes n (encode_element c k v m) (get_value_kind c v = k \<and> 0 < n \<and> ok (n - 1)) bs"
  unfolding encode_element_def
  by (rule writes_cong [OF writes_mseq [OF writes_check writes_deeper [OF assms]]]) auto

lemma writes_entry:
  assumes "\<And>i. writes i m (ok i) bs" and "\<And>i. writes i m' (ok' i) bs'"
  shows "writes n (encode_entry c kk vk k v m m')
    (get_value_kind c k = kk \<and> (0 < n \<and> ok (n - 1)) \<and> get_value_kind c v = vk \<and> (0 < n \<and> ok' (n - 1))) (bs @ bs')"
  unfolding encode_entry_def
  by (rule writes_cong [OF writes_mseq [OF writes_check writes_mseq [OF writes_deeper [OF assms(1)]
        writes_mseq [OF writes_check writes_deeper [OF assms(2)]]]]]) auto

context custom_sbor
begin

lemma writes_encode_body:
  "rust_value cv v \<Longrightarrow> writes n (encode_body c v) (encodable c n v) (body_bytes c cb v)"
proof (induction v arbitrary: n)
  case (VString s)
  show ?case unfolding encode_body.simps encode_str_body_def
    by (rule writes_cong [OF writes_mseq [OF writes_size writes_slice]]) auto
next
  case (VEnum t flds)
  then have "writes n (mforeach (\<lambda>v. encode_with c v (encode_body c v)) flds)
      (\<forall>v \<in> set flds. 0 < n \<and> encodable c (n - 1) v)
      (concat (map (\<lambda>v. kind_byte c (get_value_kind c v) # body_bytes c cb v) flds))"
    by (intro writes_mforeach writes_child) auto
  from writes_mseq [OF writes_byte writes_mseq [OF writes_size this]] show ?case
    by (simp add: write_discriminator_def)
next
  case (VArray k elements)
  then have "writes n (mforeach (\<lambda>v. encode_element c k v (encode_body c v)) elements)
      (\<forall>v \<in> set elements. get_value_kind c v = k \<and> 0 < n \<and> encodable c (n - 1) v)
      (concat (map (\<lambda>v. body_bytes c cb v) elements))"
    by (intro writes_mforeach writes_element) auto
  from writes_mseq [OF writes_kind writes_mseq [OF writes_size this]] show ?case by simp
next
  case (VTuple flds)
  then have "writes n (mforeach (\<lambda>v. encode_with c v (encode_body c v)) flds)
      (\<forall>v \<in> set flds. 0 < n \<and> encodable c (n - 1) v)
      (concat (map (\<lambda>v. kind_byte c (get_value_kind c v) # body_bytes c cb v) flds))"
    by (intro writes_mforeach writes_child) auto
  from writes_mseq [OF writes_size this] show ?case by simp
next
  case (VMap kk vk entries)
  have "writes n (mforeach (\<lambda>e. encode_entry c kk vk (fst e) (snd e) (encode_body c (fst e)) (encode_body c (snd e))) entries)
      (\<forall>e \<in> set entries. get_value_kind c (fst e) = kk \<and> (0 < n \<and> encodable c (n - 1) (fst e)) \<and>
        get_value_kind c (snd e) = vk \<and> (0 < n \<and> encodable c (n - 1) (snd e)))
      (concat (map (\<lambda>e. body_bytes c cb (fst e) @ body_bytes c cb (snd e)) entries))"
    using VMap by (intro writes_mforeach writes_entry) (auto simp: prod_set_defs)
  from writes_mseq [OF writes_kind writes_mseq [OF writes_kind writes_mseq [OF writes_size this]]]
  show ?case by simp
qed (simp_all add: encode_bool_body_def encode_int_body_def to_le_bytes_sint writes_byte writes_slice custom_writes)

lemma kind_iff: "value_kind_from_u8 (custom_from_u8 c) b = Some k \<longleftrightarrow> b = kind_byte c k"
proof (cases k)
  case (KCustom x)
  have "\<not> custom_as_u8 c x < 0x80"
    using custom_kind_start [of x] by (simp add: CUSTOM_VALUE_KIND_START_def)
  then show ?thesis using KCustom
    by (auto simp: value_kind_from_u8_def kind_byte_def value_kind_as_u8_def CUSTOM_VALUE_KIND_START_def custom_kind_iff)
qed (auto simp: value_kind_from_u8_def kind_byte_def value_kind_as_u8_def split: if_splits)

lemma parses_kind: "parses n (read_value_kind (custom_from_u8 c)) (\<lambda>k bs. bs = [kind_byte c k])"
  unfolding read_value_kind_def
  by (rule parses_cong [OF parses_mbind [OF parses_byte parses_mlift]]) (auto simp: ok_or_eq_Inr_iff kind_iff)

end

text \<open>The bodies of the basic types.\<close>

lemma parses_bool_body:
  "parses n (mbind (decode_bool_body c KBool) (\<lambda>b. mreturn (VBool b))) (\<lambda>v bs. \<exists>b. v = VBool b \<and> bs = [if b then 1 else 0])"
proof -
  have "parses n (mlift (\<lambda>_. if b = 0 then Ok False else if b = 1 then Ok True else Error (InvalidBool b)))
      (\<lambda>v bs. b = (if v then 1 else 0) \<and> bs = [])" for b :: u8
    by (rule parses_cong [OF parses_mlift]) simp_all
  from parses_mbind [OF parses_mseq [OF parses_check_kind parses_mbind [OF parses_byte this]] parses_mreturn]
  show ?thesis unfolding decode_bool_body_def by (rule parses_cong) simp
qed

lemma parses_byte_body:
  "parses n (mbind (decode_byte_body c k k) (\<lambda>b. mreturn (con b))) (\<lambda>v bs. \<exists>b. v = con b \<and> bs = [b])"
  unfolding decode_byte_body_def
  by (rule parses_cong [OF parses_mbind [OF parses_mseq [OF parses_check_kind parses_byte] parses_mreturn]]) auto

lemma parses_int_body:
  assumes "LENGTH('a :: len) = 8 * i"
  shows "parses n (mbind (decode_int_body c k i k) (\<lambda>x. mreturn (con (word_of_int x :: 'a word))))
    (\<lambda>v bs. \<exists>w. v = con w \<and> bs = to_le_bytes i (uint w))"
  unfolding decode_int_body_def
  apply (rule parses_cong [OF parses_mbind [OF parses_mseq [OF parses_check_kind
        parses_mbind [OF parses_slice parses_mreturn]] parses_mreturn]])
  using word_of_le_bytes [OF assms] by (auto, metis length_to_le_bytes)

lemma parses_string_body:
  "parses n (mbind (decode_string_body c KString) (\<lambda>s. mreturn (VString s)))
    (\<lambda>v bs. \<exists>s. v = VString s \<and> is_utf8 s \<and> length s \<le> 0x0FFFFFFF \<and> bs = size_bytes (length s) @ s)"
  unfolding decode_string_body_def
  by (rule parses_cong [OF parses_mbind [OF parses_mseq [OF parses_check_kind
        parses_mbind [OF parses_size parses_mbind [OF parses_slice parses_mlift]]] parses_mreturn]])
    (auto split: if_splits)

text \<open>The values of each kind.\<close>

lemma value_kind_iffs:
  "get_value_kind c v = KBool \<longleftrightarrow> (\<exists>b. v = VBool b)"
  "get_value_kind c v = KI8 \<longleftrightarrow> (\<exists>w. v = VI8 w)"
  "get_value_kind c v = KI16 \<longleftrightarrow> (\<exists>w. v = VI16 w)"
  "get_value_kind c v = KI32 \<longleftrightarrow> (\<exists>w. v = VI32 w)"
  "get_value_kind c v = KI64 \<longleftrightarrow> (\<exists>w. v = VI64 w)"
  "get_value_kind c v = KI128 \<longleftrightarrow> (\<exists>w. v = VI128 w)"
  "get_value_kind c v = KU8 \<longleftrightarrow> (\<exists>w. v = VU8 w)"
  "get_value_kind c v = KU16 \<longleftrightarrow> (\<exists>w. v = VU16 w)"
  "get_value_kind c v = KU32 \<longleftrightarrow> (\<exists>w. v = VU32 w)"
  "get_value_kind c v = KU64 \<longleftrightarrow> (\<exists>w. v = VU64 w)"
  "get_value_kind c v = KU128 \<longleftrightarrow> (\<exists>w. v = VU128 w)"
  "get_value_kind c v = KString \<longleftrightarrow> (\<exists>s. v = VString s)"
  "get_value_kind c v = KEnum \<longleftrightarrow> (\<exists>t vs. v = VEnum t vs)"
  "get_value_kind c v = KArray \<longleftrightarrow> (\<exists>k vs. v = VArray k vs)"
  "get_value_kind c v = KTuple \<longleftrightarrow> (\<exists>vs. v = VTuple vs)"
  "get_value_kind c v = KMap \<longleftrightarrow> (\<exists>kk vk es. v = VMap kk vk es)"
  "get_value_kind c v = KCustom x \<longleftrightarrow> (\<exists>y. v = VCustom y \<and> get_custom_value_kind c y = x)"
  by (cases v; auto simp: get_value_kind_def)+

text \<open>\<open>readable c cv n k v\<close>: a value of kind \<open>k\<close> the decoder can return with \<open>n\<close> levels below.\<close>

definition readable :: "('x, 'y) custom_codec \<Rightarrow> ('y \<Rightarrow> bool) \<Rightarrow> nat \<Rightarrow> 'x value_kind \<Rightarrow> ('x, 'y) sbor_value \<Rightarrow> bool" where
  "readable c cv n k v \<longleftrightarrow> get_value_kind c v = k \<and> rust_value cv v \<and> encodable c n v"

context custom_sbor
begin

lemma parses_children:
  assumes "\<And>k. parses n (deeper k) (\<lambda>v bs. (0 < n \<and> readable c cv (n - 1) k v) \<and> bs = body_bytes c cb v)"
  shows "parses n (mtimes i (mbind (read_value_kind (custom_from_u8 c)) deeper))
    (\<lambda>vs bs. length vs = i \<and> (\<forall>v \<in> set vs. 0 < n \<and> rust_value cv v \<and> encodable c (n - 1) v) \<and>
       bs = concat (map (\<lambda>v. kind_byte c (get_value_kind c v) # body_bytes c cb v) vs))"
proof -
  have "parses n (mbind (read_value_kind (custom_from_u8 c)) deeper)
      (\<lambda>v bs. (0 < n \<and> rust_value cv v \<and> encodable c (n - 1) v) \<and> bs = kind_byte c (get_value_kind c v) # body_bytes c cb v)"
    by (rule parses_cong [OF parses_mbind [OF parses_kind assms]]) (auto simp: readable_def)
  then show ?thesis by (rule parses_times)
qed

lemma parses_decode_body:
  assumes "\<And>k. parses n (deeper k) (\<lambda>v bs. (0 < n \<and> readable c cv (n - 1) k v) \<and> bs = body_bytes c cb v)"
  shows "parses n (decode_body_with_value_kind c deeper k) (\<lambda>v bs. readable c cv n k v \<and> bs = body_bytes c cb v)"
proof (cases k)
  case KBool
  show ?thesis unfolding KBool decode_body_with_value_kind_def value_kind.simps
    by (rule parses_cong [OF parses_bool_body], rule iffI)
      ((elim exE conjE, simp add: readable_def value_kind_iffs), (elim conjE, unfold readable_def value_kind_iffs, elim conjE exE, simp))
next
  case KI8
  show ?thesis unfolding KI8 decode_body_with_value_kind_def value_kind.simps
    by (rule parses_cong [OF parses_byte_body]) (auto simp: readable_def value_kind_iffs)
next
  case KU8
  show ?thesis unfolding KU8 decode_body_with_value_kind_def value_kind.simps
    by (rule parses_cong [OF parses_byte_body]) (auto simp: readable_def value_kind_iffs)
next
  case KI16
  show ?thesis unfolding KI16 decode_body_with_value_kind_def value_kind.simps
    by (rule parses_cong [OF parses_int_body]) (auto simp: readable_def value_kind_iffs)
next
  case KI32
  show ?thesis unfolding KI32 decode_body_with_value_kind_def value_kind.simps
    by (rule parses_cong [OF parses_int_body]) (auto simp: readable_def value_kind_iffs)
next
  case KI64
  show ?thesis unfolding KI64 decode_body_with_value_kind_def value_kind.simps
    by (rule parses_cong [OF parses_int_body]) (auto simp: readable_def value_kind_iffs)
next
  case KI128
  show ?thesis unfolding KI128 decode_body_with_value_kind_def value_kind.simps
    by (rule parses_cong [OF parses_int_body]) (auto simp: readable_def value_kind_iffs)
next
  case KU16
  show ?thesis unfolding KU16 decode_body_with_value_kind_def value_kind.simps
    by (rule parses_cong [OF parses_int_body]) (auto simp: readable_def value_kind_iffs)
next
  case KU32
  show ?thesis unfolding KU32 decode_body_with_value_kind_def value_kind.simps
    by (rule parses_cong [OF parses_int_body]) (auto simp: readable_def value_kind_iffs)
next
  case KU64
  show ?thesis unfolding KU64 decode_body_with_value_kind_def value_kind.simps
    by (rule parses_cong [OF parses_int_body]) (auto simp: readable_def value_kind_iffs)
next
  case KU128
  show ?thesis unfolding KU128 decode_body_with_value_kind_def value_kind.simps
    by (rule parses_cong [OF parses_int_body]) (auto simp: readable_def value_kind_iffs)
next
  case KString
  show ?thesis unfolding KString decode_body_with_value_kind_def value_kind.simps
    by (rule parses_cong [OF parses_string_body]) (auto simp: readable_def value_kind_iffs)
next
  case (KCustom x)
  show ?thesis unfolding KCustom decode_body_with_value_kind_def value_kind.simps
    by (rule parses_cong [OF parses_mbind [OF custom_parses parses_mreturn]])
      (auto simp: readable_def value_kind_iffs)
next
  case KTuple
  show ?thesis unfolding KTuple decode_body_with_value_kind_def value_kind.simps
    by (rule parses_cong [OF parses_mbind [OF parses_size parses_mbind [OF parses_children [OF assms] parses_mreturn]]])
      (auto simp: readable_def value_kind_iffs)
next
  case KEnum
  show ?thesis unfolding KEnum decode_body_with_value_kind_def value_kind.simps read_discriminator_def
    by (rule parses_cong [OF parses_mbind [OF parses_byte parses_mbind [OF parses_size
          parses_mbind [OF parses_children [OF assms] parses_mreturn]]]])
      (auto simp: readable_def value_kind_iffs)
next
  case KArray
  show ?thesis unfolding KArray decode_body_with_value_kind_def value_kind.simps
    by (rule parses_cong [OF parses_mbind [OF parses_kind parses_mbind [OF parses_size
          parses_mbind [OF parses_times [OF assms] parses_mreturn]]]])
      (auto simp: readable_def value_kind_iffs)
next
  case KMap
  have entry: "parses n (mbind (deeper kk) (\<lambda>k. mbind (deeper vk) (\<lambda>v. mreturn (k, v))))
      (\<lambda>e bs. (0 < n \<and> readable c cv (n - 1) kk (fst e) \<and> readable c cv (n - 1) vk (snd e)) \<and>
         bs = body_bytes c cb (fst e) @ body_bytes c cb (snd e))" for kk vk
    by (rule parses_cong [OF parses_mbind [OF assms parses_mbind [OF assms parses_mreturn]]]) auto
  show ?thesis unfolding KMap decode_body_with_value_kind_def value_kind.simps
    by (rule parses_cong [OF parses_mbind [OF parses_kind parses_mbind [OF parses_kind parses_mbind [OF parses_size
          parses_mbind [OF parses_times [OF entry] parses_mreturn]]]]])
      (auto simp: readable_def value_kind_iffs)
qed

lemma parses_deeper_levels:
  "parses n (decode_deeper_levels c n k) (\<lambda>v bs. (0 < n \<and> readable c cv (n - 1) k v) \<and> bs = body_bytes c cb v)"
proof (induction n arbitrary: k)
  case 0
  have "dec_track_stack_depth_increase d = (d\<lparr>dec_stack_depth := Suc (dec_stack_depth d)\<rparr>, Error (DecMaxDepthExceeded (dec_max_depth d)))"
    if "dec_left d = 0" for d
    using that by (auto simp: dec_track_stack_depth_increase_def dec_left_def mseq_def mbind_def ensure_def)
  then show ?case by (simp add: parses_def)
next
  case (Suc n)
  have "parses n (decode_body_with_value_kind c (decode_deeper_levels c n) k) (\<lambda>v bs. readable c cv n k v \<and> bs = body_bytes c cb v)"
    by (rule parses_decode_body [OF Suc])
  then show ?case using parses_deeper [of "Suc n"] by simp
qed

lemma parses_decode:
  "parses n (decode c) (\<lambda>v bs. (0 < n \<and> rust_value cv v \<and> encodable c (n - 1) v) \<and> bs = value_bytes c cb v)"
proof -
  have "parses n (decode_deeper_body_with_value_kind c k)
      (\<lambda>v bs. (0 < n \<and> readable c cv (n - 1) k v) \<and> bs = body_bytes c cb v)" for k
    using parses_deeper_levels [of n k]
    by (auto simp: parses_def decode_deeper_body_with_value_kind_def dec_left_def)
  from parses_mbind [OF parses_kind this] show ?thesis unfolding decode_def
    by (rule parses_cong) (auto simp: readable_def value_bytes_def)
qed

end

section \<open>Payloads\<close>

lemma check_end_iff: "check_end d = (d', Ok ()) \<longleftrightarrow> d' = d \<and> peek_remaining d = []"
  by (auto simp: check_end_def ensure_def Let_def length_peek [symmetric] simp del: length_peek)

lemma parses_prefix: "parses n (read_and_check_payload_prefix p) (\<lambda>_ bs. bs = [p])"
  unfolding read_and_check_payload_prefix_def
  by (rule parses_cong [OF parses_mbind [OF parses_byte parses_mlift]]) auto

context custom_sbor
begin

lemma vec_encode_iff:
  assumes "rust_value cv v"
  shows "vec_encode c p n v = Ok bs \<longleftrightarrow> 0 < n \<and> encodable c (n - 1) v \<and> bs = p # value_bytes c cb v"
proof -
  let ?e = "VecEncoder_new [] n"
  have "writes n (encode_payload c v p) (0 < n \<and> encodable c (n - 1) v) (p # value_bytes c cb v)"
    unfolding encode_payload_def encode_def write_payload_prefix_def value_bytes_def
    by (rule writes_cong [OF writes_mseq [OF writes_byte writes_child [OF writes_encode_body [OF assms]]]]) auto
  then have runs: "encode_payload c v p ?e = (e', Ok ()) \<longleftrightarrow>
      (0 < n \<and> encodable c (n - 1) v) \<and> e' = ?e\<lparr>enc_buf := p # value_bytes c cb v\<rparr>" for e'
    by (subst writesD [of n]) (auto simp: enc_left_def VecEncoder_new_def)
  obtain e' r where run: "encode_payload c v p ?e = (e', r)" by (cases "encode_payload c v p ?e")
  show ?thesis
  proof (cases r)
    case (Inl err)
    then have "\<not> (0 < n \<and> encodable c (n - 1) v)" using runs run by (metis Pair_inject Inr_not_Inl)
    then show ?thesis using run Inl by (auto simp: vec_encode_def)
  next
    case (Inr u)
    then have "0 < n \<and> encodable c (n - 1) v" "e' = ?e\<lparr>enc_buf := p # value_bytes c cb v\<rparr>"
      using runs [of e'] run by auto
    then show ?thesis using run Inr by (auto simp: vec_encode_def)
  qed
qed

lemma vec_decode_iff:
  "vec_decode c p n bs = Ok v \<longleftrightarrow> 0 < n \<and> rust_value cv v \<and> encodable c (n - 1) v \<and> bs = p # value_bytes c cb v"
proof -
  let ?d = "VecDecoder_new bs n"
  have n: "dec_left ?d = n" and peek: "peek_remaining ?d = bs"
    by (simp_all add: VecDecoder_new_def dec_left_def peek_remaining_def)
  have parses: "parses n (mseq (read_and_check_payload_prefix p) (decode c))
      (\<lambda>v bs. (0 < n \<and> rust_value cv v \<and> encodable c (n - 1) v) \<and> bs = p # value_bytes c cb v)"
    by (rule parses_cong [OF parses_mseq [OF parses_prefix parses_decode]]) auto
  have "vec_decode c p n bs = Ok v \<longleftrightarrow>
      (\<exists>d. mseq (read_and_check_payload_prefix p) (decode c) ?d = (d, Ok v) \<and> peek_remaining d = [])"
  proof -
    have "vec_decode c p n bs = Ok v \<longleftrightarrow> (\<exists>d. decode_payload c p ?d = (d, Ok v))"
      unfolding vec_decode_def by (cases "decode_payload c p ?d") simp
    also have "\<dots> \<longleftrightarrow> (\<exists>d. mseq (read_and_check_payload_prefix p) (decode c) ?d = (d, Ok v) \<and> peek_remaining d = [])"
      by (auto simp: decode_payload_def mseq_eq_Inr_iff mbind_eq_Inr_iff check_end_iff)
    finally show ?thesis .
  qed
  also have "\<dots> \<longleftrightarrow> 0 < n \<and> rust_value cv v \<and> encodable c (n - 1) v \<and> bs = p # value_bytes c cb v"
    using parses n peek unfolding parses_def by fastforce
  finally show ?thesis .
qed

text \<open>Decoding is the inverse of encoding, in both directions.\<close>

lemma decode_iff_encode: "vec_decode c p n bs = Ok v \<longleftrightarrow> rust_value cv v \<and> vec_encode c p n v = Ok bs"
  using vec_decode_iff vec_encode_iff by blast

end

text \<open>
  The levels given to the decoder are enough: it satisfies the recursion of the source, in which
  the children are decoded by the decoder itself, whatever its depth.
\<close>

definition agree :: "nat \<Rightarrow> 'a decodes \<Rightarrow> 'a decodes \<Rightarrow> bool" where
  "agree n m m' \<longleftrightarrow> (\<forall>d. dec_left d = n \<longrightarrow> m d = m' d)"

lemma agree_refl [simp]: "agree n m m"
  by (simp add: agree_def)

lemma agree_mbind:
  assumes p: "parses n m S" and m: "agree n m m'" and k: "\<And>x. agree n (k x) (k' x)"
  shows "agree n (mbind m k) (mbind m' k')"
  unfolding agree_def
proof (intro allI impI)
  fix d assume n: "dec_left d = n"
  obtain d' r where md: "m d = (d', r)" by (cases "m d")
  then have "dec_left d' = n" if "r = Ok x" for x
    using parsesD [OF p n, of d' x] n that by (metis skip_simps(1))
  then show "mbind m k d = mbind m' k' d"
    using md m k n by (cases r) (auto simp: agree_def mbind_def)
qed

lemma agree_mtimes: "parses n m S \<Longrightarrow> agree n m m' \<Longrightarrow> agree n (mtimes i m) (mtimes i m')"
proof (induction i)
  case (Suc i)
  show ?case unfolding mtimes.simps
    by (rule agree_mbind [OF Suc.prems agree_mbind [OF parses_mtimes [OF Suc.prems(1)] Suc.IH [OF Suc.prems]]]) simp
qed simp

context custom_sbor
begin

lemma decode_body_agree:
  assumes p: "\<And>k. parses n (deeper k) (\<lambda>v bs. (0 < n \<and> readable c cv (n - 1) k v) \<and> bs = body_bytes c cb v)"
    and a: "\<And>k. agree n (deeper k) (deeper' k)"
  shows "agree n (decode_body_with_value_kind c deeper k) (decode_body_with_value_kind c deeper' k)"
proof (cases k)
  case KTuple
  show ?thesis unfolding KTuple decode_body_with_value_kind_def value_kind.simps
    by (intro agree_mbind [OF parses_size] agree_mbind [OF parses_children [OF p]]
        agree_mtimes [OF parses_mbind [OF parses_kind p]] agree_mbind [OF parses_kind] a agree_refl)
next
  case KEnum
  show ?thesis unfolding KEnum decode_body_with_value_kind_def value_kind.simps read_discriminator_def
    by (intro agree_mbind [OF parses_byte] agree_mbind [OF parses_size] agree_mbind [OF parses_children [OF p]]
        agree_mtimes [OF parses_mbind [OF parses_kind p]] agree_mbind [OF parses_kind] a agree_refl)
next
  case KArray
  show ?thesis unfolding KArray decode_body_with_value_kind_def value_kind.simps
    by (intro agree_mbind [OF parses_kind] agree_mbind [OF parses_size] agree_mbind [OF parses_times [OF p]]
        agree_mtimes [OF p] a agree_refl)
next
  case KMap
  have entry: "parses n (mbind (deeper kk) (\<lambda>k. mbind (deeper vk) (\<lambda>v. mreturn (k, v))))
      (\<lambda>e bs. \<exists>x as cs. ((0 < n \<and> readable c cv (n - 1) kk x) \<and> as = body_bytes c cb x) \<and>
        (\<exists>xa as' cs'. ((0 < n \<and> readable c cv (n - 1) vk xa) \<and> as' = body_bytes c cb xa) \<and> (e = (x, xa) \<and> cs' = []) \<and> cs = as' @ cs') \<and>
        bs = as @ cs)" for kk vk
    by (rule parses_mbind [OF p parses_mbind [OF p parses_mreturn]])
  show ?thesis unfolding KMap decode_body_with_value_kind_def value_kind.simps
    by (intro agree_mbind [OF parses_kind] agree_mbind [OF parses_size] agree_mbind [OF parses_mtimes [OF entry]]
        agree_mtimes [OF entry] agree_mbind [OF p] a agree_refl)
qed (simp_all add: decode_body_with_value_kind_def)

lemma decode_deeper_unfold:
  "decode_deeper_body_with_value_kind c k d =
     mseq dec_track_stack_depth_increase
     (mbind (decode_body_with_value_kind c (decode_deeper_body_with_value_kind c) k) (\<lambda>v.
      mseq dec_track_stack_depth_decrease (mreturn v))) d"
proof (cases "dec_left d")
  case 0
  then have "dec_track_stack_depth_increase d =
      (d\<lparr>dec_stack_depth := Suc (dec_stack_depth d)\<rparr>, Error (DecMaxDepthExceeded (dec_max_depth d)))"
    by (auto simp: dec_track_stack_depth_increase_def dec_left_def mseq_def mbind_def ensure_def)
  then show ?thesis using 0 by (simp add: decode_deeper_body_with_value_kind_def dec_left_def)
next
  case (Suc n)
  let ?d = "d\<lparr>dec_stack_depth := Suc (dec_stack_depth d)\<rparr>"
  have "agree n (decode_deeper_levels c n k) (decode_deeper_body_with_value_kind c k)" for k
    by (auto simp: agree_def decode_deeper_body_with_value_kind_def dec_left_def)
  from decode_body_agree [OF parses_deeper_levels this] have
    "decode_body_with_value_kind c (decode_deeper_levels c n) k ?d =
     decode_body_with_value_kind c (decode_deeper_body_with_value_kind c) k ?d"
    using Suc by (simp add: agree_def dec_left_def)
  moreover have "dec_track_stack_depth_increase d = (?d, Ok ())"
    using Suc by (auto simp: dec_track_stack_depth_increase_def dec_left_def mseq_def mbind_def ensure_def)
  ultimately show ?thesis using Suc
    by (simp add: decode_deeper_body_with_value_kind_def dec_left_def mbind_def)
qed

lemma decode_payload_calm: "vec_decode c p n bs \<noteq> Panics"
proof -
  let ?d = "VecDecoder_new bs n"
  let ?m = "mseq (read_and_check_payload_prefix p) (decode c)"
  have n: "dec_left ?d = n" by (simp add: VecDecoder_new_def dec_left_def)
  have "decode_payload c p = mbind ?m (\<lambda>v. mseq check_end (mreturn v))"
    by (auto simp: decode_payload_def mseq_def mbind_def fun_eq_iff split: prod.splits sum.splits)
  moreover have "snd (?m ?d) \<noteq> Panics"
    by (rule parses_calm [OF parses_mseq [OF parses_prefix parses_decode] n])
  ultimately show ?thesis
    by (auto simp: vec_decode_def mbind_def mseq_def check_end_def ensure_def Let_def split: prod.splits sum.splits)
qed

text \<open>Bytes after the value are an error that says how many they are.\<close>

lemma decode_trailing:
  assumes "vec_decode c p n bs = Ok v" and "r \<noteq> []"
  shows "vec_decode c p n (bs @ r) = Error (ExtraTrailingBytes (length r))"
proof -
  let ?d = "VecDecoder_new (bs @ r) n"
  let ?m = "mseq (read_and_check_payload_prefix p) (decode c)"
  have n: "dec_left ?d = n" "peek_remaining ?d = bs @ r"
    by (simp_all add: VecDecoder_new_def dec_left_def peek_remaining_def)
  have parses: "parses n ?m (\<lambda>v bs. (0 < n \<and> rust_value cv v \<and> encodable c (n - 1) v) \<and> bs = p # value_bytes c cb v)"
    by (rule parses_cong [OF parses_mseq [OF parses_prefix parses_decode]]) auto
  have "?m ?d = (skip (length bs) ?d, Ok v)"
    using parses_run [OF parses n(1), of v bs r] assms(1) vec_decode_iff n(2) by blast
  moreover have "remaining_bytes (skip (length bs) ?d) = length r"
    using n(2) by (metis append_eq_conv_conj length_peek skip_simps(2))
  ultimately show ?thesis using assms(2)
    by (auto simp: vec_decode_def decode_payload_def mseq_def mbind_def check_end_def ensure_def Let_def
        split: prod.splits sum.splits)
qed

end

end
