(* ===== verification/Sbor_Traversal.thy ===== *)
theory Sbor_Traversal
  imports Sbor_Format
begin

text \<open>
  The streaming reader \<^verbatim>\<open>VecTraverser\<close> of \<^verbatim>\<open>sbor/src/traversal/untyped\<close>: a state machine that turns
  a payload into a stream of events without building the value. It keeps its own stack of
  containers and its own depth check, and reads byte arrays in one go. Its events are those of
  the value the decoder would build, and it reports an error exactly when the decoder does.
\<close>


section \<open>Events\<close>

datatype 'x container_header =
    TupleHeader nat
  | EnumVariantHeader u8 nat
  | ArrayHeader "'x value_kind" nat
  | MapHeader "'x value_kind" "'x value_kind" nat

definition get_own_value_kind :: "'x container_header \<Rightarrow> 'x value_kind" where
  "get_own_value_kind h = (case h of
     TupleHeader _ \<Rightarrow> KTuple | EnumVariantHeader _ _ \<Rightarrow> KEnum | ArrayHeader _ _ \<Rightarrow> KArray | MapHeader _ _ _ \<Rightarrow> KMap)"

definition get_child_count :: "'x container_header \<Rightarrow> nat" where
  "get_child_count h = (case h of
     TupleHeader len \<Rightarrow> len | EnumVariantHeader _ len \<Rightarrow> len | ArrayHeader _ len \<Rightarrow> len | MapHeader _ _ len \<Rightarrow> len * 2)"

definition get_implicit_child_value_kind :: "'x container_header \<Rightarrow> nat \<Rightarrow> 'x value_kind option" where
  "get_implicit_child_value_kind h index = (case h of
     TupleHeader _ \<Rightarrow> None
   | EnumVariantHeader _ _ \<Rightarrow> None
   | ArrayHeader element_value_kind _ \<Rightarrow> Some element_value_kind
   | MapHeader key_value_kind value_value_kind _ \<Rightarrow>
       if index mod 2 = 0 then Some key_value_kind else Some value_value_kind)"

datatype 'y terminal_value_ref =
    TBool bool
  | TI8 "8 word" | TI16 "16 word" | TI32 "32 word" | TI64 "64 word" | TI128 "128 word"
  | TU8 "8 word" | TU16 "16 word" | TU32 "32 word" | TU64 "64 word" | TU128 "128 word"
  | TString "u8 list"
  | TCustom 'y

datatype ('x, 'y) traversal_event =
    ContainerStart "'x container_header"
  | ContainerEnd "'x container_header"
  | TerminalValue "'y terminal_value_ref"
  | TerminalValueBatch "u8 list"
  | EndEvent
  | DecodeErrorEvent decode_error

record 'x ancestor_state =
  container_header :: "'x container_header"
  container_start_offset :: nat
  current_child_index :: nat

record ('x, 'y) located_event =
  start_offset :: nat
  end_offset :: nat
  ancestor_path :: "'x ancestor_state list"
  event :: "('x, 'y) traversal_event"

definition get_implicit_value_kind_of_current_child :: "'x ancestor_state \<Rightarrow> 'x value_kind option" where
  "get_implicit_value_kind_of_current_child a =
     get_implicit_child_value_kind (container_header a) (current_child_index a)"


section \<open>Reading one value\<close>

datatype 'x next_action =
    ReadPrefix u8
  | ReadRootValue
  | ReadRootValueBody "'x value_kind"
  | ReadContainerContentStart "'x container_header" nat
  | ReadNextChildOrExitContainer
  | Errored
  | Ended

text \<open>
  The methods of \<^verbatim>\<open>ActionHandler\<close>: its fields are the stack of ancestors, the decoder (the state) and
  the start offset. They return the event and the next action.
\<close>

type_synonym ('x, 'y) handler =
  "(vec_decoder, unit, ('x, 'y) located_event \<times> 'x next_action) mut_fn"

definition complete :: "'x ancestor_state list \<Rightarrow> nat \<Rightarrow> ('x, 'y) traversal_event \<Rightarrow> 'x next_action \<Rightarrow> ('x, 'y) handler" where
  "complete path start ev next_action d =
     (d, Ok (\<lparr>start_offset = start, end_offset = dec_offset d, ancestor_path = path, event = ev\<rparr>, next_action))"

definition complete_with_error :: "'x ancestor_state list \<Rightarrow> nat \<Rightarrow> decode_error \<Rightarrow> ('x, 'y) handler" where
  "complete_with_error path start err = complete path start (DecodeErrorEvent err) Errored"

definition complete_container_start :: "'x ancestor_state list \<Rightarrow> nat \<Rightarrow> 'x container_header \<Rightarrow> ('x, 'y) handler" where
  "complete_container_start path start h =
     complete path start (ContainerStart h) (ReadContainerContentStart h start)"

definition complete_container_end :: "'x ancestor_state list \<Rightarrow> nat \<Rightarrow> 'x container_header \<Rightarrow> ('x, 'y) handler" where
  "complete_container_end path start h = complete path start (ContainerEnd h) ReadNextChildOrExitContainer"

text \<open>The macro \<^verbatim>\<open>handle_error!\<close>: go on with the result, or stop with an error event.\<close>

definition handle_error :: "'x ancestor_state list \<Rightarrow> nat \<Rightarrow> 'a decodes \<Rightarrow> ('a \<Rightarrow> ('x, 'y) handler) \<Rightarrow> ('x, 'y) handler" where
  "handle_error path start m k d = (case m d of
     (d', Inr v) \<Rightarrow> k v d'
   | (d', Inl (Err err)) \<Rightarrow> complete_with_error path start err d'
   | (d', Inl Panic) \<Rightarrow> (d', Panics))"

definition read_terminal_value ::
    "'x ancestor_state list \<Rightarrow> nat \<Rightarrow> 'a decodes \<Rightarrow> ('a \<Rightarrow> 'y terminal_value_ref) \<Rightarrow> ('x, 'y) handler" where
  "read_terminal_value path start m con =
     handle_error path start m (\<lambda>v. complete path start (TerminalValue (con v)) ReadNextChildOrExitContainer)"

definition read_value_body ::
    "('x, 'y) custom_codec \<Rightarrow> 'x ancestor_state list \<Rightarrow> nat \<Rightarrow> 'x value_kind \<Rightarrow> ('x, 'y) handler" where
  "read_value_body c path start value_kind = (case value_kind of
     KBool \<Rightarrow> read_terminal_value path start (decode_bool_body c value_kind) TBool
   | KI8 \<Rightarrow> read_terminal_value path start (decode_byte_body c KI8 value_kind) TI8
   | KI16 \<Rightarrow> read_terminal_value path start (decode_int_body c KI16 2 value_kind) (\<lambda>v. TI16 (word_of_int v))
   | KI32 \<Rightarrow> read_terminal_value path start (decode_int_body c KI32 4 value_kind) (\<lambda>v. TI32 (word_of_int v))
   | KI64 \<Rightarrow> read_terminal_value path start (decode_int_body c KI64 8 value_kind) (\<lambda>v. TI64 (word_of_int v))
   | KI128 \<Rightarrow> read_terminal_value path start (decode_int_body c KI128 16 value_kind) (\<lambda>v. TI128 (word_of_int v))
   | KU8 \<Rightarrow> read_terminal_value path start (decode_byte_body c KU8 value_kind) TU8
   | KU16 \<Rightarrow> read_terminal_value path start (decode_int_body c KU16 2 value_kind) (\<lambda>v. TU16 (word_of_int v))
   | KU32 \<Rightarrow> read_terminal_value path start (decode_int_body c KU32 4 value_kind) (\<lambda>v. TU32 (word_of_int v))
   | KU64 \<Rightarrow> read_terminal_value path start (decode_int_body c KU64 8 value_kind) (\<lambda>v. TU64 (word_of_int v))
   | KU128 \<Rightarrow> read_terminal_value path start (decode_int_body c KU128 16 value_kind) (\<lambda>v. TU128 (word_of_int v))
   | KString \<Rightarrow>
       handle_error path start read_size (\<lambda>len.
       handle_error path start (read_slice len) (\<lambda>bs.
       handle_error path start (mlift (\<lambda>_. if is_utf8 bs then Ok bs else Error InvalidUtf8)) (\<lambda>string_body.
       complete path start (TerminalValue (TString string_body)) ReadNextChildOrExitContainer)))
   | KArray \<Rightarrow>
       handle_error path start (read_value_kind (custom_from_u8 c)) (\<lambda>element_value_kind.
       handle_error path start read_size (\<lambda>len.
       complete_container_start path start (ArrayHeader element_value_kind len)))
   | KMap \<Rightarrow>
       handle_error path start (read_value_kind (custom_from_u8 c)) (\<lambda>key_value_kind.
       handle_error path start (read_value_kind (custom_from_u8 c)) (\<lambda>value_value_kind.
       handle_error path start read_size (\<lambda>len.
       complete_container_start path start (MapHeader key_value_kind value_value_kind len))))
   | KEnum \<Rightarrow>
       handle_error path start read_byte (\<lambda>variant.
       handle_error path start read_size (\<lambda>len.
       complete_container_start path start (EnumVariantHeader variant len)))
   | KTuple \<Rightarrow>
       handle_error path start read_size (\<lambda>len.
       complete_container_start path start (TupleHeader len))
   | KCustom _ \<Rightarrow>
       handle_error path start (custom_decode_body c value_kind) (\<lambda>v.
       complete path start (TerminalValue (TCustom v)) ReadNextChildOrExitContainer))"

definition read_value ::
    "('x, 'y) custom_codec \<Rightarrow> 'x ancestor_state list \<Rightarrow> nat \<Rightarrow> 'x value_kind option \<Rightarrow> ('x, 'y) handler" where
  "read_value c path start implicit_value_kind = (case implicit_value_kind of
     Some value_kind \<Rightarrow> read_value_body c path start value_kind
   | None \<Rightarrow> handle_error path start (read_value_kind (custom_from_u8 c)) (read_value_body c path start))"

definition read_byte_array :: "'x ancestor_state list \<Rightarrow> nat \<Rightarrow> nat \<Rightarrow> ('x, 'y) handler" where
  "read_byte_array path start array_length =
     handle_error path start (read_slice array_length) (\<lambda>bs.
     complete path start (TerminalValueBatch bs) ReadNextChildOrExitContainer)"

record traverser_config =
  max_depth :: nat
  check_exact_end :: bool

definition finish :: "traverser_config \<Rightarrow> 'x ancestor_state list \<Rightarrow> nat \<Rightarrow> ('x, 'y) handler" where
  "finish config path start =
     (if check_exact_end config
      then handle_error path start check_end (\<lambda>_. complete path start EndEvent Ended)
      else complete path start EndEvent Ended)"


section \<open>The state machine\<close>

record ('x) vec_traverser =
  tr_decoder :: vec_decoder
  tr_ancestor_path :: "'x ancestor_state list"
  tr_next_action :: "'x next_action"
  tr_config :: traverser_config

definition VecTraverser_new :: "u8 list \<Rightarrow> 'x next_action \<Rightarrow> traverser_config \<Rightarrow> 'x vec_traverser" where
  "VecTraverser_new input expected_start config =
     \<lparr>tr_decoder = VecDecoder_new input (max_depth config), tr_ancestor_path = [],
      tr_next_action = expected_start, tr_config = config\<rparr>"

text \<open>
  \<^verbatim>\<open>step\<close> takes the action, the decoder and the stack of ancestors (the innermost last), and returns
  the new stack with what the handler returns. It panics after an error or at the end.
\<close>

definition traverser_step :: "('x, 'y) custom_codec \<Rightarrow> traverser_config \<Rightarrow> 'x next_action \<Rightarrow> vec_decoder \<Rightarrow>
    'x ancestor_state list \<Rightarrow> 'x ancestor_state list \<times> vec_decoder \<times> (unit, ('x, 'y) located_event \<times> 'x next_action) res" where
  "traverser_step c config action d path = (case action of
     ReadPrefix expected_prefix \<Rightarrow>
       (case read_and_check_payload_prefix expected_prefix d of
          (d', Inr _) \<Rightarrow> (path, read_value c path (dec_offset d') None d')
        | (d', Inl (Err err)) \<Rightarrow> (path, complete_with_error path (dec_offset d) err d')
        | (d', Inl Panic) \<Rightarrow> (path, d', Panics))
   | ReadRootValue \<Rightarrow> (path, read_value c path (dec_offset d) None d)
   | ReadRootValueBody implicit_value_kind \<Rightarrow> (path, read_value c path (dec_offset d) (Some implicit_value_kind) d)
   | ReadContainerContentStart h container_start \<Rightarrow>
       (let container_child_size = get_child_count h in
        if container_child_size = 0 then (path, complete_container_end path container_start h d)
        else
          let parent = \<lparr>container_header = h, container_start_offset = container_start, current_child_index = 0\<rparr>;
              path' = path @ [parent]
          in if length path' \<ge> max_depth config
             then (path', complete_with_error path' (dec_offset d) (DecMaxDepthExceeded (max_depth config)) d)
             else (case h of
                 ArrayHeader KU8 _ \<Rightarrow>
                   let path'' = path @ [parent\<lparr>current_child_index := container_child_size - 1\<rparr>]
                   in (path'', read_byte_array path'' (dec_offset d) container_child_size d)
               | _ \<Rightarrow> (path', read_value c path' (dec_offset d) (get_implicit_value_kind_of_current_child parent) d)))
   | ReadNextChildOrExitContainer \<Rightarrow>
       (if path \<noteq> [] then
          let parent = last path;
              next_child_index = current_child_index parent + 1
          in if next_child_index \<ge> get_child_count (container_header parent)
             then (butlast path, complete_container_end (butlast path) (container_start_offset parent) (container_header parent) d)
             else
               let parent' = parent\<lparr>current_child_index := next_child_index\<rparr>;
                   path' = butlast path @ [parent']
               in (path', read_value c path' (dec_offset d) (get_implicit_value_kind_of_current_child parent') d)
        else (path, finish config path (dec_offset d) d))
   | Errored \<Rightarrow> (path, d, Panics)
   | Ended \<Rightarrow> (path, d, Panics))"

definition next_event :: "('x, 'y) custom_codec \<Rightarrow> ('x vec_traverser, unit, ('x, 'y) located_event) mut_fn" where
  "next_event c tr =
    (case traverser_step c (tr_config tr) (tr_next_action tr) (tr_decoder tr) (tr_ancestor_path tr) of
       (path, d, Inl e) \<Rightarrow> (tr\<lparr>tr_decoder := d, tr_ancestor_path := path\<rparr>, Inl e)
     | (path, d, Inr (ev, action)) \<Rightarrow>
         (tr\<lparr>tr_decoder := d, tr_ancestor_path := path, tr_next_action := action\<rparr>, Ok ev))"

text \<open>
  The loop of \<^verbatim>\<open>calculate_value_tree_body_byte_length\<close>, which drains the traverser. \<open>None\<close> stands for
  a loop that does not end.
\<close>

partial_function (option) drain :: "('x, 'y) custom_codec \<Rightarrow> 'x vec_traverser \<Rightarrow> (decode_error, nat) res option" where
  "drain c tr = (case next_event c tr of
     (tr', Inl _) \<Rightarrow> Some Panics
   | (tr', Inr ev) \<Rightarrow> (case event ev of
       EndEvent \<Rightarrow> Some (Ok (end_offset ev))
     | DecodeErrorEvent err \<Rightarrow> Some (Error err)
     | _ \<Rightarrow> drain c tr'))"

declare drain.simps [code]

definition calculate_value_tree_body_byte_length ::
    "('x, 'y) custom_codec \<Rightarrow> u8 list \<Rightarrow> 'x value_kind \<Rightarrow> nat \<Rightarrow> nat \<Rightarrow> (decode_error, nat) res option" where
  "calculate_value_tree_body_byte_length c partial_payload value_kind current_depth depth_limit =
    (if current_depth > depth_limit then Some Panics
     else drain c (VecTraverser_new partial_payload (ReadRootValueBody value_kind)
            \<lparr>max_depth = depth_limit - current_depth, check_exact_end = False\<rparr>))"

section \<open>The events of a value\<close>

fun byte_of :: "('x, 'y) sbor_value \<Rightarrow> u8" where
  "byte_of (VU8 b) = b"
| "byte_of _ = 0"

text \<open>
  A container gives its start, the events of its children and its end; the children of a
  non-empty byte array come as one batch.
\<close>

fun value_events :: "('x, 'y) sbor_value \<Rightarrow> ('x, 'y) traversal_event list" where
  "value_events (VBool v) = [TerminalValue (TBool v)]"
| "value_events (VI8 v) = [TerminalValue (TI8 v)]"
| "value_events (VI16 v) = [TerminalValue (TI16 v)]"
| "value_events (VI32 v) = [TerminalValue (TI32 v)]"
| "value_events (VI64 v) = [TerminalValue (TI64 v)]"
| "value_events (VI128 v) = [TerminalValue (TI128 v)]"
| "value_events (VU8 v) = [TerminalValue (TU8 v)]"
| "value_events (VU16 v) = [TerminalValue (TU16 v)]"
| "value_events (VU32 v) = [TerminalValue (TU32 v)]"
| "value_events (VU64 v) = [TerminalValue (TU64 v)]"
| "value_events (VU128 v) = [TerminalValue (TU128 v)]"
| "value_events (VString v) = [TerminalValue (TString v)]"
| "value_events (VCustom v) = [TerminalValue (TCustom v)]"
| "value_events (VTuple vs) =
     [ContainerStart (TupleHeader (length vs))] @ concat (map value_events vs) @ [ContainerEnd (TupleHeader (length vs))]"
| "value_events (VEnum t vs) =
     [ContainerStart (EnumVariantHeader t (length vs))] @ concat (map value_events vs) @
     [ContainerEnd (EnumVariantHeader t (length vs))]"
| "value_events (VArray k vs) =
     [ContainerStart (ArrayHeader k (length vs))] @
     (if k = KU8 \<and> vs \<noteq> [] then [TerminalValueBatch (map byte_of vs)] else concat (map value_events vs)) @
     [ContainerEnd (ArrayHeader k (length vs))]"
| "value_events (VMap kk vk es) =
     [ContainerStart (MapHeader kk vk (length es))] @
     concat (map (\<lambda>e. value_events (fst e) @ value_events (snd e)) es) @
     [ContainerEnd (MapHeader kk vk (length es))]"

definition final_event :: "('x, 'y) traversal_event \<Rightarrow> bool" where
  "final_event e \<longleftrightarrow> (case e of EndEvent \<Rightarrow> True | DecodeErrorEvent _ \<Rightarrow> True | _ \<Rightarrow> False)"

lemma final_event_simps [simp]:
  "final_event EndEvent" "final_event (DecodeErrorEvent err)"
  "\<not> final_event (ContainerStart h)" "\<not> final_event (ContainerEnd h)"
  "\<not> final_event (TerminalValue t)" "\<not> final_event (TerminalValueBatch bs)"
  by (simp_all add: final_event_def)


section \<open>Runs of the traverser\<close>

text \<open>\<open>runs c s es t\<close>: from \<open>s\<close> the traverser gives the events \<open>es\<close>, none of them final, and is then in \<open>t\<close>.\<close>

inductive runs :: "('x, 'y) custom_codec \<Rightarrow> 'x vec_traverser \<Rightarrow> ('x, 'y) traversal_event list \<Rightarrow> 'x vec_traverser \<Rightarrow> bool"
  for c where
  runs_refl: "runs c s [] s"
| runs_step: "next_event c s = (s1, Ok e) \<Longrightarrow> \<not> final_event (event e) \<Longrightarrow> runs c s1 es s2 \<Longrightarrow> runs c s (event e # es) s2"

lemma runs_trans: "runs c s es t \<Longrightarrow> runs c t fs u \<Longrightarrow> runs c s (es @ fs) u"
  by (induction rule: runs.induct) (auto intro: runs.intros)

definition fails :: "('x, 'y) custom_codec \<Rightarrow> 'x vec_traverser \<Rightarrow> bool" where
  "fails c s \<longleftrightarrow> (\<exists>es t u e err. runs c s es t \<and> next_event c t = (u, Ok e) \<and> event e = DecodeErrorEvent err)"

lemma runs_fails: "runs c s es t \<Longrightarrow> fails c t \<Longrightarrow> fails c s"
  unfolding fails_def using runs_trans by blast

lemma drain_step:
  "next_event c s = (s1, Ok e) \<Longrightarrow> \<not> final_event (event e) \<Longrightarrow> drain c s = drain c s1"
  by (subst drain.simps) (auto simp: final_event_def split: traversal_event.splits)

lemma drain_runs: "runs c s es t \<Longrightarrow> drain c s = drain c t"
  by (induction rule: runs.induct) (simp_all add: drain_step)

lemma drain_fails: "fails c s \<Longrightarrow> \<exists>err. drain c s = Some (Error err)"
proof -
  assume "fails c s"
  then obtain es t u e err where "runs c s es t" "next_event c t = (u, Ok e)" "event e = DecodeErrorEvent err"
    unfolding fails_def by blast
  moreover from this(2,3) have "drain c t = Some (Error err)" by (subst drain.simps) simp
  ultimately show ?thesis using drain_runs by metis
qed

text \<open>A state of the traverser, and what follows once a handler has returned.\<close>

definition tr_at :: "traverser_config \<Rightarrow> vec_decoder \<Rightarrow> 'x ancestor_state list \<Rightarrow> 'x next_action \<Rightarrow> 'x vec_traverser" where
  "tr_at cfg d path act = \<lparr>tr_decoder = d, tr_ancestor_path = path, tr_next_action = act, tr_config = cfg\<rparr>"

definition goes_on :: "('x, 'y) custom_codec \<Rightarrow> traverser_config \<Rightarrow> 'x ancestor_state list \<Rightarrow>
    vec_decoder \<times> (unit, ('x, 'y) located_event \<times> 'x next_action) res \<Rightarrow> ('x, 'y) traversal_event list \<Rightarrow> 'x vec_traverser \<Rightarrow> bool" where
  "goes_on c cfg path h es s \<longleftrightarrow> (\<exists>d e act fs. h = (d, Ok (e, act)) \<and> \<not> final_event (event e) \<and>
     runs c (tr_at cfg d path act) fs s \<and> es = event e # fs)"

definition goes_wrong :: "('x, 'y) custom_codec \<Rightarrow> traverser_config \<Rightarrow> 'x ancestor_state list \<Rightarrow>
    vec_decoder \<times> (unit, ('x, 'y) located_event \<times> 'x next_action) res \<Rightarrow> bool" where
  "goes_wrong c cfg path h \<longleftrightarrow> (\<exists>d e act. h = (d, Ok (e, act)) \<and>
     ((\<exists>err. event e = DecodeErrorEvent err) \<or> \<not> final_event (event e) \<and> fails c (tr_at cfg d path act)))"

lemma next_event_at:
  "traverser_step c cfg act d path = (path', d', Ok (e, act')) \<Longrightarrow>
   next_event c (tr_at cfg d path act) = (tr_at cfg d' path' act', Ok e)"
  by (simp add: next_event_def tr_at_def)

lemma enter_on:
  "traverser_step c cfg act d path = (path', h) \<Longrightarrow> goes_on c cfg path' h es s \<Longrightarrow> runs c (tr_at cfg d path act) es s"
  unfolding goes_on_def using next_event_at runs_step by (metis (no_types, lifting))

lemma enter_wrong:
  "traverser_step c cfg act d path = (path', h) \<Longrightarrow> goes_wrong c cfg path' h \<Longrightarrow> fails c (tr_at cfg d path act)"
proof -
  assume step: "traverser_step c cfg act d path = (path', h)" and "goes_wrong c cfg path' h"
  then obtain d' e act' where h: "h = (d', Ok (e, act'))" and
    or: "(\<exists>err. event e = DecodeErrorEvent err) \<or> \<not> final_event (event e) \<and> fails c (tr_at cfg d' path' act')"
    unfolding goes_wrong_def by blast
  have "next_event c (tr_at cfg d path act) = (tr_at cfg d' path' act', Ok e)"
    using next_event_at step h by metis
  then show ?thesis using or runs_refl runs_fails [OF runs_step [OF _ _ runs_refl]]
    unfolding fails_def by meson
qed

lemma goes_on_then:
  assumes "goes_on c cfg path h es (tr_at cfg d path' act)" and "traverser_step c cfg act d path' = (path'', h')"
  shows "goes_on c cfg path'' h' fs s \<Longrightarrow> goes_on c cfg path h (es @ fs) s"
    and "goes_wrong c cfg path'' h' \<Longrightarrow> goes_wrong c cfg path h"
proof -
  obtain d0 e act0 fs0 where *: "h = (d0, Ok (e, act0))" "\<not> final_event (event e)"
    "runs c (tr_at cfg d0 path act0) fs0 (tr_at cfg d path' act)" "es = event e # fs0"
    using assms(1) unfolding goes_on_def by blast
  show "goes_on c cfg path h (es @ fs) s" if "goes_on c cfg path'' h' fs s"
    using * runs_trans [OF *(3) enter_on [OF assms(2) that]] unfolding goes_on_def by auto
  show "goes_wrong c cfg path h" if "goes_wrong c cfg path'' h'"
    using * runs_fails [OF *(3) enter_wrong [OF assms(2) that]] unfolding goes_wrong_def by blast
qed

section \<open>In step with the decoder\<close>

lemma parses_error:
  assumes "parses n m S" and "dec_left d = n" and no: "\<And>v bs r. S v bs \<Longrightarrow> peek_remaining d \<noteq> bs @ r"
  obtains d' err where "m d = (d', Error err)"
proof -
  obtain d' r where md: "m d = (d', r)" by (cases "m d")
  show thesis
  proof (cases r)
    case (Inl f)
    then have "f \<noteq> Panic" using parses_calm [OF assms(1,2)] md by auto
    then obtain err where "f = Err err" by (cases f) auto
    then show thesis using that Inl md by blast
  next
    case (Inr v)
    then have "m d = (d', Ok v)" using md by simp
    from parsesD [OF assms(1,2) this] obtain bs r' where "S v bs" "peek_remaining d = bs @ r'" by metis
    then show thesis using no by simp
  qed
qed

text \<open>
  A read that does not depend on the depth behaves alike on two decoders with the same bytes
  ahead, whatever their depths.
\<close>

definition uniform :: "'a decodes \<Rightarrow> bool" where
  "uniform m \<longleftrightarrow> (\<exists>S. \<forall>n. parses n m S)"

lemma uniformI: "(\<And>n. parses n m S) \<Longrightarrow> uniform m"
  unfolding uniform_def by blast

lemma uniform_Ok:
  assumes "uniform m" and "peek_remaining D = peek_remaining d" and "m D = (D', Ok x)"
  obtains L where "D' = skip L D" "m d = (skip L d, Ok x)"
proof -
  obtain S where S: "\<And>n. parses n m S" using assms(1) unfolding uniform_def by blast
  obtain bs r where "S x bs" "peek_remaining D = bs @ r" "D' = skip (length bs) D"
    using parsesD [OF S refl assms(3)] by blast
  moreover from this have "m d = (skip (length bs) d, Ok x)" using parses_run [OF S refl] assms(2) by metis
  ultimately show thesis using that by blast
qed

lemma uniform_Err:
  assumes "uniform m" and "peek_remaining D = peek_remaining d" and "m D = (D', Inl e)"
  obtains d' err where "m d = (d', Error err)"
proof -
  obtain S where S: "\<And>n. parses n m S" using assms(1) unfolding uniform_def by blast
  obtain d' r where md: "m d = (d', r)" by (cases "m d")
  show thesis
  proof (cases r)
    case (Inl f)
    then have "f \<noteq> Panic" using parses_calm [OF S refl, of d] md by auto
    then obtain err where "f = Err err" by (cases f) auto
    then show thesis using that Inl md by blast
  next
    case (Inr x)
    then have "\<exists>D'. m D = (D', Ok x)" using uniform_Ok [OF assms(1) assms(2) [symmetric]] md by metis
    then show thesis using assms(3) by simp
  qed
qed

lemmas uniform_reads = uniformI [OF parses_byte] uniformI [OF parses_slice] uniformI [OF parses_size]

lemma uniform_mbind: "uniform m \<Longrightarrow> (\<And>x. uniform (k x)) \<Longrightarrow> uniform (mbind m k)"
proof -
  assume m: "uniform m" and k: "\<And>x. uniform (k x)"
  obtain S where S: "\<And>n. parses n m S" using m unfolding uniform_def by blast
  have "\<forall>x. \<exists>T. \<forall>n. parses n (k x) T" using k unfolding uniform_def by blast
  then obtain T where T: "\<And>n x. parses n (k x) (T x)" by metis
  show "uniform (mbind m k)" by (rule uniformI [OF parses_mbind [OF S T]])
qed

lemma uniform_mseq: "uniform m \<Longrightarrow> uniform m' \<Longrightarrow> uniform (mseq m m')"
  unfolding mseq_def by (rule uniform_mbind)

lemma uniform_mlift: "r \<noteq> Panics \<Longrightarrow> uniform (mlift (\<lambda>_. r))"
  by (rule uniformI [OF parses_mlift])

lemma uniform_mreturn: "uniform (mreturn x)"
  by (rule uniformI [OF parses_mreturn])

lemma uniform_bodies:
  "uniform (decode_bool_body c k)" "uniform (decode_byte_body c own_kind k)"
  "uniform (decode_int_body c own_kind i k)" "uniform (decode_string_body c k)"
  unfolding decode_bool_body_def decode_byte_body_def decode_int_body_def decode_string_body_def
    check_preloaded_value_kind_def
  by (intro uniform_mseq uniform_mbind uniform_reads uniform_mreturn uniform_mlift; simp)+

text \<open>
  \<open>follows\<close>: where the decoder \<open>D\<close> returns a result, the traverser on \<open>d\<close> gives the events of the result
  and consumes as much; where the decoder fails, the traverser comes to an error event.
\<close>

definition follows :: "('x, 'y) custom_codec \<Rightarrow> traverser_config \<Rightarrow> 'x ancestor_state list \<Rightarrow> 'x ancestor_state list \<Rightarrow>
    vec_decoder \<Rightarrow> vec_decoder \<Rightarrow> ('a \<Rightarrow> ('x, 'y) traversal_event list) \<Rightarrow> 'a decodes \<Rightarrow> ('x, 'y) handler \<Rightarrow> bool" where
  "follows c cfg path path' D d evs m h \<longleftrightarrow>
     (\<forall>D' x. m D = (D', Ok x) \<longrightarrow>
        (\<exists>L. D' = skip L D \<and> goes_on c cfg path (h d) (evs x) (tr_at cfg (skip L d) path' ReadNextChildOrExitContainer))) \<and>
     (\<forall>D' e. m D = (D', Inl e) \<longrightarrow> goes_wrong c cfg path (h d))"

lemma followsI:
  assumes "\<And>D' x. m D = (D', Ok x) \<Longrightarrow>
      \<exists>L. D' = skip L D \<and> goes_on c cfg path (h d) (evs x) (tr_at cfg (skip L d) path' ReadNextChildOrExitContainer)"
    and "\<And>D' e. m D = (D', Inl e) \<Longrightarrow> goes_wrong c cfg path (h d)"
  shows "follows c cfg path path' D d evs m h"
  using assms unfolding follows_def by blast

lemma goes_wrong_error: "goes_wrong c cfg path (complete_with_error path' start err d)"
  by (simp add: goes_wrong_def complete_with_error_def complete_def)

lemma handle_error_simps:
  "m d = (d', Ok x) \<Longrightarrow> handle_error path start m k d = k x d'"
  "m d = (d', Error err) \<Longrightarrow> handle_error path start m k d = complete_with_error path start err d'"
  by (simp_all add: handle_error_def)

lemma follows_read:
  assumes u: "uniform m" and peek: "peek_remaining D = peek_remaining d"
    and rest: "\<And>x L. m D = (skip L D, Ok x) \<Longrightarrow> follows c cfg path path' (skip L D) (skip L d) evs (k x) (h x)"
  shows "follows c cfg path path' D d evs (mbind m k) (handle_error path start m h)"
proof (rule followsI)
  fix D' x assume "mbind m k D = (D', Ok x)"
  then obtain D1 y where m: "m D = (D1, Ok y)" and k: "k y D1 = (D', Ok x)" by (auto simp: mbind_eq_Inr_iff)
  obtain L where L: "D1 = skip L D" "m d = (skip L d, Ok y)" using uniform_Ok [OF u peek m] .
  then have f: "follows c cfg path path' (skip L D) (skip L d) evs (k y) (h y)" using rest m by blast
  then obtain L' where "D' = skip L' (skip L D)"
      "goes_on c cfg path (h y (skip L d)) (evs x) (tr_at cfg (skip L' (skip L d)) path' ReadNextChildOrExitContainer)"
    using k L(1) unfolding follows_def by blast
  then show "\<exists>L. D' = skip L D \<and>
      goes_on c cfg path (handle_error path start m h d) (evs x) (tr_at cfg (skip L d) path' ReadNextChildOrExitContainer)"
    by (intro exI [of _ "L + L'"]) (simp add: handle_error_def L(2))
next
  fix D' e assume err: "mbind m k D = (D', Inl e)"
  obtain D1 r where m: "m D = (D1, r)" by (cases "m D")
  show "goes_wrong c cfg path (handle_error path start m h d)"
  proof (cases r)
    case (Inl f)
    then obtain d' err where "m d = (d', Error err)" using uniform_Err [OF u peek] m by blast
    then show ?thesis by (simp add: handle_error_simps goes_wrong_error)
  next
    case (Inr y)
    obtain L where L: "D1 = skip L D" "m d = (skip L d, Ok y)" using uniform_Ok [OF u peek] m Inr by blast
    then have "k y (skip L D) = (D', Inl e)" using err m Inr by simp
    then have "goes_wrong c cfg path (h y (skip L d))"
      using rest m Inr L(1) unfolding follows_def by blast
    then show ?thesis by (simp add: handle_error_def L(2))
  qed
qed

lemma follows_terminal:
  assumes "uniform m" and "peek_remaining D = peek_remaining d" and "\<And>x. value_events (con x) = [TerminalValue (t x)]"
  shows "follows c cfg path path D d value_events (mbind m (\<lambda>x. mreturn (con x))) (read_terminal_value path start m t)"
  unfolding read_terminal_value_def
  by (rule follows_read [OF assms(1,2)], rule followsI)
    (auto simp: assms(3) goes_on_def complete_def intro!: exI [of _ 0] runs_refl)

section \<open>Containers\<close>

definition read_child :: "('x, 'y) custom_codec \<Rightarrow> ('x value_kind \<Rightarrow> ('x, 'y) sbor_value decodes) \<Rightarrow>
    'x value_kind option \<Rightarrow> ('x, 'y) sbor_value decodes" where
  "read_child c deeper k = (case k of None \<Rightarrow> mbind (read_value_kind (custom_from_u8 c)) deeper | Some k \<Rightarrow> deeper k)"

text \<open>The children \<open>i\<close>, \<open>i + 1\<close>, \<open>\<dots>\<close> of a container, one after the other.\<close>

primrec read_children :: "('x, 'y) custom_codec \<Rightarrow> ('x value_kind \<Rightarrow> ('x, 'y) sbor_value decodes) \<Rightarrow>
    'x container_header \<Rightarrow> nat \<Rightarrow> nat \<Rightarrow> ('x, 'y) sbor_value list decodes" where
  "read_children c deeper h 0 i = mreturn []"
| "read_children c deeper h (Suc m) i =
     mbind (read_child c deeper (get_implicit_child_value_kind h i)) (\<lambda>v.
     mbind (read_children c deeper h m (Suc i)) (\<lambda>vs. mreturn (v # vs)))"

lemma mtimes_children:
  assumes "\<And>j. get_implicit_child_value_kind h j = k"
  shows "mtimes m (read_child c deeper k) = read_children c deeper h m i"
  by (induction m arbitrary: i) (simp_all add: assms)

primrec flat :: "('a \<times> 'a) list \<Rightarrow> 'a list" where
  "flat [] = []"
| "flat (e # es) = fst e # snd e # flat es"

lemma mbind_mreturn_assoc:
  "mbind (mbind m (\<lambda>x. mreturn (f x))) k = mbind m (\<lambda>x. k (f x))"
  by (auto simp: mbind_def fun_eq_iff split: prod.splits sum.splits)

lemma mbind_assoc: "mbind (mbind m f) g = mbind m (\<lambda>x. mbind (f x) g)"
  by (auto simp: mbind_def fun_eq_iff split: prod.splits sum.splits)

lemma mbind_mreturn_left [simp]: "mbind (mreturn x) k = k x"
  by (simp add: mbind_def fun_eq_iff)

lemma mtimes_entries:
  "mbind (mtimes m (mbind (deeper kk) (\<lambda>k. mbind (deeper vk) (\<lambda>v. mreturn (k, v))))) (\<lambda>es. mreturn (flat es)) =
   read_children c deeper (MapHeader kk vk len) (2 * m) (2 * i)"
proof (induction m arbitrary: i)
  case (Suc m)
  let ?entry = "mbind (deeper kk) (\<lambda>k. mbind (deeper vk) (\<lambda>v. mreturn (k, v)))"
  have "mbind (mtimes m ?entry) (\<lambda>es. mreturn (k # v # flat es)) =
      mbind (read_children c deeper (MapHeader kk vk len) (2 * m) (2 * Suc i)) (\<lambda>vs. mreturn (k # v # vs))" for k v
    by (simp only: Suc.IH [symmetric] mbind_mreturn_assoc)
  then show ?case
    by (simp add: mbind_assoc read_child_def get_implicit_child_value_kind_def del: mreturn_apply)
qed (simp del: mreturn_apply)

abbreviation anc :: "'x container_header \<Rightarrow> nat \<Rightarrow> nat \<Rightarrow> 'x ancestor_state" where
  "anc h s i \<equiv> \<lparr>container_header = h, container_start_offset = s, current_child_index = i\<rparr>"

lemma step_next_child:
  "Suc i < get_child_count h \<Longrightarrow>
   traverser_step c cfg ReadNextChildOrExitContainer d (path @ [anc h s i]) =
     (path @ [anc h s (Suc i)], read_value c (path @ [anc h s (Suc i)]) (dec_offset d) (get_implicit_child_value_kind h (Suc i)) d)"
  by (simp add: traverser_step_def get_implicit_value_kind_of_current_child_def Let_def)

lemma step_exit:
  "\<not> Suc i < get_child_count h \<Longrightarrow>
   traverser_step c cfg ReadNextChildOrExitContainer d (path @ [anc h s i]) = (path, complete_container_end path s h d)"
  by (simp add: traverser_step_def)

lemma goes_on_end: "goes_on c cfg path (complete_container_end path s h d) [ContainerEnd h] (tr_at cfg d path ReadNextChildOrExitContainer)"
  by (auto simp: goes_on_def complete_container_end_def complete_def intro: runs_refl)

context custom_sbor
begin

lemma uniform_kind: "uniform (read_value_kind (custom_from_u8 c))"
  by (rule uniformI [OF parses_kind])

lemma uniform_custom: "uniform (custom_decode_body c (KCustom x))"
  by (rule uniformI [OF custom_parses])

lemma deeper_follows:
  assumes IH: "\<And>D d k. dec_left D = n \<Longrightarrow> peek_remaining D = peek_remaining d \<Longrightarrow>
      follows c cfg path path D d value_events (decode_body_with_value_kind c (decode_deeper_levels c n) k) (read_value_body c path start k)"
    and n: "dec_left D = Suc n" and peek: "peek_remaining D = peek_remaining d"
  shows "follows c cfg path path D d value_events (decode_deeper_levels c (Suc n) k) (read_value_body c path start k)"
proof -
  let ?body = "decode_body_with_value_kind c (decode_deeper_levels c n) k"
  let ?E = "D\<lparr>dec_stack_depth := Suc (dec_stack_depth D)\<rparr>"
  have E: "dec_left ?E = n" "peek_remaining ?E = peek_remaining d"
    using n peek by (simp_all add: dec_left_def peek_remaining_def)
  have f: "follows c cfg path path ?E d value_events ?body (read_value_body c path start k)" by (rule IH [OF E])
  have inc: "dec_track_stack_depth_increase D = (?E, Ok ())"
    using n by (simp add: dec_track_stack_depth_increase_def dec_left_def)
  obtain F r where F: "?body ?E = (F, r)" by (cases "?body ?E")
  show ?thesis
  proof (cases r)
    case (Inl e)
    then have "goes_wrong c cfg path (read_value_body c path start k d)" using f F unfolding follows_def by blast
    moreover have "decode_deeper_levels c (Suc n) k D = (F, Inl e)" using inc F Inl by (simp add: mseq_def)
    ultimately show ?thesis by (intro followsI) simp_all
  next
    case (Inr v)
    then obtain L where L: "F = skip L ?E"
      "goes_on c cfg path (read_value_body c path start k d) (value_events v) (tr_at cfg (skip L d) path ReadNextChildOrExitContainer)"
      using f F unfolding follows_def by blast
    have "F\<lparr>dec_stack_depth := dec_stack_depth F - 1\<rparr> = skip L D" using L(1) by (simp add: skip_def)
    then have "decode_deeper_levels c (Suc n) k D = (skip L D, Ok v)"
      using inc F Inr by (simp add: mseq_def mbind_def dec_track_stack_depth_decrease_def)
    then show ?thesis using L(2) by (intro followsI) auto
  qed
qed

lemma child_follows:
  assumes deeper: "\<And>D d k. dec_left D = n \<Longrightarrow> peek_remaining D = peek_remaining d \<Longrightarrow>
      follows c cfg path path D d value_events (deeper k) (read_value_body c path start k)"
    and n: "dec_left D = n" and peek: "peek_remaining D = peek_remaining d"
  shows "follows c cfg path path D d value_events (read_child c deeper k) (read_value c path start k)"
proof (cases k)
  case None
  show ?thesis unfolding None read_child_def read_value_def option.case
    by (rule follows_read [OF uniform_kind peek]) (simp add: deeper n peek)
next
  case (Some k')
  show ?thesis unfolding Some read_child_def read_value_def option.case by (rule deeper [OF n peek])
qed

end

context custom_sbor
begin

lemma children_follow:
  assumes deeper: "\<And>D d k i start. dec_left D = n \<Longrightarrow> peek_remaining D = peek_remaining d \<Longrightarrow>
      follows c cfg (path @ [anc h s i]) (path @ [anc h s i]) D d value_events (deeper k)
        (read_value_body c (path @ [anc h s i]) start k)"
    and "dec_left D = n" and "peek_remaining D = peek_remaining d" and "i + Suc m = get_child_count h"
  shows "follows c cfg (path @ [anc h s i]) (path @ [anc h s (i + m)]) D d (\<lambda>vs. concat (map value_events vs))
    (read_children c deeper h (Suc m) i) (read_value c (path @ [anc h s i]) start (get_implicit_child_value_kind h i))"
  using assms(2-)
proof (induction m arbitrary: D d i start)
  case 0
  let ?p = "path @ [anc h s i]"
  have f: "follows c cfg ?p ?p D d value_events (read_child c deeper (get_implicit_child_value_kind h i))
      (read_value c ?p start (get_implicit_child_value_kind h i))"
    by (rule child_follows [OF deeper 0(1,2)])
  then show ?case unfolding follows_def
    by (auto simp: mbind_eq_Inr_iff) (auto simp: mbind_def split: prod.splits sum.splits)
next
  case (Suc m)
  let ?p = "path @ [anc h s i]"
  let ?h = "read_value c ?p start (get_implicit_child_value_kind h i) d"
  let ?kids = "read_children c deeper h (Suc m) (Suc i)"
  have f: "follows c cfg ?p ?p D d value_events (read_child c deeper (get_implicit_child_value_kind h i))
      (read_value c ?p start (get_implicit_child_value_kind h i))"
    by (rule child_follows [OF deeper Suc.prems(1,2)])
  obtain D1 r where child: "read_child c deeper (get_implicit_child_value_kind h i) D = (D1, r)"
    by (cases "read_child c deeper (get_implicit_child_value_kind h i) D")
  show ?case
  proof (cases r)
    case (Inl e)
    then have "goes_wrong c cfg ?p ?h" using f child unfolding follows_def by blast
    then show ?thesis using child Inl by (intro followsI) (simp_all add: mbind_def)
  next
    case (Inr v)
    then obtain L where L: "D1 = skip L D" and on: "goes_on c cfg ?p ?h (value_events v)
        (tr_at cfg (skip L d) ?p ReadNextChildOrExitContainer)"
      using f child unfolding follows_def by blast
    have "Suc i < get_child_count h" using Suc.prems(3) by simp
    note go = goes_on_then [OF on step_next_child [OF this]]
    have rest: "follows c cfg (path @ [anc h s (Suc i)]) (path @ [anc h s (Suc i + m)]) (skip L D) (skip L d)
        (\<lambda>vs. concat (map value_events vs)) ?kids
        (read_value c (path @ [anc h s (Suc i)]) (dec_offset (skip L d)) (get_implicit_child_value_kind h (Suc i)))"
      using Suc.prems by (intro Suc.IH) simp_all
    show ?thesis
    proof (rule followsI)
      fix D' vs assume "read_children c deeper h (Suc (Suc m)) i D = (D', Ok vs)"
      then obtain ws where ws: "?kids (skip L D) = (D', Ok ws)" "vs = v # ws"
        using child Inr L by (auto simp: mbind_eq_Inr_iff)
      then obtain L' where "D' = skip L' (skip L D)" "goes_on c cfg (path @ [anc h s (Suc i)])
          (read_value c (path @ [anc h s (Suc i)]) (dec_offset (skip L d)) (get_implicit_child_value_kind h (Suc i)) (skip L d))
          (concat (map value_events ws)) (tr_at cfg (skip L' (skip L d)) (path @ [anc h s (Suc i + m)]) ReadNextChildOrExitContainer)"
        using rest unfolding follows_def by blast
      then show "\<exists>L. D' = skip L D \<and> goes_on c cfg ?p ?h (concat (map value_events vs))
          (tr_at cfg (skip L d) (path @ [anc h s (i + Suc m)]) ReadNextChildOrExitContainer)"
        using go(1) ws(2) by (intro exI [of _ "L + L'"]) simp
    next
      fix D' e assume "read_children c deeper h (Suc (Suc m)) i D = (D', Inl e)"
      then have "?kids (skip L D) = (D', Inl e)"
        using child Inr L by (auto simp: mbind_def split: prod.splits sum.splits)
      then show "goes_wrong c cfg ?p ?h" using rest go(2) unfolding follows_def by blast
    qed
  qed
qed

text \<open>
  From the start of a container to its end. The depth is checked when the first child is read,
  by both.
\<close>

lemma step_content:
  "get_child_count h = Suc m \<Longrightarrow> \<not> (\<exists>len. h = ArrayHeader KU8 len) \<Longrightarrow> \<not> Suc (length path) \<ge> max_depth cfg \<Longrightarrow>
   traverser_step c cfg (ReadContainerContentStart h s) d path =
     (path @ [anc h s 0], read_value c (path @ [anc h s 0]) (dec_offset d) (get_implicit_child_value_kind h 0) d)"
  by (cases h) (auto simp: traverser_step_def Let_def get_implicit_value_kind_of_current_child_def split: value_kind.splits)

lemma step_too_deep:
  "get_child_count h = Suc m \<Longrightarrow> Suc (length path) \<ge> max_depth cfg \<Longrightarrow>
   traverser_step c cfg (ReadContainerContentStart h s) d path =
     (path @ [anc h s 0], complete_with_error (path @ [anc h s 0]) (dec_offset d) (DecMaxDepthExceeded (max_depth cfg)) d)"
  by (simp add: traverser_step_def Let_def)

lemma goes_on_start:
  "goes_on c cfg path (complete_container_start path s h d) [ContainerStart h] (tr_at cfg d path (ReadContainerContentStart h s))"
  by (auto simp: goes_on_def complete_container_start_def complete_def intro: runs_refl)

end

lemma read_children_length: "read_children c deeper h m i D = (D', Ok vs) \<Longrightarrow> length vs = m"
  by (induction m arbitrary: i D vs) (auto simp: mbind_eq_Inr_iff)

lemma follows_map:
  assumes "follows c cfg path path' D d evs m h" and "\<And>D' x. m D = (D', Ok x) \<Longrightarrow> evs' (f x) = evs x"
  shows "follows c cfg path path' D d evs' (mbind m (\<lambda>x. mreturn (f x))) h"
proof (rule followsI)
  fix D' y assume "mbind m (\<lambda>x. mreturn (f x)) D = (D', Ok y)"
  then obtain x where "m D = (D', Ok x)" "y = f x" by (auto simp: mbind_eq_Inr_iff)
  then show "\<exists>L. D' = skip L D \<and> goes_on c cfg path (h d) (evs' y) (tr_at cfg (skip L d) path' ReadNextChildOrExitContainer)"
    using assms unfolding follows_def by metis
next
  fix D' e assume "mbind m (\<lambda>x. mreturn (f x)) D = (D', Inl e)"
  then have "m D = (D', Inl e)" by (auto simp: mbind_def split: prod.splits sum.splits)
  then show "goes_wrong c cfg path (h d)" using assms(1) unfolding follows_def by blast
qed

lemma follows_remap:
  assumes "follows c cfg path path' D d evs (mbind m (\<lambda>x. mreturn (f x))) h"
    and "\<And>D' x. m D = (D', Ok x) \<Longrightarrow> evs' (g x) = evs (f x)"
  shows "follows c cfg path path' D d evs' (mbind m (\<lambda>x. mreturn (g x))) h"
proof (rule followsI)
  fix D' y assume "mbind m (\<lambda>x. mreturn (g x)) D = (D', Ok y)"
  then obtain x where "m D = (D', Ok x)" "y = g x" by (auto simp: mbind_eq_Inr_iff)
  moreover from this have "mbind m (\<lambda>x. mreturn (f x)) D = (D', Ok (f x))" by simp
  ultimately show "\<exists>L. D' = skip L D \<and> goes_on c cfg path (h d) (evs' y) (tr_at cfg (skip L d) path' ReadNextChildOrExitContainer)"
    using assms unfolding follows_def by metis
next
  fix D' e assume "mbind m (\<lambda>x. mreturn (g x)) D = (D', Inl e)"
  then have "mbind m (\<lambda>x. mreturn (f x)) D = (D', Inl e)" by (auto simp: mbind_def split: prod.splits sum.splits)
  then show "goes_wrong c cfg path (h d)" using assms(1) unfolding follows_def by blast
qed

lemma follows_wrong:
  "(\<And>D' x. m D \<noteq> (D', Ok x)) \<Longrightarrow> goes_wrong c cfg path (h d) \<Longrightarrow> follows c cfg path path' D d evs m h"
  unfolding follows_def by blast

text \<open>What follows once the header of a container has been read.\<close>

definition container_events :: "'x container_header \<Rightarrow> ('x, 'y) traversal_event list \<Rightarrow> ('x, 'y) traversal_event list" where
  "container_events h es = [ContainerStart h] @ es @ [ContainerEnd h]"

context custom_sbor
begin

lemma levels_0: "dec_left D = 0 \<Longrightarrow> \<exists>D' e. decode_deeper_levels c 0 k D = (D', Inl e)"
  by (auto simp: dec_track_stack_depth_increase_def dec_left_def mseq_def mbind_def ensure_def)

lemma children_0:
  assumes "dec_left D = 0" and "read_children c (decode_deeper_levels c 0) h (Suc m) i D = (D', Ok vs)"
  shows False
proof -
  obtain E v where child: "read_child c (decode_deeper_levels c 0) (get_implicit_child_value_kind h i) D = (E, Ok v)"
    using assms(2) by (auto simp: mbind_eq_Inr_iff)
  show False
  proof (cases "get_implicit_child_value_kind h i")
    case None
    then obtain F k where kind: "read_value_kind (custom_from_u8 c) D = (F, Ok k)"
        and "decode_deeper_levels c 0 k F = (E, Ok v)"
      using child by (auto simp: read_child_def mbind_eq_Inr_iff)
    moreover have "dec_left F = 0" using uniform_Ok [OF uniform_kind refl kind] assms(1) by (metis skip_simps(1))
    ultimately show False using levels_0 [of F k] by simp
  next
    case (Some k)
    then show False using child levels_0 [OF assms(1), of k] by (simp add: read_child_def)
  qed
qed

lemma content_follows:
  assumes deeper: "\<And>D d k i start. dec_left D = n \<Longrightarrow> peek_remaining D = peek_remaining d \<Longrightarrow> 0 < n \<Longrightarrow>
      follows c cfg (path @ [anc h s i]) (path @ [anc h s i]) D d value_events (decode_deeper_levels c n k)
        (read_value_body c (path @ [anc h s i]) start k)"
    and left: "dec_left D = n" and peek: "peek_remaining D = peek_remaining d" and depth: "n = max_depth cfg - Suc (length path)"
    and no_batch: "\<not> (\<exists>len. h = ArrayHeader KU8 (Suc len))"
  shows "follows c cfg path path D d (\<lambda>vs. container_events h (concat (map value_events vs)))
    (read_children c (decode_deeper_levels c n) h (get_child_count h) 0) (complete_container_start path s h)"
proof (cases "get_child_count h")
  case 0
  have "traverser_step c cfg (ReadContainerContentStart h s) d path = (path, complete_container_end path s h d)"
    using 0 by (simp add: traverser_step_def)
  from goes_on_then(1) [OF goes_on_start this goes_on_end] show ?thesis
    using 0 by (intro followsI) (auto simp: container_events_def intro!: exI [of _ 0])
next
  case (Suc m)
  show ?thesis
  proof (cases n)
    case n: 0
    then have "Suc (length path) \<ge> max_depth cfg" using depth by simp
    note go = goes_on_then(2) [OF goes_on_start step_too_deep [OF Suc this] goes_wrong_error]
    show ?thesis by (rule follows_wrong [OF _ go]) (use children_0 left n Suc in metis)
  next
    case n: (Suc n')
    then have "\<not> Suc (length path) \<ge> max_depth cfg" using depth by simp
    moreover have "\<not> (\<exists>len. h = ArrayHeader KU8 len)" using no_batch Suc by (auto simp: get_child_count_def)
    ultimately have "traverser_step c cfg (ReadContainerContentStart h s) d path =
        (path @ [anc h s 0], read_value c (path @ [anc h s 0]) (dec_offset d) (get_implicit_child_value_kind h 0) d)"
      using step_content [OF Suc] by blast
    note go = goes_on_then [OF goes_on_start this]
    have kids: "follows c cfg (path @ [anc h s 0]) (path @ [anc h s m]) D d (\<lambda>vs. concat (map value_events vs))
        (read_children c (decode_deeper_levels c n) h (Suc m) 0)
        (read_value c (path @ [anc h s 0]) (dec_offset d) (get_implicit_child_value_kind h 0))"
      using children_follow [of n cfg path h s "decode_deeper_levels c n" D d 0 m] deeper n left peek Suc by simp
    have last: "\<not> Suc m < get_child_count h" using Suc by simp
    show ?thesis unfolding Suc
    proof (rule followsI)
      fix D' vs assume "read_children c (decode_deeper_levels c n) h (Suc m) 0 D = (D', Ok vs)"
      then obtain L where L: "D' = skip L D" "goes_on c cfg (path @ [anc h s 0])
          (read_value c (path @ [anc h s 0]) (dec_offset d) (get_implicit_child_value_kind h 0) d)
          (concat (map value_events vs)) (tr_at cfg (skip L d) (path @ [anc h s m]) ReadNextChildOrExitContainer)"
        using kids unfolding follows_def by blast
      from goes_on_then(1) [OF go(1) [OF L(2)] step_exit [OF last] goes_on_end] L(1)
      show "\<exists>L. D' = skip L D \<and> goes_on c cfg path (complete_container_start path s h d)
          (container_events h (concat (map value_events vs))) (tr_at cfg (skip L d) path ReadNextChildOrExitContainer)"
        by (intro exI [of _ L]) (simp add: container_events_def)
    next
      fix D' e assume "read_children c (decode_deeper_levels c n) h (Suc m) 0 D = (D', Inl e)"
      then show "goes_wrong c cfg path (complete_container_start path s h d)"
        using kids go(2) unfolding follows_def by blast
    qed
  qed
qed

text \<open>Byte arrays: the elements one by one in the decoder, one slice in the traverser.\<close>

lemma step_batch:
  "\<not> Suc (length path) \<ge> max_depth cfg \<Longrightarrow>
   traverser_step c cfg (ReadContainerContentStart (ArrayHeader KU8 (Suc m)) s) d path =
     (path @ [anc (ArrayHeader KU8 (Suc m)) s m], read_byte_array (path @ [anc (ArrayHeader KU8 (Suc m)) s m]) (dec_offset d) (Suc m) d)"
  by (simp add: traverser_step_def Let_def get_child_count_def)

lemma byte_children:
  "(\<forall>v \<in> set vs. readable c cv i KU8 v) \<and> bs = concat (map (body_bytes c cb) vs) \<longleftrightarrow> vs = map VU8 bs"
proof (induction vs arbitrary: bs)
  case (Cons v vs)
  have "readable c cv i KU8 v \<longleftrightarrow> (\<exists>b. v = VU8 b)" by (auto simp: readable_def value_kind_iffs)
  moreover have "concat (map (body_bytes c cb \<circ> VU8) l) = l" for l by (induction l) simp_all
  ultimately show ?case using Cons by (cases bs) auto
qed auto

lemma parses_bytes:
  "parses (Suc n) (mtimes m (decode_deeper_levels c (Suc n) KU8)) (\<lambda>vs bs. length bs = m \<and> vs = map VU8 bs)"
  by (rule parses_cong [OF parses_times [OF parses_deeper_levels]]) (use byte_children in \<open>auto\<close>)

end

context custom_sbor
begin

lemma bytes_follow:
  assumes left: "dec_left D = n" and peek: "peek_remaining D = peek_remaining d" and depth: "n = max_depth cfg - Suc (length path)"
  shows "follows c cfg path path D d
    (\<lambda>vs. container_events (ArrayHeader KU8 (Suc m)) [TerminalValueBatch (map byte_of vs)])
    (mtimes (Suc m) (decode_deeper_levels c n KU8)) (complete_container_start path s (ArrayHeader KU8 (Suc m)))"
proof (cases n)
  case 0
  let ?h = "ArrayHeader KU8 (Suc m)"
  have "Suc (length path) \<ge> max_depth cfg" and "get_child_count ?h = Suc m"
    using depth 0 by (simp_all add: get_child_count_def)
  note go = goes_on_then(2) [OF goes_on_start step_too_deep [OF this(2,1)] goes_wrong_error]
  show ?thesis
    by (rule follows_wrong [OF _ go]) (use levels_0 [of D KU8] left 0 in \<open>auto simp: mbind_eq_Inr_iff\<close>)
next
  case (Suc n')
  let ?h = "ArrayHeader KU8 (Suc m)"
  let ?kids = "mtimes (Suc m) (decode_deeper_levels c n KU8)"
  let ?p = "path @ [anc ?h s m]"
  have "\<not> Suc (length path) \<ge> max_depth cfg" using depth Suc by simp
  note go = goes_on_then [OF goes_on_start step_batch [OF this]]
  have parses: "parses n ?kids (\<lambda>vs bs. length bs = Suc m \<and> vs = map VU8 bs)"
    unfolding Suc by (rule parses_bytes)
  have exit: "traverser_step c cfg ReadNextChildOrExitContainer e ?p = (path, complete_container_end path s ?h e)" for e
    by (rule step_exit) (simp add: get_child_count_def)
  show ?thesis
  proof (rule followsI)
    fix D' vs assume "?kids D = (D', Ok vs)"
    then obtain bs r where bs: "length bs = Suc m \<and> vs = map VU8 bs" "peek_remaining D = bs @ r" "D' = skip (length bs) D"
      using parsesD [OF parses left] by blast
    have "read_slice (Suc m) d = (skip (Suc m) d, Ok bs)"
      using parses_run [OF parses_slice refl, where v = bs and bs = bs and r = r] bs peek by simp
    then have "goes_on c cfg ?p (read_byte_array ?p (dec_offset d) (Suc m) d) [TerminalValueBatch bs]
        (tr_at cfg (skip (Suc m) d) ?p ReadNextChildOrExitContainer)"
      by (auto simp: read_byte_array_def handle_error_def goes_on_def complete_def intro: runs_refl)
    from goes_on_then(1) [OF go(1) [OF this] exit goes_on_end] bs
    show "\<exists>L. D' = skip L D \<and> goes_on c cfg path (complete_container_start path s ?h d)
        (container_events ?h [TerminalValueBatch (map byte_of vs)]) (tr_at cfg (skip L d) path ReadNextChildOrExitContainer)"
      by (intro exI [of _ "Suc m"]) (simp add: container_events_def o_def)
  next
    fix D' e assume err: "?kids D = (D', Inl e)"
    have "peek_remaining d \<noteq> bs @ r" if "length bs = Suc m" for bs r
      using parses_run [OF parses left, where v = "map VU8 bs" and bs = bs and r = r] peek err that by auto
    then obtain d' err where "read_slice (Suc m) d = (d', Error err)"
      using parses_error [OF parses_slice refl, of "Suc m" d] by metis
    then show "goes_wrong c cfg path (complete_container_start path s ?h d)"
      using go(2) by (simp add: read_byte_array_def handle_error_def goes_wrong_error)
  qed
qed

end

lemma handle_error_mbind:
  "handle_error path start (mbind m f) k = handle_error path start m (\<lambda>x. handle_error path start (f x) k)"
  by (auto simp: handle_error_def mbind_def fun_eq_iff split: prod.splits sum.splits fail.splits)

lemma mseq_ok: "mseq (mlift (\<lambda>_. Ok ())) m = m"
  by (simp add: mseq_def mbind_def fun_eq_iff)

lemma read_string_body: "read_value_body c path start KString = read_terminal_value path start (decode_string_body c KString) TString"
proof -
  have "decode_string_body c KString = mbind read_size (\<lambda>len. mbind (read_slice len) (\<lambda>bs.
      mlift (\<lambda>_. if is_utf8 bs then Ok bs else Error InvalidUtf8)))"
    by (simp add: decode_string_body_def check_preloaded_value_kind_def mseq_ok)
  then show ?thesis by (simp add: read_value_body_def read_terminal_value_def handle_error_mbind)
qed

lemma flat_events: "concat (map value_events (flat es)) = concat (map (\<lambda>e. value_events (fst e) @ value_events (snd e)) es)"
  by (induction es) simp_all

lemma length_flat [simp]: "length (flat es) = 2 * length es"
  by (induction es) simp_all

lemma mtimes_length: "mtimes m f D = (D', Ok xs) \<Longrightarrow> length xs = m"
  by (induction m arbitrary: D xs) (auto simp: mbind_eq_Inr_iff)

context custom_sbor
begin

text \<open>The children of a container whose children all have, or all lack, a kind of their own.\<close>

lemma sequence_follows:
  assumes content: "follows c cfg path path D d (\<lambda>vs. container_events h (concat (map value_events vs)))
      (read_children c deeper h (get_child_count h) 0) (complete_container_start path s h)"
    and k: "\<And>j. get_implicit_child_value_kind h j = k" and "m = get_child_count h"
    and evs: "\<And>vs. length vs = m \<Longrightarrow> value_events (con vs) = container_events h (concat (map value_events vs))"
  shows "follows c cfg path path D d value_events (mbind (mtimes m (read_child c deeper k)) (\<lambda>vs. mreturn (con vs)))
    (complete_container_start path s h)"
  unfolding mtimes_children [OF k, where i = 0] assms(3)
  by (rule follows_map [OF content]) (use evs assms(3) read_children_length in metis)

lemma body_step:
  assumes deeper: "\<And>D d k a start. dec_left D = n \<Longrightarrow> peek_remaining D = peek_remaining d \<Longrightarrow> 0 < n \<Longrightarrow>
      follows c cfg (path @ [a]) (path @ [a]) D d value_events (decode_deeper_levels c n k) (read_value_body c (path @ [a]) start k)"
    and left: "dec_left D = n" and peek: "peek_remaining D = peek_remaining d" and depth: "n = max_depth cfg - Suc (length path)"
  shows "follows c cfg path path D d value_events (decode_body_with_value_kind c (decode_deeper_levels c n) k)
    (read_value_body c path start k)"
proof -
  note unfolds = decode_body_with_value_kind_def read_value_body_def value_kind.case
  have content: "follows c cfg path path D d (\<lambda>vs. container_events h (concat (map value_events vs)))
      (read_children c (decode_deeper_levels c n) h (get_child_count h) 0) (complete_container_start path start h)"
    if "\<not> (\<exists>len. h = ArrayHeader KU8 (Suc len))" "dec_left D = n" "peek_remaining D = peek_remaining d" for D d h
    by (rule content_follows [OF deeper that(2,3) depth that(1)])
  have kids: "mbind (read_value_kind (custom_from_u8 c)) (decode_deeper_levels c n) = read_child c (decode_deeper_levels c n) None"
    "read_child c (decode_deeper_levels c n) (Some k) = decode_deeper_levels c n k" for k
    by (simp_all add: read_child_def)
  show ?thesis
  proof (cases k)
    case KTuple
    show ?thesis unfolding KTuple unfolds kids(1)
      by (rule follows_read [OF uniform_reads(3) peek], rule sequence_follows [OF content])
        (auto simp: left peek get_implicit_child_value_kind_def get_child_count_def container_events_def)
  next
    case KEnum
    show ?thesis unfolding KEnum unfolds kids(1) read_discriminator_def
      by (rule follows_read [OF uniform_reads(1) peek], rule follows_read [OF uniform_reads(3)], simp add: peek,
          rule sequence_follows [OF content])
        (auto simp: left peek get_implicit_child_value_kind_def get_child_count_def container_events_def)
  next
    case KArray
    have array: "follows c cfg path path D d value_events
        (mbind (mtimes len (decode_deeper_levels c n k)) (\<lambda>vs. mreturn (VArray k vs)))
        (complete_container_start path start (ArrayHeader k len))"
      if "dec_left D = n" "peek_remaining D = peek_remaining d" for D d k len
    proof (cases "k = KU8 \<and> len \<noteq> 0")
      case True
      then obtain m where "len = Suc m" by (cases len) auto
      then show ?thesis using True
        by (auto simp: container_events_def dest!: mtimes_length simp del: mtimes.simps
            intro!: follows_map [OF bytes_follow [OF that depth]])
    next
      case False
      then have "\<not> (\<exists>i. ArrayHeader k len = ArrayHeader KU8 (Suc i))" by auto
      have "follows c cfg path path D d value_events
          (mbind (mtimes len (read_child c (decode_deeper_levels c n) (Some k))) (\<lambda>vs. mreturn (VArray k vs)))
          (complete_container_start path start (ArrayHeader k len))"
        by (rule sequence_follows [OF content [OF \<open>\<not> (\<exists>i. ArrayHeader k len = ArrayHeader KU8 (Suc i))\<close> that]])
          (use False in \<open>auto simp: get_implicit_child_value_kind_def get_child_count_def container_events_def\<close>)
      then show ?thesis unfolding kids(2) .
    qed
    show ?thesis unfolding KArray unfolds
      by (rule follows_read [OF uniform_kind peek], rule follows_read [OF uniform_reads(3)], simp add: peek,
          rule array) (simp_all add: left peek)
  next
    case KMap
    have entries: "follows c cfg path path D d value_events
        (mbind (mtimes len (mbind (decode_deeper_levels c n kk) (\<lambda>k. mbind (decode_deeper_levels c n vk) (\<lambda>v. mreturn (k, v)))))
          (\<lambda>es. mreturn (VMap kk vk es)))
        (complete_container_start path start (MapHeader kk vk len))"
      if "dec_left D = n" "peek_remaining D = peek_remaining d" for D d kk vk len
    proof -
      have count: "get_child_count (MapHeader kk vk len) = 2 * len" by (simp add: get_child_count_def)
      have "follows c cfg path path D d (\<lambda>vs. container_events (MapHeader kk vk len) (concat (map value_events vs)))
          (read_children c (decode_deeper_levels c n) (MapHeader kk vk len) (2 * len) (2 * 0))
          (complete_container_start path start (MapHeader kk vk len))"
        using content [OF _ that, of "MapHeader kk vk len"] count by simp
      then show ?thesis unfolding mtimes_entries [symmetric]
        by (rule follows_remap) (use mtimes_length in \<open>fastforce simp: container_events_def flat_events\<close>)
    qed
    show ?thesis unfolding KMap unfolds
      by (rule follows_read [OF uniform_kind peek], rule follows_read [OF uniform_kind], simp add: peek,
          rule follows_read [OF uniform_reads(3)], simp add: peek, rule entries) (simp_all add: left peek)
  next
    case KString
    show ?thesis unfolding KString read_string_body decode_body_with_value_kind_def value_kind.case
      by (rule follows_terminal [OF uniform_bodies(4) peek]) simp
  next
    case (KCustom x)
    show ?thesis unfolding KCustom unfolds read_terminal_value_def [symmetric]
      by (rule follows_terminal [OF uniform_custom peek]) simp
  qed (simp_all only: unfolds, (rule follows_terminal [OF _ peek]; simp add: uniform_bodies)+)
qed

end

context custom_sbor
begin

lemma body_follows:
  "dec_left D = n \<Longrightarrow> peek_remaining D = peek_remaining d \<Longrightarrow> n = max_depth cfg - Suc (length path) \<Longrightarrow>
   follows c cfg path path D d value_events (decode_body_with_value_kind c (decode_deeper_levels c n) k) (read_value_body c path start k)"
proof (induction n arbitrary: D d path start k)
  case 0
  show ?case by (rule body_step [OF _ 0]) simp
next
  case (Suc n)
  have "follows c cfg (path @ [a]) (path @ [a]) D d value_events (decode_deeper_levels c (Suc n) k) (read_value_body c (path @ [a]) start k)"
    if "dec_left D = Suc n" "peek_remaining D = peek_remaining d" for D d k a start
    by (rule deeper_follows [OF Suc.IH that]) (use Suc.prems(3) in simp_all)
  then show ?case by (intro body_step Suc.prems)
qed

text \<open>A handler that reads a value, on the bytes ahead.\<close>

lemma body_outcome:
  assumes "n = max_depth cfg - Suc (length path)"
  shows "readable c cv n k v \<Longrightarrow> peek_remaining d = body_bytes c cb v @ r \<Longrightarrow>
      goes_on c cfg path (read_value_body c path start k d) (value_events v)
        (tr_at cfg (skip (length (body_bytes c cb v)) d) path ReadNextChildOrExitContainer)"
    and "\<not> (\<exists>v r. readable c cv n k v \<and> peek_remaining d = body_bytes c cb v @ r) \<Longrightarrow>
      goes_wrong c cfg path (read_value_body c path start k d)"
proof -
  let ?D = "d\<lparr>dec_stack_depth := 0, dec_max_depth := n\<rparr>"
  let ?m = "decode_body_with_value_kind c (decode_deeper_levels c n) k"
  have D: "dec_left ?D = n" "peek_remaining ?D = peek_remaining d"
    by (simp_all add: dec_left_def peek_remaining_def)
  note f = body_follows [OF D assms, of k start]
  have p: "parses n ?m (\<lambda>v bs. readable c cv n k v \<and> bs = body_bytes c cb v)"
    by (rule parses_decode_body [OF parses_deeper_levels])
  show "goes_on c cfg path (read_value_body c path start k d) (value_events v)
        (tr_at cfg (skip (length (body_bytes c cb v)) d) path ReadNextChildOrExitContainer)"
    if "readable c cv n k v" "peek_remaining d = body_bytes c cb v @ r"
  proof -
    have "?m ?D = (skip (length (body_bytes c cb v)) ?D, Ok v)"
      using parses_run [OF p D(1), where v = v] that D(2) by simp
    then obtain L where "skip (length (body_bytes c cb v)) ?D = skip L ?D"
      "goes_on c cfg path (read_value_body c path start k d) (value_events v) (tr_at cfg (skip L d) path ReadNextChildOrExitContainer)"
      using f unfolding follows_def by blast
    moreover from this(1) have "L = length (body_bytes c cb v)"
      by (metis add_left_cancel skip_simps(5))
    ultimately show ?thesis by simp
  qed
  show "goes_wrong c cfg path (read_value_body c path start k d)"
    if "\<not> (\<exists>v r. readable c cv n k v \<and> peek_remaining d = body_bytes c cb v @ r)"
  proof -
    obtain D' res where run: "?m ?D = (D', res)" by (cases "?m ?D")
    show ?thesis
    proof (cases res)
      case (Inl e)
      then show ?thesis using f run unfolding follows_def by blast
    next
      case (Inr v)
      then show ?thesis using parsesD [OF p D(1), of D' v] run D(2) that by metis
    qed
  qed
qed

lemma step_finish: "traverser_step c cfg ReadNextChildOrExitContainer d [] = ([], finish cfg [] (dec_offset d) d)"
  by (simp add: traverser_step_def)

text \<open>
  The length of a value body: the traverser finds it exactly when the bytes start with the body
  of a value with at most \<open>depth_limit - current_depth - 1\<close> levels below its root. It always ends.
\<close>

lemma body_length:
  assumes "current_depth \<le> depth_limit" and "n = depth_limit - current_depth - 1"
  shows "readable c cv n k v \<Longrightarrow>
      calculate_value_tree_body_byte_length c (body_bytes c cb v @ r) k current_depth depth_limit =
        Some (Ok (length (body_bytes c cb v)))"
    and "\<not> (\<exists>v r. readable c cv n k v \<and> bs = body_bytes c cb v @ r) \<Longrightarrow>
      \<exists>err. calculate_value_tree_body_byte_length c bs k current_depth depth_limit = Some (Error err)"
proof -
  let ?cfg = "\<lparr>max_depth = depth_limit - current_depth, check_exact_end = False\<rparr>"
  let ?d = "\<lambda>bs. VecDecoder_new bs (depth_limit - current_depth)"
  have n: "n = max_depth ?cfg - Suc (length [])" using assms(2) by simp
  have new: "VecTraverser_new bs (ReadRootValueBody k) ?cfg = tr_at ?cfg (?d bs) [] (ReadRootValueBody k)" for bs
    by (simp add: VecTraverser_new_def tr_at_def)
  have step: "traverser_step c ?cfg (ReadRootValueBody k) (?d bs) [] = ([], read_value_body c [] 0 k (?d bs))" for bs
    by (simp add: traverser_step_def read_value_def VecDecoder_new_def)
  have peek: "peek_remaining (?d bs) = bs" for bs by (simp add: VecDecoder_new_def peek_remaining_def)
  show "calculate_value_tree_body_byte_length c (body_bytes c cb v @ r) k current_depth depth_limit =
        Some (Ok (length (body_bytes c cb v)))" if "readable c cv n k v"
  proof -
    let ?bs = "body_bytes c cb v @ r"
    let ?e = "skip (length (body_bytes c cb v)) (?d ?bs)"
    have "runs c (tr_at ?cfg (?d ?bs) [] (ReadRootValueBody k)) (value_events v) (tr_at ?cfg ?e [] ReadNextChildOrExitContainer)"
      by (rule enter_on [OF step body_outcome(1) [OF n that peek]])
    note drain_runs [OF this]
    moreover have "drain c (tr_at ?cfg ?e [] ReadNextChildOrExitContainer) = Some (Ok (dec_offset ?e))"
      by (subst drain.simps) (simp add: next_event_def tr_at_def step_finish finish_def complete_def)
    ultimately show ?thesis using assms(1)
      by (simp add: calculate_value_tree_body_byte_length_def new) (simp add: VecDecoder_new_def)
  qed
  show "\<exists>err. calculate_value_tree_body_byte_length c bs k current_depth depth_limit = Some (Error err)"
    if "\<not> (\<exists>v r. readable c cv n k v \<and> bs = body_bytes c cb v @ r)"
  proof -
    have "goes_wrong c ?cfg [] (read_value_body c [] 0 k (?d bs))"
      using body_outcome(2) [OF n] that peek by metis
    from drain_fails [OF enter_wrong [OF step this]] show ?thesis
      using assms(1) by (simp add: calculate_value_tree_body_byte_length_def new)
  qed
qed

end


section \<open>Whole payloads\<close>

text \<open>
  The events of a payload: the traverser started on the prefix, checking the end. It gives the
  events of the decoded value and then the end event when the decoder accepts the payload; it
  comes to an error event when the decoder does not.
\<close>

definition payload_traverser :: "u8 \<Rightarrow> nat \<Rightarrow> u8 list \<Rightarrow> 'x vec_traverser" where
  "payload_traverser prefix depth_limit buf =
     VecTraverser_new buf (ReadPrefix prefix) \<lparr>max_depth = depth_limit, check_exact_end = True\<rparr>"

definition emits :: "('x, 'y) custom_codec \<Rightarrow> 'x vec_traverser \<Rightarrow> ('x, 'y) traversal_event list \<Rightarrow> bool" where
  "emits c s es \<longleftrightarrow> (\<exists>t u e. runs c s es t \<and> next_event c t = (u, Ok e) \<and> event e = EndEvent)"

definition stops :: "('x, 'y) custom_codec \<Rightarrow> 'x vec_traverser \<Rightarrow> bool" where
  "stops c s \<longleftrightarrow> (\<exists>t e. next_event c s = (t, Ok e) \<and> final_event (event e))"

lemma runs_unique: "runs c s es t \<Longrightarrow> runs c s fs u \<Longrightarrow> stops c t \<Longrightarrow> stops c u \<Longrightarrow> es = fs \<and> t = u"
proof (induction arbitrary: fs rule: runs.induct)
  case (runs_refl s)
  from runs_refl.prems(1) show ?case
    by (cases rule: runs.cases) (use runs_refl.prems(2) in \<open>auto simp: stops_def\<close>)
next
  case (runs_step s s1 e es s2)
  note first = runs_step.hyps(1,2) and IH = runs_step.IH [OF _ runs_step.prems(2,3)] and ends = runs_step.prems(3)
  from runs_step.prems(1) show ?case
    by (cases rule: runs.cases) (use first ends IH in \<open>auto simp: stops_def\<close>)
qed

context custom_sbor
begin

text \<open>After the prefix and the kind of the root value.\<close>

lemma payload_step:
  fixes cfg :: traverser_config and d :: vec_decoder
  shows "peek_remaining d = p # kind_byte c k # r \<Longrightarrow>
      \<exists>start. traverser_step c cfg (ReadPrefix p) d [] = ([], read_value_body c [] start k (skip 2 d))"
    and "\<not> (\<exists>k r. peek_remaining d = p # kind_byte c k # r) \<Longrightarrow>
      \<exists>h. traverser_step c cfg (ReadPrefix p) d [] = ([], h) \<and> goes_wrong c cfg [] h"
proof -
  have prefix: "read_and_check_payload_prefix p d = (skip 1 d, Ok ())" if "peek_remaining d = p # r" for r
    using parses_run [OF parses_prefix refl, where bs = "[p]" and r = r] that by simp
  have kind: "read_value_kind (custom_from_u8 c) (skip 1 d) = (skip 2 d, Ok k)" if "peek_remaining d = p # kind_byte c k # r" for k r
    using parses_run [OF parses_kind refl, where v = k and bs = "[kind_byte c k]" and r = r] that
    by (simp add: numeral_2_eq_2)
  show "\<exists>start. traverser_step c cfg (ReadPrefix p) d [] = ([], read_value_body c [] start k (skip 2 d))"
    if "peek_remaining d = p # kind_byte c k # r"
    using prefix [OF that] kind [OF that] by (auto simp: traverser_step_def read_value_def handle_error_def)
  show "\<exists>h. traverser_step c cfg (ReadPrefix p) d [] = ([], h) \<and> goes_wrong c cfg [] h"
    if no: "\<not> (\<exists>k r. peek_remaining d = p # kind_byte c k # r)"
  proof (cases "\<exists>r. peek_remaining d = p # r")
    case True
    then obtain r where r: "peek_remaining d = p # r" by blast
    have "peek_remaining (skip 1 d) \<noteq> [kind_byte c k] @ r'" for k r'
      using r no by auto
    then obtain d' err where "read_value_kind (custom_from_u8 c) (skip 1 d) = (d', Error err)"
      using parses_error [OF parses_kind refl, of "skip 1 d"] by metis
    then show ?thesis using prefix [OF r]
      by (simp add: traverser_step_def read_value_def handle_error_def goes_wrong_error)
  next
    case False
    then have "peek_remaining d \<noteq> [p] @ r" for r by simp
    then obtain d' err where "read_and_check_payload_prefix p d = (d', Error err)"
      using parses_error [OF parses_prefix refl, where d = d] by metis
    then show ?thesis by (simp add: traverser_step_def goes_wrong_error)
  qed
qed

end

context custom_sbor
begin

lemma payload_outcome:
  assumes limit: "0 < depth_limit"
  shows "vec_decode c p depth_limit bs = Ok v \<Longrightarrow> emits c (payload_traverser p depth_limit bs) (value_events v)"
    and "vec_decode c p depth_limit bs = Inl e \<Longrightarrow> fails c (payload_traverser p depth_limit bs)"
proof -
  let ?cfg = "\<lparr>max_depth = depth_limit, check_exact_end = True\<rparr>"
  let ?d = "VecDecoder_new bs depth_limit"
  have n: "depth_limit - 1 = max_depth ?cfg - Suc (length [])" by simp
  have new: "payload_traverser p depth_limit bs = tr_at ?cfg ?d [] (ReadPrefix p)"
    by (simp add: payload_traverser_def VecTraverser_new_def tr_at_def)
  have peek: "peek_remaining ?d = bs" by (simp add: VecDecoder_new_def peek_remaining_def)
  have final: "next_event c (tr_at ?cfg d [] ReadNextChildOrExitContainer) =
      (tr_at ?cfg d [] (if peek_remaining d = [] then Ended else Errored),
       Ok \<lparr>start_offset = dec_offset d, end_offset = dec_offset d, ancestor_path = [],
          event = if peek_remaining d = [] then EndEvent else DecodeErrorEvent (ExtraTrailingBytes (remaining_bytes d))\<rparr>)" for d
    by (auto simp: next_event_def tr_at_def step_finish finish_def handle_error_def check_end_def ensure_def Let_def
        complete_def complete_with_error_def length_peek [symmetric] simp del: length_peek)
  show "emits c (payload_traverser p depth_limit bs) (value_events v)" if "vec_decode c p depth_limit bs = Ok v"
  proof -
    let ?k = "get_value_kind c v"
    let ?e = "skip (length (body_bytes c cb v)) (skip 2 ?d)"
    have *: "readable c cv (depth_limit - 1) ?k v" "bs = p # kind_byte c ?k # body_bytes c cb v"
      using that unfolding vec_decode_iff by (simp_all add: readable_def value_bytes_def)
    then obtain start where "traverser_step c ?cfg (ReadPrefix p) ?d [] = ([], read_value_body c [] start ?k (skip 2 ?d))"
      using payload_step(1) peek by metis
    moreover have peek2: "peek_remaining (skip 2 ?d) = body_bytes c cb v @ []" using peek *(2) by simp
    ultimately have run: "runs c (tr_at ?cfg ?d [] (ReadPrefix p)) (value_events v) (tr_at ?cfg ?e [] ReadNextChildOrExitContainer)"
      using enter_on body_outcome(1) [OF n *(1)] by metis
    have ended: "peek_remaining ?e = []"
      using peek2 skip_simps(2) [of "length (body_bytes c cb v)" "skip 2 ?d"] by (metis append_Nil2 drop_all order_refl)
    show ?thesis unfolding emits_def new
      by (intro exI conjI, rule run, rule final) (use ended in simp)
  qed
  show "fails c (payload_traverser p depth_limit bs)" if err: "vec_decode c p depth_limit bs = Inl e"
  proof (cases "\<exists>k r. bs = p # kind_byte c k # r")
    case False
    then show ?thesis unfolding new using payload_step(2) enter_wrong peek by metis
  next
    case True
    then obtain k r where bs: "bs = p # kind_byte c k # r" by blast
    then obtain start where step: "traverser_step c ?cfg (ReadPrefix p) ?d [] = ([], read_value_body c [] start k (skip 2 ?d))"
      using payload_step(1) peek by metis
    have peek2: "peek_remaining (skip 2 ?d) = r" using peek bs by simp
    show ?thesis
    proof (cases "\<exists>v s. readable c cv (depth_limit - 1) k v \<and> r = body_bytes c cb v @ s")
      case False
      then have "goes_wrong c ?cfg [] (read_value_body c [] start k (skip 2 ?d))"
        using body_outcome(2) [OF n] peek2 by metis
      then show ?thesis unfolding new by (rule enter_wrong [OF step])
    next
      case True
      then obtain v s where v: "readable c cv (depth_limit - 1) k v" "r = body_bytes c cb v @ s" by blast
      let ?e = "skip (length (body_bytes c cb v)) (skip 2 ?d)"
      have "s \<noteq> []"
      proof
        assume "s = []"
        then have "vec_decode c p depth_limit bs = Ok v"
          unfolding vec_decode_iff using v bs limit by (simp add: readable_def value_bytes_def)
        then show False using err by simp
      qed
      then have left: "peek_remaining ?e \<noteq> []"
        using peek2 v(2) skip_simps(2) [of "length (body_bytes c cb v)" "skip 2 ?d"] by (metis append_eq_conv_conj)
      have run: "runs c (tr_at ?cfg ?d [] (ReadPrefix p)) (value_events v) (tr_at ?cfg ?e [] ReadNextChildOrExitContainer)"
        using enter_on [OF step body_outcome(1) [OF n v(1)]] peek2 v(2) by blast
      show ?thesis unfolding fails_def new
        by (intro exI conjI, rule run, rule final) (use left in simp)
    qed
  qed
qed

lemma emits_iff:
  assumes "0 < depth_limit"
  shows "emits c (payload_traverser p depth_limit bs) es \<longleftrightarrow> (\<exists>v. vec_decode c p depth_limit bs = Ok v \<and> es = value_events v)"
proof
  assume em: "emits c (payload_traverser p depth_limit bs) es"
  show "\<exists>v. vec_decode c p depth_limit bs = Ok v \<and> es = value_events v"
  proof (cases "vec_decode c p depth_limit bs")
    case (Inl e)
    from payload_outcome(2) [OF assms Inl] em show ?thesis
      unfolding emits_def fails_def using runs_unique unfolding stops_def
      by (metis final_event_simps(1,2) Inr_inject prod.inject traversal_event.distinct)
  next
    case (Inr v)
    from payload_outcome(1) [OF assms Inr] em have "es = value_events v"
      unfolding emits_def using runs_unique unfolding stops_def by (metis final_event_simps(1))
    then show ?thesis using Inr by blast
  qed
qed (use payload_outcome(1) [OF assms] in blast)

end

lemma drain_emits: "emits c s es \<Longrightarrow> \<exists>n. drain c s = Some (Ok n)"
proof -
  assume "emits c s es"
  then obtain t u e where "runs c s es t" "next_event c t = (u, Ok e)" "event e = EndEvent"
    unfolding emits_def by blast
  moreover from this(2,3) have "drain c t = Some (Ok (end_offset e))" by (subst drain.simps) simp
  ultimately show ?thesis using drain_runs by metis
qed

context custom_sbor
begin

lemma drain_payload:
  assumes "0 < depth_limit"
  shows "\<exists>r. drain c (payload_traverser p depth_limit bs) = Some r \<and> r \<noteq> Panics \<and>
    ((\<exists>n. r = Ok n) \<longleftrightarrow> (\<exists>v. vec_decode c p depth_limit bs = Ok v))"
proof (cases "vec_decode c p depth_limit bs")
  case (Inl e)
  from drain_fails [OF payload_outcome(2) [OF assms this]] show ?thesis using Inl by auto
next
  case (Inr v)
  from drain_emits [OF payload_outcome(1) [OF assms this]] show ?thesis using Inr by auto
qed

end

end
