(* ===== verification/Sbor_Custom.thy ===== *)
theory Sbor_Custom
  imports Sbor_Traversal Fixed_Point
begin

text \<open>
  The custom values of the two payload formats of the ledger, \<^verbatim>\<open>ScryptoCustomValue\<close> (prefix
  \<^verbatim>\<open>0x5c\<close>) and \<^verbatim>\<open>ManifestCustomValue\<close> (prefix \<^verbatim>\<open>0x4d\<close>), with their codecs; both interpret the locale
  \<open>custom_sbor\<close>. Node ids, hashes and other byte arrays are byte lists, whose length is part of
  being a value of the type.
\<close>


section \<open>Non-fungible local ids\<close>

datatype content_validation_error = TooLong | Empty | ContainsBadCharacter

datatype non_fungible_local_id =
    StringId "u8 list"
  | IntegerId "64 word"
  | BytesId "u8 list"
  | RuidId "u8 list"

definition NON_FUNGIBLE_LOCAL_ID_MAX_LENGTH :: nat where
  "NON_FUNGIBLE_LOCAL_ID_MAX_LENGTH = 64"

text \<open>The bytes of \<^verbatim>\<open>[_0-9a-zA-Z]\<close>.\<close>

definition is_id_byte :: "u8 \<Rightarrow> bool" where
  "is_id_byte b \<longleftrightarrow> (97 \<le> b \<and> b \<le> 122) \<or> (65 \<le> b \<and> b \<le> 90) \<or> (48 \<le> b \<and> b \<le> 57) \<or> b = 95"

definition string_id_validate :: "u8 list \<Rightarrow> (content_validation_error, unit) res" where
  "string_id_validate bs =
    (if bs = [] then Error Empty
     else if length bs > NON_FUNGIBLE_LOCAL_ID_MAX_LENGTH then Error TooLong
     else if list_all is_id_byte bs then Ok () else Error ContainsBadCharacter)"

definition bytes_id_validate :: "u8 list \<Rightarrow> (content_validation_error, unit) res" where
  "bytes_id_validate bs =
    (if bs = [] then Error Empty
     else if length bs > NON_FUNGIBLE_LOCAL_ID_MAX_LENGTH then Error TooLong
     else Ok ())"

definition string_id :: "u8 list \<Rightarrow> (content_validation_error, non_fungible_local_id) res" where
  "string_id s = rbind (string_id_validate s) (\<lambda>_. Ok (StringId s))"

definition bytes_id :: "u8 list \<Rightarrow> (content_validation_error, non_fungible_local_id) res" where
  "bytes_id bs = rbind (bytes_id_validate bs) (\<lambda>_. Ok (BytesId bs))"

definition encode_id_body :: "non_fungible_local_id \<Rightarrow> unit encodes" where
  "encode_id_body v = (case v of
     StringId s \<Rightarrow> mseq (write_discriminator 0) (mseq (write_size (length s)) (write_slice s))
   | IntegerId i \<Rightarrow> mseq (write_discriminator 1) (write_slice (to_be_bytes 8 (uint i)))
   | BytesId bs \<Rightarrow> mseq (write_discriminator 2) (mseq (write_size (length bs)) (write_slice bs))
   | RuidId bs \<Rightarrow> mseq (write_discriminator 3) (write_slice bs))"

definition decode_id_body :: "non_fungible_local_id decodes" where
  "decode_id_body =
     mbind read_discriminator (\<lambda>t.
     if t = 0 then
       mbind read_size (\<lambda>sz. mbind (read_slice sz) (\<lambda>bs.
       mlift (\<lambda>_. if is_utf8 bs then map_err (\<lambda>_. InvalidCustomValue) (string_id bs) else Error InvalidCustomValue)))
     else if t = 1 then
       mbind (read_slice 8) (\<lambda>bs. mreturn (IntegerId (word_of_int (from_be_bytes bs))))
     else if t = 2 then
       mbind read_size (\<lambda>sz. mbind (read_slice sz) (\<lambda>bs.
       mlift (\<lambda>_. map_err (\<lambda>_. InvalidCustomValue) (bytes_id bs))))
     else if t = 3 then mbind (read_slice 32) (\<lambda>bs. mreturn (RuidId bs))
     else mlift (\<lambda>_. Error InvalidCustomValue))"

text \<open>The ids that can be constructed, and their bytes.\<close>

definition is_local_id :: "non_fungible_local_id \<Rightarrow> bool" where
  "is_local_id v \<longleftrightarrow> (case v of
     StringId s \<Rightarrow> string_id_validate s = Ok ()
   | IntegerId _ \<Rightarrow> True
   | BytesId bs \<Rightarrow> bytes_id_validate bs = Ok ()
   | RuidId bs \<Rightarrow> length bs = 32)"

definition local_id_bytes :: "non_fungible_local_id \<Rightarrow> u8 list" where
  "local_id_bytes v = (case v of
     StringId s \<Rightarrow> [0] @ size_bytes (length s) @ s
   | IntegerId i \<Rightarrow> [1] @ to_be_bytes 8 (uint i)
   | BytesId bs \<Rightarrow> [2] @ size_bytes (length bs) @ bs
   | RuidId bs \<Rightarrow> [3] @ bs)"

lemma id_validate_iffs:
  "string_id_validate s = Ok u \<longleftrightarrow> s \<noteq> [] \<and> length s \<le> 64 \<and> list_all is_id_byte s"
  "bytes_id_validate s = Ok u \<longleftrightarrow> s \<noteq> [] \<and> length s \<le> 64"
  by (auto simp: string_id_validate_def bytes_id_validate_def NON_FUNGIBLE_LOCAL_ID_MAX_LENGTH_def)

lemma id_constructor_iffs:
  "string_id s = Ok v \<longleftrightarrow> v = StringId s \<and> is_local_id v"
  "bytes_id s = Ok v \<longleftrightarrow> v = BytesId s \<and> is_local_id v"
  by (auto simp: string_id_def bytes_id_def rbind_eq_Inr_iff is_local_id_def)

lemma id_byte_ascii: "is_id_byte b \<Longrightarrow> b \<le> 0x7F"
  by (auto simp: is_id_byte_def word_le_nat_alt)

lemma id_bytes_utf8: "list_all is_id_byte bs \<Longrightarrow> is_utf8 bs"
  by (induction bs) (auto simp: id_byte_ascii)

lemma writes_id_body: "is_local_id v \<Longrightarrow> writes n (encode_id_body v) True (local_id_bytes v)"
proof (cases v)
  case (StringId s)
  assume "is_local_id v"
  then have "length s \<le> 0x0FFFFFFF" by (auto simp: StringId is_local_id_def id_validate_iffs)
  then show ?thesis unfolding StringId encode_id_body_def local_id_bytes_def write_discriminator_def non_fungible_local_id.case
    by (intro writes_cong [OF writes_mseq [OF writes_byte writes_mseq [OF writes_size writes_slice]]]) auto
next
  case (BytesId s)
  assume "is_local_id v"
  then have "length s \<le> 0x0FFFFFFF" by (auto simp: BytesId is_local_id_def id_validate_iffs)
  then show ?thesis unfolding BytesId encode_id_body_def local_id_bytes_def write_discriminator_def non_fungible_local_id.case
    by (intro writes_cong [OF writes_mseq [OF writes_byte writes_mseq [OF writes_size writes_slice]]]) auto
next
  case (IntegerId i)
  show ?thesis unfolding IntegerId encode_id_body_def local_id_bytes_def write_discriminator_def non_fungible_local_id.case
    by (intro writes_cong [OF writes_mseq [OF writes_byte writes_slice]]) auto
next
  case (RuidId s)
  show ?thesis unfolding RuidId encode_id_body_def local_id_bytes_def write_discriminator_def non_fungible_local_id.case
    by (intro writes_cong [OF writes_mseq [OF writes_byte writes_slice]]) auto
qed

lemma map_err_calm [simp]: "map_err f r = Panics \<longleftrightarrow> r = Panics"
  by (cases r) (auto simp: map_err_def split: fail.splits)

lemma id_calm [simp]: "string_id s \<noteq> Panics" "bytes_id s \<noteq> Panics"
  by (simp_all add: string_id_def bytes_id_def string_id_validate_def bytes_id_validate_def)

lemma word_of_be_bytes:
  "length bs = 8 \<Longrightarrow> word_of_int (from_be_bytes bs) = (w :: 64 word) \<longleftrightarrow> bs = to_be_bytes 8 (uint w)"
  using word_of_le_bytes [of 8 "rev bs" w] by (auto simp: from_be_bytes_def to_be_bytes_def rev_swap)

lemma word_be_simps:
  "word_of_int (from_be_bytes (to_be_bytes 8 (uint i))) = (i :: 64 word)"
  "length bs = 8 \<Longrightarrow> to_be_bytes 8 (uint (word_of_int (from_be_bytes bs) :: 64 word)) = bs"
  using word_of_be_bytes by (metis length_to_be_bytes, metis)

text \<open>What is read after each discriminator.\<close>

lemma parses_id_cases:
  "parses n (mbind read_size (\<lambda>sz. mbind (read_slice sz) (\<lambda>bs.
     mlift (\<lambda>_. if is_utf8 bs then map_err (\<lambda>_. InvalidCustomValue) (string_id bs) else Error InvalidCustomValue))))
   (\<lambda>v bs. \<exists>s. v = StringId s \<and> is_local_id v \<and> bs = size_bytes (length s) @ s)"
  "parses n (mbind (read_slice 8) (\<lambda>bs. mreturn (IntegerId (word_of_int (from_be_bytes bs)))))
   (\<lambda>v bs. \<exists>i. v = IntegerId i \<and> bs = to_be_bytes 8 (uint i))"
  "parses n (mbind read_size (\<lambda>sz. mbind (read_slice sz) (\<lambda>bs. mlift (\<lambda>_. map_err (\<lambda>_. InvalidCustomValue) (bytes_id bs)))))
   (\<lambda>v bs. \<exists>s. v = BytesId s \<and> is_local_id v \<and> bs = size_bytes (length s) @ s)"
  "parses n (mbind (read_slice 32) (\<lambda>bs. mreturn (RuidId bs))) (\<lambda>v bs. \<exists>s. v = RuidId s \<and> is_local_id v \<and> bs = s)"
proof -
  have small: "is_local_id (StringId s) \<Longrightarrow> length s \<le> 0x0FFFFFFF \<and> is_utf8 s"
    "is_local_id (BytesId s) \<Longrightarrow> length s \<le> 0x0FFFFFFF" for s
    by (auto simp: is_local_id_def id_validate_iffs id_bytes_utf8)
  show "parses n (mbind read_size (\<lambda>sz. mbind (read_slice sz) (\<lambda>bs.
     mlift (\<lambda>_. if is_utf8 bs then map_err (\<lambda>_. InvalidCustomValue) (string_id bs) else Error InvalidCustomValue))))
   (\<lambda>v bs. \<exists>s. v = StringId s \<and> is_local_id v \<and> bs = size_bytes (length s) @ s)"
    by (rule parses_cong [OF parses_mbind [OF parses_size parses_mbind [OF parses_slice parses_mlift]]])
      (use small in \<open>auto simp: map_err_eq_Inr_iff id_constructor_iffs split: if_splits\<close>)
  show "parses n (mbind read_size (\<lambda>sz. mbind (read_slice sz) (\<lambda>bs. mlift (\<lambda>_. map_err (\<lambda>_. InvalidCustomValue) (bytes_id bs)))))
   (\<lambda>v bs. \<exists>s. v = BytesId s \<and> is_local_id v \<and> bs = size_bytes (length s) @ s)"
    by (rule parses_cong [OF parses_mbind [OF parses_size parses_mbind [OF parses_slice parses_mlift]]])
      (use small in \<open>auto simp: map_err_eq_Inr_iff id_constructor_iffs\<close>)
  show "parses n (mbind (read_slice 8) (\<lambda>bs. mreturn (IntegerId (word_of_int (from_be_bytes bs)))))
   (\<lambda>v bs. \<exists>i. v = IntegerId i \<and> bs = to_be_bytes 8 (uint i))"
    by (rule parses_cong [OF parses_mbind [OF parses_slice parses_mreturn]])
      (auto simp: word_be_simps)
  show "parses n (mbind (read_slice 32) (\<lambda>bs. mreturn (RuidId bs))) (\<lambda>v bs. \<exists>s. v = RuidId s \<and> is_local_id v \<and> bs = s)"
    by (rule parses_cong [OF parses_mbind [OF parses_slice parses_mreturn]]) (auto simp: is_local_id_def)
qed

lemma parses_id_body: "parses n decode_id_body (\<lambda>v bs. is_local_id v \<and> bs = local_id_bytes v)"
proof -
  define T where "T t v bs \<longleftrightarrow>
     (t = 0 \<and> (\<exists>s. v = StringId s \<and> is_local_id v \<and> bs = size_bytes (length s) @ s)) \<or>
     (t = 1 \<and> (\<exists>i. v = IntegerId i \<and> bs = to_be_bytes 8 (uint i))) \<or>
     (t = 2 \<and> (\<exists>s. v = BytesId s \<and> is_local_id v \<and> bs = size_bytes (length s) @ s)) \<or>
     (t = 3 \<and> (\<exists>s. v = RuidId s \<and> is_local_id v \<and> bs = s))" for t :: u8 and v :: non_fungible_local_id and bs :: "u8 list"
  show ?thesis unfolding decode_id_body_def read_discriminator_def
  proof (rule parses_cong [OF parses_mbind [OF parses_byte, where T = T]])
    fix t :: u8
    consider "t = 0" | "t = 1" | "t = 2" | "t = 3" | "t \<notin> {0, 1, 2, 3}" by auto
    then show "parses n (if t = 0 then
       mbind read_size (\<lambda>sz. mbind (read_slice sz) (\<lambda>bs.
       mlift (\<lambda>_. if is_utf8 bs then map_err (\<lambda>_. InvalidCustomValue) (string_id bs) else Error InvalidCustomValue)))
     else if t = 1 then
       mbind (read_slice 8) (\<lambda>bs. mreturn (IntegerId (word_of_int (from_be_bytes bs))))
     else if t = 2 then
       mbind read_size (\<lambda>sz. mbind (read_slice sz) (\<lambda>bs.
       mlift (\<lambda>_. map_err (\<lambda>_. InvalidCustomValue) (bytes_id bs))))
     else if t = 3 then mbind (read_slice 32) (\<lambda>bs. mreturn (RuidId bs))
     else mlift (\<lambda>_. Error InvalidCustomValue)) (T t)"
      by cases (auto simp: T_def intro: parses_cong [OF parses_id_cases(1)] parses_cong [OF parses_id_cases(2)]
          parses_cong [OF parses_id_cases(3)] parses_cong [OF parses_id_cases(4)] parses_cong [OF parses_mlift])
  next
    fix v bs
    show "(\<exists>x as cs. as = [x] \<and> T x v cs \<and> bs = as @ cs) \<longleftrightarrow> is_local_id v \<and> bs = local_id_bytes v"
      by (cases v) (auto simp: T_def local_id_bytes_def is_local_id_def)
  qed
qed

section \<open>Fixed-size custom types\<close>

text \<open>
  The macros \<^verbatim>\<open>well_known_scrypto_custom_type!\<close> and \<^verbatim>\<open>manifest_type!\<close>: the body is the bytes of
  \<^verbatim>\<open>to_vec\<close>; it is read as a slice of the type's size, from which \<^verbatim>\<open>try_from\<close> makes the value.
\<close>

definition encode_fixed_body :: "u8 list \<Rightarrow> unit encodes" where
  "encode_fixed_body to_vec = write_slice to_vec"

definition decode_fixed_body ::
    "('x \<Rightarrow> u8) \<Rightarrow> 'x \<Rightarrow> nat \<Rightarrow> (u8 list \<Rightarrow> 'a option) \<Rightarrow> 'x value_kind \<Rightarrow> 'a decodes" where
  "decode_fixed_body as_u8 own_kind sz try_from value_kind =
     mseq (check_preloaded_value_kind as_u8 value_kind (KCustom own_kind))
     (mbind (read_slice sz) (\<lambda>bs. mlift (\<lambda>_. ok_or (try_from bs) InvalidCustomValue)))"

lemma parses_fixed_body:
  assumes "\<And>bs v. length bs = sz \<Longrightarrow> try_from bs = Some v \<longleftrightarrow> G v \<and> bs = f v" and "\<And>v. G v \<Longrightarrow> length (f v) = sz"
  shows "parses n (decode_fixed_body as_u8 k sz try_from (KCustom k)) (\<lambda>v bs. G v \<and> bs = f v)"
  unfolding decode_fixed_body_def
  by (rule parses_cong [OF parses_mseq [OF parses_check_kind parses_mbind [OF parses_slice parses_mlift]]])
    (use assms in \<open>auto simp: ok_or_eq_Inr_iff\<close>)

definition NodeId_LENGTH :: nat where
  "NodeId_LENGTH = 30"

text \<open>\<^verbatim>\<open>TryFrom<&[u8]>\<close> of the types that hold an array of bytes, of \<open>sz\<close> bytes.\<close>

definition bytes_try_from :: "nat \<Rightarrow> u8 list \<Rightarrow> u8 list option" where
  "bytes_try_from sz bs = (if length bs = sz then Some bs else None)"

text \<open>
  The wide integers of \<^verbatim>\<open>bnum_integer/convert.rs\<close>: \<^verbatim>\<open>to_le_bytes\<close> works on 64 bits at a time;
  \<^verbatim>\<open>from_le_slice\<close> reads a two's complement number.
\<close>

definition bnum_to_le_bytes :: "nat \<Rightarrow> int \<Rightarrow> u8 list" where
  "bnum_to_le_bytes bytes x =
     concat (map (\<lambda>i. to_le_bytes 8 (drop_bit (64 * i) x AND 0xffffffffffffffff)) [0 ..< bytes div 8])"

definition bnum_from_le_bytes :: "u8 list \<Rightarrow> int" where
  "bnum_from_le_bytes bs = signed_take_bit (8 * length bs - 1) (from_le_bytes bs)"

definition decimal_try_from :: "nat \<Rightarrow> u8 list \<Rightarrow> int option" where
  "decimal_try_from bits bs = (if length bs = bits div 8 then Some (bnum_from_le_bytes bs) else None)"

lemma to_le_bytes_append: "to_le_bytes (m + n) x = to_le_bytes m x @ to_le_bytes n (x div 256 ^ m)"
  by (induction m arbitrary: x) (simp_all add: zdiv_zmult2_eq)

lemma bnum_to_le_bytes_eq: "8 dvd bytes \<Longrightarrow> bnum_to_le_bytes bytes x = to_le_bytes bytes x"
proof -
  have chunk: "to_le_bytes 8 (y AND 0xffffffffffffffff) = to_le_bytes 8 y" for y :: int
  proof -
    have "y AND mask 64 = y mod 2 ^ 64" by (simp add: take_bit_eq_mask [symmetric] take_bit_eq_mod)
    then have "y AND 0xffffffffffffffff = y mod 256 ^ 8" by (simp add: mask_eq_exp_minus_1)
    then show ?thesis using to_le_bytes_mod [of 8 y] by simp
  qed
  have "concat (map (\<lambda>i. to_le_bytes 8 (drop_bit (64 * i) x)) [0 ..< k]) = to_le_bytes (k * 8) x" for k
  proof (induction k)
    case (Suc k)
    have "(2 :: int) ^ (64 * k) = 256 ^ (k * 8)"
      using power_mult [of "2 :: int" 8 "k * 8"] by (simp add: mult.commute mult.left_commute)
    then show ?case using Suc.IH to_le_bytes_append [of "k * 8" 8 x]
      by (simp add: drop_bit_eq_div add.commute)
  qed simp
  then show "8 dvd bytes \<Longrightarrow> ?thesis" by (simp add: bnum_to_le_bytes_def chunk)
qed

lemma decimal_bytes_iff:
  assumes "bits = 8 * n" and "0 < n" and len: "length bs = n"
  shows "bnum_from_le_bytes bs = x \<longleftrightarrow> in_range bits x \<and> bs = to_le_bytes n x"
proof -
  have less: "0 \<le> from_le_bytes bs" "from_le_bytes bs < 2 ^ bits"
    using from_le_bytes_less [of bs] assms by (simp_all add: power_mult)
  have pow: "(256 :: int) ^ n = 2 ^ bits" using assms(1) by (simp add: power_mult)
  have range: "in_range bits y \<longleftrightarrow> signed_take_bit (bits - 1) y = y" for y
    using assms(1,2) signed_take_bit_int_eq_self_iff [of "bits - 1" y]
    by (auto simp: in_range_def i_min_def i_max_def)
  have tb: "take_bit bits (signed_take_bit (bits - 1) y) = take_bit bits y" for y :: int
    using assms(1,2) by (simp add: take_bit_signed_take_bit)
  show ?thesis
  proof
    assume x: "bnum_from_le_bytes bs = x"
    then have "x = signed_take_bit (bits - 1) (from_le_bytes bs)" using assms by (simp add: bnum_from_le_bytes_def)
    then have "in_range bits x" and "x mod 2 ^ bits = from_le_bytes bs"
      using range tb [of "from_le_bytes bs"] less by (simp_all add: take_bit_eq_mod)
    then show "in_range bits x \<and> bs = to_le_bytes n x"
      using to_le_bytes_mod [of n x] to_from_le_bytes [of bs] len pow by metis
  next
    assume x: "in_range bits x \<and> bs = to_le_bytes n x"
    then have "from_le_bytes bs = take_bit bits x" by (simp add: from_to_le_bytes pow take_bit_eq_mod)
    then have "bnum_from_le_bytes bs = signed_take_bit (bits - 1) x"
      using assms by (cases n) (simp_all add: bnum_from_le_bytes_def signed_take_bit_take_bit)
    then show "bnum_from_le_bytes bs = x" using x range by simp
  qed
qed

section \<open>Scrypto values\<close>

datatype scrypto_custom_value_kind =
    ScryptoReference | ScryptoOwn | ScryptoDecimal | ScryptoPreciseDecimal | ScryptoNonFungibleLocalId

datatype scrypto_custom_value =
    SReference "u8 list"
  | SOwn "u8 list"
  | SDecimal decimal
  | SPreciseDecimal precise_decimal
  | SNonFungibleLocalId non_fungible_local_id

definition scrypto_as_u8 :: "scrypto_custom_value_kind \<Rightarrow> u8" where
  "scrypto_as_u8 k = (case k of
     ScryptoReference \<Rightarrow> 0x80 | ScryptoOwn \<Rightarrow> 0x90 | ScryptoDecimal \<Rightarrow> 0xa0
   | ScryptoPreciseDecimal \<Rightarrow> 0xb0 | ScryptoNonFungibleLocalId \<Rightarrow> 0xc0)"

definition scrypto_from_u8 :: "u8 \<Rightarrow> scrypto_custom_value_kind option" where
  "scrypto_from_u8 b =
    (if b = 0x80 then Some ScryptoReference
     else if b = 0x90 then Some ScryptoOwn
     else if b = 0xa0 then Some ScryptoDecimal
     else if b = 0xb0 then Some ScryptoPreciseDecimal
     else if b = 0xc0 then Some ScryptoNonFungibleLocalId
     else None)"

definition scrypto_kind_of :: "scrypto_custom_value \<Rightarrow> scrypto_custom_value_kind" where
  "scrypto_kind_of v = (case v of
     SReference _ \<Rightarrow> ScryptoReference | SOwn _ \<Rightarrow> ScryptoOwn | SDecimal _ \<Rightarrow> ScryptoDecimal
   | SPreciseDecimal _ \<Rightarrow> ScryptoPreciseDecimal | SNonFungibleLocalId _ \<Rightarrow> ScryptoNonFungibleLocalId)"

definition scrypto_encode_body :: "scrypto_custom_value \<Rightarrow> unit encodes" where
  "scrypto_encode_body v = (case v of
     SReference bs \<Rightarrow> encode_fixed_body bs
   | SOwn bs \<Rightarrow> encode_fixed_body bs
   | SDecimal x \<Rightarrow> encode_fixed_body (bnum_to_le_bytes 24 x)
   | SPreciseDecimal x \<Rightarrow> encode_fixed_body (bnum_to_le_bytes 32 x)
   | SNonFungibleLocalId v \<Rightarrow> encode_id_body v)"

definition scrypto_decode_body ::
    "scrypto_custom_value_kind value_kind \<Rightarrow> scrypto_custom_value decodes" where
  "scrypto_decode_body value_kind = (case value_kind of
     KCustom cti \<Rightarrow> (case cti of
         ScryptoReference \<Rightarrow>
           mbind (decode_fixed_body scrypto_as_u8 ScryptoReference NodeId_LENGTH (bytes_try_from NodeId_LENGTH) value_kind)
             (\<lambda>v. mreturn (SReference v))
       | ScryptoOwn \<Rightarrow>
           mbind (decode_fixed_body scrypto_as_u8 ScryptoOwn NodeId_LENGTH (bytes_try_from NodeId_LENGTH) value_kind)
             (\<lambda>v. mreturn (SOwn v))
       | ScryptoDecimal \<Rightarrow>
           mbind (decode_fixed_body scrypto_as_u8 ScryptoDecimal (192 div 8) (decimal_try_from 192) value_kind)
             (\<lambda>v. mreturn (SDecimal v))
       | ScryptoPreciseDecimal \<Rightarrow>
           mbind (decode_fixed_body scrypto_as_u8 ScryptoPreciseDecimal (256 div 8) (decimal_try_from 256) value_kind)
             (\<lambda>v. mreturn (SPreciseDecimal v))
       | ScryptoNonFungibleLocalId \<Rightarrow>
           mbind (mseq (check_preloaded_value_kind scrypto_as_u8 value_kind (KCustom ScryptoNonFungibleLocalId))
                  decode_id_body)
             (\<lambda>v. mreturn (SNonFungibleLocalId v)))
   | _ \<Rightarrow> mlift (\<lambda>_. Error (UnexpectedCustomValueKind (value_kind_as_u8 scrypto_as_u8 value_kind))))"

definition scrypto_codec :: "(scrypto_custom_value_kind, scrypto_custom_value) custom_codec" where
  "scrypto_codec = \<lparr>custom_as_u8 = scrypto_as_u8, custom_from_u8 = scrypto_from_u8,
     get_custom_value_kind = scrypto_kind_of, custom_encode_body = scrypto_encode_body,
     custom_decode_body = scrypto_decode_body\<rparr>"

type_synonym scrypto_value = "(scrypto_custom_value_kind, scrypto_custom_value) sbor_value"

definition SCRYPTO_SBOR_V1_PAYLOAD_PREFIX :: u8 where
  "SCRYPTO_SBOR_V1_PAYLOAD_PREFIX = 0x5c"

definition SCRYPTO_SBOR_V1_MAX_DEPTH :: nat where
  "SCRYPTO_SBOR_V1_MAX_DEPTH = 64"

definition scrypto_encode :: "scrypto_value \<Rightarrow> (encode_error, u8 list) res" where
  "scrypto_encode v = vec_encode scrypto_codec SCRYPTO_SBOR_V1_PAYLOAD_PREFIX SCRYPTO_SBOR_V1_MAX_DEPTH v"

definition scrypto_decode :: "u8 list \<Rightarrow> (decode_error, scrypto_value) res" where
  "scrypto_decode buf = vec_decode scrypto_codec SCRYPTO_SBOR_V1_PAYLOAD_PREFIX SCRYPTO_SBOR_V1_MAX_DEPTH buf"

text \<open>The values of the Rust types, and their bytes.\<close>

definition is_scrypto_custom :: "scrypto_custom_value \<Rightarrow> bool" where
  "is_scrypto_custom v \<longleftrightarrow> (case v of
     SReference bs \<Rightarrow> length bs = 30 | SOwn bs \<Rightarrow> length bs = 30
   | SDecimal x \<Rightarrow> is_decimal x | SPreciseDecimal x \<Rightarrow> is_precise_decimal x
   | SNonFungibleLocalId v \<Rightarrow> is_local_id v)"

definition scrypto_custom_bytes :: "scrypto_custom_value \<Rightarrow> u8 list" where
  "scrypto_custom_bytes v = (case v of
     SReference bs \<Rightarrow> bs | SOwn bs \<Rightarrow> bs | SDecimal x \<Rightarrow> to_le_bytes 24 x | SPreciseDecimal x \<Rightarrow> to_le_bytes 32 x
   | SNonFungibleLocalId v \<Rightarrow> local_id_bytes v)"

lemma parses_bytes_fixed:
  "parses n (decode_fixed_body as_u8 k sz (bytes_try_from sz) (KCustom k)) (\<lambda>v bs. length v = sz \<and> bs = v)"
  by (rule parses_fixed_body) (auto simp: bytes_try_from_def)

lemma parses_decimal_fixed:
  assumes "bits = 8 * sz" "0 < sz"
  shows "parses n (decode_fixed_body as_u8 k (bits div 8) (decimal_try_from bits) (KCustom k))
    (\<lambda>v bs. in_range bits v \<and> bs = to_le_bytes sz v)"
  using assms by (intro parses_fixed_body) (auto simp: decimal_try_from_def decimal_bytes_iff)

lemma scrypto_kind_iffs:
  "scrypto_kind_of v = ScryptoReference \<longleftrightarrow> (\<exists>bs. v = SReference bs)"
  "scrypto_kind_of v = ScryptoOwn \<longleftrightarrow> (\<exists>bs. v = SOwn bs)"
  "scrypto_kind_of v = ScryptoDecimal \<longleftrightarrow> (\<exists>x. v = SDecimal x)"
  "scrypto_kind_of v = ScryptoPreciseDecimal \<longleftrightarrow> (\<exists>x. v = SPreciseDecimal x)"
  "scrypto_kind_of v = ScryptoNonFungibleLocalId \<longleftrightarrow> (\<exists>i. v = SNonFungibleLocalId i)"
  by (cases v; auto simp: scrypto_kind_of_def)+

lemma scrypto_parses:
  "parses n (scrypto_decode_body (KCustom x))
    (\<lambda>y bs. (is_scrypto_custom y \<and> scrypto_kind_of y = x) \<and> bs = scrypto_custom_bytes y)"
proof (cases x)
  case ScryptoReference
  show ?thesis unfolding ScryptoReference scrypto_decode_body_def value_kind.case scrypto_custom_value_kind.case
    by (rule parses_cong [OF parses_mbind [OF parses_bytes_fixed parses_mreturn]])
      (auto simp: scrypto_kind_iffs is_scrypto_custom_def scrypto_custom_bytes_def NodeId_LENGTH_def)
next
  case ScryptoOwn
  show ?thesis unfolding ScryptoOwn scrypto_decode_body_def value_kind.case scrypto_custom_value_kind.case
    by (rule parses_cong [OF parses_mbind [OF parses_bytes_fixed parses_mreturn]])
      (auto simp: scrypto_kind_iffs is_scrypto_custom_def scrypto_custom_bytes_def NodeId_LENGTH_def)
next
  case ScryptoDecimal
  show ?thesis unfolding ScryptoDecimal scrypto_decode_body_def value_kind.case scrypto_custom_value_kind.case
    by (rule parses_cong [OF parses_mbind [OF parses_decimal_fixed [of 192 24] parses_mreturn]])
      (auto simp: scrypto_kind_iffs is_scrypto_custom_def scrypto_custom_bytes_def)
next
  case ScryptoPreciseDecimal
  show ?thesis unfolding ScryptoPreciseDecimal scrypto_decode_body_def value_kind.case scrypto_custom_value_kind.case
    by (rule parses_cong [OF parses_mbind [OF parses_decimal_fixed [of 256 32] parses_mreturn]])
      (auto simp: scrypto_kind_iffs is_scrypto_custom_def scrypto_custom_bytes_def)
next
  case ScryptoNonFungibleLocalId
  show ?thesis unfolding ScryptoNonFungibleLocalId scrypto_decode_body_def value_kind.case scrypto_custom_value_kind.case
    by (rule parses_cong [OF parses_mbind [OF parses_mseq [OF parses_check_kind parses_id_body] parses_mreturn]])
      (auto simp: scrypto_kind_iffs is_scrypto_custom_def scrypto_custom_bytes_def)
qed

lemma scrypto_writes:
  "is_scrypto_custom y \<Longrightarrow> writes n (scrypto_encode_body y) True (scrypto_custom_bytes y)"
  by (cases y) (simp_all add: scrypto_encode_body_def scrypto_custom_bytes_def is_scrypto_custom_def
      encode_fixed_body_def bnum_to_le_bytes_eq writes_slice writes_id_body)

interpretation scrypto: custom_sbor scrypto_codec is_scrypto_custom scrypto_custom_bytes
proof
  show "CUSTOM_VALUE_KIND_START \<le> custom_as_u8 scrypto_codec x" for x
    by (cases x) (simp_all add: scrypto_codec_def scrypto_as_u8_def CUSTOM_VALUE_KIND_START_def)
  show "custom_from_u8 scrypto_codec b = Some x \<longleftrightarrow> b = custom_as_u8 scrypto_codec x" for b x
    by (cases x) (auto simp: scrypto_codec_def scrypto_as_u8_def scrypto_from_u8_def split: if_splits)
  show "is_scrypto_custom y \<Longrightarrow> writes n (custom_encode_body scrypto_codec y) True (scrypto_custom_bytes y)" for n y
    using scrypto_writes by (simp add: scrypto_codec_def)
  show "parses n (custom_decode_body scrypto_codec (KCustom x))
      (\<lambda>y bs. (is_scrypto_custom y \<and> get_custom_value_kind scrypto_codec y = x) \<and> bs = scrypto_custom_bytes y)" for n x
    using scrypto_parses by (simp add: scrypto_codec_def)
qed

section \<open>Manifest values\<close>

datatype manifest_custom_value_kind =
    ManifestAddressKind | ManifestBucketKind | ManifestProofKind | ManifestExpressionKind | ManifestBlobKind
  | ManifestDecimalKind | ManifestPreciseDecimalKind | ManifestNonFungibleLocalIdKind
  | ManifestAddressReservationKind

datatype manifest_address = StaticAddress "u8 list" | NamedAddress "32 word"

datatype manifest_expression = EntireWorktop | EntireAuthZone

datatype manifest_custom_value =
    MAddress manifest_address
  | MBucket "32 word"
  | MProof "32 word"
  | MExpression manifest_expression
  | MBlob "u8 list"
  | MDecimal "u8 list"
  | MPreciseDecimal "u8 list"
  | MNonFungibleLocalId non_fungible_local_id
  | MAddressReservation "32 word"

definition manifest_as_u8 :: "manifest_custom_value_kind \<Rightarrow> u8" where
  "manifest_as_u8 k = (case k of
     ManifestAddressKind \<Rightarrow> 0x80 | ManifestBucketKind \<Rightarrow> 0x81 | ManifestProofKind \<Rightarrow> 0x82
   | ManifestExpressionKind \<Rightarrow> 0x83 | ManifestBlobKind \<Rightarrow> 0x84 | ManifestDecimalKind \<Rightarrow> 0x85
   | ManifestPreciseDecimalKind \<Rightarrow> 0x86 | ManifestNonFungibleLocalIdKind \<Rightarrow> 0x87
   | ManifestAddressReservationKind \<Rightarrow> 0x88)"

definition manifest_from_u8 :: "u8 \<Rightarrow> manifest_custom_value_kind option" where
  "manifest_from_u8 b =
    (if b = 0x80 then Some ManifestAddressKind
     else if b = 0x81 then Some ManifestBucketKind
     else if b = 0x82 then Some ManifestProofKind
     else if b = 0x83 then Some ManifestExpressionKind
     else if b = 0x84 then Some ManifestBlobKind
     else if b = 0x85 then Some ManifestDecimalKind
     else if b = 0x86 then Some ManifestPreciseDecimalKind
     else if b = 0x87 then Some ManifestNonFungibleLocalIdKind
     else if b = 0x88 then Some ManifestAddressReservationKind
     else None)"

definition manifest_kind_of :: "manifest_custom_value \<Rightarrow> manifest_custom_value_kind" where
  "manifest_kind_of v = (case v of
     MAddress _ \<Rightarrow> ManifestAddressKind | MBucket _ \<Rightarrow> ManifestBucketKind | MProof _ \<Rightarrow> ManifestProofKind
   | MExpression _ \<Rightarrow> ManifestExpressionKind | MBlob _ \<Rightarrow> ManifestBlobKind | MDecimal _ \<Rightarrow> ManifestDecimalKind
   | MPreciseDecimal _ \<Rightarrow> ManifestPreciseDecimalKind | MNonFungibleLocalId _ \<Rightarrow> ManifestNonFungibleLocalIdKind
   | MAddressReservation _ \<Rightarrow> ManifestAddressReservationKind)"

text \<open>\<^verbatim>\<open>EntityType::from_repr(b).is_some()\<close>: the bytes of the entity types.\<close>

definition is_entity_type :: "u8 \<Rightarrow> bool" where
  "is_entity_type b \<longleftrightarrow> b \<in> set
     [13, 134, 131, 130, 192, 193, 194, 195, 196, 197, 198, 104, 209, 210, 81, 82, 93, 88, 154, 152, 248, 176]"

definition encode_address_body :: "manifest_address \<Rightarrow> unit encodes" where
  "encode_address_body a = (case a of
     StaticAddress node_id \<Rightarrow> mseq (write_discriminator 0) (write_slice node_id)
   | NamedAddress address_id \<Rightarrow> mseq (write_discriminator 1) (write_slice (to_le_bytes 4 (uint address_id))))"

definition decode_address_body :: "manifest_custom_value_kind value_kind \<Rightarrow> manifest_address decodes" where
  "decode_address_body value_kind =
     mseq (check_preloaded_value_kind manifest_as_u8 value_kind (KCustom ManifestAddressKind))
     (mbind read_discriminator (\<lambda>t.
      if t = 0 then
        mbind (read_slice NodeId_LENGTH) (\<lambda>bs.
        mlift (\<lambda>_. if \<not> is_entity_type (bs ! 0) then Error InvalidCustomValue else Ok (StaticAddress bs)))
      else if t = 1 then
        mbind (read_slice 4) (\<lambda>bs. mreturn (NamedAddress (word_of_int (from_le_bytes bs))))
      else mlift (\<lambda>_. Error InvalidCustomValue)))"

definition u32_try_from :: "u8 list \<Rightarrow> 32 word option" where
  "u32_try_from bs = (if length bs \<noteq> 4 then None else Some (word_of_int (from_le_bytes bs)))"

definition expression_to_vec :: "manifest_expression \<Rightarrow> u8 list" where
  "expression_to_vec v = (case v of EntireWorktop \<Rightarrow> [0] | EntireAuthZone \<Rightarrow> [1])"

definition expression_try_from :: "u8 list \<Rightarrow> manifest_expression option" where
  "expression_try_from bs =
    (if length bs \<noteq> 1 then None
     else if bs ! 0 = 0 then Some EntireWorktop
     else if bs ! 0 = 1 then Some EntireAuthZone
     else None)"

definition manifest_encode_body :: "manifest_custom_value \<Rightarrow> unit encodes" where
  "manifest_encode_body v = (case v of
     MAddress v \<Rightarrow> encode_address_body v
   | MBucket v \<Rightarrow> encode_fixed_body (to_le_bytes 4 (uint v))
   | MProof v \<Rightarrow> encode_fixed_body (to_le_bytes 4 (uint v))
   | MExpression v \<Rightarrow> encode_fixed_body (expression_to_vec v)
   | MBlob v \<Rightarrow> encode_fixed_body v
   | MDecimal v \<Rightarrow> encode_fixed_body v
   | MPreciseDecimal v \<Rightarrow> encode_fixed_body v
   | MNonFungibleLocalId v \<Rightarrow> encode_id_body v
   | MAddressReservation v \<Rightarrow> encode_fixed_body (to_le_bytes 4 (uint v)))"

text \<open>
  The manifest type of non-fungible ids repeats the code of \<^verbatim>\<open>NonFungibleLocalId\<close>, with the same
  checks and the same bytes.
\<close>

definition manifest_decode_body ::
    "manifest_custom_value_kind value_kind \<Rightarrow> manifest_custom_value decodes" where
  "manifest_decode_body value_kind = (case value_kind of
     KCustom cti \<Rightarrow> (case cti of
         ManifestAddressKind \<Rightarrow> mbind (decode_address_body value_kind) (\<lambda>v. mreturn (MAddress v))
       | ManifestBlobKind \<Rightarrow>
           mbind (decode_fixed_body manifest_as_u8 ManifestBlobKind 32 (bytes_try_from 32) value_kind)
             (\<lambda>v. mreturn (MBlob v))
       | ManifestBucketKind \<Rightarrow>
           mbind (decode_fixed_body manifest_as_u8 ManifestBucketKind 4 u32_try_from value_kind)
             (\<lambda>v. mreturn (MBucket v))
       | ManifestProofKind \<Rightarrow>
           mbind (decode_fixed_body manifest_as_u8 ManifestProofKind 4 u32_try_from value_kind)
             (\<lambda>v. mreturn (MProof v))
       | ManifestExpressionKind \<Rightarrow>
           mbind (decode_fixed_body manifest_as_u8 ManifestExpressionKind 1 expression_try_from value_kind)
             (\<lambda>v. mreturn (MExpression v))
       | ManifestDecimalKind \<Rightarrow>
           mbind (decode_fixed_body manifest_as_u8 ManifestDecimalKind 24 (bytes_try_from 24) value_kind)
             (\<lambda>v. mreturn (MDecimal v))
       | ManifestPreciseDecimalKind \<Rightarrow>
           mbind (decode_fixed_body manifest_as_u8 ManifestPreciseDecimalKind 32 (bytes_try_from 32) value_kind)
             (\<lambda>v. mreturn (MPreciseDecimal v))
       | ManifestNonFungibleLocalIdKind \<Rightarrow>
           mbind (mseq (check_preloaded_value_kind manifest_as_u8 value_kind (KCustom ManifestNonFungibleLocalIdKind))
                  decode_id_body)
             (\<lambda>v. mreturn (MNonFungibleLocalId v))
       | ManifestAddressReservationKind \<Rightarrow>
           mbind (decode_fixed_body manifest_as_u8 ManifestAddressReservationKind 4 u32_try_from value_kind)
             (\<lambda>v. mreturn (MAddressReservation v)))
   | _ \<Rightarrow> mlift (\<lambda>_. Error (UnexpectedCustomValueKind (value_kind_as_u8 manifest_as_u8 value_kind))))"

definition manifest_codec :: "(manifest_custom_value_kind, manifest_custom_value) custom_codec" where
  "manifest_codec = \<lparr>custom_as_u8 = manifest_as_u8, custom_from_u8 = manifest_from_u8,
     get_custom_value_kind = manifest_kind_of, custom_encode_body = manifest_encode_body,
     custom_decode_body = manifest_decode_body\<rparr>"

type_synonym manifest_value = "(manifest_custom_value_kind, manifest_custom_value) sbor_value"

definition MANIFEST_SBOR_V1_PAYLOAD_PREFIX :: u8 where
  "MANIFEST_SBOR_V1_PAYLOAD_PREFIX = 0x4d"

definition MANIFEST_SBOR_V1_MAX_DEPTH :: nat where
  "MANIFEST_SBOR_V1_MAX_DEPTH = 24"

definition manifest_encode :: "manifest_value \<Rightarrow> (encode_error, u8 list) res" where
  "manifest_encode v = vec_encode manifest_codec MANIFEST_SBOR_V1_PAYLOAD_PREFIX MANIFEST_SBOR_V1_MAX_DEPTH v"

definition manifest_decode :: "u8 list \<Rightarrow> (decode_error, manifest_value) res" where
  "manifest_decode buf = vec_decode manifest_codec MANIFEST_SBOR_V1_PAYLOAD_PREFIX MANIFEST_SBOR_V1_MAX_DEPTH buf"

text \<open>
  The values that can be read back. A static address must start with the byte of an entity type:
  the constructor does not check it, only the decoder does.
\<close>

definition is_manifest_custom :: "manifest_custom_value \<Rightarrow> bool" where
  "is_manifest_custom v \<longleftrightarrow> (case v of
     MAddress (StaticAddress bs) \<Rightarrow> length bs = 30 \<and> is_entity_type (bs ! 0)
   | MBlob bs \<Rightarrow> length bs = 32 | MDecimal bs \<Rightarrow> length bs = 24 | MPreciseDecimal bs \<Rightarrow> length bs = 32
   | MNonFungibleLocalId v \<Rightarrow> is_local_id v
   | _ \<Rightarrow> True)"

definition manifest_custom_bytes :: "manifest_custom_value \<Rightarrow> u8 list" where
  "manifest_custom_bytes v = (case v of
     MAddress (StaticAddress bs) \<Rightarrow> [0] @ bs
   | MAddress (NamedAddress i) \<Rightarrow> [1] @ to_le_bytes 4 (uint i)
   | MBucket i \<Rightarrow> to_le_bytes 4 (uint i) | MProof i \<Rightarrow> to_le_bytes 4 (uint i)
   | MExpression e \<Rightarrow> expression_to_vec e
   | MBlob bs \<Rightarrow> bs | MDecimal bs \<Rightarrow> bs | MPreciseDecimal bs \<Rightarrow> bs
   | MNonFungibleLocalId v \<Rightarrow> local_id_bytes v
   | MAddressReservation i \<Rightarrow> to_le_bytes 4 (uint i))"

lemma parses_u32_fixed:
  "parses n (decode_fixed_body as_u8 k 4 u32_try_from (KCustom k)) (\<lambda>v bs. True \<and> bs = to_le_bytes 4 (uint v))"
  by (rule parses_fixed_body) (auto simp: u32_try_from_def word_of_le_bytes)

lemma parses_expression_fixed:
  "parses n (decode_fixed_body as_u8 k 1 expression_try_from (KCustom k)) (\<lambda>v bs. True \<and> bs = expression_to_vec v)"
proof (rule parses_fixed_body)
  fix bs :: "u8 list" and v :: manifest_expression assume "length bs = 1"
  then obtain b where "bs = [b]" by (auto simp: length_Suc_conv)
  then show "expression_try_from bs = Some v \<longleftrightarrow> True \<and> bs = expression_to_vec v"
    by (cases v) (auto simp: expression_try_from_def expression_to_vec_def)
qed (auto simp: expression_to_vec_def split: manifest_expression.splits)

lemma u32_le_simps:
  "word_of_int (from_le_bytes (to_le_bytes 4 (uint i))) = (i :: 32 word)"
  "length bs = 4 \<Longrightarrow> to_le_bytes 4 (uint (word_of_int (from_le_bytes bs) :: 32 word)) = bs"
  using word_of_le_bytes [where 'a = 32, of 4 "to_le_bytes 4 (uint i)" i]
    word_of_le_bytes [where 'a = 32, of 4 bs "word_of_int (from_le_bytes bs)"] by simp_all

lemma parses_address_body:
  "parses n (decode_address_body (KCustom ManifestAddressKind))
    (\<lambda>a bs. is_manifest_custom (MAddress a) \<and> bs = manifest_custom_bytes (MAddress a))"
proof -
  define T where "T t a bs \<longleftrightarrow>
     (t = 0 \<and> (\<exists>s. a = StaticAddress s \<and> length s = 30 \<and> is_entity_type (s ! 0) \<and> bs = s)) \<or>
     (t = 1 \<and> (\<exists>i. a = NamedAddress i \<and> bs = to_le_bytes 4 (uint i)))" for t :: u8 and a bs
  have static: "parses n (mbind (read_slice NodeId_LENGTH) (\<lambda>bs.
      mlift (\<lambda>_. if \<not> is_entity_type (bs ! 0) then Error InvalidCustomValue else Ok (StaticAddress bs))))
      (\<lambda>a bs. \<exists>s. a = StaticAddress s \<and> length s = 30 \<and> is_entity_type (s ! 0) \<and> bs = s)"
    by (rule parses_cong [OF parses_mbind [OF parses_slice parses_mlift]]) (auto simp: NodeId_LENGTH_def split: if_splits)
  have named: "parses n (mbind (read_slice 4) (\<lambda>bs. mreturn (NamedAddress (word_of_int (from_le_bytes bs)))))
      (\<lambda>a bs. \<exists>i. a = NamedAddress i \<and> bs = to_le_bytes 4 (uint i))"
    by (rule parses_cong [OF parses_mbind [OF parses_slice parses_mreturn]])
      (auto simp: u32_le_simps)
  have body: "parses n (if t = 0 then mbind (read_slice NodeId_LENGTH) (\<lambda>bs.
        mlift (\<lambda>_. if \<not> is_entity_type (bs ! 0) then Error InvalidCustomValue else Ok (StaticAddress bs)))
      else if t = 1 then mbind (read_slice 4) (\<lambda>bs. mreturn (NamedAddress (word_of_int (from_le_bytes bs))))
      else mlift (\<lambda>_. Error InvalidCustomValue)) (T t)" for t
    by (auto simp: T_def intro: parses_cong [OF static] parses_cong [OF named] parses_cong [OF parses_mlift])
  show ?thesis unfolding decode_address_body_def read_discriminator_def
    apply (rule parses_cong [OF parses_mseq [OF parses_check_kind parses_mbind [OF parses_byte body]]])
    subgoal for a bs by (cases a) (auto simp: T_def is_manifest_custom_def manifest_custom_bytes_def)
    done
qed

lemma manifest_kind_iffs:
  "manifest_kind_of v = ManifestAddressKind \<longleftrightarrow> (\<exists>a. v = MAddress a)"
  "manifest_kind_of v = ManifestBucketKind \<longleftrightarrow> (\<exists>i. v = MBucket i)"
  "manifest_kind_of v = ManifestProofKind \<longleftrightarrow> (\<exists>i. v = MProof i)"
  "manifest_kind_of v = ManifestExpressionKind \<longleftrightarrow> (\<exists>e. v = MExpression e)"
  "manifest_kind_of v = ManifestBlobKind \<longleftrightarrow> (\<exists>bs. v = MBlob bs)"
  "manifest_kind_of v = ManifestDecimalKind \<longleftrightarrow> (\<exists>bs. v = MDecimal bs)"
  "manifest_kind_of v = ManifestPreciseDecimalKind \<longleftrightarrow> (\<exists>bs. v = MPreciseDecimal bs)"
  "manifest_kind_of v = ManifestNonFungibleLocalIdKind \<longleftrightarrow> (\<exists>i. v = MNonFungibleLocalId i)"
  "manifest_kind_of v = ManifestAddressReservationKind \<longleftrightarrow> (\<exists>i. v = MAddressReservation i)"
  by (cases v; auto simp: manifest_kind_of_def)+

lemma manifest_parses:
  "parses n (manifest_decode_body (KCustom x))
    (\<lambda>y bs. (is_manifest_custom y \<and> manifest_kind_of y = x) \<and> bs = manifest_custom_bytes y)"
proof -
  note unfolds = manifest_decode_body_def value_kind.case manifest_custom_value_kind.case
  note simps = manifest_kind_iffs is_manifest_custom_def manifest_custom_bytes_def
  show ?thesis
  proof (cases x)
    case ManifestAddressKind
    show ?thesis unfolding ManifestAddressKind unfolds
      by (rule parses_cong [OF parses_mbind [OF parses_address_body parses_mreturn]]) (auto simp: manifest_kind_iffs)
  next
    case ManifestBucketKind
    show ?thesis unfolding ManifestBucketKind unfolds
      by (rule parses_cong [OF parses_mbind [OF parses_u32_fixed parses_mreturn]]) (auto simp: simps)
  next
    case ManifestProofKind
    show ?thesis unfolding ManifestProofKind unfolds
      by (rule parses_cong [OF parses_mbind [OF parses_u32_fixed parses_mreturn]]) (auto simp: simps)
  next
    case ManifestExpressionKind
    show ?thesis unfolding ManifestExpressionKind unfolds
      by (rule parses_cong [OF parses_mbind [OF parses_expression_fixed parses_mreturn]]) (auto simp: simps)
  next
    case ManifestBlobKind
    show ?thesis unfolding ManifestBlobKind unfolds
      by (rule parses_cong [OF parses_mbind [OF parses_bytes_fixed parses_mreturn]]) (auto simp: simps)
  next
    case ManifestDecimalKind
    show ?thesis unfolding ManifestDecimalKind unfolds
      by (rule parses_cong [OF parses_mbind [OF parses_bytes_fixed parses_mreturn]]) (auto simp: simps)
  next
    case ManifestPreciseDecimalKind
    show ?thesis unfolding ManifestPreciseDecimalKind unfolds
      by (rule parses_cong [OF parses_mbind [OF parses_bytes_fixed parses_mreturn]]) (auto simp: simps)
  next
    case ManifestNonFungibleLocalIdKind
    show ?thesis unfolding ManifestNonFungibleLocalIdKind unfolds
      by (rule parses_cong [OF parses_mbind [OF parses_mseq [OF parses_check_kind parses_id_body] parses_mreturn]])
        (auto simp: simps)
  next
    case ManifestAddressReservationKind
    show ?thesis unfolding ManifestAddressReservationKind unfolds
      by (rule parses_cong [OF parses_mbind [OF parses_u32_fixed parses_mreturn]]) (auto simp: simps)
  qed
qed

lemma writes_address: "writes n (encode_address_body a) True (manifest_custom_bytes (MAddress a))"
  unfolding encode_address_body_def manifest_custom_bytes_def write_discriminator_def
  by (cases a) (auto intro: writes_cong [OF writes_mseq [OF writes_byte writes_slice]])

lemma manifest_writes:
  "is_manifest_custom y \<Longrightarrow> writes n (manifest_encode_body y) True (manifest_custom_bytes y)"
proof (cases y)
  case (MAddress a)
  then show ?thesis using writes_address by (simp add: manifest_encode_body_def)
qed (simp_all add: manifest_encode_body_def manifest_custom_bytes_def is_manifest_custom_def encode_fixed_body_def
    writes_slice writes_id_body)

interpretation manifest: custom_sbor manifest_codec is_manifest_custom manifest_custom_bytes
proof
  show "CUSTOM_VALUE_KIND_START \<le> custom_as_u8 manifest_codec x" for x
    by (cases x) (simp_all add: manifest_codec_def manifest_as_u8_def CUSTOM_VALUE_KIND_START_def)
  show "custom_from_u8 manifest_codec b = Some x \<longleftrightarrow> b = custom_as_u8 manifest_codec x" for b x
    by (cases x) (auto simp: manifest_codec_def manifest_as_u8_def manifest_from_u8_def split: if_splits)
  show "is_manifest_custom y \<Longrightarrow> writes n (custom_encode_body manifest_codec y) True (manifest_custom_bytes y)" for n y
    using manifest_writes by (simp add: manifest_codec_def)
  show "parses n (custom_decode_body manifest_codec (KCustom x))
      (\<lambda>y bs. (is_manifest_custom y \<and> get_custom_value_kind manifest_codec y = x) \<and> bs = manifest_custom_bytes y)" for n x
    using manifest_parses by (simp add: manifest_codec_def)
qed

end
