(* ===== verification/Sbor_Payload.thy ===== *)
theory Sbor_Payload
  imports Sbor_Custom
begin

text \<open>
  Raw values, which keep the bytes of a value of any type, and the properties of Scrypto and
  manifest payloads: decoding inverts encoding, any bytes are decoded without a panic, the
  traverser agrees with the decoder, and how the depth limit of a raw value is off by one.
\<close>


section \<open>Raw values\<close>

text \<open>
  \<^verbatim>\<open>RawValue\<close> holds a value kind and the bytes of a body. Its decoder asks the traverser for the
  length of the body, then reads as many bytes.
\<close>

record 'x raw_value =
  raw_kind :: "'x value_kind"
  raw_body :: "u8 list"

definition encode_raw_body :: "'x raw_value \<Rightarrow> unit encodes" where
  "encode_raw_body r = write_slice (raw_body r)"

definition decode_raw_body :: "('x, 'y) custom_codec \<Rightarrow> 'x value_kind \<Rightarrow> 'x raw_value decodes" where
  "decode_raw_body c value_kind =
     mbind (mlift (\<lambda>d. case calculate_value_tree_body_byte_length c (peek_remaining d) value_kind
                            (dec_stack_depth d) (dec_max_depth d) of
              None \<Rightarrow> Panics | Some r \<Rightarrow> r)) (\<lambda>len.
     mbind (read_slice len) (\<lambda>bs. mreturn \<lparr>raw_kind = value_kind, raw_body = bs\<rparr>))"

text \<open>\<^verbatim>\<open>decode_deeper_body_with_value_kind\<close> and \<^verbatim>\<open>decode_payload\<close> of the decoder, for the type \<^verbatim>\<open>RawValue\<close>.\<close>

definition decode_raw :: "('x, 'y) custom_codec \<Rightarrow> 'x raw_value decodes" where
  "decode_raw c =
     mbind (read_value_kind (custom_from_u8 c)) (\<lambda>value_kind.
     mseq dec_track_stack_depth_increase
     (mbind (decode_raw_body c value_kind) (\<lambda>decoded.
      mseq dec_track_stack_depth_decrease (mreturn decoded))))"

definition vec_decode_raw :: "('x, 'y) custom_codec \<Rightarrow> u8 \<Rightarrow> nat \<Rightarrow> u8 list \<Rightarrow> (decode_error, 'x raw_value) res" where
  "vec_decode_raw c expected_prefix depth_limit buf =
     snd (mseq (read_and_check_payload_prefix expected_prefix)
       (mbind (decode_raw c) (\<lambda>v. mseq check_end (mreturn v))) (VecDecoder_new buf depth_limit))"

definition scrypto_decode_raw :: "u8 list \<Rightarrow> (decode_error, scrypto_custom_value_kind raw_value) res" where
  "scrypto_decode_raw buf = vec_decode_raw scrypto_codec SCRYPTO_SBOR_V1_PAYLOAD_PREFIX SCRYPTO_SBOR_V1_MAX_DEPTH buf"

context custom_sbor
begin

lemma raw_body_iff:
  assumes "dec_stack_depth d \<le> dec_max_depth d" and n: "n = dec_max_depth d - dec_stack_depth d - 1"
  shows "decode_raw_body c k d = (d', Ok w) \<longleftrightarrow>
    (\<exists>v r. readable c cv n k v \<and> peek_remaining d = body_bytes c cb v @ r \<and> d' = skip (length (body_bytes c cb v)) d \<and>
       w = \<lparr>raw_kind = k, raw_body = body_bytes c cb v\<rparr>)"
proof (cases "\<exists>v r. readable c cv n k v \<and> peek_remaining d = body_bytes c cb v @ r")
  case True
  then obtain v r where v: "readable c cv n k v" "peek_remaining d = body_bytes c cb v @ r" by blast
  let ?b = "body_bytes c cb v"
  have "calculate_value_tree_body_byte_length c (peek_remaining d) k (dec_stack_depth d) (dec_max_depth d) = Some (Ok (length ?b))"
    using body_length(1) [OF assms v(1)] v(2) by simp
  moreover have "read_slice (length ?b) d = (skip (length ?b) d, Ok ?b)"
    using parses_run [OF parses_slice refl, where v = ?b and bs = ?b and r = r] v(2) by simp
  ultimately have run: "decode_raw_body c k d = (skip (length ?b) d, Ok \<lparr>raw_kind = k, raw_body = ?b\<rparr>)"
    by (simp add: decode_raw_body_def mbind_def)
  have "body_bytes c cb v' = ?b" if "readable c cv n k v'" "peek_remaining d = body_bytes c cb v' @ r'" for v' r'
  proof -
    have "length (body_bytes c cb v') = length ?b"
      using body_length(1) [OF assms that(1), of r'] body_length(1) [OF assms v(1), of r]
      unfolding that(2) [symmetric] v(2) [symmetric] by simp
    then show ?thesis using that(2) v(2) by (metis append_eq_append_conv)
  qed
  then show ?thesis unfolding run using v by (metis (no_types, lifting) prod.inject sum.inject(2))
next
  case False
  then obtain err where
    "calculate_value_tree_body_byte_length c (peek_remaining d) k (dec_stack_depth d) (dec_max_depth d) = Some (Error err)"
    using body_length(2) [OF assms] by metis
  then have "decode_raw_body c k d = (d, Error err)" by (simp add: decode_raw_body_def mbind_def)
  then show ?thesis using False by auto
qed

end

lemma deeper_iff:
  "mseq dec_track_stack_depth_increase (mbind m (\<lambda>v. mseq dec_track_stack_depth_decrease (mreturn v))) d = (d', Ok v) \<longleftrightarrow>
   0 < dec_left d \<and> (\<exists>e. m (d\<lparr>dec_stack_depth := dec_stack_depth d + 1\<rparr>) = (e, Ok v) \<and>
     d' = e\<lparr>dec_stack_depth := dec_stack_depth e - 1\<rparr>)"
  by (auto simp: mseq_eq_Inr_iff mbind_eq_Inr_iff dec_track_stack_depth_increase_def dec_track_stack_depth_decrease_def
      ensure_def dec_left_def split: if_splits)

context custom_sbor
begin

lemma decode_raw_iff:
  assumes n: "dec_left d = n"
  shows "decode_raw c d = (d', Ok w) \<longleftrightarrow>
    (\<exists>v r. 0 < n \<and> rust_value cv v \<and> encodable c (n - 2) v \<and> peek_remaining d = value_bytes c cb v @ r \<and>
       d' = skip (length (value_bytes c cb v)) d \<and>
       w = \<lparr>raw_kind = get_value_kind c v, raw_body = body_bytes c cb v\<rparr>)"
proof -
  let ?E = "\<lambda>d. d\<lparr>dec_stack_depth := dec_stack_depth d + 1\<rparr>"
  have E: "dec_stack_depth (?E d) \<le> dec_max_depth (?E d)" "n - 2 = dec_max_depth (?E d) - dec_stack_depth (?E d) - 1"
    "peek_remaining (?E d) = peek_remaining d" if "dec_left d = n" "0 < n" for d
    using that by (auto simp: dec_left_def peek_remaining_def)
  have down: "(skip k (?E d))\<lparr>dec_stack_depth := dec_stack_depth (skip k (?E d)) - 1\<rparr> = skip k d" for k d
    by (simp add: skip_def)
  have inner: "(\<exists>e. decode_raw_body c k (?E d) = (e, Ok w) \<and> d' = e\<lparr>dec_stack_depth := dec_stack_depth e - 1\<rparr>) \<longleftrightarrow>
      (\<exists>v r. readable c cv (n - 2) k v \<and> peek_remaining d = body_bytes c cb v @ r \<and> d' = skip (length (body_bytes c cb v)) d \<and>
        w = \<lparr>raw_kind = k, raw_body = body_bytes c cb v\<rparr>)" if "dec_left d = n" "0 < n" for d k
    unfolding raw_body_iff [OF E(1,2) [OF that]] E(3) [OF that] using down by metis
  have kind: "read_value_kind (custom_from_u8 c) d = (e, Ok k) \<longleftrightarrow>
      (\<exists>r. peek_remaining d = kind_byte c k # r \<and> e = skip 1 d)" for e k
    using parses_kind [of n] n unfolding parses_def by simp
  have "decode_raw c d = (d', Ok w) \<longleftrightarrow> (\<exists>k r. peek_remaining d = kind_byte c k # r \<and> 0 < n \<and>
      (\<exists>e. decode_raw_body c k (?E (skip 1 d)) = (e, Ok w) \<and> d' = e\<lparr>dec_stack_depth := dec_stack_depth e - 1\<rparr>))"
    unfolding decode_raw_def mbind_eq_Inr_iff kind deeper_iff using n by auto
  also have "\<dots> \<longleftrightarrow> (\<exists>k r. peek_remaining d = kind_byte c k # r \<and> 0 < n \<and>
      (\<exists>v s. readable c cv (n - 2) k v \<and> peek_remaining (skip 1 d) = body_bytes c cb v @ s \<and>
        d' = skip (length (body_bytes c cb v)) (skip 1 d) \<and> w = \<lparr>raw_kind = k, raw_body = body_bytes c cb v\<rparr>))"
    using n by (intro ex_cong1 conj_cong refl inner) simp_all
  also have "\<dots> \<longleftrightarrow> (\<exists>v r. 0 < n \<and> rust_value cv v \<and> encodable c (n - 2) v \<and> peek_remaining d = value_bytes c cb v @ r \<and>
       d' = skip (length (value_bytes c cb v)) d \<and> w = \<lparr>raw_kind = get_value_kind c v, raw_body = body_bytes c cb v\<rparr>)"
    by (auto simp: readable_def value_bytes_def) blast
  finally show ?thesis .
qed

lemma vec_decode_raw_iff:
  "vec_decode_raw c p n bs = Ok w \<longleftrightarrow> (\<exists>v. 0 < n \<and> rust_value cv v \<and> encodable c (n - 2) v \<and> bs = p # value_bytes c cb v \<and>
     w = \<lparr>raw_kind = get_value_kind c v, raw_body = body_bytes c cb v\<rparr>)"
proof -
  let ?d = "VecDecoder_new bs n"
  have n: "dec_left ?d = n" and peek: "peek_remaining ?d = bs"
    by (simp_all add: VecDecoder_new_def dec_left_def peek_remaining_def)
  have remaining: "remaining_bytes (VecDecoder_new xs m) = length xs" for xs m by (simp add: VecDecoder_new_def remaining_bytes_def)
  note raw = decode_raw_iff [of "skip 1 ?d" n, unfolded skip_simps(1), OF n, unfolded skip_simps(2) peek]
  have prefix: "read_and_check_payload_prefix p ?d = (e, Ok u) \<longleftrightarrow> (\<exists>r. bs = p # r \<and> e = skip 1 ?d)" for e u
    using parses_prefix [of n p] n peek unfolding parses_def by simp
  have "vec_decode_raw c p n bs = Ok w \<longleftrightarrow> (\<exists>d. mseq (read_and_check_payload_prefix p)
      (mbind (decode_raw c) (\<lambda>v. mseq check_end (mreturn v))) ?d = (d, Ok w))"
    unfolding vec_decode_raw_def by (metis prod.collapse snd_conv)
  also have "\<dots> \<longleftrightarrow> (\<exists>r d. bs = p # r \<and> decode_raw c (skip 1 ?d) = (d, Ok w) \<and> peek_remaining d = [])"
    by (auto simp: mseq_eq_Inr_iff mbind_eq_Inr_iff check_end_iff prefix)
  also have "\<dots> \<longleftrightarrow> (\<exists>v. 0 < n \<and> rust_value cv v \<and> encodable c (n - 2) v \<and> bs = p # value_bytes c cb v \<and>
     w = \<lparr>raw_kind = get_value_kind c v, raw_body = body_bytes c cb v\<rparr>)"
  proof
    assume "\<exists>r d. bs = p # r \<and> decode_raw c (skip 1 ?d) = (d, Ok w) \<and> peek_remaining d = []"
    then show "\<exists>v. 0 < n \<and> rust_value cv v \<and> encodable c (n - 2) v \<and> bs = p # value_bytes c cb v \<and>
        w = \<lparr>raw_kind = get_value_kind c v, raw_body = body_bytes c cb v\<rparr>"
      unfolding raw by (auto simp: remaining)
  next
    assume "\<exists>v. 0 < n \<and> rust_value cv v \<and> encodable c (n - 2) v \<and> bs = p # value_bytes c cb v \<and>
        w = \<lparr>raw_kind = get_value_kind c v, raw_body = body_bytes c cb v\<rparr>"
    then obtain v where v: "0 < n" "rust_value cv v" "encodable c (n - 2) v" "bs = p # value_bytes c cb v"
      "w = \<lparr>raw_kind = get_value_kind c v, raw_body = body_bytes c cb v\<rparr>" by blast
    then have "decode_raw c (skip 1 ?d) = (skip (length (value_bytes c cb v)) (skip 1 ?d), Ok w)"
      unfolding raw by (intro exI [of _ v] exI [of _ "[]"]) simp
    moreover have "peek_remaining (skip (length (value_bytes c cb v)) (skip 1 ?d)) = []"
      using v(4) peek by (simp add: remaining)
    ultimately show "\<exists>r d. bs = p # r \<and> decode_raw c (skip 1 ?d) = (d, Ok w) \<and> peek_remaining d = []"
      using v(4) by blast
  qed
  finally show ?thesis .
qed

end

section \<open>Properties of Scrypto and manifest payloads\<close>

abbreviation is_scrypto_value :: "scrypto_value \<Rightarrow> bool" where
  "is_scrypto_value \<equiv> rust_value is_scrypto_custom"

abbreviation is_manifest_value :: "manifest_value \<Rightarrow> bool" where
  "is_manifest_value \<equiv> rust_value is_manifest_custom"

text \<open>
  C34. Decoding is exactly the inverse of encoding, for both payload formats: some bytes decode to
  a value if and only if they are the bytes the encoder writes for it. So what is encoded is read
  back unchanged, and no two payloads decode to the same value: there is no second form of a
  size, a number, a string or a custom value that the decoder would also accept.
\<close>

theorem payload_codec_inverse:
  "(scrypto_decode bs = Ok v \<longleftrightarrow> is_scrypto_value v \<and> scrypto_encode v = Ok bs) \<and>
   (manifest_decode bs = Ok w \<longleftrightarrow> is_manifest_value w \<and> manifest_encode w = Ok bs)"
  unfolding scrypto_decode_def scrypto_encode_def manifest_decode_def manifest_encode_def
  using scrypto.decode_iff_encode manifest.decode_iff_encode by blast

text \<open>
  C36. Bytes from outside are safe to read: on any bytes, decoding a Scrypto or a manifest payload
  returns a value or an error and never panics; and the traverser, run until its end event or an
  error event, always ends and never panics, with the end event if and only if the decoder
  accepts the payload.
\<close>

theorem reading_never_panics:
  "scrypto_decode bs \<noteq> Panics \<and> manifest_decode bs \<noteq> Panics \<and>
   (\<exists>r. drain scrypto_codec (payload_traverser SCRYPTO_SBOR_V1_PAYLOAD_PREFIX SCRYPTO_SBOR_V1_MAX_DEPTH bs) = Some r \<and>
     r \<noteq> Panics \<and> ((\<exists>n. r = Ok n) \<longleftrightarrow> (\<exists>v. scrypto_decode bs = Ok v)))"
proof (intro conjI)
  show "scrypto_decode bs \<noteq> Panics" and "manifest_decode bs \<noteq> Panics"
    unfolding scrypto_decode_def manifest_decode_def
    using scrypto.decode_payload_calm manifest.decode_payload_calm by blast+
  show "\<exists>r. drain scrypto_codec (payload_traverser SCRYPTO_SBOR_V1_PAYLOAD_PREFIX SCRYPTO_SBOR_V1_MAX_DEPTH bs) = Some r \<and>
     r \<noteq> Panics \<and> ((\<exists>n. r = Ok n) \<longleftrightarrow> (\<exists>v. scrypto_decode bs = Ok v))"
    unfolding scrypto_decode_def by (rule scrypto.drain_payload) (simp add: SCRYPTO_SBOR_V1_MAX_DEPTH_def)
qed

text \<open>
  C35. The streaming traverser agrees with the decoder: on a Scrypto payload it comes to its end
  event with the events \<open>es\<close> before it if and only if the decoder accepts the payload and \<open>es\<close> are the
  events of the decoded value. Its own depth check and its batch reading of byte arrays make no
  difference.
\<close>

theorem traverser_agrees_with_decoder:
  "emits scrypto_codec (payload_traverser SCRYPTO_SBOR_V1_PAYLOAD_PREFIX SCRYPTO_SBOR_V1_MAX_DEPTH bs) es \<longleftrightarrow>
   (\<exists>v. scrypto_decode bs = Ok v \<and> es = value_events v)"
  unfolding scrypto_decode_def
  by (rule scrypto.emits_iff) (simp add: SCRYPTO_SBOR_V1_MAX_DEPTH_def)

text \<open>Tuples nested in tuples, \<open>n\<close> levels below the outermost.\<close>

primrec nested :: "nat \<Rightarrow> ('x, 'y) sbor_value" where
  "nested 0 = VTuple []"
| "nested (Suc n) = VTuple [nested n]"

lemma nested_encodable: "encodable c n (nested k) \<longleftrightarrow> k \<le> n"
proof (induction k arbitrary: n)
  case (Suc k)
  have "encodable c n (nested (Suc k)) \<longleftrightarrow> 0 < n \<and> encodable c (n - 1) (nested k)" by simp
  then show ?case using Suc.IH [of "n - 1"] by linarith
qed simp

lemma encodable_mono: "encodable c n v \<Longrightarrow> n \<le> m \<Longrightarrow> encodable c m v"
proof (induction c n v arbitrary: m rule: encodable.induct)
  case (2 c n t flds)
  then show ?case by (auto intro: diff_le_mono)
next
  case (3 c n k elements)
  then show ?case by (auto intro: diff_le_mono)
next
  case (4 c n flds)
  then show ?case by (auto intro: diff_le_mono)
next
  case (5 c n kk vk entries)
  then show ?case by (auto intro: diff_le_mono)
qed auto

lemma nested_rust: "rust_value cv (nested k)"
  by (induction k) auto

text \<open>
  C37. A raw value is read with one level less than a value: \<^verbatim>\<open>RawValue::decode_body_with_value_kind\<close> gives
  the traverser the levels below the raw value as its depth limit, and the traverser counts the
  value itself against it. So the payloads accepted as a raw value are those of depth 63, and a
  payload of the maximal depth 64 decodes as a value but not as a raw value.
\<close>

theorem raw_value_loses_a_level:
  "((\<exists>r. scrypto_decode_raw bs = Ok r) \<longleftrightarrow>
    (\<exists>v. vec_decode scrypto_codec SCRYPTO_SBOR_V1_PAYLOAD_PREFIX (SCRYPTO_SBOR_V1_MAX_DEPTH - 1) bs = Ok v)) \<and>
   (\<exists>cs v. scrypto_decode cs = Ok v \<and> (\<forall>r. scrypto_decode_raw cs \<noteq> Ok r))"
proof
  show iff: "(\<exists>r. scrypto_decode_raw bs = Ok r) \<longleftrightarrow>
    (\<exists>v. vec_decode scrypto_codec SCRYPTO_SBOR_V1_PAYLOAD_PREFIX (SCRYPTO_SBOR_V1_MAX_DEPTH - 1) bs = Ok v)" for bs
    unfolding scrypto_decode_raw_def scrypto.vec_decode_raw_iff scrypto.vec_decode_iff SCRYPTO_SBOR_V1_MAX_DEPTH_def by auto
  define cs where "cs = SCRYPTO_SBOR_V1_PAYLOAD_PREFIX # value_bytes scrypto_codec scrypto_custom_bytes (nested 63)"
  have ok: "scrypto_decode cs = Ok (nested 63)"
    unfolding scrypto_decode_def scrypto.vec_decode_iff
    by (simp add: cs_def SCRYPTO_SBOR_V1_MAX_DEPTH_def nested_encodable nested_rust)
  have "scrypto_decode_raw cs \<noteq> Ok r" for r
  proof
    assume "scrypto_decode_raw cs = Ok r"
    then obtain v where v: "is_scrypto_value v" "encodable scrypto_codec 62 v"
      "cs = SCRYPTO_SBOR_V1_PAYLOAD_PREFIX # value_bytes scrypto_codec scrypto_custom_bytes v"
      unfolding scrypto_decode_raw_def scrypto.vec_decode_raw_iff SCRYPTO_SBOR_V1_MAX_DEPTH_def by auto
    have "encodable scrypto_codec 63 v" using encodable_mono [OF v(2)] by simp
    then have "scrypto_decode cs = Ok v"
      unfolding scrypto_decode_def scrypto.vec_decode_iff using v by (simp add: SCRYPTO_SBOR_V1_MAX_DEPTH_def)
    then have "v = nested 63" using ok by simp
    then show False using v(2) by (simp only: nested_encodable)
  qed
  then show "\<exists>cs v. scrypto_decode cs = Ok v \<and> (\<forall>r. scrypto_decode_raw cs \<noteq> Ok r)" using ok by blast
qed

end
