(* ===== verification/Merkle_Nodes.thy ===== *)
theory Merkle_Nodes
  imports Prelude "HOL-Library.Sublist"
begin

text \<open>
  The data of the Jellyfish Merkle tree in \<^verbatim>\<open>state_tree/types.rs\<close>: leaf keys read by nibble and by
  bit, packed nibble paths, node keys, and nodes with their hashes. The hash function is a
  parameter. Shown here: packed paths behave as lists of nibbles, and the bitmap code that
  hashes an internal node computes the hash of a four-level binary tree.
\<close>

unbundle bit_operations_syntax


section \<open>Leaf keys\<close>

type_synonym byte = "8 word"
type_synonym nibble = "4 word"
type_synonym version = nat
type_synonym hash = "byte list"
type_synonym leaf_key = "byte list"

text \<open>\<^verbatim>\<open>LeafKey::get_nibble\<close>: indexing past the end of the bytes panics.\<close>

definition key_get_nibble :: "leaf_key \<Rightarrow> nat \<Rightarrow> ('e, nibble) res" where
  "key_get_nibble key i =
    (if i div 2 < length key
     then Ok (if i mod 2 = 0 then ucast (drop_bit 4 (key ! (i div 2))) else ucast (key ! (i div 2) AND 0x0F))
     else Panics)"

text \<open>\<^verbatim>\<open>LeafKeyBitIterator::get_bit\<close>, and all the bits the iterator yields.\<close>

definition key_get_bit :: "leaf_key \<Rightarrow> nat \<Rightarrow> bool" where
  "key_get_bit key i \<longleftrightarrow> drop_bit (7 - i mod 8) (key ! (i div 8)) AND 1 \<noteq> 0"

definition iter_bits :: "leaf_key \<Rightarrow> bool list" where
  "iter_bits key = map (key_get_bit key) [0 ..< length key * 8]"

text \<open>What they read: the nibbles of a key, high nibble first, and the bits of a nibble, high bit first.\<close>

definition byte_nibbles :: "byte \<Rightarrow> nibble list" where
  "byte_nibbles b = [ucast (drop_bit 4 b), ucast b]"

definition key_nibbles :: "leaf_key \<Rightarrow> nibble list" where
  "key_nibbles key = concat (map byte_nibbles key)"

definition nibble_bits :: "nibble \<Rightarrow> bool list" where
  "nibble_bits n = [bit n 3, bit n 2, bit n 1, bit n 0]"

lemma length_key_nibbles [simp]: "length (key_nibbles key) = 2 * length key"
  by (induction key) (simp_all add: key_nibbles_def byte_nibbles_def)

lemma key_nibbles_simps [simp]:
  "key_nibbles [] = []"
  "key_nibbles (b # key) = ucast (drop_bit 4 b) # ucast b # key_nibbles key"
  by (simp_all add: key_nibbles_def byte_nibbles_def)

lemma key_nibbles_append: "key_nibbles (xs @ ys) = key_nibbles xs @ key_nibbles ys"
  by (simp add: key_nibbles_def)

lemma nibble_masks: "(15::byte) = mask 4" "(240::byte) = push_bit 4 (mask 4)"
  by (simp_all add: mask_eq_exp_minus_1 push_bit_eq_mult)

lemma low_nibble: "ucast ((b::byte) AND 15) = (ucast b :: nibble)"
  unfolding nibble_masks by (rule bit_word_eqI) (simp add: bit_ucast_iff bit_and_iff bit_mask_iff)

lemma key_nibbles_nth:
  "i < 2 * length key \<Longrightarrow> key_nibbles key ! i =
     (if i mod 2 = 0 then ucast (drop_bit 4 (key ! (i div 2))) else ucast (key ! (i div 2)))"
proof (induction key arbitrary: i)
  case (Cons b key)
  consider "i = 0" | "i = 1" | j where "i = j + 2" by (metis One_nat_def add_2_eq_Suc' not0_implies_Suc)
  then show ?case
  proof cases
    case 3
    then show ?thesis using Cons.IH [of j] Cons.prems by (simp add: div_add_self2 mod_add_self2)
  qed simp_all
qed simp

lemma key_get_nibble_eq:
  "key_get_nibble key i = (if i < length (key_nibbles key) then Ok (key_nibbles key ! i) else Panics)"
  by (auto simp: key_get_nibble_def key_nibbles_nth low_nibble less_mult_imp_div_less div_less_iff_less_mult)

lemma byte_nibbles_inj: "byte_nibbles a = byte_nibbles b \<Longrightarrow> a = b"
proof (rule bit_word_eqI)
  fix i assume eq: "byte_nibbles a = byte_nibbles b" and i: "i < LENGTH(8)"
  have hi: "bit (ucast (drop_bit 4 a) :: nibble) (i - 4) = bit (ucast (drop_bit 4 b) :: nibble) (i - 4)"
    and lo: "bit (ucast a :: nibble) i = bit (ucast b :: nibble) i"
    using eq by (simp_all add: byte_nibbles_def)
  show "bit a i = bit b i"
  proof (cases "i < 4")
    case True
    then show ?thesis using lo by (simp add: bit_ucast_iff)
  next
    case False
    then have "i - 4 < 4" using i by simp
    then show ?thesis using hi False by (simp add: bit_ucast_iff bit_drop_bit_eq)
  qed
qed

lemma key_nibbles_inj: "key_nibbles a = key_nibbles b \<longleftrightarrow> a = b"
proof
  show "key_nibbles a = key_nibbles b \<Longrightarrow> a = b"
  proof (induction a arbitrary: b)
    case Nil
    then show ?case by (metis key_nibbles_simps(1) length_0_conv length_key_nibbles mult_is_0 zero_neq_numeral)
  next
    case (Cons x a)
    then obtain y b' where b: "b = y # b'" by (cases b) auto
    have "byte_nibbles x = byte_nibbles y" "key_nibbles a = key_nibbles b'"
      using Cons.prems by (simp_all add: b byte_nibbles_def)
    then show ?case using Cons.IH byte_nibbles_inj b by blast
  qed
qed simp

lemma length_nibble_bits [simp]: "length (nibble_bits n) = 4"
  by (simp add: nibble_bits_def)

lemma byte_bits: "concat (map nibble_bits (byte_nibbles b)) = map (\<lambda>i. bit b (7 - i)) [0..<8]"
  by (simp add: byte_nibbles_def nibble_bits_def upt_rec bit_ucast_iff bit_drop_bit_eq)

lemma iter_bits_eq: "iter_bits key = concat (map nibble_bits (key_nibbles key))"
proof (induction key)
  case Nil
  show ?case by (simp add: iter_bits_def)
next
  case (Cons b key)
  have bit0: "key_get_bit (b # key) i = bit b (7 - i)" if "i < 8" for i
    using that by (simp add: key_get_bit_def and_one_eq bit_iff_odd_drop_bit odd_iff_mod_2_eq_one)
  have shift: "key_get_bit (b # key) (i + 8) = key_get_bit key i" for i
    by (simp add: key_get_bit_def div_add_self2)
  have upt: "[0 ..< length (b # key) * 8] = [0..<8] @ map (\<lambda>i. i + 8) [0 ..< length key * 8]"
    using upt_add_eq_append [of 0 8 "length key * 8"] by (simp only: map_add_upt) (simp add: add.commute del: upt_Suc)
  have "iter_bits (b # key) = map (\<lambda>i. bit b (7 - i)) [0..<8] @ iter_bits key"
    unfolding iter_bits_def upt by (simp add: bit0 shift o_def)
  also have "\<dots> = concat (map nibble_bits (key_nibbles (b # key)))"
    unfolding Cons.IH byte_bits [symmetric] by (simp add: byte_nibbles_def)
  finally show ?case .
qed

text \<open>Keys sorted by their bytes are sorted by their nibbles.\<close>

lemma byte_less_nibbles:
  assumes "a < (b::byte)"
  shows "ucast (drop_bit 4 a) < (ucast (drop_bit 4 b) :: nibble) \<or>
    ucast (drop_bit 4 a) = (ucast (drop_bit 4 b) :: nibble) \<and> ucast a < (ucast b :: nibble)"
proof -
  have split: "unat x = 16 * unat (ucast (drop_bit 4 x) :: nibble) + unat (ucast x :: nibble)" for x :: byte
  proof -
    have "unat x < 256" using unsigned_less [of x] by simp
    then have "unat x div 16 < 16" by simp
    then show ?thesis by (simp add: unsigned_ucast_eq take_bit_eq_mod unat_div_distrib drop_bit_eq_div)
  qed
  have "unat (ucast x :: nibble) < 16" for x :: byte using unsigned_less [of "ucast x :: nibble"] by simp
  from this [of b] show ?thesis
    using assms split [of a] split [of b] unfolding word_less_nat_alt word_unat_eq_iff by linarith
qed

lemma lexordp_key_nibbles: "ord_class.lexordp a b \<Longrightarrow> ord_class.lexordp (key_nibbles a) (key_nibbles b)"
proof (induction rule: ord_class.lexordp.induct)
  case (Cons x y xs ys)
  then show ?case using byte_less_nibbles [of x y] by auto
qed auto


section \<open>Nibble paths\<close>

text \<open>
  \<^verbatim>\<open>NibblePath\<close> packs two nibbles per byte; in a path of odd length the low half of the last byte
  is zero. \<^verbatim>\<open>push\<close> and \<^verbatim>\<open>pop\<close> work on the packed bytes.
\<close>

record nibble_path =
  num_nibbles :: nat
  path_bytes :: "byte list"

definition new_even :: "byte list \<Rightarrow> nibble_path" where
  "new_even bytes = \<lparr>num_nibbles = length bytes * 2, path_bytes = bytes\<rparr>"

definition prefix_with :: "nibble_path \<Rightarrow> byte list \<Rightarrow> nibble_path" where
  "prefix_with p prefix_bytes =
     \<lparr>num_nibbles = length prefix_bytes * 2 + num_nibbles p, path_bytes = prefix_bytes @ path_bytes p\<rparr>"

definition path_push :: "nibble_path \<Rightarrow> nibble \<Rightarrow> nibble_path" where
  "path_push p n =
    (if num_nibbles p mod 2 = 0
     then \<lparr>num_nibbles = num_nibbles p + 1, path_bytes = path_bytes p @ [push_bit 4 (ucast n)]\<rparr>
     else \<lparr>num_nibbles = num_nibbles p + 1,
           path_bytes = (path_bytes p)[num_nibbles p div 2 := path_bytes p ! (num_nibbles p div 2) OR ucast n]\<rparr>)"

definition path_pop :: "nibble_path \<Rightarrow> nibble option \<times> nibble_path" where
  "path_pop p =
    (if path_bytes p = [] then (None, p)
     else if num_nibbles p mod 2 = 0
     then (Some (ucast (last (path_bytes p) AND 0x0F)),
           \<lparr>num_nibbles = num_nibbles p - 1, path_bytes = butlast (path_bytes p) @ [last (path_bytes p) AND 0xF0]\<rparr>)
     else (Some (ucast (drop_bit 4 (last (path_bytes p)))),
           \<lparr>num_nibbles = num_nibbles p - 1, path_bytes = butlast (path_bytes p)\<rparr>))"

definition path_get_nibble :: "nibble_path \<Rightarrow> nat \<Rightarrow> nibble" where
  "path_get_nibble p i = ucast (drop_bit (if i mod 2 = 1 then 0 else 4) (path_bytes p ! (i div 2)) AND 0xF)"

definition nibbles :: "nibble_path \<Rightarrow> nibble list" where
  "nibbles p = map (path_get_nibble p) [0 ..< num_nibbles p]"

definition path_from_iter :: "nibble list \<Rightarrow> nibble_path" where
  "path_from_iter ns = foldl path_push (new_even []) ns"

text \<open>A path is the packed form of its nibbles.\<close>

fun pack :: "nibble list \<Rightarrow> byte list" where
  "pack [] = []"
| "pack [n] = [push_bit 4 (ucast n)]"
| "pack (n # m # ns) = (push_bit 4 (ucast n) OR ucast m) # pack ns"

definition path_of :: "nibble list \<Rightarrow> nibble_path" where
  "path_of ns = \<lparr>num_nibbles = length ns, path_bytes = pack ns\<rparr>"

lemma length_pack [simp]: "length (pack ns) = (length ns + 1) div 2"
  by (induction ns rule: pack.induct) simp_all

lemma pack_snoc:
  "pack (ns @ [n]) = (if length ns mod 2 = 0 then pack ns @ [push_bit 4 (ucast n)]
     else (pack ns)[length ns div 2 := pack ns ! (length ns div 2) OR ucast n])"
  by (induction ns rule: pack.induct) simp_all

lemma path_push_of [simp]: "path_push (path_of ns) n = path_of (ns @ [n])"
  by (simp add: path_push_def path_of_def pack_snoc)

lemma path_of_Nil [simp]: "new_even [] = path_of []"
  by (simp add: new_even_def path_of_def)

lemma path_from_iter_eq: "path_from_iter ns = path_of ns"
proof -
  have "foldl path_push (path_of ms) ns = path_of (ms @ ns)" for ms
    by (induction ns arbitrary: ms) simp_all
  then show ?thesis by (simp add: path_from_iter_def)
qed

lemma packed_nibbles [simp]:
  "drop_bit 4 (push_bit 4 (ucast (n::nibble)) :: byte) = ucast n"
  "drop_bit 4 (ucast (n::nibble) :: byte) = 0"
  "ucast (push_bit 4 b OR ucast n :: byte) = n"
  "ucast (ucast n :: byte) = n"
  by (rule bit_word_eqI; simp add: bit_ucast_iff bit_drop_bit_eq bit_or_iff bit_push_bit_iff bit_imp_le_length; fastforce dest: bit_imp_le_length)+

lemma path_nibble_pack: "i < length ns \<Longrightarrow>
    ucast (drop_bit (if i mod 2 = Suc 0 then 0 else 4) (pack ns ! (i div 2))) = ns ! i"
proof (induction ns arbitrary: i rule: pack.induct)
  case (2 n)
  then show ?case by (simp add: low_nibble)
next
  case (3 n m ns)
  consider "i = 0" | "i = 1" | j where "i = j + 2" by (metis One_nat_def add_2_eq_Suc' not0_implies_Suc)
  then show ?case
  proof cases
    case 3
    then show ?thesis using "3.IH" [of j] "3.prems" by (simp add: div_add_self2 mod_add_self2)
  qed (simp_all add: low_nibble)
qed simp

lemma nibbles_path_of [simp]: "nibbles (path_of ns) = ns"
  by (rule nth_equalityI) (simp_all add: nibbles_def path_get_nibble_def path_of_def low_nibble path_nibble_pack del: if_split)

lemma path_of_inj [simp]: "path_of ns = path_of ms \<longleftrightarrow> ns = ms"
  by (metis nibbles_path_of)

lemma pack_key_nibbles: "pack (key_nibbles key @ ns) = key @ pack ns"
proof (induction key)
  case (Cons b key)
  have "push_bit 4 (ucast (ucast (drop_bit 4 b) :: nibble)) OR ucast (ucast b :: nibble) = b"
    by (rule bit_word_eqI) (auto simp: bit_ucast_iff bit_drop_bit_eq bit_or_iff bit_push_bit_iff not_less)
  then show ?case using Cons.IH by simp
qed simp

lemma new_even_eq: "new_even key = path_of (key_nibbles key)"
  using pack_key_nibbles [of key "[]"] by (simp add: new_even_def path_of_def)

lemma prefix_with_eq: "prefix_with (path_of ns) key = path_of (key_nibbles key @ ns)"
  by (simp add: prefix_with_def path_of_def pack_key_nibbles)

lemma path_bytes_key: "path_bytes (path_of (key_nibbles key)) = key"
  using pack_key_nibbles [of key "[]"] by (simp add: path_of_def)

lemma num_nibbles_path_of [simp]: "num_nibbles (path_of ns) = length ns"
  by (simp add: path_of_def)

text \<open>\<^verbatim>\<open>pop\<close> undoes \<^verbatim>\<open>push\<close>.\<close>

lemma path_pop_of: "path_pop (path_of (ns @ [n])) = (Some n, path_of ns)"
proof -
  have even: "last (pack (ms @ [n])) = push_bit 4 (ucast n)" "butlast (pack (ms @ [n])) = pack ms"
    if "length ms mod 2 = 0" for ms using that by (simp_all add: pack_snoc)
  have odd: "ucast (last (pack (ms @ [n]))) = n \<and> butlast (pack (ms @ [n])) @ [last (pack (ms @ [n])) AND 0xF0] = pack ms"
    if "length ms mod 2 = 1" for ms
    using that
  proof (induction ms rule: pack.induct)
    case (2 m)
    have "(push_bit 4 (ucast m) OR ucast n :: byte) AND 240 = push_bit 4 (ucast m)"
      unfolding nibble_masks by (rule bit_word_eqI)
        (auto simp: bit_ucast_iff bit_and_iff bit_or_iff bit_push_bit_iff bit_mask_iff dest: bit_imp_le_length)
    then show ?case by simp
  next
    case (3 a b ms)
    moreover have "pack (ms @ [n]) \<noteq> []" by (cases ms rule: pack.cases) simp_all
    ultimately show ?case by simp
  qed simp
  have "pack (ns @ [n]) \<noteq> []" by (metis length_pack One_nat_def Suc_eq_plus1 add_is_0 div_eq_0_iff length_append_singleton
      list.size(3) not_less_eq numeral_2_eq_2 zero_less_Suc)
  then show ?thesis
    using even [of ns] odd [of ns] by (cases "length ns mod 2 = 0") (simp_all add: path_pop_def path_of_def low_nibble mod_Suc)
qed

section \<open>Node keys and nodes\<close>

record tree_node_key =
  key_version :: version
  nibble_path :: nibble_path

definition new_empty_path :: "version \<Rightarrow> tree_node_key" where
  "new_empty_path v = \<lparr>key_version = v, nibble_path = new_even []\<rparr>"

definition gen_child_node_key :: "tree_node_key \<Rightarrow> version \<Rightarrow> nibble \<Rightarrow> tree_node_key" where
  "gen_child_node_key k v n = \<lparr>key_version = v, nibble_path = path_push (nibble_path k) n\<rparr>"

definition gen_parent_node_key :: "tree_node_key \<Rightarrow> ('e, tree_node_key) res" where
  "gen_parent_node_key k =
     (case path_pop (nibble_path k) of
        (None, _) \<Rightarrow> Panics
      | (Some _, p) \<Rightarrow> Ok \<lparr>key_version = key_version k, nibble_path = p\<rparr>)"

text \<open>The key of a node of a version at a list of nibbles.\<close>

definition node_key :: "version \<Rightarrow> nibble list \<Rightarrow> tree_node_key" where
  "node_key v ns = \<lparr>key_version = v, nibble_path = path_of ns\<rparr>"

lemma node_key_simps [simp]:
  "node_key v ns = node_key w ms \<longleftrightarrow> v = w \<and> ns = ms"
  "key_version (node_key v ns) = v"
  "nibble_path (node_key v ns) = path_of ns"
  "new_empty_path v = node_key v []"
  "gen_child_node_key (node_key v ns) w n = node_key w (ns @ [n])"
  by (simp_all add: node_key_def new_empty_path_def gen_child_node_key_def)

lemma gen_parent_of_child: "gen_parent_node_key (gen_child_node_key (node_key v ns) w n) = Ok (node_key w ns)"
  by (simp add: gen_parent_node_key_def path_pop_of node_key_def gen_child_node_key_def)

datatype node_kind = LeafType | NullType | InternalType (node_leaf_count: nat)

record child =
  child_hash :: hash
  child_version :: version
  child_node_type :: node_kind

definition child_is_leaf :: "child \<Rightarrow> bool" where
  "child_is_leaf c \<longleftrightarrow> child_node_type c = LeafType"

definition child_leaf_count :: "child \<Rightarrow> ('e, nat) res" where
  "child_leaf_count c = (case child_node_type c of LeafType \<Rightarrow> Ok 1 | InternalType n \<Rightarrow> Ok n | NullType \<Rightarrow> Panics)"

text \<open>
  The children of a node are a \<^verbatim>\<open>HashMap<Nibble, Child>\<close>: a map, listed in the order of the nibbles
  where the code goes through all of it (only \<^verbatim>\<open>children_sorted\<close> fixes an order).
\<close>

type_synonym children = "nibble \<rightharpoonup> child"

definition all_nibbles :: "nibble list" where
  "all_nibbles = map word_of_nat [0..<16]"

definition map_entries :: "(nibble \<rightharpoonup> 'a) \<Rightarrow> (nibble \<times> 'a) list" where
  "map_entries m = concat (map (\<lambda>n. case m n of None \<Rightarrow> [] | Some x \<Rightarrow> [(n, x)]) all_nibbles)"

record internal_node =
  children :: children
  leaf_count :: nat

fun total_leaf_count :: "child list \<Rightarrow> ('e, nat) res" where
  "total_leaf_count [] = Ok 0"
| "total_leaf_count (c # cs) = rbind (child_leaf_count c) (\<lambda>n. rbind (total_leaf_count cs) (\<lambda>m. Ok (n + m)))"

definition InternalNode_new :: "children \<Rightarrow> ('e, internal_node) res" where
  "InternalNode_new cs = rbind (total_leaf_count (map snd (map_entries cs))) (\<lambda>n. Ok \<lparr>children = cs, leaf_count = n\<rparr>)"

record 'p leaf_node =
  leaf_key :: leaf_key
  value_hash :: hash
  payload :: 'p
  leaf_version :: version

datatype 'p node = Internal internal_node | Leaf "'p leaf_node" | Null

definition new_leaf :: "leaf_key \<Rightarrow> hash \<Rightarrow> 'p \<Rightarrow> version \<Rightarrow> 'p node" where
  "new_leaf key h p v = Leaf \<lparr>leaf_key = key, value_hash = h, payload = p, leaf_version = v\<rparr>"

fun is_leaf :: "'p node \<Rightarrow> bool" where
  "is_leaf (Leaf _) = True"
| "is_leaf _ = False"

fun node_type :: "'p node \<Rightarrow> node_kind" where
  "node_type (Leaf _) = LeafType"
| "node_type (Internal n) = InternalType (leaf_count n)"
| "node_type Null = NullType"

fun node_leaves :: "'p node \<Rightarrow> nat" where
  "node_leaves (Leaf _) = 1"
| "node_leaves (Internal n) = leaf_count n"
| "node_leaves Null = 0"

lemma set_all_nibbles [simp]: "set all_nibbles = UNIV"
proof -
  have "n \<in> set all_nibbles" for n :: nibble
  proof -
    have "unat n < 16" using unsigned_less [of n] by simp
    then show ?thesis by (auto simp: all_nibbles_def intro: image_eqI [where x = "unat n"])
  qed
  then show ?thesis by blast
qed

lemma sorted_all_nibbles: "sorted_wrt (<) all_nibbles"
  by (simp add: all_nibbles_def upt_rec)

lemma distinct_all_nibbles [simp]: "distinct all_nibbles"
  using sorted_all_nibbles by (simp add: strict_sorted_iff)

lemma set_map_entries: "(n, x) \<in> set (map_entries m) \<longleftrightarrow> m n = Some x"
  by (auto simp: map_entries_def split: option.splits)

lemma keys_map_entries: "map fst (map_entries m) = filter (\<lambda>n. m n \<noteq> None) all_nibbles"
proof -
  have "map fst (concat (map (\<lambda>n. case m n of None \<Rightarrow> [] | Some x \<Rightarrow> [(n, x)]) ns)) = filter (\<lambda>n. m n \<noteq> None) ns" for ns
    by (induction ns) (auto split: option.splits)
  then show ?thesis by (simp add: map_entries_def)
qed

lemma distinct_map_entries [simp]: "distinct (map fst (map_entries m))"
  by (simp add: keys_map_entries)

lemma map_of_map_entries [simp]: "map_of (map_entries m) = m"
proof
  show "map_of (map_entries m) n = m n" for n
    by (cases "m n") (simp_all add: set_map_entries map_of_eq_None_iff keys_map_entries flip: set_map)
qed

lemma map_entries_Nil_iff: "map_entries m = [] \<longleftrightarrow> m = Map.empty"
proof
  assume "map_entries m = []"
  then show "m = Map.empty" using map_of_map_entries [of m] by simp
qed (simp add: map_entries_def)

lemma total_leaf_count_Ok:
  "\<forall>c \<in> set cs. child_node_type c \<noteq> NullType \<Longrightarrow> \<exists>n. total_leaf_count cs = Ok n"
  by (induction cs) (auto simp: child_leaf_count_def split: node_kind.splits)

lemma InternalNode_new_Ok:
  assumes "\<And>n c. cs n = Some c \<Longrightarrow> child_node_type c \<noteq> NullType"
  shows "\<exists>k. (InternalNode_new cs :: ('e, internal_node) res) = Ok \<lparr>children = cs, leaf_count = k\<rparr>"
proof -
  have "\<forall>c \<in> set (map snd (map_entries cs)). child_node_type c \<noteq> NullType"
    using assms by (auto simp: set_map_entries)
  then have "\<exists>n. (total_leaf_count (map snd (map_entries cs)) :: ('e, nat) res) = Ok n" by (rule total_leaf_count_Ok)
  then show ?thesis by (auto simp: InternalNode_new_def)
qed


section \<open>Hashes\<close>

text \<open>
  The hash function \<open>H\<close> is the one of \<^verbatim>\<open>radix_common::crypto\<close>. A leaf is hashed with its key, an
  inner node of the binary tree from the hashes of its halves, and an empty half is the placeholder.
\<close>

type_synonym hasher = "byte list \<Rightarrow> hash"

definition SPARSE_MERKLE_PLACEHOLDER_HASH :: hash where
  "SPARSE_MERKLE_PLACEHOLDER_HASH = replicate 32 0"

record sparse_merkle_leaf_node =
  sml_key :: leaf_key
  sml_value_hash :: hash

definition sparse_leaf_hash :: "hasher \<Rightarrow> sparse_merkle_leaf_node \<Rightarrow> hash" where
  "sparse_leaf_hash H l = H (sml_key l @ sml_value_hash l)"

definition sparse_internal_hash :: "hasher \<Rightarrow> hash \<Rightarrow> hash \<Rightarrow> hash" where
  "sparse_internal_hash H l r = H (l @ r)"

definition leaf_hash :: "hasher \<Rightarrow> 'p leaf_node \<Rightarrow> hash" where
  "leaf_hash H l = H (leaf_key l @ value_hash l)"

text \<open>
  \<^verbatim>\<open>generate_bitmaps\<close> and \<^verbatim>\<open>range_bitmaps\<close>: one bit for each existing child and one for each child that is a
  leaf, masked to a range of children.
\<close>

type_synonym u16 = "16 word"

definition count_ones :: "u16 \<Rightarrow> nat" where
  "count_ones w = length (filter (bit w) [0..<16])"

definition trailing_zeros :: "u16 \<Rightarrow> nat" where
  "trailing_zeros w = length (takeWhile (\<lambda>i. \<not> bit w i) [0..<16])"

definition set_bits :: "u16 \<times> u16 \<Rightarrow> nibble \<times> child \<Rightarrow> u16 \<times> u16" where
  "set_bits = (\<lambda>(existence_bitmap, leaf_bitmap) (n, c).
     (existence_bitmap OR push_bit (unat n) 1,
      if child_is_leaf c then leaf_bitmap OR push_bit (unat n) 1 else leaf_bitmap))"

definition generate_bitmaps :: "internal_node \<Rightarrow> ('e, u16 \<times> u16) res" where
  "generate_bitmaps node =
    (let (existence_bitmap, leaf_bitmap) = foldl set_bits (0, 0) (map_entries (children node)) in rbind (assert_that (existence_bitmap OR leaf_bitmap = existence_bitmap)) (\<lambda>_. Ok (existence_bitmap, leaf_bitmap)))"

definition range_bitmaps :: "nat \<Rightarrow> nat \<Rightarrow> u16 \<times> u16 \<Rightarrow> ('e, u16 \<times> u16) res" where
  "range_bitmaps start width bitmaps =
     rbind (assert_that (start < 16 \<and> width \<in> {1, 2, 4, 8, 16, 32, 64, 128} \<and> start mod width = 0)) (\<lambda>_.
     rbind (assert_that (width \<le> 16 \<and> start + width \<le> 16)) (\<lambda>_.
     let m = ucast (push_bit start (push_bit width (1 :: 32 word) - 1)) in
     Ok (fst bitmaps AND m, snd bitmaps AND m)))"

function merkle_hash :: "hasher \<Rightarrow> internal_node \<Rightarrow> nat \<Rightarrow> nat \<Rightarrow> u16 \<times> u16 \<Rightarrow> ('e, hash) res" where
  "merkle_hash H node start width bitmaps =
     rbind (range_bitmaps start width bitmaps) (\<lambda>(range_existence_bitmap, range_leaf_bitmap).
     if range_existence_bitmap = 0 then Ok SPARSE_MERKLE_PLACEHOLDER_HASH
     else if width \<le> 1 \<or> count_ones range_existence_bitmap = 1 \<and> range_leaf_bitmap \<noteq> 0 then
       rbind (expect (children node (word_of_nat (trailing_zeros range_existence_bitmap)))) (\<lambda>only_child.
       Ok (child_hash only_child))
     else
       rbind (merkle_hash H node start (width div 2) (range_existence_bitmap, range_leaf_bitmap)) (\<lambda>left_child.
       rbind (merkle_hash H node (start + width div 2) (width div 2) (range_existence_bitmap, range_leaf_bitmap))
       (\<lambda>right_child. Ok (sparse_internal_hash H left_child right_child))))"
  by pat_completeness auto
termination
  by (relation "measure (\<lambda>(H, node, start, width, bitmaps). width)") auto

declare merkle_hash.simps [simp del]

definition internal_hash :: "hasher \<Rightarrow> internal_node \<Rightarrow> ('e, hash) res" where
  "internal_hash H node = rbind (generate_bitmaps node) (merkle_hash H node 0 16)"

fun node_hash :: "hasher \<Rightarrow> 'p node \<Rightarrow> ('e, hash) res" where
  "node_hash H (Internal n) = internal_hash H n"
| "node_hash H (Leaf l) = Ok (leaf_hash H l)"
| "node_hash H Null = Ok SPARSE_MERKLE_PLACEHOLDER_HASH"

subsection \<open>The bitmaps of a range of children\<close>

definition range_children :: "children \<Rightarrow> nat \<Rightarrow> nat \<Rightarrow> nat list" where
  "range_children cs start width = filter (\<lambda>i. cs (word_of_nat i) \<noteq> None) [start ..< start + width]"

definition is_bitmap :: "(nat \<Rightarrow> bool) \<Rightarrow> u16 \<Rightarrow> bool" where
  "is_bitmap P w \<longleftrightarrow> (\<forall>i. bit w i \<longleftrightarrow> i < 16 \<and> P i)"

abbreviation exists_at :: "children \<Rightarrow> nat \<Rightarrow> bool" where
  "exists_at cs i \<equiv> cs (word_of_nat i) \<noteq> None"

definition leaf_at :: "children \<Rightarrow> nat \<Rightarrow> bool" where
  "leaf_at cs i \<longleftrightarrow> (\<exists>c. cs (word_of_nat i) = Some c \<and> child_is_leaf c)"

text \<open>The hash of a range of \<open>2 ^ h\<close> children, without bitmaps.\<close>

fun range_hash :: "hasher \<Rightarrow> children \<Rightarrow> nat \<Rightarrow> nat \<Rightarrow> hash" where
  "range_hash H cs start 0 = (case cs (word_of_nat start) of
     None \<Rightarrow> SPARSE_MERKLE_PLACEHOLDER_HASH | Some c \<Rightarrow> child_hash c)"
| "range_hash H cs start (Suc h) =
    (let is = range_children cs start (2 ^ Suc h) in
     if is = [] then SPARSE_MERKLE_PLACEHOLDER_HASH
     else if length is = 1 \<and> leaf_at cs (hd is) then child_hash (the (cs (word_of_nat (hd is))))
     else H (range_hash H cs start h @ range_hash H cs (start + 2 ^ h) h))"

lemma unat_nibble_less [simp]: "unat (n::nibble) < 16"
  using unsigned_less [of n] by simp

lemma word_of_nat_nibble: "i < 16 \<Longrightarrow> unat (word_of_nat i :: nibble) = i"
  by (simp add: unsigned_of_nat take_bit_eq_mod)

lemma set_range_children: "i \<in> set (range_children cs s w) \<longleftrightarrow> s \<le> i \<and> i < s + w \<and> exists_at cs i"
  by (auto simp: range_children_def)

lemma bit_one_shifted: "bit (push_bit k 1 :: u16) i \<longleftrightarrow> i = k \<and> i < 16"
  using bit_imp_le_length [of "push_bit k 1 :: u16" i] by (auto simp: bit_push_bit_iff bit_1_iff simp del: push_bit_of_1)

lemma foldl_set_bits:
  "foldl set_bits (e, l) xs = (e', l') \<Longrightarrow>
     (bit e' i \<longleftrightarrow> bit e i \<or> (\<exists>n c. (n, c) \<in> set xs \<and> i = unat n)) \<and>
     (bit l' i \<longleftrightarrow> bit l i \<or> (\<exists>n c. (n, c) \<in> set xs \<and> child_is_leaf c \<and> i = unat n))"
proof (induction xs arbitrary: e l)
  case (Cons x xs)
  obtain n c where x: "x = (n, c)" by fastforce
  have "foldl set_bits (e OR push_bit (unat n) 1, if child_is_leaf c then l OR push_bit (unat n) 1 else l) xs = (e', l')"
    using Cons.prems by (simp add: x set_bits_def del: push_bit_of_1)
  from Cons.IH [OF this] show ?case unfolding x by (auto simp: bit_or_iff bit_one_shifted simp del: push_bit_of_1)
qed simp

lemma generate_bitmaps_spec:
  "\<exists>e l. (generate_bitmaps node :: ('e, u16 \<times> u16) res) = Ok (e, l) \<and>
     is_bitmap (exists_at (children node)) e \<and> is_bitmap (leaf_at (children node)) l"
proof -
  let ?cs = "children node"
  obtain e l where fold: "foldl set_bits (0, 0) (map_entries ?cs) = (e, l)" by fastforce
  have e: "bit e i \<longleftrightarrow> (\<exists>n c. ?cs n = Some c \<and> i = unat n)"
    and l: "bit l i \<longleftrightarrow> (\<exists>n c. ?cs n = Some c \<and> child_is_leaf c \<and> i = unat n)" for i
    using foldl_set_bits [OF fold, of i] by (simp_all add: set_map_entries)
  have at: "(\<exists>n c. ?cs n = Some c \<and> P c \<and> i = unat n) \<longleftrightarrow> i < 16 \<and> (\<exists>c. ?cs (word_of_nat i) = Some c \<and> P c)" for P i
    by (auto intro!: exI [of _ "word_of_nat i"] simp: word_of_nat_nibble)
  have "e OR l = e" by (rule bit_word_eqI) (auto simp: bit_or_iff e l)
  moreover have "is_bitmap (exists_at ?cs) e" "is_bitmap (leaf_at ?cs) l"
    using at [of "\<lambda>_. True"] at [of child_is_leaf] by (simp_all add: is_bitmap_def leaf_at_def e l)
  ultimately show ?thesis using fold by (simp add: generate_bitmaps_def)
qed

lemma bitmap_count: "is_bitmap P w \<Longrightarrow> filter (bit w) [0..<16] = filter P [0..<16]"
  by (rule filter_cong) (auto simp: is_bitmap_def)

lemma bitmap_zero: "is_bitmap P w \<Longrightarrow> w = 0 \<longleftrightarrow> filter P [0..<16] = []"
  by (auto simp: is_bitmap_def bit_eq_iff filter_empty_conv)

lemma first_of_filter:
  assumes "filter P [0..<n] = i # is"
  shows "length (takeWhile (\<lambda>i. \<not> P i) [0..<n]) = i"
proof -
  obtain us vs where us: "[0..<n] = us @ i # vs" "\<forall>u \<in> set us. \<not> P u" "P i"
    using assms by (auto simp: filter_eq_Cons_iff)
  then have "length us < n" by (metis length_append length_Cons length_upt diff_zero add_Suc_right less_add_Suc1)
  then have "i = length us" using us(1) by (metis nth_append_length nth_upt plus_nat.add_0)
  then show ?thesis unfolding us(1) using us(2,3) by simp
qed

lemma bitmap_trailing: "is_bitmap P w \<Longrightarrow> filter P [0..<16] = i # is \<Longrightarrow> trailing_zeros w = i"
  using first_of_filter [of "bit w" 16 i "is"] bitmap_count [of P w] by (simp add: trailing_zeros_def)

lemma filter_range: "s + w \<le> n \<Longrightarrow> filter (\<lambda>i. (s \<le> i \<and> i < s + w) \<and> P i) [0..<n] = filter P [s..<s + w]"
proof -
  assume "s + w \<le> n"
  then obtain k where n: "n = s + w + k" using le_Suc_ex by blast
  have "[0..<n] = [0..<s] @ [s..<s + w] @ [s + w..<n]"
    unfolding n using upt_add_eq_append [of 0 s "w + k"] upt_add_eq_append [of s "s + w" k] by (simp add: add.assoc)
  moreover have "filter (\<lambda>i. (s \<le> i \<and> i < s + w) \<and> P i) [s..<s + w] = filter P [s..<s + w]"
    by (rule filter_cong) auto
  ultimately show ?thesis by simp
qed

lemma range_bitmaps_spec:
  assumes "h \<le> 4" "s + 2 ^ h \<le> 16" "2 ^ h dvd s" and e: "is_bitmap P e" and l: "is_bitmap Q l"
  shows "\<exists>e' l'. (range_bitmaps s (2 ^ h) (e, l) :: ('e, u16 \<times> u16) res) = Ok (e', l') \<and>
    is_bitmap (\<lambda>i. (s \<le> i \<and> i < s + 2 ^ h) \<and> P i) e' \<and> is_bitmap (\<lambda>i. (s \<le> i \<and> i < s + 2 ^ h) \<and> Q i) l'"
proof -
  define m :: u16 where "m = ucast (push_bit s (push_bit (2 ^ h) (1 :: 32 word) - 1))"
  have "push_bit (2 ^ h) (1 :: 32 word) - 1 = mask (2 ^ h)" by (simp add: mask_eq_exp_minus_1)
  then have "m = ucast (push_bit s (mask (2 ^ h) :: 32 word))" by (simp add: m_def del: push_bit_of_1)
  then have m: "bit m i \<longleftrightarrow> s \<le> i \<and> i < s + 2 ^ h" for i
    using assms(2) by (auto simp: bit_ucast_iff bit_push_bit_iff bit_mask_iff)
  have "0 < (2::nat) ^ h" by simp
  then have s: "s < 16" using assms(2) by linarith
  have "h \<in> {0, 1, 2, 3, 4}" using assms(1) by auto
  then have width: "(2::nat) ^ h \<in> {1, 2, 4, 8, 16, 32, 64, 128}" "(2::nat) ^ h \<le> 16" by auto
  have dv: "s mod 2 ^ h = 0" using assms(3) by presburger
  have "is_bitmap (\<lambda>i. (s \<le> i \<and> i < s + 2 ^ h) \<and> P i) (e AND m)" "is_bitmap (\<lambda>i. (s \<le> i \<and> i < s + 2 ^ h) \<and> Q i) (l AND m)"
    using e l by (auto simp: is_bitmap_def bit_and_iff m)
  then show ?thesis
    unfolding range_bitmaps_def Let_def m_def [symmetric] using s width dv assms(2) by (simp del: insert_iff)
qed

lemma singleton_leaf:
  assumes "range_children cs s w = [i]"
  shows "filter (leaf_at cs) [s..<s + w] \<noteq> [] \<longleftrightarrow> leaf_at cs i"
proof -
  have only: "s \<le> j \<and> j < s + w \<and> exists_at cs j \<longleftrightarrow> j = i" for j
    using set_range_children [of j cs s w] assms by simp
  have "filter (leaf_at cs) [s..<s + w] \<noteq> [] \<longleftrightarrow> (\<exists>j. s \<le> j \<and> j < s + w \<and> leaf_at cs j)"
    by (auto simp: filter_empty_conv)
  also have "\<dots> \<longleftrightarrow> leaf_at cs i"
  proof
    assume "\<exists>j. s \<le> j \<and> j < s + w \<and> leaf_at cs j"
    then obtain j where j: "s \<le> j \<and> j < s + w" "leaf_at cs j" by blast
    then have "exists_at cs j" by (auto simp: leaf_at_def)
    then have "j = i" using only [of j] j(1) by simp
    then show "leaf_at cs i" using j(2) by simp
  next
    assume "leaf_at cs i"
    then show "\<exists>j. s \<le> j \<and> j < s + w \<and> leaf_at cs j" using only [of i] by blast
  qed
  finally show ?thesis .
qed

lemma merkle_hash_eq:
  assumes "h \<le> 4" "s + 2 ^ h \<le> 16" "2 ^ h dvd s" and e: "is_bitmap P e" and l: "is_bitmap Q l"
    and P: "\<And>i. s \<le> i \<Longrightarrow> i < s + 2 ^ h \<Longrightarrow> P i = exists_at (children node) i"
    and Q: "\<And>i. s \<le> i \<Longrightarrow> i < s + 2 ^ h \<Longrightarrow> Q i = leaf_at (children node) i"
  shows "(merkle_hash H node s (2 ^ h) (e, l) :: ('e, hash) res) = Ok (range_hash H (children node) s h)"
  using assms
proof (induction h arbitrary: s e l P Q)
  case h: (0 s e l P Q)
  let ?cs = "children node"
  obtain e' l' where bm: "(range_bitmaps s (2 ^ 0) (e, l) :: ('e, _) res) = Ok (e', l')"
    and e': "is_bitmap (\<lambda>i. (s \<le> i \<and> i < s + 2 ^ 0) \<and> P i) e'"
    using range_bitmaps_spec [OF h(1-5)] by blast
  have "filter P [s..<s + 1] = filter (exists_at ?cs) [s..<s + 1]" using h(6) by simp
  then have fl: "filter (\<lambda>i. (s \<le> i \<and> i < s + 2 ^ 0) \<and> P i) [0..<16] = filter (exists_at ?cs) [s..<s + 1]"
    using filter_range [of s "2 ^ 0" 16 P] h(2) by simp
  show ?case
  proof (cases "?cs (word_of_nat s)")
    case None
    then have "e' = 0" using bitmap_zero [OF e'] fl by simp
    then show ?thesis using bm None by (simp add: merkle_hash.simps [of H node s])
  next
    case (Some c)
    then have "filter (\<lambda>i. (s \<le> i \<and> i < s + 2 ^ 0) \<and> P i) [0..<16] = [s]" using fl by simp
    then have "e' \<noteq> 0" "trailing_zeros e' = s" using bitmap_zero [OF e'] bitmap_trailing [OF e'] by simp_all
    then show ?thesis using bm Some by (simp add: merkle_hash.simps [of H node s])
  qed
next
  case (Suc h s e l P Q)
  let ?cs = "children node" and ?is = "range_children (children node) s (2 ^ Suc h)"
  let ?in = "\<lambda>i. s \<le> i \<and> i < s + 2 ^ Suc h"
  obtain e' l' where bm: "(range_bitmaps s (2 ^ Suc h) (e, l) :: ('e, _) res) = Ok (e', l')"
    and e': "is_bitmap (\<lambda>i. ?in i \<and> P i) e'" and l': "is_bitmap (\<lambda>i. ?in i \<and> Q i) l'"
    using range_bitmaps_spec [OF Suc.prems(1-5)] by blast
  have "filter P [s..<s + 2 ^ Suc h] = ?is"
    unfolding range_children_def by (rule filter_cong) (simp_all add: Suc.prems(6))
  then have fe: "filter (\<lambda>i. ?in i \<and> P i) [0..<16] = ?is" using filter_range [OF Suc.prems(2)] by simp
  have "filter Q [s..<s + 2 ^ Suc h] = filter (leaf_at ?cs) [s..<s + 2 ^ Suc h]"
    by (rule filter_cong) (simp_all add: Suc.prems(7))
  then have fl: "filter (\<lambda>i. ?in i \<and> Q i) [0..<16] = filter (leaf_at ?cs) [s..<s + 2 ^ Suc h]"
    using filter_range [OF Suc.prems(2)] by simp
  have zero: "e' = 0 \<longleftrightarrow> ?is = []" and lzero: "l' = 0 \<longleftrightarrow> filter (leaf_at ?cs) [s..<s + 2 ^ Suc h] = []"
    unfolding bitmap_zero [OF e'] bitmap_zero [OF l'] fe fl by (rule refl)+
  have count: "count_ones e' = length ?is" unfolding count_ones_def bitmap_count [OF e'] fe ..
  have first: "trailing_zeros e' = i" if "?is = i # js" for i js using bitmap_trailing [OF e', unfolded fe, OF that] .
  have one: "(count_ones e' = 1 \<and> l' \<noteq> 0) \<longleftrightarrow> length ?is = 1 \<and> leaf_at ?cs (hd ?is)"
    using singleton_leaf [of ?cs s "2 ^ Suc h"] by (auto simp: count lzero length_Suc_conv)
  have big: "\<not> (2::nat) ^ Suc h \<le> 1" using one_less_power [of "2::nat" "Suc h"] by simp
  have half: "(2::nat) ^ Suc h div 2 = 2 ^ h" by simp
  show ?case
  proof (cases "?is = [] \<or> length ?is = 1 \<and> leaf_at ?cs (hd ?is)")
    case True
    then show ?thesis
    proof
      assume "?is = []"
      then show ?thesis using bm zero by (simp add: merkle_hash.simps [of H node s] Let_def)
    next
      assume l: "length ?is = 1 \<and> leaf_at ?cs (hd ?is)"
      then obtain i c where i: "?is = [i]" "?cs (word_of_nat i) = Some c" by (auto simp: length_Suc_conv leaf_at_def)
      then have "count_ones e' = 1 \<and> l' \<noteq> 0" "e' \<noteq> 0" "trailing_zeros e' = i" using one l zero first by simp_all
      then show ?thesis using bm i l by (simp add: merkle_hash.simps [of H node s] Let_def)
    qed
  next
    case False
    have dv: "2 ^ h dvd s" "2 ^ h dvd s + 2 ^ h" using Suc.prems(3) by (auto elim: dvd_trans [rotated])
    have "(merkle_hash H node s (2 ^ h) (e', l') :: ('e, hash) res) = Ok (range_hash H ?cs s h)"
      using Suc.prems dv by (intro Suc.IH [OF _ _ _ e' l']) auto
    moreover have "(merkle_hash H node (s + 2 ^ h) (2 ^ h) (e', l') :: ('e, hash) res) = Ok (range_hash H ?cs (s + 2 ^ h) h)"
      using Suc.prems dv by (intro Suc.IH [OF _ _ _ e' l']) auto
    moreover have "e' \<noteq> 0" "\<not> (2 ^ Suc h \<le> (1::nat) \<or> count_ones e' = 1 \<and> l' \<noteq> 0)" using False zero one big by simp_all
    ultimately show ?thesis
      using bm False half by (simp add: merkle_hash.simps [of H node s "2 ^ Suc h"] sparse_internal_hash_def Let_def del: power_Suc) auto
  qed
qed

theorem internal_hash_eq: "(internal_hash H node :: ('e, hash) res) = Ok (range_hash H (children node) 0 4)"
proof -
  obtain e l where "(generate_bitmaps node :: ('e, u16 \<times> u16) res) = Ok (e, l)"
    "is_bitmap (exists_at (children node)) e" "is_bitmap (leaf_at (children node)) l"
    using generate_bitmaps_spec by blast
  then show ?thesis
    using merkle_hash_eq [of 4 0 "exists_at (children node)" e "leaf_at (children node)" l node H] by (simp add: internal_hash_def)
qed

end
