(* ===== verification/Merkle_Tree.thy ===== *)
theory Merkle_Tree
  imports Merkle_Nodes
begin

text \<open>
  The operations of \<^verbatim>\<open>JellyfishMerkleTree\<close> in \<^verbatim>\<open>state_tree/jellyfish.rs\<close>: batch updates, reads with
  proofs, and the enumeration of nodes. A batch update reads the nodes of an older version from
  the store and collects new and stale nodes in a batch, the state of the methods here. The
  recursion follows the levels of the tree; the number of levels passed in is one more than the
  nibbles of the longest key, and reading a nibble past a key panics.
\<close>


section \<open>Batches\<close>

datatype storage_error =
    NotFound tree_node_key
  | InconsistentState
  | UnexpectedIoError string

record stale_node_index =
  stale_since_version :: version
  stale_node_key :: tree_node_key

text \<open>The two vectors of vectors of the code have one inner vector each.\<close>

record 'p tree_update_batch =
  node_batch :: "(tree_node_key \<times> 'p node) list"
  stale_node_index_batch :: "stale_node_index list"
  num_new_leaves :: nat
  num_stale_leaves :: nat

definition TreeUpdateBatch_new :: "'p tree_update_batch" where
  "TreeUpdateBatch_new = \<lparr>node_batch = [], stale_node_index_batch = [], num_new_leaves = 0, num_stale_leaves = 0\<rparr>"

type_synonym ('p, 'a) batch_fn = "('p tree_update_batch, storage_error, 'a) mut_fn"

definition put_node :: "tree_node_key \<Rightarrow> 'p node \<Rightarrow> ('p, unit) batch_fn" where
  "put_node key node = mmodify (\<lambda>b. b\<lparr>
     num_new_leaves := num_new_leaves b + (if is_leaf node then 1 else 0),
     node_batch := node_batch b @ [(key, node)]\<rparr>)"

definition put_stale_node :: "tree_node_key \<Rightarrow> version \<Rightarrow> 'p node \<Rightarrow> ('p, unit) batch_fn" where
  "put_stale_node key v node = mmodify (\<lambda>b. b\<lparr>
     num_stale_leaves := num_stale_leaves b + (if is_leaf node then 1 else 0),
     stale_node_index_batch := stale_node_index_batch b @ [\<lparr>stale_since_version = v, stale_node_key = key\<rparr>]\<rparr>)"

text \<open>The store that a tree reads from, \<^verbatim>\<open>TreeReader\<close>.\<close>

type_synonym 'p reader = "tree_node_key \<rightharpoonup> 'p node"

definition get_node :: "'p reader \<Rightarrow> tree_node_key \<Rightarrow> (storage_error, 'p node) res" where
  "get_node reader key = ok_or (reader key) (NotFound key)"

text \<open>Going through a list and collecting the results.\<close>

primrec mmap :: "('a \<Rightarrow> ('s, 'e, 'b) mut_fn) \<Rightarrow> 'a list \<Rightarrow> ('s, 'e, 'b list) mut_fn" where
  "mmap f [] = mreturn []"
| "mmap f (x # xs) = mbind (f x) (\<lambda>y. mbind (mmap f xs) (\<lambda>ys. mreturn (y # ys)))"


section \<open>Ranges of equal nibbles\<close>

text \<open>
  \<^verbatim>\<open>NibbleRangeIterator\<close> splits sorted entries with a common prefix by their next nibble; the end of a
  range is found by binary search.
\<close>

type_synonym 'p kvs = "(leaf_key \<times> (hash \<times> 'p) option) list"

function last_of_nibble :: "'p kvs \<Rightarrow> nat \<Rightarrow> nibble \<Rightarrow> nat \<Rightarrow> nat \<Rightarrow> ('e, nat) res" where
  "last_of_nibble kvs nibble_idx cur_nibble i j =
    (if i < j then
       let mid = j - (j - i) div 2 in
       rbind (key_get_nibble (fst (kvs ! mid)) nibble_idx) (\<lambda>n.
       if n > cur_nibble then last_of_nibble kvs nibble_idx cur_nibble i (mid - 1)
       else last_of_nibble kvs nibble_idx cur_nibble mid j)
     else Ok i)"
  by pat_completeness auto
termination
  by (relation "measure (\<lambda>(kvs, d, n, i, j). j - i)") auto

declare last_of_nibble.simps [simp del]

definition range_next :: "'p kvs \<Rightarrow> nat \<Rightarrow> nat \<Rightarrow> ('e, nat \<times> nat) res" where
  "range_next kvs nibble_idx left =
     rbind (key_get_nibble (fst (kvs ! left)) nibble_idx) (\<lambda>cur_nibble.
     rbind (last_of_nibble kvs nibble_idx cur_nibble left (length kvs - 1)) (\<lambda>i. Ok (left, i)))"

text \<open>All ranges from a position on; the end of a range is not before its start.\<close>

function nibble_ranges :: "'p kvs \<Rightarrow> nat \<Rightarrow> nat \<Rightarrow> ('e, (nat \<times> nat) list) res" where
  "nibble_ranges kvs nibble_idx pos =
    (if pos < length kvs then
       rbind (range_next kvs nibble_idx pos) (\<lambda>(left, right).
       rbind (nibble_ranges kvs nibble_idx (max pos right + 1)) (\<lambda>rs. Ok ((left, right) # rs)))
     else Ok [])"
  by pat_completeness auto
termination
  by (relation "measure (\<lambda>(kvs, d, pos). length kvs - pos)") auto

declare nibble_ranges.simps [simp del]

definition kvs_slice :: "'p kvs \<Rightarrow> nat \<Rightarrow> nat \<Rightarrow> 'p kvs" where
  "kvs_slice kvs left right = take (right + 1 - left) (drop left kvs)"


section \<open>Batch updates\<close>

type_synonym hash_cache = "(nibble_path \<rightharpoonup> hash) option"

definition get_hash :: "hasher \<Rightarrow> tree_node_key \<Rightarrow> 'p node \<Rightarrow> hash_cache \<Rightarrow> ('e, hash) res" where
  "get_hash H key node cache = (case cache of
     Some c \<Rightarrow> expect (c (nibble_path key))
   | None \<Rightarrow> node_hash H node)"

text \<open>
  Putting new child nodes under their parent's key, with what the parent remembers of them; and
  the end shared by the two functions that build a subtree: no node, a single leaf moved up, or a
  new internal node.
\<close>

definition put_children :: "hasher \<Rightarrow> tree_node_key \<Rightarrow> version \<Rightarrow> hash_cache \<Rightarrow> (nibble \<times> 'p node) list \<Rightarrow>
    ('p, (nibble \<times> child) list) batch_fn" where
  "put_children H key version cache = mmap (\<lambda>(child_index, new_child_node).
     let new_child_node_key = gen_child_node_key key version child_index in
     mbind (mlift (\<lambda>_. get_hash H new_child_node_key new_child_node cache)) (\<lambda>h.
     mseq (put_node new_child_node_key new_child_node)
     (mreturn (child_index, \<lparr>child_hash = h, child_version = version, child_node_type = node_type new_child_node\<rparr>))))"

definition assemble :: "hasher \<Rightarrow> tree_node_key \<Rightarrow> version \<Rightarrow> hash_cache \<Rightarrow> (nibble \<times> 'p node) list \<Rightarrow>
    ('p, 'p node option) batch_fn" where
  "assemble H key version cache new_children =
    (case new_children of
       [] \<Rightarrow> mreturn None
     | (_, child) # rest \<Rightarrow>
         if rest = [] \<and> is_leaf child then mreturn (Some child)
         else
           mbind (put_children H key version cache new_children) (\<lambda>cs.
           mbind (mlift (\<lambda>_. InternalNode_new (map_of (rev cs)))) (\<lambda>n.
           mreturn (Some (Internal n)))))"

definition some_children :: "(nibble \<times> 'p node option) list \<Rightarrow> (nibble \<times> 'p node) list" where
  "some_children rs = concat (map (\<lambda>(n, r). case r of None \<Rightarrow> [] | Some c \<Rightarrow> [(n, c)]) rs)"

definition new_leaf_of :: "leaf_key \<times> (hash \<times> 'p) option \<Rightarrow> version \<Rightarrow> 'p node option" where
  "new_leaf_of kv version = (case kv of
     (key, Some (h, p)) \<Rightarrow> Some (new_leaf key h p version)
   | (key, None) \<Rightarrow> None)"

primrec batch_update_subtree :: "hasher \<Rightarrow> nat \<Rightarrow> tree_node_key \<Rightarrow> version \<Rightarrow> 'p kvs \<Rightarrow> nat \<Rightarrow> hash_cache \<Rightarrow>
    ('p, 'p node option) batch_fn" where
  "batch_update_subtree H 0 key version kvs depth cache = mlift (\<lambda>_. Panics)"
| "batch_update_subtree H (Suc levels) key version kvs depth cache =
    (if length kvs = 1 then mreturn (new_leaf_of (hd kvs) version)
     else
       mbind (mlift (\<lambda>_. nibble_ranges kvs depth 0)) (\<lambda>ranges.
       mbind (mmap (\<lambda>(left, right).
           mbind (mlift (\<lambda>_. key_get_nibble (fst (kvs ! left)) depth)) (\<lambda>child_index.
           mbind (batch_update_subtree H levels (gen_child_node_key key version child_index) version
               (kvs_slice kvs left right) (depth + 1) cache) (\<lambda>r.
           mreturn (child_index, r)))) ranges) (\<lambda>results.
       assemble H key version cache (some_children results))))"

primrec batch_update_subtree_with_existing_leaf ::
    "hasher \<Rightarrow> nat \<Rightarrow> tree_node_key \<Rightarrow> version \<Rightarrow> 'p leaf_node \<Rightarrow> 'p kvs \<Rightarrow> nat \<Rightarrow> hash_cache \<Rightarrow>
    ('p, 'p node option) batch_fn" where
  "batch_update_subtree_with_existing_leaf H 0 key version leaf kvs depth cache = mlift (\<lambda>_. Panics)"
| "batch_update_subtree_with_existing_leaf H (Suc levels) key version leaf kvs depth cache =
    (if length kvs = 1 \<and> fst (hd kvs) = leaf_key leaf then mreturn (new_leaf_of (hd kvs) version)
     else
       mbind (mlift (\<lambda>_. key_get_nibble (leaf_key leaf) depth)) (\<lambda>existing_leaf_bucket.
       mbind (mlift (\<lambda>_. nibble_ranges kvs depth 0)) (\<lambda>ranges.
       mbind (mmap (\<lambda>(left, right).
           mbind (mlift (\<lambda>_. key_get_nibble (fst (kvs ! left)) depth)) (\<lambda>child_index.
           mbind (if existing_leaf_bucket = child_index
                  then batch_update_subtree_with_existing_leaf H levels (gen_child_node_key key version child_index)
                         version leaf (kvs_slice kvs left right) (depth + 1) cache
                  else batch_update_subtree H levels (gen_child_node_key key version child_index)
                         version (kvs_slice kvs left right) (depth + 1) cache) (\<lambda>r.
           mreturn (child_index, r)))) ranges) (\<lambda>results.
       let isolated_existing_leaf = existing_leaf_bucket \<notin> fst ` set results;
           new_children = some_children results @ (if isolated_existing_leaf then [(existing_leaf_bucket, Leaf leaf)] else []) in
       assemble H key version cache new_children))))"

text \<open>
  \<^verbatim>\<open>insert_at_child\<close> updates the part of the entries that belongs to one child; it takes the
  recursive call for the child as an argument.
\<close>

definition insert_at_child ::
    "(tree_node_key \<Rightarrow> 'p kvs \<Rightarrow> nat \<Rightarrow> ('p, 'p node option) batch_fn) \<Rightarrow> hasher \<Rightarrow> nat \<Rightarrow> tree_node_key \<Rightarrow>
     internal_node \<Rightarrow> version \<Rightarrow> 'p kvs \<Rightarrow> nat \<Rightarrow> nat \<Rightarrow> nat \<Rightarrow> hash_cache \<Rightarrow> ('p, nibble \<times> 'p node option) batch_fn" where
  "insert_at_child insert_at H levels key node version kvs left right depth cache =
     mbind (mlift (\<lambda>_. key_get_nibble (fst (kvs ! left)) depth)) (\<lambda>child_index.
     mbind (case children node child_index of
              Some child \<Rightarrow> insert_at (gen_child_node_key key (child_version child) child_index)
                              (kvs_slice kvs left right) (depth + 1)
            | None \<Rightarrow> batch_update_subtree H levels (gen_child_node_key key version child_index) version
                        (kvs_slice kvs left right) (depth + 1) cache) (\<lambda>r.
     mreturn (child_index, r)))"

text \<open>
  The second half of \<^verbatim>\<open>batch_insert_at\<close> for an internal node: the new children replace old ones, and the
  node disappears or gives way to its only leaf if no more is left.
\<close>

definition build_internal :: "hasher \<Rightarrow> tree_node_key \<Rightarrow> version \<Rightarrow> hash_cache \<Rightarrow> children \<Rightarrow> (nibble \<times> 'p node) list \<Rightarrow>
    ('p, 'p node option) batch_fn" where
  "build_internal H key version cache old_children created =
     mbind (put_children H key version cache created) (\<lambda>cs.
     mbind (mlift (\<lambda>_. InternalNode_new (old_children ++ map_of (rev cs)))) (\<lambda>n. mreturn (Some (Internal n))))"

definition merge_children :: "hasher \<Rightarrow> 'p reader \<Rightarrow> tree_node_key \<Rightarrow> version \<Rightarrow> hash_cache \<Rightarrow> children \<Rightarrow>
    (nibble \<times> 'p node) list \<Rightarrow> ('p, 'p node option) batch_fn" where
  "merge_children H reader key version cache old_children created =
     (let old = map_entries old_children;
          build = build_internal H key version cache old_children created
      in if old = [] \<and> created = [] then mreturn None
         else if length old \<le> 1 \<and> length created \<le> 1 then
           (case created of
              (new_nibble, new_child) # _ \<Rightarrow>
                (case old of
                   (old_nibble, _) # _ \<Rightarrow>
                     if old_nibble = new_nibble \<and> is_leaf new_child then mreturn (Some new_child) else build
                 | [] \<Rightarrow> if is_leaf new_child then mreturn (Some new_child) else build)
            | [] \<Rightarrow>
                (case old of
                   (old_child_nibble, old_child) # _ \<Rightarrow>
                     if child_is_leaf old_child then
                       let old_child_node_key = gen_child_node_key key (child_version old_child) old_child_nibble in
                       mbind (mlift (\<lambda>_. get_node reader old_child_node_key)) (\<lambda>old_child_node.
                       mseq (put_stale_node old_child_node_key version old_child_node)
                       (mreturn (Some old_child_node)))
                     else build
                 | [] \<Rightarrow> mlift (\<lambda>_. Panics)))
         else build)"

primrec batch_insert_at :: "hasher \<Rightarrow> 'p reader \<Rightarrow> nat \<Rightarrow> version \<Rightarrow> hash_cache \<Rightarrow> tree_node_key \<Rightarrow> 'p kvs \<Rightarrow> nat \<Rightarrow>
    ('p, 'p node option) batch_fn" where
  "batch_insert_at H reader 0 version cache key kvs depth = mlift (\<lambda>_. Panics)"
| "batch_insert_at H reader (Suc levels) version cache key kvs depth =
     mbind (mlift (\<lambda>_. get_node reader key)) (\<lambda>node.
     mseq (put_stale_node key version node)
     (case node of
        Internal internal_node \<Rightarrow>
          mbind (mlift (\<lambda>_. nibble_ranges kvs depth 0)) (\<lambda>ranges.
          mbind (mmap (\<lambda>(left, right). insert_at_child (batch_insert_at H reader levels version cache) H levels key
                         internal_node version kvs left right depth cache) ranges) (\<lambda>new_children.
          let removed = fst ` {x \<in> set new_children. snd x = None};
              old_children = (\<lambda>n. if n \<in> removed then None else children internal_node n)
          in merge_children H reader key version cache old_children (some_children new_children)))
      | Leaf leaf \<Rightarrow> batch_update_subtree_with_existing_leaf H (Suc levels) key version leaf kvs depth cache
      | Null \<Rightarrow>
          mseq (mlift (\<lambda>_. assert_that (depth = 0)))
          (batch_update_subtree H (Suc levels) key version kvs 0 cache)))"

definition levels_for :: "'p kvs \<Rightarrow> nat" where
  "levels_for kvs = 2 * foldr max (map (length \<circ> fst) kvs) 0 + 2"

definition batch_put_value_set :: "hasher \<Rightarrow> 'p reader \<Rightarrow> 'p kvs \<Rightarrow> hash_cache \<Rightarrow> version option \<Rightarrow> version \<Rightarrow>
    (storage_error, hash \<times> 'p tree_update_batch) res" where
  "batch_put_value_set H reader value_set node_hashes persisted_version version =
     (case mbind (case persisted_version of
               Some persisted_version \<Rightarrow>
                 batch_insert_at H reader (levels_for value_set) version node_hashes (new_empty_path persisted_version) value_set 0
             | None \<Rightarrow>
                 batch_update_subtree H (levels_for value_set) (new_empty_path version) version value_set 0 node_hashes)
           (\<lambda>root_node_opt. case root_node_opt of
               Some root_node \<Rightarrow>
                 mbind (mlift (\<lambda>_. node_hash H root_node)) (\<lambda>h.
                 mseq (put_node (new_empty_path version) root_node) (mreturn h))
             | None \<Rightarrow> mseq (put_node (new_empty_path version) Null) (mreturn SPARSE_MERKLE_PLACEHOLDER_HASH))
           TreeUpdateBatch_new of
        (batch, r) \<Rightarrow> rbind r (\<lambda>root_hash. Ok (root_hash, batch)))"

section \<open>Reads with proofs\<close>

datatype node_in_proof = ProofLeaf sparse_merkle_leaf_node | ProofOther hash

definition node_in_proof_hash :: "hasher \<Rightarrow> node_in_proof \<Rightarrow> hash" where
  "node_in_proof_hash H n = (case n of ProofLeaf l \<Rightarrow> sparse_leaf_hash H l | ProofOther h \<Rightarrow> h)"

record sparse_merkle_ext_proof =
  ext_leaf :: "sparse_merkle_leaf_node option"
  ext_siblings :: "node_in_proof list"

record sparse_merkle_proof =
  proof_leaf :: "sparse_merkle_leaf_node option"
  proof_siblings :: "hash list"

definition proof_from_ext :: "hasher \<Rightarrow> sparse_merkle_ext_proof \<Rightarrow> sparse_merkle_proof" where
  "proof_from_ext H p = \<lparr>proof_leaf = ext_leaf p, proof_siblings = map (node_in_proof_hash H) (ext_siblings p)\<rparr>"

definition sparse_leaf_of :: "'p leaf_node \<Rightarrow> sparse_merkle_leaf_node" where
  "sparse_leaf_of l = \<lparr>sml_key = leaf_key l, sml_value_hash = value_hash l\<rparr>"

definition gen_node_in_proof :: "hasher \<Rightarrow> 'p reader \<Rightarrow> tree_node_key \<Rightarrow> internal_node \<Rightarrow> nat \<Rightarrow> nat \<Rightarrow> u16 \<times> u16 \<Rightarrow>
    (storage_error, node_in_proof) res" where
  "gen_node_in_proof H reader key node start width bitmaps =
     rbind (range_bitmaps start width bitmaps) (\<lambda>(range_existence_bitmap, range_leaf_bitmap).
     if range_existence_bitmap = 0 then Ok (ProofOther SPARSE_MERKLE_PLACEHOLDER_HASH)
     else if width = 1 \<or> count_ones range_existence_bitmap = 1 \<and> range_leaf_bitmap \<noteq> 0 then
       (let only_child_index = word_of_nat (trailing_zeros range_existence_bitmap) in
        rbind (expect (children node only_child_index)) (\<lambda>only_child.
        if child_node_type only_child = LeafType then
          rbind (get_node reader (gen_child_node_key key (child_version only_child) only_child_index)) (\<lambda>n.
          case n of
            Internal _ \<Rightarrow> Panics
          | Leaf leaf_node \<Rightarrow> Ok (ProofLeaf (sparse_leaf_of leaf_node))
          | Null \<Rightarrow> Panics)
        else Ok (ProofOther (child_hash only_child))))
     else
       rbind (merkle_hash H node start (width div 2) (range_existence_bitmap, range_leaf_bitmap)) (\<lambda>left_child.
       rbind (merkle_hash H node (start + width div 2) (width div 2) (range_existence_bitmap, range_leaf_bitmap))
       (\<lambda>right_child. Ok (ProofOther (sparse_internal_hash H left_child right_child)))))"

definition get_child_and_sibling_half_start :: "nibble \<Rightarrow> nat \<Rightarrow> nat \<times> nat" where
  "get_child_and_sibling_half_start n height =
    (let child_half_start = push_bit height 0xFF AND (ucast n :: byte);
         sibling_half_start = child_half_start XOR push_bit height 1
     in (unat child_half_start, unat sibling_half_start))"

text \<open>
  The loop of \<^verbatim>\<open>get_child_with_siblings\<close> over the heights from 3 to 0. The argument is the height
  plus one; at 0 the code is unreachable.
\<close>

primrec child_with_siblings_loop :: "hasher \<Rightarrow> 'p reader option \<Rightarrow> tree_node_key \<Rightarrow> internal_node \<Rightarrow> nibble \<Rightarrow> u16 \<times> u16 \<Rightarrow>
    nat \<Rightarrow> node_in_proof list \<Rightarrow> (storage_error, tree_node_key option \<times> node_in_proof list) res" where
  "child_with_siblings_loop H reader key node n bitmaps 0 siblings = Panics"
| "child_with_siblings_loop H reader key node n bitmaps (Suc h) siblings =
    (let width = 2 ^ h;
         (child_half_start, sibling_half_start) = get_child_and_sibling_half_start n h in
     rbind (case reader of
              Some reader \<Rightarrow> gen_node_in_proof H reader key node sibling_half_start width bitmaps
            | None \<Rightarrow> rbind (merkle_hash H node sibling_half_start width bitmaps) (\<lambda>x. Ok (ProofOther x))) (\<lambda>sibling.
     let siblings = siblings @ [sibling] in
     rbind (range_bitmaps child_half_start width bitmaps) (\<lambda>(range_existence_bitmap, range_leaf_bitmap).
     if range_existence_bitmap = 0 then Ok (None, siblings)
     else if width = 1 \<or> count_ones range_existence_bitmap = 1 \<and> range_leaf_bitmap \<noteq> 0 then
       (let only_child_index = word_of_nat (trailing_zeros range_existence_bitmap) in
        rbind (expect (children node only_child_index)) (\<lambda>only_child.
        Ok (Some (gen_child_node_key key (child_version only_child) only_child_index), siblings)))
     else child_with_siblings_loop H reader key node n bitmaps h siblings)))"

definition get_child_with_siblings :: "hasher \<Rightarrow> 'p reader option \<Rightarrow> tree_node_key \<Rightarrow> internal_node \<Rightarrow> nibble \<Rightarrow>
    (storage_error, tree_node_key option \<times> node_in_proof list) res" where
  "get_child_with_siblings H reader key node n =
     rbind (generate_bitmaps node) (\<lambda>bitmaps. child_with_siblings_loop H reader key node n bitmaps 4 [])"

definition SANITY_NIBBLE_LIMIT :: nat where
  "SANITY_NIBBLE_LIMIT = 1000"

text \<open>The descent to a leaf; the nibble iterator of the code is the list of nibbles not yet read.\<close>

primrec get_with_proof_loop :: "hasher \<Rightarrow> 'p reader \<Rightarrow> leaf_key \<Rightarrow> nat \<Rightarrow> tree_node_key \<Rightarrow> nibble list \<Rightarrow> node_in_proof list \<Rightarrow>
    (storage_error, (hash \<times> 'p \<times> version) option \<times> sparse_merkle_ext_proof) res" where
  "get_with_proof_loop H reader key 0 next_node_key nibble_iter siblings = Error InconsistentState"
| "get_with_proof_loop H reader key (Suc limit) next_node_key nibble_iter siblings =
     rbind (get_node reader next_node_key) (\<lambda>next_node.
     case next_node of
       Internal internal_node \<Rightarrow>
         (case nibble_iter of
            [] \<Rightarrow> Error InconsistentState
          | queried_child_index # nibble_iter \<Rightarrow>
              rbind (get_child_with_siblings H (Some reader) next_node_key internal_node queried_child_index)
              (\<lambda>(child_node_key, siblings_in_internal).
              let siblings = siblings @ siblings_in_internal in
              (case child_node_key of
                 Some child_key \<Rightarrow> get_with_proof_loop H reader key limit child_key nibble_iter siblings
               | None \<Rightarrow> Ok (None, \<lparr>ext_leaf = None, ext_siblings = rev siblings\<rparr>))))
     | Leaf leaf_node \<Rightarrow>
         Ok (if leaf_key leaf_node = key
             then Some (value_hash leaf_node, payload leaf_node, leaf_version leaf_node) else None,
             \<lparr>ext_leaf = Some (sparse_leaf_of leaf_node), ext_siblings = rev siblings\<rparr>)
     | Null \<Rightarrow> Ok (None, \<lparr>ext_leaf = None, ext_siblings = []\<rparr>))"

definition get_with_proof_ext :: "hasher \<Rightarrow> 'p reader \<Rightarrow> leaf_key \<Rightarrow> version \<Rightarrow>
    (storage_error, (hash \<times> 'p \<times> version) option \<times> sparse_merkle_ext_proof) res" where
  "get_with_proof_ext H reader key version =
     get_with_proof_loop H reader key SANITY_NIBBLE_LIMIT (new_empty_path version) (nibbles (new_even key)) []"

definition get_with_proof :: "hasher \<Rightarrow> 'p reader \<Rightarrow> leaf_key \<Rightarrow> version \<Rightarrow>
    (storage_error, (hash \<times> 'p \<times> version) option \<times> sparse_merkle_proof) res" where
  "get_with_proof H reader key version =
     rbind (get_with_proof_ext H reader key version) (\<lambda>(v, proof_ext). Ok (v, proof_from_ext H proof_ext))"

definition get_root_hash :: "hasher \<Rightarrow> 'p reader \<Rightarrow> version \<Rightarrow> (storage_error, hash) res" where
  "get_root_hash H reader version = rbind (get_node reader (new_empty_path version)) (node_hash H)"

definition get_leaf_count :: "'p reader \<Rightarrow> version \<Rightarrow> (storage_error, nat) res" where
  "get_leaf_count reader version = rbind (get_node reader (new_empty_path version)) (\<lambda>n. Ok (node_leaves n))"

end
