(* ===== verification/Merkle_Spec.thy ===== *)
theory Merkle_Spec
  imports Merkle_Nodes "HOL-Library.Multiset"
begin

text \<open>
  The reference for the hashes of the state tree: the root of a binary sparse Merkle tree over a
  list of leaves, where a subtree with one leaf is that leaf and an empty one is the placeholder.
  It does not depend on the order of the leaves, and the hash of an internal node with its sixteen
  children is the root over the leaves below it.
\<close>


section \<open>Sparse Merkle roots\<close>

text \<open>A leaf is given by the bits that remain of its key and by its hash.\<close>

type_synonym smt_leaf = "bool list \<times> hash"

definition half :: "bool \<Rightarrow> smt_leaf list \<Rightarrow> smt_leaf list" where
  "half b xs = map (\<lambda>(bs, h). (tl bs, h)) (filter (\<lambda>(bs, h). bs \<noteq> [] \<and> hd bs = b) xs)"

lemma half_simps [simp]:
  "half b [] = []"
  "half b ((c # bs, h) # xs) = (if c = b then (bs, h) # half b xs else half b xs)"
  "half b (([], h) # xs) = half b xs"
  "half b (xs @ ys) = half b xs @ half b ys"
  by (simp_all add: half_def)

definition weight :: "smt_leaf list \<Rightarrow> nat" where
  "weight xs = sum_list (map (\<lambda>(bs, h). Suc (length bs)) xs)"

lemma weight_simps [simp]: "weight [] = 0" "weight ((bs, h) # xs) = Suc (length bs) + weight xs"
  by (simp_all add: weight_def)

lemma half_weight: "weight (half b xs) + length xs \<le> weight xs"
proof (induction xs)
  case (Cons x xs)
  obtain bs h where "x = (bs, h)" by fastforce
  then show ?case using Cons.IH by (cases bs) auto
qed simp

lemma half_decreases: "weight (half b (x # xs)) < weight (x # xs)"
  using half_weight [of b "x # xs"] by (simp del: half_simps weight_simps)

function sparse_root :: "hasher \<Rightarrow> smt_leaf list \<Rightarrow> hash" where
  "sparse_root H [] = SPARSE_MERKLE_PLACEHOLDER_HASH"
| "sparse_root H [x] = snd x"
| "sparse_root H (x # y # zs) = H (sparse_root H (half False (x # y # zs)) @ sparse_root H (half True (x # y # zs)))"
  by pat_completeness auto
termination
  by (relation "measure (\<lambda>(H, xs). weight xs)") (simp_all add: half_decreases del: half_simps weight_simps)

lemma sparse_root_split:
  "2 \<le> length xs \<Longrightarrow> sparse_root H xs = H (sparse_root H (half False xs) @ sparse_root H (half True xs))"
  by (cases "(H, xs)" rule: sparse_root.cases) (auto simp del: half_simps)

lemma mset_half: "mset xs = mset ys \<Longrightarrow> mset (half b xs) = mset (half b ys)"
  by (simp add: half_def)

text \<open>The order of the leaves does not matter.\<close>

lemma sparse_root_perm: "mset xs = mset ys \<Longrightarrow> sparse_root H xs = sparse_root H ys"
proof (induction H xs arbitrary: ys rule: sparse_root.induct)
  case (3 H x y zs)
  have "2 \<le> length ys" using arg_cong [OF "3.prems", of size] by simp
  then show ?case
    using "3.IH" [OF mset_half [OF "3.prems"]] by (simp add: sparse_root_split del: half_simps)
qed simp_all


section \<open>The hash of an internal node\<close>

text \<open>
  \<open>below\<close> gives the leaves below each child, without the nibble that leads to it; \<open>range_leaves\<close>
  collects those of a range of children with what is left of their nibbles.
\<close>

definition range_leaves :: "(nibble \<Rightarrow> smt_leaf list) \<Rightarrow> nat \<Rightarrow> nat \<Rightarrow> smt_leaf list" where
  "range_leaves below s h = concat (map (\<lambda>i. map (\<lambda>(bs, x). (drop (4 - h) (nibble_bits (word_of_nat i)) @ bs, x))
     (below (word_of_nat i))) [s ..< s + 2 ^ h])"

definition hashes_below :: "hasher \<Rightarrow> children \<Rightarrow> (nibble \<Rightarrow> smt_leaf list) \<Rightarrow> bool" where
  "hashes_below H cs below \<longleftrightarrow> (\<forall>n. case cs n of
     None \<Rightarrow> below n = []
   | Some c \<Rightarrow> below n \<noteq> [] \<and> child_hash c = sparse_root H (below n) \<and> (child_is_leaf c \<longleftrightarrow> length (below n) = 1))"

lemma hashes_belowD:
  assumes "hashes_below H cs below"
  shows "cs n = None \<Longrightarrow> below n = []"
    and "cs n = Some c \<Longrightarrow> below n \<noteq> []"
    and "cs n = Some c \<Longrightarrow> child_hash c = sparse_root H (below n)"
    and "cs n = Some c \<Longrightarrow> child_is_leaf c \<longleftrightarrow> length (below n) = 1"
  using spec [OF assms [unfolded hashes_below_def], of n] by simp_all

lemma nibble_bits_drop: "h < 4 \<Longrightarrow> drop (3 - h) (nibble_bits n) = bit n h # drop (4 - h) (nibble_bits n)"
proof -
  assume "h < 4"
  then have "h \<in> {0, 1, 2, 3}" by auto
  then show ?thesis by (auto simp: nibble_bits_def)
qed

lemma bit_word_of_nat: "i < 16 \<Longrightarrow> h < 4 \<Longrightarrow> bit (word_of_nat i :: nibble) h \<longleftrightarrow> odd (i div 2 ^ h)"
  using bit_unsigned_iff [of "word_of_nat i :: nibble" h, where 'a = nat] word_of_nat_nibble [of i] by (simp add: bit_iff_odd)

lemma half_range_leaves:
  assumes "h < 4" "s + 2 ^ Suc h \<le> 16" "2 ^ Suc h dvd s"
  shows "half b (range_leaves below s (Suc h)) = range_leaves below (if b then s + 2 ^ h else s) h"
proof -
  obtain q where q: "s = 2 ^ Suc h * q" using assms(3) by (rule dvdE)
  let ?one = "\<lambda>h i. map (\<lambda>(bs, x). (drop (4 - h) (nibble_bits (word_of_nat i)) @ bs, x)) (below (word_of_nat i))"
  have bit: "bit (word_of_nat (s + 2 ^ h * k + r) :: nibble) h \<longleftrightarrow> odd k" if "r < 2 ^ h" "k < 2" for r k :: nat
  proof -
    have "s + 2 ^ h * k + r < s + 2 ^ Suc h"
      using that by (cases k) (auto simp: less_Suc_eq numeral_2_eq_2)
    then have "s + 2 ^ h * k + r < 16" using assms(2) by simp
    moreover have "(s + 2 ^ h * k + r) div 2 ^ h = 2 * q + k"
    proof -
      have "s + 2 ^ h * k + r = r + (2 * q + k) * 2 ^ h" by (simp add: q algebra_simps)
      then show ?thesis using that(1) by (simp only: div_mult_self1) simp
    qed
    ultimately show ?thesis using assms(1) by (simp add: bit_word_of_nat del: of_nat_add of_nat_mult of_nat_power)
  qed
  have one: "half b (?one (Suc h) i) = (if bit (word_of_nat i :: nibble) h = b then ?one h i else [])" for i
  proof -
    have "drop (4 - Suc h) (nibble_bits (word_of_nat i)) = bit (word_of_nat i :: nibble) h # drop (4 - h) (nibble_bits (word_of_nat i))"
      using nibble_bits_drop [OF assms(1), of "word_of_nat i"] by simp
    then have "half b (map (\<lambda>(bs, x). (drop (4 - Suc h) (nibble_bits (word_of_nat i)) @ bs, x)) xs) =
        (if bit (word_of_nat i :: nibble) h = b then map (\<lambda>(bs, x). (drop (4 - h) (nibble_bits (word_of_nat i)) @ bs, x)) xs else [])" for xs
      by (induction xs) auto
    then show ?thesis .
  qed
  have halves: "[s ..< s + 2 ^ Suc h] = [s ..< s + 2 ^ h] @ [s + 2 ^ h ..< s + 2 ^ h + 2 ^ h]"
    using upt_add_eq_append [of s "s + 2 ^ h" "2 ^ h"] by (simp add: mult_2 add.assoc)
  have low: "bit (word_of_nat i :: nibble) h = False" if "i \<in> set [s ..< s + 2 ^ h]" for i
  proof -
    have "i - s < 2 ^ h" "s + 2 ^ h * 0 + (i - s) = i" using that by auto
    then show ?thesis using bit [of "i - s" 0] by simp
  qed
  have high: "bit (word_of_nat i :: nibble) h = True" if "i \<in> set [s + 2 ^ h ..< s + 2 ^ h + 2 ^ h]" for i
  proof -
    have "i - (s + 2 ^ h) < 2 ^ h" "s + 2 ^ h * 1 + (i - (s + 2 ^ h)) = i" using that by auto
    then show ?thesis using bit [of "i - (s + 2 ^ h)" 1] by (metis odd_one one_less_numeral_iff semiring_norm(76))
  qed
  have conc: "half b (concat xss) = concat (map (half b) xss)" for xss by (induction xss) simp_all
  have l: "map (\<lambda>i. half b (?one (Suc h) i)) [s ..< s + 2 ^ h] = map (\<lambda>i. if b then [] else ?one h i) [s ..< s + 2 ^ h]"
    by (rule map_cong [OF refl]) (simp only: one low; simp)
  have r: "map (\<lambda>i. half b (?one (Suc h) i)) [s + 2 ^ h ..< s + 2 ^ h + 2 ^ h] =
      map (\<lambda>i. if b then ?one h i else []) [s + 2 ^ h ..< s + 2 ^ h + 2 ^ h]"
    by (rule map_cong [OF refl]) (simp only: one high; simp)
  have nil: "concat (map (\<lambda>_. []) xs) = []" for xs by (induction xs) simp_all
  show ?thesis
    unfolding range_leaves_def halves map_append concat_append half_simps(4) conc map_map o_def l r by (cases b) (simp_all add: nil)
qed

lemma range_leaves_length: "length (range_leaves below s h) = sum_list (map (\<lambda>i. length (below (word_of_nat i))) [s ..< s + 2 ^ h])"
  by (simp add: range_leaves_def length_concat o_def)

lemma range_leaves_only:
  assumes "hashes_below H cs below" and "range_children cs s (2 ^ h) = is"
  shows "range_leaves below s h = concat (map (\<lambda>i. map (\<lambda>(bs, x). (drop (4 - h) (nibble_bits (word_of_nat i)) @ bs, x))
     (below (word_of_nat i))) is)"
proof -
  have "below (word_of_nat i) = []" if "\<not> exists_at cs i" for i
    using hashes_belowD(1) [OF assms(1)] that by simp
  then have "concat (map (\<lambda>i. map (f i) (below (word_of_nat i))) js) =
      concat (map (\<lambda>i. map (f i) (below (word_of_nat i))) (filter (exists_at cs) js))" for js and f :: "nat \<Rightarrow> smt_leaf \<Rightarrow> smt_leaf"
    by (induction js) auto
  from this [of "\<lambda>i (bs, x). (drop (4 - h) (nibble_bits (word_of_nat i)) @ bs, x)"] show ?thesis
    unfolding range_leaves_def assms(2) [symmetric, unfolded range_children_def] .
qed

lemma range_hash_eq:
  assumes below: "hashes_below H cs below" and "h \<le> 4" "s + 2 ^ h \<le> 16" "2 ^ h dvd s"
  shows "range_hash H cs s h = sparse_root H (range_leaves below s h)"
  using assms(2-)
proof (induction h arbitrary: s)
  case 0
  have "drop 4 (nibble_bits n) = []" for n by (simp add: nibble_bits_def)
  then have "range_leaves below s 0 = below (word_of_nat s)" by (simp add: range_leaves_def)
  then show ?case using hashes_belowD [OF below, of "word_of_nat s"] by (simp split: option.split)
next
  case (Suc h)
  let ?is = "range_children cs s (2 ^ Suc h)" and ?f = "\<lambda>i. map (\<lambda>(bs, x). (drop (4 - Suc h) (nibble_bits (word_of_nat i)) @ bs, x)) (below (word_of_nat i))"
  have leaves: "range_leaves below s (Suc h) = concat (map ?f ?is)" by (rule range_leaves_only [OF below refl])
  have child: "\<exists>c. cs (word_of_nat i) = Some c" if "i \<in> set ?is" for i using that by (simp add: set_range_children)
  then have nonempty: "0 < length (?f i)" if "i \<in> set ?is" for i
    using hashes_belowD(2) [OF below] that by fastforce
  show ?case
  proof (cases "?is = [] \<or> length ?is = 1 \<and> leaf_at cs (hd ?is)")
    case True
    then show ?thesis
    proof
      assume "?is = []"
      then show ?thesis using leaves by (simp del: power_Suc)
    next
      assume one: "length ?is = 1 \<and> leaf_at cs (hd ?is)"
      then obtain i c where i: "?is = [i]" "cs (word_of_nat i) = Some c" "child_is_leaf c"
        by (auto simp: length_Suc_conv leaf_at_def)
      then obtain x where "below (word_of_nat i) = [x]"
        using hashes_belowD(4) [OF below i(2)] by (auto simp: length_Suc_conv)
      then show ?thesis using leaves i one hashes_belowD(3) [OF below i(2)]
        by (simp add: Let_def split_beta del: power_Suc)
    qed
  next
    case False
    have two: "2 \<le> length (range_leaves below s (Suc h))"
    proof (cases "length ?is = 1")
      case True
      then obtain i where i: "?is = [i]" by (auto simp: length_Suc_conv)
      then obtain c where c: "cs (word_of_nat i) = Some c" using child by auto
      then have "\<not> child_is_leaf c" using False True i by (auto simp: leaf_at_def)
      then have "length (below (word_of_nat i)) \<noteq> 1" "below (word_of_nat i) \<noteq> []"
        using hashes_belowD(2,4) [OF below c] by simp_all
      then have "2 \<le> length (below (word_of_nat i))" by (cases "below (word_of_nat i)" rule: remdups_adj.cases) auto
      then show ?thesis using leaves i by simp
    next
      case neq: False
      then obtain i j js where ij: "?is = i # j # js" using False by (cases ?is rule: remdups_adj.cases) auto
      then have "0 < length (?f i)" "0 < length (?f j)" using nonempty ij by simp_all
      then have "2 \<le> length (?f i) + length (?f j)" by linarith
      then show ?thesis unfolding leaves ij by simp
    qed
    have dv: "2 ^ h dvd s" "2 ^ h dvd s + 2 ^ h" using Suc.prems(3) by (auto elim: dvd_trans [rotated])
    have "range_hash H cs s h = sparse_root H (range_leaves below s h)"
      and "range_hash H cs (s + 2 ^ h) h = sparse_root H (range_leaves below (s + 2 ^ h) h)"
      using Suc.prems dv by (auto intro!: Suc.IH)
    moreover have "range_hash H cs s (Suc h) = H (range_hash H cs s h @ range_hash H cs (s + 2 ^ h) h)"
      using False by (simp add: Let_def del: power_Suc) auto
    ultimately show ?thesis
      using sparse_root_split [OF two, of H] half_range_leaves [of h s _ below] Suc.prems by simp
  qed
qed

text \<open>
  The hash of an internal node is the root over the leaves below its children, each with the four
  bits of its nibble in front.
\<close>

theorem internal_hash_is_root:
  assumes "hashes_below H (children node) below"
  shows "(internal_hash H node :: ('e, hash) res) =
    Ok (sparse_root H (concat (map (\<lambda>n. map (\<lambda>(bs, x). (nibble_bits n @ bs, x)) (below n)) all_nibbles)))"
proof -
  have "range_leaves below 0 4 = concat (map (\<lambda>n. map (\<lambda>(bs, x). (nibble_bits n @ bs, x)) (below n)) all_nibbles)"
    by (simp add: range_leaves_def all_nibbles_def o_def)
  then show ?thesis using range_hash_eq [OF assms, of 4 0] by (simp add: internal_hash_eq)
qed

end
