(* ===== verification/Merkle_Laws.thy ===== *)
theory Merkle_Laws
  imports Merkle_Tree Merkle_Spec
begin

text \<open>
  Correctness of the batch update: if the store holds a tree of some entries, then an update
  collects the nodes of a tree of the updated entries; the new nodes do not overwrite old ones,
  and the new tree does not use the nodes that are marked stale. The hash of a tree is the sparse
  Merkle root over its entries, whatever the updates that led to it.
\<close>


section \<open>Ranges of equal nibbles\<close>

text \<open>Entries whose keys have a nibble at a depth, sorted by it.\<close>

abbreviation nib :: "nat \<Rightarrow> leaf_key \<times> 'a \<Rightarrow> nibble" where
  "nib d kv \<equiv> key_nibbles (fst kv) ! d"

definition at_depth :: "nat \<Rightarrow> (leaf_key \<times> 'a) list \<Rightarrow> bool" where
  "at_depth d kvs \<longleftrightarrow> (\<forall>kv \<in> set kvs. d < length (key_nibbles (fst kv))) \<and> sorted (map (nib d) kvs)"

definition group_of :: "nat \<Rightarrow> (leaf_key \<times> 'a) list \<Rightarrow> nibble \<Rightarrow> (leaf_key \<times> 'a) list" where
  "group_of d kvs n = filter (\<lambda>kv. nib d kv = n) kvs"

definition groups :: "nat \<Rightarrow> (leaf_key \<times> 'a) list \<Rightarrow> (nibble \<times> (leaf_key \<times> 'a) list) list" where
  "groups d kvs = map (\<lambda>n. (n, group_of d kvs n)) (filter (\<lambda>n. n \<in> nib d ` set kvs) all_nibbles)"

lemma at_depth_nth:
  "at_depth d kvs \<Longrightarrow> i < length kvs \<Longrightarrow> (key_get_nibble (fst (kvs ! i)) d :: ('e, nibble) res) = Ok (nib d (kvs ! i))"
  by (auto simp: at_depth_def key_get_nibble_eq)

lemma at_depth_mono: "at_depth d kvs \<Longrightarrow> i \<le> j \<Longrightarrow> j < length kvs \<Longrightarrow> nib d (kvs ! i) \<le> nib d (kvs ! j)"
  using sorted_nth_mono [of "map (nib d) kvs" i j] by (simp add: at_depth_def)

lemma last_of_nibble_Ok:
  assumes "at_depth d kvs" "j < length kvs" "i \<le> j" "nib d (kvs ! i) = cur"
  shows "\<exists>k. (last_of_nibble kvs d cur i j :: ('e, nat) res) = Ok k \<and> i \<le> k \<and> k \<le> j \<and> nib d (kvs ! k) = cur \<and>
    (\<forall>m. k < m \<longrightarrow> m \<le> j \<longrightarrow> cur < nib d (kvs ! m))"
  using assms
proof (induction "j - i" arbitrary: i j rule: less_induct)
  case less
  show ?case
  proof (cases "i < j")
    case False
    then show ?thesis using less.prems by (subst last_of_nibble.simps) (auto intro!: exI [of _ i])
  next
    case True
    define mid where "mid = j - (j - i) div 2"
    have mid: "i < mid" "mid \<le> j" "mid - 1 < j" using True by (auto simp: mid_def)
    then have get: "(key_get_nibble (fst (kvs ! mid)) d :: ('e, nibble) res) = Ok (nib d (kvs ! mid))"
      using at_depth_nth [OF less.prems(1), where 'e = 'e] less.prems(2) by simp
    show ?thesis
    proof (cases "nib d (kvs ! mid) > cur")
      case greater: True
      have run: "(last_of_nibble kvs d cur i j :: ('e, nat) res) = last_of_nibble kvs d cur i (mid - 1)"
        using True greater get by (subst last_of_nibble.simps) (simp add: Let_def mid_def [symmetric])
      obtain k where k: "(last_of_nibble kvs d cur i (mid - 1) :: ('e, nat) res) = Ok k" "i \<le> k" "k \<le> mid - 1"
        "nib d (kvs ! k) = cur" "\<forall>m. k < m \<longrightarrow> m \<le> mid - 1 \<longrightarrow> cur < nib d (kvs ! m)"
      proof -
        have "mid - 1 - i < j - i" "i \<le> mid - 1" "mid - 1 < length kvs" using mid less.prems(2) by linarith+
        from less.hyps [OF this(1) less.prems(1) this(3,2) less.prems(4)] show ?thesis using that by blast
      qed
      have "cur < nib d (kvs ! m)" if "k < m" "m \<le> j" for m
      proof (cases "m \<le> mid - 1")
        case False
        then have "nib d (kvs ! mid) \<le> nib d (kvs ! m)" using at_depth_mono [OF less.prems(1)] that less.prems(2) by simp
        then show ?thesis using greater by simp
      qed (use k that in auto)
      then show ?thesis unfolding run using k mid by auto
    next
      case le: False
      then have eq: "nib d (kvs ! mid) = cur"
        using at_depth_mono [OF less.prems(1), of i mid] mid less.prems by force
      have run: "(last_of_nibble kvs d cur i j :: ('e, nat) res) = last_of_nibble kvs d cur mid j"
        using True le get by (subst last_of_nibble.simps) (simp add: Let_def mid_def [symmetric])
      have "j - mid < j - i" using mid(1,2) True by linarith
      from less.hyps [OF this less.prems(1,2) mid(2) eq] show ?thesis unfolding run using mid(1) by (elim exE conjE) (intro exI conjI, auto)
    qed
  qed
qed

lemma slice_eq_group:
  assumes kvs: "at_depth d kvs" and pos: "pos \<le> k" "k < length kvs" and cur: "nib d (kvs ! pos) = cur" "nib d (kvs ! k) = cur"
    and before: "\<And>m. m < pos \<Longrightarrow> nib d (kvs ! m) < cur" and after: "\<And>m. k < m \<Longrightarrow> m < length kvs \<Longrightarrow> cur < nib d (kvs ! m)"
  shows "kvs_slice kvs pos k = group_of d kvs cur"
proof -
  let ?f = "filter (\<lambda>kv. nib d kv = cur)"
  have kvs_split: "kvs = take pos kvs @ kvs_slice kvs pos k @ drop (k + 1) kvs"
  proof -
    have "drop (k + 1 - pos) (drop pos kvs) = drop (k + 1) kvs" using pos by simp
    then have "drop pos kvs = kvs_slice kvs pos k @ drop (k + 1) kvs" unfolding kvs_slice_def by (metis append_take_drop_id)
    then show ?thesis by (metis append_take_drop_id)
  qed
  have "nib d kv \<noteq> cur" if "kv \<in> set (take pos kvs)" for kv
    using that before pos unfolding in_set_conv_nth by force
  then have "?f (take pos kvs) = []" by (simp add: filter_empty_conv)
  moreover have "nib d kv \<noteq> cur" if kv: "kv \<in> set (drop (k + 1) kvs)" for kv
  proof -
    obtain m where "m < length (drop (k + 1) kvs)" "kv = drop (k + 1) kvs ! m" using kv by (metis in_set_conv_nth)
    moreover from this have "k + 1 + m < length kvs" by simp
    ultimately show ?thesis using after [of "k + 1 + m"] by auto
  qed
  then have "?f (drop (k + 1) kvs) = []" by (simp add: filter_empty_conv)
  moreover have "?f (kvs_slice kvs pos k) = kvs_slice kvs pos k"
  proof (rule filter_True, rule ballI)
    fix x assume "x \<in> set (kvs_slice kvs pos k)"
    then obtain m where m: "m < k + 1 - pos" "x = kvs ! (pos + m)"
      using pos by (auto simp: kvs_slice_def in_set_conv_nth)
    then have "pos + m \<le> k" "pos + m < length kvs" using pos by linarith+
    then show "nib d x = cur"
      using m at_depth_mono [OF kvs, of pos "pos + m"] at_depth_mono [OF kvs, of "pos + m" k] pos cur by auto
  qed
  ultimately show ?thesis unfolding group_of_def by (subst (2) kvs_split) simp
qed

lemma filter_nibbles_Cons:
  assumes "\<And>n. n \<in> S \<Longrightarrow> c < n"
  shows "filter (\<lambda>n. n \<in> insert c S) all_nibbles = c # filter (\<lambda>n. n \<in> S) all_nibbles"
  by (rule strict_sorted_equal) (auto simp: assms sorted_wrt_filter sorted_all_nibbles)

lemma nibble_ranges_from:
  assumes kvs: "at_depth d kvs"
    and before: "\<And>m m'. m < pos \<Longrightarrow> pos \<le> m' \<Longrightarrow> m' < length kvs \<Longrightarrow> nib d (kvs ! m) < nib d (kvs ! m')"
  shows "\<exists>rs. (nibble_ranges kvs d pos :: ('e, _) res) = Ok rs \<and> (\<forall>(l, r) \<in> set rs. l < length kvs) \<and>
    map (\<lambda>(l, r). (nib d (kvs ! l), kvs_slice kvs l r)) rs =
    map (\<lambda>n. (n, group_of d kvs n)) (filter (\<lambda>n. n \<in> nib d ` set (drop pos kvs)) all_nibbles)"
  using before
proof (induction "length kvs - pos" arbitrary: pos rule: less_induct)
  case less
  show ?case
  proof (cases "pos < length kvs")
    case False
    then show ?thesis by (subst nibble_ranges.simps) simp
  next
    case True
    let ?cur = "nib d (kvs ! pos)"
    obtain k where k: "(last_of_nibble kvs d ?cur pos (length kvs - 1) :: ('e, nat) res) = Ok k" "pos \<le> k" "k \<le> length kvs - 1"
      "nib d (kvs ! k) = ?cur" "\<forall>m. k < m \<longrightarrow> m \<le> length kvs - 1 \<longrightarrow> ?cur < nib d (kvs ! m)"
      using last_of_nibble_Ok [OF kvs, of "length kvs - 1" pos] True by fastforce
    have after: "?cur < nib d (kvs ! m)" if "k < m" "m < length kvs" for m using k(5) that by auto
    have next_before: "nib d (kvs ! m) < nib d (kvs ! m')" if "m < k + 1" "k + 1 \<le> m'" "m' < length kvs" for m m'
    proof -
      have "nib d (kvs ! m) \<le> ?cur"
        using at_depth_mono [OF kvs, of m k] that k(3,4) True by auto
      then show ?thesis using after [of m'] that by auto
    qed
    obtain rs where rs: "(nibble_ranges kvs d (k + 1) :: ('e, _) res) = Ok rs" "\<forall>(l, r) \<in> set rs. l < length kvs"
      "map (\<lambda>(l, r). (nib d (kvs ! l), kvs_slice kvs l r)) rs =
       map (\<lambda>n. (n, group_of d kvs n)) (filter (\<lambda>n. n \<in> nib d ` set (drop (k + 1) kvs)) all_nibbles)"
      using less.hyps [of "k + 1", OF _ next_before] True k(2) by force
    have run: "(nibble_ranges kvs d pos :: ('e, _) res) = Ok ((pos, k) # rs)"
      using True k(1,2) rs(1) at_depth_nth [OF kvs True, where 'e = 'e]
      by (subst nibble_ranges.simps) (simp add: range_next_def max_absorb2)
    have slice: "kvs_slice kvs pos k = group_of d kvs ?cur"
      using less.prems [OF _ order_refl True] k after True by (intro slice_eq_group [OF kvs]) auto
    have later: "?cur < n" if n: "n \<in> nib d ` set (drop (k + 1) kvs)" for n
    proof -
      obtain kv where "kv \<in> set (drop (k + 1) kvs)" "n = nib d kv" using n by blast
      then obtain m where "m < length (drop (k + 1) kvs)" "n = nib d (drop (k + 1) kvs ! m)" by (metis in_set_conv_nth)
      moreover from this have "k + 1 + m < length kvs" by simp
      ultimately show ?thesis using after [of "k + 1 + m"] by auto
    qed
    have "drop pos kvs = kvs_slice kvs pos k @ drop (k + 1) kvs"
    proof -
      have "drop (k + 1 - pos) (drop pos kvs) = drop (k + 1) kvs" using k(2) by simp
      then show ?thesis unfolding kvs_slice_def by (metis append_take_drop_id)
    qed
    moreover have "nib d ` set (kvs_slice kvs pos k) = {?cur}"
    proof -
      have "kvs ! pos \<in> set (group_of d kvs ?cur)" using True by (simp add: group_of_def)
      then show ?thesis unfolding slice by (auto simp: group_of_def)
    qed
    ultimately have "nib d ` set (drop pos kvs) = insert ?cur (nib d ` set (drop (k + 1) kvs))"
      by (simp add: image_Un)
    then have "filter (\<lambda>n. n \<in> nib d ` set (drop pos kvs)) all_nibbles = ?cur # filter (\<lambda>n. n \<in> nib d ` set (drop (k + 1) kvs)) all_nibbles"
      using filter_nibbles_Cons [OF later] by simp
    then show ?thesis using run rs(2,3) slice True by simp
  qed
qed

text \<open>The ranges found by binary search are the groups of entries with equal nibbles.\<close>

theorem nibble_ranges_groups:
  assumes "at_depth d kvs"
  obtains rs where "(nibble_ranges kvs d 0 :: ('e, _) res) = Ok rs" "\<forall>(l, r) \<in> set rs. l < length kvs"
    "map (\<lambda>(l, r). (nib d (kvs ! l), kvs_slice kvs l r)) rs = groups d kvs"
  using nibble_ranges_from [OF assms, of 0, where 'e = 'e] by (auto simp: groups_def)

section \<open>What a batch collects\<close>

text \<open>\<open>collects m r xs ss\<close>: \<open>m\<close> returns \<open>r\<close> and adds the nodes \<open>xs\<close> and the stale node keys \<open>ss\<close> to any batch.\<close>

definition collects :: "('p, 'a) batch_fn \<Rightarrow> 'a \<Rightarrow> (tree_node_key \<times> 'p node) list \<Rightarrow> tree_node_key list \<Rightarrow> bool" where
  "collects m r xs ss \<longleftrightarrow> (\<forall>b. \<exists>b'. m b = (b', Ok r) \<and> node_batch b' = node_batch b @ xs \<and>
     map stale_node_key (stale_node_index_batch b') = map stale_node_key (stale_node_index_batch b) @ ss)"

lemma collects_simps [simp]:
  "collects (mreturn r) r [] []"
  "collects (mlift (\<lambda>_. Ok r)) r [] []"
  "collects (put_node k n) () [(k, n)] []"
  "collects (put_stale_node k v n) () [] [k]"
  by (simp_all add: collects_def put_node_def put_stale_node_def)

lemma collects_bind:
  assumes "collects m r xs ss" "collects (k r) r' xs' ss'"
  shows "collects (mbind m k) r' (xs @ xs') (ss @ ss')"
  unfolding collects_def
proof
  fix b
  obtain b1 where b1: "m b = (b1, Ok r)" "node_batch b1 = node_batch b @ xs"
    "map stale_node_key (stale_node_index_batch b1) = map stale_node_key (stale_node_index_batch b) @ ss"
    using assms(1) unfolding collects_def by blast
  obtain b2 where "k r b1 = (b2, Ok r')" "node_batch b2 = node_batch b1 @ xs'"
    "map stale_node_key (stale_node_index_batch b2) = map stale_node_key (stale_node_index_batch b1) @ ss'"
    using assms(2) unfolding collects_def by blast
  then show "\<exists>b'. mbind m k b = (b', Ok r') \<and> node_batch b' = node_batch b @ xs @ xs' \<and>
      map stale_node_key (stale_node_index_batch b') = map stale_node_key (stale_node_index_batch b) @ ss @ ss'"
    using b1 by simp
qed

lemma collects_lift: "f = Ok r \<Longrightarrow> collects (k r) r' xs ss \<Longrightarrow> collects (mbind (mlift (\<lambda>_. f)) k) r' xs ss"
  using collects_bind [of "mlift (\<lambda>_. f)" r "[]" "[]" k r' xs ss] by simp

lemma collects_return: "collects m r xs ss \<Longrightarrow> k r = mreturn r' \<Longrightarrow> collects (mbind m k) r' xs ss"
  using collects_bind [of m r xs ss k r' "[]" "[]"] by simp

lemma collects_seq: "collects m () xs ss \<Longrightarrow> collects k r xs' ss' \<Longrightarrow> collects (mseq m k) r (xs @ xs') (ss @ ss')"
  unfolding mseq_def by (rule collects_bind)

lemma collects_mmap:
  "(\<And>x. x \<in> set L \<Longrightarrow> collects (f x) (r x) (xs x) (ss x)) \<Longrightarrow>
   collects (mmap f L) (map r L) (concat (map xs L)) (concat (map ss L))"
proof (induction L)
  case (Cons x L)
  have "collects (mmap f L) (map r L) (concat (map xs L)) (concat (map ss L))" using Cons by simp
  then have "collects (mbind (mmap f L) (\<lambda>ys. mreturn (r x # ys))) (r x # map r L) (concat (map xs L)) (concat (map ss L))"
    by (rule collects_return) simp
  then show ?case using collects_bind [OF Cons.prems [of x]] by simp
qed simp

lemma concat_nils [simp]: "concat (map (\<lambda>x. []) L) = []"
  by (induction L) simp_all

lemma mmap_map: "(\<And>x. x \<in> set L \<Longrightarrow> f x = F (g x)) \<Longrightarrow> mmap f L = mmap F (map g L)"
  by (induction L) simp_all

definition hash_of :: "hasher \<Rightarrow> 'p node \<Rightarrow> hash" where
  "hash_of H node = (case node of
     Internal n \<Rightarrow> range_hash H (children n) 0 4 | Leaf l \<Rightarrow> leaf_hash H l | Null \<Rightarrow> SPARSE_MERKLE_PLACEHOLDER_HASH)"

lemma node_hash_eq [simp]: "node_hash H node = Ok (hash_of H node)"
  by (cases node) (simp_all add: hash_of_def internal_hash_eq)

definition child_of :: "hasher \<Rightarrow> version \<Rightarrow> 'p node \<Rightarrow> child" where
  "child_of H v node = \<lparr>child_hash = hash_of H node, child_version = v, child_node_type = node_type node\<rparr>"

lemma child_of_simps [simp]:
  "child_hash (child_of H v node) = hash_of H node"
  "child_version (child_of H v node) = v"
  "child_is_leaf (child_of H v node) = is_leaf node"
  "child_node_type (child_of H v node) = node_type node"
  by (simp_all add: child_of_def child_is_leaf_def) (cases node; simp)

lemma collects_put_children:
  fixes cs :: "(nibble \<times> 'p node) list"
  shows "collects (put_children H (node_key w ns) v None cs) (map (\<lambda>(n, c). (n, child_of H v c)) cs)
     (map (\<lambda>(n, c). (node_key v (ns @ [n]), c)) cs) []"
proof -
  let ?f = "\<lambda>(child_index, new_child_node).
     let new_child_node_key = gen_child_node_key (node_key w ns) v child_index in
     mbind (mlift (\<lambda>_. get_hash H new_child_node_key new_child_node None)) (\<lambda>h.
     mseq (put_node new_child_node_key new_child_node)
     (mreturn (child_index, \<lparr>child_hash = h, child_version = v, child_node_type = node_type new_child_node\<rparr>)))"
  have "collects (?f x) ((\<lambda>(n, c). (n, child_of H v c)) x) [(\<lambda>(n, c). (node_key v (ns @ [n]), c)) x] []" for x
  proof -
    obtain n c where x: "x = (n, c)" by fastforce
    have "collects (mseq (put_node (node_key v (ns @ [n])) c) (mreturn (n, child_of H v c))) (n, child_of H v c) [(node_key v (ns @ [n]), c)] []"
      using collects_seq [OF collects_simps(3) collects_simps(1), of "node_key v (ns @ [n])" c] by simp
    then show ?thesis unfolding x by (simp add: Let_def get_hash_def child_of_def collects_lift del: node_hash_eq mreturn_apply) (rule collects_lift; simp add: child_of_def)
  qed
  from collects_mmap [where f = ?f and L = cs, OF this]
  have "collects (mmap ?f cs) (map (\<lambda>(n, c). (n, child_of H v c)) cs) (concat (map (\<lambda>x. [case x of (n, c) \<Rightarrow> (node_key v (ns @ [n]), c)]) cs))
    (concat (map (\<lambda>x. []) cs))" .
  moreover have "concat (map (\<lambda>x. [f x]) cs) = map f cs" for f :: "_ \<Rightarrow> tree_node_key \<times> 'p node"
    by (induction cs) simp_all
  ultimately show ?thesis by (simp add: put_children_def)
qed

section \<open>Trees in a store\<close>

type_synonym 'p entries = "leaf_key \<rightharpoonup> (hash \<times> 'p)"

definition part :: "nibble list \<Rightarrow> 'p entries \<Rightarrow> 'p entries" where
  "part ns M = M |` {k. prefix ns (key_nibbles k)}"

definition strictly_below :: "nibble list \<Rightarrow> leaf_key set \<Rightarrow> bool" where
  "strictly_below ns K \<longleftrightarrow> (\<forall>k \<in> K. strict_prefix ns (key_nibbles k))"

text \<open>
  \<open>tree_at H S ns node M\<close>: at the path \<open>ns\<close>, \<open>node\<close> is the root of a tree of the entries \<open>M\<close> whose other
  nodes are in the store \<open>S\<close>. A single entry is a leaf; an internal node has at least two entries
  below it, knows the hash and kind of its children, and has no empty child.
\<close>

inductive tree_at :: "hasher \<Rightarrow> 'p reader \<Rightarrow> nibble list \<Rightarrow> 'p node \<Rightarrow> 'p entries \<Rightarrow> bool" for H S where
  leaf: "prefix ns (key_nibbles (leaf_key l)) \<Longrightarrow> tree_at H S ns (Leaf l) [leaf_key l \<mapsto> (value_hash l, payload l)]"
| internal:
    "(\<And>n. children i n = None \<Longrightarrow> part (ns @ [n]) M = Map.empty) \<Longrightarrow>
     (\<And>n c. children i n = Some c \<Longrightarrow> \<exists>node. S (node_key (child_version c) (ns @ [n])) = Some node \<and>
        child_hash c = hash_of H node \<and> (child_is_leaf c \<longleftrightarrow> is_leaf node) \<and> child_node_type c \<noteq> NullType \<and>
        tree_at H S (ns @ [n]) node (part (ns @ [n]) M)) \<Longrightarrow>
     strictly_below ns (dom M) \<Longrightarrow> finite (dom M) \<Longrightarrow> {k, k'} \<subseteq> dom M \<Longrightarrow> k \<noteq> k' \<Longrightarrow>
     tree_at H S ns (Internal i) M"

inductive_cases tree_at_LeafE: "tree_at H S ns (Leaf l) M"
inductive_cases tree_at_InternalE: "tree_at H S ns (Internal i) M"
inductive_cases tree_at_NullE: "tree_at H S ns Null M"

lemma dom_single: "dom [k \<mapsto> v] = {k}"
  by simp

lemma dom_part: "dom (part ns M) = {k \<in> dom M. prefix ns (key_nibbles k)}"
  by (auto simp: part_def restrict_map_def split: if_splits)

lemma part_apply: "part ns M k = (if prefix ns (key_nibbles k) then M k else None)"
  by (simp add: part_def restrict_map_def)

lemma tree_at_dom:
  "tree_at H S ns node M \<Longrightarrow> finite (dom M) \<and> dom M \<noteq> {} \<and> (\<forall>k \<in> dom M. prefix ns (key_nibbles k))"
proof (induction rule: tree_at.induct)
  case (internal i ns M k k')
  then have "k \<in> dom M" by simp
  then show ?case using internal.hyps by (auto simp only: strictly_below_def strict_prefix_def)
next
  case (leaf ns l)
  have "dom [leaf_key l \<mapsto> (value_hash l, payload l)] = {leaf_key l}" by (rule dom_single)
  then show ?case using leaf by (simp only:) simp
qed

lemma tree_at_leaf_iff: "tree_at H S ns node M \<Longrightarrow> is_leaf node \<longleftrightarrow> (\<exists>k. dom M = {k})"
proof (induction rule: tree_at.induct)
  case (internal i ns M k k')
  have "\<not> (\<exists>k. dom M = {k})" using internal.hyps by (metis insert_subset singletonD)
  then show ?case by simp
next
  case (leaf ns l)
  have "dom [leaf_key l \<mapsto> (value_hash l, payload l)] = {leaf_key l}" by (rule dom_single)
  then show ?case by (simp only:) simp
qed

lemma tree_at_mono:
  assumes "tree_at H S ns node M"
    and "\<And>v ms x. strict_prefix ns ms \<Longrightarrow> S (node_key v ms) = Some x \<Longrightarrow> T (node_key v ms) = Some x"
  shows "tree_at H T ns node M"
  using assms
proof (induction rule: tree_at.induct)
  case (leaf ns l)
  show ?case using leaf(1) by (rule tree_at.leaf)
next
  case (internal i ns M k k')
  show ?case
  proof (rule tree_at.internal [of i ns M, OF internal.hyps(1) _ internal.hyps(2-5)])
    fix n c assume "children i n = Some c"
    from internal.IH [OF this] obtain node where node: "S (node_key (child_version c) (ns @ [n])) = Some node"
      "child_hash c = hash_of H node" "child_is_leaf c \<longleftrightarrow> is_leaf node" "child_node_type c \<noteq> NullType"
      "(\<And>v ms x. strict_prefix (ns @ [n]) ms \<Longrightarrow> S (node_key v ms) = Some x \<Longrightarrow> T (node_key v ms) = Some x) \<Longrightarrow>
         tree_at H T (ns @ [n]) node (part (ns @ [n]) M)" by blast
    have "strict_prefix ns ms" if "strict_prefix (ns @ [n]) ms" for ms
      using that by (auto simp: strict_prefix_def dest: append_prefixD)
    then have "tree_at H T (ns @ [n]) node (part (ns @ [n]) M)" using internal.prems node(5) by blast
    moreover have "T (node_key (child_version c) (ns @ [n])) = Some node"
      using internal.prems [of "ns @ [n]"] node(1) by (simp add: strict_prefix_def)
    ultimately show "\<exists>node. T (node_key (child_version c) (ns @ [n])) = Some node \<and> child_hash c = hash_of H node \<and>
        (child_is_leaf c \<longleftrightarrow> is_leaf node) \<and> child_node_type c \<noteq> NullType \<and> tree_at H T (ns @ [n]) node (part (ns @ [n]) M)"
      using node(2-4) by blast
  qed
qed

text \<open>The entries below a path are those below its extensions by one nibble.\<close>

lemma strictly_belowE:
  assumes "strictly_below ns K" "k \<in> K"
  obtains n where "prefix (ns @ [n]) (key_nibbles k)"
proof -
  have "strict_prefix ns (key_nibbles k)" using assms by (simp add: strictly_below_def)
  then obtain x xs where "key_nibbles k = ns @ x # xs" by (rule strict_prefixE')
  then show ?thesis using that [of x] by simp
qed

lemma prefix_snoc_eq: "prefix (ns @ [n]) xs \<Longrightarrow> prefix (ns @ [m]) xs \<Longrightarrow> n = m"
  by (auto simp: prefix_def)

lemma entry_in_part:
  assumes "strictly_below ns (dom M)" "M k = Some x"
  obtains n where "part (ns @ [n]) M k = Some x"
proof -
  obtain n where "prefix (ns @ [n]) (key_nibbles k)" using strictly_belowE [OF assms(1), of k] assms(2) by blast
  then show ?thesis using that [of n] assms(2) by (simp add: part_apply)
qed


section \<open>The hash of a tree\<close>

definition leaf_entry :: "hasher \<Rightarrow> nat \<Rightarrow> leaf_key \<times> hash \<times> 'p \<Rightarrow> smt_leaf" where
  "leaf_entry H d e = (drop (4 * d) (iter_bits (fst e)), H (fst e @ fst (snd e)))"

lemma drop_iter_bits:
  assumes "d < length (key_nibbles k)"
  shows "drop (4 * d) (iter_bits k) = nibble_bits (key_nibbles k ! d) @ drop (4 * Suc d) (iter_bits k)"
proof -
  have drops: "drop (4 * d) (concat (map nibble_bits ns)) = concat (map nibble_bits (drop d ns))" for d ns
  proof (induction d arbitrary: ns)
    case (Suc d)
    then show ?case by (cases ns) (simp_all add: drop_drop [symmetric] del: drop_drop)
  qed simp
  have "drop d (key_nibbles k) = key_nibbles k ! d # drop (Suc d) (key_nibbles k)"
    using assms by (rule Cons_nth_drop_Suc [symmetric])
  then show ?thesis unfolding iter_bits_eq drops by simp
qed

lemma mset_by_class:
  "(\<And>x. x \<in> set xs \<Longrightarrow> f x \<in> set ns) \<Longrightarrow> distinct ns \<Longrightarrow>
   mset (concat (map (\<lambda>n. filter (\<lambda>x. f x = n) xs) ns)) = mset xs"
proof (induction ns arbitrary: xs)
  case (Cons n ns)
  let ?ys = "filter (\<lambda>x. f x \<noteq> n) xs"
  have "filter (\<lambda>x. f x = m) xs = filter (\<lambda>x. f x = m) ?ys" if "m \<in> set ns" for m
    using that Cons.prems(2) by (auto intro: filter_cong)
  then have "concat (map (\<lambda>n. filter (\<lambda>x. f x = n) xs) ns) = concat (map (\<lambda>n. filter (\<lambda>x. f x = n) ?ys) ns)"
    by (metis (mono_tags, lifting) map_cong)
  moreover have "mset (concat (map (\<lambda>n. filter (\<lambda>x. f x = n) ?ys) ns)) = mset ?ys"
    using Cons.prems by (intro Cons.IH) auto
  moreover have "mset (filter (\<lambda>x. f x = n) xs) + mset ?ys = mset xs" by (induction xs) auto
  ultimately show ?case by simp
next
  case Nil
  then show ?case by (cases xs) auto
qed

lemma listing_single:
  assumes "distinct (map fst es)" "map_of es = [k \<mapsto> v]"
  shows "es = [(k, v)]"
proof -
  have "e \<in> set es \<longleftrightarrow> e = (k, v)" for e
  proof (cases e)
    case (Pair k' v')
    then show ?thesis using map_of_eq_Some_iff [OF assms(1), of k' v'] assms(2) by (auto split: if_splits)
  qed
  then have "set es = {(k, v)}" by auto
  moreover obtain e es' where "es = e # es'" using calculation by (cases es) auto
  ultimately show ?thesis using assms(1) by (cases es') auto
qed

lemma map_of_filter_keys: "map_of (filter (\<lambda>e. P (fst e)) es) = map_of es |` {k. P k}"
  by (induction es) (auto simp: restrict_map_def fun_eq_iff)

theorem tree_hash:
  "tree_at H S ns node M \<Longrightarrow> distinct (map fst es) \<Longrightarrow> map_of es = M \<Longrightarrow>
   hash_of H node = sparse_root H (map (leaf_entry H (length ns)) es)"
proof (induction arbitrary: es rule: tree_at.induct)
  case (leaf ns l)
  have "es = [(leaf_key l, value_hash l, payload l)]" using leaf.prems by (rule listing_single)
  then show ?case by (simp add: hash_of_def leaf_hash_def leaf_entry_def)
next
  case (internal i ns M k k')
  let ?d = "length ns"
  define at where "at n = filter (\<lambda>e. prefix (ns @ [n]) (key_nibbles (fst e))) es" for n
  let ?below = "\<lambda>n. map (leaf_entry H (Suc ?d)) (at n)"
  have at_map: "map_of (at n) = part (ns @ [n]) M" for n
    using internal.prems(2) map_of_filter_keys [of "\<lambda>k. prefix (ns @ [n]) (key_nibbles k)" es] by (simp add: at_def part_def)
  have at_distinct: "distinct (map fst (at n))" for n using internal.prems(1) by (simp add: at_def distinct_map_filter)
  have at_iff: "e \<in> set (at n) \<longleftrightarrow> e \<in> set es \<and> nib ?d e = n" for e n
  proof -
    have "strict_prefix ns (key_nibbles (fst e))" if "e \<in> set es"
      using internal.hyps(2) internal.prems that by (force simp: strictly_below_def dom_map_of_conv_image_fst)
    then show ?thesis unfolding at_def by (auto elim!: strict_prefixE' simp: prefix_def)
  qed
  have "hashes_below H (children i) ?below"
    unfolding hashes_below_def
  proof
    fix n
    show "case children i n of None \<Rightarrow> ?below n = []
      | Some c \<Rightarrow> ?below n \<noteq> [] \<and> child_hash c = sparse_root H (?below n) \<and> (child_is_leaf c \<longleftrightarrow> length (?below n) = 1)"
    proof (cases "children i n")
      case None
      then have "map_of (at n) = Map.empty" using internal.hyps(1) at_map by simp
      then show ?thesis using None by simp
    next
      case (Some c)
      from internal.IH [OF this] obtain node where node: "child_hash c = hash_of H node" "child_is_leaf c \<longleftrightarrow> is_leaf node"
        "tree_at H S (ns @ [n]) node (part (ns @ [n]) M)"
        "hash_of H node = sparse_root H (map (leaf_entry H (length (ns @ [n]))) (at n))"
        using at_map at_distinct by blast
      have "dom (part (ns @ [n]) M) = fst ` set (at n)" by (simp add: at_map [symmetric] dom_map_of_conv_image_fst)
      moreover have "card (fst ` set (at n)) = length (at n)" using distinct_card [OF at_distinct [of n]] by simp
      ultimately have "is_leaf node \<longleftrightarrow> length (at n) = 1" and "at n \<noteq> []"
        using tree_at_leaf_iff [OF node(3)] tree_at_dom [OF node(3)] by (auto simp: card_1_singleton_iff)
      then show ?thesis using Some node by simp
    qed
  qed
  then have "hash_of H (Internal i) =
      sparse_root H (concat (map (\<lambda>n. map (\<lambda>(bs, x). (nibble_bits n @ bs, x)) (?below n)) all_nibbles))"
    using internal_hash_is_root [of H i ?below, where 'e = unit] by (simp add: internal_hash_eq hash_of_def)
  also have "\<dots> = sparse_root H (map (leaf_entry H ?d) es)"
  proof (rule sparse_root_perm)
    have "leaf_entry H ?d e = (nibble_bits n @ fst (leaf_entry H (Suc ?d) e), snd (leaf_entry H (Suc ?d) e))"
      if "e \<in> set (at n)" for e n
    proof -
      have "e \<in> set es" "nib ?d e = n" using that at_iff by auto
      moreover have "strict_prefix ns (key_nibbles (fst e))"
        using internal.hyps(2) internal.prems \<open>e \<in> set es\<close> by (force simp: strictly_below_def dom_map_of_conv_image_fst)
      ultimately show ?thesis using drop_iter_bits [OF prefix_length_less] by (auto simp: leaf_entry_def)
    qed
    then have below: "map (\<lambda>(bs, x). (nibble_bits n @ bs, x)) (?below n) = map (leaf_entry H ?d) (at n)" for n
      by (simp add: split_beta)
    have at: "at n = filter (\<lambda>e. nib ?d e = n) es" for n
      using at_iff [of _ n] unfolding at_def by (intro filter_cong refl) auto
    have "concat (map (\<lambda>n. map (\<lambda>(bs, x). (nibble_bits n @ bs, x)) (?below n)) all_nibbles) =
        map (leaf_entry H ?d) (concat (map (\<lambda>n. filter (\<lambda>e. nib ?d e = n) es) all_nibbles))"
      unfolding below unfolding at by (simp add: map_concat o_def)
    moreover have "mset (concat (map (\<lambda>n. filter (\<lambda>e. nib ?d e = n) es) all_nibbles)) = mset es"
      by (rule mset_by_class) simp_all
    ultimately show "mset (concat (map (\<lambda>n. map (\<lambda>(bs, x). (nibble_bits n @ bs, x)) (?below n)) all_nibbles)) =
        mset (map (leaf_entry H ?d) es)" by (simp only: mset_map)
  qed
  finally show ?case .
qed

section \<open>Entries of an update\<close>

definition upd :: "'p entries \<Rightarrow> 'p kvs \<Rightarrow> 'p entries" where
  "upd M kvs = (\<lambda>k. case map_of kvs k of None \<Rightarrow> M k | Some v \<Rightarrow> v)"

abbreviation keys_of :: "'p kvs \<Rightarrow> leaf_key set" where
  "keys_of kvs \<equiv> fst ` set kvs"

definition prefix_free :: "leaf_key set \<Rightarrow> bool" where
  "prefix_free K \<longleftrightarrow> (\<forall>k \<in> K. \<forall>k' \<in> K. prefix (key_nibbles k) (key_nibbles k') \<longrightarrow> k = k')"

text \<open>The entries of a \<^verbatim>\<open>BTreeMap\<close>, sorted by key, all below a path.\<close>

definition kvs_ok :: "nibble list \<Rightarrow> 'p kvs \<Rightarrow> bool" where
  "kvs_ok ns kvs \<longleftrightarrow> sorted_wrt ord_class.lexordp (map fst kvs) \<and> (\<forall>k \<in> keys_of kvs. prefix ns (key_nibbles k))"

lemma lexordp_irrefl_byte: "\<not> ord_class.lexordp (k :: leaf_key) k"
  by (rule lexordp_irreflexive) simp

lemma kvs_ok_distinct: "kvs_ok ns kvs \<Longrightarrow> distinct (map fst kvs)"
proof -
  have "sorted_wrt ord_class.lexordp ks \<Longrightarrow> distinct ks" for ks :: "leaf_key list"
    by (induction ks) (auto simp: lexordp_irrefl_byte)
  then show "kvs_ok ns kvs \<Longrightarrow> distinct (map fst kvs)" by (simp add: kvs_ok_def)
qed

lemma prefix_free_subset: "prefix_free K \<Longrightarrow> L \<subseteq> K \<Longrightarrow> prefix_free L"
  by (auto simp: prefix_free_def)

lemma prefix_free_strict:
  assumes "prefix_free K" "\<forall>k \<in> K. prefix ns (key_nibbles k)" "k \<in> K" "k' \<in> K" "k \<noteq> k'"
  shows "strictly_below ns K"
proof -
  have "ns \<noteq> key_nibbles x" if "x \<in> K" for x
  proof
    assume "ns = key_nibbles x"
    then have "k = x \<and> k' = x" using assms that by (auto simp: prefix_free_def)
    then show False using assms(5) by simp
  qed
  then show ?thesis using assms(2) by (auto simp: strictly_below_def strict_prefix_def)
qed

lemma lexordp_common_prefix:
  "ord_class.lexordp (ns @ a # xs) (ns @ b # ys) \<Longrightarrow> (a :: nibble) \<le> b"
  by (induction ns) auto

lemma kvs_at_depth:
  assumes "kvs_ok ns kvs" "strictly_below ns (keys_of kvs)"
  shows "at_depth (length ns) kvs"
proof -
  have long: "\<exists>x xs. key_nibbles k = ns @ x # xs" if "k \<in> keys_of kvs" for k
    using assms(2) that by (auto simp: strictly_below_def elim!: strict_prefixE')
  have "sorted_wrt (\<lambda>x y. nib (length ns) x \<le> nib (length ns) y) kvs"
  proof (rule sorted_wrt_mono_rel [of _ "\<lambda>x y. ord_class.lexordp (fst x) (fst y)"])
    show "sorted_wrt (\<lambda>x y. ord_class.lexordp (fst x) (fst y)) kvs" using assms(1) by (simp add: kvs_ok_def sorted_wrt_map)
  next
    fix x y assume in_kvs: "x \<in> set kvs" "y \<in> set kvs" and less: "ord_class.lexordp (fst x) (fst y)"
    obtain a xs b ys where "key_nibbles (fst x) = ns @ a # xs" "key_nibbles (fst y) = ns @ b # ys"
      using long [of "fst x"] long [of "fst y"] in_kvs by auto
    then show "nib (length ns) x \<le> nib (length ns) y"
      using lexordp_common_prefix lexordp_key_nibbles [OF less] by auto
  qed
  moreover have "length ns < length (key_nibbles (fst kv))" if kv: "kv \<in> set kvs" for kv
  proof -
    obtain x xs where "key_nibbles (fst kv) = ns @ x # xs" using long [of "fst kv"] kv by auto
    then show ?thesis by (simp del: length_key_nibbles)
  qed
  ultimately show ?thesis by (simp add: at_depth_def sorted_wrt_map)
qed

lemma group_prefix:
  assumes "strictly_below ns (keys_of kvs)" "kvs_ok ns kvs"
  shows "kv \<in> set (group_of (length ns) kvs n) \<longleftrightarrow> kv \<in> set kvs \<and> prefix (ns @ [n]) (key_nibbles (fst kv))"
proof -
  have "strict_prefix ns (key_nibbles (fst kv))" if "kv \<in> set kvs" using assms(1) that by (simp add: strictly_below_def)
  then show ?thesis by (auto simp: group_of_def elim!: strict_prefixE' simp: prefix_def)
qed

lemma group_ok:
  assumes "strictly_below ns (keys_of kvs)" "kvs_ok ns kvs"
  shows "kvs_ok (ns @ [n]) (group_of (length ns) kvs n)"
proof -
  have "sorted_wrt ord_class.lexordp (map fst (group_of (length ns) kvs n))"
    using assms(2) by (simp add: kvs_ok_def group_of_def sorted_wrt_map sorted_wrt_filter)
  then show ?thesis using group_prefix [OF assms] by (auto simp: kvs_ok_def)
qed

lemma upd_part:
  assumes "strictly_below ns (keys_of kvs)" "kvs_ok ns kvs"
  shows "part (ns @ [n]) (upd M kvs) = upd (part (ns @ [n]) M) (group_of (length ns) kvs n)"
proof -
  have "group_of (length ns) kvs n = filter (\<lambda>kv. prefix (ns @ [n]) (key_nibbles (fst kv))) kvs"
    using group_prefix [OF assms] unfolding group_of_def by (intro filter_cong) auto
  then have "map_of (group_of (length ns) kvs n) = map_of kvs |` {k. prefix (ns @ [n]) (key_nibbles k)}"
    using map_of_filter_keys [of "\<lambda>k. prefix (ns @ [n]) (key_nibbles k)" kvs] by simp
  then show ?thesis by (auto simp: upd_def part_apply restrict_map_def fun_eq_iff split: option.split)
qed

section \<open>New subtrees\<close>

text \<open>
  \<open>new_subtree H ns v T M r xs\<close>: the nodes \<open>xs\<close> of version \<open>v\<close> lie below the path \<open>ns\<close>, each under its own key,
  and over the store \<open>T\<close> they make \<open>r\<close> the root of a tree of the entries \<open>M\<close>.
\<close>

definition below_path :: "nibble list \<Rightarrow> version \<Rightarrow> (tree_node_key \<times> 'p node) list \<Rightarrow> bool" where
  "below_path ns v xs \<longleftrightarrow> distinct (map fst xs) \<and> (\<forall>k \<in> fst ` set xs. \<exists>ms. strict_prefix ns ms \<and> k = node_key v ms)"

definition root_of :: "hasher \<Rightarrow> 'p reader \<Rightarrow> nibble list \<Rightarrow> 'p entries \<Rightarrow> 'p node option \<Rightarrow> bool" where
  "root_of H S ns M r \<longleftrightarrow> (case r of None \<Rightarrow> M = Map.empty | Some node \<Rightarrow> tree_at H S ns node M)"

definition new_subtree :: "hasher \<Rightarrow> nibble list \<Rightarrow> version \<Rightarrow> 'p reader \<Rightarrow> 'p entries \<Rightarrow> 'p node option \<Rightarrow>
    (tree_node_key \<times> 'p node) list \<Rightarrow> bool" where
  "new_subtree H ns v T M r xs \<longleftrightarrow> below_path ns v xs \<and> root_of H (T ++ map_of xs) ns M r"

text \<open>A store without nodes of the new version.\<close>

definition fresh :: "version \<Rightarrow> 'p reader \<Rightarrow> bool" where
  "fresh v S \<longleftrightarrow> (\<forall>ms. S (node_key v ms) = None)"

lemma below_path_lookup:
  "below_path ns v xs \<Longrightarrow> map_of xs (node_key u ms) = Some x \<Longrightarrow> u = v \<and> strict_prefix ns ms"
  unfolding below_path_def by (force dest: map_of_SomeD)

lemma root_of_mono:
  assumes "root_of H S ns M r"
    and "\<And>u ms x. strict_prefix ns ms \<Longrightarrow> S (node_key u ms) = Some x \<Longrightarrow> T (node_key u ms) = Some x"
  shows "root_of H T ns M r"
proof (cases r)
  case (Some node)
  then have "tree_at H S ns node M" using assms(1) by (simp add: root_of_def)
  then have "tree_at H T ns node M" using assms(2) by (rule tree_at_mono)
  then show ?thesis using Some by (simp add: root_of_def)
qed (use assms(1) in \<open>simp add: root_of_def\<close>)

text \<open>Nodes below different nibbles do not meet.\<close>

lemma below_path_concat:
  assumes "\<And>n. n \<in> set L \<Longrightarrow> below_path (ns @ [n]) v (xs n)" and "distinct L"
  shows "below_path ns v (concat (map xs L))"
    and "n \<in> set L \<Longrightarrow> strict_prefix (ns @ [n]) ms \<Longrightarrow>
      map_of (concat (map xs L)) (node_key u ms) = map_of (xs n) (node_key u ms)"
proof -
  have longer: "strict_prefix (ns @ [n]) ms \<Longrightarrow> strict_prefix ns ms" for n ms
    by (auto simp: strict_prefix_def dest: append_prefixD)
  have apart: "n = m" if "strict_prefix (ns @ [n]) ms" "strict_prefix (ns @ [m]) ms" for n m ms
    using that by (auto simp: strict_prefix_def dest: prefix_snoc_eq)
  have disj: "fst ` set (xs n) \<inter> fst ` set (xs m) = {}" if nm: "n \<in> set L" "m \<in> set L" "n \<noteq> m" for n m
  proof -
    have False if k: "k \<in> fst ` set (xs n)" "k \<in> fst ` set (xs m)" for k
    proof -
      obtain ms where "strict_prefix (ns @ [n]) ms" "k = node_key v ms" using assms(1) [OF nm(1)] k unfolding below_path_def by blast
      moreover obtain ms' where "strict_prefix (ns @ [m]) ms'" "k = node_key v ms'" using assms(1) [OF nm(2)] k unfolding below_path_def by blast
      ultimately show False using apart nm(3) by auto
    qed
    then show ?thesis by blast
  qed
  have "below_path ns v (concat (map xs K))" if "set K \<subseteq> set L" "distinct K" for K
    using that
  proof (induction K)
    case (Cons m K)
    then have m: "m \<in> set L" "m \<notin> set K" "set K \<subseteq> set L" and IH: "below_path ns v (concat (map xs K))" by simp_all
    have "fst ` set (xs m) \<inter> fst ` set (xs n) = {}" if "n \<in> set K" for n
      using disj [OF m(1), of n] that m(2,3) by auto
    then have "fst ` set (xs m) \<inter> fst ` set (concat (map xs K)) = {}" by auto
    moreover have "distinct (map fst (xs m))" "\<forall>k \<in> fst ` set (xs m). \<exists>ms. strict_prefix ns ms \<and> k = node_key v ms"
      using assms(1) [OF m(1)] longer unfolding below_path_def by blast+
    ultimately show ?case using IH unfolding below_path_def by (simp add: image_Un) blast
  qed (simp add: below_path_def)
  then show "below_path ns v (concat (map xs L))" using assms(2) by simp
  show "map_of (concat (map xs L)) (node_key u ms) = map_of (xs n) (node_key u ms)"
    if n: "n \<in> set L" "strict_prefix (ns @ [n]) ms"
  proof -
    have other: "map_of (xs m) (node_key u ms) = None" if "m \<in> set L" "m \<noteq> n" for m
      using below_path_lookup [OF assms(1) [OF that(1)]] apart n(2) that(2) by (metis not_None_eq)
    have "map_of (concat (map xs K)) (node_key u ms) = (if n \<in> set K then map_of (xs n) (node_key u ms) else None)"
      if "set K \<subseteq> set L" for K
      using that
    proof (induction K)
      case (Cons m K)
      then show ?case using other [of m] by (cases "m = n") (auto simp: map_add_def split: option.splits)
    qed simp
    then show ?thesis using n by simp
  qed
qed

lemma tree_internal:
  assumes none: "\<And>n. cs n = None \<Longrightarrow> part (ns @ [n]) M = Map.empty"
    and some: "\<And>n c. cs n = Some c \<Longrightarrow> \<exists>node. S (node_key (child_version c) (ns @ [n])) = Some node \<and>
        child_hash c = hash_of H node \<and> (child_is_leaf c \<longleftrightarrow> is_leaf node) \<and> child_node_type c \<noteq> NullType \<and>
        tree_at H S (ns @ [n]) node (part (ns @ [n]) M)"
    and M: "strictly_below ns (dom M)" "finite (dom M)" "\<not> (\<exists>k. dom M \<subseteq> {k})"
  shows "tree_at H S ns (Internal \<lparr>children = cs, leaf_count = l\<rparr>) M"
proof -
  obtain k k' where "{k, k'} \<subseteq> dom M" "k \<noteq> k'" using M(3) by blast
  then show ?thesis using none some M by (intro tree_at.internal) simp_all
qed

end
