(* ===== verification/Merkle_Update.thy ===== *)
theory Merkle_Update
  imports Merkle_Laws
begin

text \<open>
  The batch update of the state tree builds a tree of the updated entries: first a subtree of new
  entries, then one beside an existing leaf, then the update of a stored tree.
\<close>


section \<open>New internal nodes\<close>

definition child_nodes :: "version \<Rightarrow> nibble list \<Rightarrow> (nibble \<times> 'p node) list \<Rightarrow> (tree_node_key \<times> 'p node) list" where
  "child_nodes v ns cs = map (\<lambda>(n, c). (node_key v (ns @ [n]), c)) cs"

lemma child_nodes_lookup:
  "map_of (child_nodes v ns cs) (node_key u ms) = (if u = v \<and> length ms = Suc (length ns) \<and> ms = ns @ [last ms] then map_of cs (last ms) else None)"
  by (induction cs) (auto simp: child_nodes_def)

lemma child_nodes_at [simp]: "map_of (child_nodes v ns cs) (node_key v (ns @ [n])) = map_of cs n"
  by (simp add: child_nodes_lookup)

lemma child_nodes_deeper: "strict_prefix (ns @ [n]) ms \<Longrightarrow> map_of (child_nodes v ns cs) (node_key u ms) = None"
  by (auto simp: child_nodes_lookup dest: prefix_length_less)

lemma below_child_nodes: "distinct (map fst cs) \<Longrightarrow> below_path ns v (child_nodes v ns cs)"
  unfolding below_path_def child_nodes_def
  by (force simp: distinct_map inj_on_def strict_prefix_def)

lemma tree_node_type: "tree_at H S ns node M \<Longrightarrow> node_type node \<noteq> NullType"
  by (induction rule: tree_at.induct) simp_all

text \<open>The new internal node over the new children \<open>cs\<close> and the old children that they do not replace.\<close>

lemma build_internal_tree:
  fixes cs :: "(nibble \<times> 'p node) list"
  assumes cs: "distinct (map fst cs)" "\<And>n c. (n, c) \<in> set cs \<Longrightarrow> tree_at H T (ns @ [n]) c (part (ns @ [n]) M)"
    and old: "\<And>n c. n \<notin> fst ` set cs \<Longrightarrow> old n = Some c \<Longrightarrow> \<exists>node. T (node_key (child_version c) (ns @ [n])) = Some node \<and>
        child_hash c = hash_of H node \<and> (child_is_leaf c \<longleftrightarrow> is_leaf node) \<and> child_node_type c \<noteq> NullType \<and>
        tree_at H T (ns @ [n]) node (part (ns @ [n]) M)"
    and rest: "\<And>n. n \<notin> fst ` set cs \<Longrightarrow> old n = None \<Longrightarrow> part (ns @ [n]) M = Map.empty"
    and T: "\<And>n. T (node_key v (ns @ [n])) = None"
    and M: "strictly_below ns (dom M)" "finite (dom M)" "\<not> (\<exists>k. dom M \<subseteq> {k})"
  obtains i where "collects (build_internal H (node_key w ns) v None old cs) (Some (Internal i)) (child_nodes v ns cs) []"
    "tree_at H (T ++ map_of (child_nodes v ns cs)) ns (Internal i) M"
proof -
  define new where "new = old ++ map_of (rev (map (\<lambda>(n, c). (n, child_of H v c)) cs))"
  have fsts: "map fst (map (\<lambda>(n, c). (n, child_of H v c)) cs) = map fst cs" by (induction cs) auto
  have lookup: "new n = (case map_of cs n of Some c \<Rightarrow> Some (child_of H v c) | None \<Rightarrow> old n)" for n
  proof -
    have "map_of (rev (map (\<lambda>(n, c). (n, child_of H v c)) cs)) = map_of (map (\<lambda>(n, c). (n, child_of H v c)) cs)"
      using cs(1) fsts by (subst map_of_inject_set) (simp_all add: rev_map [symmetric] del: map_map)
    moreover have "map_of (map (\<lambda>(n, c). (n, child_of H v c)) cs) n = map_option (child_of H v) (map_of cs n)"
      by (induction cs) auto
    ultimately show ?thesis by (auto simp: new_def map_add_def split: option.split)
  qed
  let ?T = "T ++ map_of (child_nodes v ns cs)"
  have keep: "tree_at H ?T (ns @ [n]) c X" if "tree_at H T (ns @ [n]) c X" for n c X
    using that by (rule tree_at_mono) (simp add: map_add_def child_nodes_deeper)
  have new_some: "\<exists>node. ?T (node_key (child_version c) (ns @ [n])) = Some node \<and>
        child_hash c = hash_of H node \<and> (child_is_leaf c \<longleftrightarrow> is_leaf node) \<and> child_node_type c \<noteq> NullType \<and>
        tree_at H ?T (ns @ [n]) node (part (ns @ [n]) M)" if c: "new n = Some c" for n c
  proof (cases "map_of cs n")
    case None
    then have n: "n \<notin> fst ` set cs" by (simp add: map_of_eq_None_iff)
    then obtain node where node: "T (node_key (child_version c) (ns @ [n])) = Some node"
        "child_hash c = hash_of H node \<and> (child_is_leaf c \<longleftrightarrow> is_leaf node) \<and> child_node_type c \<noteq> NullType"
        "tree_at H T (ns @ [n]) node (part (ns @ [n]) M)" using old [OF n] c lookup None by fastforce
    then have "child_version c \<noteq> v" using T [of n] by auto
    then have "?T (node_key (child_version c) (ns @ [n])) = Some node" using node(1) by (simp add: map_add_def child_nodes_lookup)
    then show ?thesis using node(2) keep [OF node(3)] by (intro exI [of _ node]) simp
  next
    case (Some node)
    then have eq: "c = child_of H v node" using c lookup by simp
    have tree: "tree_at H T (ns @ [n]) node (part (ns @ [n]) M)" using cs(2) map_of_SomeD [OF Some] by simp
    then show ?thesis using keep [OF tree] tree_node_type [OF tree] Some by (simp add: eq map_add_def)
  qed
  have "child_node_type c \<noteq> NullType" if "new n = Some c" for n c using new_some [OF that] by blast
  then obtain l where l: "(InternalNode_new new :: (storage_error, internal_node) res) = Ok \<lparr>children = new, leaf_count = l\<rparr>"
    using InternalNode_new_Ok [of new] by blast
  have "collects (build_internal H (node_key w ns) v None old cs) (Some (Internal \<lparr>children = new, leaf_count = l\<rparr>)) (child_nodes v ns cs) []"
    unfolding build_internal_def child_nodes_def
    by (rule collects_bind [OF collects_put_children, where xs' = "[]" and ss' = "[]", simplified])
       (rule collects_lift, use l new_def in auto)
  moreover have "tree_at H ?T ns (Internal \<lparr>children = new, leaf_count = l\<rparr>) M"
  proof (rule tree_internal [OF _ new_some M])
    fix n assume "new n = None"
    then have "map_of cs n = None" "old n = None" using lookup [of n] by (auto split: option.splits)
    then show "part (ns @ [n]) M = Map.empty" using rest by (simp add: map_of_eq_None_iff)
  qed
  ultimately show ?thesis by (rule that)
qed

lemma part_only:
  assumes "strictly_below ns (dom M)" "\<And>m. m \<noteq> n \<Longrightarrow> part (ns @ [m]) M = Map.empty"
  shows "part (ns @ [n]) M = M"
proof
  fix k
  show "part (ns @ [n]) M k = M k"
  proof (cases "M k")
    case (Some x)
    then obtain m where "part (ns @ [m]) M k = Some x" using entry_in_part [OF assms(1)] by blast
    then show ?thesis using Some assms(2) [of m] by (cases "m = n") auto
  qed (simp add: part_apply)
qed

lemma tree_at_up: "tree_at H S (ns @ [n]) (Leaf l) M \<Longrightarrow> tree_at H T ns (Leaf l) M"
  by (erule tree_at_LeafE) (auto intro!: tree_at.leaf dest: append_prefixD)

lemma assemble_build:
  "assemble H key v cache cs = (if cs = [] then mreturn None
     else if length cs = 1 \<and> is_leaf (snd (hd cs)) then mreturn (Some (snd (hd cs)))
     else build_internal H key v cache Map.empty cs)"
  by (cases cs) (auto simp: assemble_def build_internal_def)

text \<open>Two children, or one that is no leaf, have at least two entries.\<close>

lemma many_entries:
  assumes "(n, c) \<in> set cs" "tree_at H T (ns @ [n]) c (part (ns @ [n]) M)"
    and "is_leaf c \<Longrightarrow> \<exists>m. m \<noteq> n \<and> part (ns @ [m]) M \<noteq> Map.empty"
  shows "\<not> (\<exists>k. dom M \<subseteq> {k})"
proof
  assume "\<exists>k. dom M \<subseteq> {k}"
  then obtain k where k: "dom M \<subseteq> {k}" by blast
  have sub: "dom (part (ns @ [m]) M) \<subseteq> {k}" for m using k by (auto simp: dom_part)
  have c: "dom (part (ns @ [n]) M) = {k}" using tree_at_dom [OF assms(2)] sub [of n] by blast
  then obtain m where m: "m \<noteq> n" "part (ns @ [m]) M \<noteq> Map.empty" using assms(3) tree_at_leaf_iff [OF assms(2)] by blast
  have "k \<in> dom (part (ns @ [m]) M)" using m(2) sub [of m] by (metis dom_eq_empty_conv subset_singletonD singletonI)
  then show False using c m(1) by (auto simp: dom_part dest: prefix_snoc_eq)
qed

lemma assemble_tree:
  fixes cs :: "(nibble \<times> 'p node) list"
  assumes cs: "distinct (map fst cs)" "\<And>n c. (n, c) \<in> set cs \<Longrightarrow> tree_at H T (ns @ [n]) c (part (ns @ [n]) M)"
    and rest: "\<And>n. n \<notin> fst ` set cs \<Longrightarrow> part (ns @ [n]) M = Map.empty"
    and T: "\<And>n. T (node_key v (ns @ [n])) = None"
    and M: "strictly_below ns (dom M)" "finite (dom M)"
  obtains r ys where "collects (assemble H (node_key w ns) v None cs) r ys []" "ys = [] \<or> ys = child_nodes v ns cs"
    "root_of H (T ++ map_of ys) ns M r"
proof (cases "length cs \<le> 1 \<and> (\<forall>(n, c) \<in> set cs. is_leaf c)")
  case True
  show ?thesis
  proof (cases cs)
    case Nil
    have "M k = None" for k
    proof (cases "M k")
      case (Some x)
      then obtain n where "part (ns @ [n]) M k = Some x" using entry_in_part [OF M(1)] by blast
      then show ?thesis using rest [of n] Nil by simp
    qed
    then have "root_of H (T ++ map_of []) ns M None" by (auto simp: root_of_def)
    moreover have "collects (assemble H (node_key w ns) v None cs) None [] []" using Nil by (simp add: assemble_build)
    ultimately show ?thesis using that [of None "[]"] by simp
  next
    case (Cons x cs')
    then obtain n l where one: "cs = [(n, Leaf l)]" using True by (cases x; cases "snd x") auto
    have "part (ns @ [n]) M = M" using part_only [OF M(1)] rest one by simp
    then have "tree_at H T ns (Leaf l) M" using cs(2) [of n "Leaf l"] one tree_at_up by simp
    moreover have "collects (assemble H (node_key w ns) v None cs) (Some (Leaf l)) [] []" using one by (simp add: assemble_build)
    ultimately show ?thesis using that [of "Some (Leaf l)" "[]"] by (simp add: root_of_def)
  qed
next
  case False
  have "\<not> (\<exists>k. dom M \<subseteq> {k})"
  proof -
    obtain n c cs' where Cons: "cs = (n, c) # cs'" using False by (cases cs) auto
    have "\<exists>m. m \<noteq> n \<and> part (ns @ [m]) M \<noteq> Map.empty" if leaf: "is_leaf c"
    proof -
      obtain m d where m: "(m, d) \<in> set cs'" using False Cons leaf by (cases cs') auto
      then have "m \<noteq> n" "part (ns @ [m]) M \<noteq> Map.empty" using cs Cons tree_at_dom [OF cs(2) [of m d]] by force+
      then show ?thesis by blast
    qed
    then show ?thesis using cs(2) [of n c] Cons many_entries [of n c cs] by simp
  qed
  from build_internal_tree [OF cs _ rest T M this, of Map.empty w] obtain i
    where "collects (build_internal H (node_key w ns) v None Map.empty cs) (Some (Internal i)) (child_nodes v ns cs) []"
      "tree_at H (T ++ map_of (child_nodes v ns cs)) ns (Internal i) M" by auto
  moreover have "assemble H (node_key w ns) v None cs = build_internal H (node_key w ns) v None Map.empty cs"
    using False by (cases cs) (auto simp: assemble_build)
  ultimately show ?thesis using that [of "Some (Internal i)"] by (simp add: root_of_def)
qed

section \<open>Updates below a path\<close>

text \<open>
  \<open>updated H ns v S M r xs ss\<close>: the new nodes \<open>xs\<close> of version \<open>v\<close> lie strictly below the path \<open>ns\<close>, the stale nodes
  \<open>ss\<close> are nodes of the store at or below it, and over the store without the stale nodes the new ones make
  \<open>r\<close> the root of a tree of the entries \<open>M\<close>. A new node leads to an entry of \<open>M\<close>, and a new leaf is one.
\<close>

definition node_of :: "version \<Rightarrow> 'p entries \<Rightarrow> tree_node_key \<times> 'p node \<Rightarrow> bool" where
  "node_of v M x \<longleftrightarrow> (\<exists>ms k. fst x = node_key v ms \<and> k \<in> dom M \<and> prefix ms (key_nibbles k) \<and> (case snd x of
     Leaf l \<Rightarrow> leaf_key l = k \<and> M k = Some (value_hash l, payload l)
   | Internal i \<Rightarrow> True
   | Null \<Rightarrow> False))"

lemma node_of_tree:
  assumes "tree_at H T ms c (part ms M)"
  shows "node_of v M (node_key v ms, c)"
proof (cases c)
  case (Leaf l)
  then have "part ms M = [leaf_key l \<mapsto> (value_hash l, payload l)]" "prefix ms (key_nibbles (leaf_key l))"
    using assms by (auto elim: tree_at_LeafE)
  then have "M (leaf_key l) = Some (value_hash l, payload l)" using part_apply [of ms M "leaf_key l"] by simp
  then show ?thesis using Leaf \<open>prefix ms (key_nibbles (leaf_key l))\<close>
    unfolding node_of_def by (intro exI [of _ ms] exI [of _ "leaf_key l"]) auto
next
  case (Internal i)
  obtain k where "k \<in> dom (part ms M)" using tree_at_dom [OF assms] by blast
  then show ?thesis using Internal unfolding node_of_def by (intro exI [of _ ms] exI [of _ k]) (auto simp: dom_part)
next
  case Null
  then show ?thesis using assms by (auto elim: tree_at_NullE)
qed

lemma node_of_part: "node_of v (part ns M) x \<Longrightarrow> node_of v M x"
  unfolding node_of_def by (auto simp: dom_part part_apply split: node.splits if_splits)

lemma node_of_children:
  assumes "\<And>n c. (n, c) \<in> set cs \<Longrightarrow> tree_at H T (ns @ [n]) c (part (ns @ [n]) M)" "x \<in> set (child_nodes v ns cs)"
  shows "node_of v M x"
proof -
  obtain n c where "(n, c) \<in> set cs" "x = (node_key v (ns @ [n]), c)" using assms(2) by (auto simp: child_nodes_def)
  then show ?thesis using node_of_tree assms(1) by blast
qed

definition updated :: "hasher \<Rightarrow> nibble list \<Rightarrow> version \<Rightarrow> 'p reader \<Rightarrow> 'p entries \<Rightarrow> 'p node option \<Rightarrow>
    (tree_node_key \<times> 'p node) list \<Rightarrow> tree_node_key list \<Rightarrow> bool" where
  "updated H ns v S M r xs ss \<longleftrightarrow> below_path ns v xs \<and> (\<forall>x \<in> set xs. node_of v M x) \<and>
     (\<forall>k \<in> set ss. S k \<noteq> None \<and> (\<exists>u ms. prefix ns ms \<and> k = node_key u ms)) \<and>
     root_of H ((S |` (- set ss)) ++ map_of xs) ns M r"

lemma nodes_of_update:
  assumes "\<And>n. n \<in> set L \<Longrightarrow> updated H (ns @ [n]) v S (part (ns @ [n]) M) (r n) (xs n) (ss n)"
    and "\<And>n c. (n, c) \<in> set cs \<Longrightarrow> tree_at H T (ns @ [n]) c (part (ns @ [n]) M)" and "ys = [] \<or> ys = child_nodes v ns cs"
  shows "\<forall>x \<in> set (concat (map xs L)) \<union> set ys. node_of v M x"
proof
  fix x assume "x \<in> set (concat (map xs L)) \<union> set ys"
  then consider n where "n \<in> set L" "x \<in> set (xs n)" | "x \<in> set (child_nodes v ns cs)" using assms(3) by auto
  then show "node_of v M x"
  proof cases
    case 1
    then have "node_of v (part (ns @ [n]) M) x" using assms(1) by (simp add: updated_def)
    then show ?thesis by (rule node_of_part)
  next
    case 2
    with assms(2) show ?thesis by (rule node_of_children)
  qed
qed

definition nibbles_of :: "nat \<Rightarrow> 'p kvs \<Rightarrow> nibble list" where
  "nibbles_of d kvs = filter (\<lambda>n. n \<in> nib d ` set kvs) all_nibbles"

lemma nibbles_of_simps [simp]:
  "distinct (nibbles_of d kvs)"
  "n \<in> set (nibbles_of d kvs) \<longleftrightarrow> n \<in> nib d ` set kvs"
  by (simp_all add: nibbles_of_def)

lemma groups_eq: "groups d kvs = map (\<lambda>n. (n, group_of d kvs n)) (nibbles_of d kvs)"
  by (simp add: groups_def nibbles_of_def)

lemma not_below: "n \<notin> set (nibbles_of d kvs) \<Longrightarrow> group_of d kvs n = []"
  by (auto simp: group_of_def filter_empty_conv)

text \<open>An operation for each range is one for each group.\<close>

lemma collects_groups:
  fixes F :: "nibble \<Rightarrow> 'p kvs \<Rightarrow> ('p, 'a) batch_fn"
  assumes kvs: "at_depth d kvs"
    and F: "\<And>n. n \<in> set (nibbles_of d kvs) \<Longrightarrow> collects (F n (group_of d kvs n)) (r n) (xs n) (ss n)"
    and K: "collects (K (map (\<lambda>n. (n, r n)) (nibbles_of d kvs))) r' xs' ss'"
  shows "collects (mbind (mlift (\<lambda>_. nibble_ranges kvs d 0)) (\<lambda>ranges.
      mbind (mmap (\<lambda>(left, right). mbind (mlift (\<lambda>_. key_get_nibble (fst (kvs ! left)) d)) (\<lambda>n.
        mbind (F n (kvs_slice kvs left right)) (\<lambda>r. mreturn (n, r)))) ranges) K)) r'
    (concat (map xs (nibbles_of d kvs)) @ xs') (concat (map ss (nibbles_of d kvs)) @ ss')"
proof -
  let ?L = "nibbles_of d kvs" and ?G = "\<lambda>(n, g). mbind (F n g) (\<lambda>r. mreturn (n, r))"
  let ?f = "\<lambda>(left, right). mbind (mlift (\<lambda>_. key_get_nibble (fst (kvs ! left)) d)) (\<lambda>n.
        mbind (F n (kvs_slice kvs left right)) (\<lambda>r. mreturn (n, r)))"
  obtain rs where rs: "(nibble_ranges kvs d 0 :: (storage_error, _) res) = Ok rs" "\<forall>(l, r) \<in> set rs. l < length kvs"
    "map (\<lambda>(l, r). (nib d (kvs ! l), kvs_slice kvs l r)) rs = groups d kvs"
    using nibble_ranges_groups [OF kvs] by blast
  have "?f x = ?G ((\<lambda>(l, r). (nib d (kvs ! l), kvs_slice kvs l r)) x)" if "x \<in> set rs" for x
    using at_depth_nth [OF kvs, where 'e = storage_error] rs(2) that by (cases x) (auto simp: fun_eq_iff)
  then have "mmap ?f rs = mmap ?G (groups d kvs)" unfolding rs(3) [symmetric] by (rule mmap_map)
  also have "\<dots> = mmap (\<lambda>n. ?G (n, group_of d kvs n)) ?L" unfolding groups_eq by (rule mmap_map [symmetric]) simp
  finally have "mmap ?f rs = mmap (\<lambda>n. ?G (n, group_of d kvs n)) ?L" .
  moreover have "collects (mmap (\<lambda>n. ?G (n, group_of d kvs n)) ?L) (map (\<lambda>n. (n, r n)) ?L) (concat (map xs ?L)) (concat (map ss ?L))"
  proof (rule collects_mmap)
    fix n assume "n \<in> set ?L"
    from F [OF this] have "collects (mbind (F n (group_of d kvs n)) (\<lambda>r. mreturn (n, r))) (n, r n) (xs n) (ss n)"
      by (rule collects_return) (rule refl)
    then show "collects (?G (n, group_of d kvs n)) (n, r n) (xs n) (ss n)" by simp
  qed
  ultimately have "collects (mmap ?f rs) (map (\<lambda>n. (n, r n)) ?L) (concat (map xs ?L)) (concat (map ss ?L))" by simp
  from collects_bind [where k = K, OF this K] show ?thesis by (rule collects_lift [OF rs(1)])
qed

text \<open>Updates below different nibbles do not meet.\<close>

lemma updates_apart:
  assumes G: "\<And>n. n \<in> set L \<Longrightarrow> updated H (ns @ [n]) v S (part (ns @ [n]) M) (r n) (xs n) (ss n)" and L: "distinct L"
    and A: "\<And>u ms. node_key u ms \<in> A \<Longrightarrow> \<not> strict_prefix ns ms"
  defines "T \<equiv> (S |` (- (A \<union> set (concat (map ss L))))) ++ map_of (concat (map xs L))"
  shows "n \<in> set L \<Longrightarrow> root_of H T (ns @ [n]) (part (ns @ [n]) M) (r n)"
    and "n \<notin> set L \<Longrightarrow> prefix (ns @ [n]) ms \<Longrightarrow> T (node_key u ms) = S (node_key u ms)"
    and "fresh v S \<Longrightarrow> T (node_key v (ns @ [n])) = None"
    and "below_path ns v (concat (map xs L))"
proof -
  have below: "below_path (ns @ [n]) v (xs n)" if "n \<in> set L" for n using G [OF that] by (simp add: updated_def)
  show "below_path ns v (concat (map xs L))" using below L by (rule below_path_concat)
  have same: "map_of (concat (map xs L)) (node_key u ms) = map_of (xs n) (node_key u ms)"
    if "n \<in> set L" "strict_prefix (ns @ [n]) ms" for n u ms
    using below L that by (rule below_path_concat)
  have longer: "prefix (ns @ [n]) ms \<Longrightarrow> strict_prefix ns ms" for n ms
    using append_prefixD [of ns "[n]" ms] by (auto simp: strict_prefix_def dest: prefix_length_le)
  have stale: "n = m" if m: "m \<in> set L" "node_key u ms \<in> set (ss m)" "prefix (ns @ [n]) ms" for m n u ms
  proof -
    obtain u' ms' where "prefix (ns @ [m]) ms'" "node_key u ms = node_key u' ms'"
      using G [OF m(1)] m(2) unfolding updated_def by blast
    then have "prefix (ns @ [m]) ms" by simp
    then show ?thesis by (rule prefix_snoc_eq [OF m(3)])
  qed
  have new: "m = n" if "m \<in> set L" "map_of (xs m) (node_key u ms) = Some x" "prefix (ns @ [n]) ms" for m n u ms x
  proof -
    have "strict_prefix (ns @ [m]) ms" using below_path_lookup [OF below [OF that(1)] that(2)] by simp
    then have "prefix (ns @ [m]) ms" by (simp add: strict_prefix_def)
    then show ?thesis by (rule prefix_snoc_eq [OF _ that(3)])
  qed
  have new_concat: "\<exists>m \<in> set K. map_of (xs m) k = Some x" if "map_of (concat (map xs K)) k = Some x" for K k x
    using that by (induction K) (auto simp: map_add_def split: option.splits)
  show "root_of H T (ns @ [n]) (part (ns @ [n]) M) (r n)" if n: "n \<in> set L"
  proof (rule root_of_mono [of H "(S |` (- set (ss n))) ++ map_of (xs n)"])
    show "root_of H ((S |` (- set (ss n))) ++ map_of (xs n)) (ns @ [n]) (part (ns @ [n]) M) (r n)"
      using G [OF n] by (simp add: updated_def)
    fix u ms x assume ms: "strict_prefix (ns @ [n]) ms" and x: "((S |` (- set (ss n))) ++ map_of (xs n)) (node_key u ms) = Some x"
    have "node_key u ms \<notin> A \<union> set (concat (map ss L))" if "node_key u ms \<notin> set (ss n)"
      using that A [of u ms] longer [of n ms] stale [of _ u ms n] ms by (auto simp: strict_prefix_def)
    then show "T (node_key u ms) = Some x"
      using x same [OF n ms, of u] unfolding T_def by (auto simp: map_add_def restrict_map_def split: option.splits if_splits)
  qed
  show "T (node_key u ms) = S (node_key u ms)" if n: "n \<notin> set L" "prefix (ns @ [n]) ms"
  proof -
    have "map_of (concat (map xs L)) (node_key u ms) = None"
    proof (rule ccontr)
      assume "map_of (concat (map xs L)) (node_key u ms) \<noteq> None"
      then obtain x m where m: "m \<in> set L" "map_of (xs m) (node_key u ms) = Some x" using new_concat by blast
      from new [OF m n(2)] show False using m(1) n(1) by simp
    qed
    moreover have "node_key u ms \<notin> A \<union> set (concat (map ss L))"
      using A [of u ms] longer [OF n(2)] stale [of _ u ms n] n by auto
    ultimately show ?thesis by (simp add: T_def map_add_def restrict_map_def)
  qed
  show "T (node_key v (ns @ [n])) = None" if "fresh v S"
  proof -
    have "map_of (concat (map xs L)) (node_key v (ns @ [n])) = None"
    proof (rule ccontr)
      assume "map_of (concat (map xs L)) (node_key v (ns @ [n])) \<noteq> None"
      then obtain x m where m: "m \<in> set L" "map_of (xs m) (node_key v (ns @ [n])) = Some x" using new_concat by blast
      from below_path_lookup [OF below [OF m(1)] m(2)] show False by (auto dest: prefix_length_less)
    qed
    then show ?thesis using that by (simp add: T_def map_add_def restrict_map_def fresh_def)
  qed
qed

section \<open>Subtrees of new entries\<close>

lemma part_empty [simp]: "part ns Map.empty = Map.empty"
  by (simp add: part_def)

lemma upd_Nil [simp]: "upd M [] = M"
  by (simp add: upd_def)

lemma dom_upd: "dom (upd M kvs) \<subseteq> dom M \<union> keys_of kvs"
proof
  fix k assume "k \<in> dom (upd M kvs)"
  then show "k \<in> dom M \<union> keys_of kvs" by (cases "map_of kvs k") (auto simp: upd_def dest: map_of_SomeD intro: rev_image_eqI)
qed

lemma finite_dom_upd: "finite (dom M) \<Longrightarrow> finite (dom (upd M kvs))"
  using finite_subset [OF dom_upd] by simp

lemma some_children_iff: "(n, c) \<in> set (some_children (map (\<lambda>n. (n, r n)) L)) \<longleftrightarrow> n \<in> set L \<and> r n = Some c"
  by (induction L) (auto simp: some_children_def split: option.splits)

lemma distinct_some_children: "distinct L \<Longrightarrow> distinct (map fst (some_children (map (\<lambda>n. (n, r n)) L)))"
proof (induction L)
  case (Cons n L)
  then have "n \<notin> fst ` set (some_children (map (\<lambda>n. (n, r n)) L))" by (auto simp: some_children_iff)
  then show ?case using Cons by (cases "r n") (auto simp: some_children_def)
qed (simp add: some_children_def)

lemma updated_leaf:
  assumes "prefix ns (key_nibbles (fst kv))" "M0 = Map.empty \<or> (\<exists>x. M0 = [fst kv \<mapsto> x])"
  shows "updated H ns v S (upd M0 [kv]) (new_leaf_of kv v) [] []"
proof -
  obtain k x where kv: "kv = (k, x)" by fastforce
  have upd: "upd M0 [kv] = (case x of None \<Rightarrow> Map.empty | Some y \<Rightarrow> [k \<mapsto> y])"
    using assms(2) by (auto simp: upd_def kv fun_eq_iff split: option.splits)
  show ?thesis
  proof (cases x)
    case (Some y)
    obtain h p where y: "y = (h, p)" by fastforce
    have "tree_at H T ns (Leaf \<lparr>leaf_key = k, value_hash = h, payload = p, leaf_version = v\<rparr>) [k \<mapsto> (h, p)]" for T
      using tree_at.leaf [of ns "\<lparr>leaf_key = k, value_hash = h, payload = p, leaf_version = v\<rparr>" H T] assms kv by simp
    then show ?thesis unfolding updated_def upd using Some kv y
      by (simp add: below_path_def root_of_def new_leaf_of_def new_leaf_def)
  qed (use upd kv in \<open>simp add: updated_def below_path_def root_of_def new_leaf_of_def\<close>)
qed

lemma updated_append:
  assumes "below_path ns v xs" "below_path ns v ys" "fst ` set xs \<inter> fst ` set ys = {}" "\<forall>x \<in> set xs \<union> set ys. node_of v M x"
    "\<forall>k \<in> set ss. S k \<noteq> None \<and> (\<exists>u ms. prefix ns ms \<and> k = node_key u ms)"
    "root_of H (((S |` (- set ss)) ++ map_of xs) ++ map_of ys) ns M r"
  shows "updated H ns v S M r (xs @ ys) ss"
proof -
  have "map_of xs ++ map_of ys = map_of (xs @ ys)"
    using assms(3) by (subst map_add_comm) (auto simp: dom_map_of_conv_image_fst)
  then have "((S |` (- set ss)) ++ map_of xs) ++ map_of ys = (S |` (- set ss)) ++ map_of (xs @ ys)" by (metis map_add_assoc)
  then show ?thesis using assms by (auto simp: updated_def below_path_def)
qed

text \<open>The new nodes below the children of a path and the children themselves do not meet.\<close>

lemma child_nodes_apart:
  assumes "\<And>n. n \<in> set L \<Longrightarrow> below_path (ns @ [n]) v (xs n)"
  shows "fst ` set (concat (map xs L)) \<inter> fst ` set (child_nodes v ns cs) = {}"
proof -
  have False if k: "k \<in> fst ` set (xs n)" "k \<in> fst ` set (child_nodes v ns cs)" "n \<in> set L" for k n
  proof -
    obtain ms where "strict_prefix (ns @ [n]) ms" "k = node_key v ms" using assms [OF k(3)] k(1) unfolding below_path_def by blast
    moreover obtain m where "k = node_key v (ns @ [m])" using k(2) by (auto simp: child_nodes_def)
    ultimately show False by (auto dest: prefix_length_less)
  qed
  then show ?thesis by (auto simp only: set_concat set_map image_iff Union_iff Int_iff)
qed

lemma group_length:
  assumes "\<forall>k \<in> keys_of kvs. length (key_nibbles k) < length ns + Suc levels"
  shows "\<forall>k \<in> keys_of (group_of d kvs n). length (key_nibbles k) < length (ns @ [n]) + levels"
  using assms by (auto simp: group_of_def)

text \<open>
  What the two functions that build a subtree have in common: the results for the groups are put
  together, with the existing leaf at the nibble \<open>e\<close> if its group is not updated.
\<close>

lemma assemble_groups:
  assumes kvs: "kvs_ok ns kvs" and S: "fresh v S"
    and below: "strictly_below ns (dom M)" "finite (dom M)"
    and G: "\<And>n. n \<in> nib (length ns) ` set kvs \<Longrightarrow> updated H (ns @ [n]) v S (part (ns @ [n]) M) (r n) (xs n) []"
    and extra: "distinct (map fst extra)" "\<And>n c. (n, c) \<in> set extra \<Longrightarrow> n \<notin> nib (length ns) ` set kvs \<and>
        tree_at H S (ns @ [n]) c (part (ns @ [n]) M)"
    and rest: "\<And>n. n \<notin> nib (length ns) ` set kvs \<Longrightarrow> n \<notin> fst ` set extra \<Longrightarrow> part (ns @ [n]) M = Map.empty"
  shows "\<exists>r' ys.
    collects (assemble H (node_key w ns) v None (some_children (map (\<lambda>n. (n, r n)) (nibbles_of (length ns) kvs)) @ extra)) r' ys [] \<and>
    updated H ns v S M r' (concat (map xs (nibbles_of (length ns) kvs)) @ ys) []"
proof -
  let ?L = "nibbles_of (length ns) kvs" and ?cs = "some_children (map (\<lambda>n. (n, r n)) (nibbles_of (length ns) kvs)) @ extra"
  define T where "T = S ++ map_of (concat (map xs ?L))"
  have G': "n \<in> set ?L \<Longrightarrow> updated H (ns @ [n]) v S (part (ns @ [n]) M) (r n) (xs n) ((\<lambda>_. []) n)" for n using G by simp
  have restrict: "S |` (- ({} \<union> set (concat (map (\<lambda>_. []) ?L)))) = S" by (simp add: restrict_map_def)
  note apart = updates_apart [where L = ?L and A = "{}" and ss = "\<lambda>_. []", OF G' nibbles_of_simps(1), unfolded restrict, folded T_def, simplified]
  have cs: "distinct (map fst ?cs)"
    using extra distinct_some_children [OF nibbles_of_simps(1), of r "length ns" kvs] by (fastforce simp: some_children_iff)
  have trees: "tree_at H T (ns @ [n]) c (part (ns @ [n]) M)" if "(n, c) \<in> set ?cs" for n c
  proof (cases "n \<in> set ?L")
    case True
    then have "r n = Some c" using that extra(2) by (auto simp: some_children_iff)
    then show ?thesis using apart(1) [of n] True by (simp add: root_of_def)
  next
    case False
    then have "(n, c) \<in> set extra" using that by (auto simp: some_children_iff)
    then have "tree_at H S (ns @ [n]) c (part (ns @ [n]) M)" using extra(2) by blast
    then show ?thesis
    proof (rule tree_at_mono)
      fix u ms x assume "strict_prefix (ns @ [n]) ms" "S (node_key u ms) = Some x"
      then show "T (node_key u ms) = Some x" using apart(2) [of n ms u] False by (simp add: strict_prefix_def)
    qed
  qed
  have "part (ns @ [n]) M = Map.empty" if n: "n \<notin> fst ` set ?cs" for n
  proof (cases "n \<in> set ?L")
    case True
    have "r n = None" using n True some_children_iff [of n _ r ?L] by (cases "r n") (force simp del: nibbles_of_simps)+
    then show ?thesis using apart(1) [of n] True by (simp add: root_of_def)
  qed (use rest [of n] n in auto)
  from assemble_tree [OF cs trees this apart(3) [OF S] below, of w]
  obtain r' ys where ys: "collects (assemble H (node_key w ns) v None ?cs) r' ys []" "ys = [] \<or> ys = child_nodes v ns ?cs"
    "root_of H (T ++ map_of ys) ns M r'" by blast
  have "below_path ns v ys" using ys(2) below_child_nodes [OF cs] by (auto simp: below_path_def)
  moreover have "fst ` set (concat (map xs ?L)) \<inter> fst ` set ys = {}"
    using ys(2) child_nodes_apart [of ?L ns v xs ?cs] G' by (auto simp: updated_def)
  moreover have "\<forall>x \<in> set (concat (map xs ?L)) \<union> set ys. node_of v M x"
    using G' trees ys(2) by (rule nodes_of_update)
  ultimately have "updated H ns v S M r' (concat (map xs ?L) @ ys) []"
    using apart(4) ys(3) by (intro updated_append) (simp_all add: T_def restrict_map_def)
  then show ?thesis using ys(1) by blast
qed

lemma group_keys: "keys_of (group_of d kvs n) \<subseteq> keys_of kvs"
  by (auto simp: group_of_def)

lemma two_keys:
  assumes "kvs_ok ns kvs" "1 < length kvs"
  obtains k k' where "k \<in> keys_of kvs" "k' \<in> keys_of kvs" "k \<noteq> k'"
proof -
  obtain a b xs where "kvs = a # b # xs" using assms(2) by (cases kvs; cases "tl kvs") auto
  moreover from this have "fst a \<noteq> fst b" using kvs_ok_distinct [OF assms(1)] by simp
  ultimately show ?thesis using that [of "fst a" "fst b"] by simp
qed

lemma choose_results:
  assumes "\<And>n. n \<in> A \<Longrightarrow> \<exists>r xs ss. P n r xs ss"
  obtains r xs ss where "\<forall>n \<in> A. P n (r n) (xs n) (ss n)"
  using assms by metis

theorem batch_update_subtree_tree:
  assumes "kvs_ok ns kvs" "prefix_free (keys_of kvs)" "\<forall>k \<in> keys_of kvs. length (key_nibbles k) < length ns + levels"
    "0 < levels" "fresh v S"
  shows "\<exists>r xs. collects (batch_update_subtree H levels (node_key w ns) v kvs (length ns) None) r xs [] \<and>
    updated H ns v S (upd Map.empty kvs) r xs []"
  using assms
proof (induction levels arbitrary: ns kvs w)
  case (Suc levels)
  let ?d = "length ns"
  show ?case
  proof (cases "length kvs = 1")
    case True
    then obtain kv where one: "kvs = [kv]" by (cases kvs) auto
    have "updated H ns v S (upd Map.empty kvs) (new_leaf_of kv v) [] []"
      using Suc.prems(1) updated_leaf [of ns kv Map.empty] unfolding one by (simp add: kvs_ok_def)
    moreover have "collects (batch_update_subtree H (Suc levels) (node_key w ns) v kvs ?d None) (new_leaf_of kv v) [] []"
      by (simp add: one)
    ultimately show ?thesis by blast
  next
    case False
    have strict: "strictly_below ns (keys_of kvs)"
    proof (cases kvs)
      case (Cons kv kvs')
      then have "1 < length kvs" using False by (cases kvs') auto
      then obtain k k' where "k \<in> keys_of kvs" "k' \<in> keys_of kvs" "k \<noteq> k'" using two_keys Suc.prems(1) by blast
      then show ?thesis using prefix_free_strict [OF Suc.prems(2)] Suc.prems(1) by (simp add: kvs_ok_def)
    qed (simp add: strictly_below_def)
    have depth: "at_depth ?d kvs" using kvs_at_depth [OF Suc.prems(1) strict] .
    define P where "P n r xs ss \<longleftrightarrow> ss = [] \<and>
        collects (batch_update_subtree H levels (node_key v (ns @ [n])) v (group_of ?d kvs n) (?d + 1) None) r xs [] \<and>
        updated H (ns @ [n]) v S (part (ns @ [n]) (upd Map.empty kvs)) r xs []" for n and r :: "'a node option" and xs and ss :: "nat list"
    have "\<exists>r xs ss. P n r xs ss" if n: "n \<in> nib ?d ` set kvs" for n
    proof -
      obtain kv where kv: "kv \<in> set kvs" using n by blast
      have "?d < length (key_nibbles (fst kv))" "length (key_nibbles (fst kv)) < ?d + Suc levels"
        using depth kv Suc.prems(3) by (auto simp: at_depth_def)
      then have pos: "0 < levels" by linarith
      have "\<exists>r xs. collects (batch_update_subtree H levels (node_key v (ns @ [n])) v (group_of ?d kvs n) (length (ns @ [n])) None) r xs [] \<and>
          updated H (ns @ [n]) v S (upd Map.empty (group_of ?d kvs n)) r xs []"
        by (rule Suc.IH [OF group_ok [OF strict Suc.prems(1)] prefix_free_subset [OF Suc.prems(2) group_keys]
              group_length [OF Suc.prems(3)] pos Suc.prems(5)])
      then show ?thesis by (simp add: P_def upd_part [OF strict Suc.prems(1)])
    qed
    then obtain r xs ss where *: "\<forall>n \<in> nib ?d ` set kvs. P n (r n) (xs n) (ss n)" by (rule choose_results)
    have M: "strictly_below ns (dom (upd Map.empty kvs))" "finite (dom (upd Map.empty kvs))"
      using strict dom_upd [of Map.empty kvs] finite_dom_upd [of Map.empty kvs] by (auto simp: strictly_below_def)
    have "\<exists>r' ys. collects (assemble H (node_key w ns) v None (some_children (map (\<lambda>n. (n, r n)) (nibbles_of ?d kvs)) @ [])) r' ys [] \<and>
      updated H ns v S (upd Map.empty kvs) r' (concat (map xs (nibbles_of ?d kvs)) @ ys) []"
    proof (rule assemble_groups [OF Suc.prems(1,5) M])
      show "updated H (ns @ [n]) v S (part (ns @ [n]) (upd Map.empty kvs)) (r n) (xs n) []" if "n \<in> nib ?d ` set kvs" for n
        using bspec [OF * that] by (simp add: P_def)
      show "part (ns @ [n]) (upd Map.empty kvs) = Map.empty" if "n \<notin> nib ?d ` set kvs" for n
        using that not_below [of n ?d kvs] by (simp add: upd_part [OF strict Suc.prems(1)])
    qed simp_all
    then obtain r' ys where ys:
      "collects (assemble H (node_key w ns) v None (some_children (map (\<lambda>n. (n, r n)) (nibbles_of ?d kvs)))) r' ys []"
      "updated H ns v S (upd Map.empty kvs) r' (concat (map xs (nibbles_of ?d kvs)) @ ys) []" unfolding append_Nil2 by blast
    have each: "collects (batch_update_subtree H levels (node_key v (ns @ [n])) v (group_of ?d kvs n) (?d + 1) None) (r n) (xs n) []"
      if "n \<in> set (nibbles_of ?d kvs)" for n
      using bspec [OF *, of n] that by (simp add: P_def)
    have "collects (batch_update_subtree H (Suc levels) (node_key w ns) v kvs ?d None) r' (concat (map xs (nibbles_of ?d kvs)) @ ys) []"
      using collects_groups [where r' = r' and xs' = ys and ss' = "[]" and ss = "\<lambda>_. []"
        and F = "\<lambda>n g. batch_update_subtree H levels (node_key v (ns @ [n])) v g (?d + 1) None"
        and K = "\<lambda>results. assemble H (node_key w ns) v None (some_children results)", OF depth each] ys(1) False
      by simp
    then show ?thesis using ys(2) by blast
  qed
qed simp

section \<open>Subtrees beside an existing leaf\<close>

abbreviation leaf_entries :: "'p leaf_node \<Rightarrow> 'p entries" where
  "leaf_entries l \<equiv> [leaf_key l \<mapsto> (value_hash l, payload l)]"

lemma strict_with_leaf:
  assumes "kvs_ok ns kvs" "prefix ns (key_nibbles k)" "prefix_free (insert k (keys_of kvs))"
    and "kvs = [] \<Longrightarrow> strictly_below ns {k}" and "\<not> (length kvs = 1 \<and> fst (hd kvs) = k)"
  shows "strictly_below ns (insert k (keys_of kvs))"
proof (cases kvs)
  case (Cons kv kvs')
  have "\<exists>k'. k' \<in> keys_of kvs \<and> k' \<noteq> k"
  proof (cases "kvs' = []")
    case False
    then have "1 < length kvs" using Cons by (cases kvs') auto
    then obtain a b where "a \<in> keys_of kvs" "b \<in> keys_of kvs" "a \<noteq> b" using two_keys [OF assms(1)] by blast
    then show ?thesis by metis
  qed (use Cons assms(5) in auto)
  then show ?thesis using prefix_free_strict [OF assms(3)] assms(1,2) by (auto simp: kvs_ok_def)
qed (use assms(4) in simp)

theorem existing_leaf_tree:
  assumes "kvs_ok ns kvs" "prefix ns (key_nibbles (leaf_key l))" "prefix_free (insert (leaf_key l) (keys_of kvs))"
    "\<forall>k \<in> keys_of kvs. length (key_nibbles k) < length ns + levels"
    "kvs = [] \<Longrightarrow> strictly_below ns {leaf_key l}" "0 < levels" "fresh v S"
  shows "\<exists>r xs. collects (batch_update_subtree_with_existing_leaf H levels (node_key w ns) v l kvs (length ns) None) r xs [] \<and>
    updated H ns v S (upd (leaf_entries l) kvs) r xs []"
  using assms
proof (induction levels arbitrary: ns kvs w)
  case (Suc levels)
  let ?d = "length ns" and ?k = "leaf_key l"
  let ?M = "upd (leaf_entries l) kvs"
  show ?case
  proof (cases "length kvs = 1 \<and> fst (hd kvs) = ?k")
    case True
    then obtain kv where one: "kvs = [kv]" "fst kv = ?k" by (cases kvs) auto
    have "updated H ns v S ?M (new_leaf_of kv v) [] []"
      unfolding one(1) by (rule updated_leaf) (use Suc.prems(2) one(2) in auto)
    moreover have "collects (batch_update_subtree_with_existing_leaf H (Suc levels) (node_key w ns) v l kvs ?d None) (new_leaf_of kv v) [] []"
      by (simp add: one)
    ultimately show ?thesis by blast
  next
    case False
    have all: "strictly_below ns (insert ?k (keys_of kvs))"
      by (rule strict_with_leaf [OF Suc.prems(1-3,5) False])
    then have strict: "strictly_below ns (keys_of kvs)" by (simp add: strictly_below_def)
    have depth: "at_depth ?d kvs" using kvs_at_depth [OF Suc.prems(1) strict] .
    define e where "e = key_nibbles ?k ! ?d"
    have e: "?d < length (key_nibbles ?k)" "prefix (ns @ [n]) (key_nibbles ?k) \<longleftrightarrow> n = e" for n
    proof -
      have "strict_prefix ns (key_nibbles ?k)" using all by (simp add: strictly_below_def)
      then obtain y ys where ys: "key_nibbles ?k = ns @ y # ys" by (rule strict_prefixE')
      have "length (key_nibbles ?k) = ?d + Suc (length ys)" unfolding ys by simp
      then show "?d < length (key_nibbles ?k)" by linarith
      show "prefix (ns @ [n]) (key_nibbles ?k) \<longleftrightarrow> n = e" unfolding e_def ys by auto
    qed
    have leaf_part: "part (ns @ [n]) (leaf_entries l) = (if n = e then leaf_entries l else Map.empty)" for n
      using e(2) [of n] by (auto simp: part_apply fun_eq_iff)
    let ?F = "\<lambda>n g. if e = n
      then batch_update_subtree_with_existing_leaf H levels (node_key v (ns @ [n])) v l g (?d + 1) None
      else batch_update_subtree H levels (node_key v (ns @ [n])) v g (?d + 1) None"
    define P where "P n r xs ss \<longleftrightarrow> ss = [] \<and> collects (?F n (group_of ?d kvs n)) r xs [] \<and>
        updated H (ns @ [n]) v S (part (ns @ [n]) ?M) r xs []" for n and r :: "'a node option" and xs and ss :: "nat list"
    have "\<exists>r xs ss. P n r xs ss" if n: "n \<in> nib ?d ` set kvs" for n
    proof -
      obtain kv where kv: "kv \<in> set kvs" "n = nib ?d kv" using n by blast
      have "?d < length (key_nibbles (fst kv))" "length (key_nibbles (fst kv)) < ?d + Suc levels"
        using depth kv Suc.prems(4) by (auto simp: at_depth_def)
      then have pos: "0 < levels" by linarith
      have nonempty: "group_of ?d kvs n \<noteq> []" using kv by (auto simp: group_of_def filter_empty_conv)
      have sub: "insert ?k (keys_of (group_of ?d kvs n)) \<subseteq> insert ?k (keys_of kvs)" using group_keys by blast
      have "\<exists>r xs. collects (?F n (group_of ?d kvs n)) r xs [] \<and>
          updated H (ns @ [n]) v S (upd (part (ns @ [n]) (leaf_entries l)) (group_of ?d kvs n)) r xs []"
      proof (cases "e = n")
        case True
        then have "prefix (ns @ [n]) (key_nibbles ?k)" using e(2) by simp
        from Suc.IH [OF group_ok [OF strict Suc.prems(1)] this prefix_free_subset [OF Suc.prems(3) sub]
              group_length [OF Suc.prems(4)] _ pos Suc.prems(7), of v]
        have "\<exists>r xs. collects (?F n (group_of ?d kvs n)) r xs [] \<and>
            updated H (ns @ [n]) v S (upd (leaf_entries l) (group_of ?d kvs n)) r xs []"
          using nonempty by (simp only: True simp_thms if_True length_append list.size add_0) (simp only: simp_thms add_Suc add_0 One_nat_def)
        then show ?thesis using True leaf_part [of n] by (simp only: simp_thms if_True)
      next
        case neq: False
        from batch_update_subtree_tree [OF group_ok [OF strict Suc.prems(1)] prefix_free_subset [OF Suc.prems(3)]
              group_length [OF Suc.prems(4)] pos Suc.prems(7)]
        show ?thesis using neq leaf_part [of n] sub by simp
      qed
      then show ?thesis by (simp only: P_def upd_part [OF strict Suc.prems(1)]) blast
    qed
    then obtain r xs ss where *: "\<forall>n \<in> nib ?d ` set kvs. P n (r n) (xs n) (ss n)" by (rule choose_results)
    have M: "strictly_below ns (dom ?M)" "finite (dom ?M)"
      using all dom_upd [of "leaf_entries l" kvs] finite_dom_upd [of "leaf_entries l" kvs] by (auto simp: strictly_below_def)
    define extra where "extra = (if e \<in> set (nibbles_of ?d kvs) then [] else [(e, Leaf l)])"
    have "\<exists>r' ys. collects (assemble H (node_key w ns) v None (some_children (map (\<lambda>n. (n, r n)) (nibbles_of ?d kvs)) @ extra)) r' ys [] \<and>
      updated H ns v S ?M r' (concat (map xs (nibbles_of ?d kvs)) @ ys) []"
    proof (rule assemble_groups [OF Suc.prems(1,7) M])
      show "updated H (ns @ [n]) v S (part (ns @ [n]) ?M) (r n) (xs n) []" if "n \<in> nib ?d ` set kvs" for n
        using bspec [OF * that] by (simp add: P_def)
      show "part (ns @ [n]) ?M = Map.empty" if "n \<notin> nib ?d ` set kvs" "n \<notin> fst ` set extra" for n
        using that not_below [of n ?d kvs] leaf_part [of n] by (auto simp: upd_part [OF strict Suc.prems(1)] extra_def)
      show "distinct (map fst extra)" by (simp add: extra_def)
      show "n \<notin> nib ?d ` set kvs \<and> tree_at H S (ns @ [n]) c (part (ns @ [n]) ?M)" if nc: "(n, c) \<in> set extra" for n c
      proof -
        have n: "n = e" "c = Leaf l" "e \<notin> nib ?d ` set kvs" using nc by (auto simp: extra_def split: if_splits)
        then have "part (ns @ [n]) ?M = leaf_entries l"
          using not_below [of n ?d kvs] leaf_part [of n] by (auto simp: upd_part [OF strict Suc.prems(1)])
        moreover have "tree_at H S (ns @ [n]) c (leaf_entries l)" using n e(2) by (auto intro: tree_at.leaf)
        ultimately show ?thesis using n by simp
      qed
    qed
    then obtain r' ys where ys:
      "collects (assemble H (node_key w ns) v None (some_children (map (\<lambda>n. (n, r n)) (nibbles_of ?d kvs)) @ extra)) r' ys []"
      "updated H ns v S ?M r' (concat (map xs (nibbles_of ?d kvs)) @ ys) []" by blast
    have get: "(key_get_nibble ?k ?d :: (storage_error, nibble) res) = Ok e" using e(1) by (simp add: key_get_nibble_eq e_def)
    have each: "collects (?F n (group_of ?d kvs n)) (r n) (xs n) []" if "n \<in> set (nibbles_of ?d kvs)" for n
      using bspec [OF *, of n] that by (simp only: P_def nibbles_of_simps)
    let ?K = "\<lambda>results. assemble H (node_key w ns) v None (some_children results @ (if e \<notin> fst ` set results then [(e, Leaf l)] else []))"
    have "collects (?K (map (\<lambda>n. (n, r n)) (nibbles_of ?d kvs))) r' ys []"
      using ys(1) unfolding extra_def by (simp add: image_image split: if_splits)
    from collects_groups [where F = ?F and K = ?K and ss = "\<lambda>_. []", OF depth each this]
    have "collects (mbind (mlift (\<lambda>_. nibble_ranges kvs ?d 0)) (\<lambda>ranges.
      mbind (mmap (\<lambda>(left, right). mbind (mlift (\<lambda>_. key_get_nibble (fst (kvs ! left)) ?d)) (\<lambda>n.
        mbind (?F n (kvs_slice kvs left right)) (\<lambda>r. mreturn (n, r)))) ranges) ?K)) r'
      (concat (map xs (nibbles_of ?d kvs)) @ ys) []" by simp
    from collects_lift [where k = "\<lambda>e. mbind (mlift (\<lambda>_. nibble_ranges kvs ?d 0)) (\<lambda>ranges.
      mbind (mmap (\<lambda>(left, right). mbind (mlift (\<lambda>_. key_get_nibble (fst (kvs ! left)) ?d)) (\<lambda>n.
        mbind (if e = n
          then batch_update_subtree_with_existing_leaf H levels (node_key v (ns @ [n])) v l (kvs_slice kvs left right) (?d + 1) None
          else batch_update_subtree H levels (node_key v (ns @ [n])) v (kvs_slice kvs left right) (?d + 1) None)
          (\<lambda>r. mreturn (n, r)))) ranges)
      (\<lambda>results. assemble H (node_key w ns) v None (some_children results @ (if e \<notin> fst ` set results then [(e, Leaf l)] else []))))",
      OF get this]
    have "collects (batch_update_subtree_with_existing_leaf H (Suc levels) (node_key w ns) v l kvs ?d None) r'
        (concat (map xs (nibbles_of ?d kvs)) @ ys) []"
      unfolding batch_update_subtree_with_existing_leaf.simps if_not_P [OF False] Let_def node_key_simps .
    then show ?thesis using ys(2) by blast
  qed
qed simp

section \<open>Updates of a stored tree\<close>

text \<open>What an internal node says about a child with the entries \<open>M\<close> at a path.\<close>

definition child_ok :: "hasher \<Rightarrow> 'p reader \<Rightarrow> nibble list \<Rightarrow> child \<Rightarrow> 'p entries \<Rightarrow> bool" where
  "child_ok H S ns c M \<longleftrightarrow> (\<exists>node. S (node_key (child_version c) ns) = Some node \<and>
     child_hash c = hash_of H node \<and> (child_is_leaf c \<longleftrightarrow> is_leaf node) \<and> child_node_type c \<noteq> NullType \<and> tree_at H S ns node M)"

lemma child_ok_nonempty: "child_ok H S ns c M \<Longrightarrow> M \<noteq> Map.empty"
  using tree_at_dom unfolding child_ok_def by (metis dom_eq_empty_conv)

lemma child_ok_mono:
  assumes "child_ok H S ns c M" "\<And>u ms. prefix ns ms \<Longrightarrow> T (node_key u ms) = S (node_key u ms)"
  shows "child_ok H T ns c M"
proof -
  obtain node where node: "S (node_key (child_version c) ns) = Some node"
     "child_hash c = hash_of H node" "child_is_leaf c \<longleftrightarrow> is_leaf node" "child_node_type c \<noteq> NullType" "tree_at H S ns node M"
    using assms(1) unfolding child_ok_def by blast
  have "tree_at H T ns node M"
    using node(5) by (rule tree_at_mono) (simp add: assms(2) strict_prefix_def)
  then show ?thesis using node assms(2) [of ns] unfolding child_ok_def by auto
qed

lemma two_parts:
  assumes "part (ns @ [n]) M \<noteq> Map.empty" "part (ns @ [m]) M \<noteq> Map.empty" "n \<noteq> m"
  shows "\<not> (\<exists>k. dom M \<subseteq> {k})"
proof
  assume "\<exists>k. dom M \<subseteq> {k}"
  then obtain k where k: "dom M \<subseteq> {k}" by blast
  have "prefix (ns @ [j]) (key_nibbles k)" if j: "part (ns @ [j]) M \<noteq> Map.empty" for j
  proof -
    obtain k' where "k' \<in> dom (part (ns @ [j]) M)" using j by (metis dom_eq_empty_conv ex_in_conv)
    then show ?thesis using k by (auto simp: dom_part)
  qed
  then show False using assms prefix_snoc_eq by metis
qed

lemma deep_part:
  assumes "tree_at H T (ns @ [n]) node (part (ns @ [n]) M)" "\<not> is_leaf node"
  shows "\<not> (\<exists>k. dom M \<subseteq> {k})"
  using many_entries [of n node "[(n, node)]" H T ns M] assms by simp

text \<open>The children of an internal node after the update of some of them.\<close>

lemma merge_children_tree:
  fixes created :: "(nibble \<times> 'p node) list"
  assumes created: "distinct (map fst created)" "\<And>n c. (n, c) \<in> set created \<Longrightarrow> tree_at H T (ns @ [n]) c (part (ns @ [n]) M)"
    and old: "\<And>n c. n \<notin> fst ` set created \<Longrightarrow> old n = Some c \<Longrightarrow> child_ok H T (ns @ [n]) c (part (ns @ [n]) M) \<and>
        S (node_key (child_version c) (ns @ [n])) = T (node_key (child_version c) (ns @ [n]))"
    and rest: "\<And>n. n \<notin> fst ` set created \<Longrightarrow> old n = None \<Longrightarrow> part (ns @ [n]) M = Map.empty"
    and T: "\<And>n. T (node_key v (ns @ [n])) = None"
    and M: "strictly_below ns (dom M)" "finite (dom M)"
  shows "\<exists>r ys ss. collects (merge_children H S (node_key u ns) v None old created) r ys ss \<and>
    (ys = [] \<or> ys = child_nodes v ns created) \<and> (\<forall>k \<in> set ss. S k \<noteq> None \<and> (\<exists>w n. k = node_key w (ns @ [n]))) \<and>
    root_of H ((T |` (- set ss)) ++ map_of ys) ns M r" (is "\<exists>r ys ss. ?Q (merge_children H S (node_key u ns) v None old created) r ys ss")
proof -
  let ?build = "build_internal H (node_key u ns) v None old created"
  have at_old: "old n = Some c" if "(n, c) \<in> set (map_entries old)" for n c using that by (simp add: set_map_entries)
  have not_old: "old n = None" if "n \<notin> fst ` set (map_entries old)" for n
    using that set_map_entries [of n _ old] by (cases "old n") force+
  have nonempty: "part (ns @ [n]) M \<noteq> Map.empty" if n: "n \<in> fst ` set created \<or> n \<in> fst ` set (map_entries old)" for n
  proof (cases "n \<in> fst ` set created")
    case True
    then show ?thesis using tree_at_dom [OF created(2)] by force
  next
    case False
    then obtain c where "old n = Some c" using n at_old by force
    then show ?thesis using old [OF False] child_ok_nonempty by blast
  qed
  have none: "\<exists>r ys ss. ?Q (mreturn None) r ys ss" if e: "created = []" "map_entries old = []"
  proof -
    have "M k = None" for k
    proof (cases "M k")
      case (Some x)
      then obtain n where "part (ns @ [n]) M k = Some x" using entry_in_part [OF M(1)] by blast
      then show ?thesis using rest [of n] not_old [of n] e by simp
    qed
    then have "M = Map.empty" by blast
    then have "?Q (mreturn None) None [] []" by (simp add: root_of_def del: mreturn_apply)
    then show ?thesis by blast
  qed
  have up: "tree_at H W ns node M" if n: "fst ` set created \<union> fst ` set (map_entries old) \<subseteq> {n}"
      "tree_at H T (ns @ [n]) node (part (ns @ [n]) M)" "is_leaf node" for n node W
  proof -
    have "part (ns @ [m]) M = Map.empty" if "m \<noteq> n" for m
    proof -
      have "m \<notin> fst ` set created" "m \<notin> fst ` set (map_entries old)" using n(1) that by auto
      then show ?thesis using rest not_old by simp
    qed
    then have "part (ns @ [n]) M = M" by (rule part_only [OF M(1)])
    then show ?thesis using n(2,3) tree_at_up by (cases node) auto
  qed
  have new: "\<exists>r ys ss. ?Q (mreturn (Some c)) r ys ss"
    if c: "created = [(n, c)]" "fst ` set (map_entries old) \<subseteq> {n}" "is_leaf c" for n c
  proof -
    have "tree_at H W ns c M" for W using up [of n c W] c created(2) [of n c] by simp
    then have "?Q (mreturn (Some c)) (Some c) [] []" by (simp add: root_of_def del: mreturn_apply)
    then show ?thesis by blast
  qed
  have old_leaf: "\<exists>r ys ss. ?Q (mbind (mlift (\<lambda>_. get_node S (node_key (child_version c) (ns @ [n])))) (\<lambda>node.
      mseq (put_stale_node (node_key (child_version c) (ns @ [n])) v node) (mreturn (Some node)))) r ys ss"
    if c: "created = []" "map_entries old = [(n, c)]" "child_is_leaf c" for n c
  proof -
    let ?k = "node_key (child_version c) (ns @ [n])"
    obtain node where node: "T ?k = Some node" "is_leaf node" "tree_at H T (ns @ [n]) node (part (ns @ [n]) M)" "S ?k = T ?k"
      using old [of n c] at_old [of n c] c unfolding child_ok_def by auto
    have "tree_at H W ns node M" for W using up [of n node W] c node by simp
    moreover have "collects (mseq (put_stale_node ?k v node) (mreturn (Some node))) (Some node) [] [?k]"
      using collects_seq [OF collects_simps(4) collects_simps(1), of ?k v node] by simp
    then have "collects (mbind (mlift (\<lambda>_. get_node S ?k)) (\<lambda>node. mseq (put_stale_node ?k v node) (mreturn (Some node)))) (Some node) [] [?k]"
      by (rule collects_lift [rotated]) (simp add: get_node_def node)
    ultimately have "?Q (mbind (mlift (\<lambda>_. get_node S ?k)) (\<lambda>node. mseq (put_stale_node ?k v node) (mreturn (Some node)))) (Some node) [] [?k]"
      using node by (auto simp: root_of_def)
    then show ?thesis by blast
  qed
  have build: "\<exists>r ys ss. ?Q ?build r ys ss" if many: "\<not> (\<exists>k. dom M \<subseteq> {k})"
  proof -
    have "\<exists>node. T (node_key (child_version c) (ns @ [n])) = Some node \<and> child_hash c = hash_of H node \<and>
        (child_is_leaf c \<longleftrightarrow> is_leaf node) \<and> child_node_type c \<noteq> NullType \<and> tree_at H T (ns @ [n]) node (part (ns @ [n]) M)"
      if "n \<notin> fst ` set created" "old n = Some c" for n c using old [OF that] by (simp add: child_ok_def)
    from build_internal_tree [where old = old and w = u, OF created this rest T M many]
    obtain i where "collects ?build (Some (Internal i)) (child_nodes v ns created) []"
      "tree_at H (T ++ map_of (child_nodes v ns created)) ns (Internal i) M" by blast
    then have "?Q ?build (Some (Internal i)) (child_nodes v ns created) []" by (simp add: root_of_def restrict_map_def)
    then show ?thesis by blast
  qed
  have many: "\<not> (\<exists>k. dom M \<subseteq> {k})" if "n \<noteq> m" "{n, m} \<subseteq> fst ` set created \<union> fst ` set (map_entries old)" for n m
  proof -
    have "part (ns @ [n]) M \<noteq> Map.empty" "part (ns @ [m]) M \<noteq> Map.empty" using nonempty that(2) by auto
    then show ?thesis using that(1) by (rule two_parts)
  qed
  have deep_new: "\<not> (\<exists>k. dom M \<subseteq> {k})" if "(n, c) \<in> set created" "\<not> is_leaf c" for n c
    using created(2) [OF that(1)] that(2) by (rule deep_part)
  have deep_old: "\<not> (\<exists>k. dom M \<subseteq> {k})" if "created = []" "(n, c) \<in> set (map_entries old)" "\<not> child_is_leaf c" for n c
  proof -
    have "child_ok H T (ns @ [n]) c (part (ns @ [n]) M)" using old [of n c] at_old [OF that(2)] that(1) by simp
    then obtain node where "tree_at H T (ns @ [n]) node (part (ns @ [n]) M)" "child_is_leaf c \<longleftrightarrow> is_leaf node"
      unfolding child_ok_def by blast
    then show ?thesis using that(3) by (intro deep_part) simp_all
  qed
  let ?merge = "merge_children H S (node_key u ns) v None old created"
  note merge = merge_children_def [of H S "node_key u ns" v None old created, unfolded Let_def]
  have merged: ?thesis if "?merge = m" "\<exists>r ys ss. ?Q m r ys ss" for m using that by simp
  show ?thesis
  proof (cases created)
    case Nil
    show ?thesis
    proof (cases "map_entries old")
      case old_Nil: Nil
      have "?merge = mreturn None" unfolding merge by (simp only: Nil old_Nil simp_thms if_True)
      then show ?thesis using none [OF Nil old_Nil] by (rule merged)
    next
      case (Cons x xs)
      obtain n c where x: "x = (n, c)" by fastforce
      show ?thesis
      proof (cases xs)
        case one: Nil
        show ?thesis
        proof (cases "child_is_leaf c")
          case True
          let ?k = "node_key (child_version c) (ns @ [n])"
          have "?merge = mbind (mlift (\<lambda>_. get_node S ?k)) (\<lambda>node. mseq (put_stale_node ?k v node) (mreturn (Some node)))"
            unfolding merge using Nil Cons one x True by simp
          then show ?thesis using old_leaf [of n c] Nil Cons one x True by (intro merged) simp_all
        next
          case False
          have "?merge = ?build" unfolding merge using Nil Cons one x False by simp
          then show ?thesis using build [OF deep_old [OF Nil, of n c]] Cons x False by (intro merged) simp_all
        qed
      next
        case two: (Cons y ys)
        have "?merge = ?build" unfolding merge using Nil Cons two by simp
        moreover have "n \<noteq> fst y" using distinct_map_entries [of old] Cons x two by (simp del: distinct_map_entries)
        ultimately show ?thesis using build [OF many [of n "fst y"]] Cons x two by (intro merged) simp_all
      qed
    qed
  next
    case (Cons z zs)
    obtain n c where z: "z = (n, c)" by fastforce
    show ?thesis
    proof (cases zs)
      case one: Nil
      have created_eq: "created = [(n, c)]" using Cons one z by simp
      show ?thesis
      proof (cases "fst ` set (map_entries old) \<subseteq> {n} \<and> is_leaf c")
        case True
        have "length (map_entries old) \<le> 1"
          using True distinct_map_entries [of old] by (cases "map_entries old"; cases "tl (map_entries old)") (auto simp del: distinct_map_entries)
        then have "?merge = mreturn (Some c)"
          unfolding merge using True created_eq by (cases "map_entries old") (auto split: prod.splits simp del: mreturn_apply)
        then show ?thesis by (rule merged) (rule new [OF created_eq], use True in simp_all)
      next
        case False
        have "\<exists>r ys ss. ?Q ?build r ys ss"
        proof (cases "is_leaf c")
          case leaf: True
          then obtain m where "m \<in> fst ` set (map_entries old)" "n \<noteq> m" using False by blast
          then show ?thesis using created_eq by (intro build many [of n m]) simp_all
        next
          case deep: False
          then show ?thesis using created_eq by (intro build deep_new [of n c]) simp_all
        qed
        moreover have "?merge = ?build"
          using False created_eq unfolding merge by (auto split: list.split prod.split)
        ultimately show ?thesis by (intro merged)
      qed
    next
      case two: (Cons y ys)
      have "?merge = ?build" unfolding merge using Cons two by simp
      moreover have "n \<noteq> fst y" "{n, fst y} \<subseteq> fst ` set created" using created(1) Cons z two by auto
      then have "\<exists>r ys ss. ?Q ?build r ys ss" by (intro build many [of n "fst y"]) blast+
      ultimately show ?thesis by (rule merged)
    qed
  qed
qed

lemma updated_drop_root:
  assumes "updated H ns v S M r xs ss" "S (node_key u ns) \<noteq> None"
  shows "updated H ns v S M r xs (node_key u ns # ss)"
proof -
  have "root_of H ((S |` (- set (node_key u ns # ss))) ++ map_of xs) ns M r"
  proof (rule root_of_mono)
    show "root_of H ((S |` (- set ss)) ++ map_of xs) ns M r" using assms(1) by (simp add: updated_def)
    show "((S |` (- set (node_key u ns # ss))) ++ map_of xs) (node_key w ms) = Some x"
      if "strict_prefix ns ms" "((S |` (- set ss)) ++ map_of xs) (node_key w ms) = Some x" for w ms x
      using that by (auto simp: map_add_def restrict_map_def split: option.splits if_splits)
  qed
  moreover have "\<exists>u' ms. prefix ns ms \<and> node_key u ns = node_key u' ms" by blast
  ultimately show ?thesis using assms unfolding updated_def by auto
qed

lemma internal_facts:
  assumes "tree_at H S ns (Internal i) M"
  shows "\<And>n. children i n = None \<Longrightarrow> part (ns @ [n]) M = Map.empty"
    and "\<And>n c. children i n = Some c \<Longrightarrow> child_ok H S (ns @ [n]) c (part (ns @ [n]) M)"
    and "strictly_below ns (dom M)" "finite (dom M)" "\<exists>k k'. {k, k'} \<subseteq> dom M \<and> k \<noteq> k'"
  using assms by (auto elim!: tree_at_InternalE simp: child_ok_def)

lemma insert_at_child_eq:
  "insert_at_child f H levels (node_key u ns) i v kvs left right d cache =
     mbind (mlift (\<lambda>_. key_get_nibble (fst (kvs ! left)) d)) (\<lambda>n.
     mbind ((\<lambda>n g. case children i n of
         Some c \<Rightarrow> f (node_key (child_version c) (ns @ [n])) g (d + 1)
       | None \<Rightarrow> batch_update_subtree H levels (node_key v (ns @ [n])) v g (d + 1) cache) n (kvs_slice kvs left right))
     (\<lambda>r. mreturn (n, r)))"
  unfolding insert_at_child_def node_key_simps ..

text \<open>The updates of the children and the merge at the node together.\<close>

lemma updated_internal:
  fixes xs :: "nibble \<Rightarrow> (tree_node_key \<times> 'p node) list"
  assumes G: "\<And>n. n \<in> set L \<Longrightarrow> updated H (ns @ [n]) v S (part (ns @ [n]) M) (r n) (xs n) (ss n)" and L: "distinct L"
    and rest: "\<And>n. n \<notin> set L \<Longrightarrow> (case children i n of None \<Rightarrow> part (ns @ [n]) M = Map.empty
        | Some c \<Rightarrow> child_ok H S (ns @ [n]) c (part (ns @ [n]) M))"
    and M: "strictly_below ns (dom M)" "finite (dom M)" and S: "fresh v S" "S (node_key u ns) \<noteq> None"
  shows "\<exists>r' ys ss'. collects (merge_children H S (node_key u ns) v None
      (\<lambda>n. if n \<in> set L \<and> r n = None then None else children i n) (some_children (map (\<lambda>n. (n, r n)) L))) r' ys ss' \<and>
    updated H ns v S M r' (concat (map xs L) @ ys) (node_key u ns # concat (map ss L) @ ss')"
proof -
  define T where "T = (S |` (- ({node_key u ns} \<union> set (concat (map ss L))))) ++ map_of (concat (map xs L))"
  let ?cs = "some_children (map (\<lambda>n. (n, r n)) L)" and ?old = "\<lambda>n. if n \<in> set L \<and> r n = None then None else children i n"
  have A: "node_key w ms \<in> {node_key u ns} \<Longrightarrow> \<not> strict_prefix ns ms" for w ms by simp
  have apart1: "root_of H T (ns @ [n]) (part (ns @ [n]) M) (r n)" if "n \<in> set L" for n
    unfolding T_def using G L A that by (rule updates_apart)
  have apart2: "T (node_key w ms) = S (node_key w ms)" if "n \<notin> set L" "prefix (ns @ [n]) ms" for n w ms
    unfolding T_def using G L A that by (rule updates_apart)
  have apart3: "T (node_key v (ns @ [n])) = None" for n
    unfolding T_def using G L A S(1) by (rule updates_apart)
  have apart4: "below_path ns v (concat (map xs L))"
    using G L A by (rule updates_apart)
  have created: "n \<in> fst ` set ?cs \<longleftrightarrow> n \<in> set L \<and> r n \<noteq> None" for n
  proof -
    have "n \<in> fst ` set ?cs \<longleftrightarrow> (\<exists>c. (n, c) \<in> set ?cs)" by force
    then show ?thesis by (auto simp: some_children_iff)
  qed
  have "\<exists>r' ys ss'. collects (merge_children H S (node_key u ns) v None ?old ?cs) r' ys ss' \<and>
      (ys = [] \<or> ys = child_nodes v ns ?cs) \<and> (\<forall>k \<in> set ss'. S k \<noteq> None \<and> (\<exists>w n. k = node_key w (ns @ [n]))) \<and>
      root_of H ((T |` (- set ss')) ++ map_of ys) ns M r'"
  proof (rule merge_children_tree)
    show "distinct (map fst ?cs)" using L by (rule distinct_some_children)
    show "tree_at H T (ns @ [n]) c (part (ns @ [n]) M)" if "(n, c) \<in> set ?cs" for n c
      using that apart1 [of n] by (simp add: some_children_iff root_of_def)
    show "child_ok H T (ns @ [n]) c (part (ns @ [n]) M) \<and>
        S (node_key (child_version c) (ns @ [n])) = T (node_key (child_version c) (ns @ [n]))"
      if n: "n \<notin> fst ` set ?cs" "?old n = Some c" for n c
    proof -
      have "n \<notin> set L" "children i n = Some c" using n created [of n] by (auto split: if_splits)
      then have same: "T (node_key w ms) = S (node_key w ms)" if "prefix (ns @ [n]) ms" for w ms using apart2 that by blast
      have "child_ok H S (ns @ [n]) c (part (ns @ [n]) M)" using rest [of n] n created [of n] by (auto split: if_splits)
      then have "child_ok H T (ns @ [n]) c (part (ns @ [n]) M)" using same by (rule child_ok_mono)
      then show ?thesis using same [of "ns @ [n]"] by simp
    qed
    show "part (ns @ [n]) M = Map.empty" if n: "n \<notin> fst ` set ?cs" "?old n = None" for n
    proof (cases "n \<in> set L")
      case True
      then have "r n = None" using n(1) created [of n] by simp
      then show ?thesis using apart1 [OF True] by (simp add: root_of_def)
    qed (use rest [of n] n in simp)
    show "T (node_key v (ns @ [n])) = None" for n by (rule apart3)
  qed (fact M)+
  then obtain r' ys ss' where m: "collects (merge_children H S (node_key u ns) v None ?old ?cs) r' ys ss'"
    "ys = [] \<or> ys = child_nodes v ns ?cs" "\<forall>k \<in> set ss'. S k \<noteq> None \<and> (\<exists>w n. k = node_key w (ns @ [n]))"
    "root_of H ((T |` (- set ss')) ++ map_of ys) ns M r'" by blast
  let ?ss = "node_key u ns # concat (map ss L) @ ss'"
  have "updated H ns v S M r' (concat (map xs L) @ ys) ?ss"
  proof (rule updated_append)
    show "below_path ns v (concat (map xs L))" by (rule apart4)
    show "below_path ns v ys" using m(2) below_child_nodes [OF distinct_some_children [OF L], of ns v r] by (elim disjE) (simp_all add: below_path_def)
    show "fst ` set (concat (map xs L)) \<inter> fst ` set ys = {}"
      using m(2) child_nodes_apart [of L ns v xs ?cs] G by (auto simp: updated_def)
    have trees: "tree_at H T (ns @ [n]) c (part (ns @ [n]) M)" if "(n, c) \<in> set ?cs" for n c
      using that apart1 [of n] by (simp add: some_children_iff root_of_def)
    show "\<forall>x \<in> set (concat (map xs L)) \<union> set ys. node_of v M x"
      using G trees m(2) by (rule nodes_of_update)
    have "S k \<noteq> None \<and> (\<exists>u ms. prefix ns ms \<and> k = node_key u ms)" if k: "k \<in> set (concat (map ss L))" for k
    proof -
      obtain n where n: "n \<in> set L" "k \<in> set (ss n)" using k by auto
      then obtain u ms where "S k \<noteq> None" "prefix (ns @ [n]) ms" "k = node_key u ms" using G [OF n(1)] unfolding updated_def by blast
      then show ?thesis using append_prefixD by blast
    qed
    moreover have "S k \<noteq> None \<and> (\<exists>u ms. prefix ns ms \<and> k = node_key u ms)" if "k \<in> set ss'" for k
      using m(3) that by (meson prefixI)
    moreover have "\<exists>u' ms. prefix ns ms \<and> node_key u ns = node_key u' ms" by blast
    ultimately show "\<forall>k \<in> set ?ss. S k \<noteq> None \<and> (\<exists>u ms. prefix ns ms \<and> k = node_key u ms)" using S(2) by auto
    show "root_of H (((S |` (- set ?ss)) ++ map_of (concat (map xs L))) ++ map_of ys) ns M r'"
      using m(4) by (rule root_of_mono)
        (auto simp: T_def map_add_def restrict_map_def split: option.splits if_splits)
  qed
  then show ?thesis using m(1) by blast
qed

theorem batch_insert_at_tree:
  assumes "kvs_ok ns kvs" "S (node_key u ns) = Some node" "tree_at H S ns node M0" "prefix_free (dom M0 \<union> keys_of kvs)"
    "\<forall>k \<in> keys_of kvs. length (key_nibbles k) < length ns + levels" "kvs = [] \<Longrightarrow> strictly_below ns (dom M0)" "0 < levels" "fresh v S"
  shows "\<exists>r xs ss. collects (batch_insert_at H S levels v None (node_key u ns) kvs (length ns)) r xs ss \<and>
    updated H ns v S (upd M0 kvs) r xs ss"
  using assms
proof (induction levels arbitrary: ns kvs u node M0)
  case (Suc levels)
  let ?d = "length ns" and ?M = "upd M0 kvs" and ?k = "node_key u ns"
  have get: "get_node S ?k = Ok node" by (simp add: get_node_def Suc.prems(2))
  have stale: "S ?k \<noteq> None" using Suc.prems(2) by simp
  have start: "collects (batch_insert_at H S (Suc levels) v None ?k kvs ?d) r xs (?k # ss)"
    if "collects (case node of
        Internal i \<Rightarrow> mbind (mlift (\<lambda>_. nibble_ranges kvs ?d 0)) (\<lambda>ranges.
          mbind (mmap (\<lambda>(left, right). insert_at_child (batch_insert_at H S levels v None) H levels ?k i v kvs left right ?d None) ranges)
          (\<lambda>new_children. let removed = fst ` {x \<in> set new_children. snd x = None};
              old_children = (\<lambda>n. if n \<in> removed then None else children i n)
            in merge_children H S ?k v None old_children (some_children new_children)))
      | Leaf l \<Rightarrow> batch_update_subtree_with_existing_leaf H (Suc levels) ?k v l kvs ?d None
      | Null \<Rightarrow> mseq (mlift (\<lambda>_. assert_that (?d = 0))) (batch_update_subtree H (Suc levels) ?k v kvs 0 None)) r xs ss" for r xs ss
    unfolding batch_insert_at.simps
    by (rule collects_lift [OF get]) (rule collects_seq [OF collects_simps(4) that, unfolded append_Nil append_Cons])
  show ?case
  proof (cases node)
    case (Leaf l)
    have M0: "M0 = leaf_entries l" "prefix ns (key_nibbles (leaf_key l))"
      using Suc.prems(3) unfolding Leaf by (auto elim: tree_at_LeafE)
    have "\<exists>r xs. collects (batch_update_subtree_with_existing_leaf H (Suc levels) ?k v l kvs ?d None) r xs [] \<and>
        updated H ns v S (upd (leaf_entries l) kvs) r xs []"
    proof (rule existing_leaf_tree [OF Suc.prems(1) M0(2) _ Suc.prems(5) _ Suc.prems(7,8)])
      have dom: "dom M0 = {leaf_key l}" unfolding M0(1) by (rule dom_single)
      show "prefix_free (insert (leaf_key l) (keys_of kvs))" using Suc.prems(4) by (simp add: dom)
      show "kvs = [] \<Longrightarrow> strictly_below ns {leaf_key l}" using Suc.prems(6) by (simp add: dom)
    qed
    then obtain r xs where r: "collects (batch_update_subtree_with_existing_leaf H (Suc levels) ?k v l kvs ?d None) r xs []"
        "updated H ns v S ?M r xs []" unfolding M0(1) by blast
    have "collects (batch_insert_at H S (Suc levels) v None ?k kvs ?d) r xs (?k # [])" by (rule start) (simp only: Leaf node.case r(1))
    moreover have "updated H ns v S ?M r xs (?k # [])" using r(2) stale by (rule updated_drop_root)
    ultimately show ?thesis by blast
  next
    case (Internal i)
    note i = internal_facts [OF Suc.prems(3) [unfolded Internal]]
    have all: "strictly_below ns (dom M0 \<union> keys_of kvs)"
    proof -
      obtain k k' where k: "{k, k'} \<subseteq> dom M0" "k \<noteq> k'" using i(5) by blast
      have "\<forall>k \<in> dom M0 \<union> keys_of kvs. prefix ns (key_nibbles k)"
        using i(3) Suc.prems(1) by (auto simp only: strictly_below_def strict_prefix_def kvs_ok_def)
      then show ?thesis using k by (intro prefix_free_strict [OF Suc.prems(4), of ns k k']) auto
    qed
    then have strict: "strictly_below ns (keys_of kvs)" by (simp add: strictly_below_def)
    have depth: "at_depth ?d kvs" using kvs_at_depth [OF Suc.prems(1) strict] .
    let ?L = "nibbles_of ?d kvs"
    let ?F = "\<lambda>n g. case children i n of
         Some c \<Rightarrow> batch_insert_at H S levels v None (node_key (child_version c) (ns @ [n])) g (?d + 1)
       | None \<Rightarrow> batch_update_subtree H levels (node_key v (ns @ [n])) v g (?d + 1) None"
    define P where "P n r xs ss \<longleftrightarrow> collects (?F n (group_of ?d kvs n)) r xs ss \<and>
        updated H (ns @ [n]) v S (part (ns @ [n]) ?M) r xs ss" for n r xs ss
    have "\<exists>r xs ss. P n r xs ss" if n: "n \<in> nib ?d ` set kvs" for n
    proof -
      obtain kv where kv: "kv \<in> set kvs" "n = nib ?d kv" using n by blast
      have "?d < length (key_nibbles (fst kv))" "length (key_nibbles (fst kv)) < ?d + Suc levels"
        using depth kv Suc.prems(5) by (auto simp: at_depth_def)
      then have pos: "0 < levels" by linarith
      have nonempty: "group_of ?d kvs n \<noteq> []" using kv by (auto simp: group_of_def filter_empty_conv)
      have sub: "dom (part (ns @ [n]) M0) \<union> keys_of (group_of ?d kvs n) \<subseteq> dom M0 \<union> keys_of kvs"
        using group_keys [of ?d kvs n] by (auto simp: dom_part)
      note g = group_ok [OF strict Suc.prems(1)] prefix_free_subset [OF Suc.prems(4)] group_length [OF Suc.prems(5)]
      have "\<exists>r xs ss. collects (?F n (group_of ?d kvs n)) r xs ss \<and>
          updated H (ns @ [n]) v S (upd (part (ns @ [n]) M0) (group_of ?d kvs n)) r xs ss"
      proof (cases "children i n")
        case None
        have "\<exists>r xs. collects (batch_update_subtree H levels (node_key v (ns @ [n])) v (group_of ?d kvs n) (length (ns @ [n])) None) r xs [] \<and>
            updated H (ns @ [n]) v S (upd Map.empty (group_of ?d kvs n)) r xs []"
          by (rule batch_update_subtree_tree [OF g(1) g(2) g(3) pos Suc.prems(8)]) (use sub in auto)
        then show ?thesis using None i(1) [OF None] by auto
      next
        case (Some c)
        then obtain node' where node': "S (node_key (child_version c) (ns @ [n])) = Some node'"
            "tree_at H S (ns @ [n]) node' (part (ns @ [n]) M0)" using i(2) unfolding child_ok_def by blast
        have "\<exists>r xs ss. collects (batch_insert_at H S levels v None (node_key (child_version c) (ns @ [n])) (group_of ?d kvs n) (length (ns @ [n]))) r xs ss \<and>
            updated H (ns @ [n]) v S (upd (part (ns @ [n]) M0) (group_of ?d kvs n)) r xs ss"
          by (rule Suc.IH [OF g(1) node' g(2) [OF sub] g(3) _ pos Suc.prems(8)]) (use nonempty in simp)
        then show ?thesis using Some by simp
      qed
      then show ?thesis by (simp only: P_def upd_part [OF strict Suc.prems(1)])
    qed
    then obtain r xs ss where *: "\<forall>n \<in> nib ?d ` set kvs. P n (r n) (xs n) (ss n)" by (rule choose_results)
    have M: "strictly_below ns (dom ?M)" "finite (dom ?M)"
      using all dom_upd [of M0 kvs] finite_dom_upd [OF i(4), of kvs] unfolding strictly_below_def by blast+
    have "\<exists>r' ys ss'. collects (merge_children H S ?k v None
        (\<lambda>n. if n \<in> set ?L \<and> r n = None then None else children i n) (some_children (map (\<lambda>n. (n, r n)) ?L))) r' ys ss' \<and>
        updated H ns v S ?M r' (concat (map xs ?L) @ ys) (?k # concat (map ss ?L) @ ss')"
    proof (rule updated_internal [OF _ _ _ M Suc.prems(8) stale])
      show "updated H (ns @ [n]) v S (part (ns @ [n]) ?M) (r n) (xs n) (ss n)" if "n \<in> set ?L" for n
        using bspec [OF *, of n] that by (simp add: P_def)
      show "case children i n of None \<Rightarrow> part (ns @ [n]) ?M = Map.empty | Some c \<Rightarrow> child_ok H S (ns @ [n]) c (part (ns @ [n]) ?M)"
        if "n \<notin> set ?L" for n
        using not_below [OF that] i(1,2) [of n] by (simp add: upd_part [OF strict Suc.prems(1)] split: option.split)
    qed simp
    then obtain r' ys ss' where m: "collects (merge_children H S ?k v None
        (\<lambda>n. if n \<in> set ?L \<and> r n = None then None else children i n) (some_children (map (\<lambda>n. (n, r n)) ?L))) r' ys ss'"
      "updated H ns v S ?M r' (concat (map xs ?L) @ ys) (?k # concat (map ss ?L) @ ss')" by blast
    have each: "collects (?F n (group_of ?d kvs n)) (r n) (xs n) (ss n)" if "n \<in> set ?L" for n
      using bspec [OF *, of n] that by (simp only: P_def nibbles_of_simps)
    let ?K = "\<lambda>new_children. let removed = fst ` {x \<in> set new_children. snd x = None};
              old_children = (\<lambda>n. if n \<in> removed then None else children i n)
            in merge_children H S ?k v None old_children (some_children new_children)"
    have removed: "n \<in> fst ` {x \<in> set (map (\<lambda>n. (n, r n)) ?L). snd x = None} \<longleftrightarrow> n \<in> set ?L \<and> r n = None" for n
      by (auto simp: image_iff)
    have "collects (?K (map (\<lambda>n. (n, r n)) ?L)) r' ys ss'" unfolding Let_def removed using m(1) .
    from collects_groups [where F = ?F and K = ?K, OF depth each this]
    have "collects (batch_insert_at H S (Suc levels) v None ?k kvs ?d) r' (concat (map xs ?L) @ ys) (?k # concat (map ss ?L) @ ss')"
      by (intro start) (simp only: Internal node.case insert_at_child_eq)
    then show ?thesis using m(2) by blast
  next
    case Null
    then show ?thesis using Suc.prems(3) by (auto elim: tree_at_NullE)
  qed
qed simp

end
