(* ===== verification/Merkle_Store.thy ===== *)
theory Merkle_Store
  imports Merkle_Update
begin

text \<open>
  Stored trees: what a version of a tree in the store holds, what \<^verbatim>\<open>batch_put_value_set\<close> does to it,
  and reads with proofs.
\<close>


section \<open>Versions of a tree\<close>

text \<open>The root of a version is a tree of its entries, or the null node if there are none.\<close>

definition root_ok :: "hasher \<Rightarrow> 'p reader \<Rightarrow> 'p node \<Rightarrow> 'p entries \<Rightarrow> bool" where
  "root_ok H S node M \<longleftrightarrow> (case node of Null \<Rightarrow> M = Map.empty | _ \<Rightarrow> tree_at H S [] node M)"

definition stored_tree :: "hasher \<Rightarrow> 'p reader \<Rightarrow> version \<Rightarrow> 'p entries \<Rightarrow> bool" where
  "stored_tree H S v M \<longleftrightarrow> (\<exists>node. S (node_key v []) = Some node \<and> root_ok H S node M)"

definition persisted :: "hasher \<Rightarrow> 'p reader \<Rightarrow> version option \<Rightarrow> 'p entries \<Rightarrow> bool" where
  "persisted H S v M \<longleftrightarrow> (case v of None \<Rightarrow> M = Map.empty | Some v \<Rightarrow> stored_tree H S v M)"

text \<open>The store after a batch; with pruning, the stale nodes are gone.\<close>

definition stale_keys :: "'p tree_update_batch \<Rightarrow> tree_node_key set" where
  "stale_keys b = stale_node_key ` set (stale_node_index_batch b)"

definition apply_batch :: "'p reader \<Rightarrow> 'p tree_update_batch \<Rightarrow> 'p reader" where
  "apply_batch S b = S ++ map_of (node_batch b)"

definition prune_batch :: "'p reader \<Rightarrow> 'p tree_update_batch \<Rightarrow> 'p reader" where
  "prune_batch S b = (S |` (- stale_keys b)) ++ map_of (node_batch b)"

text \<open>The new nodes of a batch are nodes of the new version that lead to entries, and the root.\<close>

definition batch_ok :: "version \<Rightarrow> 'p entries \<Rightarrow> 'p tree_update_batch \<Rightarrow> bool" where
  "batch_ok v M b \<longleftrightarrow> distinct (map fst (node_batch b)) \<and>
     (\<forall>x \<in> set (node_batch b). node_of v M x \<or> M = Map.empty \<and> x = (node_key v [], Null))"

text \<open>The root hash of a map: the sparse Merkle root over any listing of it.\<close>

definition is_root_hash :: "hasher \<Rightarrow> 'p entries \<Rightarrow> hash \<Rightarrow> bool" where
  "is_root_hash H M h \<longleftrightarrow> (\<forall>es. distinct (map fst es) \<and> map_of es = M \<longrightarrow> h = sparse_root H (map (leaf_entry H 0) es))"

lemma root_hash_ok: "root_ok H S node M \<Longrightarrow> is_root_hash H M (hash_of H node)"
proof (cases node)
  case Null
  assume "root_ok H S node M"
  then show ?thesis using Null by (auto simp: root_ok_def is_root_hash_def hash_of_def)
qed (auto simp: root_ok_def is_root_hash_def dest: tree_hash)

lemma levels_for: "k \<in> keys_of kvs \<Longrightarrow> length (key_nibbles k) < levels_for kvs"
proof -
  have "k \<in> keys_of kvs \<Longrightarrow> length k \<le> foldr max (map (length \<circ> fst) kvs) 0"
    by (induction kvs) (auto simp: le_max_iff_disj intro: rev_image_eqI)
  then show "k \<in> keys_of kvs \<Longrightarrow> length (key_nibbles k) < levels_for kvs" by (simp add: levels_for_def)
qed

lemma put_root:
  assumes c: "collects m r xs ss" and u: "updated H [] v S M r xs ss" and S: "fresh v S"
  shows "\<exists>root b. (case mbind m (\<lambda>root_node_opt. case root_node_opt of
        Some root_node \<Rightarrow> mbind (mlift (\<lambda>_. node_hash H root_node)) (\<lambda>h. mseq (put_node (new_empty_path v) root_node) (mreturn h))
      | None \<Rightarrow> mseq (put_node (new_empty_path v) Null) (mreturn SPARSE_MERKLE_PLACEHOLDER_HASH)) TreeUpdateBatch_new of
        (batch, r) \<Rightarrow> rbind r (\<lambda>root_hash. Ok (root_hash, batch))) = (Ok (root, b) :: (storage_error, _) res) \<and>
      stored_tree H (prune_batch S b) v M \<and> is_root_hash H M root \<and>
      batch_ok v M b \<and> stale_keys b = set ss"
proof -
  obtain b' where b': "m TreeUpdateBatch_new = (b', Ok r)" "node_batch b' = xs" "map stale_node_key (stale_node_index_batch b') = ss"
    using c [unfolded collects_def, rule_format, of TreeUpdateBatch_new] by (auto simp: TreeUpdateBatch_new_def)
  define root where "root = (case r of None \<Rightarrow> Null | Some node \<Rightarrow> node)"
  define b where "b = fst (put_node (new_empty_path v) root b')"
  have b: "node_batch b = xs @ [(node_key v [], root)]" "stale_keys b = set ss"
    using b' by (auto simp: b_def put_node_def stale_keys_def simp flip: set_map)
  have not_in: "node_key v [] \<notin> fst ` set xs" using u by (auto simp: updated_def below_path_def)
  then have none: "map_of xs (node_key v []) = None" by (simp add: map_of_eq_None_iff)
  have store: "prune_batch S b = ((S |` (- set ss)) ++ map_of xs)(node_key v [] \<mapsto> root)"
  proof
    fix k
    show "prune_batch S b k = (((S |` (- set ss)) ++ map_of xs)(node_key v [] \<mapsto> root)) k"
      using none by (cases "k = node_key v []") (auto simp: prune_batch_def b map_add_def split: option.split)
  qed
  have tree: "root_ok H (prune_batch S b) root M"
  proof (cases r)
    case None
    then show ?thesis using u by (simp add: root_ok_def root_def updated_def root_of_def)
  next
    case (Some node)
    then have "tree_at H ((S |` (- set ss)) ++ map_of xs) [] node M" using u by (simp add: updated_def root_of_def)
    then have "tree_at H (prune_batch S b) [] node M" unfolding store by (rule tree_at_mono) (auto simp: strict_prefix_def)
    then show ?thesis using Some by (cases node) (auto simp: root_ok_def root_def elim: tree_at_NullE)
  qed
  have "(case mbind m (\<lambda>root_node_opt. case root_node_opt of
        Some root_node \<Rightarrow> mbind (mlift (\<lambda>_. node_hash H root_node)) (\<lambda>h. mseq (put_node (new_empty_path v) root_node) (mreturn h))
      | None \<Rightarrow> mseq (put_node (new_empty_path v) Null) (mreturn SPARSE_MERKLE_PLACEHOLDER_HASH)) TreeUpdateBatch_new of
        (batch, r) \<Rightarrow> rbind r (\<lambda>root_hash. Ok (root_hash, batch))) = (Ok (hash_of H root, b) :: (storage_error, _) res)"
    using b'(1) by (cases r) (simp_all add: root_def b_def put_node_def mseq_def hash_of_def)
  moreover have "stored_tree H (prune_batch S b) v M" using tree by (auto simp: stored_tree_def store)
  moreover have "node_of v M (node_key v [], root) \<or> M = Map.empty \<and> root = Null"
  proof (cases "root = Null")
    case False
    then have "tree_at H (prune_batch S b) [] root M" using tree by (cases root) (simp_all add: root_ok_def)
    moreover have "part [] M = M" by (simp add: part_def restrict_map_def)
    ultimately show ?thesis using node_of_tree [of H "prune_batch S b" "[]" root M v] by simp
  qed (use tree in \<open>simp add: root_ok_def\<close>)
  then have "batch_ok v M b"
    using u not_in unfolding batch_ok_def b(1) by (auto simp: updated_def below_path_def)
  ultimately show ?thesis using root_hash_ok [OF tree] b(2) by blast
qed

text \<open>
  An update of a persisted version: the new version is a tree of the updated entries, also without
  the nodes marked stale; the new nodes are nodes of the new version.
\<close>

theorem put_value_set_tree:
  assumes kvs: "sorted_wrt ord_class.lexordp (map fst kvs)" and free: "prefix_free (dom M \<union> keys_of kvs)"
    and nonempty: "[] \<notin> dom M" and S: "fresh v S" and old: "persisted H S pv M"
  shows "\<exists>root b. batch_put_value_set H S kvs None pv v = Ok (root, b) \<and>
      stored_tree H (prune_batch S b) v (upd M kvs) \<and> is_root_hash H (upd M kvs) root \<and>
      batch_ok v (upd M kvs) b \<and> (\<forall>k \<in> stale_keys b. S k \<noteq> None)"
proof -
  let ?l = "levels_for kvs"
  have ok: "kvs_ok [] kvs" using kvs by (simp add: kvs_ok_def)
  have long: "\<forall>k \<in> keys_of kvs. length (key_nibbles k) < length ([] :: nibble list) + ?l" using levels_for by (simp del: length_key_nibbles) blast
  have pos: "0 < ?l" by (simp add: levels_for_def)
  have free_kvs: "prefix_free (keys_of kvs)" using free prefix_free_subset by blast
  let ?m = "case pv of
      Some p \<Rightarrow> batch_insert_at H S ?l v None (new_empty_path p) kvs 0
    | None \<Rightarrow> batch_update_subtree H ?l (new_empty_path v) v kvs 0 None"
  have "\<exists>r xs ss. collects ?m r xs ss \<and> updated H [] v S (upd M kvs) r xs ss"
  proof (cases pv)
    case None
    then show ?thesis using batch_update_subtree_tree [where H = H and w = v, OF ok free_kvs long pos S] old
      by (auto simp: persisted_def)
  next
    case (Some p)
    then obtain node where node: "S (node_key p []) = Some node" "root_ok H S node M"
      using old by (auto simp: persisted_def stored_tree_def)
    show ?thesis
    proof (cases "node = Null")
      case True
      obtain r xs where r: "collects (batch_update_subtree H ?l (node_key p []) v kvs (length ([] :: nibble list)) None) r xs []"
          "updated H [] v S (upd Map.empty kvs) r xs []"
        using batch_update_subtree_tree [where H = H and w = p, OF ok free_kvs long pos S] by blast
      obtain l where l: "?l = Suc l" using pos by (cases ?l) auto
      have "collects (mseq (mlift (\<lambda>_. assert_that True)) (batch_update_subtree H ?l (node_key p []) v kvs 0 None)) r xs []"
        using collects_seq [OF collects_simps(2) r(1)] by (simp add: assert_that_def)
      then have "collects (mseq (put_stale_node (node_key p []) v Null)
          (mseq (mlift (\<lambda>_. assert_that True)) (batch_update_subtree H ?l (node_key p []) v kvs 0 None))) r ([] @ xs) ([node_key p []] @ [])"
        by (rule collects_seq [OF collects_simps(4)])
      then have "collects ?m r xs [node_key p []]"
        using Some node(1) True unfolding l by (simp add: get_node_def collects_lift)
      moreover have "updated H [] v S (upd M kvs) r xs (node_key p [] # [])"
        using updated_drop_root [OF r(2), of p] node True by (simp add: root_ok_def)
      ultimately show ?thesis by blast
    next
      case False
      then have tree: "tree_at H S [] node M" using node(2) by (cases node) (auto simp: root_ok_def)
      have "strictly_below [] (dom M)" unfolding strictly_below_def
      proof
        fix k assume "k \<in> dom M"
        then have "k \<noteq> []" using nonempty by auto
        then have "key_nibbles k \<noteq> []" by (metis length_key_nibbles length_0_conv mult_is_0 zero_neq_numeral)
        then show "strict_prefix [] (key_nibbles k)" by (cases "key_nibbles k") auto
      qed
      from batch_insert_at_tree [OF ok node(1) tree free long this pos S]
      show ?thesis using Some by simp
    qed
  qed
  then obtain r xs ss where r: "collects ?m r xs ss" "updated H [] v S (upd M kvs) r xs ss" by blast
  have "\<exists>root b. batch_put_value_set H S kvs None pv v = Ok (root, b) \<and>
      stored_tree H (prune_batch S b) v (upd M kvs) \<and> is_root_hash H (upd M kvs) root \<and>
      batch_ok v (upd M kvs) b \<and> stale_keys b = set ss"
    unfolding batch_put_value_set_def by (rule put_root [OF r S])
  moreover have "\<forall>k \<in> set ss. S k \<noteq> None" using r(2) by (simp add: updated_def)
  ultimately show ?thesis by (elim exE conjE) (intro exI conjI, assumption+, simp)
qed

text \<open>Without pruning, the older versions stay as well.\<close>

lemma stored_tree_mono:
  assumes "stored_tree H S v M" "\<And>k x. S k = Some x \<Longrightarrow> T k = Some x"
  shows "stored_tree H T v M"
proof -
  obtain node where node: "S (node_key v []) = Some node" "root_ok H S node M" using assms(1) by (auto simp: stored_tree_def)
  have "tree_at H T [] node M" if "tree_at H S [] node M" using that by (rule tree_at_mono) (rule assms(2))
  then have "root_ok H T node M" using node(2) by (cases node) (simp_all add: root_ok_def)
  then show ?thesis using assms(2) [OF node(1)] by (auto simp: stored_tree_def)
qed

lemma batch_keys: "batch_ok v M b \<Longrightarrow> x \<in> set (node_batch b) \<Longrightarrow> \<exists>ms. fst x = node_key v ms"
  by (auto simp: batch_ok_def node_of_def)

lemma apply_batch_keeps:
  assumes "batch_ok v M b" "fresh v S" "S k = Some x"
  shows "apply_batch S b k = Some x"
proof -
  have "map_of (node_batch b) k = None"
  proof (rule ccontr)
    assume "map_of (node_batch b) k \<noteq> None"
    then obtain y where "(k, y) \<in> set (node_batch b)" by (auto dest: map_of_SomeD)
    then obtain ms where "k = node_key v ms" using batch_keys [OF assms(1)] by force
    then show False using assms(2,3) by (simp add: fresh_def)
  qed
  then show ?thesis using assms(3) by (simp add: apply_batch_def map_add_def)
qed

lemma pruned_in_applied: "prune_batch S b k = Some x \<Longrightarrow> apply_batch S b k = Some x"
  by (auto simp: prune_batch_def apply_batch_def map_add_def restrict_map_def split: option.splits if_splits)

end
