(* ===== verification/Merkle_Proof.thy ===== *)
theory Merkle_Proof
  imports Merkle_Store
begin

text \<open>
  Reads of a stored tree: \<^verbatim>\<open>get_with_proof\<close> returns the entry of a key, and its siblings lead from the
  leaf it names, or from the placeholder, to the root hash.
\<close>


section \<open>Proofs\<close>

text \<open>
  The root hash that a proof gives: the siblings of a proof are ordered from the bottom level to
  the root, and the bits of the key tell on which side each of them is.
\<close>

fun climb :: "hasher \<Rightarrow> hash \<Rightarrow> (bool \<times> hash) list \<Rightarrow> hash" where
  "climb H x [] = x"
| "climb H x ((b, s) # path) = (if b then H (s @ climb H x path) else H (climb H x path @ s))"

definition proof_root :: "hasher \<Rightarrow> leaf_key \<Rightarrow> sparse_merkle_proof \<Rightarrow> hash" where
  "proof_root H key p = climb H (case proof_leaf p of None \<Rightarrow> SPARSE_MERKLE_PLACEHOLDER_HASH | Some l \<Rightarrow> sparse_leaf_hash H l)
     (zip (iter_bits key) (rev (proof_siblings p)))"

lemma climb_append: "climb H x (p @ q) = climb H (climb H x q) p"
  by (induction H x p rule: climb.induct) simp_all


section \<open>Ranges of children\<close>

lemma half_starts:
  assumes "h < 4"
  shows "get_child_and_sibling_half_start n h =
    (unat n div 2 ^ h * 2 ^ h, if bit n h then unat n div 2 ^ h * 2 ^ h - 2 ^ h else unat n div 2 ^ h * 2 ^ h + 2 ^ h)"
proof -
  have all: "\<forall>n \<in> set all_nibbles. \<forall>h \<in> {0, 1, 2, 3}. get_child_and_sibling_half_start n h =
    (unat n div 2 ^ h * 2 ^ h, if bit n h then unat n div 2 ^ h * 2 ^ h - 2 ^ h else unat n div 2 ^ h * 2 ^ h + 2 ^ h)"
    by code_simp
  have "n \<in> set all_nibbles" "h \<in> {0, 1, 2, 3}" using assms by auto
  then show ?thesis by (rule bspec [OF bspec [OF all]])
qed

definition range_start :: "nibble \<Rightarrow> nat \<Rightarrow> nat" where
  "range_start n h = unat n div 2 ^ h * 2 ^ h"

lemma range_start_facts:
  assumes "h < 4"
  shows "range_start n h \<le> unat n" "unat n < range_start n h + 2 ^ h" "range_start n h + 2 ^ h \<le> 16" "2 ^ h dvd range_start n h"
    and "range_start n (Suc h) = (if bit n h then range_start n h - 2 ^ h else range_start n h)"
    and "bit n h \<Longrightarrow> 2 ^ h \<le> range_start n h"
    and "\<not> bit n h \<Longrightarrow> range_start n h + 2 ^ h + 2 ^ h \<le> 16"
proof -
  have all: "\<forall>n \<in> set all_nibbles. \<forall>h \<in> {0, 1, 2, 3}. range_start n h \<le> unat n \<and> unat n < range_start n h + 2 ^ h \<and> range_start n h + 2 ^ h \<le> 16 \<and>
    2 ^ h dvd range_start n h \<and> range_start n (Suc h) = (if bit n h then range_start n h - 2 ^ h else range_start n h) \<and>
    (bit n h \<longrightarrow> 2 ^ h \<le> range_start n h) \<and> (\<not> bit n h \<longrightarrow> range_start n h + 2 ^ h + 2 ^ h \<le> 16)"
    by code_simp
  have "n \<in> set all_nibbles" "h \<in> {0, 1, 2, 3}" using assms by auto
  then have "range_start n h \<le> unat n \<and> unat n < range_start n h + 2 ^ h \<and> range_start n h + 2 ^ h \<le> 16 \<and>
    2 ^ h dvd range_start n h \<and> range_start n (Suc h) = (if bit n h then range_start n h - 2 ^ h else range_start n h) \<and>
    (bit n h \<longrightarrow> 2 ^ h \<le> range_start n h) \<and> (\<not> bit n h \<longrightarrow> range_start n h + 2 ^ h + 2 ^ h \<le> 16)"
    by (rule bspec [OF bspec [OF all]])
  then show "range_start n h \<le> unat n" "unat n < range_start n h + 2 ^ h" "range_start n h + 2 ^ h \<le> 16" "2 ^ h dvd range_start n h"
    "range_start n (Suc h) = (if bit n h then range_start n h - 2 ^ h else range_start n h)"
    "bit n h \<Longrightarrow> 2 ^ h \<le> range_start n h" "\<not> bit n h \<Longrightarrow> range_start n h + 2 ^ h + 2 ^ h \<le> 16" by blast+
qed

text \<open>What the masked bitmaps say about a range of children.\<close>

lemma range_view:
  assumes "h \<le> 4" "s + 2 ^ h \<le> 16" "2 ^ h dvd s" and e: "is_bitmap (exists_at cs) e" and l: "is_bitmap (leaf_at cs) l"
  obtains e' l' where "(range_bitmaps s (2 ^ h) (e, l) :: ('e, u16 \<times> u16) res) = Ok (e', l')"
    "e' = 0 \<longleftrightarrow> range_children cs s (2 ^ h) = []"
    "(count_ones e' = 1 \<and> l' \<noteq> 0) \<longleftrightarrow> length (range_children cs s (2 ^ h)) = 1 \<and> leaf_at cs (hd (range_children cs s (2 ^ h)))"
    "\<forall>i js. range_children cs s (2 ^ h) = i # js \<longrightarrow> trailing_zeros e' = i"
    "is_bitmap (\<lambda>i. (s \<le> i \<and> i < s + 2 ^ h) \<and> exists_at cs i) e'" "is_bitmap (\<lambda>i. (s \<le> i \<and> i < s + 2 ^ h) \<and> leaf_at cs i) l'"
proof -
  let ?in = "\<lambda>i. s \<le> i \<and> i < s + 2 ^ h" and ?is = "range_children cs s (2 ^ h)"
  obtain e' l' where bm: "(range_bitmaps s (2 ^ h) (e, l) :: ('e, _) res) = Ok (e', l')"
    and e': "is_bitmap (\<lambda>i. ?in i \<and> exists_at cs i) e'" and l': "is_bitmap (\<lambda>i. ?in i \<and> leaf_at cs i) l'"
    using range_bitmaps_spec [OF assms] by blast
  have fe: "filter (\<lambda>i. ?in i \<and> exists_at cs i) [0..<16] = ?is"
    using filter_range [OF assms(2)] by (simp add: range_children_def)
  have fl: "filter (\<lambda>i. ?in i \<and> leaf_at cs i) [0..<16] = filter (leaf_at cs) [s..<s + 2 ^ h]"
    using filter_range [OF assms(2)] by simp
  have "e' = 0 \<longleftrightarrow> ?is = []" unfolding bitmap_zero [OF e'] fe ..
  moreover have "(count_ones e' = 1 \<and> l' \<noteq> 0) \<longleftrightarrow> length ?is = 1 \<and> leaf_at cs (hd ?is)"
    using singleton_leaf [of cs s "2 ^ h"] bitmap_zero [OF l', unfolded fl]
    unfolding count_ones_def bitmap_count [OF e'] fe by (auto simp: length_Suc_conv)
  moreover have "trailing_zeros e' = i" if "?is = i # js" for i js using bitmap_trailing [OF e', unfolded fe, OF that] .
  ultimately show ?thesis using that bm e' l' by blast
qed

section \<open>A child and its siblings\<close>

text \<open>The children of an internal node as a stored tree has them.\<close>

definition children_ok :: "hasher \<Rightarrow> 'p reader \<Rightarrow> nibble list \<Rightarrow> children \<Rightarrow> bool" where
  "children_ok H S ns cs \<longleftrightarrow> (\<forall>n c. cs n = Some c \<longrightarrow> (\<exists>node. S (node_key (child_version c) (ns @ [n])) = Some node \<and>
     child_hash c = hash_of H node \<and> (child_is_leaf c \<longleftrightarrow> is_leaf node)))"

lemma gen_node_in_proof_hash:
  assumes "h < 4" "s + 2 ^ h \<le> 16" "2 ^ h dvd s" and e: "is_bitmap (exists_at cs) e" and l: "is_bitmap (leaf_at cs) l"
    and cs: "children i = cs" "children_ok H S ns cs"
  shows "\<exists>p. gen_node_in_proof H S (node_key u ns) i s (2 ^ h) (e, l) = Ok p \<and> node_in_proof_hash H p = range_hash H cs s h"
proof -
  let ?is = "range_children cs s (2 ^ h)"
  have h: "h \<le> 4" using assms(1) by simp
  obtain e' l' where v: "(range_bitmaps s (2 ^ h) (e, l) :: (storage_error, u16 \<times> u16) res) = Ok (e', l')"
    "e' = 0 \<longleftrightarrow> ?is = []" "(count_ones e' = 1 \<and> l' \<noteq> 0) \<longleftrightarrow> length ?is = 1 \<and> leaf_at cs (hd ?is)"
    "\<forall>i js. ?is = i # js \<longrightarrow> trailing_zeros e' = i"
    "is_bitmap (\<lambda>i. (s \<le> i \<and> i < s + 2 ^ h) \<and> exists_at cs i) e'" "is_bitmap (\<lambda>i. (s \<le> i \<and> i < s + 2 ^ h) \<and> leaf_at cs i) l'"
    using range_view [OF h assms(2,3) e l] by blast
  show ?thesis
  proof (cases "?is = []")
    case True
    then have "range_hash H cs s h = SPARSE_MERKLE_PLACEHOLDER_HASH"
      by (cases h) (auto simp: range_children_def split: option.split)
    then show ?thesis using v(1,2) True by (simp add: gen_node_in_proof_def node_in_proof_hash_def)
  next
    case False
    then obtain j js where j: "?is = j # js" by (cases ?is) auto
    have "j \<in> set ?is" using j by simp
    then obtain c where c: "cs (word_of_nat j) = Some c" by (auto simp: set_range_children)
    show ?thesis
    proof (cases "h = 0 \<or> length ?is = 1 \<and> leaf_at cs (hd ?is)")
      case True
      have hash: "range_hash H cs s h = child_hash c"
      proof (cases h)
        case 0
        then have "s = j" using \<open>j \<in> set ?is\<close> by (simp add: set_range_children)
        then show ?thesis using 0 c by simp
      next
        case (Suc h')
        then show ?thesis using True j c by (simp add: Let_def del: power_Suc)
      qed
      obtain node where node: "S (node_key (child_version c) (ns @ [word_of_nat j])) = Some node"
          "child_hash c = hash_of H node" "child_is_leaf c \<longleftrightarrow> is_leaf node"
        using cs(2) c unfolding children_ok_def by blast
      have cond: "2 ^ h = (1::nat) \<or> count_ones e' = 1 \<and> l' \<noteq> 0" using True v(3) by auto
      show ?thesis
      proof (cases "child_is_leaf c")
        case leaf: True
        then obtain lf where "node = Leaf lf" using node(3) by (cases node) auto
        then show ?thesis using v(1,2,4) False j c cs(1) cond node leaf hash
          by (auto simp: gen_node_in_proof_def Let_def get_node_def child_is_leaf_def node_in_proof_hash_def
              sparse_leaf_of_def sparse_leaf_hash_def hash_of_def leaf_hash_def)
      next
        case inner: False
        then show ?thesis using v(1,2,4) False j c cs(1) cond hash
          by (auto simp: gen_node_in_proof_def Let_def child_is_leaf_def node_in_proof_hash_def)
      qed
    next
      case split: False
      then obtain h' where h': "h = Suc h'" by (cases h) auto
      have dv: "2 ^ h' dvd s" "2 ^ h' dvd s + 2 ^ h'" using assms(3) h' by (auto elim: dvd_trans [rotated])
      have "(merkle_hash H i s (2 ^ h') (e', l') :: (storage_error, hash) res) = Ok (range_hash H cs s h')"
        "(merkle_hash H i (s + 2 ^ h') (2 ^ h') (e', l') :: (storage_error, hash) res) = Ok (range_hash H cs (s + 2 ^ h') h')"
        using assms(1,2) dv unfolding cs(1) [symmetric]
        by (intro merkle_hash_eq [OF _ _ _ v(5,6) [folded cs(1)]]; simp add: h')+
      moreover have "(2::nat) ^ h div 2 = 2 ^ h'" "(2::nat) ^ h \<noteq> 1" using h' by simp_all
      moreover have "range_hash H cs s h = H (range_hash H cs s h' @ range_hash H cs (s + 2 ^ h') h')"
        using split False h' by (simp add: Let_def del: power_Suc) auto
      moreover have "\<not> (2 ^ h = (1::nat) \<or> count_ones e' = 1 \<and> l' \<noteq> 0)" "e' \<noteq> 0" using split v(2,3) False h' by auto
      ultimately show ?thesis using v(1)
        by (simp add: gen_node_in_proof_def sparse_internal_hash_def node_in_proof_hash_def del: power_Suc) blast
    qed
  qed
qed

lemma range_hash_single:
  assumes "range_children cs s (2 ^ h) = [j]" "cs (word_of_nat j) = Some c" "h = 0 \<or> child_is_leaf c"
  shows "range_hash H cs s h = child_hash c"
proof (cases h)
  case 0
  have "j \<in> set (range_children cs s (2 ^ h))" using assms(1) by simp
  then have "s = j" using 0 by (simp add: set_range_children)
  then show ?thesis using 0 assms(2) by simp
next
  case (Suc h')
  then show ?thesis using assms by (simp add: Let_def leaf_at_def del: power_Suc)
qed

lemma range_hash_empty: "range_children cs s (2 ^ h) = [] \<Longrightarrow> range_hash H cs s h = SPARSE_MERKLE_PLACEHOLDER_HASH"
  by (cases h) (auto simp: range_children_def split: option.split)

text \<open>
  A range that is neither empty nor a single leaf: the loop returns no child, the child of the
  nibble with all siblings below the range, or the only leaf of a half.
\<close>

abbreviation single_leaf :: "children \<Rightarrow> nat \<Rightarrow> nat \<Rightarrow> bool" where
  "single_leaf cs s h \<equiv> length (range_children cs s (2 ^ h)) = 1 \<and> leaf_at cs (hd (range_children cs s (2 ^ h)))"

definition found_child :: "children \<Rightarrow> nibble list \<Rightarrow> nibble \<Rightarrow> nat \<Rightarrow> tree_node_key option \<Rightarrow> nat \<Rightarrow> hash \<Rightarrow> bool" where
  "found_child cs ns n levels ck sibs x \<longleftrightarrow> sibs \<le> levels \<and> (case ck of
     None \<Rightarrow> x = SPARSE_MERKLE_PLACEHOLDER_HASH \<and> cs n = None
   | Some k \<Rightarrow> \<exists>j c. k = node_key (child_version c) (ns @ [j]) \<and> cs j = Some c \<and> x = child_hash c \<and>
       (j = n \<and> sibs = levels \<or> child_is_leaf c \<and> (j \<noteq> n \<longrightarrow> cs n = None)))"

lemma siblings_loop:
  assumes "h < 4" and e: "is_bitmap (exists_at cs) e" and l: "is_bitmap (leaf_at cs) l"
    and cs: "children i = cs" "children_ok H S ns cs"
    and many: "range_children cs (range_start n (Suc h)) (2 ^ Suc h) \<noteq> []" "\<not> single_leaf cs (range_start n (Suc h)) (Suc h)"
  shows "\<exists>ck sibs x. child_with_siblings_loop H (Some S) (node_key u ns) i n (e, l) (Suc h) acc = Ok (ck, acc @ sibs) \<and>
    range_hash H cs (range_start n (Suc h)) (Suc h) = climb H x (zip (drop (3 - h) (nibble_bits n)) (map (node_in_proof_hash H) sibs)) \<and>
    found_child cs ns n (Suc h) ck (length sibs) x"
  using assms(1) many
proof (induction h arbitrary: acc rule: less_induct)
  case (less h)
  let ?s = "range_start n h" and ?b = "bit n h"
  define sib where "sib = (if ?b then ?s - 2 ^ h else ?s + 2 ^ h)"
  note st = range_start_facts [OF less.prems(1), of n]
  have h: "h \<le> 4" using less.prems(1) by simp
  have starts: "get_child_and_sibling_half_start n h = (?s, sib)"
    using half_starts [OF less.prems(1), of n] by (simp add: range_start_def sib_def)
  have sib: "sib + 2 ^ h \<le> 16" "2 ^ h dvd sib" using st by (auto simp: sib_def dvd_diff_nat)
  obtain p where p: "gen_node_in_proof H S (node_key u ns) i sib (2 ^ h) (e, l) = Ok p" "node_in_proof_hash H p = range_hash H cs sib h"
    using gen_node_in_proof_hash [OF less.prems(1) sib e l cs] by blast
  have "range_hash H cs (range_start n (Suc h)) (Suc h) =
      H (range_hash H cs (range_start n (Suc h)) h @ range_hash H cs (range_start n (Suc h) + 2 ^ h) h)"
    using less.prems(2,3) by (simp add: Let_def del: power_Suc) auto
  then have up: "range_hash H cs (range_start n (Suc h)) (Suc h) = climb H (range_hash H cs ?s h) [(?b, node_in_proof_hash H p)]"
    using st(5,6) p(2) by (auto simp: sib_def)
  have bits: "drop (3 - h) (nibble_bits n) = ?b # drop (4 - h) (nibble_bits n)" by (rule nibble_bits_drop [OF less.prems(1)])
  let ?is = "range_children cs ?s (2 ^ h)"
  obtain e' l' where v: "(range_bitmaps ?s (2 ^ h) (e, l) :: (storage_error, u16 \<times> u16) res) = Ok (e', l')"
    "e' = 0 \<longleftrightarrow> ?is = []" "(count_ones e' = 1 \<and> l' \<noteq> 0) \<longleftrightarrow> single_leaf cs ?s h"
    "\<forall>i js. ?is = i # js \<longrightarrow> trailing_zeros e' = i"
    "is_bitmap (\<lambda>i. (?s \<le> i \<and> i < ?s + 2 ^ h) \<and> exists_at cs i) e'" "is_bitmap (\<lambda>i. (?s \<le> i \<and> i < ?s + 2 ^ h) \<and> leaf_at cs i) l'"
    by (rule range_view [OF h st(3,4) e l, where 'e = storage_error])
  have n: "unat n \<in> set ?is \<longleftrightarrow> cs n \<noteq> None" using st(1,2) by (simp add: set_range_children)
  have one: ?case if loop: "child_with_siblings_loop H (Some S) (node_key u ns) i n (e, l) (Suc h) acc = Ok (ck, acc @ [p])"
      and found: "found_child cs ns n (Suc h) ck (length [p]) (range_hash H cs ?s h)" for ck
    using loop found up bits by (intro exI [of _ ck] exI [of _ "[p]"] exI [of _ "range_hash H cs ?s h"]) simp
  show ?case
  proof (cases "?is = []")
    case True
    then have "found_child cs ns n (Suc h) None (length [p]) (range_hash H cs ?s h)"
      using n range_hash_empty by (simp add: found_child_def)
    then show ?thesis using starts p v(1,2) True by (intro one) (simp_all add: Let_def)
  next
    case False
    show ?thesis
    proof (cases "h = 0 \<or> single_leaf cs ?s h")
      case True
      obtain j c where j: "?is = [j]" "cs (word_of_nat j) = Some c" "h = 0 \<or> child_is_leaf c"
      proof -
        obtain j js where j: "?is = j # js" using False by (cases ?is) auto
        have "js = []"
        proof (cases "h = 0")
          case True
          have "length ?is \<le> length [?s..<?s + 1]" unfolding range_children_def True power_0 by (rule length_filter_le)
          then show ?thesis using j by simp
        qed (use \<open>h = 0 \<or> single_leaf cs ?s h\<close> j in simp)
        moreover have "j \<in> set ?is" using j by simp
        then obtain c where "cs (word_of_nat j) = Some c" by (auto simp: set_range_children)
        ultimately show ?thesis using that [of j c] True j by (auto simp: leaf_at_def)
      qed
      have "j \<in> set ?is" using j(1) by simp
      then have jin: "?s \<le> j" "j < ?s + 2 ^ h" by (simp_all add: set_range_children)
      have only: "cs n = None" if "word_of_nat j \<noteq> n"
      proof -
        have "unat n \<notin> set ?is" using that j(1) by auto
        then show ?thesis using n by simp
      qed
      have "word_of_nat j = n" if "h = 0"
      proof -
        have "j = unat n" using jin st(1,2) that by simp
        then show ?thesis by simp
      qed
      then have "found_child cs ns n (Suc h) (Some (node_key (child_version c) (ns @ [word_of_nat j]))) (length [p]) (range_hash H cs ?s h)"
        unfolding found_child_def option.case using j(2,3) range_hash_single [OF j] only by (intro conjI exI [of _ "word_of_nat j"] exI [of _ c]) auto
      moreover have "2 ^ h = (1::nat) \<or> count_ones e' = 1 \<and> l' \<noteq> 0" using True v(3) by auto
      then have "child_with_siblings_loop H (Some S) (node_key u ns) i n (e, l) (Suc h) acc =
          Ok (Some (node_key (child_version c) (ns @ [word_of_nat j])), acc @ [p])"
        using starts p v(1,2) v(4) [rule_format, OF j(1)] False j(2) cs(1) by (auto simp: Let_def)
      ultimately show ?thesis by (intro one)
    next
      case deep: False
      then obtain h' where h': "h = Suc h'" by (cases h) auto
      have "range_children cs (range_start n (Suc h')) (2 ^ Suc h') \<noteq> []" "\<not> single_leaf cs (range_start n (Suc h')) (Suc h')"
        using False deep unfolding h' by (simp_all del: power_Suc) 
      from less.IH [of h', OF _ _ this, of "acc @ [p]"] less.prems(1) h'
      obtain ck sibs x where r: "child_with_siblings_loop H (Some S) (node_key u ns) i n (e, l) h (acc @ [p]) = Ok (ck, (acc @ [p]) @ sibs)"
        "range_hash H cs ?s h = climb H x (zip (drop (3 - h') (nibble_bits n)) (map (node_in_proof_hash H) sibs))"
        "found_child cs ns n h ck (length sibs) x" by auto
      have "child_with_siblings_loop H (Some S) (node_key u ns) i n (e, l) (Suc h) acc = Ok (ck, acc @ p # sibs)"
        using starts p v(1,2,3) False deep h' r(1) by (auto simp: Let_def simp del: power_Suc)
      moreover have "range_hash H cs (range_start n (Suc h)) (Suc h) = climb H x (zip (drop (3 - h) (nibble_bits n)) (map (node_in_proof_hash H) (p # sibs)))"
        using up r(2) bits h' by simp
      moreover have "found_child cs ns n (Suc h) ck (length (p # sibs)) x" using r(3) by (auto simp: found_child_def split: option.splits)
      ultimately show ?thesis by blast
    qed
  qed
qed

section \<open>Lookups\<close>

lemma internal_many:
  assumes "tree_at H S ns (Internal i) M"
  shows "children_ok H S ns (children i)" "range_children (children i) 0 16 \<noteq> []" "\<not> single_leaf (children i) 0 4"
proof -
  note i = internal_facts [OF assms]
  show "children_ok H S ns (children i)" using i(2) unfolding children_ok_def child_ok_def by blast
  obtain k k' where k: "{k, k'} \<subseteq> dom M" "k \<noteq> k'" using i(5) by blast
  have some: "\<exists>n. children i n \<noteq> None \<and> prefix (ns @ [n]) (key_nibbles k)" if kM: "k \<in> dom M" for k
  proof -
    obtain n where n: "prefix (ns @ [n]) (key_nibbles k)" using strictly_belowE [OF i(3) kM] .
    then have "part (ns @ [n]) M k \<noteq> None" using kM by (auto simp: part_apply)
    then show ?thesis using i(1) [of n] n by force
  qed
  have in_range: "unat n \<in> set (range_children (children i) 0 16) \<longleftrightarrow> children i n \<noteq> None" for n
    by (simp add: set_range_children)
  obtain n where n: "children i n \<noteq> None" "prefix (ns @ [n]) (key_nibbles k)" using some [of k] k(1) by auto
  then show "range_children (children i) 0 16 \<noteq> []" using in_range [of n] by auto
  show "\<not> single_leaf (children i) 0 4"
  proof
    assume "single_leaf (children i) 0 4"
    then obtain j where j: "range_children (children i) 0 16 = [j]" "leaf_at (children i) j" by (auto simp: length_Suc_conv)
    obtain n' where n': "children i n' \<noteq> None" "prefix (ns @ [n']) (key_nibbles k')" using some [of k'] k(1) by auto
    have "unat n = j" "unat n' = j" using in_range n(1) n'(1) j(1) by auto
    then have nn: "n' = n" by (metis word_unat_eq_iff)
    obtain c where c: "children i n = Some c" "child_is_leaf c" using j(2) \<open>unat n = j\<close> by (auto simp: leaf_at_def)
    then obtain node where "tree_at H S (ns @ [n]) node (part (ns @ [n]) M)" "is_leaf node"
      using i(2) [OF c(1)] unfolding child_ok_def by blast
    then obtain k0 where "dom (part (ns @ [n]) M) = {k0}" using tree_at_leaf_iff by blast
    moreover have "k \<in> dom (part (ns @ [n]) M)" "k' \<in> dom (part (ns @ [n]) M)" using n(2) n'(2) nn k(1) by (auto simp: dom_part)
    ultimately show False using k(2) by simp
  qed
qed

lemma get_child_with_siblings_ok:
  fixes S :: "'p reader"
  assumes "tree_at H S ns (Internal i) M"
  shows "\<exists>ck sibs x. get_child_with_siblings H (Some S) (node_key u ns) i n = Ok (ck, sibs) \<and>
    hash_of H (Internal i :: 'p node) = climb H x (zip (nibble_bits n) (map (node_in_proof_hash H) sibs)) \<and>
    found_child (children i) ns n 4 ck (length sibs) x"
proof -
  obtain e l where b: "(generate_bitmaps i :: (storage_error, u16 \<times> u16) res) = Ok (e, l)"
    "is_bitmap (exists_at (children i)) e" "is_bitmap (leaf_at (children i)) l"
    using generate_bitmaps_spec by blast
  have start: "range_start n (Suc 3) = 0" using unat_nibble_less [of n] by (simp add: range_start_def del: unat_nibble_less)
  have "\<exists>ck sibs x. child_with_siblings_loop H (Some S) (node_key u ns) i n (e, l) (Suc 3) [] = Ok (ck, [] @ sibs) \<and>
    range_hash H (children i) (range_start n (Suc 3)) (Suc 3) =
      climb H x (zip (drop (3 - 3) (nibble_bits n)) (map (node_in_proof_hash H) sibs)) \<and>
    found_child (children i) ns n (Suc 3) ck (length sibs) x"
    by (rule siblings_loop [OF _ b(2,3) refl]) (use internal_many [OF assms] start in simp_all)
  then show ?thesis using b(1) unfolding start by (simp add: get_child_with_siblings_def hash_of_def eval_nat_numeral)
qed

definition leaf_or_placeholder :: "hasher \<Rightarrow> sparse_merkle_leaf_node option \<Rightarrow> hash" where
  "leaf_or_placeholder H leaf = (case leaf of None \<Rightarrow> SPARSE_MERKLE_PLACEHOLDER_HASH | Some l \<Rightarrow> sparse_leaf_hash H l)"

text \<open>The leaf of a proof is an entry, and without a leaf the key has no entry.\<close>

definition leaf_ok :: "'p entries \<Rightarrow> leaf_key \<Rightarrow> sparse_merkle_leaf_node option \<Rightarrow> bool" where
  "leaf_ok M key leaf \<longleftrightarrow> (case leaf of
     None \<Rightarrow> M key = None
   | Some l \<Rightarrow> (\<exists>p. M (sml_key l) = Some (sml_value_hash l, p)) \<and> (M key \<noteq> None \<longleftrightarrow> sml_key l = key))"

abbreviation entry_of :: "(hash \<times> 'p \<times> version) option \<Rightarrow> (hash \<times> 'p) option" where
  "entry_of \<equiv> map_option (\<lambda>(h, p, v). (h, p))"

lemma loop_leaf:
  assumes "S k = Some (Leaf l)" "0 < limit"
  shows "get_with_proof_loop H S key limit k ns acc =
      Ok (if leaf_key l = key then Some (value_hash l, payload l, leaf_version l) else None,
          \<lparr>ext_leaf = Some (sparse_leaf_of l), ext_siblings = rev acc\<rparr>)"
  using assms by (cases limit) (simp_all add: get_node_def)

theorem get_with_proof_loop_tree:
  fixes S :: "'p reader"
  shows "tree_at H S ns node M \<Longrightarrow> S (node_key u ns) = Some node \<Longrightarrow> prefix ns (key_nibbles key) \<Longrightarrow> prefix_free (insert key (dom M)) \<Longrightarrow>
   length (key_nibbles key) - length ns < limit \<Longrightarrow>
   \<exists>val leaf sibs. get_with_proof_loop H S key limit (node_key u ns) (drop (length ns) (key_nibbles key)) acc =
       Ok (val, \<lparr>ext_leaf = leaf, ext_siblings = rev (acc @ sibs)\<rparr>) \<and> entry_of val = M key \<and> leaf_ok M key leaf \<and>
     climb H (leaf_or_placeholder H leaf) (zip (drop (4 * length ns) (iter_bits key)) (map (node_in_proof_hash H) sibs)) = hash_of H node"
proof (induction arbitrary: u limit acc rule: tree_at.induct)
  case (leaf ns l)
  have "0 < limit" using leaf.prems(4) by simp
  from loop_leaf [of S, OF leaf.prems(1) this] show ?case
    by (intro exI [of _ "if leaf_key l = key then Some (value_hash l, payload l, leaf_version l) else None"]
          exI [of _ "Some (sparse_leaf_of l)"] exI [of _ "[]"])
       (auto simp: leaf_ok_def leaf_or_placeholder_def sparse_leaf_of_def sparse_leaf_hash_def hash_of_def leaf_hash_def)
next
  case (internal i ns M k k')
  let ?d = "length ns"
  have tree: "tree_at H S ns (Internal i) M"
  proof (rule tree_at.internal [of i ns M, OF internal.hyps(1) _ internal.hyps(2-5)])
    fix n c assume "children i n = Some c"
    from internal.IH [OF this] show "\<exists>node. S (node_key (child_version c) (ns @ [n])) = Some node \<and>
        child_hash c = hash_of H node \<and> (child_is_leaf c \<longleftrightarrow> is_leaf node) \<and> child_node_type c \<noteq> NullType \<and>
        tree_at H S (ns @ [n]) node (part (ns @ [n]) M)" by blast
  qed
  have strict: "strictly_below ns (insert key (dom M))"
  proof (rule prefix_free_strict [OF internal.prems(3), of ns k k'])
    show "\<forall>k \<in> insert key (dom M). prefix ns (key_nibbles k)"
      using internal.prems(2) internal.hyps(2) by (auto simp only: strictly_below_def strict_prefix_def)
  qed (use internal.hyps in auto)
  then have "strict_prefix ns (key_nibbles key)" by (simp add: strictly_below_def)
  then obtain n ms where key: "key_nibbles key = ns @ n # ms" by (rule strict_prefixE')
  have len: "length (key_nibbles key) = ?d + Suc (length ms)" unfolding key by simp
  have bits: "drop (4 * ?d) (iter_bits key) = nibble_bits n @ drop (4 * Suc ?d) (iter_bits key)"
    using drop_iter_bits [of ?d key] len key by (simp del: length_key_nibbles)
  obtain lim where lim: "limit = Suc lim" using internal.prems(4) by (cases limit) auto
  have lim2: "length (key_nibbles key) - length (ns @ [n]) < lim" "0 < lim"
    using internal.prems(4) lim len by (simp_all del: length_key_nibbles)
  obtain ck sibs x where g: "get_child_with_siblings H (Some S) (node_key u ns) i n = Ok (ck, sibs)"
    "hash_of H (Internal i :: 'p node) = climb H x (zip (nibble_bits n) (map (node_in_proof_hash H) sibs))"
    "found_child (children i) ns n 4 ck (length sibs) x"
    using get_child_with_siblings_ok [OF tree] by blast
  have nib4: "length (nibble_bits n) = 4" by (simp add: nibble_bits_def)
  have loop: "get_with_proof_loop H S key limit (node_key u ns) (drop ?d (key_nibbles key)) acc =
     (case ck of Some child_key \<Rightarrow> get_with_proof_loop H S key lim child_key ms (acc @ sibs)
      | None \<Rightarrow> Ok (None, \<lparr>ext_leaf = None, ext_siblings = rev (acc @ sibs)\<rparr>))"
    using internal.prems(1) g(1) unfolding lim key by (simp add: get_node_def split: option.split)
  have short: "zip (drop (4 * ?d) (iter_bits key)) (map (node_in_proof_hash H) sibs) = zip (nibble_bits n) (map (node_in_proof_hash H) sibs)"
    using g(3) nib4 unfolding bits by (simp add: zip_append1 found_child_def)
  have key_part: "part (ns @ [n]) M key = M key" by (simp add: part_apply key)
  show ?case
  proof (cases ck)
    case None
    then have none: "x = SPARSE_MERKLE_PLACEHOLDER_HASH" "children i n = None" using g(3) by (simp_all add: found_child_def)
    then have "M key = None" using internal.hyps(1) [OF none(2)] key_part by simp
    then show ?thesis using loop None none(1) short g(2)
      by (intro exI [of _ None] exI [of _ sibs]) (simp add: leaf_ok_def leaf_or_placeholder_def)
  next
    case (Some ck')
    then obtain j c where j: "ck' = node_key (child_version c) (ns @ [j])" "children i j = Some c" "x = child_hash c"
      "j = n \<and> length sibs = 4 \<or> child_is_leaf c \<and> (j \<noteq> n \<longrightarrow> children i n = None)"
      using g(3) by (auto simp: found_child_def)
    from internal.IH [OF j(2)] obtain node where node: "S ck' = Some node" "child_hash c = hash_of H node" "child_is_leaf c \<longleftrightarrow> is_leaf node"
        "tree_at H S (ns @ [j]) node (part (ns @ [j]) M)"
        "\<And>u limit acc. S (node_key u (ns @ [j])) = Some node \<Longrightarrow> prefix (ns @ [j]) (key_nibbles key) \<Longrightarrow>
          prefix_free (insert key (dom (part (ns @ [j]) M))) \<Longrightarrow> length (key_nibbles key) - length (ns @ [j]) < limit \<Longrightarrow>
          \<exists>val leaf sibs. get_with_proof_loop H S key limit (node_key u (ns @ [j])) (drop (length (ns @ [j])) (key_nibbles key)) acc =
             Ok (val, \<lparr>ext_leaf = leaf, ext_siblings = rev (acc @ sibs)\<rparr>) \<and> entry_of val = part (ns @ [j]) M key \<and> leaf_ok (part (ns @ [j]) M) key leaf \<and>
             climb H (leaf_or_placeholder H leaf) (zip (drop (4 * length (ns @ [j])) (iter_bits key)) (map (node_in_proof_hash H) sibs)) = hash_of H node"
      unfolding j(1) by blast
    show ?thesis
    proof (cases "is_leaf node")
      case True
      then obtain l where l: "node = Leaf l" by (cases node) auto
      have part_l: "part (ns @ [j]) M = leaf_entries l" using node(4) unfolding l by (auto elim: tree_at_LeafE)
      then have "part (ns @ [j]) M (leaf_key l) = Some (value_hash l, payload l)" by simp
      then have Ml: "M (leaf_key l) = Some (value_hash l, payload l)" by (simp add: part_apply split: if_splits)
      have Mkey: "M key = (if leaf_key l = key then Some (value_hash l, payload l) else None)"
      proof (cases "leaf_key l = key")
        case False
        have "part (ns @ [n]) M = Map.empty \<or> n = j" using j(4) internal.hyps(1) [of n] node(3) True by blast
        then show ?thesis using key_part part_l False by auto
      qed (use Ml in simp)
      have "get_with_proof_loop H S key limit (node_key u ns) (drop ?d (key_nibbles key)) acc =
          Ok (if leaf_key l = key then Some (value_hash l, payload l, leaf_version l) else None,
            \<lparr>ext_leaf = Some (sparse_leaf_of l), ext_siblings = rev (acc @ sibs)\<rparr>)"
        using loop Some loop_leaf [of S, OF node(1) [unfolded l] lim2(2)] by simp
      moreover have "x = leaf_or_placeholder H (Some (sparse_leaf_of l))"
        using j(3) node(2) l by (simp add: leaf_or_placeholder_def sparse_leaf_of_def sparse_leaf_hash_def hash_of_def leaf_hash_def)
      moreover have "leaf_ok M key (Some (sparse_leaf_of l))" using Ml Mkey by (auto simp: leaf_ok_def sparse_leaf_of_def)
      ultimately show ?thesis using short g(2) Mkey
        by (intro exI [of _ "if leaf_key l = key then Some (value_hash l, payload l, leaf_version l) else None"]
          exI [of _ "Some (sparse_leaf_of l)"] exI [of _ sibs]) auto
    next
      case False
      then have jn: "j = n" "length sibs = 4" using j(4) node(3) by auto
      have "prefix_free (insert key (dom (part (ns @ [n]) M)))"
        using internal.prems(3) by (rule prefix_free_subset) (auto simp: dom_part)
      moreover have "prefix (ns @ [n]) (key_nibbles key)" unfolding key by simp
      ultimately obtain val leaf sibs' where r:
        "get_with_proof_loop H S key lim ck' (drop (length (ns @ [n])) (key_nibbles key)) (acc @ sibs) =
           Ok (val, \<lparr>ext_leaf = leaf, ext_siblings = rev ((acc @ sibs) @ sibs')\<rparr>)"
        "entry_of val = part (ns @ [n]) M key" "leaf_ok (part (ns @ [n]) M) key leaf"
        "climb H (leaf_or_placeholder H leaf) (zip (drop (4 * length (ns @ [n])) (iter_bits key)) (map (node_in_proof_hash H) sibs')) = hash_of H node"
        using node(5) [of "child_version c" lim "acc @ sibs"] node(1) lim2(1) unfolding j(1) jn(1) by blast
      have "leaf_ok M key leaf"
        using r(3) key_part by (auto simp: leaf_ok_def part_apply split: option.splits if_splits)
      moreover have "hash_of H (Internal i :: 'p node) = climb H (leaf_or_placeholder H leaf)
          (zip (drop (4 * ?d) (iter_bits key)) (map (node_in_proof_hash H) (sibs @ sibs')))"
        using g(2) j(3) node(2) r(4) nib4 jn(2) unfolding bits by (simp add: climb_append)
      moreover have "get_with_proof_loop H S key limit (node_key u ns) (drop ?d (key_nibbles key)) acc =
           Ok (val, \<lparr>ext_leaf = leaf, ext_siblings = rev (acc @ sibs @ sibs')\<rparr>)"
        using loop Some r(1) unfolding key by simp
      ultimately show ?thesis using r(2) key_part by (intro exI [of _ val] exI [of _ leaf] exI [of _ "sibs @ sibs'"]) simp
    qed
  qed
qed

text \<open>
  A read of a stored version returns the entry of the key; its proof leads to the root hash, and
  the leaf of the proof is an entry of the tree.
\<close>

theorem get_with_proof_tree:
  fixes S :: "'p reader"
  assumes tree: "stored_tree H S v M" and free: "prefix_free (insert key (dom M))" and short: "length key < 500"
  shows "\<exists>val p root. get_with_proof H S key v = Ok (val, p) \<and> entry_of val = M key \<and>
    get_root_hash H S v = Ok root \<and> proof_root H key p = root \<and> leaf_ok M key (proof_leaf p)"
proof -
  obtain node where node: "S (node_key v []) = Some node" "root_ok H S node M" using tree by (auto simp: stored_tree_def)
  have root: "get_root_hash H S v = Ok (hash_of H node)" using node(1) by (simp add: get_root_hash_def get_node_def)
  show ?thesis
  proof (cases "node = Null")
    case True
    have "get_with_proof H S key v = Ok (None, \<lparr>proof_leaf = None, proof_siblings = []\<rparr>)"
      using node(1) True by (simp add: get_with_proof_def get_with_proof_ext_def SANITY_NIBBLE_LIMIT_def get_node_def
          proof_from_ext_def eval_nat_numeral)
    moreover have "M key = None" using node(2) True by (simp add: root_ok_def)
    ultimately show ?thesis using root True by (simp add: proof_root_def leaf_ok_def hash_of_def)
  next
    case False
    then have tree: "tree_at H S [] node M" using node(2) by (cases node) (auto simp: root_ok_def)
    have limit: "length (key_nibbles key) - length ([] :: nibble list) < SANITY_NIBBLE_LIMIT"
      using short by (simp add: SANITY_NIBBLE_LIMIT_def)
    obtain val leaf sibs where r: "get_with_proof_loop H S key SANITY_NIBBLE_LIMIT (node_key v []) (drop (length ([] :: nibble list)) (key_nibbles key)) [] =
        Ok (val, \<lparr>ext_leaf = leaf, ext_siblings = rev ([] @ sibs)\<rparr>)" "entry_of val = M key" "leaf_ok M key leaf"
      "climb H (leaf_or_placeholder H leaf) (zip (drop (4 * length ([] :: nibble list)) (iter_bits key)) (map (node_in_proof_hash H) sibs)) = hash_of H node"
      using get_with_proof_loop_tree [of H S "[]" node M v key, OF tree node(1) Nil_prefix free limit] by blast
    have "get_with_proof H S key v = Ok (val, \<lparr>proof_leaf = leaf, proof_siblings = map (node_in_proof_hash H) (rev sibs)\<rparr>)"
      using r(1) by (simp add: get_with_proof_def get_with_proof_ext_def proof_from_ext_def new_even_eq)
    then show ?thesis using root r(2-4) by (simp add: proof_root_def leaf_or_placeholder_def rev_map)
  qed
qed

end
