(* ===== verification/Tier_Store.thy ===== *)
theory Tier_Store
  imports Merkle_Proof "HOL-Library.Finite_Map"
begin

text \<open>
  The state tree of the ledger: three tiers of Merkle trees (entities, partitions, substates) in one
  node store, \<^verbatim>\<open>state_tree/{tree_store,state_tree_facade,tier_framework,entity_tier,partition_tier,substate_tier,mod}.rs\<close>.
  The tiers share the store: the node keys of a lower tier carry the keys of the upper tiers and
  separators in front. \<^verbatim>\<open>expect\<close> and \<^verbatim>\<open>unwrap\<close> of a storage error panic.
\<close>


section \<open>Stored nodes\<close>

record tree_child_entry =
  entry_nibble :: nibble
  entry_version :: version
  entry_hash :: hash
  entry_is_leaf :: bool

record tree_leaf_node =
  key_suffix :: nibble_path
  stored_value_hash :: hash
  last_hash_change_version :: version

datatype tree_node = TreeInternal "tree_child_entry list" | TreeLeaf tree_leaf_node | TreeNull

definition TreeInternalNode_from :: "internal_node \<Rightarrow> tree_child_entry list" where
  "TreeInternalNode_from node = map (\<lambda>(n, c). \<lparr>entry_nibble = n, entry_version = child_version c,
     entry_hash = child_hash c, entry_is_leaf = child_is_leaf c\<rparr>) (map_entries (children node))"

definition TreeLeafNode_from :: "tree_node_key \<Rightarrow> version leaf_node \<Rightarrow> tree_leaf_node" where
  "TreeLeafNode_from key leaf = \<lparr>
     key_suffix = path_from_iter (drop (num_nibbles (nibble_path key)) (nibbles (new_even (leaf_key leaf)))),
     stored_value_hash = value_hash leaf,
     last_hash_change_version = payload leaf\<rparr>"

text \<open>
  The children of a read node; the leaf count that \<^verbatim>\<open>InternalNode::new\<close> computes counts an internal
  child as having none.
\<close>

definition child_from :: "tree_child_entry \<Rightarrow> nibble \<times> child" where
  "child_from e = (entry_nibble e, \<lparr>child_hash = entry_hash e, child_version = entry_version e,
     child_node_type = (if entry_is_leaf e then LeafType else InternalType 0)\<rparr>)"

definition InternalNode_from :: "tree_child_entry list \<Rightarrow> internal_node" where
  "InternalNode_from es = (let cs = map_of (rev (map child_from es)) in
     \<lparr>children = cs, leaf_count = length (filter (child_is_leaf \<circ> snd) (map_entries cs))\<rparr>)"

definition LeafNode_from :: "tree_node_key \<Rightarrow> tree_leaf_node \<Rightarrow> version leaf_node" where
  "LeafNode_from key l = \<lparr>
     leaf_key = path_bytes (path_from_iter (nibbles (nibble_path key) @ nibbles (key_suffix l))),
     value_hash = stored_value_hash l,
     payload = last_hash_change_version l,
     leaf_version = key_version key\<rparr>"

fun into_jmt_node :: "tree_node_key \<Rightarrow> tree_node \<Rightarrow> version node" where
  "into_jmt_node key (TreeInternal es) = Internal (InternalNode_from es)"
| "into_jmt_node key (TreeLeaf l) = Leaf (LeafNode_from key l)"
| "into_jmt_node key TreeNull = Null"

fun from_jmt_node :: "version node \<Rightarrow> tree_node_key \<Rightarrow> tree_node" where
  "from_jmt_node (Internal i) key = TreeInternal (TreeInternalNode_from i)"
| "from_jmt_node (Leaf l) key = TreeLeaf (TreeLeafNode_from key l)"
| "from_jmt_node Null key = TreeNull"


section \<open>The node store\<close>

type_synonym entity_key = "byte list"
type_synonym sort_key = "byte list"
type_synonym substate_value = "byte list"

text \<open>A \<^verbatim>\<open>StoredTreeNodeKey\<close> has the fields of a \<^verbatim>\<open>TreeNodeKey\<close>.\<close>

type_synonym stored_tree_node_key = tree_node_key

datatype stale_tree_part = StaleNode stored_tree_node_key | StaleSubtree stored_tree_node_key

datatype associated_substate_value = Upserted substate_value | Unchanged

record tree_store =
  tree_nodes :: "(stored_tree_node_key, tree_node) fmap"
  stale_part_buffer :: "stale_tree_part list"
  associated_substates :: "stored_tree_node_key \<rightharpoonup> ((entity_key \<times> byte) \<times> sort_key) \<times> substate_value option"
  pruning_enabled :: bool
  store_associated_substates :: bool

definition TreeStore_new :: tree_store where
  "TreeStore_new = \<lparr>tree_nodes = fmempty, stale_part_buffer = [], associated_substates = Map.empty,
     pruning_enabled = False, store_associated_substates = False\<rparr>"

definition with_pruning_enabled :: "tree_store \<Rightarrow> tree_store" where
  "with_pruning_enabled s = s\<lparr>pruning_enabled := True\<rparr>"

definition storing_associated_substates :: "tree_store \<Rightarrow> tree_store" where
  "storing_associated_substates s = s\<lparr>store_associated_substates := True\<rparr>"

type_synonym 'a store_fn = "(tree_store, unit, 'a) mut_fn"

definition insert_node :: "stored_tree_node_key \<Rightarrow> tree_node \<Rightarrow> unit store_fn" where
  "insert_node key node = mmodify (\<lambda>s. s\<lparr>tree_nodes := fmupd key node (tree_nodes s)\<rparr>)"

definition associate_substate :: "stored_tree_node_key \<Rightarrow> entity_key \<times> byte \<Rightarrow> sort_key \<Rightarrow> associated_substate_value \<Rightarrow> unit store_fn" where
  "associate_substate key partition_key sk v = mmodify (\<lambda>s.
     if store_associated_substates s
     then s\<lparr>associated_substates := (associated_substates s)(key \<mapsto>
            ((partition_key, sk), (case v of Upserted x \<Rightarrow> Some x | Unchanged \<Rightarrow> None)))\<rparr>
     else s)"

text \<open>The queue of the pruning of a subtree: each step removes a node or shortens the queue.\<close>

definition stored_children :: "stored_tree_node_key \<Rightarrow> tree_node \<Rightarrow> stored_tree_node_key list" where
  "stored_children key node = (case node of
     TreeInternal es \<Rightarrow> map (\<lambda>e. gen_child_node_key key (entry_version e) (entry_nibble e)) es
   | TreeLeaf _ \<Rightarrow> []
   | TreeNull \<Rightarrow> [])"

function remove_queue :: "stored_tree_node_key list \<Rightarrow> (stored_tree_node_key, tree_node) fmap \<Rightarrow>
    (stored_tree_node_key, tree_node) fmap" where
  "remove_queue [] m = m"
| "remove_queue (k # queue) m = (case fmlookup m k of
     None \<Rightarrow> remove_queue queue m
   | Some node \<Rightarrow> remove_queue (queue @ stored_children k node) (fmdrop k m))"
  by pat_completeness auto
termination
proof (relation "measures [\<lambda>(q, m). fcard (fmdom m), \<lambda>(q, m). length q]")
  fix k :: tree_node_key and queue and m :: "(tree_node_key, tree_node) fmap" and node
  assume "fmlookup m k = Some node"
  then have "k |\<in>| fmdom m" by (rule fmdomI)
  then have "fcard (fmdom (fmdrop k m)) < fcard (fmdom m)" unfolding fmdom_drop by (rule fcard_fminus1_less)
  then show "((queue @ stored_children k node, fmdrop k m), k # queue, m) \<in>
      measures [\<lambda>(q, m). fcard (fmdom m), \<lambda>(q, m). length q]" by simp
qed auto

definition record_stale_tree_part :: "stale_tree_part \<Rightarrow> unit store_fn" where
  "record_stale_tree_part stale = mmodify (\<lambda>s.
     if pruning_enabled s then
       s\<lparr>tree_nodes := (case stale of
          StaleNode key \<Rightarrow> fmdrop key (tree_nodes s)
        | StaleSubtree key \<Rightarrow> remove_queue [key] (tree_nodes s))\<rparr>
     else s\<lparr>stale_part_buffer := stale_part_buffer s @ [stale]\<rparr>)"


section \<open>Tiers\<close>

datatype tier = EntityTier | PartitionTier entity_key | SubstateTier entity_key byte

definition TIER_SEPARATOR :: byte where
  "TIER_SEPARATOR = 0x5F"

fun tree_node_prefix :: "tier \<Rightarrow> byte list" where
  "tree_node_prefix EntityTier = []"
| "tree_node_prefix (PartitionTier entity_key) = entity_key @ [TIER_SEPARATOR]"
| "tree_node_prefix (SubstateTier entity_key pnum) = entity_key @ [TIER_SEPARATOR, pnum, TIER_SEPARATOR]"

definition prefixed :: "byte list \<Rightarrow> tree_node_key \<Rightarrow> stored_tree_node_key" where
  "prefixed prefix_bytes key = \<lparr>key_version = key_version key, nibble_path = prefix_with (nibble_path key) prefix_bytes\<rparr>"

definition stored_node_key :: "tier \<Rightarrow> tree_node_key \<Rightarrow> stored_tree_node_key" where
  "stored_node_key t key = (case t of EntityTier \<Rightarrow> key | _ \<Rightarrow> prefixed (tree_node_prefix t) key)"

definition get_local_node :: "tier \<Rightarrow> tree_store \<Rightarrow> tree_node_key \<Rightarrow> tree_node option" where
  "get_local_node t s key = fmlookup (tree_nodes s) (stored_node_key t key)"

definition get_node_option :: "tier \<Rightarrow> tree_store \<Rightarrow> version reader" where
  "get_node_option t s = (\<lambda>key. map_option (into_jmt_node key) (get_local_node t s key))"

definition unwrap :: "(storage_error, 'a) res \<Rightarrow> (unit, 'a) res" where
  "unwrap r = (case r of Inl e \<Rightarrow> Panics | Inr x \<Rightarrow> Ok x)"

definition get_persisted_leaf_payload :: "hasher \<Rightarrow> tier \<Rightarrow> version option \<Rightarrow> leaf_key \<Rightarrow> tree_store \<Rightarrow> (unit, version option) res" where
  "get_persisted_leaf_payload H t root_version key s = (case root_version of
     None \<Rightarrow> Ok None
   | Some root_version \<Rightarrow>
       rbind (unwrap (get_with_proof H (get_node_option t s) key root_version)) (\<lambda>(leaf_node_data, _).
       Ok (map_option (\<lambda>(_, payload, _). payload) leaf_node_data)))"

text \<open>Collecting into a \<^verbatim>\<open>BTreeMap\<close>: sorted by key, a later entry replaces an earlier one.\<close>

fun btree_insert :: "leaf_key \<Rightarrow> 'v \<Rightarrow> (leaf_key \<times> 'v) list \<Rightarrow> (leaf_key \<times> 'v) list" where
  "btree_insert k v [] = [(k, v)]"
| "btree_insert k v ((k', v') # m) =
    (if k = k' then (k, v) # m else if ord_class.lexordp k k' then (k, v) # (k', v') # m else (k', v') # btree_insert k v m)"

definition btree_of :: "(leaf_key \<times> 'v) list \<Rightarrow> (leaf_key \<times> 'v) list" where
  "btree_of xs = foldl (\<lambda>m (k, v). btree_insert k v m) [] xs"

record tier_update_batch =
  new_version :: version
  new_root_hash :: "hash option"
  tree_update_batch :: "version tree_update_batch"

definition generate_tier_update_batch :: "hasher \<Rightarrow> tier \<Rightarrow> version option \<Rightarrow> version \<Rightarrow>
    (leaf_key \<times> (hash \<times> version) option) list \<Rightarrow> tree_store \<Rightarrow> (unit, tier_update_batch) res" where
  "generate_tier_update_batch H t root_version version leaf_updates s =
     rbind (unwrap (batch_put_value_set H (get_node_option t s) (btree_of leaf_updates) None root_version version))
     (\<lambda>(root_hash, update_batch). Ok \<lparr>
        new_version = version,
        new_root_hash = (if root_hash = SPARSE_MERKLE_PLACEHOLDER_HASH then None else Some root_hash),
        tree_update_batch = update_batch\<rparr>)"

text \<open>The new root version of the tier is returned.\<close>

definition apply_tier_update_batch :: "tier \<Rightarrow> tier_update_batch \<Rightarrow> version option store_fn" where
  "apply_tier_update_batch t batch =
     mseq (mforeach (\<lambda>(key, node). insert_node (stored_node_key t key) (from_jmt_node node key))
             (node_batch (tree_update_batch batch)))
     (mseq (mforeach (\<lambda>stale_node. record_stale_tree_part (StaleNode (stored_node_key t (stale_node_key stale_node))))
             (stale_node_index_batch (tree_update_batch batch)))
     (mreturn (Some (new_version batch))))"


section \<open>Updates\<close>

datatype database_update = SetValue substate_value | Delete

datatype partition_database_updates =
    Delta "(sort_key \<times> database_update) list"
  | Reset "(sort_key \<times> substate_value) list"

type_synonym node_database_updates = "(byte \<times> partition_database_updates) list"
type_synonym database_updates = "(entity_key \<times> node_database_updates) list"

definition get_substate_change :: "partition_database_updates \<Rightarrow> sort_key \<Rightarrow> database_update option" where
  "get_substate_change updates sk = (case updates of
     Delta substate_updates \<Rightarrow> im_get substate_updates sk
   | Reset new_substate_values \<Rightarrow> (case im_get new_substate_values sk of
       Some v \<Rightarrow> Some (SetValue v) | None \<Rightarrow> Some Delete))"

definition new_substate_leaf :: "hasher \<Rightarrow> substate_value \<Rightarrow> version \<Rightarrow> hash \<times> version" where
  "new_substate_leaf H v version = (H v, version)"

definition associate_substates :: "entity_key \<Rightarrow> byte \<Rightarrow> partition_database_updates \<Rightarrow> version tree_update_batch \<Rightarrow> unit store_fn" where
  "associate_substates entity_key pnum updates batch =
     mforeach (\<lambda>(key, node). case node of
         Leaf leaf \<Rightarrow>
           (case get_substate_change updates (leaf_key leaf) of
              Some Delete \<Rightarrow> mlift (\<lambda>_. Panics)
            | Some (SetValue v) \<Rightarrow>
                associate_substate (stored_node_key (SubstateTier entity_key pnum) key) (entity_key, pnum) (leaf_key leaf) (Upserted v)
            | None \<Rightarrow>
                associate_substate (stored_node_key (SubstateTier entity_key pnum) key) (entity_key, pnum) (leaf_key leaf) Unchanged)
       | _ \<Rightarrow> mreturn ())
     (node_batch batch)"

definition apply_partition_updates :: "hasher \<Rightarrow> entity_key \<Rightarrow> byte \<Rightarrow> version option \<Rightarrow> version \<Rightarrow>
    partition_database_updates \<Rightarrow> hash option store_fn" where
  "apply_partition_updates H entity_key pnum root_version next_version updates =
     (let t = SubstateTier entity_key pnum in
      mbind (case updates of
          Delta substate_updates \<Rightarrow>
            mreturn (root_version, map (\<lambda>(sk, update). (sk, (case update of
              SetValue v \<Rightarrow> Some (new_substate_leaf H v next_version) | Delete \<Rightarrow> None))) substate_updates)
        | Reset new_substate_values \<Rightarrow>
            mseq (case root_version of
                Some substate_root_version \<Rightarrow>
                  record_stale_tree_part (StaleSubtree (stored_node_key t (new_empty_path substate_root_version)))
              | None \<Rightarrow> mreturn ())
            (mreturn (None, map (\<lambda>(sk, v). (sk, Some (new_substate_leaf H v next_version))) new_substate_values)))
      (\<lambda>(root_version, leaf_updates).
      mbind (mlift (generate_tier_update_batch H t root_version next_version leaf_updates)) (\<lambda>batch.
      mbind (apply_tier_update_batch t batch) (\<lambda>_.
      mseq (associate_substates entity_key pnum updates (tree_update_batch batch))
      (mreturn (new_root_hash batch))))))"

definition new_tier_leaf :: "version \<Rightarrow> hash option \<Rightarrow> (hash \<times> version) option" where
  "new_tier_leaf next_version root_hash = map_option (\<lambda>h. (h, next_version)) root_hash"

definition apply_entity_updates :: "hasher \<Rightarrow> entity_key \<Rightarrow> version option \<Rightarrow> version \<Rightarrow> node_database_updates \<Rightarrow> hash option store_fn" where
  "apply_entity_updates H entity_key root_version next_version updates =
     (let t = PartitionTier entity_key in
      mbind (mmap (\<lambda>(pnum, partition_updates).
          mbind (mlift (get_persisted_leaf_payload H t root_version [pnum])) (\<lambda>partition_root_version.
          mbind (apply_partition_updates H entity_key pnum partition_root_version next_version partition_updates) (\<lambda>h.
          mreturn ([pnum], new_tier_leaf next_version h)))) updates) (\<lambda>leaf_updates.
      mbind (mlift (generate_tier_update_batch H t root_version next_version leaf_updates)) (\<lambda>batch.
      mbind (apply_tier_update_batch t batch) (\<lambda>_.
      mreturn (new_root_hash batch)))))"

definition put_entity_updates :: "hasher \<Rightarrow> version option \<Rightarrow> version \<Rightarrow> database_updates \<Rightarrow> hash option store_fn" where
  "put_entity_updates H root_version next_version updates =
     mbind (mmap (\<lambda>(entity_key, entity_updates).
         mbind (mlift (get_persisted_leaf_payload H EntityTier root_version entity_key)) (\<lambda>entity_root_version.
         mbind (apply_entity_updates H entity_key entity_root_version next_version entity_updates) (\<lambda>h.
         mreturn (entity_key, new_tier_leaf next_version h)))) updates) (\<lambda>leaf_updates.
     mbind (mlift (generate_tier_update_batch H EntityTier root_version next_version leaf_updates)) (\<lambda>batch.
     mbind (apply_tier_update_batch EntityTier batch) (\<lambda>_.
     mreturn (new_root_hash batch))))"

definition put_next_version_entity_updates :: "hasher \<Rightarrow> version option \<Rightarrow> database_updates \<Rightarrow> hash option store_fn" where
  "put_next_version_entity_updates H root_version updates =
     put_entity_updates H root_version ((case root_version of Some v \<Rightarrow> v | None \<Rightarrow> 0) + 1) updates"

definition put_at_next_version :: "hasher \<Rightarrow> version option \<Rightarrow> database_updates \<Rightarrow> hash store_fn" where
  "put_at_next_version H current_state_version updates =
     mbind (put_next_version_entity_updates H current_state_version updates) (\<lambda>h.
     mreturn (case h of Some h \<Rightarrow> h | None \<Rightarrow> SPARSE_MERKLE_PLACEHOLDER_HASH))"

end
