(* ===== verification/Tier_Laws.thy ===== *)
theory Tier_Laws
  imports Tier_Store
begin

text \<open>
  What a tier of the state tree reads and writes: stored nodes are read back as nodes that make the
  same tree, the node keys of different tiers never meet, and an update of a tier does what the
  update of a tree does, for every other tier nothing.
\<close>


section \<open>Nodes that make the same tree\<close>

definition same_child :: "child \<Rightarrow> child \<Rightarrow> bool" where
  "same_child c d \<longleftrightarrow> child_hash c = child_hash d \<and> child_version c = child_version d \<and>
     (child_is_leaf c \<longleftrightarrow> child_is_leaf d) \<and> child_node_type d \<noteq> NullType"

fun same_node :: "'p node \<Rightarrow> 'p node \<Rightarrow> bool" where
  "same_node (Leaf l) (Leaf m) \<longleftrightarrow> leaf_key l = leaf_key m \<and> value_hash l = value_hash m \<and> payload l = payload m"
| "same_node (Internal i) (Internal j) \<longleftrightarrow> (\<forall>n. rel_option same_child (children i n) (children j n))"
| "same_node Null Null \<longleftrightarrow> True"
| "same_node _ _ \<longleftrightarrow> False"

lemma same_node_leaf: "same_node x y \<Longrightarrow> is_leaf x \<longleftrightarrow> is_leaf y"
  by (cases x; cases y) simp_all

lemma range_hash_same:
  assumes "\<And>n. rel_option same_child (cs n) (ds n)"
  shows "range_hash H cs s h = range_hash H ds s h"
proof (induction h arbitrary: s)
  case 0
  show ?case using assms [of "word_of_nat s"] by (cases "cs (word_of_nat s)"; cases "ds (word_of_nat s)") (auto simp: same_child_def)
next
  case (Suc h)
  have ex: "exists_at cs i \<longleftrightarrow> exists_at ds i" for i using assms [of "word_of_nat i"] by (cases "cs (word_of_nat i)"; cases "ds (word_of_nat i)") auto
  have leaf: "leaf_at cs i \<longleftrightarrow> leaf_at ds i" for i
    using assms [of "word_of_nat i"] by (cases "cs (word_of_nat i)"; cases "ds (word_of_nat i)") (auto simp: leaf_at_def same_child_def)
  have "range_children cs s (2 ^ Suc h) = range_children ds s (2 ^ Suc h)" unfolding range_children_def using ex by simp
  moreover have "child_hash (the (cs (word_of_nat i))) = child_hash (the (ds (word_of_nat i)))" if "leaf_at cs i" for i
    using assms [of "word_of_nat i"] that by (cases "cs (word_of_nat i)"; cases "ds (word_of_nat i)") (auto simp: leaf_at_def same_child_def)
  ultimately show ?case using Suc.IH leaf by (simp add: Let_def del: power_Suc)
qed

lemma same_hash: "same_node x y \<Longrightarrow> hash_of H x = hash_of H y"
  by (cases x; cases y) (auto simp: hash_of_def leaf_hash_def intro: range_hash_same)

lemma tree_at_same:
  assumes T: "\<And>u ms k x. k \<in> K \<Longrightarrow> ms \<noteq> [] \<Longrightarrow> prefix ms (key_nibbles k) \<Longrightarrow> S (node_key u ms) = Some x \<Longrightarrow>
      \<exists>y. T (node_key u ms) = Some y \<and> same_node x y"
  shows "tree_at H S ns node M \<Longrightarrow> dom M \<subseteq> K \<Longrightarrow> same_node node node' \<Longrightarrow> tree_at H T ns node' M"
proof (induction arbitrary: node' rule: tree_at.induct)
  case (leaf ns l)
  then obtain m where m: "node' = Leaf m" "leaf_key l = leaf_key m" "value_hash l = value_hash m" "payload l = payload m"
    by (cases node') auto
  show ?case unfolding m by (rule tree_at.leaf) (use leaf(1) m(2) in simp)
next
  case (internal i ns M k k')
  then obtain j where j: "node' = Internal j" "\<And>n. rel_option same_child (children i n) (children j n)" by (cases node') auto
  show ?case unfolding j(1)
  proof (rule tree_at.internal [of j ns M, OF _ _ internal.hyps(2-5)])
    fix n assume "children j n = None"
    then have "children i n = None" using j(2) [of n] by simp
    then show "part (ns @ [n]) M = Map.empty" by (rule internal.hyps(1))
  next
    fix n d assume d: "children j n = Some d"
    then obtain c where c: "children i n = Some c" "same_child c d" using j(2) [of n] by (cases "children i n") auto
    from internal.IH [OF c(1)] obtain node where node: "S (node_key (child_version c) (ns @ [n])) = Some node"
      "child_hash c = hash_of H node" "child_is_leaf c \<longleftrightarrow> is_leaf node" "tree_at H S (ns @ [n]) node (part (ns @ [n]) M)"
      "dom (part (ns @ [n]) M) \<subseteq> K \<longrightarrow> (\<forall>node'. same_node node node' \<longrightarrow> tree_at H T (ns @ [n]) node' (part (ns @ [n]) M))"
      by (elim exE conjE)
    obtain k0 where "k0 \<in> dom (part (ns @ [n]) M)" using tree_at_dom [OF node(4)] by blast
    then have k0: "k0 \<in> dom M" "prefix (ns @ [n]) (key_nibbles k0)" unfolding dom_part by blast+
    then have "k0 \<in> K" using internal.prems(1) by blast
    from T [OF this _ k0(2) node(1)] obtain node'
      where node': "T (node_key (child_version c) (ns @ [n])) = Some node'" "same_node node node'" by auto
    have "dom (part (ns @ [n]) M) \<subseteq> K" using internal.prems(1) by (auto simp: dom_part)
    then have "tree_at H T (ns @ [n]) node' (part (ns @ [n]) M)" using node(5) node'(2) by simp
    then show "\<exists>node. T (node_key (child_version d) (ns @ [n])) = Some node \<and> child_hash d = hash_of H node \<and>
        (child_is_leaf d \<longleftrightarrow> is_leaf node) \<and> child_node_type d \<noteq> NullType \<and> tree_at H T (ns @ [n]) node (part (ns @ [n]) M)"
      using node' node(2,3) c(2) same_hash [OF node'(2)] same_node_leaf [OF node'(2)] unfolding same_child_def by auto
  qed
qed

text \<open>The paths of a tree: the root and the prefixes of its keys.\<close>

definition on_path :: "'p entries \<Rightarrow> nibble list \<Rightarrow> bool" where
  "on_path M ms \<longleftrightarrow> ms = [] \<or> (\<exists>k \<in> dom M. prefix ms (key_nibbles k))"

lemma stored_tree_same:
  assumes "stored_tree H S v M"
    and "\<And>u ms x. on_path M ms \<Longrightarrow> S (node_key u ms) = Some x \<Longrightarrow> \<exists>y. T (node_key u ms) = Some y \<and> same_node x y"
  shows "stored_tree H T v M"
proof -
  obtain node where node: "S (node_key v []) = Some node" "root_ok H S node M" using assms(1) by (auto simp: stored_tree_def)
  obtain node' where node': "T (node_key v []) = Some node'" "same_node node node'"
    using assms(2) [OF _ node(1)] by (auto simp: on_path_def)
  have "tree_at H T [] node' M" if "tree_at H S [] node M"
  proof (rule tree_at_same [OF _ that order_refl node'(2)])
    fix u ms k x assume "k \<in> dom M" "prefix ms (key_nibbles k)" and x: "S (node_key u ms) = Some x"
    then have "on_path M ms" unfolding on_path_def by blast
    then show "\<exists>y. T (node_key u ms) = Some y \<and> same_node x y" using x by (rule assms(2))
  qed
  then have "root_ok H T node' M" using node(2) node'(2) by (cases node; cases node') (auto simp: root_ok_def)
  then show ?thesis using node'(1) by (auto simp: stored_tree_def)
qed

section \<open>Stored nodes are read back\<close>

lemma InternalNode_from_new: "(InternalNode_new (children (InternalNode_from es)) :: ('e, internal_node) res) = Ok (InternalNode_from es)"
proof -
  let ?cs = "children (InternalNode_from es)"
  have kinds: "child_node_type c \<in> {LeafType, InternalType 0}" if "?cs n = Some c" for n c
    using that by (auto simp: InternalNode_from_def Let_def child_from_def dest!: map_of_SomeD split: if_splits)
  have "(total_leaf_count (map snd xs) :: ('e, nat) res) = Ok (length (filter (child_is_leaf \<circ> snd) xs))"
    if "\<And>n c. (n, c) \<in> set xs \<Longrightarrow> child_node_type c \<in> {LeafType, InternalType 0}" for xs :: "(nibble \<times> child) list"
    using that
  proof (induction xs)
    case (Cons x xs)
    have "child_node_type (snd x) \<in> {LeafType, InternalType 0}" using Cons.prems [of "fst x" "snd x"] by simp
    moreover have "(total_leaf_count (map snd xs) :: ('e, nat) res) = Ok (length (filter (child_is_leaf \<circ> snd) xs))"
      using Cons.prems by (intro Cons.IH) auto
    ultimately show ?case by (elim insertE) (simp_all add: child_leaf_count_def child_is_leaf_def o_def)
  qed simp
  from this [of "map_entries ?cs"] have "(total_leaf_count (map snd (map_entries ?cs)) :: ('e, nat) res) =
      Ok (length (filter (child_is_leaf \<circ> snd) (map_entries ?cs)))" using kinds by (simp add: set_map_entries)
  then show ?thesis by (simp add: InternalNode_new_def) (simp add: InternalNode_from_def Let_def)
qed

lemma internal_read_back: "same_node (Internal i) (Internal (InternalNode_from (TreeInternalNode_from i)) :: version node)"
proof -
  let ?f = "\<lambda>(n, c). (n, \<lparr>child_hash = child_hash c, child_version = child_version c,
      child_node_type = (if child_is_leaf c then LeafType else InternalType 0)\<rparr>)"
  have "map child_from (TreeInternalNode_from i) = map ?f (map_entries (children i))"
    by (simp add: TreeInternalNode_from_def child_from_def split_beta)
  moreover have "map_of (rev (map ?f (map_entries (children i)))) = map_of (map ?f (map_entries (children i)))"
  proof -
    have "map fst (map ?f (map_entries (children i))) = map fst (map_entries (children i))" by (simp add: split_beta)
    then show ?thesis by (subst map_of_inject_set) (simp_all add: rev_map [symmetric] del: map_map)
  qed
  moreover have "map_of (map ?f xs) n = map_option (snd \<circ> ?f \<circ> Pair n) (map_of xs n)" for xs n by (induction xs) auto
  from this [of "map_entries (children i)"]
  have "map_of (map ?f (map_entries (children i))) n = map_option (snd \<circ> ?f \<circ> Pair n) (children i n)" for n
    unfolding map_of_map_entries .
  ultimately have "children (InternalNode_from (TreeInternalNode_from i)) n = map_option (snd \<circ> ?f \<circ> Pair n) (children i n)" for n
    by (simp add: InternalNode_from_def Let_def)
  then show ?thesis by (auto simp: same_child_def option_rel_Some1 rel_option_iff child_is_leaf_def split: option.split)
qed

lemma node_read_back:
  assumes "\<And>l. node = Leaf l \<Longrightarrow> prefix ms (key_nibbles (leaf_key l))"
  shows "same_node node (into_jmt_node (node_key v ms) (from_jmt_node node (node_key v ms)))"
proof (cases node)
  case (Leaf l)
  then obtain rest where "key_nibbles (leaf_key l) = ms @ rest" using assms by (auto simp: prefix_def)
  moreover have "path_bytes (path_of (key_nibbles (leaf_key l))) = leaf_key l" by (rule path_bytes_key)
  ultimately show ?thesis using Leaf
    by (simp add: LeafNode_from_def TreeLeafNode_from_def path_from_iter_eq new_even_eq)
qed (use internal_read_back in \<open>simp_all del: same_node.simps(2)\<close>)

lemma same_node_refl: "tree_at H S ns node M \<or> node = Null \<Longrightarrow> same_node node node"
proof (cases node)
  case (Internal i)
  assume "tree_at H S ns node M \<or> node = Null"
  then have "tree_at H S ns (Internal i) M" using Internal by simp
  from internal_facts(2) [OF this] have "child_node_type c \<noteq> NullType" if "children i n = Some c" for n c
    using that unfolding child_ok_def by blast
  then show ?thesis using Internal by (auto simp: rel_option_iff same_child_def split: option.split)
qed simp_all

section \<open>Results do not depend on further nodes\<close>

text \<open>\<open>m \<sqsubseteq> m'\<close>: where \<open>m\<close> returns, \<open>m'\<close> returns the same.\<close>

definition sub_fn :: "('s, 'e, 'a) mut_fn \<Rightarrow> ('s, 'e, 'a) mut_fn \<Rightarrow> bool" where
  "sub_fn m m' \<longleftrightarrow> (\<forall>s t r. m s = (t, Ok r) \<longrightarrow> m' s = (t, Ok r))"

lemma sub_fn_refl: "sub_fn m m"
  by (simp add: sub_fn_def)

lemma sub_fn_bind: "sub_fn m m' \<Longrightarrow> (\<And>x. sub_fn (k x) (k' x)) \<Longrightarrow> sub_fn (mbind m k) (mbind m' k')"
  unfolding sub_fn_def mbind_eq_Inr_iff by blast

lemma sub_fn_seq: "sub_fn m m' \<Longrightarrow> sub_fn k k' \<Longrightarrow> sub_fn (mseq m k) (mseq m' k')"
  unfolding mseq_def by (rule sub_fn_bind)

lemma sub_fn_mmap: "(\<And>x. x \<in> set xs \<Longrightarrow> sub_fn (f x) (f' x)) \<Longrightarrow> sub_fn (mmap f xs) (mmap f' xs)"
proof (induction xs)
  case (Cons x xs)
  have head: "sub_fn (f x) (f' x)" and tail: "sub_fn (mmap f xs) (mmap f' xs)" using Cons by simp_all
  show ?case unfolding mmap.simps
    by (intro sub_fn_bind head tail sub_fn_refl)
qed (simp add: sub_fn_refl)

lemma sub_fn_get_node: "S \<subseteq>\<^sub>m T \<Longrightarrow> sub_fn (mlift (\<lambda>_. get_node S k)) (mlift (\<lambda>_. get_node T k))"
  by (auto simp: sub_fn_def get_node_def ok_or_def map_le_def dom_def split: option.splits)

lemma sub_fn_merge:
  assumes "S \<subseteq>\<^sub>m T"
  shows "sub_fn (merge_children H S key v c old created) (merge_children H T key v c old created)"
  unfolding merge_children_def Let_def
  by (auto simp: sub_fn_refl split: list.split intro!: sub_fn_bind [OF sub_fn_get_node [OF assms]])

lemma sub_fn_insert:
  assumes "S \<subseteq>\<^sub>m T"
  shows "sub_fn (batch_insert_at H S levels v c key kvs d) (batch_insert_at H T levels v c key kvs d)"
proof (induction levels arbitrary: key kvs d)
  case (Suc levels)
  have child: "sub_fn (insert_at_child (batch_insert_at H S levels v c) H levels key i v kvs left right d c)
      (insert_at_child (batch_insert_at H T levels v c) H levels key i v kvs left right d c)" for i left right
    unfolding insert_at_child_def by (intro sub_fn_bind sub_fn_refl) (auto simp: Suc.IH sub_fn_refl split: option.split)
  show ?case unfolding batch_insert_at.simps
  proof (rule sub_fn_bind [OF sub_fn_get_node [OF assms]], rule sub_fn_seq [OF sub_fn_refl])
    fix node :: "'a node"
    have "sub_fn (mbind (mlift (\<lambda>_. nibble_ranges kvs d 0)) (\<lambda>ranges.
          mbind (mmap (\<lambda>(left, right). insert_at_child (batch_insert_at H S levels v c) H levels key i v kvs left right d c) ranges)
          (\<lambda>new_children. let removed = fst ` {x \<in> set new_children. snd x = None};
              old_children = (\<lambda>n. if n \<in> removed then None else children i n)
            in merge_children H S key v c old_children (some_children new_children))))
        (mbind (mlift (\<lambda>_. nibble_ranges kvs d 0)) (\<lambda>ranges.
          mbind (mmap (\<lambda>(left, right). insert_at_child (batch_insert_at H T levels v c) H levels key i v kvs left right d c) ranges)
          (\<lambda>new_children. let removed = fst ` {x \<in> set new_children. snd x = None};
              old_children = (\<lambda>n. if n \<in> removed then None else children i n)
            in merge_children H T key v c old_children (some_children new_children))))" for i
      unfolding Let_def by (intro sub_fn_bind sub_fn_refl sub_fn_mmap sub_fn_merge [OF assms]) (auto simp: child)
    then show "sub_fn (case node of
        Internal i \<Rightarrow> mbind (mlift (\<lambda>_. nibble_ranges kvs d 0)) (\<lambda>ranges.
          mbind (mmap (\<lambda>(left, right). insert_at_child (batch_insert_at H S levels v c) H levels key i v kvs left right d c) ranges)
          (\<lambda>new_children. let removed = fst ` {x \<in> set new_children. snd x = None};
              old_children = (\<lambda>n. if n \<in> removed then None else children i n)
            in merge_children H S key v c old_children (some_children new_children)))
      | Leaf l \<Rightarrow> batch_update_subtree_with_existing_leaf H (Suc levels) key v l kvs d c
      | Null \<Rightarrow> mseq (mlift (\<lambda>_. assert_that (d = 0))) (batch_update_subtree H (Suc levels) key v kvs 0 c))
     (case node of
        Internal i \<Rightarrow> mbind (mlift (\<lambda>_. nibble_ranges kvs d 0)) (\<lambda>ranges.
          mbind (mmap (\<lambda>(left, right). insert_at_child (batch_insert_at H T levels v c) H levels key i v kvs left right d c) ranges)
          (\<lambda>new_children. let removed = fst ` {x \<in> set new_children. snd x = None};
              old_children = (\<lambda>n. if n \<in> removed then None else children i n)
            in merge_children H T key v c old_children (some_children new_children)))
      | Leaf l \<Rightarrow> batch_update_subtree_with_existing_leaf H (Suc levels) key v l kvs d c
      | Null \<Rightarrow> mseq (mlift (\<lambda>_. assert_that (d = 0))) (batch_update_subtree H (Suc levels) key v kvs 0 c))"
      by (cases node) (simp_all only: node.case sub_fn_refl)
  qed
qed (simp add: sub_fn_refl)

lemma put_value_set_more:
  assumes "S \<subseteq>\<^sub>m T" "batch_put_value_set H S kvs c pv v = Ok r"
  shows "batch_put_value_set H T kvs c pv v = Ok r"
proof -
  let ?root = "\<lambda>root_node_opt. case root_node_opt of
      Some root_node \<Rightarrow> mbind (mlift (\<lambda>_. node_hash H root_node)) (\<lambda>h. mseq (put_node (new_empty_path v) root_node) (mreturn h))
    | None \<Rightarrow> mseq (put_node (new_empty_path v) Null) (mreturn SPARSE_MERKLE_PLACEHOLDER_HASH)"
  let ?m = "\<lambda>S. mbind (case pv of
      Some p \<Rightarrow> batch_insert_at H S (levels_for kvs) v c (new_empty_path p) kvs 0
    | None \<Rightarrow> batch_update_subtree H (levels_for kvs) (new_empty_path v) v kvs 0 c) ?root"
  have sub: "sub_fn (?m S) (?m T)"
    by (intro sub_fn_bind sub_fn_refl) (auto simp: sub_fn_refl intro: sub_fn_insert [OF assms(1)] split: option.split)
  obtain b q where run: "?m S TreeUpdateBatch_new = (b, q)" by fastforce
  then have q: "rbind q (\<lambda>root_hash. Ok (root_hash, b)) = Ok r" using assms(2) unfolding batch_put_value_set_def by (simp only: prod.case)
  then obtain h where h: "q = Ok h" by (cases q) auto
  then have "?m T TreeUpdateBatch_new = (b, Ok h)" using sub run unfolding sub_fn_def by blast
  then show ?thesis using q h unfolding batch_put_value_set_def by (simp only: prod.case)
qed

text \<open>The same order on plain results.\<close>

definition sub_res :: "('e, 'a) res \<Rightarrow> ('e, 'a) res \<Rightarrow> bool" where
  "sub_res a b \<longleftrightarrow> (\<forall>r. a = Ok r \<longrightarrow> b = Ok r)"

lemma sub_res_refl: "sub_res a a"
  by (simp add: sub_res_def)

lemma sub_res_bind: "sub_res a b \<Longrightarrow> (\<And>x. sub_res (k x) (k' x)) \<Longrightarrow> sub_res (rbind a k) (rbind b k')"
  unfolding sub_res_def rbind_eq_Inr_iff by blast

lemma sub_res_if: "sub_res a b \<Longrightarrow> sub_res c d \<Longrightarrow> sub_res (if P then a else c) (if P then b else d)"
  by simp

lemma sub_res_pair: "(\<And>x y. sub_res (f x y) (g x y)) \<Longrightarrow> sub_res (case p of (x, y) \<Rightarrow> f x y) (case p of (x, y) \<Rightarrow> g x y)"
  by (cases p) simp

lemma get_node_more: "S \<subseteq>\<^sub>m T \<Longrightarrow> sub_res (get_node S k) (get_node T k)"
  by (auto simp: sub_res_def get_node_def ok_or_def map_le_def dom_def split: option.splits)

lemma gen_node_in_proof_more:
  assumes "S \<subseteq>\<^sub>m T"
  shows "sub_res (gen_node_in_proof H S key i s w b) (gen_node_in_proof H T key i s w b)"
  unfolding gen_node_in_proof_def Let_def
  by (intro sub_res_bind sub_res_pair sub_res_if sub_res_refl get_node_more [OF assms])

lemma siblings_loop_more:
  assumes "S \<subseteq>\<^sub>m T"
  shows "sub_res (child_with_siblings_loop H (Some S) key i n b h acc) (child_with_siblings_loop H (Some T) key i n b h acc)"
proof (induction h arbitrary: acc)
  case (Suc h)
  show ?case unfolding child_with_siblings_loop.simps Let_def option.case
    by (intro sub_res_pair sub_res_bind sub_res_if sub_res_refl gen_node_in_proof_more [OF assms] Suc.IH)
qed (simp add: sub_res_refl)

lemma proof_loop_more:
  assumes "S \<subseteq>\<^sub>m T"
  shows "get_with_proof_loop H S key limit k ns acc = Ok r \<Longrightarrow> get_with_proof_loop H T key limit k ns acc = Ok r"
proof (induction limit arbitrary: k ns acc)
  case (Suc limit)
  obtain node where node: "get_node S k = Ok node" using Suc.prems by (auto simp: rbind_eq_Inr_iff)
  have nodeT: "get_node T k = Ok node" using get_node_more [OF assms] node by (simp add: sub_res_def)
  show ?case
  proof (cases node)
    case (Internal i)
    obtain n ms where ns: "ns = n # ms" using Suc.prems node Internal by (cases ns) auto
    obtain ck sibs where g: "get_child_with_siblings H (Some S) k i n = Ok (ck, sibs)"
      "(case ck of Some c \<Rightarrow> get_with_proof_loop H S key limit c ms (acc @ sibs)
        | None \<Rightarrow> Ok (None, \<lparr>ext_leaf = None, ext_siblings = rev (acc @ sibs)\<rparr>)) = Ok r"
      using Suc.prems node Internal ns by (auto simp: rbind_eq_Inr_iff Let_def)
    have "get_child_with_siblings H (Some T) k i n = Ok (ck, sibs)"
      using g(1) siblings_loop_more [OF assms] unfolding get_child_with_siblings_def sub_res_def by (auto simp: rbind_eq_Inr_iff)
    then show ?thesis using g(2) nodeT Internal ns Suc.IH by (auto simp: Let_def split: option.splits)
  qed (use Suc.prems node nodeT in simp_all)
qed simp

lemma get_with_proof_more:
  assumes "S \<subseteq>\<^sub>m T" "get_with_proof H S key v = Ok r"
  shows "get_with_proof H T key v = Ok r"
  using assms(2) proof_loop_more [OF assms(1)] unfolding get_with_proof_def get_with_proof_ext_def
  by (auto simp: rbind_eq_Inr_iff)

section \<open>The node keys of the tiers\<close>

text \<open>
  With entity keys of one length \<open>L\<close>, the paths of the entity tier have at most the nibbles of an
  entity key, those of the partition tier at most two, and the prefixes keep the tiers apart.
\<close>

fun tier_ok :: "nat \<Rightarrow> tier \<Rightarrow> bool" where
  "tier_ok L EntityTier \<longleftrightarrow> True"
| "tier_ok L (PartitionTier ek) \<longleftrightarrow> length ek = L"
| "tier_ok L (SubstateTier ek pn) \<longleftrightarrow> length ek = L"

fun local_path :: "nat \<Rightarrow> tier \<Rightarrow> nibble list \<Rightarrow> bool" where
  "local_path L EntityTier ms \<longleftrightarrow> length ms \<le> 2 * L"
| "local_path L (PartitionTier ek) ms \<longleftrightarrow> length ms \<le> 2"
| "local_path L (SubstateTier ek pn) ms \<longleftrightarrow> True"

lemma local_path_prefix: "local_path L t ms \<Longrightarrow> prefix ns ms \<Longrightarrow> local_path L t ns"
  by (cases t) (auto dest: prefix_length_le)

lemma stored_node_key_eq: "stored_node_key t (node_key v ms) = node_key v (key_nibbles (tree_node_prefix t) @ ms)"
  by (cases t) (simp_all add: stored_node_key_def prefixed_def prefix_with_eq node_key_def)

lemma key_nibbles_eq_iff: "key_nibbles a = key_nibbles b \<longleftrightarrow> a = b"
  using path_bytes_key by metis

lemma stored_node_key_inj: "stored_node_key t k = stored_node_key t k' \<longleftrightarrow> k = k'"
  by (cases t; cases k; cases k'; cases "nibble_path k"; cases "nibble_path k'")
     (auto simp: stored_node_key_def prefixed_def prefix_with_def)

lemma tiers_apart:
  assumes "tier_ok L t" "tier_ok L t'" "local_path L t ms" "local_path L t' ms'"
    "key_nibbles (tree_node_prefix t) @ ms = key_nibbles (tree_node_prefix t') @ ms'"
  shows "t = t'"
proof -
  have len: "2 * length (tree_node_prefix t) + length ms = 2 * length (tree_node_prefix t') + length ms'"
    using arg_cong [OF assms(5), of length] by simp
  then have "length (tree_node_prefix t) = length (tree_node_prefix t')" using assms(1-4) by (cases t; cases t') auto
  then have "tree_node_prefix t = tree_node_prefix t'"
    using assms(5) append_eq_append_conv [of "key_nibbles (tree_node_prefix t)" "key_nibbles (tree_node_prefix t')"] by (simp add: key_nibbles_eq_iff)
  then show ?thesis using assms(1,2) by (cases t; cases t') auto
qed

text \<open>What a tier sees of the store: the nodes at its paths.\<close>

definition local_keys :: "nat \<Rightarrow> tier \<Rightarrow> tree_node_key set" where
  "local_keys L t = {k. \<exists>v ms. k = node_key v ms \<and> local_path L t ms}"

definition tier_view :: "nat \<Rightarrow> tier \<Rightarrow> tree_store \<Rightarrow> version reader" where
  "tier_view L t s = get_node_option t s |` local_keys L t"

lemma local_keys_iff [simp]: "node_key v ms \<in> local_keys L t \<longleftrightarrow> local_path L t ms"
  by (auto simp: local_keys_def)

lemma view_le: "tier_view L t s \<subseteq>\<^sub>m get_node_option t s"
  by (auto simp: tier_view_def map_le_def restrict_map_def)

lemma view_at: "tier_view L t s (node_key v ms) =
   (if local_path L t ms then map_option (into_jmt_node (node_key v ms)) (fmlookup (tree_nodes s) (node_key v (key_nibbles (tree_node_prefix t) @ ms)))
    else None)"
  by (simp add: tier_view_def restrict_map_def get_node_option_def get_local_node_def stored_node_key_eq)

lemma view_node_key: "tier_view L t s k = Some x \<Longrightarrow> \<exists>v ms. k = node_key v ms \<and> local_path L t ms"
  by (auto simp: tier_view_def restrict_map_def local_keys_def split: if_splits)

text \<open>Two stores that agree on the keys of a tier show it the same.\<close>

lemma view_cong:
  assumes "\<And>v ms. local_path L t ms \<Longrightarrow> fmlookup (tree_nodes s') (node_key v (key_nibbles (tree_node_prefix t) @ ms)) =
     fmlookup (tree_nodes s) (node_key v (key_nibbles (tree_node_prefix t) @ ms))"
  shows "tier_view L t s' = tier_view L t s"
proof
  fix k
  show "tier_view L t s' k = tier_view L t s k"
  proof (cases "k \<in> local_keys L t")
    case True
    then obtain v ms where "k = node_key v ms" "local_path L t ms" by (auto simp: local_keys_def)
    then show ?thesis using assms by (simp add: view_at)
  qed (simp add: tier_view_def restrict_map_def)
qed

lemma child_from_kind: "children (InternalNode_from es) n = Some c \<Longrightarrow> child_node_type c \<noteq> NullType"
  by (auto simp: InternalNode_from_def Let_def child_from_def dest!: map_of_SomeD split: if_splits)

lemma same_node_read: "same_node (into_jmt_node k n) (into_jmt_node k n)"
  by (cases n) (auto simp: rel_option_iff same_child_def child_from_kind split: option.split)

lemma view_same: "tier_view L t s k = Some x \<Longrightarrow> same_node x x"
  by (auto simp: tier_view_def restrict_map_def get_node_option_def same_node_read split: if_splits)

section \<open>The effect of a tier update\<close>

definition inserts :: "tier \<Rightarrow> (tree_node_key \<times> version node) list \<Rightarrow> (tree_node_key, tree_node) fmap \<Rightarrow> (tree_node_key, tree_node) fmap" where
  "inserts t xs m = foldl (\<lambda>m (k, n). fmupd (stored_node_key t k) (from_jmt_node n k) m) m xs"

definition drops :: "tier \<Rightarrow> tree_node_key list \<Rightarrow> (tree_node_key, tree_node) fmap \<Rightarrow> (tree_node_key, tree_node) fmap" where
  "drops t ks m = foldl (\<lambda>m k. fmdrop (stored_node_key t k) m) m ks"

lemma foreach_insert:
  "mforeach (\<lambda>(key, node). insert_node (stored_node_key t key) (from_jmt_node node key)) xs s =
   (s\<lparr>tree_nodes := inserts t xs (tree_nodes s)\<rparr>, Ok ())"
  by (induction xs arbitrary: s) (auto simp: inserts_def insert_node_def mseq_def mbind_def)

lemma foreach_stale:
  "mforeach (\<lambda>st. record_stale_tree_part (StaleNode (stored_node_key t (stale_node_key st)))) xs s =
   (if pruning_enabled s then s\<lparr>tree_nodes := drops t (map stale_node_key xs) (tree_nodes s)\<rparr>
    else s\<lparr>stale_part_buffer := stale_part_buffer s @ map (\<lambda>st. StaleNode (stored_node_key t (stale_node_key st))) xs\<rparr>, Ok ())"
  by (induction xs arbitrary: s) (auto simp: drops_def record_stale_tree_part_def mseq_def mbind_def)

lemma lookup_inserts:
  "fmlookup (inserts t xs m) (stored_node_key t k) =
   (case map_of (rev xs) k of Some n \<Rightarrow> Some (from_jmt_node n k) | None \<Rightarrow> fmlookup m (stored_node_key t k))"
  by (induction xs arbitrary: m)
     (auto simp: inserts_def stored_node_key_inj map_add_def split: option.split prod.split)

lemma lookup_inserts_other: "q \<notin> stored_node_key t ` fst ` set xs \<Longrightarrow> fmlookup (inserts t xs m) q = fmlookup m q"
  by (induction xs arbitrary: m) (auto simp: inserts_def)

lemma lookup_drops: "fmlookup (drops t ks m) q = (if q \<in> stored_node_key t ` set ks then None else fmlookup m q)"
  by (induction ks arbitrary: m) (auto simp: drops_def)

text \<open>The node of a key of the tier after a batch, and that of any other key.\<close>

lemma apply_batch_effect:
  assumes b: "tree_update_batch batch = b" and "distinct (map fst (node_batch b))"
  obtains s' where "apply_tier_update_batch t batch s = (s', Ok (Some (new_version batch)))"
    "\<forall>k. fmlookup (tree_nodes s') (stored_node_key t k) = (if pruning_enabled s \<and> k \<in> stale_keys b then None
      else case map_of (node_batch b) k of Some n \<Rightarrow> Some (from_jmt_node n k) | None \<Rightarrow> fmlookup (tree_nodes s) (stored_node_key t k))"
    "\<forall>q. q \<notin> stored_node_key t ` (fst ` set (node_batch b) \<union> stale_keys b) \<longrightarrow> fmlookup (tree_nodes s') q = fmlookup (tree_nodes s) q"
    "pruning_enabled s' = pruning_enabled s"
proof -
  let ?s1 = "s\<lparr>tree_nodes := inserts t (node_batch b) (tree_nodes s)\<rparr>"
  let ?st = "stale_node_index_batch b"
  define s' where "s' = (if pruning_enabled s then ?s1\<lparr>tree_nodes := drops t (map stale_node_key ?st) (tree_nodes ?s1)\<rparr>
    else ?s1\<lparr>stale_part_buffer := stale_part_buffer ?s1 @ map (\<lambda>st. StaleNode (stored_node_key t (stale_node_key st))) ?st\<rparr>)"
  have "apply_tier_update_batch t batch s = (s', Ok (Some (new_version batch)))"
    unfolding apply_tier_update_batch_def mseq_apply_Inr [OF foreach_insert] mseq_apply_Inr [OF foreach_stale] b
    by (simp add: s'_def)
  moreover have "map_of (rev (node_batch b)) = map_of (node_batch b)"
    using assms(2) by (subst map_of_inject_set) (simp_all add: rev_map [symmetric])
  then have "\<forall>k. fmlookup (tree_nodes s') (stored_node_key t k) = (if pruning_enabled s \<and> k \<in> stale_keys b then None
      else case map_of (node_batch b) k of Some n \<Rightarrow> Some (from_jmt_node n k) | None \<Rightarrow> fmlookup (tree_nodes s) (stored_node_key t k))"
    by (auto simp: s'_def lookup_drops lookup_inserts stale_keys_def image_image stored_node_key_inj image_iff)
  moreover have "\<forall>q. q \<notin> stored_node_key t ` (fst ` set (node_batch b) \<union> stale_keys b) \<longrightarrow> fmlookup (tree_nodes s') q = fmlookup (tree_nodes s) q"
    by (auto simp: s'_def lookup_drops lookup_inserts_other stale_keys_def image_Un image_image)
  moreover have "pruning_enabled s' = pruning_enabled s" by (simp add: s'_def)
  ultimately show ?thesis by (rule that)
qed

section \<open>Sorted updates\<close>

lemma btree_insert_lookup: "map_of (btree_insert k v m) = (map_of m)(k \<mapsto> v)"
  by (induction k v m rule: btree_insert.induct) auto

lemma btree_insert_keys: "fst ` set (btree_insert k v m) = insert k (fst ` set m)"
  by (induction k v m rule: btree_insert.induct) auto

lemma lexordp_total: "\<not> ord_class.lexordp k k' \<Longrightarrow> k \<noteq> k' \<Longrightarrow> ord_class.lexordp k' (k :: byte list)"
  using lexordp_linear [of k k'] by blast

lemma btree_insert_sorted: "sorted_wrt ord_class.lexordp (map fst m) \<Longrightarrow> sorted_wrt ord_class.lexordp (map fst (btree_insert k v m))"
proof (induction k v m rule: btree_insert.induct)
  case (2 k v k' v' m)
  have trans: "ord_class.lexordp a c" if "ord_class.lexordp a b" "ord_class.lexordp b c" for a b c :: "byte list"
    using that by (rule lexordp_trans)
  have keys: "set (map fst (btree_insert k v m)) = insert k (fst ` set m)" using btree_insert_keys [of k v m] by simp
  show ?case using 2 keys lexordp_total [of k k'] by (auto intro: trans)
qed simp

lemma btree_of_facts:
  shows "sorted_wrt ord_class.lexordp (map fst (btree_of xs))" "keys_of (btree_of xs) = keys_of xs"
    and "distinct (map fst xs) \<Longrightarrow> map_of (btree_of xs) = map_of xs"
proof -
  have "sorted_wrt ord_class.lexordp (map fst m) \<Longrightarrow> sorted_wrt ord_class.lexordp (map fst (foldl (\<lambda>m (k, v). btree_insert k v m) m xs))"
    for m :: "(leaf_key \<times> (hash \<times> 'a) option) list"
    by (induction xs arbitrary: m) (auto simp: btree_insert_sorted)
  then show "sorted_wrt ord_class.lexordp (map fst (btree_of xs))" by (simp add: btree_of_def)
  have "fst ` set (foldl (\<lambda>m (k, v). btree_insert k v m) m xs) = fst ` set m \<union> fst ` set xs" for m :: "(leaf_key \<times> (hash \<times> 'a) option) list"
    by (induction xs arbitrary: m) (simp_all add: btree_insert_keys split_beta)
  then show "keys_of (btree_of xs) = keys_of xs" by (simp add: btree_of_def)
  have "map_of (foldl (\<lambda>m (k, v). btree_insert k v m) m xs) = map_of m ++ map_of (rev xs)" for m :: "(leaf_key \<times> (hash \<times> 'a) option) list"
    by (induction xs arbitrary: m) (auto simp: btree_insert_lookup map_add_upd_left fun_eq_iff map_add_def split: option.split)
  moreover have "distinct (map fst xs) \<Longrightarrow> map_of (rev xs) = map_of xs" by (subst map_of_inject_set) (simp_all add: rev_map [symmetric])
  ultimately show "distinct (map fst xs) \<Longrightarrow> map_of (btree_of xs) = map_of xs" by (simp add: btree_of_def)
qed

lemma upd_btree: "distinct (map fst xs) \<Longrightarrow> upd M (btree_of xs) = upd M xs"
  by (simp add: upd_def btree_of_facts)

section \<open>An update of a tier\<close>

text \<open>The hash function never returns the placeholder.\<close>

definition no_placeholder :: "hasher \<Rightarrow> bool" where
  "no_placeholder H \<longleftrightarrow> (\<forall>x. H x \<noteq> SPARSE_MERKLE_PLACEHOLDER_HASH)"

lemma listing_exists: "finite (dom M) \<Longrightarrow> \<exists>es. distinct (map fst es) \<and> map_of es = M"
proof -
  assume "finite (dom M)"
  then obtain ks where ks: "set ks = dom M" "distinct ks" using finite_distinct_list by blast
  have "map_of (map (\<lambda>k. (k, the (M k))) ks) = M"
  proof
    fix k show "map_of (map (\<lambda>k. (k, the (M k))) ks) k = M k"
      using ks(1) by (cases "k \<in> dom M") (auto simp: map_of_map_restrict restrict_map_def)
  qed
  then show ?thesis using ks(2) by (intro exI [of _ "map (\<lambda>k. (k, the (M k))) ks"]) (simp add: o_def)
qed

lemma stored_tree_finite: "stored_tree H S v M \<Longrightarrow> finite (dom M)"
proof -
  have "root_ok H S node M \<Longrightarrow> finite (dom M)" for node :: "'a node"
    by (cases node) (auto simp: root_ok_def dest: tree_at_dom)
  then show "stored_tree H S v M \<Longrightarrow> finite (dom M)" unfolding stored_tree_def by blast
qed

lemma root_hash_placeholder:
  assumes "is_root_hash H M h" "finite (dom M)" "no_placeholder H"
  shows "h = SPARSE_MERKLE_PLACEHOLDER_HASH \<longleftrightarrow> M = Map.empty"
proof -
  obtain es where es: "distinct (map fst es)" "map_of es = M" using listing_exists [OF assms(2)] by blast
  have h: "h = sparse_root H (map (leaf_entry H 0) es)" using assms(1) es by (simp add: is_root_hash_def)
  show ?thesis
  proof (cases es)
    case (Cons e es')
    have "h \<noteq> SPARSE_MERKLE_PLACEHOLDER_HASH"
      using assms(3) unfolding h Cons by (cases es') (auto simp: no_placeholder_def leaf_entry_def)
    moreover have "M (fst e) = Some (snd e)" unfolding es(2) [symmetric] Cons by simp
    then have "M \<noteq> Map.empty" by auto
    ultimately show ?thesis by simp
  qed (use h es in simp)
qed

text \<open>
  A step that leaves nodes of the store and new nodes of version \<open>v\<close>; without pruning, it leaves all
  nodes of the other versions.
\<close>

definition only_new :: "version \<Rightarrow> tree_store \<Rightarrow> tree_store \<Rightarrow> bool" where
  "only_new v s s' \<longleftrightarrow> pruning_enabled s' = pruning_enabled s \<and>
     (\<forall>k. fmlookup (tree_nodes s') k \<noteq> None \<longrightarrow> fmlookup (tree_nodes s) k \<noteq> None \<or> key_version k = v) \<and>
     (\<not> pruning_enabled s \<longrightarrow> (\<forall>k. key_version k \<noteq> v \<longrightarrow> fmlookup (tree_nodes s') k = fmlookup (tree_nodes s) k))"

lemma only_new_trans: "only_new v s s' \<Longrightarrow> only_new v s' s'' \<Longrightarrow> only_new v s s''"
  unfolding only_new_def by (intro conjI; metis)

definition other_tiers :: "nat \<Rightarrow> tier \<Rightarrow> tree_store \<Rightarrow> tree_store \<Rightarrow> bool" where
  "other_tiers L t s s' \<longleftrightarrow> (\<forall>t'. tier_ok L t' \<longrightarrow> t' \<noteq> t \<longrightarrow> tier_view L t' s' = tier_view L t' s)"

definition root_matches :: "hasher \<Rightarrow> version entries \<Rightarrow> hash option \<Rightarrow> bool" where
  "root_matches H M r \<longleftrightarrow> (case r of None \<Rightarrow> M = Map.empty | Some h \<Rightarrow> M \<noteq> Map.empty \<and> is_root_hash H M h)"

lemma tier_update:
  assumes t: "tier_ok L t" and H: "no_placeholder H"
    and M: "persisted H (tier_view L t s) rv M" "[] \<notin> dom M"
    and us: "distinct (map fst us)" "prefix_free (dom M \<union> keys_of us)" "\<forall>k \<in> dom M \<union> keys_of us. local_path L t (key_nibbles k)"
    and fr: "fresh v (tier_view L t s)"
  shows "\<exists>batch s'. generate_tier_update_batch H t rv v us s = Ok batch \<and> apply_tier_update_batch t batch s = (s', Ok (Some v)) \<and>
    stored_tree H (tier_view L t s') v (upd M us) \<and> root_matches H (upd M us) (new_root_hash batch) \<and>
    batch_ok v (upd M us) (tree_update_batch batch) \<and> other_tiers L t s s' \<and> only_new v s s'"
proof -
  let ?S = "tier_view L t s" and ?M = "upd M us"
  have keys: "keys_of (btree_of us) = keys_of us" and upd: "upd M (btree_of us) = ?M"
    using btree_of_facts(2) upd_btree [OF us(1)] by blast+
  obtain root b where put: "batch_put_value_set H ?S (btree_of us) None rv v = Ok (root, b)"
    "stored_tree H (prune_batch ?S b) v ?M" "is_root_hash H ?M root" "batch_ok v ?M b" "\<forall>k \<in> stale_keys b. ?S k \<noteq> None"
    using put_value_set_tree [where kvs = "btree_of us", OF btree_of_facts(1) _ M(2) fr M(1)] us(2) unfolding keys upd by blast
  define batch where "batch = \<lparr>new_version = v,
    new_root_hash = (if root = SPARSE_MERKLE_PLACEHOLDER_HASH then None else Some root), tree_update_batch = b\<rparr>"
  have gen: "generate_tier_update_batch H t rv v us s = Ok batch"
    using put_value_set_more [OF view_le put(1)] by (simp add: generate_tier_update_batch_def unwrap_def batch_def)
  have tb: "tree_update_batch batch = b" "new_version batch = v" by (simp_all add: batch_def)
  have "distinct (map fst (node_batch b))" using put(4) by (simp add: batch_ok_def)
  then obtain s' where s': "apply_tier_update_batch t batch s = (s', Ok (Some (new_version batch)))"
    and local: "\<forall>k. fmlookup (tree_nodes s') (stored_node_key t k) = (if pruning_enabled s \<and> k \<in> stale_keys b then None
      else case map_of (node_batch b) k of Some n \<Rightarrow> Some (from_jmt_node n k) | None \<Rightarrow> fmlookup (tree_nodes s) (stored_node_key t k))"
    and other: "\<forall>q. q \<notin> stored_node_key t ` (fst ` set (node_batch b) \<union> stale_keys b) \<longrightarrow> fmlookup (tree_nodes s') q = fmlookup (tree_nodes s) q"
    and flag: "pruning_enabled s' = pruning_enabled s"
    by (rule apply_batch_effect [OF tb(1)])
  note local = spec [OF local] and other = mp [OF spec [OF other]]
  have keys_local: "local_path L t (key_nibbles k)" if "k \<in> dom ?M" for k using dom_upd [of M us] us(3) that by blast
  have new_key: "\<exists>ms. k = node_key v ms \<and> local_path L t ms" if k: "k \<in> fst ` set (node_batch b)" for k
  proof -
    obtain x where x: "x \<in> set (node_batch b)" "k = fst x" using k by blast
    then have "node_of v ?M x \<or> x = (node_key v [], Null)" using put(4) by (auto simp: batch_ok_def)
    then show ?thesis
    proof
      assume "node_of v ?M x"
      then obtain ms key where "fst x = node_key v ms" "key \<in> dom ?M" "prefix ms (key_nibbles key)" unfolding node_of_def by blast
      then show ?thesis using x(2) keys_local local_path_prefix by blast
    next
      assume "x = (node_key v [], Null)"
      then show ?thesis using x(2) by (cases t) auto
    qed
  qed
  have stale_key: "\<exists>u ms. k = node_key u ms \<and> local_path L t ms \<and> u \<noteq> v" if k: "k \<in> stale_keys b" for k
  proof -
    obtain x where "?S k = Some x" using put(5) k by blast
    then obtain u ms where "k = node_key u ms" "local_path L t ms" using view_node_key by blast
    moreover from this have "u \<noteq> v" using fr \<open>?S k = Some x\<close> by (auto simp: fresh_def)
    ultimately show ?thesis by blast
  qed
  have tree: "stored_tree H (tier_view L t s') v ?M"
  proof (rule stored_tree_same [OF put(2)])
    fix u ms x assume path: "on_path ?M ms" and x: "prune_batch ?S b (node_key u ms) = Some x"
    have lp: "local_path L t ms"
    proof (cases "ms = []")
      case False
      then obtain k where "k \<in> dom ?M" "prefix ms (key_nibbles k)" using path by (auto simp: on_path_def)
      then show ?thesis using keys_local local_path_prefix by blast
    qed (cases t; simp)
    have at: "tier_view L t s' (node_key u ms) = map_option (into_jmt_node (node_key u ms)) (fmlookup (tree_nodes s') (stored_node_key t (node_key u ms)))"
      using lp by (simp add: view_at stored_node_key_eq)
    show "\<exists>y. tier_view L t s' (node_key u ms) = Some y \<and> same_node x y"
    proof (cases "map_of (node_batch b) (node_key u ms)")
      case None
      then have S: "?S (node_key u ms) = Some x" "node_key u ms \<notin> stale_keys b"
        using x by (auto simp: prune_batch_def map_add_def restrict_map_def split: if_splits)
      then have "tier_view L t s' (node_key u ms) = ?S (node_key u ms)"
        using at local [of "node_key u ms"] None lp by (simp add: view_at stored_node_key_eq)
      then show ?thesis using S(1) view_same by auto
    next
      case (Some n)
      then have n: "n = x" using x by (simp add: prune_batch_def map_add_def)
      have mem: "(node_key u ms, n) \<in> set (node_batch b)" using Some by (rule map_of_SomeD)
      then have "u = v" using new_key [of "node_key u ms"] by force
      then have "node_key u ms \<notin> stale_keys b" using stale_key [of "node_key u ms"] by auto
      then have "tier_view L t s' (node_key u ms) = Some (into_jmt_node (node_key u ms) (from_jmt_node n (node_key u ms)))"
        using at local [of "node_key u ms"] Some by simp
      moreover have "prefix ms (key_nibbles (leaf_key l))" if "n = Leaf l" for l
      proof -
        have "node_of v ?M (node_key u ms, n)" using put(4) mem that unfolding batch_ok_def by auto
        then show ?thesis using that by (auto simp: node_of_def)
      qed
      ultimately show ?thesis using node_read_back [of n ms u] n by simp
    qed
  qed
  have "root_matches H ?M (new_root_hash batch)"
    using root_hash_placeholder [OF put(3) stored_tree_finite [OF tree] H] put(3) by (simp add: root_matches_def batch_def)
  moreover have "other_tiers L t s s'" unfolding other_tiers_def
  proof (intro allI impI)
    fix t' assume t': "tier_ok L t'" "t' \<noteq> t"
    show "tier_view L t' s' = tier_view L t' s"
    proof (rule view_cong)
      fix u ms assume ms: "local_path L t' ms"
      have "node_key u (key_nibbles (tree_node_prefix t') @ ms) \<notin> stored_node_key t ` (fst ` set (node_batch b) \<union> stale_keys b)"
      proof
        assume "node_key u (key_nibbles (tree_node_prefix t') @ ms) \<in> stored_node_key t ` (fst ` set (node_batch b) \<union> stale_keys b)"
        then obtain k where k: "node_key u (key_nibbles (tree_node_prefix t') @ ms) = stored_node_key t k" "k \<in> fst ` set (node_batch b) \<union> stale_keys b" by blast
        then obtain w ms' where "k = node_key w ms'" "local_path L t ms'" using new_key stale_key by blast
        then show False using tiers_apart [OF t'(1) t ms, of ms'] k(1) t'(2) by (simp add: stored_node_key_eq)
      qed
      then show "fmlookup (tree_nodes s') (node_key u (key_nibbles (tree_node_prefix t') @ ms)) =
          fmlookup (tree_nodes s) (node_key u (key_nibbles (tree_node_prefix t') @ ms))" by (rule other)
    qed
  qed
  moreover have "only_new v s s'" unfolding only_new_def
  proof (intro conjI allI impI)
    fix q :: tree_node_key assume q: "\<not> pruning_enabled s" "key_version q \<noteq> v"
    show "fmlookup (tree_nodes s') q = fmlookup (tree_nodes s) q"
    proof (cases "q \<in> stored_node_key t ` (fst ` set (node_batch b) \<union> stale_keys b)")
      case True
      then obtain k where k: "q = stored_node_key t k" by blast
      have "k \<notin> fst ` set (node_batch b)"
      proof
        assume "k \<in> fst ` set (node_batch b)"
        then obtain ms where "k = node_key v ms" using new_key by blast
        then show False using q(2) k by (simp add: stored_node_key_eq)
      qed
      then have "map_of (node_batch b) k = None" by (simp add: map_of_eq_None_iff)
      then show ?thesis using local [of k] q(1) k by simp
    qed (rule other)
  next
    fix q assume q: "fmlookup (tree_nodes s') q \<noteq> None"
    show "fmlookup (tree_nodes s) q \<noteq> None \<or> key_version q = v"
    proof (cases "q \<in> stored_node_key t ` (fst ` set (node_batch b) \<union> stale_keys b)")
      case True
      then obtain k where k: "q = stored_node_key t k" "k \<in> fst ` set (node_batch b) \<union> stale_keys b" by blast
      show ?thesis
      proof (cases "k \<in> fst ` set (node_batch b)")
        case True
        then show ?thesis using new_key k(1) stored_node_key_eq by fastforce
      next
        case False
        then have "map_of (node_batch b) k = None" by (simp add: map_of_eq_None_iff)
        then show ?thesis using local [of k] q k(1) by (auto split: if_splits)
      qed
    qed (use other q in simp)
  qed (rule flag)
  ultimately show ?thesis using gen s' tree put(4) tb by auto
qed

end
