(* ===== verification/State_Tree.thy ===== *)
theory State_Tree
  imports Tier_Laws
begin

text \<open>
  The state tree as a whole: \<^verbatim>\<open>put_at_next_version\<close> turns a tree of the substates of the ledger into a
  tree of the updated substates, and its root hash is the nested Merkle root over them.
\<close>


section \<open>Updates of a partition\<close>

definition apply_changes :: "partition_database_updates \<Rightarrow> (sort_key \<rightharpoonup> substate_value) \<Rightarrow> (sort_key \<rightharpoonup> substate_value)" where
  "apply_changes updates D = (case updates of
     Delta us \<Rightarrow> (\<lambda>k. case map_of us k of None \<Rightarrow> D k | Some (SetValue x) \<Rightarrow> Some x | Some Delete \<Rightarrow> None)
   | Reset vs \<Rightarrow> map_of vs)"

fun update_keys :: "partition_database_updates \<Rightarrow> sort_key list" where
  "update_keys (Delta us) = map fst us"
| "update_keys (Reset vs) = map fst vs"

text \<open>The entries of a substate tier hold the hashes of the values.\<close>

definition hashes_values :: "hasher \<Rightarrow> version entries \<Rightarrow> (sort_key \<rightharpoonup> substate_value) \<Rightarrow> bool" where
  "hashes_values H M D \<longleftrightarrow> (\<forall>k. map_option fst (M k) = map_option H (D k))"

lemma hashes_values_dom: "hashes_values H M D \<Longrightarrow> dom M = dom D"
  unfolding hashes_values_def by (metis (mono_tags, lifting) domIff map_option_is_None subsetI subset_antisym)

lemma remove_queue_local:
  assumes "\<forall>k \<in> set q. \<exists>v ms. k = node_key v (p @ ms)" "\<nexists>v ms. k = node_key v (p @ ms)"
  shows "fmlookup (remove_queue q m) k = fmlookup m k"
  using assms(1)
proof (induction q m rule: remove_queue.induct)
  case (2 q0 q m)
  obtain v ms where q0: "q0 = node_key v (p @ ms)" using "2.prems" by auto
  then have neq: "q0 \<noteq> k" using assms(2) by blast
  show ?case
  proof (cases "fmlookup m q0")
    case (Some node)
    have "\<forall>k \<in> set (stored_children q0 node). \<exists>v ms. k = node_key v (p @ ms)"
      unfolding q0 by (auto simp: stored_children_def split: tree_node.split)
    then have "fmlookup (remove_queue (q @ stored_children q0 node) (fmdrop q0 m)) k = fmlookup (fmdrop q0 m) k"
      using "2.prems" by (intro "2.IH"(2) [OF Some]) (simp add: ball_Un)
    then show ?thesis using Some neq by simp
  qed (use 2 in simp)
qed simp

lemma remove_queue_sub: "fmlookup (remove_queue q m) k = Some x \<Longrightarrow> fmlookup m k = Some x"
proof (induction q m rule: remove_queue.induct)
  case (2 q0 q m)
  then show ?case by (cases "fmlookup m q0") (auto split: if_splits)
qed simp

lemma stale_subtree_effect:
  assumes t: "tier_ok L (SubstateTier ek pn)"
  obtains s' where "record_stale_tree_part (StaleSubtree (stored_node_key (SubstateTier ek pn) (new_empty_path v))) s = (s', Ok ())"
    "other_tiers L (SubstateTier ek pn) s s'" "only_new w s s'"
    "fresh w (tier_view L (SubstateTier ek pn) s) \<longrightarrow> fresh w (tier_view L (SubstateTier ek pn) s')"
proof -
  let ?t = "SubstateTier ek pn"
  define s' where "s' = fst (record_stale_tree_part (StaleSubtree (stored_node_key ?t (new_empty_path v))) s)"
  have run: "record_stale_tree_part (StaleSubtree (stored_node_key ?t (new_empty_path v))) s = (s', Ok ())"
    by (simp add: record_stale_tree_part_def s'_def)
  have nodes: "tree_nodes s' = (if pruning_enabled s then remove_queue [stored_node_key ?t (node_key v [])] (tree_nodes s) else tree_nodes s)"
    by (simp add: record_stale_tree_part_def s'_def)
  have sub: "fmlookup (tree_nodes s) k = Some x" if "fmlookup (tree_nodes s') k = Some x" for k x
    using that remove_queue_sub [of "[stored_node_key ?t (node_key v [])]" "tree_nodes s" k x]
    unfolding nodes by (cases "pruning_enabled s") (simp_all only: if_True if_False)
  have others: "other_tiers L ?t s s'" unfolding other_tiers_def
  proof (intro allI impI, rule view_cong)
    fix t' u ms assume t': "tier_ok L t'" "t' \<noteq> ?t" "local_path L t' ms"
    have "\<nexists>w ns. node_key u (key_nibbles (tree_node_prefix t') @ ms) = node_key w (key_nibbles (tree_node_prefix ?t) @ ns)"
      using tiers_apart [OF t'(1) t t'(3)] t'(2) by (metis local_path.simps(3) node_key_simps(1))
    from remove_queue_local [OF _ this, of "[stored_node_key ?t (node_key v [])]"]
    show "fmlookup (tree_nodes s') (node_key u (key_nibbles (tree_node_prefix t') @ ms)) =
        fmlookup (tree_nodes s) (node_key u (key_nibbles (tree_node_prefix t') @ ms))"
      unfolding nodes by (auto simp: stored_node_key_eq)
  qed
  have "pruning_enabled s' = pruning_enabled s" by (simp add: record_stale_tree_part_def s'_def)
  moreover have "\<not> pruning_enabled s \<longrightarrow> tree_nodes s' = tree_nodes s" using nodes by simp
  moreover have "\<forall>k. fmlookup (tree_nodes s') k \<noteq> None \<longrightarrow> fmlookup (tree_nodes s) k \<noteq> None" using sub by blast
  ultimately have "only_new w s s'" unfolding only_new_def by simp
  moreover have "fresh w (tier_view L ?t s) \<longrightarrow> fresh w (tier_view L ?t s')"
  proof
    assume "fresh w (tier_view L ?t s)"
    then have "fmlookup (tree_nodes s) (node_key w (key_nibbles (tree_node_prefix ?t) @ ms)) = None" for ms
      by (auto simp: fresh_def view_at)
    then have "fmlookup (tree_nodes s') (node_key w (key_nibbles (tree_node_prefix ?t) @ ms)) = None" for ms
      using sub by (metis not_None_eq)
    then show "fresh w (tier_view L ?t s')" by (auto simp: fresh_def view_at)
  qed
  ultimately show ?thesis using that run others by blast
qed

lemma associate_substates_ok:
  assumes "\<And>k l. (k, Leaf l) \<in> set (node_batch b) \<Longrightarrow> get_substate_change updates (leaf_key l) \<noteq> Some Delete"
  shows "\<exists>s'. associate_substates ek pn updates b s = (s', Ok ()) \<and> tree_nodes s' = tree_nodes s \<and> pruning_enabled s' = pruning_enabled s"
proof -
  let ?f = "\<lambda>(key, node). case node of
         Leaf leaf \<Rightarrow>
           (case get_substate_change updates (leaf_key leaf) of
              Some Delete \<Rightarrow> mlift (\<lambda>_. Panics)
            | Some (SetValue v) \<Rightarrow>
                associate_substate (stored_node_key (SubstateTier ek pn) key) (ek, pn) (leaf_key leaf) (Upserted v)
            | None \<Rightarrow>
                associate_substate (stored_node_key (SubstateTier ek pn) key) (ek, pn) (leaf_key leaf) Unchanged)
       | _ \<Rightarrow> mreturn ()"
  have step: "\<exists>s'. associate_substate k pk sk v s = (s', Ok ()) \<and> tree_nodes s' = tree_nodes s \<and> pruning_enabled s' = pruning_enabled s" for k pk sk v s
    by (simp add: associate_substate_def)
  have one: "\<exists>s'. ?f x s = (s', Ok ()) \<and> tree_nodes s' = tree_nodes s \<and> pruning_enabled s' = pruning_enabled s" if x: "x \<in> set (node_batch b)" for x s
  proof (cases x)
    case (Pair k node)
    show ?thesis
    proof (cases node)
      case (Leaf l)
      then have "get_substate_change updates (leaf_key l) \<noteq> Some Delete" using assms x Pair by blast
      then show ?thesis using Pair Leaf step by (auto split: option.split database_update.split)
    qed (simp_all add: Pair)
  qed
  have "\<exists>s'. mforeach ?f xs s = (s', Ok ()) \<and> tree_nodes s' = tree_nodes s \<and> pruning_enabled s' = pruning_enabled s" if "set xs \<subseteq> set (node_batch b)" for xs
    using that
  proof (induction xs arbitrary: s)
    case (Cons x xs)
    obtain s1 where "?f x s = (s1, Ok ())" "tree_nodes s1 = tree_nodes s" "pruning_enabled s1 = pruning_enabled s" using one [of x s] Cons.prems by auto
    moreover obtain s2 where "mforeach ?f xs s1 = (s2, Ok ())" "tree_nodes s2 = tree_nodes s1" "pruning_enabled s2 = pruning_enabled s1"
      using Cons.IH [of s1] Cons.prems by auto
    ultimately show ?case by simp
  qed simp
  then show ?thesis unfolding associate_substates_def by blast
qed

text \<open>The leaves that an update of a partition makes.\<close>

fun leaf_updates :: "hasher \<Rightarrow> version \<Rightarrow> partition_database_updates \<Rightarrow> (leaf_key \<times> (hash \<times> version) option) list" where
  "leaf_updates H v (Delta us) = map (\<lambda>(sk, update). (sk, (case update of
     SetValue x \<Rightarrow> Some (new_substate_leaf H x v) | Delete \<Rightarrow> None))) us"
| "leaf_updates H v (Reset vs) = map (\<lambda>(sk, x). (sk, Some (new_substate_leaf H x v))) vs"

fun starts_empty :: "partition_database_updates \<Rightarrow> bool" where
  "starts_empty (Delta us) \<longleftrightarrow> False"
| "starts_empty (Reset vs) \<longleftrightarrow> True"

lemma leaf_updates_keys: "map fst (leaf_updates H v updates) = update_keys updates"
  by (cases updates) (simp_all add: split_beta o_def)

lemma leaf_updates_values:
  assumes "hashes_values H M D"
  shows "hashes_values H (upd (if starts_empty updates then Map.empty else M) (leaf_updates H v updates)) (apply_changes updates D)"
proof (cases updates)
  case (Delta us)
  have "map_of (leaf_updates H v updates) k = map_option (\<lambda>u. case u of SetValue x \<Rightarrow> Some (new_substate_leaf H x v) | Delete \<Rightarrow> None) (map_of us k)" for k
    unfolding Delta by (induction us) auto
  then show ?thesis using assms Delta
    by (auto simp: hashes_values_def upd_def apply_changes_def new_substate_leaf_def split: option.split database_update.split)
next
  case (Reset vs)
  have "map_of (leaf_updates H v updates) k = map_option (\<lambda>x. Some (new_substate_leaf H x v)) (map_of vs k)" for k
    unfolding Reset by (induction vs) auto
  then show ?thesis using Reset
    by (auto simp: hashes_values_def upd_def apply_changes_def new_substate_leaf_def split: option.split)
qed

lemma not_deleted: "apply_changes updates D k \<noteq> None \<Longrightarrow> get_substate_change updates k \<noteq> Some Delete"
  by (cases updates) (auto simp: apply_changes_def get_substate_change_def split: option.splits)

theorem partition_update:
  assumes ek: "length ek = L" and H: "no_placeholder H"
    and M: "persisted H (tier_view L (SubstateTier ek pn) s) rv M" "hashes_values H M D" "[] \<notin> dom D"
    and us: "distinct (update_keys updates)" "prefix_free (dom D \<union> set (update_keys updates))"
    and fr: "fresh v (tier_view L (SubstateTier ek pn) s)"
  shows "\<exists>h s' M'. apply_partition_updates H ek pn rv v updates s = (s', Ok h) \<and>
    stored_tree H (tier_view L (SubstateTier ek pn) s') v M' \<and> hashes_values H M' (apply_changes updates D) \<and>
    root_matches H M' h \<and> other_tiers L (SubstateTier ek pn) s s' \<and> only_new v s s'"
proof -
  let ?t = "SubstateTier ek pn" and ?us = "leaf_updates H v updates"
  define M0 where "M0 = (if starts_empty updates then Map.empty else M)"
  define rv0 where "rv0 = (if starts_empty updates then None else rv)"
  have t: "tier_ok L ?t" using ek by simp
  let ?prepare = "case updates of
      Delta substate_updates \<Rightarrow>
        mreturn (rv, map (\<lambda>(sk, update). (sk, (case update of
          SetValue x \<Rightarrow> Some (new_substate_leaf H x v) | Delete \<Rightarrow> None))) substate_updates)
    | Reset new_substate_values \<Rightarrow>
        mseq (case rv of
            Some substate_root_version \<Rightarrow> record_stale_tree_part (StaleSubtree (stored_node_key ?t (new_empty_path substate_root_version)))
          | None \<Rightarrow> mreturn ())
        (mreturn (None, map (\<lambda>(sk, x). (sk, Some (new_substate_leaf H x v))) new_substate_values))"
  have "\<exists>s1. ?prepare s = (s1, Ok (rv0, ?us)) \<and> persisted H (tier_view L ?t s1) rv0 M0 \<and> fresh v (tier_view L ?t s1) \<and>
      other_tiers L ?t s s1 \<and> only_new v s s1"
  proof (cases updates)
    case (Delta us)
    then show ?thesis using M(1) fr by (simp add: M0_def rv0_def other_tiers_def only_new_def)
  next
    case (Reset vs)
    show ?thesis
    proof (cases rv)
      case None
      then show ?thesis using Reset fr by (simp add: M0_def rv0_def other_tiers_def only_new_def persisted_def)
    next
      case (Some w)
      obtain s1 where "record_stale_tree_part (StaleSubtree (stored_node_key ?t (new_empty_path w))) s = (s1, Ok ())"
          "other_tiers L ?t s s1" "only_new v s s1" "fresh v (tier_view L ?t s) \<longrightarrow> fresh v (tier_view L ?t s1)"
        by (rule stale_subtree_effect [OF t])
      then show ?thesis using Some Reset fr by (simp add: M0_def rv0_def persisted_def)
    qed
  qed
  then obtain s1 where s1: "?prepare s = (s1, Ok (rv0, ?us))" "persisted H (tier_view L ?t s1) rv0 M0" "fresh v (tier_view L ?t s1)"
    "other_tiers L ?t s s1" "only_new v s s1" by blast
  have dom: "dom M0 \<subseteq> dom D" using hashes_values_dom [OF M(2)] by (simp add: M0_def)
  have keys: "keys_of ?us = set (update_keys updates)" using leaf_updates_keys [of H v updates] by (metis set_map)
  have "\<exists>batch s2. generate_tier_update_batch H ?t rv0 v ?us s1 = Ok batch \<and> apply_tier_update_batch ?t batch s1 = (s2, Ok (Some v)) \<and>
    stored_tree H (tier_view L ?t s2) v (upd M0 ?us) \<and> root_matches H (upd M0 ?us) (new_root_hash batch) \<and>
    batch_ok v (upd M0 ?us) (tree_update_batch batch) \<and> other_tiers L ?t s1 s2 \<and> only_new v s1 s2"
  proof (rule tier_update [OF t H s1(2)])
    show "[] \<notin> dom M0" using dom M(3) by blast
    show "distinct (map fst ?us)" using us(1) by (simp add: leaf_updates_keys)
    show "prefix_free (dom M0 \<union> keys_of ?us)" using us(2) by (rule prefix_free_subset) (use dom keys in blast)
    show "\<forall>k \<in> dom M0 \<union> keys_of ?us. local_path L ?t (key_nibbles k)" by simp
  qed (rule s1(3))
  then obtain batch s2 where s2: "generate_tier_update_batch H ?t rv0 v ?us s1 = Ok batch" "apply_tier_update_batch ?t batch s1 = (s2, Ok (Some v))"
    "stored_tree H (tier_view L ?t s2) v (upd M0 ?us)" "root_matches H (upd M0 ?us) (new_root_hash batch)"
    "batch_ok v (upd M0 ?us) (tree_update_batch batch)" "other_tiers L ?t s1 s2" "only_new v s1 s2" by blast
  have vals: "hashes_values H (upd M0 ?us) (apply_changes updates D)" unfolding M0_def by (rule leaf_updates_values [OF M(2)])
  have "\<exists>s3. associate_substates ek pn updates (tree_update_batch batch) s2 = (s3, Ok ()) \<and> tree_nodes s3 = tree_nodes s2 \<and>
      pruning_enabled s3 = pruning_enabled s2"
  proof (rule associate_substates_ok)
    fix k l assume "(k, Leaf l) \<in> set (node_batch (tree_update_batch batch))"
    then have "node_of v (upd M0 ?us) (k, Leaf l)" using s2(5) by (auto simp: batch_ok_def)
    then have "leaf_key l \<in> dom (upd M0 ?us)" by (auto simp: node_of_def)
    then have "leaf_key l \<in> dom (apply_changes updates D)" using hashes_values_dom [OF vals] by simp
    then show "get_substate_change updates (leaf_key l) \<noteq> Some Delete" by (intro not_deleted) (simp add: domIff)
  qed
  then obtain s3 where s3: "associate_substates ek pn updates (tree_update_batch batch) s2 = (s3, Ok ())" "tree_nodes s3 = tree_nodes s2"
    "pruning_enabled s3 = pruning_enabled s2" by blast
  have view: "tier_view L t' s3 = tier_view L t' s2" for t' by (rule view_cong) (simp add: s3(2))
  have "apply_partition_updates H ek pn rv v updates s = (s3, Ok (new_root_hash batch))"
    unfolding apply_partition_updates_def Let_def
    by (rule trans [OF mbind_apply_Inr [where m = ?prepare, OF s1(1)]]) (use s2(1,2) s3(1) in simp)
  moreover have "other_tiers L ?t s s3" using s1(4) s2(6) view by (simp add: other_tiers_def)
  moreover have "only_new v s s3" using only_new_trans [OF s1(5) s2(7)] s3(2,3) by (simp add: only_new_def)
  ultimately show ?thesis using s2(3,4) vals view by auto
qed

section \<open>A tier over lower tiers\<close>

text \<open>A step that changes at most the tiers of a set.\<close>

definition only_tiers :: "nat \<Rightarrow> tier set \<Rightarrow> tree_store \<Rightarrow> tree_store \<Rightarrow> bool" where
  "only_tiers L T s s' \<longleftrightarrow> (\<forall>t'. tier_ok L t' \<longrightarrow> t' \<notin> T \<longrightarrow> tier_view L t' s' = tier_view L t' s)"

lemma other_tiers_only: "other_tiers L t s s' \<longleftrightarrow> only_tiers L {t} s s'"
  by (simp add: other_tiers_def only_tiers_def)

lemma only_tiers_trans: "only_tiers L T s s' \<Longrightarrow> only_tiers L T' s' s'' \<Longrightarrow> only_tiers L (T \<union> T') s s''"
  by (simp add: only_tiers_def)

lemma only_tiers_mono: "only_tiers L T s s' \<Longrightarrow> T \<subseteq> T' \<Longrightarrow> only_tiers L T' s s'"
  by (auto simp: only_tiers_def)

text \<open>The leaf that an upper tier holds for the tree of a lower tier, none for an empty tree.\<close>

definition tree_under :: "hasher \<Rightarrow> nat \<Rightarrow> tier \<Rightarrow> tree_store \<Rightarrow> (hash \<times> version) option \<Rightarrow> version entries \<Rightarrow> bool" where
  "tree_under H L t s x M \<longleftrightarrow> (case x of
     None \<Rightarrow> M = Map.empty
   | Some (h, u) \<Rightarrow> M \<noteq> Map.empty \<and> is_root_hash H M h \<and> stored_tree H (tier_view L t s) u M)"

lemma tree_under_persisted: "tree_under H L t s x M \<Longrightarrow> persisted H (tier_view L t s) (map_option snd x) M"
  by (cases x) (auto simp: tree_under_def persisted_def)

lemma tree_under_new:
  "stored_tree H (tier_view L t s) v M \<Longrightarrow> root_matches H M h \<Longrightarrow> tree_under H L t s (new_tier_leaf v h) M"
  by (cases h) (auto simp: tree_under_def root_matches_def new_tier_leaf_def)

lemma tree_under_cong: "tier_view L t s' = tier_view L t s \<Longrightarrow> tree_under H L t s' x M \<longleftrightarrow> tree_under H L t s x M"
  by (cases x) (simp_all add: tree_under_def)

lemma payload_read:
  assumes "persisted H (tier_view L t s) rv M" "prefix_free (insert key (dom M))" "length key < 500"
  shows "get_persisted_leaf_payload H t rv key s = Ok (map_option snd (M key))"
proof (cases rv)
  case None
  then show ?thesis using assms(1) by (simp add: persisted_def get_persisted_leaf_payload_def)
next
  case (Some u)
  then have "stored_tree H (tier_view L t s) u M" using assms(1) by (simp add: persisted_def)
  from get_with_proof_tree [OF this assms(2,3)] obtain val p
    where val: "get_with_proof H (tier_view L t s) key u = Ok (val, p)" "entry_of val = M key" by blast
  from get_with_proof_more [OF view_le val(1)] show ?thesis
    by (simp add: Some get_persisted_leaf_payload_def unwrap_def val(2) [symmetric]) (cases val; simp add: split_beta)
qed

text \<open>The content after an update of some keys.\<close>

definition changed :: "('u \<Rightarrow> 'd \<Rightarrow> 'd) \<Rightarrow> ('k \<times> 'u) list \<Rightarrow> ('k \<Rightarrow> 'd) \<Rightarrow> 'k \<Rightarrow> 'd" where
  "changed change us D = (\<lambda>k. case map_of us k of None \<Rightarrow> D k | Some u \<Rightarrow> change u (D k))"

text \<open>
  The contract between a tier and the tiers below it: the update of one lower tier (\<open>apply_lower\<close>)
  turns the tree of its content into a tree of the changed content and touches the tiers of its key
  (\<open>own\<close>) only.
\<close>

locale lower_tiers =
  fixes H :: hasher and L :: nat and v :: version and t :: tier
    and key_ok :: "'k \<Rightarrow> bool" and enc :: "'k \<Rightarrow> leaf_key" and own :: "'k \<Rightarrow> tier set"
    and below :: "tree_store \<Rightarrow> 'k \<Rightarrow> (hash \<times> version) option \<Rightarrow> 'd \<Rightarrow> bool"
    and valid :: "'k \<Rightarrow> 'u \<Rightarrow> 'd \<Rightarrow> bool" and change :: "'u \<Rightarrow> 'd \<Rightarrow> 'd"
    and apply_lower :: "'k \<Rightarrow> version option \<Rightarrow> 'u \<Rightarrow> hash option store_fn"
  assumes enc_inj: "enc k = enc k' \<Longrightarrow> k = k'"
    and enc_local: "key_ok k \<Longrightarrow> local_path L t (key_nibbles (enc k)) \<and> enc k \<noteq> [] \<and> length (enc k) < 500"
    and enc_same: "key_ok k \<Longrightarrow> key_ok k' \<Longrightarrow> length (enc k) = length (enc k')"
    and own_other: "t' \<in> own k \<Longrightarrow> t' \<noteq> t"
    and own_ok: "key_ok k \<Longrightarrow> t' \<in> own k \<Longrightarrow> tier_ok L t'"
    and own_apart: "t' \<in> own k \<Longrightarrow> t' \<in> own k' \<Longrightarrow> k = k'"
    and below_cong: "below s k x d \<Longrightarrow> (\<And>t'. t' \<in> own k \<Longrightarrow> tier_view L t' s' = tier_view L t' s) \<Longrightarrow> below s' k x d"
    and lower_update: "key_ok k \<Longrightarrow> below s k x d \<Longrightarrow> valid k u d \<Longrightarrow> (\<And>t'. t' \<in> own k \<Longrightarrow> fresh v (tier_view L t' s)) \<Longrightarrow>
      \<exists>h s'. apply_lower k (map_option snd x) u s = (s', Ok h) \<and> below s' k (new_tier_leaf v h) (change u d) \<and>
        only_tiers L (own k) s s' \<and> only_new v s s'"
begin

lemma keys_prefix_free: "(\<And>x. x \<in> K \<Longrightarrow> \<exists>k. key_ok k \<and> x = enc k) \<Longrightarrow> prefix_free K"
proof -
  assume K: "\<And>x. x \<in> K \<Longrightarrow> \<exists>k. key_ok k \<and> x = enc k"
  have "x = y" if "x \<in> K" "y \<in> K" "prefix (key_nibbles x) (key_nibbles y)" for x y
  proof -
    have "length x = length y" using K [OF that(1)] K [OF that(2)] enc_same by blast
    then have len: "length (key_nibbles x) = length (key_nibbles y)" by simp
    from that(3) obtain zs where zs: "key_nibbles y = key_nibbles x @ zs" by (rule prefixE)
    have "zs = []" using len unfolding zs length_append by simp
    then show ?thesis using zs by (simp add: key_nibbles_eq_iff)
  qed
  then show "prefix_free K" by (auto simp: prefix_free_def)
qed

lemma lower_updates:
  assumes M: "persisted H (tier_view L t s) rv M" "\<forall>x \<in> dom M. \<exists>k. key_ok k \<and> x = enc k" and t: "tier_ok L t"
    and us: "distinct (map fst us)" "\<forall>(k, u) \<in> set us. key_ok k \<and> below s k (M (enc k)) (D k) \<and> valid k u (D k)"
    and fr: "\<forall>k. \<forall>t' \<in> own k. k \<in> fst ` set us \<longrightarrow> fresh v (tier_view L t' s)"
  shows "\<exists>ls s'. mmap (\<lambda>(k, u). mbind (mlift (get_persisted_leaf_payload H t rv (enc k))) (\<lambda>cv.
      mbind (apply_lower k cv u) (\<lambda>h. mreturn (enc k, new_tier_leaf v h)))) us s = (s', Ok ls) \<and>
    map fst ls = map (enc \<circ> fst) us \<and>
    (\<forall>(k, u) \<in> set us. \<exists>x. map_of ls (enc k) = Some x \<and> below s' k x (change u (D k))) \<and>
    only_tiers L (\<Union>(own ` fst ` set us)) s s' \<and> only_new v s s'"
  using M(1) us fr
proof (induction us arbitrary: s)
  case Nil
  then show ?case by (simp add: only_tiers_def only_new_def)
next
  case (Cons ku us)
  obtain k u where ku: "ku = (k, u)" by fastforce
  have k: "key_ok k" "below s k (M (enc k)) (D k)" "valid k u (D k)" using Cons.prems(3) ku by auto
  have "prefix_free (insert (enc k) (dom M))" using M(2) k(1) by (intro keys_prefix_free) blast
  then have read: "get_persisted_leaf_payload H t rv (enc k) s = Ok (map_option snd (M (enc k)))"
    using enc_local [OF k(1)] by (intro payload_read [OF Cons.prems(1)]) simp_all
  have "fresh v (tier_view L t' s)" if "t' \<in> own k" for t' using Cons.prems(4) ku that by auto
  from lower_update [OF k this] obtain h s1 where s1: "apply_lower k (map_option snd (M (enc k))) u s = (s1, Ok h)"
    "below s1 k (new_tier_leaf v h) (change u (D k))" "only_tiers L (own k) s s1" "only_new v s s1" by blast
  have fresh_keys: "k \<notin> fst ` set us" using Cons.prems(2) ku by simp
  have view: "tier_view L t' s1 = tier_view L t' s" if "k' \<noteq> k" "key_ok k'" "t' \<in> own k'" for k' t'
    using s1(3) own_ok own_apart that unfolding only_tiers_def by metis
  have view_t: "tier_view L t s1 = tier_view L t s" using s1(3) own_other t unfolding only_tiers_def by metis
  have ok: "key_ok k'" if "k' \<in> fst ` set us" for k' using Cons.prems(3) that by fastforce
  have "\<exists>ls s'. mmap (\<lambda>(k, u). mbind (mlift (get_persisted_leaf_payload H t rv (enc k))) (\<lambda>cv.
      mbind (apply_lower k cv u) (\<lambda>h. mreturn (enc k, new_tier_leaf v h)))) us s1 = (s', Ok ls) \<and>
    map fst ls = map (enc \<circ> fst) us \<and>
    (\<forall>(k, u) \<in> set us. \<exists>x. map_of ls (enc k) = Some x \<and> below s' k x (change u (D k))) \<and>
    only_tiers L (\<Union>(own ` fst ` set us)) s1 s' \<and> only_new v s1 s'"
  proof (rule Cons.IH)
    show "persisted H (tier_view L t s1) rv M" using Cons.prems(1) view_t by simp
    show "distinct (map fst us)" using Cons.prems(2) by simp
    show "\<forall>(k, u) \<in> set us. key_ok k \<and> below s1 k (M (enc k)) (D k) \<and> valid k u (D k)"
    proof (clarify)
      fix k' u' assume mem: "(k', u') \<in> set us"
      then have "key_ok k'" "below s k' (M (enc k')) (D k')" "valid k' u' (D k')" using Cons.prems(3) by auto
      moreover have "k' \<noteq> k" using fresh_keys mem by force
      ultimately show "key_ok k' \<and> below s1 k' (M (enc k')) (D k') \<and> valid k' u' (D k')" using view below_cong by blast
    qed
    show "\<forall>k. \<forall>t' \<in> own k. k \<in> fst ` set us \<longrightarrow> fresh v (tier_view L t' s1)"
    proof (intro allI ballI impI)
      fix k' t' assume t': "t' \<in> own k'" "k' \<in> fst ` set us"
      then have "k' \<noteq> k" using fresh_keys by blast
      then have "tier_view L t' s1 = tier_view L t' s" using view ok t' by blast
      then show "fresh v (tier_view L t' s1)" using Cons.prems(4) t' by simp
    qed
  qed
  then obtain ls s2 where s2: "mmap (\<lambda>(k, u). mbind (mlift (get_persisted_leaf_payload H t rv (enc k))) (\<lambda>cv.
      mbind (apply_lower k cv u) (\<lambda>h. mreturn (enc k, new_tier_leaf v h)))) us s1 = (s2, Ok ls)"
    "map fst ls = map (enc \<circ> fst) us"
    "\<forall>(k, u) \<in> set us. \<exists>x. map_of ls (enc k) = Some x \<and> below s2 k x (change u (D k))"
    "only_tiers L (\<Union>(own ` fst ` set us)) s1 s2" "only_new v s1 s2" by blast
  let ?ls = "(enc k, new_tier_leaf v h) # ls"
  have run: "mmap (\<lambda>(k, u). mbind (mlift (get_persisted_leaf_payload H t rv (enc k))) (\<lambda>cv.
      mbind (apply_lower k cv u) (\<lambda>h. mreturn (enc k, new_tier_leaf v h)))) (ku # us) s = (s2, Ok ?ls)"
    using read s1(1) s2(1) ku by simp
  have "below s2 k (new_tier_leaf v h) (change u (D k))"
  proof (rule below_cong [OF s1(2)])
    fix t' assume "t' \<in> own k"
    moreover then have "t' \<notin> \<Union>(own ` fst ` set us)" using own_apart fresh_keys by blast
    ultimately show "tier_view L t' s2 = tier_view L t' s1" using s2(4) own_ok k(1) unfolding only_tiers_def by blast
  qed
  moreover have "\<exists>x. map_of ?ls (enc k') = Some x \<and> below s2 k' x (change u' (D k'))" if "(k', u') \<in> set us" for k' u'
  proof -
    have "k' \<noteq> k" using fresh_keys that by force
    then have "enc k' \<noteq> enc k" using enc_inj by blast
    then show ?thesis using s2(3) that by auto
  qed
  ultimately have "\<forall>(k, u) \<in> set (ku # us). \<exists>x. map_of ?ls (enc k) = Some x \<and> below s2 k x (change u (D k))" using ku by auto
  moreover have "only_tiers L (\<Union>(own ` fst ` set (ku # us))) s s2"
    using only_tiers_trans [OF s1(3) s2(4)] ku by simp
  ultimately show ?case using run s2(2) only_new_trans [OF s1(4) s2(5)] ku by fastforce
qed

lemma tier_over_lower:
  assumes t: "tier_ok L t" and H: "no_placeholder H"
    and M: "persisted H (tier_view L t s) rv M" "\<forall>x \<in> dom M. \<exists>k. key_ok k \<and> x = enc k" "\<forall>k. key_ok k \<longrightarrow> below s k (M (enc k)) (D k)"
    and us: "distinct (map fst us)" "\<forall>(k, u) \<in> set us. key_ok k \<and> valid k u (D k)"
    and fr: "fresh v (tier_view L t s)" "\<forall>k. \<forall>t' \<in> own k. key_ok k \<longrightarrow> fresh v (tier_view L t' s)"
  shows "\<exists>h s' M'. mbind (mmap (\<lambda>(k, u). mbind (mlift (get_persisted_leaf_payload H t rv (enc k))) (\<lambda>cv.
        mbind (apply_lower k cv u) (\<lambda>h. mreturn (enc k, new_tier_leaf v h)))) us) (\<lambda>leaf_updates.
      mbind (mlift (generate_tier_update_batch H t rv v leaf_updates)) (\<lambda>batch.
      mbind (apply_tier_update_batch t batch) (\<lambda>_.
      mreturn (new_root_hash batch)))) s = (s', Ok h) \<and>
    stored_tree H (tier_view L t s') v M' \<and> root_matches H M' h \<and> (\<forall>x \<in> dom M'. \<exists>k. key_ok k \<and> x = enc k) \<and>
    (\<forall>k. key_ok k \<longrightarrow> below s' k (M' (enc k)) (changed change us D k)) \<and>
    only_tiers L (insert t (\<Union>(range own))) s s' \<and> only_new v s s'"
proof -
  let ?f = "\<lambda>(k, u). mbind (mlift (get_persisted_leaf_payload H t rv (enc k))) (\<lambda>cv.
        mbind (apply_lower k cv u) (\<lambda>h. mreturn (enc k, new_tier_leaf v h)))"
  have "\<forall>(k, u) \<in> set us. key_ok k \<and> below s k (M (enc k)) (D k) \<and> valid k u (D k)" using us(2) M(3) by blast
  moreover have "\<forall>k. \<forall>t' \<in> own k. k \<in> fst ` set us \<longrightarrow> fresh v (tier_view L t' s)" using fr(2) us(2) by fastforce
  ultimately obtain ls s1 where s1: "mmap ?f us s = (s1, Ok ls)" "map fst ls = map (enc \<circ> fst) us"
    "\<forall>(k, u) \<in> set us. \<exists>x. map_of ls (enc k) = Some x \<and> below s1 k x (change u (D k))"
    "only_tiers L (\<Union>(own ` fst ` set us)) s s1" "only_new v s s1"
    using lower_updates [OF M(1,2) t us(1)] by blast
  have view_t: "tier_view L t s1 = tier_view L t s" using s1(4) own_other t unfolding only_tiers_def by blast
  have keys: "keys_of ls = enc ` fst ` set us" using arg_cong [OF s1(2), of set] by (simp add: image_comp)
  have known: "\<exists>k. key_ok k \<and> x = enc k" if "x \<in> dom M \<union> keys_of ls" for x using that M(2) us(2) unfolding keys by fastforce
  have "\<exists>batch s2. generate_tier_update_batch H t rv v ls s1 = Ok batch \<and> apply_tier_update_batch t batch s1 = (s2, Ok (Some v)) \<and>
    stored_tree H (tier_view L t s2) v (upd M ls) \<and> root_matches H (upd M ls) (new_root_hash batch) \<and>
    batch_ok v (upd M ls) (tree_update_batch batch) \<and> other_tiers L t s1 s2 \<and> only_new v s1 s2"
  proof (rule tier_update [OF t H])
    show "persisted H (tier_view L t s1) rv M" using M(1) view_t by simp
    show "[] \<notin> dom M"
    proof
      assume "[] \<in> dom M"
      then obtain k where "key_ok k" "[] = enc k" using M(2) by blast
      then show False using enc_local by metis
    qed
    have "inj_on enc (fst ` set us)" using enc_inj by (auto intro: inj_onI)
    then show "distinct (map fst ls)" unfolding s1(2) map_map [symmetric] using us(1) by (simp add: distinct_map comp_inj_on)
    show "prefix_free (dom M \<union> keys_of ls)" using known by (rule keys_prefix_free)
    show "\<forall>k \<in> dom M \<union> keys_of ls. local_path L t (key_nibbles k)"
    proof
      fix y assume "y \<in> dom M \<union> keys_of ls"
      then obtain k where "key_ok k" "y = enc k" using known by blast
      then show "local_path L t (key_nibbles y)" using enc_local by simp
    qed
    show "fresh v (tier_view L t s1)" using fr(1) view_t by simp
  qed
  then obtain batch s2 where s2: "generate_tier_update_batch H t rv v ls s1 = Ok batch" "apply_tier_update_batch t batch s1 = (s2, Ok (Some v))"
    "stored_tree H (tier_view L t s2) v (upd M ls)" "root_matches H (upd M ls) (new_root_hash batch)"
    "other_tiers L t s1 s2" "only_new v s1 s2" by blast
  have "mbind (mmap ?f us) (\<lambda>leaf_updates. mbind (mlift (generate_tier_update_batch H t rv v leaf_updates)) (\<lambda>batch.
      mbind (apply_tier_update_batch t batch) (\<lambda>_. mreturn (new_root_hash batch)))) s = (s2, Ok (new_root_hash batch))"
    by (rule trans [OF mbind_apply_Inr [where m = "mmap ?f us", OF s1(1)]]) (use s2(1,2) in simp)
  moreover have "\<forall>x \<in> dom (upd M ls). \<exists>k. key_ok k \<and> x = enc k" using dom_upd [of M ls] known by blast
  moreover have "below s2 k (upd M ls (enc k)) (changed change us D k)" if k: "key_ok k" for k
  proof -
    have view: "tier_view L t' s2 = tier_view L t' s1" if "t' \<in> own k" for t'
      using s2(5) own_ok [OF k that] own_other [OF that] unfolding other_tiers_def by blast
    have "below s1 k (upd M ls (enc k)) (changed change us D k)"
    proof (cases "map_of us k")
      case None
      then have fresh_key: "k \<notin> fst ` set us" by (simp add: map_of_eq_None_iff)
      then have "enc k \<notin> keys_of ls" unfolding keys using enc_inj by blast
      then have "upd M ls (enc k) = M (enc k)" by (simp add: upd_def map_of_eq_None_iff [symmetric])
      moreover have "tier_view L t' s1 = tier_view L t' s" if t': "t' \<in> own k" for t'
      proof -
        have "t' \<notin> \<Union>(own ` fst ` set us)" using own_apart [OF t'] fresh_key by blast
        then show ?thesis using s1(4) own_ok [OF k t'] unfolding only_tiers_def by blast
      qed
      ultimately show ?thesis using None M(3) k below_cong by (simp add: changed_def) blast
    next
      case (Some u)
      then obtain x where "map_of ls (enc k) = Some x" "below s1 k x (change u (D k))" using s1(3) map_of_SomeD by fast
      then show ?thesis using Some by (simp add: changed_def upd_def)
    qed
    then show ?thesis using view by (rule below_cong)
  qed
  moreover have "only_tiers L (insert t (\<Union>(range own))) s s2"
    using only_tiers_trans [OF s1(4) s2(5) [unfolded other_tiers_only]] by (rule only_tiers_mono) blast
  ultimately show ?thesis using s2(3,4) only_new_trans [OF s1(5) s2(6)] by blast
qed

end

section \<open>The content of the tiers\<close>

text \<open>
  The substates of a ledger as a function of entity, partition and sort key; an entity or a partition
  without substates is absent. The trees of the three tiers hold it: the leaf of a partition names the
  root of its substate tree, the leaf of an entity the root of its partition tree.
\<close>

type_synonym partition_content = "sort_key \<rightharpoonup> substate_value"
type_synonym entity_content = "byte \<Rightarrow> partition_content"
type_synonym state_content = "entity_key \<Rightarrow> entity_content"

definition partition_holds :: "hasher \<Rightarrow> nat \<Rightarrow> tree_store \<Rightarrow> entity_key \<Rightarrow> byte \<Rightarrow> (hash \<times> version) option \<Rightarrow> partition_content \<Rightarrow> bool" where
  "partition_holds H L s ek pn x D \<longleftrightarrow> (\<exists>M. tree_under H L (SubstateTier ek pn) s x M \<and> hashes_values H M D)"

definition entity_holds :: "hasher \<Rightarrow> nat \<Rightarrow> tree_store \<Rightarrow> entity_key \<Rightarrow> (hash \<times> version) option \<Rightarrow> entity_content \<Rightarrow> bool" where
  "entity_holds H L s ek x D \<longleftrightarrow> (\<exists>M. tree_under H L (PartitionTier ek) s x M \<and> (\<forall>y \<in> dom M. \<exists>pn. y = [pn]) \<and>
     (\<forall>pn. partition_holds H L s ek pn (M [pn]) (D pn)))"

definition state_holds :: "hasher \<Rightarrow> nat \<Rightarrow> tree_store \<Rightarrow> version option \<Rightarrow> state_content \<Rightarrow> bool" where
  "state_holds H L s rv D \<longleftrightarrow> (\<exists>M. persisted H (tier_view L EntityTier s) rv M \<and> (\<forall>y \<in> dom M. length y = L) \<and>
     (\<forall>ek. length ek = L \<longrightarrow> entity_holds H L s ek (M ek) (D ek)))"

text \<open>
  Updates the tree accepts: no key twice, and no sort key that is empty or the beginning of another
  one of its partition.
\<close>

definition partition_updates_ok :: "partition_database_updates \<Rightarrow> partition_content \<Rightarrow> bool" where
  "partition_updates_ok updates D \<longleftrightarrow> distinct (update_keys updates) \<and>
     [] \<notin> dom D \<union> set (update_keys updates) \<and> prefix_free (dom D \<union> set (update_keys updates))"

definition entity_updates_ok :: "node_database_updates \<Rightarrow> entity_content \<Rightarrow> bool" where
  "entity_updates_ok updates D \<longleftrightarrow> distinct (map fst updates) \<and> (\<forall>(pn, u) \<in> set updates. partition_updates_ok u (D pn))"

definition database_updates_ok :: "nat \<Rightarrow> database_updates \<Rightarrow> state_content \<Rightarrow> bool" where
  "database_updates_ok L updates D \<longleftrightarrow> distinct (map fst updates) \<and>
     (\<forall>(ek, us) \<in> set updates. length ek = L \<and> entity_updates_ok us (D ek))"

definition apply_entity_changes :: "node_database_updates \<Rightarrow> entity_content \<Rightarrow> entity_content" where
  "apply_entity_changes = changed apply_changes"

definition apply_database_changes :: "database_updates \<Rightarrow> state_content \<Rightarrow> state_content" where
  "apply_database_changes = changed apply_entity_changes"

lemma partition_holds_update:
  assumes "length ek = L" "partition_holds H L s ek pn x D" "no_placeholder H" "partition_updates_ok u D"
    "fresh v (tier_view L (SubstateTier ek pn) s)"
  shows "\<exists>h s'. apply_partition_updates H ek pn (map_option snd x) v u s = (s', Ok h) \<and>
    partition_holds H L s' ek pn (new_tier_leaf v h) (apply_changes u D) \<and>
    only_tiers L {SubstateTier ek pn} s s' \<and> only_new v s s'"
proof -
  obtain M where M: "tree_under H L (SubstateTier ek pn) s x M" "hashes_values H M D" using assms(2) by (auto simp: partition_holds_def)
  have "[] \<notin> dom D" "distinct (update_keys u)" "prefix_free (dom D \<union> set (update_keys u))"
    using assms(4) by (simp_all add: partition_updates_ok_def)
  from partition_update [OF assms(1,3) tree_under_persisted [OF M(1)] M(2) this assms(5)]
  obtain h s' M' where "apply_partition_updates H ek pn (map_option snd x) v u s = (s', Ok h)"
    "stored_tree H (tier_view L (SubstateTier ek pn) s') v M'" "hashes_values H M' (apply_changes u D)" "root_matches H M' h"
    "other_tiers L (SubstateTier ek pn) s s'" "only_new v s s'" by blast
  then show ?thesis unfolding partition_holds_def other_tiers_only using tree_under_new by blast
qed

interpretation partitions: lower_tiers H L v "PartitionTier ek" "\<lambda>pn. length ek = L" "\<lambda>pn. [pn]"
    "\<lambda>pn. {SubstateTier ek pn}" "\<lambda>s. partition_holds H L s ek"
    "\<lambda>pn u D. no_placeholder H \<and> partition_updates_ok u D" apply_changes "\<lambda>pn rv. apply_partition_updates H ek pn rv v"
  for H L v ek
proof unfold_locales
  fix s k x d s' assume "partition_holds H L s ek k x d" "\<And>t'. t' \<in> {SubstateTier ek k} \<Longrightarrow> tier_view L t' s' = tier_view L t' s"
  then show "partition_holds H L s' ek k x d" by (simp add: partition_holds_def tree_under_cong [of L _ s' s])
next
  fix k s x d u
  assume "length ek = L" "partition_holds H L s ek k x d" "no_placeholder H \<and> partition_updates_ok u d"
    "\<And>t'. t' \<in> {SubstateTier ek k} \<Longrightarrow> fresh v (tier_view L t' s)"
  then show "\<exists>h s'. apply_partition_updates H ek k (map_option snd x) v u s = (s', Ok h) \<and>
      partition_holds H L s' ek k (new_tier_leaf v h) (apply_changes u d) \<and> only_tiers L {SubstateTier ek k} s s' \<and> only_new v s s'"
    by (intro partition_holds_update) simp_all
qed auto

text \<open>The tiers of an entity.\<close>

definition entity_tiers :: "entity_key \<Rightarrow> tier set" where
  "entity_tiers ek = insert (PartitionTier ek) (range (SubstateTier ek))"

lemma entity_holds_update:
  assumes L: "length ek = L" and hold: "entity_holds H L s ek x D" and H: "no_placeholder H" and us: "entity_updates_ok us D"
    and fr: "\<And>t'. t' \<in> entity_tiers ek \<Longrightarrow> fresh v (tier_view L t' s)"
  shows "\<exists>h s'. apply_entity_updates H ek (map_option snd x) v us s = (s', Ok h) \<and>
    entity_holds H L s' ek (new_tier_leaf v h) (apply_entity_changes us D) \<and>
    only_tiers L (entity_tiers ek) s s' \<and> only_new v s s'"
proof -
  let ?t = "PartitionTier ek"
  obtain M where M: "tree_under H L ?t s x M" "\<forall>y \<in> dom M. \<exists>pn. y = [pn]" "\<forall>pn. partition_holds H L s ek pn (M [pn]) (D pn)"
    using hold unfolding entity_holds_def by blast
  have "\<exists>h s' M'. apply_entity_updates H ek (map_option snd x) v us s = (s', Ok h) \<and>
    stored_tree H (tier_view L ?t s') v M' \<and> root_matches H M' h \<and> (\<forall>y \<in> dom M'. \<exists>pn. length ek = L \<and> y = [pn]) \<and>
    (\<forall>pn. length ek = L \<longrightarrow> partition_holds H L s' ek pn (M' [pn]) (changed apply_changes us D pn)) \<and>
    only_tiers L (insert ?t (\<Union>(range (\<lambda>pn. {SubstateTier ek pn})))) s s' \<and> only_new v s s'"
    unfolding apply_entity_updates_def Let_def
  proof (rule partitions.tier_over_lower [OF _ H tree_under_persisted [OF M(1)]])
    show "\<forall>(pn, u) \<in> set us. length ek = L \<and> no_placeholder H \<and> partition_updates_ok u (D pn)" and "distinct (map fst us)"
      using us L H by (auto simp: entity_updates_ok_def)
  qed (use M fr L in \<open>simp_all add: entity_tiers_def\<close>)
  then obtain h s' M' where s': "apply_entity_updates H ek (map_option snd x) v us s = (s', Ok h)"
    "stored_tree H (tier_view L ?t s') v M'" "root_matches H M' h" "\<forall>y \<in> dom M'. \<exists>pn. y = [pn]"
    "\<forall>pn. partition_holds H L s' ek pn (M' [pn]) (apply_entity_changes us D pn)"
    "only_tiers L (insert ?t (\<Union>(range (\<lambda>pn. {SubstateTier ek pn})))) s s'" "only_new v s s'"
    unfolding apply_entity_changes_def using L by (elim exE conjE) simp
  have "insert ?t (\<Union>(range (\<lambda>pn. {SubstateTier ek pn}))) = entity_tiers ek" by (auto simp: entity_tiers_def)
  then have frame: "only_tiers L (entity_tiers ek) s s'" using s'(6) by simp
  have "entity_holds H L s' ek (new_tier_leaf v h) (apply_entity_changes us D)"
    unfolding entity_holds_def using s'(4,5) tree_under_new [OF s'(2,3)] by (intro exI [of _ M']) simp
  then show ?thesis using s'(1,7) frame by blast
qed

interpretation entities: lower_tiers H L v EntityTier "\<lambda>ek. length ek = L \<and> 0 < L \<and> L < 500" "\<lambda>ek. ek"
    entity_tiers "entity_holds H L" "\<lambda>ek us D. no_placeholder H \<and> entity_updates_ok us D" apply_entity_changes
    "\<lambda>ek rv. apply_entity_updates H ek rv v"
  for H L v
proof unfold_locales
  fix s k x d s' assume h: "entity_holds H L s k x d" and v: "\<And>t'. t' \<in> entity_tiers k \<Longrightarrow> tier_view L t' s' = tier_view L t' s"
  have p: "tier_view L (PartitionTier k) s' = tier_view L (PartitionTier k) s" by (rule v) (simp add: entity_tiers_def)
  have q: "tier_view L (SubstateTier k pn) s' = tier_view L (SubstateTier k pn) s" for pn by (rule v) (simp add: entity_tiers_def)
  show "entity_holds H L s' k x d" using h unfolding entity_holds_def partition_holds_def tree_under_cong [OF p] tree_under_cong [OF q] .
next
  fix k s x d u
  assume "length k = L \<and> 0 < L \<and> L < 500" "entity_holds H L s k x d" "no_placeholder H \<and> entity_updates_ok u d"
    "\<And>t'. t' \<in> entity_tiers k \<Longrightarrow> fresh v (tier_view L t' s)"
  then show "\<exists>h s'. apply_entity_updates H k (map_option snd x) v u s = (s', Ok h) \<and>
      entity_holds H L s' k (new_tier_leaf v h) (apply_entity_changes u d) \<and> only_tiers L (entity_tiers k) s s' \<and> only_new v s s'"
    by (intro entity_holds_update) simp_all
qed (auto simp: entity_tiers_def)

section \<open>The root of the state\<close>

text \<open>The nested Merkle root over a listing of the substates, in any order.\<close>

definition partition_root :: "hasher \<Rightarrow> (sort_key \<times> substate_value) list \<Rightarrow> hash" where
  "partition_root H vs = sparse_root H (map (\<lambda>(k, x). (iter_bits k, H (k @ H x))) vs)"

definition entity_root :: "hasher \<Rightarrow> (byte \<times> (sort_key \<times> substate_value) list) list \<Rightarrow> hash" where
  "entity_root H ps = sparse_root H (map (\<lambda>(pn, vs). (iter_bits [pn], H ([pn] @ partition_root H vs))) ps)"

definition state_root :: "hasher \<Rightarrow> (entity_key \<times> (byte \<times> (sort_key \<times> substate_value) list) list) list \<Rightarrow> hash" where
  "state_root H es = sparse_root H (map (\<lambda>(ek, ps). (iter_bits ek, H (ek @ entity_root H ps))) es)"

definition lists_partition :: "(sort_key \<times> substate_value) list \<Rightarrow> partition_content \<Rightarrow> bool" where
  "lists_partition vs D \<longleftrightarrow> distinct (map fst vs) \<and> map_of vs = D"

definition lists_entity :: "(byte \<times> (sort_key \<times> substate_value) list) list \<Rightarrow> entity_content \<Rightarrow> bool" where
  "lists_entity ps D \<longleftrightarrow> distinct (map fst ps) \<and> (\<forall>(pn, vs) \<in> set ps. vs \<noteq> [] \<and> lists_partition vs (D pn)) \<and>
     (\<forall>pn. pn \<notin> fst ` set ps \<longrightarrow> D pn = Map.empty)"

definition lists_state :: "nat \<Rightarrow> (entity_key \<times> (byte \<times> (sort_key \<times> substate_value) list) list) list \<Rightarrow> state_content \<Rightarrow> bool" where
  "lists_state L es D \<longleftrightarrow> distinct (map fst es) \<and> (\<forall>(ek, ps) \<in> set es. length ek = L \<and> ps \<noteq> [] \<and> lists_entity ps (D ek)) \<and>
     (\<forall>ek. length ek = L \<and> ek \<notin> fst ` set es \<longrightarrow> D ek = (\<lambda>_. Map.empty))"

lemma root_hash_listing:
  assumes "is_root_hash H M h" "distinct ks" "set ks = dom M"
  shows "h = sparse_root H (map (\<lambda>k. (iter_bits k, H (k @ fst (the (M k))))) ks)"
proof -
  let ?es = "map (\<lambda>k. (k, the (M k))) ks"
  have "map_of ?es k = M k" for k
    using assms(3) by (cases "M k") (auto simp: map_of_map_restrict restrict_map_def)
  then have "map_of ?es = M" by blast
  moreover have "distinct (map fst ?es)" using assms(2) by (simp add: o_def)
  ultimately have "h = sparse_root H (map (leaf_entry H 0) ?es)" using assms(1) unfolding is_root_hash_def by blast
  then show ?thesis by (simp add: leaf_entry_def o_def)
qed

lemma partition_holds_root:
  assumes "partition_holds H L s ek pn x D" "lists_partition vs D"
  shows "map_option fst x = (if vs = [] then None else Some (partition_root H vs))"
proof -
  obtain M where M: "tree_under H L (SubstateTier ek pn) s x M" "hashes_values H M D" using assms(1) by (auto simp: partition_holds_def)
  have vs: "distinct (map fst vs)" "map_of vs = D" using assms(2) by (simp_all add: lists_partition_def)
  have keys: "set (map fst vs) = dom M" using hashes_values_dom [OF M(2)] vs(2) dom_map_of_conv_image_fst [of vs] by simp
  show ?thesis
  proof (cases x)
    case None
    then have "dom M = {}" using M(1) by (simp add: tree_under_def)
    then show ?thesis using keys None by simp
  next
    case (Some hu)
    then have h: "is_root_hash H M (fst hu)" "dom M \<noteq> {}" using M(1) by (auto simp: tree_under_def)
    have "fst (the (M k)) = H y" if "(k, y) \<in> set vs" for k y
    proof -
      have "D k = Some y" using that vs by auto
      moreover from this have "map_option fst (M k) = Some (H y)" using M(2) unfolding hashes_values_def by simp
      ultimately show ?thesis by (cases "M k") simp_all
    qed
    then have "fst (the (M (fst e))) = H (snd e)" if "e \<in> set vs" for e using that by simp
    then have "map (\<lambda>k. (iter_bits k, H (k @ fst (the (M k))))) (map fst vs) = map (\<lambda>(k, y). (iter_bits k, H (k @ H y))) vs"
      by (simp add: split_beta)
    from root_hash_listing [OF h(1) vs(1) keys, unfolded this] have "fst hu = partition_root H vs" unfolding partition_root_def .
    moreover have "vs \<noteq> []" using h(2) keys [symmetric] by (cases vs) simp_all
    ultimately show ?thesis using Some by simp
  qed
qed

lemma entity_holds_root:
  assumes "entity_holds H L s ek x D" "lists_entity ps D"
  shows "map_option fst x = (if ps = [] then None else Some (entity_root H ps))"
proof -
  obtain M where M: "tree_under H L (PartitionTier ek) s x M" "\<forall>y \<in> dom M. \<exists>pn. y = [pn]"
    "\<forall>pn. partition_holds H L s ek pn (M [pn]) (D pn)" using assms(1) unfolding entity_holds_def by blast
  have ps: "distinct (map fst ps)" "\<forall>(pn, vs) \<in> set ps. vs \<noteq> [] \<and> lists_partition vs (D pn)" "\<forall>pn. pn \<notin> fst ` set ps \<longrightarrow> D pn = Map.empty"
    using assms(2) unfolding lists_entity_def by blast+
  have root: "map_option fst (M [pn]) = Some (partition_root H vs)" if "(pn, vs) \<in> set ps" for pn vs
    using partition_holds_root [of H L s ek pn "M [pn]" "D pn" vs] M(3) ps(2) that by auto
  have none: "M [pn] = None" if "pn \<notin> fst ` set ps" for pn
  proof -
    have "lists_partition [] (D pn)" using ps(3) that by (simp add: lists_partition_def)
    from partition_holds_root [OF spec [OF M(3)] this] show ?thesis by simp
  qed
  have keys: "set (map (\<lambda>p. [fst p]) ps) = dom M"
  proof
    show "set (map (\<lambda>p. [fst p]) ps) \<subseteq> dom M" using root by fastforce
    show "dom M \<subseteq> set (map (\<lambda>p. [fst p]) ps)"
    proof
      fix y assume y: "y \<in> dom M"
      then obtain pn where "y = [pn]" using M(2) by blast
      then have "pn \<in> fst ` set ps" using none y by (cases "pn \<in> fst ` set ps") auto
      then show "y \<in> set (map (\<lambda>p. [fst p]) ps)" using \<open>y = [pn]\<close> by auto
    qed
  qed
  have dist: "distinct (map (\<lambda>p. [fst p]) ps)" using ps(1) by (simp add: distinct_map inj_on_def)
  show ?thesis
  proof (cases x)
    case None
    then have "dom M = {}" using M(1) by (simp add: tree_under_def)
    then show ?thesis using keys None by simp
  next
    case (Some hu)
    then have h: "is_root_hash H M (fst hu)" "dom M \<noteq> {}" using M(1) by (auto simp: tree_under_def)
    have "fst (the (M [fst p])) = partition_root H (snd p)" if "p \<in> set ps" for p
      using root [of "fst p" "snd p"] that by (cases "M [fst p]") auto
    then have "map (\<lambda>k. (iter_bits k, H (k @ fst (the (M k))))) (map (\<lambda>p. [fst p]) ps) =
        map (\<lambda>(pn, vs). (iter_bits [pn], H ([pn] @ partition_root H vs))) ps" by (simp add: split_beta)
    from root_hash_listing [OF h(1) dist keys, unfolded this] have "fst hu = entity_root H ps" unfolding entity_root_def .
    moreover have "ps \<noteq> []" using h(2) keys [symmetric] by (cases ps) simp_all
    ultimately show ?thesis using Some by simp
  qed
qed

text \<open>What a tree holds can be listed.\<close>

lemma partition_holds_lists: "partition_holds H L s ek pn x D \<Longrightarrow> \<exists>vs. lists_partition vs D"
proof -
  assume "partition_holds H L s ek pn x D"
  then obtain M where M: "tree_under H L (SubstateTier ek pn) s x M" "hashes_values H M D" by (auto simp: partition_holds_def)
  have "finite (dom M)" using M(1) stored_tree_finite by (cases x) (auto simp: tree_under_def)
  then have "finite (dom D)" using hashes_values_dom [OF M(2)] by simp
  from listing_exists [OF this] show ?thesis by (simp add: lists_partition_def)
qed

lemma entity_holds_lists: "entity_holds H L s ek x D \<Longrightarrow> \<exists>ps. lists_entity ps D"
proof -
  assume "entity_holds H L s ek x D"
  then have "\<exists>vs. lists_partition vs (D pn)" for pn unfolding entity_holds_def using partition_holds_lists by blast
  then obtain f where f: "\<And>pn. lists_partition (f pn) (D pn)" by metis
  obtain pns :: "byte list" where pns: "set pns = {pn. f pn \<noteq> []}" "distinct pns" using finite_distinct_list [of "{pn. f pn \<noteq> []}"] by auto
  have "D pn = Map.empty" if "f pn = []" for pn using f [of pn] that by (simp add: lists_partition_def)
  then have "lists_entity (map (\<lambda>pn. (pn, f pn)) pns) D" using pns f unfolding lists_entity_def by (simp add: o_def image_image)
  then show ?thesis by blast
qed

lemma state_holds_lists:
  assumes "state_holds H L s rv D"
  shows "\<exists>es. lists_state L es D"
proof -
  obtain M where M: "persisted H (tier_view L EntityTier s) rv M" "\<forall>y \<in> dom M. length y = L"
    "\<And>ek. length ek = L \<Longrightarrow> entity_holds H L s ek (M ek) (D ek)" using assms unfolding state_holds_def by blast
  have fin: "finite (dom M)" using M(1) stored_tree_finite by (cases rv) (auto simp: persisted_def)
  have "\<exists>ps. lists_entity ps (D ek)" if "length ek = L" for ek using M(3) [OF that] by (rule entity_holds_lists)
  then obtain f where f: "\<And>ek. length ek = L \<Longrightarrow> lists_entity (f ek) (D ek)" by metis
  have some: "f ek \<noteq> [] \<longleftrightarrow> ek \<in> dom M" if "length ek = L" for ek
    using entity_holds_root [OF M(3) [OF that] f [OF that]] by (cases "M ek") (auto split: if_splits)
  obtain eks where eks: "set eks = dom M" "distinct eks" using finite_distinct_list [OF fin] by auto
  have "D ek = (\<lambda>_. Map.empty)" if "length ek = L" "f ek = []" for ek using f [OF that(1)] that(2) by (auto simp: lists_entity_def)
  then have "D ek = (\<lambda>_. Map.empty)" if "length ek = L" "ek \<notin> set eks" for ek using that some eks(1) by blast
  moreover have "length ek = L \<and> f ek \<noteq> [] \<and> lists_entity (f ek) (D ek)" if "ek \<in> set eks" for ek
    using that eks(1) some f M(2) by simp
  ultimately have "lists_state L (map (\<lambda>ek. (ek, f ek)) eks) D"
    using eks(2) unfolding lists_state_def by (simp add: o_def image_image)
  then show ?thesis by blast
qed

text \<open>The entries of the entity tier, from which its root is computed.\<close>

lemma state_holds_root:
  assumes M: "is_root_hash H M h" "\<forall>y \<in> dom M. length y = L" "\<And>ek. length ek = L \<Longrightarrow> entity_holds H L s ek (M ek) (D ek)"
    and es: "lists_state L es D"
  shows "h = state_root H es"
proof -
  note ls = conjunct1 [OF es [unfolded lists_state_def]] conjunct1 [OF conjunct2 [OF es [unfolded lists_state_def]]]
    conjunct2 [OF conjunct2 [OF es [unfolded lists_state_def]]]
  have root: "map_option fst (M ek) = Some (entity_root H ps)" if e: "(ek, ps) \<in> set es" for ek ps
  proof -
    have "length ek = L" "ps \<noteq> []" "lists_entity ps (D ek)" using ls(2) e by auto
    then show ?thesis using entity_holds_root [OF M(3)] by simp
  qed
  have none: "M ek = None" if "length ek = L" "ek \<notin> fst ` set es" for ek
  proof -
    have "lists_entity [] (D ek)" using ls(3) that by (simp add: lists_entity_def)
    from entity_holds_root [OF M(3) [OF that(1)] this] show ?thesis by simp
  qed
  have keys: "set (map fst es) = dom M"
  proof
    show "set (map fst es) \<subseteq> dom M" using root by fastforce
    show "dom M \<subseteq> set (map fst es)"
    proof
      fix ek assume ek: "ek \<in> dom M"
      then have "length ek = L" using M(2) by blast
      then show "ek \<in> set (map fst es)" using none [of ek] ek by (cases "ek \<in> set (map fst es)") auto
    qed
  qed
  have "fst (the (M (fst e))) = entity_root H (snd e)" if "e \<in> set es" for e
    using root [of "fst e" "snd e"] that by (cases "M (fst e)") auto
  then have "map (\<lambda>k. (iter_bits k, H (k @ fst (the (M k))))) (map fst es) =
      map (\<lambda>(ek, ps). (iter_bits ek, H (ek @ entity_root H ps))) es" by (simp add: split_beta)
  from root_hash_listing [OF M(1) ls(1) keys, unfolded this] show ?thesis unfolding state_root_def .
qed


section \<open>The next version\<close>

definition next_version :: "version option \<Rightarrow> version" where
  "next_version rv = (case rv of Some v \<Rightarrow> v | None \<Rightarrow> 0) + 1"

text \<open>No node of a store has a version yet to come.\<close>

definition versions_below :: "version \<Rightarrow> tree_store \<Rightarrow> bool" where
  "versions_below v s \<longleftrightarrow> (\<forall>k. fmlookup (tree_nodes s) k \<noteq> None \<longrightarrow> key_version k < v)"

lemma versions_below_fresh: "versions_below v s \<Longrightarrow> fresh v (tier_view L t s)"
proof -
  assume "versions_below v s"
  then have "fmlookup (tree_nodes s) (node_key v ms) \<noteq> None \<longrightarrow> key_version (node_key v ms) < v" for ms
    unfolding versions_below_def by blast
  then have "fmlookup (tree_nodes s) (node_key v ms) = None" for ms by simp
  then show ?thesis by (simp add: fresh_def view_at)
qed

lemma put_at_next_version_runs:
  assumes L: "0 < L" "L < 500" and H: "no_placeholder H" and D: "state_holds H L s rv D"
    and us: "database_updates_ok L us D" and vs: "versions_below (next_version rv) s"
  shows "\<exists>h s'. put_at_next_version H rv us s = (s', Ok h) \<and>
    state_holds H L s' (Some (next_version rv)) (apply_database_changes us D) \<and>
    (\<forall>es. lists_state L es (apply_database_changes us D) \<longrightarrow> h = state_root H es) \<and>
    versions_below (next_version rv + 1) s' \<and> only_new (next_version rv) s s'"
proof -
  let ?v = "next_version rv" and ?D = "apply_database_changes us D"
  obtain M where M: "persisted H (tier_view L EntityTier s) rv M" "\<forall>y \<in> dom M. length y = L"
    "\<forall>ek. length ek = L \<longrightarrow> entity_holds H L s ek (M ek) (D ek)" using D unfolding state_holds_def by blast
  have "\<exists>h s' M'. put_entity_updates H rv ?v us s = (s', Ok h) \<and>
    stored_tree H (tier_view L EntityTier s') ?v M' \<and> root_matches H M' h \<and> (\<forall>y \<in> dom M'. \<exists>ek. (length ek = L \<and> 0 < L \<and> L < 500) \<and> y = ek) \<and>
    (\<forall>ek. length ek = L \<and> 0 < L \<and> L < 500 \<longrightarrow> entity_holds H L s' ek (M' ek) (changed apply_entity_changes us D ek)) \<and>
    only_tiers L (insert EntityTier (\<Union>(range entity_tiers))) s s' \<and> only_new ?v s s'"
    unfolding put_entity_updates_def
  proof (rule entities.tier_over_lower [OF _ H M(1)])
    show "\<forall>(ek, u) \<in> set us. (length ek = L \<and> 0 < L \<and> L < 500) \<and> no_placeholder H \<and> entity_updates_ok u (D ek)" and "distinct (map fst us)"
      using us L H by (auto simp: database_updates_ok_def)
  qed (use M L versions_below_fresh [OF vs] in simp_all)
  then obtain h s' M' where s': "put_entity_updates H rv ?v us s = (s', Ok h)"
    "stored_tree H (tier_view L EntityTier s') ?v M'" "root_matches H M' h" "\<forall>y \<in> dom M'. length y = L"
    "\<forall>ek. length ek = L \<longrightarrow> entity_holds H L s' ek (M' ek) (?D ek)" "only_new ?v s s'"
    unfolding apply_database_changes_def using L by (elim exE conjE) auto
  define r where "r = (case h of Some h \<Rightarrow> h | None \<Rightarrow> SPARSE_MERKLE_PLACEHOLDER_HASH)"
  have "put_at_next_version H rv us s = (s', Ok r)"
    using s'(1) unfolding put_at_next_version_def put_next_version_entity_updates_def next_version_def r_def by simp
  moreover have "is_root_hash H M' r" using s'(3) by (cases h) (auto simp: root_matches_def r_def is_root_hash_def)
  then have "\<forall>es. lists_state L es ?D \<longrightarrow> r = state_root H es" using state_holds_root [OF _ s'(4)] s'(5) by blast
  moreover have "state_holds H L s' (Some ?v) ?D" unfolding state_holds_def persisted_def using s'(2,4,5) by auto
  moreover have "versions_below (?v + 1) s'" using vs s'(6) unfolding versions_below_def only_new_def by (metis less_Suc_eq Suc_eq_plus1)
  ultimately show ?thesis using s'(6) by blast
qed

text \<open>Content that a larger store still holds.\<close>

lemma tree_under_mono:
  "tree_under H L t s x M \<Longrightarrow> (\<And>k y. tier_view L t s k = Some y \<Longrightarrow> tier_view L t s' k = Some y) \<Longrightarrow> tree_under H L t s' x M"
  unfolding tree_under_def by (auto split: option.splits intro: stored_tree_mono)

lemma state_holds_mono:
  assumes "state_holds H L s rv D" "\<And>k y. fmlookup (tree_nodes s) k = Some y \<Longrightarrow> fmlookup (tree_nodes s') k = Some y"
  shows "state_holds H L s' rv D"
proof -
  have view: "tier_view L t s' k = Some y" if "tier_view L t s k = Some y" for t k y
    using that assms(2) unfolding tier_view_def restrict_map_def get_node_option_def get_local_node_def by (auto split: if_splits)
  have part: "partition_holds H L s' ek pn x P" if "partition_holds H L s ek pn x P" for ek pn x P
    using that tree_under_mono view unfolding partition_holds_def by blast
  have ent: "entity_holds H L s' ek x E" if e: "entity_holds H L s ek x E" for ek x E
  proof -
    obtain M where M: "tree_under H L (PartitionTier ek) s x M" "\<forall>y \<in> dom M. \<exists>pn. y = [pn]"
      "\<forall>pn. partition_holds H L s ek pn (M [pn]) (E pn)" using e unfolding entity_holds_def by blast
    have "tree_under H L (PartitionTier ek) s' x M" using M(1) view by (rule tree_under_mono)
    then show ?thesis unfolding entity_holds_def using M(2) part [OF spec [OF M(3)]] by (intro exI [of _ M]) simp
  qed
  obtain M where M: "persisted H (tier_view L EntityTier s) rv M" "\<forall>y \<in> dom M. length y = L"
    "\<forall>ek. length ek = L \<longrightarrow> entity_holds H L s ek (M ek) (D ek)" using assms(1) unfolding state_holds_def by blast
  have "persisted H (tier_view L EntityTier s') rv M"
    using M(1) view by (cases rv) (auto simp: persisted_def intro: stored_tree_mono)
  then show ?thesis using M(2,3) ent unfolding state_holds_def by blast
qed

lemma new_store_holds: "state_holds H L TreeStore_new None (\<lambda>_ _. Map.empty)" "versions_below v TreeStore_new"
  by (auto simp: state_holds_def persisted_def entity_holds_def partition_holds_def tree_under_def hashes_values_def
    versions_below_def TreeStore_new_def intro!: exI [of _ Map.empty])

text \<open>A concrete update, for the witnesses: one substate of one partition of one entity.\<close>

definition sample_updates :: database_updates where
  "sample_updates = [([7], [(3, Delta [([9], SetValue [1])])])]"

definition sample_reset :: database_updates where
  "sample_reset = [([7], [(3, Reset [([9], [1])])])]"

lemma sample_facts:
  shows "no_placeholder (\<lambda>x. 1 # x)" "database_updates_ok 1 sample_updates (\<lambda>_ _. Map.empty)" "database_updates_ok 1 sample_reset (\<lambda>_ _. Map.empty)"
    and "apply_database_changes sample_updates (\<lambda>_ _. Map.empty) = apply_database_changes sample_reset (\<lambda>_ _. Map.empty)"
    and "database_updates_ok 1 sample_reset (apply_database_changes sample_updates (\<lambda>_ _. Map.empty))"
  by (auto simp: no_placeholder_def SPARSE_MERKLE_PLACEHOLDER_HASH_def sample_updates_def sample_reset_def database_updates_ok_def
    entity_updates_ok_def partition_updates_ok_def prefix_free_def apply_database_changes_def apply_entity_changes_def changed_def
    apply_changes_def fun_eq_iff dom_def numeral_eq_Suc split: option.split)


section \<open>The claims\<close>

text \<open>
  C4. \<^verbatim>\<open>put_at_next_version\<close> refines the update of the substates: from a store whose three tiers hold the
  content \<open>D\<close>, it succeeds, the store then holds the updated content at the next version, and the
  returned hash is the nested Merkle root over any listing of that content (there is one).
\<close>

theorem put_at_next_version_refines:
  assumes "0 < L" "L < 500" and "no_placeholder H" and "state_holds H L s rv D"
    and "database_updates_ok L us D" and "versions_below (next_version rv) s"
  shows "\<exists>h s'. put_at_next_version H rv us s = (s', Ok h) \<and>
    state_holds H L s' (Some (next_version rv)) (apply_database_changes us D) \<and>
    versions_below (next_version (Some (next_version rv))) s' \<and>
    (\<exists>es. lists_state L es (apply_database_changes us D)) \<and>
    (\<forall>es. lists_state L es (apply_database_changes us D) \<longrightarrow> h = state_root H es)"
proof -
  obtain h s' where s': "put_at_next_version H rv us s = (s', Ok h)"
    "state_holds H L s' (Some (next_version rv)) (apply_database_changes us D)"
    "\<forall>es. lists_state L es (apply_database_changes us D) \<longrightarrow> h = state_root H es" "versions_below (next_version rv + 1) s'"
    using put_at_next_version_runs [OF assms] by blast
  moreover have "next_version (Some (next_version rv)) = next_version rv + 1" by (simp add: next_version_def)
  ultimately show ?thesis using state_holds_lists [OF s'(2)] by auto
qed

theorem put_at_next_version_refines_witness:
  "\<exists>h s'. put_at_next_version (\<lambda>x. 1 # x) None sample_updates TreeStore_new = (s', Ok h) \<and>
    state_holds (\<lambda>x. 1 # x) 1 s' (Some 1) (apply_database_changes sample_updates (\<lambda>_ _. Map.empty)) \<and>
    h = state_root (\<lambda>x. 1 # x) [([7], [(3, [([9], [1])])])]"
proof -
  have "lists_state 1 [([7], [(3, [([9], [1])])])] (apply_database_changes sample_updates (\<lambda>_ _. Map.empty))"
    by (auto simp: lists_state_def lists_entity_def lists_partition_def sample_updates_def apply_database_changes_def
      apply_entity_changes_def changed_def apply_changes_def fun_eq_iff)
  moreover have "next_version None = 1" by (simp add: next_version_def)
  ultimately show ?thesis
    using put_at_next_version_refines [OF _ _ sample_facts(1) new_store_holds(1) sample_facts(2) new_store_holds(2)] by auto
qed

text \<open>
  C38. The state root depends on the substates only, not on the updates that led to them: two runs of
  \<^verbatim>\<open>put_at_next_version\<close> from any two stores, at any versions, whose updated contents agree return the
  same hash.
\<close>

theorem state_root_history_independent:
  assumes "0 < L" "L < 500" and "no_placeholder H"
    and "state_holds H L s rv D" "database_updates_ok L us D" "versions_below (next_version rv) s"
    and "state_holds H L s2 rv2 D2" "database_updates_ok L us2 D2" "versions_below (next_version rv2) s2"
    and "apply_database_changes us D = apply_database_changes us2 D2"
  shows "\<exists>h. snd (put_at_next_version H rv us s) = Ok h \<and> snd (put_at_next_version H rv2 us2 s2) = Ok h"
proof -
  obtain h s' where s': "put_at_next_version H rv us s = (s', Ok h)"
    "state_holds H L s' (Some (next_version rv)) (apply_database_changes us D)"
    "\<forall>es. lists_state L es (apply_database_changes us D) \<longrightarrow> h = state_root H es"
    using put_at_next_version_runs [OF assms(1-6)] by blast
  obtain h2 s2' where s2': "put_at_next_version H rv2 us2 s2 = (s2', Ok h2)"
    "\<forall>es. lists_state L es (apply_database_changes us2 D2) \<longrightarrow> h2 = state_root H es"
    using put_at_next_version_runs [OF assms(1-3,7-9)] by blast
  obtain es where "lists_state L es (apply_database_changes us D)" using state_holds_lists [OF s'(2)] by blast
  then have "h = h2" using s'(3) s2'(2) assms(10) by simp
  then show ?thesis using s'(1) s2'(1) by simp
qed

theorem state_root_history_independent_witness:
  "\<exists>h. snd (put_at_next_version (\<lambda>x. 1 # x) None sample_updates TreeStore_new) = Ok h \<and>
    snd (put_at_next_version (\<lambda>x. 1 # x) None sample_reset TreeStore_new) = Ok h"
  using state_root_history_independent [OF _ _ sample_facts(1) new_store_holds(1) sample_facts(2) new_store_holds(2)
    new_store_holds(1) sample_facts(3) new_store_holds(2) sample_facts(4)] by simp

text \<open>
  C39. Without pruning, older versions stay readable: what the store held at a version it still holds at
  that version after \<^verbatim>\<open>put_at_next_version\<close>.
\<close>

theorem old_versions_kept:
  assumes "0 < L" "L < 500" and "no_placeholder H" and "state_holds H L s rv D"
    and "database_updates_ok L us D" and "versions_below (next_version rv) s"
    and "\<not> pruning_enabled s" and "state_holds H L s old D_old"
  shows "state_holds H L (fst (put_at_next_version H rv us s)) old D_old"
proof -
  obtain h s' where s': "put_at_next_version H rv us s = (s', Ok h)" "only_new (next_version rv) s s'"
    using put_at_next_version_runs [OF assms(1-6)] by blast
  have "fmlookup (tree_nodes s') k = Some y" if y: "fmlookup (tree_nodes s) k = Some y" for k y
  proof -
    have "key_version k < next_version rv" using assms(6) y unfolding versions_below_def by auto
    then show ?thesis using s'(2) assms(7) y unfolding only_new_def by simp
  qed
  from state_holds_mono [OF assms(8) this] show ?thesis using s'(1) by simp
qed

theorem old_versions_kept_witness:
  "\<exists>h s1. put_at_next_version (\<lambda>x. 1 # x) None sample_updates TreeStore_new = (s1, Ok h) \<and>
    state_holds (\<lambda>x. 1 # x) 1 (fst (put_at_next_version (\<lambda>x. 1 # x) (Some 1) sample_reset s1)) (Some 1)
      (apply_database_changes sample_updates (\<lambda>_ _. Map.empty))"
proof -
  let ?H = "\<lambda>x :: byte list. 1 # x" and ?D = "apply_database_changes sample_updates (\<lambda>_ _. Map.empty)"
  have v: "next_version None = 1" "next_version (Some 1) = 1 + 1" by (simp_all add: next_version_def)
  obtain h s1 where s1: "put_at_next_version ?H None sample_updates TreeStore_new = (s1, Ok h)"
    "state_holds ?H 1 s1 (Some 1) ?D" "versions_below (1 + 1) s1" "only_new 1 TreeStore_new s1"
    using put_at_next_version_runs [OF _ _ sample_facts(1) new_store_holds(1) sample_facts(2) new_store_holds(2)] unfolding v by auto
  have "\<not> pruning_enabled s1" using s1(4) by (simp add: only_new_def TreeStore_new_def)
  from old_versions_kept [OF _ _ sample_facts(1) s1(2) sample_facts(5) _ this s1(2)] show ?thesis using s1(1,3) v by auto
qed

text \<open>
  C40. A read with proof returns what the last update left: after \<^verbatim>\<open>batch_put_value_set\<close> (and with the
  stale nodes deleted), \<^verbatim>\<open>get_with_proof\<close> finds exactly the updated entry of any key, or its absence,
  and the siblings of its proof lead from the leaf to the root hash that the update returned.
\<close>

theorem put_then_get_with_proof:
  fixes S :: "version reader"
  assumes "sorted_wrt ord_class.lexordp (map fst kvs)" and "prefix_free (insert key (dom M \<union> keys_of kvs))"
    and "[] \<notin> dom M" and "fresh v S" and "persisted H S pv M" and "length key < 500"
  shows "\<exists>root b val p. batch_put_value_set H S kvs None pv v = Ok (root, b) \<and>
    get_with_proof H (prune_batch S b) key v = Ok (val, p) \<and> entry_of val = upd M kvs key \<and>
    proof_root H key p = root \<and> leaf_ok (upd M kvs) key (proof_leaf p)"
proof -
  let ?M = "upd M kvs"
  have "prefix_free (dom M \<union> keys_of kvs)" using assms(2) by (rule prefix_free_subset) blast
  from put_value_set_tree [OF assms(1) this assms(3-5)] obtain root b
    where put: "batch_put_value_set H S kvs None pv v = Ok (root, b)" "stored_tree H (prune_batch S b) v ?M" "is_root_hash H ?M root" by blast
  have "prefix_free (insert key (dom ?M))" using assms(2) by (rule prefix_free_subset) (use dom_upd [of M kvs] in blast)
  from get_with_proof_tree [OF put(2) this assms(6)] obtain val p r
    where get: "get_with_proof H (prune_batch S b) key v = Ok (val, p)" "entry_of val = ?M key"
      "get_root_hash H (prune_batch S b) v = Ok r" "proof_root H key p = r" "leaf_ok ?M key (proof_leaf p)" by blast
  obtain node where "prune_batch S b (node_key v []) = Some node" "root_ok H (prune_batch S b) node ?M"
    using put(2) unfolding stored_tree_def by blast
  then have "is_root_hash H ?M r" using get(3) root_hash_ok by (auto simp: get_root_hash_def get_node_def)
  moreover obtain es where "distinct (map fst es)" "map_of es = ?M" using listing_exists [OF stored_tree_finite [OF put(2)]] by blast
  ultimately have "r = root" using put(3) unfolding is_root_hash_def by blast
  then show ?thesis using put(1) get by blast
qed

theorem put_then_get_with_proof_witness:
  "\<exists>root b val p. batch_put_value_set (\<lambda>x. 1 # x) (Map.empty :: version reader) [([7], Some ([5], 1)), ([8], Some ([6], 1))] None None 1 = Ok (root, b) \<and>
    get_with_proof (\<lambda>x. 1 # x) (prune_batch Map.empty b) [8] 1 = Ok (val, p) \<and> entry_of val = Some ([6], 1) \<and>
    proof_root (\<lambda>x. 1 # x) [8] p = root"
proof -
  let ?kvs = "[([7], Some ([5], 1)), ([8], Some ([6], 1))] :: version kvs"
  have "prefix_free (insert [8] (dom (Map.empty :: version entries) \<union> keys_of ?kvs))"
    by (simp add: prefix_free_def key_nibbles_def byte_nibbles_def) 
  from put_then_get_with_proof [OF _ this, of 1 Map.empty "\<lambda>x. 1 # x" None] show ?thesis
    by (auto simp: fresh_def persisted_def upd_def)
qed

end
