(* ===== verification/Spec2Isabelle.thy ===== *)
theory Spec2Isabelle
  imports Access_Controller_Safety Stake_Safety Fee_Settlement Fungible_Ledger Sbor_Payload State_Tree
begin

text \<open>
  A verification library for the Radix engine: the native blueprints, the fees, the authorization and
  the arithmetic that decide what a transaction may do with assets. Paths are under \<^verbatim>\<open>src/\<close>.

  \<^bold>\<open>The program.\<close> A transaction runs on a kernel that keeps call frames and substates; the system
  layer charges fees, checks the permission of every call, and runs blueprints. The blueprints modelled here are native Rust
  code of the engine: resources, the access controller, validators and the consensus manager. Amounts are the fixed-point numbers
  \<^verbatim>\<open>Decimal\<close> and \<^verbatim>\<open>PreciseDecimal\<close>.

  \<^bold>\<open>Conventions.\<close> A Rust result is a value of \<open>('e, 'a) res\<close>: \<open>Ok\<close>, \<open>Error\<close>, or \<open>Panics\<close>
  (\<open>Prelude\<close>). Integers are \<open>int\<close> with their range written out (\<open>in_range\<close>, \<open>i_checked\<close>, \<open>mod 2 ^ 64\<close> for
  wrapping counters), flags are words. A method on \<^verbatim>\<open>&mut self\<close> that keeps partial updates when it fails is a
  function to state and result (fees); a blueprint call is an \<open>action\<close>, which returns the new state only
  when it succeeds, since a failing call discards its transaction. An \<^verbatim>\<open>IndexMap\<close> is an association list
  with the order of its entries. Object ids are numbers of an allocator that never repeats.

  \<^bold>\<open>Arithmetic\<close>: \<open>Fixed_Point\<close> and \<open>Decimal_Text\<close> model \<^verbatim>\<open>radix-common/src/math\<close>. Checked operations,
  rounding in all modes, powers, conversions, parsing and printing; the two number types share definitions over width and
  scale, and a locale states their laws once. Shown: operations are exact or refuse, and printing round trips.

  \<^bold>\<open>Fees\<close>: \<open>Fee_Reserve\<close>, \<open>Fee_Metering\<close> (\<^verbatim>\<open>system_modules/costing/fee_reserve.rs\<close>), \<open>Fee_Settlement\<close>
  (\<^verbatim>\<open>fee_summary.rs\<close>, \<^verbatim>\<open>finalize_fees_for_commit\<close> of \<^verbatim>\<open>system_callback.rs\<close>). Every method of the reserve over
  its state record; conservation and limits in all reachable states, the loan gate, no panics, and that settlement
  charges what was metered and moves every XRD somewhere.

  \<^bold>\<open>Resources\<close>: \<open>Resource\<close>, \<open>Fungible\<close>, \<open>Fungible_Ledger\<close> (\<^verbatim>\<open>blueprints/resource\<close>). The fungible
  manager, vault, bucket and proof with all their operations on a \<open>world\<close> of one resource. A locale for lockable containers
  is interpreted for vaults and buckets. Shown: supply is conserved, proofs are backed by locks and can be dropped, and nothing
  panics: a tracked supply is checked, an untracked one is bounded by the bound on a mint and the number of mints. The other
  invariants of an untracked supply are over states in which the holdings fit a Decimal.

  \<^bold>\<open>Time\<close>: \<open>Date_Time\<close> (\<^verbatim>\<open>radix-common/src/time\<close>) and \<open>Consensus_Clock\<close>. Calendar conversion, exact arithmetic,
  text; the clock of the consensus manager never goes back and its minutes follow its milliseconds.

  \<^bold>\<open>Authorization\<close>: \<open>Authorization\<close>, \<open>Authorization_Laws\<close> (\<^verbatim>\<open>system_modules/auth\<close>, \<^verbatim>\<open>role_assignment\<close>,
  \<^verbatim>\<open>proof_rule.rs\<close>). Access rules, auth zones created at calls, and role assignments. The evaluation
  against zones refines a declarative meaning of rules over the evidence visible to a call, but for the error of a rule on a
  non-fungible that meets a fungible proof; what a call into another context sees is given for every caller. The walk over parent zones has
  the number of zones as fuel; it is shown never to run out in a reachable state.

  \<^bold>\<open>Access controller\<close>: \<open>Access_Controller\<close> with \<open>_Laws\<close> and \<open>_Safety\<close> (\<^verbatim>\<open>blueprints/access_controller/v2\<close>).
  Five state machines behind the authorization of the system. The log of successful calls is the specification; a change of the
  rules needs two parties or the announced delay. The vault of the asset is used through the locale \<open>vault_contract\<close>,
  interpreted for the fungible vault; the non-fungible vault is a parameter, and only the emptiness of the vault after a
  withdrawal rests on the contract. Confirmations, quick and timed, go through.

  \<^bold>\<open>Consensus\<close>: \<open>Validator\<close>, \<open>Consensus_Manager\<close> (\<^verbatim>\<open>blueprints/consensus_manager\<close>), over the state
  \<open>consensus_world\<close>: the substates of the manager, the validators, the XRD ledger and the ledger of stake units of each
  validator. \<open>Stake_Effects\<close> reads resource calls as updates of amounts, \<open>Stake_Pool\<close> abstracts validators to pools of XRD
  against stake units, \<open>Stake_Safety\<close> shows for every operation, loops of an epoch change included,
  that no pool is diluted, and that only an epoch change mints, within the budget of an epoch.

  \<^bold>\<open>SBOR\<close>, the binary format of every payload, substate and manifest. \<open>Sbor_Codec\<close> models \<^verbatim>\<open>VecEncoder\<close>,
  \<^verbatim>\<open>VecDecoder\<close> and the codec of \<^verbatim>\<open>Value\<close> (\<^verbatim>\<open>sbor/src/{encoder,decoder,value,value_kind}.rs\<close>, \<^verbatim>\<open>sbor/src/codec\<close>) over the
  state of an encoder or decoder. A record of functions (\<open>custom_codec\<close>) stands for the custom value types; the locale \<open>custom_sbor\<close>
  states what they promise, and is interpreted for the Scrypto and the manifest values (\<open>Sbor_Custom\<close>,
  \<^verbatim>\<open>radix-common/src/data\<close>). The decoder recurses over the levels left below its depth limit; \<open>decode_deeper_unfold\<close> shows
  that this is the recursion of the code. \<open>Sbor_Format\<close> gives the bytes of a value and shows that the decoder accepts exactly
  them. \<open>Sbor_Traversal\<close> models the streaming \<^verbatim>\<open>VecTraverser\<close> and shows that its events are those of the decoded
  value; the loop that drains it is a partial function, shown to return on every input. \<open>Sbor_Payload\<close> has raw values
  and the properties of payloads.

  \<^bold>\<open>State tree\<close>, the Merkle tree over all substates (\<^verbatim>\<open>radix-substate-store-impls/src/state_tree\<close>). \<open>Merkle_Nodes\<close> has
  nibble paths, nodes and the hash of a node over its bitmaps (\<^verbatim>\<open>types.rs\<close>), \<open>Merkle_Spec\<close> the reference hash of a sparse
  Merkle tree over a list of leaves, \<open>Merkle_Tree\<close> the batch updates and reads of \<^verbatim>\<open>jellyfish.rs\<close>. The recursions over the
  levels of a tree have a bound from the longest key (\<open>levels_for\<close>), shown to suffice. \<open>Merkle_Laws\<close>, \<open>Merkle_Update\<close> and
  \<open>Merkle_Store\<close> show that an update makes a tree of the updated map, also after the stale nodes are deleted, and \<open>Merkle_Proof\<close>
  that reads return the entries with proofs that lead to the root. \<open>Tier_Store\<close> models the node store and the three tiers up to
  \<^verbatim>\<open>put_at_next_version\<close>, \<open>Tier_Laws\<close> shows that the tiers never touch each other's nodes. In \<open>State_Tree\<close> the locale \<open>lower_tiers\<close>
  states what a tier needs of the tiers below it; it is interpreted for partitions and for entities. Shown: the tree refines the map of
  substates, its root depends on the substates only, and old versions stay readable.

  \<^bold>\<open>Parameters.\<close> Code outside the models enters as arguments: hashes of caller badges (\<open>badge_hashes\<close>), the vault of a
  controlled asset and the minting of recovery badges (\<open>asset_api\<close>), the claim tokens of validators
  (\<open>claim_api\<close>), the order of database keys in the index scan (\<open>key_hash\<close>), the price of a dollar, the hash
  function of the state tree (\<open>hasher\<close>; where an empty tier is recognised by its root, it is assumed never to return the placeholder).

  \<^bold>\<open>Not modelled.\<close> The kernel, track and substate store, the WebAssembly VM, transaction formats and their validation,
  the codecs that are derived for Rust types, SBOR schemas and typed traversal, non-fungible resources, the SDKs, clients and tools. Substate versions, schemas and package
  definitions of the blueprints are declarations, and metadata has no effect on the behaviour stated here.
\<close>

end
